(* ===== verification/Prelude.thy ===== *)
theory Prelude
  imports Complex_Main "HOL-Library.Word"
begin

unbundle bit_operations_syntax

text \<open>
  Shared vocabulary of the development: the C integer types of the host the
  programs are compiled for, the collections of simplification rules that the
  component theories use, and generic lemmas that read machine words as integers.

  The C types follow the LP64 ABI of the x86-64 Linux host the simulator of
  \<^verbatim>\<open>src/riscv-tools\<close> is built for (the prebuilt tools of the repository are such
  binaries): \<^verbatim>\<open>uint_fast16_t\<close>, \<^verbatim>\<open>uint_fast32_t\<close> and \<^verbatim>\<open>uint_fast64_t\<close> are 64 bits wide
  and \<^verbatim>\<open>uint_fast8_t\<close> is 8 bits wide. Unsigned arithmetic on them wraps, as it does on
  \<^typ>\<open>'a word\<close>. Signed integers of which the code only computes small exponents and
  shift distances (\<^verbatim>\<open>int_fast16_t\<close>) are \<^typ>\<open>int\<close>; a conversion of one of them to an
  unsigned type is written out.
\<close>

section \<open>C integer types\<close>

type_synonym u8 = "8 word"
type_synonym u16 = "16 word"
type_synonym u32 = "32 word"
type_synonym u64 = "64 word"

section \<open>Words read as integers\<close>

text \<open>
  \<open>uint_simps\<close> collects the rules that push \<open>uint\<close> through the operations of the
  code when no bit is lost; the side conditions are linear facts on \<open>uint\<close>.
\<close>

named_theorems uint_simps

text \<open>Shifts of a disjunction are read as one word, not distributed.\<close>

declare push_bit_or [simp del]

lemma uint_drop [uint_simps]: "uint (drop_bit n (w :: 'a::len word)) = uint w div 2 ^ n"
proof -
  have "uint (drop_bit n w) = drop_bit n (uint w)"
    by (rule bit_eqI) (simp add: bit_simps)
  then show ?thesis by (simp only: drop_bit_eq_div [where 'a = int])
qed

lemma uint_push:
  "uint (push_bit n (w :: 'a::len word)) = (uint w * 2 ^ n) mod 2 ^ LENGTH('a)"
  by (simp only: unsigned_push_bit_eq) (simp add: push_bit_eq_mult take_bit_eq_mod)

lemma uint_push_small [uint_simps]:
  "uint w * 2 ^ n < 2 ^ LENGTH('a) \<Longrightarrow> uint (push_bit n (w :: 'a::len word)) = uint w * 2 ^ n"
  by (simp add: uint_push)

lemma and_low_mask: "w AND (2 ^ n - 1) = take_bit n (w :: 'a::len word)"
  by (simp add: take_bit_eq_mask mask_eq_exp_minus_1)

lemma uint_take [uint_simps]: "uint (take_bit n (w :: 'a::len word)) = uint w mod 2 ^ n"
  by (simp only: unsigned_take_bit_eq) (simp add: take_bit_eq_mod)

lemma uint_add_small [uint_simps]:
  "uint a + uint b < 2 ^ LENGTH('a) \<Longrightarrow> uint ((a :: 'a::len word) + b) = uint a + uint b"
  by (simp add: uint_plus_if')

lemma uint_sub_small [uint_simps]:
  "uint b \<le> uint a \<Longrightarrow> uint ((a :: 'a::len word) - b) = uint a - uint b"
  by (simp add: uint_sub_if')

lemma uint_mult_small [uint_simps]:
  "uint a * uint b < 2 ^ LENGTH('a) \<Longrightarrow> uint ((a :: 'a::len word) * b) = uint a * uint b"
  by (simp add: uint_word_ariths)

lemma uint_ucast: "uint (ucast (w :: 'a::len word) :: 'b::len word) = uint w mod 2 ^ LENGTH('b)"
  by (simp add: unsigned_ucast_eq take_bit_eq_mod)

lemma uint_ucast_small [uint_simps]:
  "uint w < 2 ^ LENGTH('b) \<Longrightarrow> uint (ucast (w :: 'a::len word) :: 'b::len word) = uint w"
  by (simp add: uint_ucast)

lemma uint_of_bool [uint_simps]: "uint (of_bool b :: 'a::len word) = of_bool b"
  by (cases b) simp_all

lemma uint_or_one [uint_simps]:
  "uint ((w :: 'a::len word) OR of_bool b) = uint w + of_bool (b \<and> even (uint w))"
proof (cases b)
  case True
  then have "uint (w OR of_bool b) = uint w OR 1" by (simp only: unsigned_or_eq) simp
  then show ?thesis using True by (simp add: or_one_eq)
qed simp

text \<open>Or-ing fields that occupy different bits adds them.\<close>

lemma uint_or_disjoint:
  assumes a: "uint (w :: 'a::len word) mod 2 ^ n = 0" and b: "uint v < 2 ^ n"
  shows "uint (w OR v) = uint w + uint v"
proof -
  have "uint w AND uint v = 0"
  proof (rule bit_eqI)
    fix i
    show "bit (uint w AND uint v) i = bit (0::int) i"
    proof (cases "i < n")
      case True
      then have "bit (uint w) i = bit (take_bit n (uint w)) i"
        by (simp add: bit_take_bit_iff)
      then have "\<not> bit (uint w) i" using a by (simp add: take_bit_eq_mod)
      then show ?thesis by (simp add: bit_and_iff)
    next
      case False
      have "uint v = take_bit n (uint v)" using b by (simp add: take_bit_eq_mod)
      then have "bit (uint v) i = bit (take_bit n (uint v)) i" by simp
      then have "\<not> bit (uint v) i" using False by (simp add: bit_take_bit_iff)
      then show ?thesis by (simp add: bit_and_iff)
    qed
  qed
  then show ?thesis by (simp add: unsigned_or_eq disjunctive_add_eq_or)
qed

lemma uint_eq_0 [simp]: "uint (w :: 'a::len word) = 0 \<longleftrightarrow> w = 0"
  by (simp add: unsigned_eq_0_iff)

lemma word_eq_uint: "(a :: 'a::len word) = b \<longleftrightarrow> uint a = uint b"
  by (rule word_uint_eq_iff)

lemma word_less_uint: "(a :: 'a::len word) < b \<longleftrightarrow> uint a < uint b"
  by (simp add: word_less_def)

lemma word_le_uint: "(a :: 'a::len word) \<le> b \<longleftrightarrow> uint a \<le> uint b"
  by (simp add: word_le_def)

lemma push_eq_0_iff:
  assumes "d \<le> LENGTH('a)"
  shows "push_bit (LENGTH('a) - d) (a :: 'a::len word) = 0 \<longleftrightarrow> uint a mod 2 ^ d = 0"
proof -
  have p: "(2::int) ^ LENGTH('a) = 2 ^ d * 2 ^ (LENGTH('a) - d)"
    using assms by (simp add: power_add [symmetric])
  have "push_bit (LENGTH('a) - d) a = 0 \<longleftrightarrow> uint (push_bit (LENGTH('a) - d) a) = 0" by simp
  also have "\<dots> \<longleftrightarrow> 2 ^ LENGTH('a) dvd uint a * 2 ^ (LENGTH('a) - d)"
    by (simp only: uint_push mod_eq_0_iff_dvd)
  also have "\<dots> \<longleftrightarrow> uint a mod 2 ^ d = 0" by (simp add: p mod_eq_0_iff_dvd)
  finally show ?thesis .
qed

lemma unat_take_neg:
  assumes "0 < unat (c :: 'a::len word)" "unat c < 2 ^ k" "k \<le> LENGTH('a)"
  shows "unat (take_bit k (- c)) = 2 ^ k - unat c"
proof -
  have u: "int (unat c) = uint c" by simp
  have c: "0 < uint c" "uint c < 2 ^ k" using assms(1,2) u by (simp_all flip: of_nat_less_iff [where 'a = int])
  have "uint (take_bit k (- c)) = (- uint c) mod 2 ^ LENGTH('a) mod 2 ^ k"
    by (simp add: uint_take uint_word_ariths)
  also have "\<dots> = (- uint c) mod 2 ^ k"
    using assms(3) le_imp_power_dvd [of k "LENGTH('a)" "2::int"] by (simp add: mod_mod_cancel)
  also have "\<dots> = (2 ^ k - uint c) mod 2 ^ k" by (simp add: mod_diff_eq [symmetric])
  also have "\<dots> = 2 ^ k - uint c" using c by (intro mod_pos_pos_trivial) simp_all
  finally have "int (unat (take_bit k (- c))) = 2 ^ k - int (unat c)" by simp
  also have "\<dots> = int (2 ^ k - unat c)" using assms(2) by (simp add: of_nat_diff)
  finally show ?thesis by (simp only: of_nat_eq_iff)
qed

lemma unat_neg_and_63:
  "0 < unat (c :: 'a::len word) \<Longrightarrow> unat c < 64 \<Longrightarrow> 6 \<le> LENGTH('a) \<Longrightarrow> unat (- c AND 63) = 64 - unat c"
  using unat_take_neg [of c 6] and_low_mask [of "- c" 6] by simp

lemma unat_neg_and_31:
  "0 < unat (c :: 'a::len word) \<Longrightarrow> unat c < 32 \<Longrightarrow> 5 \<le> LENGTH('a) \<Longrightarrow> unat (- c AND 31) = 32 - unat c"
  using unat_take_neg [of c 5] and_low_mask [of "- c" 5] by simp

lemma uint_clear_last:
  "uint ((w :: 'a::len word) AND NOT (of_bool b)) = (if b then uint w - uint w mod 2 else uint w)"
proof (cases b)
  case True
  have "uint (w AND NOT 1) = unset_bit 0 (uint w)"
    by (rule bit_eqI) (auto simp: bit_simps bit_imp_le_length)
  then show ?thesis using True by (simp add: unset_bit_0 minus_mod_eq_mult_div)
qed simp

lemma xor_eq_0_iff: "(a :: 'a::len word) XOR b = 0 \<longleftrightarrow> a = b"
  by (metis xor.assoc xor.left_neutral xor_self_eq xor.right_neutral)

lemma uint_ucast_up [uint_simps]:
  "LENGTH('a) \<le> LENGTH('b) \<Longrightarrow> uint (ucast (w :: 'a::len word) :: 'b::len word) = uint w"
proof (rule uint_ucast_small)
  assume "LENGTH('a) \<le> LENGTH('b)"
  then have "(2::int) ^ LENGTH('a) \<le> 2 ^ LENGTH('b)" by (intro power_increasing) simp_all
  then show "uint w < 2 ^ LENGTH('b)" using uint_lt2p [of w] by linarith
qed

lemma unat_word_of_int:
  assumes "0 \<le> i" "i < 2 ^ LENGTH('a)"
  shows "unat (word_of_int i :: 'a::len word) = nat i"
proof -
  have "uint (word_of_int i :: 'a word) = i" using assms by (simp add: uint_word_of_int)
  then show ?thesis by (metis nat_uint_eq)
qed

lemma u16_of_neg: "- (2 ^ 15) \<le> e \<Longrightarrow> e < 0 \<Longrightarrow> 0 \<le> m \<Longrightarrow> m \<le> 2 ^ 15 \<Longrightarrow> uint c = m \<Longrightarrow> c \<le> (word_of_int e :: u16)"
proof -
  assume a: "- (2 ^ 15) \<le> e" "e < 0" "0 \<le> m" "m \<le> 2 ^ 15" "uint c = m"
  have "e mod 2 ^ 16 = (e + 2 ^ 16) mod 2 ^ 16" by simp
  also have "\<dots> = e + 2 ^ 16" using a by (intro mod_pos_pos_trivial) simp_all
  finally show ?thesis using a by (simp add: word_le_uint uint_word_of_int)
qed

lemma u16_of_pos:
  assumes "0 \<le> e" "e < 2 ^ 16"
  shows "c \<le> (word_of_int e :: u16) \<longleftrightarrow> uint c \<le> e" "(word_of_int e :: u16) < c \<longleftrightarrow> e < uint c"
  using assms by (simp_all add: word_le_uint word_less_uint uint_word_of_int)

lemma uint_and_field:
  assumes "c = push_bit n (2 ^ j - 1 :: 'a::len word)" "n + j \<le> LENGTH('a)"
  shows "uint (w AND c) = uint w div 2 ^ n mod 2 ^ j * 2 ^ n"
proof -
  have f: "w AND c = push_bit n (take_bit j (drop_bit n w))"
    by (rule bit_eqI) (auto simp: assms(1) bit_simps simp flip: mask_eq_exp_minus_1)
  have "uint (take_bit j (drop_bit n w)) * 2 ^ n < 2 ^ j * 2 ^ n"
    by (rule mult_strict_right_mono) (simp_all add: uint_take)
  also have "\<dots> \<le> 2 ^ LENGTH('a)" unfolding power_add [symmetric] using assms(2) by (intro power_increasing) simp_all
  finally show ?thesis unfolding f by (subst uint_push_small) (simp_all add: uint_take uint_drop)
qed

lemma uint_add_carry:
  "uint ((a :: 'a::len word) + b) = uint a + uint b - of_bool (a + b < a) * 2 ^ LENGTH('a)"
proof -
  have "0 \<le> uint a" "0 \<le> uint b" "uint a < 2 ^ LENGTH('a)" "uint b < 2 ^ LENGTH('a)" by simp_all
  then show ?thesis by (auto simp: word_less_uint uint_plus_if')
qed

lemma uint_sub_borrow:
  "uint ((a :: 'a::len word) - b) = uint a - uint b + of_bool (a < b) * 2 ^ LENGTH('a)"
  by (auto simp: word_less_uint uint_sub_if')

declare drop_bit_or [simp del]

lemma len64: "LENGTH(64) = 64" by simp

end
