(* ===== verification/Softfloat_State.thy ===== *)
theory Softfloat_State
  imports Prelude
begin

text \<open>
  The global state of SoftFloat and the field macros of its two formats:
  \<^verbatim>\<open>softfloat.h\<close>, \<^verbatim>\<open>softfloat_state.c\<close>, \<^verbatim>\<open>softfloat_raiseFlags.c\<close>, the macros of
  \<^verbatim>\<open>internals.h\<close> and the RISC-V choices of \<^verbatim>\<open>specialize.h\<close>.
  The three global variables of the library are the fields of a record; every operation
  that may raise a flag takes the record and returns it with its result.
  A \<^verbatim>\<open>float32_t\<close> is its bit pattern, a 32-bit word; a \<^verbatim>\<open>float64_t\<close> a 64-bit word.
\<close>

section \<open>Modes and flags\<close>

abbreviation (input) softfloat_tininess_beforeRounding :: u8 where
  "softfloat_tininess_beforeRounding \<equiv> 0"

abbreviation (input) softfloat_tininess_afterRounding :: u8 where
  "softfloat_tininess_afterRounding \<equiv> 1"

abbreviation (input) softfloat_round_near_even :: u8 where "softfloat_round_near_even \<equiv> 0"
abbreviation (input) softfloat_round_minMag :: u8 where "softfloat_round_minMag \<equiv> 1"
abbreviation (input) softfloat_round_min :: u8 where "softfloat_round_min \<equiv> 2"
abbreviation (input) softfloat_round_max :: u8 where "softfloat_round_max \<equiv> 3"
abbreviation (input) softfloat_round_near_maxMag :: u8 where "softfloat_round_near_maxMag \<equiv> 4"

abbreviation (input) softfloat_flag_inexact :: u8 where "softfloat_flag_inexact \<equiv> 1"
abbreviation (input) softfloat_flag_underflow :: u8 where "softfloat_flag_underflow \<equiv> 2"
abbreviation (input) softfloat_flag_overflow :: u8 where "softfloat_flag_overflow \<equiv> 4"
abbreviation (input) softfloat_flag_infinite :: u8 where "softfloat_flag_infinite \<equiv> 8"
abbreviation (input) softfloat_flag_invalid :: u8 where "softfloat_flag_invalid \<equiv> 16"

record softfloat_state =
  softfloat_roundingMode :: u8
  softfloat_detectTininess :: u8
  softfloat_exceptionFlags :: u8
  extF80_roundingPrecision :: u8

definition softfloat_initial_state :: softfloat_state where
  "softfloat_initial_state =
     \<lparr>softfloat_roundingMode = softfloat_round_near_even,
      softfloat_detectTininess = softfloat_tininess_afterRounding,
      softfloat_exceptionFlags = 0,
      extF80_roundingPrecision = 80\<rparr>"

definition softfloat_raiseFlags :: "u8 \<Rightarrow> softfloat_state \<Rightarrow> softfloat_state" where
  "softfloat_raiseFlags flags st =
     st\<lparr>softfloat_exceptionFlags := softfloat_exceptionFlags st OR flags\<rparr>"

lemma raiseFlags_sel [simp]:
  "softfloat_roundingMode (softfloat_raiseFlags f st) = softfloat_roundingMode st"
  "softfloat_detectTininess (softfloat_raiseFlags f st) = softfloat_detectTininess st"
  "softfloat_exceptionFlags (softfloat_raiseFlags f st) = softfloat_exceptionFlags st OR f"
  by (simp_all add: softfloat_raiseFlags_def)

lemma raiseFlags_zero [simp]: "softfloat_raiseFlags 0 st = st"
  by (simp add: softfloat_raiseFlags_def)

lemma raiseFlags_raiseFlags [simp]:
  "softfloat_raiseFlags f (softfloat_raiseFlags g st) = softfloat_raiseFlags (g OR f) st"
  by (simp add: softfloat_raiseFlags_def or.assoc)

section \<open>Field macros of the single-precision format\<close>

text \<open>
  The macros take a \<^verbatim>\<open>uint_fast32_t\<close> (64 bits here). \<^verbatim>\<open>packToF32UI\<close> adds its two shifted
  32-bit terms as \<^verbatim>\<open>uint32_t\<close> and the significand as \<^verbatim>\<open>uint_fast32_t\<close>.
\<close>

definition signF32UI :: "u64 \<Rightarrow> bool" where
  "signF32UI a \<longleftrightarrow> drop_bit 31 (ucast a :: u32) \<noteq> 0"

definition expF32UI :: "u64 \<Rightarrow> int" where
  "expF32UI a = uint (drop_bit 23 a AND 0xFF)"

definition fracF32UI :: "u64 \<Rightarrow> u64" where
  "fracF32UI a = a AND 0x007FFFFF"

definition packToF32UI :: "bool \<Rightarrow> int \<Rightarrow> u64 \<Rightarrow> u64" where
  "packToF32UI sign e sig =
     ucast (push_bit 31 (of_bool sign :: u32) + push_bit 23 (word_of_int e :: u32)) + sig"

definition isNaNF32UI :: "u64 \<Rightarrow> bool" where
  "isNaNF32UI a \<longleftrightarrow> (a AND 0x7F800000) = 0x7F800000 \<and> (a AND 0x007FFFFF) \<noteq> 0"

section \<open>Field macros of the double-precision format\<close>

definition signF64UI :: "u64 \<Rightarrow> bool" where
  "signF64UI a \<longleftrightarrow> drop_bit 63 a \<noteq> 0"

definition expF64UI :: "u64 \<Rightarrow> int" where
  "expF64UI a = uint (drop_bit 52 a AND 0x7FF)"

definition fracF64UI :: "u64 \<Rightarrow> u64" where
  "fracF64UI a = a AND 0x000FFFFFFFFFFFFF"

definition packToF64UI :: "bool \<Rightarrow> int \<Rightarrow> u64 \<Rightarrow> u64" where
  "packToF64UI sign e sig =
     push_bit 63 (of_bool sign) + push_bit 52 (word_of_int e) + sig"

definition isNaNF64UI :: "u64 \<Rightarrow> bool" where
  "isNaNF64UI a \<longleftrightarrow>
     (a AND 0x7FF0000000000000) = 0x7FF0000000000000 \<and> (a AND 0x000FFFFFFFFFFFFF) \<noteq> 0"

section \<open>Special values and NaNs\<close>

text \<open>
  The values \<^verbatim>\<open>specialize.h\<close> chooses for RISC-V: integer results of invalid
  conversions, the canonical NaN, and NaN propagation that always gives the canonical
  NaN. The results of invalid conversions are bit patterns.
\<close>

abbreviation (input) ui32_fromPosOverflow :: u64 where "ui32_fromPosOverflow \<equiv> 0xFFFFFFFF"
abbreviation (input) ui32_fromNegOverflow :: u64 where "ui32_fromNegOverflow \<equiv> 0"
abbreviation (input) ui32_fromNaN :: u64 where "ui32_fromNaN \<equiv> 0xFFFFFFFF"
abbreviation (input) i32_fromPosOverflow :: int where "i32_fromPosOverflow \<equiv> 0x7FFFFFFF"
abbreviation (input) i32_fromNegOverflow :: int where "i32_fromNegOverflow \<equiv> - 0x7FFFFFFF - 1"
abbreviation (input) i32_fromNaN :: int where "i32_fromNaN \<equiv> 0x7FFFFFFF"
abbreviation (input) ui64_fromPosOverflow :: u64 where "ui64_fromPosOverflow \<equiv> 0xFFFFFFFFFFFFFFFF"
abbreviation (input) ui64_fromNegOverflow :: u64 where "ui64_fromNegOverflow \<equiv> 0"
abbreviation (input) ui64_fromNaN :: u64 where "ui64_fromNaN \<equiv> 0xFFFFFFFFFFFFFFFF"
abbreviation (input) i64_fromPosOverflow :: int where "i64_fromPosOverflow \<equiv> 0x7FFFFFFFFFFFFFFF"
abbreviation (input) i64_fromNegOverflow :: int where "i64_fromNegOverflow \<equiv> - 0x7FFFFFFFFFFFFFFF - 1"
abbreviation (input) i64_fromNaN :: int where "i64_fromNaN \<equiv> 0x7FFFFFFFFFFFFFFF"

abbreviation (input) defaultNaNF32UI :: u64 where "defaultNaNF32UI \<equiv> 0x7FC00000"
abbreviation (input) defaultNaNF64UI :: u64 where "defaultNaNF64UI \<equiv> 0x7FF8000000000000"

definition softfloat_isSigNaNF32UI :: "u64 \<Rightarrow> bool" where
  "softfloat_isSigNaNF32UI uiA \<longleftrightarrow>
     (uiA AND 0x7FC00000) = 0x7F800000 \<and> (uiA AND 0x003FFFFF) \<noteq> 0"

definition softfloat_isSigNaNF64UI :: "u64 \<Rightarrow> bool" where
  "softfloat_isSigNaNF64UI uiA \<longleftrightarrow>
     (uiA AND 0x7FF8000000000000) = 0x7FF0000000000000 \<and> (uiA AND 0x0007FFFFFFFFFFFF) \<noteq> 0"

definition softfloat_f32UIToCommonNaN :: "u64 \<Rightarrow> softfloat_state \<Rightarrow> softfloat_state" where
  "softfloat_f32UIToCommonNaN uiA st =
     (if uiA AND 0x00400000 = 0 then softfloat_raiseFlags softfloat_flag_invalid st else st)"

definition softfloat_f64UIToCommonNaN :: "u64 \<Rightarrow> softfloat_state \<Rightarrow> softfloat_state" where
  "softfloat_f64UIToCommonNaN uiA st =
     (if uiA AND 0x0008000000000000 = 0 then softfloat_raiseFlags softfloat_flag_invalid st
      else st)"

definition softfloat_propagateNaNF32UI ::
  "u64 \<Rightarrow> u64 \<Rightarrow> softfloat_state \<Rightarrow> u64 \<times> softfloat_state" where
  "softfloat_propagateNaNF32UI uiA uiB st =
     (defaultNaNF32UI,
      if softfloat_isSigNaNF32UI uiA \<or> softfloat_isSigNaNF32UI uiB
      then softfloat_raiseFlags softfloat_flag_invalid st else st)"

definition softfloat_propagateNaNF64UI ::
  "u64 \<Rightarrow> u64 \<Rightarrow> softfloat_state \<Rightarrow> u64 \<times> softfloat_state" where
  "softfloat_propagateNaNF64UI uiA uiB st =
     (defaultNaNF64UI,
      if softfloat_isSigNaNF64UI uiA \<or> softfloat_isSigNaNF64UI uiB
      then softfloat_raiseFlags softfloat_flag_invalid st else st)"

end
