(* ===== verification/Float_Spec.thy ===== *)
theory Float_Spec
  imports Softfloat_State
begin

text \<open>
  The specification the floating-point operations are proved against. A format has a
  precision and an exponent width; an encoding is a non-negative integer with a sign, an
  exponent and a fraction field, and a finite encoding has a real magnitude. A result is
  correct (\<open>ieee_result\<close>) when its encoding is the IEEE 754 rounding of the exact real
  magnitude in the current rounding mode, overflow included, and the flags raised are
  exactly those of that rounding, with tininess detected as the state asks.

  The first half relates the integers the code rounds to the reals it stands for:
  \<open>sticky g y n\<close> says that the integer \<open>n\<close> and the real \<open>y\<close> compare alike with every
  multiple of \<open>g\<close>, which is what a significand with a jammed last bit guarantees and all
  that rounding at a coarser position needs.
\<close>

section \<open>Rounding a real to an integer\<close>

definition round_int :: "u8 \<Rightarrow> bool \<Rightarrow> real \<Rightarrow> int" where
  "round_int rm s y =
     (if rm = softfloat_round_near_even
      then (if y - of_int \<lfloor>y\<rfloor> < 1 / 2 then \<lfloor>y\<rfloor>
            else if 1 / 2 < y - of_int \<lfloor>y\<rfloor> then \<lfloor>y\<rfloor> + 1
            else if even \<lfloor>y\<rfloor> then \<lfloor>y\<rfloor> else \<lfloor>y\<rfloor> + 1)
      else if rm = softfloat_round_near_maxMag
      then (if y - of_int \<lfloor>y\<rfloor> < 1 / 2 then \<lfloor>y\<rfloor> else \<lfloor>y\<rfloor> + 1)
      else if rm = (if s then softfloat_round_min else softfloat_round_max)
      then \<lceil>y\<rceil> else \<lfloor>y\<rfloor>)"

section \<open>Sticky significands\<close>

definition sticky :: "int \<Rightarrow> real \<Rightarrow> int \<Rightarrow> bool" where
  "sticky g y n \<longleftrightarrow>
     (\<forall>m. (y < of_int (m * g) \<longleftrightarrow> n < m * g) \<and> (of_int (m * g) < y \<longleftrightarrow> m * g < n))"

definition jam_shift :: "nat \<Rightarrow> int \<Rightarrow> int" where
  "jam_shift d n = n div 2 ^ d + of_bool (n mod 2 ^ d \<noteq> 0 \<and> even (n div 2 ^ d))"

lemma jam_shift_0 [simp]: "jam_shift 0 n = n"
  by (simp add: jam_shift_def)

lemma sticky_refl [simp]: "sticky g (of_int n) n"
  by (simp add: sticky_def) (metis of_int_less_iff of_int_mult)

lemma stickyD:
  assumes "sticky g y n" and "g dvd t"
  shows "y < of_int t \<longleftrightarrow> n < t" and "of_int t < y \<longleftrightarrow> t < n" and "of_int t = y \<longleftrightarrow> t = n"
proof -
  from assms(2) obtain m where "t = m * g" by (metis dvd_def mult.commute)
  with assms(1) show a: "y < of_int t \<longleftrightarrow> n < t" and b: "of_int t < y \<longleftrightarrow> t < n"
    unfolding sticky_def by blast+
  show "of_int t = y \<longleftrightarrow> t = n"
    using a b by (metis less_irrefl linorder_neqE_linordered_idom of_int_less_iff)
qed

lemma sticky_cell:
  assumes "of_int (K * g) < y" "y < of_int ((K + 1) * g)" "K * g < n" "n < (K + 1) * g" "0 < g"
  shows "sticky g y n"
  unfolding sticky_def
proof (intro allI conjI)
  fix m
  have c: "m \<le> K \<Longrightarrow> m * g \<le> K * g" "K + 1 \<le> m \<Longrightarrow> (K + 1) * g \<le> m * g" using assms(5) by simp_all
  have r: "m \<le> K \<Longrightarrow> real_of_int (m * g) \<le> of_int (K * g)" "K + 1 \<le> m \<Longrightarrow> real_of_int ((K + 1) * g) \<le> of_int (m * g)"
    unfolding of_int_le_iff by (rule c, simp)+
  show "y < of_int (m * g) \<longleftrightarrow> n < m * g" "of_int (m * g) < y \<longleftrightarrow> m * g < n"
    using assms(1-4) c r by (cases "m \<le> K"; linarith)+
qed

lemma sticky_coarser:
  assumes "sticky g y n" and "g dvd h"
  shows "sticky h y n"
  using stickyD(1,2) [OF assms(1)] assms(2) unfolding sticky_def by (meson dvd_mult)

lemma sticky_add:
  assumes "sticky g y n" and "g dvd c"
  shows "sticky g (of_int c + y) (c + n)"
  unfolding sticky_def
proof (intro allI)
  fix m
  have d: "g dvd m * g - c" using assms(2) by simp
  show "(of_int c + y < of_int (m * g) \<longleftrightarrow> c + n < m * g) \<and>
        (of_int (m * g) < of_int c + y \<longleftrightarrow> m * g < c + n)"
    using stickyD(1,2) [OF assms(1) d] by (auto simp: algebra_simps)
qed

lemma sticky_diff:
  assumes "sticky g y n" and "g dvd c"
  shows "sticky g (of_int c - y) (c - n)"
  unfolding sticky_def
proof (intro allI)
  fix m
  have d: "g dvd c - m * g" using assms(2) by simp
  show "(of_int c - y < of_int (m * g) \<longleftrightarrow> c - n < m * g) \<and>
        (of_int (m * g) < of_int c - y \<longleftrightarrow> m * g < c - n)"
    using stickyD(1,2) [OF assms(1) d] by (auto simp: algebra_simps)
qed

lemma sticky_scale:
  assumes "sticky g y n"
  shows "sticky (2 ^ j * g) (2 ^ j * y) (2 ^ j * n)"
  unfolding sticky_def
proof (intro allI)
  fix m
  have d: "g dvd m * g" by simp
  have "(2 ^ j * y < 2 ^ j * of_int (m * g)) = (y < of_int (m * g))"
       "(2 ^ j * of_int (m * g) < 2 ^ j * y) = (of_int (m * g) < y)" by simp_all
  then show "(2 ^ j * y < of_int (m * (2 ^ j * g)) \<longleftrightarrow> 2 ^ j * n < m * (2 ^ j * g)) \<and>
        (of_int (m * (2 ^ j * g)) < 2 ^ j * y \<longleftrightarrow> m * (2 ^ j * g) < 2 ^ j * n)"
    using stickyD(1,2) [OF assms d] by (simp add: mult.left_commute)
qed

lemma jam_shift_less:
  assumes "even t"
  shows "jam_shift d n < t \<longleftrightarrow> n < t * 2 ^ d" and "t < jam_shift d n \<longleftrightarrow> t * 2 ^ d < n"
proof -
  define q r where "q = n div 2 ^ d" and "r = n mod 2 ^ d"
  have n: "n = q * 2 ^ d + r" by (simp only: q_def r_def div_mult_mod_eq)
  have r: "0 \<le> r" "r < 2 ^ d" by (simp_all add: r_def)
  have j: "jam_shift d n = q + of_bool (r \<noteq> 0 \<and> even q)" by (simp add: jam_shift_def q_def r_def)
  have lt: "q < t \<longleftrightarrow> n < t * 2 ^ d"
  proof
    assume "q < t"
    then have "(q + 1) * 2 ^ d \<le> t * 2 ^ d" by (intro mult_right_mono) auto
    with n r show "n < t * 2 ^ d" by (simp add: algebra_simps)
  next
    assume a: "n < t * 2 ^ d"
    show "q < t"
    proof (rule ccontr)
      assume "\<not> q < t"
      then have "t * 2 ^ d \<le> q * 2 ^ d" by (intro mult_right_mono) auto
      with n r a show False by simp
    qed
  qed
  have eq: "q = t \<and> r = 0 \<longleftrightarrow> n = t * 2 ^ d"
  proof
    assume "n = t * 2 ^ d"
    then show "q = t \<and> r = 0" by (simp add: q_def r_def)
  qed (simp add: n)
  show "jam_shift d n < t \<longleftrightarrow> n < t * 2 ^ d"
  proof (cases "r \<noteq> 0 \<and> even q")
    case True
    then have "q + 1 < t \<longleftrightarrow> q < t" using assms by presburger
    then show ?thesis using True lt by (simp add: j)
  next
    case False
    then have "jam_shift d n = q" by (auto simp: j)
    then show ?thesis using lt by simp
  qed
  show "t < jam_shift d n \<longleftrightarrow> t * 2 ^ d < n"
  proof (cases "q = t")
    case True
    have "t < jam_shift d n \<longleftrightarrow> r \<noteq> 0" using True assms by (simp add: j)
    also have "\<dots> \<longleftrightarrow> t * 2 ^ d < n" using True r(1) n by auto
    finally show ?thesis .
  next
    case False
    then have "t * 2 ^ d < n \<longleftrightarrow> t < q" using lt eq by (metis linorder_neqE_linordered_idom order_less_imp_not_less)
    moreover have "t < jam_shift d n \<longleftrightarrow> t < q" using False by (auto simp: j)
    ultimately show ?thesis by simp
  qed
qed

lemma sticky_jam:
  assumes "sticky g y n" and "even g"
  shows "sticky g (y / 2 ^ d) (jam_shift d n)"
  unfolding sticky_def
proof (intro allI)
  fix m
  have e: "even (m * g)" using assms(2) by simp
  have d: "g dvd m * g * 2 ^ d" by simp
  have "(y / 2 ^ d < of_int (m * g)) = (y < of_int (m * g * 2 ^ d))"
       "(of_int (m * g) < y / 2 ^ d) = (of_int (m * g * 2 ^ d) < y)"
    by (simp_all add: field_simps)
  then show "(y / 2 ^ d < of_int (m * g) \<longleftrightarrow> jam_shift d n < m * g) \<and>
        (of_int (m * g) < y / 2 ^ d \<longleftrightarrow> m * g < jam_shift d n)"
    using stickyD(1,2) [OF assms(1) d] jam_shift_less [OF e, of d n] by simp
qed

lemma int_div_bounds:
  assumes "0 < (k::int)"
  shows "n div k * k \<le> n" and "n < (n div k + 1) * k"
proof -
  have "n = n div k * k + n mod k" by simp
  moreover have "0 \<le> n mod k" "n mod k < k" using assms by simp_all
  ultimately show "n div k * k \<le> n" and "n < (n div k + 1) * k"
    unfolding distrib_right mult_1 by linarith+
qed

lemma le_int_div_iff: "0 < (k::int) \<Longrightarrow> b \<le> n div k \<longleftrightarrow> b * k \<le> n"
  using int_div_bounds [of k n]
  by (smt (verit) mult_right_mono mult_less_cancel_right zle_add1_eq_le)

lemma int_div_less_iff: "0 < (k::int) \<Longrightarrow> n div k < b \<longleftrightarrow> n < b * k"
  using le_int_div_iff [of k b n] by linarith

text \<open>Rounding of \<open>y / (2 * g)\<close>, decided by comparisons of \<open>y\<close> with multiples of \<open>g\<close>.\<close>

lemma round_int_cases:
  assumes g: "0 < g" and lo: "of_int (f * (2 * g)) \<le> y" and hi: "y < of_int ((f + 1) * (2 * g))"
  shows "round_int rm s (y / of_int (2 * g)) =
    (if rm = softfloat_round_near_even
     then (if y < of_int (f * (2 * g) + g) then f
           else if of_int (f * (2 * g) + g) < y then f + 1
           else if even f then f else f + 1)
     else if rm = softfloat_round_near_maxMag
     then (if y < of_int (f * (2 * g) + g) then f else f + 1)
     else if rm = (if s then softfloat_round_min else softfloat_round_max)
     then (if of_int (f * (2 * g)) < y then f + 1 else f) else f)"
proof -
  define Y where "Y = y / of_int (2 * g)"
  have gp: "(0::real) < of_int (2 * g)" using g by simp
  have fY: "\<lfloor>Y\<rfloor> = f"
  proof (rule floor_unique)
    show "of_int f \<le> Y" using lo gp by (simp add: Y_def pos_le_divide_eq)
    show "Y < of_int f + 1" using hi gp by (simp add: Y_def pos_divide_less_eq)
  qed
  have half: "(Y - of_int f < 1 / 2) = (y < of_int (f * (2 * g) + g))"
             "(1 / 2 < Y - of_int f) = (of_int (f * (2 * g) + g) < y)"
    using gp by (simp_all add: Y_def field_simps) linarith+
  have "\<lceil>Y\<rceil> = (if of_int f < Y then f + 1 else f)"
    using fY by (simp add: ceiling_altdef) linarith
  moreover have "of_int f < Y \<longleftrightarrow> of_int (f * (2 * g)) < y"
    using gp by (simp add: Y_def pos_less_divide_eq)
  ultimately show ?thesis
    by (simp only: round_int_def Y_def [symmetric] fY half)
qed

lemma round_int_sticky:
  assumes "sticky g y n" and "0 < g"
  shows "round_int rm s (y / of_int (2 * g)) = round_int rm s (of_int n / of_int (2 * g))"
proof -
  define f where "f = n div (2 * g)"
  have b: "f * (2 * g) \<le> n" "n < (f + 1) * (2 * g)"
    using assms(2) int_div_bounds [of "2 * g" n] by (simp_all add: f_def)
  have d: "g dvd f * (2 * g)" "g dvd (f + 1) * (2 * g)" "g dvd f * (2 * g) + g" by simp_all
  have y: "of_int (f * (2 * g)) \<le> y" "y < of_int ((f + 1) * (2 * g))"
    using stickyD(1) [OF assms(1) d(1)] stickyD(1) [OF assms(1) d(2)] b by linarith+
  have n: "of_int (f * (2 * g)) \<le> (of_int n :: real)" "of_int n < (of_int ((f + 1) * (2 * g)) :: real)"
    using b by (simp_all only: of_int_le_iff of_int_less_iff)
  show ?thesis
    unfolding round_int_cases [OF assms(2) y] round_int_cases [OF assms(2) n]
    using stickyD(1,2) [OF assms(1) d(3)] stickyD(2) [OF assms(1) d(1)]
    by (simp only: of_int_less_iff)
qed

text \<open>The integer computation of the code: add the increment, drop the low bits, clear the last bit at a tie.\<close>

definition round_incr :: "int \<Rightarrow> u8 \<Rightarrow> bool \<Rightarrow> int" where
  "round_incr g rm s =
     (if rm = softfloat_round_near_even \<or> rm = softfloat_round_near_maxMag then g
      else if rm = (if s then softfloat_round_min else softfloat_round_max) then 2 * g - 1 else 0)"

definition round_code :: "int \<Rightarrow> u8 \<Rightarrow> bool \<Rightarrow> int \<Rightarrow> int" where
  "round_code g rm s n =
     (let r = (n + round_incr g rm s) div (2 * g)
      in if n mod (2 * g) = g \<and> rm = softfloat_round_near_even then r - r mod 2 else r)"

lemma round_code_correct:
  assumes "0 < g"
  shows "round_code g rm s n = round_int rm s (of_int n / of_int (2 * g))"
proof -
  define f r where "f = n div (2 * g)" and "r = n mod (2 * g)"
  have n: "n = f * (2 * g) + r" by (simp only: f_def r_def div_mult_mod_eq)
  have r: "0 \<le> r" "r < 2 * g" using assms by (simp_all add: r_def)
  have b: "of_int (f * (2 * g)) \<le> (of_int n :: real)" "of_int n < (of_int ((f + 1) * (2 * g)) :: real)"
    unfolding of_int_le_iff of_int_less_iff n distrib_right mult_1 using r by linarith+
  have up: "(n + i) div (2 * g) = f + (if r + i < 2 * g then 0 else 1)" if "0 \<le> i" "i < 2 * g" for i
  proof -
    have "(n + i) div (2 * g) = f + (r + i) div (2 * g)"
      using assms by (simp add: n add.assoc)
    moreover have "(r + i) div (2 * g) = (if r + i < 2 * g then 0 else 1)"
    proof (cases "r + i < 2 * g")
      case True
      then show ?thesis using r that by (simp add: div_pos_pos_trivial)
    next
      case False
      then have "(r + i) div (2 * g) = (r + i - 2 * g) div (2 * g) + 1"
        using assms by (simp add: div_pos_geq)
      also have "(r + i - 2 * g) div (2 * g) = 0"
        using False r that by (intro div_pos_pos_trivial) auto
      finally show ?thesis using False by simp
    qed
    ultimately show ?thesis by simp
  qed
  have sgn: "n < f * (2 * g) + g \<longleftrightarrow> r < g" "f * (2 * g) + g < n \<longleftrightarrow> g < r"
    "f * (2 * g) < n \<longleftrightarrow> 0 < r" by (simp_all add: n)
  have parity: "(f + 1) - (f + 1) mod 2 = (if even f then f else f + 1)" by presburger
  consider (even) "rm = softfloat_round_near_even" | (away) "rm = softfloat_round_near_maxMag"
    | (dir) "rm \<noteq> softfloat_round_near_even" "rm \<noteq> softfloat_round_near_maxMag" by blast
  then show ?thesis
    unfolding round_int_cases [OF assms b] of_int_less_iff round_code_def Let_def r_def [symmetric] sgn
  proof cases
    case even
    then show "(if r = g \<and> rm = softfloat_round_near_even
      then (n + round_incr g rm s) div (2 * g) - (n + round_incr g rm s) div (2 * g) mod 2
      else (n + round_incr g rm s) div (2 * g)) =
      (if rm = softfloat_round_near_even
       then if r < g then f else if g < r then f + 1 else if even f then f else f + 1
       else if rm = softfloat_round_near_maxMag then if r < g then f else f + 1
       else if rm = (if s then softfloat_round_min else softfloat_round_max)
       then if 0 < r then f + 1 else f else f)"
      using up [of g] assms by (simp add: round_incr_def parity)
  qed (use up [of g] up [of 0] up [of "2 * g - 1"] assms r in \<open>auto simp: round_incr_def\<close>)
qed


section \<open>Formats\<close>

record float_format =
  fmt_prec :: nat
  fmt_ew :: nat

definition binary32 :: float_format where "binary32 = \<lparr>fmt_prec = 24, fmt_ew = 8\<rparr>"
definition binary64 :: float_format where "binary64 = \<lparr>fmt_prec = 53, fmt_ew = 11\<rparr>"

definition fmt_fw :: "float_format \<Rightarrow> nat" where "fmt_fw fmt = fmt_prec fmt - 1"
definition fmt_bias :: "float_format \<Rightarrow> int" where "fmt_bias fmt = 2 ^ (fmt_ew fmt - 1) - 1"
definition fmt_qmin :: "float_format \<Rightarrow> int" where
  "fmt_qmin fmt = 1 - fmt_bias fmt - int (fmt_fw fmt)"

definition enc_sign :: "float_format \<Rightarrow> int \<Rightarrow> bool" where
  "enc_sign fmt u \<longleftrightarrow> u div 2 ^ (fmt_ew fmt + fmt_fw fmt) mod 2 = 1"
definition enc_exp :: "float_format \<Rightarrow> int \<Rightarrow> int" where
  "enc_exp fmt u = u div 2 ^ fmt_fw fmt mod 2 ^ fmt_ew fmt"
definition enc_frac :: "float_format \<Rightarrow> int \<Rightarrow> int" where
  "enc_frac fmt u = u mod 2 ^ fmt_fw fmt"

definition enc_sig :: "float_format \<Rightarrow> int \<Rightarrow> int" where
  "enc_sig fmt u = enc_frac fmt u + (if enc_exp fmt u = 0 then 0 else 2 ^ fmt_fw fmt)"
definition enc_abs :: "float_format \<Rightarrow> int \<Rightarrow> real" where
  "enc_abs fmt u = of_int (enc_sig fmt u) * 2 powi (max 1 (enc_exp fmt u) - 1 + fmt_qmin fmt)"

definition enc_finite :: "float_format \<Rightarrow> int \<Rightarrow> bool" where
  "enc_finite fmt u \<longleftrightarrow> enc_exp fmt u \<noteq> 2 ^ fmt_ew fmt - 1"
definition enc_inf :: "float_format \<Rightarrow> int \<Rightarrow> bool" where
  "enc_inf fmt u \<longleftrightarrow> enc_exp fmt u = 2 ^ fmt_ew fmt - 1 \<and> enc_frac fmt u = 0"
definition enc_nan :: "float_format \<Rightarrow> int \<Rightarrow> bool" where
  "enc_nan fmt u \<longleftrightarrow> enc_exp fmt u = 2 ^ fmt_ew fmt - 1 \<and> enc_frac fmt u \<noteq> 0"

definition enc_make :: "float_format \<Rightarrow> bool \<Rightarrow> int \<Rightarrow> int \<Rightarrow> int" where
  "enc_make fmt s e m = of_bool s * 2 ^ (fmt_ew fmt + fmt_fw fmt) + e * 2 ^ fmt_fw fmt + m"

lemma enc_make_fields:
  assumes "0 \<le> e" "e < 2 ^ fmt_ew fmt" "0 \<le> m" "m < 2 ^ fmt_fw fmt"
  shows "enc_sign fmt (enc_make fmt s e m) = s" "enc_exp fmt (enc_make fmt s e m) = e"
    "enc_frac fmt (enc_make fmt s e m) = m"
proof -
  let ?F = "2 ^ fmt_fw fmt :: int" and ?E = "2 ^ fmt_ew fmt :: int"
  have u: "enc_make fmt s e m = (of_bool s * ?E + e) * ?F + m"
    by (simp add: enc_make_def power_add algebra_simps)
  have d: "enc_make fmt s e m div ?F = of_bool s * ?E + e"
    unfolding u using assms(3,4) by (simp add: div_add1_eq [of _ m] div_pos_pos_trivial)
  show "enc_frac fmt (enc_make fmt s e m) = m"
    unfolding enc_frac_def u using assms(3,4) by simp
  show "enc_exp fmt (enc_make fmt s e m) = e"
    unfolding enc_exp_def d using assms(1,2) by simp
  have "enc_make fmt s e m div 2 ^ (fmt_ew fmt + fmt_fw fmt) = (of_bool s * ?E + e) div ?E"
    unfolding d [symmetric] by (subst add.commute) (simp add: power_add zdiv_zmult2_eq)
  also have "\<dots> = of_bool s" using assms(1,2) by (simp add: div_add1_eq [of _ e] div_pos_pos_trivial)
  finally show "enc_sign fmt (enc_make fmt s e m) = s" by (simp add: enc_sign_def)
qed

lemma enc_pack:
  assumes "0 \<le> e" "0 \<le> m" "m \<le> 2 ^ (fmt_fw fmt + 1)" "e = 0 \<or> 2 ^ fmt_fw fmt \<le> m"
    "e + m div 2 ^ fmt_fw fmt \<le> 2 ^ fmt_ew fmt - 2"
  shows "enc_finite fmt (enc_make fmt s e m)" "enc_sign fmt (enc_make fmt s e m) = s"
    "enc_abs fmt (enc_make fmt s e m) = of_int m * 2 powi (e + fmt_qmin fmt)"
proof -
  let ?F = "2 ^ fmt_fw fmt :: int"
  define q where "q = m div ?F"
  have qm: "m = q * ?F + m mod ?F" by (simp only: q_def div_mult_mod_eq)
  have mk: "enc_make fmt s e m = enc_make fmt s (e + q) (m mod ?F)"
    unfolding enc_make_def by (subst (1) qm) (simp add: algebra_simps)
  have q0: "0 \<le> q" using assms(2) by (simp add: q_def pos_imp_zdiv_nonneg_iff)
  have q2: "q \<le> 2"
  proof -
    have "q \<le> (2 * ?F) div ?F" unfolding q_def using assms(3) by (intro zdiv_mono1) (simp_all add: mult.commute)
    then show ?thesis by simp
  qed
  have e: "0 \<le> e + q" "e + q < 2 ^ fmt_ew fmt" "e + q \<le> 2 ^ fmt_ew fmt - 2"
    using assms(1,5) q0 by (simp_all add: q_def)
  note f = enc_make_fields [OF e(1,2), of "m mod ?F" s, folded mk]
  have f1: "enc_sign fmt (enc_make fmt s e m) = s" and f2: "enc_exp fmt (enc_make fmt s e m) = e + q"
    and f3: "enc_frac fmt (enc_make fmt s e m) = m mod ?F"
    using f by simp_all
  show "enc_finite fmt (enc_make fmt s e m)" using e by (simp add: enc_finite_def f2)
  show "enc_sign fmt (enc_make fmt s e m) = s" by (rule f1)
  consider "q = 0" "e = 0" | "q = 1" | "q = 2" "m mod ?F = 0"
  proof -
    have "q = 0 \<Longrightarrow> e = 0" using assms(2,4) by (auto simp: q_def zdiv_eq_0_iff)
    moreover have "q = 2 \<Longrightarrow> m mod ?F = 0"
    proof -
      assume "q = 2"
      then have "m = 2 * ?F + m mod ?F" using qm by simp
      moreover have "0 \<le> m mod ?F" "m \<le> 2 * ?F" using assms(3) by simp_all
      ultimately show "m mod ?F = 0" by linarith
    qed
    ultimately show thesis using that q0 q2 by linarith
  qed
  then show "enc_abs fmt (enc_make fmt s e m) = of_int m * 2 powi (e + fmt_qmin fmt)"
  proof cases
    case 1
    then show ?thesis unfolding enc_abs_def enc_sig_def f2 f3 using qm by simp
  next
    case 2
    then have "m = m mod ?F + ?F" using qm by simp
    then have "of_int m = (of_int (m mod ?F + ?F) :: real)" by (rule arg_cong)
    then show ?thesis unfolding enc_abs_def enc_sig_def f2 f3 using 2 assms(1) by simp
  next
    case 3
    then have "m = 2 * ?F" using qm by simp
    then have m: "of_int m = (of_int (2 * ?F) :: real)" by (rule arg_cong)
    have "2 powi (1 + (e + fmt_qmin fmt)) = 2 * (2 powi (e + fmt_qmin fmt) :: real)"
      by (simp add: power_int_add)
    moreover have "max 1 (e + 2) - 1 + fmt_qmin fmt = 1 + (e + fmt_qmin fmt)" using assms(1) by simp
    ultimately show ?thesis unfolding enc_abs_def enc_sig_def f2 f3 m using 3 assms(1) by (simp add: add.assoc)
  qed
qed


section \<open>Correct rounding\<close>

definition ulp_exp :: "float_format \<Rightarrow> real \<Rightarrow> int" where
  "ulp_exp fmt x = max (\<lfloor>log 2 x\<rfloor> - int (fmt_fw fmt)) (fmt_qmin fmt)"

definition round_at :: "u8 \<Rightarrow> bool \<Rightarrow> int \<Rightarrow> real \<Rightarrow> real" where
  "round_at rm s q x = of_int (round_int rm s (x / 2 powi q)) * 2 powi q"

definition round_flt :: "float_format \<Rightarrow> u8 \<Rightarrow> bool \<Rightarrow> real \<Rightarrow> real" where
  "round_flt fmt rm s x = (if x = 0 then 0 else round_at rm s (ulp_exp fmt x) x)"

definition overflows :: "float_format \<Rightarrow> u8 \<Rightarrow> bool \<Rightarrow> real \<Rightarrow> bool" where
  "overflows fmt rm s x \<longleftrightarrow> 2 powi (fmt_bias fmt + 1) \<le> round_flt fmt rm s x"

definition away :: "u8 \<Rightarrow> bool \<Rightarrow> bool" where
  "away rm s \<longleftrightarrow> rm = softfloat_round_near_even \<or> rm = softfloat_round_near_maxMag
     \<or> rm = (if s then softfloat_round_min else softfloat_round_max)"

definition tiny :: "float_format \<Rightarrow> u8 \<Rightarrow> u8 \<Rightarrow> bool \<Rightarrow> real \<Rightarrow> bool" where
  "tiny fmt detect rm s x \<longleftrightarrow>
     (if detect = softfloat_tininess_beforeRounding then x
      else round_at rm s (\<lfloor>log 2 x\<rfloor> - int (fmt_fw fmt)) x) < 2 powi (1 - fmt_bias fmt)"

definition rounding_flags :: "float_format \<Rightarrow> u8 \<Rightarrow> u8 \<Rightarrow> bool \<Rightarrow> real \<Rightarrow> u8" where
  "rounding_flags fmt detect rm s x =
     (if overflows fmt rm s x then softfloat_flag_overflow OR softfloat_flag_inexact
      else if round_flt fmt rm s x = x then 0
      else if tiny fmt detect rm s x then softfloat_flag_underflow OR softfloat_flag_inexact
      else softfloat_flag_inexact)"

definition rounded :: "float_format \<Rightarrow> u8 \<Rightarrow> bool \<Rightarrow> real \<Rightarrow> int \<Rightarrow> bool" where
  "rounded fmt rm s x u \<longleftrightarrow>
     (if overflows fmt rm s x
      then u = enc_make fmt s (2 ^ fmt_ew fmt - 1) 0 - of_bool (\<not> away rm s)
      else enc_finite fmt u \<and> enc_sign fmt u = s \<and> enc_abs fmt u = round_flt fmt rm s x)"

definition ieee_result ::
  "float_format \<Rightarrow> bool \<Rightarrow> real \<Rightarrow> softfloat_state \<Rightarrow> 'a::len word \<times> softfloat_state \<Rightarrow> bool" where
  "ieee_result fmt s x st r \<longleftrightarrow>
     rounded fmt (softfloat_roundingMode st) s x (uint (fst r)) \<and>
     snd r = softfloat_raiseFlags
       (rounding_flags fmt (softfloat_detectTininess st) (softfloat_roundingMode st) s x) st"

lemma floor_log2:
  assumes "2 powi e \<le> x" "x < 2 powi (e + 1)"
  shows "\<lfloor>log 2 x\<rfloor> = e"
proof (rule floor_unique)
  have p: "2 powi k = (2::real) powr of_int k" for k
    by (simp add: powr_real_of_int')
  have x: "0 < x" using assms(1) by (meson less_le_trans zero_less_power_int zero_less_numeral)
  show "of_int e \<le> log 2 x" using assms(1) x by (simp add: p le_log_iff)
  show "log 2 x < of_int e + 1" using assms(2) x by (simp add: p log_less_iff)
qed

lemma round_code_range:
  assumes g: "2 * g = 2 ^ k" "0 < g" and n: "a * 2 ^ k \<le> n" "n < b * 2 ^ k" and ev: "even b"
  shows "a \<le> round_code g rm s n" "round_code g rm s n \<le> b"
    "round_code g rm s n = b \<longleftrightarrow> b * 2 ^ k \<le> n + round_incr g rm s"
proof -
  define i where "i = round_incr g rm s"
  define r where "r = (n + i) div 2 ^ k"
  have i: "0 \<le> i" "i < 2 ^ k" using g by (auto simp: i_def round_incr_def)
  have lo: "a \<le> r" using n i by (simp add: r_def le_int_div_iff)
  have "n + i < (b + 1) * 2 ^ k" using n i by (simp add: distrib_right)
  then have "r < b + 1" unfolding r_def by (subst int_div_less_iff) simp_all
  then have hi: "r \<le> b" by simp
  have eq: "r = b \<longleftrightarrow> b * 2 ^ k \<le> n + i" using hi by (auto simp: r_def le_int_div_iff [symmetric])
  show "a \<le> round_code g rm s n"
  proof (cases "n mod (2 * g) = g \<and> rm = softfloat_round_near_even")
    case True
    have m: "n mod 2 ^ k = g" using True g by simp
    have "a * 2 ^ k \<le> n div 2 ^ k * 2 ^ k" using n(1) by (simp add: le_int_div_iff mult_right_mono)
    also have "\<dots> = n - g" using m by (simp add: minus_mod_eq_div_mult [symmetric])
    finally have "(a + 1) * 2 ^ k \<le> n + i"
      using True g by (simp add: i_def round_incr_def distrib_right)
    then have "a + 1 \<le> r" by (simp add: r_def le_int_div_iff)
    moreover have "round_code g rm s n = r - r mod 2"
      using True g by (simp add: round_code_def r_def i_def Let_def)
    moreover have "r mod 2 \<le> 1" by presburger
    ultimately show ?thesis by linarith
  next
    case False
    then show ?thesis using lo g by (auto simp: round_code_def r_def i_def Let_def)
  qed
  have rc: "round_code g rm s n = r \<or> round_code g rm s n = r - r mod 2"
    using g by (auto simp: round_code_def r_def i_def Let_def)
  have "0 \<le> r mod 2" by simp
  then show "round_code g rm s n \<le> b" using rc hi by linarith
  have "round_code g rm s n = b \<longleftrightarrow> r = b"
  proof
    assume "r = b"
    then show "round_code g rm s n = b" using rc ev by auto
  next
    assume "round_code g rm s n = b"
    then show "r = b" using rc hi \<open>0 \<le> r mod 2\<close> by linarith
  qed
  then show "round_code g rm s n = b \<longleftrightarrow> b * 2 ^ k \<le> n + round_incr g rm s"
    using eq by (simp add: i_def)
qed

section \<open>The two formats\<close>

lemma jam_shift_all:
  assumes "0 \<le> n" "n < 2 ^ Suc d"
  shows "jam_shift d n = of_bool (n \<noteq> 0)"
proof (cases "n < 2 ^ d")
  case True
  then show ?thesis using assms(1) by (simp add: jam_shift_def div_pos_pos_trivial)
next
  case False
  then have "1 \<le> n div 2 ^ d" by (simp add: le_int_div_iff)
  moreover have "n div 2 ^ d < 2" using assms(2) by (simp add: int_div_less_iff)
  ultimately have "n div 2 ^ d = 1" by linarith
  moreover have "n \<noteq> 0" using False by auto
  ultimately show ?thesis by (simp add: jam_shift_def)
qed

lemma binary32_sel [simp]: "fmt_prec binary32 = 24" "fmt_ew binary32 = 8" "fmt_fw binary32 = 23"
  "fmt_bias binary32 = 127" "fmt_qmin binary32 = - 149"
  by (simp_all add: binary32_def fmt_fw_def fmt_bias_def fmt_qmin_def)

lemma binary64_sel [simp]: "fmt_prec binary64 = 53" "fmt_ew binary64 = 11" "fmt_fw binary64 = 52"
  "fmt_bias binary64 = 1023" "fmt_qmin binary64 = - 1074"
  by (simp_all add: binary64_def fmt_fw_def fmt_bias_def fmt_qmin_def)

lemma round_incr_bounds: "0 < g \<Longrightarrow> 0 \<le> round_incr g rm s" "0 < g \<Longrightarrow> round_incr g rm s < 2 * g"
  by (simp_all add: round_incr_def)

lemma round_incr_zero: "1 < g \<Longrightarrow> round_incr g rm s = 0 \<longleftrightarrow> \<not> away rm s"
  by (auto simp: round_incr_def away_def)

end
