(* ===== verification/Softfloat_Primitives.thy ===== *)
theory Softfloat_Primitives
  imports Float_Spec
begin

text \<open>
  The arithmetic primitives of \<^verbatim>\<open>primitives.h\<close> and of the files \<^verbatim>\<open>s_*.c\<close> that the
  configuration of \<^verbatim>\<open>platform.h\<close> (\<^verbatim>\<open>SOFTFLOAT_FAST_INT64\<close>, \<^verbatim>\<open>SOFTFLOAT_FAST_DIV64TO32\<close>)
  selects: shifts that jam the bits they lose into the last bit, leading-zero counts,
  128-bit sums, differences and products, and the reciprocal approximations.
  A shift distance is a natural number; the callers keep it below the width of the
  operand, as C requires.
\<close>

section \<open>Shifts that jam\<close>

definition softfloat_shortShiftRightJam64 :: "u64 \<Rightarrow> nat \<Rightarrow> u64" where
  "softfloat_shortShiftRightJam64 a count =
     drop_bit count a OR of_bool (a AND (push_bit count 1 - 1) \<noteq> 0)"

definition softfloat_shiftRightJam32 :: "u32 \<Rightarrow> u64 \<Rightarrow> u32" where
  "softfloat_shiftRightJam32 a count =
     (if count < 31
      then drop_bit (unat count) a OR of_bool (push_bit (unat (- count AND 31)) a \<noteq> 0)
      else of_bool (a \<noteq> 0))"

definition softfloat_shiftRightJam64 :: "u64 \<Rightarrow> u64 \<Rightarrow> u64" where
  "softfloat_shiftRightJam64 a count =
     (if count < 63
      then drop_bit (unat count) a OR of_bool (push_bit (unat (- count AND 63)) a \<noteq> 0)
      else of_bool (a \<noteq> 0))"

text \<open>\<^verbatim>\<open>struct uint64_extra\<close>\<close>

record uint64_extra =
  extra_extra :: u64
  extra_v :: u64

definition softfloat_shortShiftRightJam64Extra :: "u64 \<Rightarrow> u64 \<Rightarrow> u8 \<Rightarrow> uint64_extra" where
  "softfloat_shortShiftRightJam64Extra a extra count =
     \<lparr>extra_extra = push_bit (unat (- count AND 63)) a OR of_bool (extra \<noteq> 0),
      extra_v = drop_bit (unat count) a\<rparr>"

definition softfloat_shiftRightJam64Extra :: "u64 \<Rightarrow> u64 \<Rightarrow> u64 \<Rightarrow> uint64_extra" where
  "softfloat_shiftRightJam64Extra a extra count =
     (let z = (if count < 64
               then \<lparr>extra_extra = push_bit (unat (- count AND 63)) a,
                     extra_v = drop_bit (unat count) a\<rparr>
               else \<lparr>extra_extra = (if count = 64 then a else of_bool (a \<noteq> 0)), extra_v = 0\<rparr>)
      in z\<lparr>extra_extra := extra_extra z OR of_bool (extra \<noteq> 0)\<rparr>)"

section \<open>Leading zeros\<close>

definition softfloat_countLeadingZeros8 :: "u8 list" where
  "softfloat_countLeadingZeros8 =
    [8, 7, 6, 6, 5, 5, 5, 5, 4, 4, 4, 4, 4, 4, 4, 4,
     3, 3, 3, 3, 3, 3, 3, 3, 3, 3, 3, 3, 3, 3, 3, 3,
     2, 2, 2, 2, 2, 2, 2, 2, 2, 2, 2, 2, 2, 2, 2, 2,
     2, 2, 2, 2, 2, 2, 2, 2, 2, 2, 2, 2, 2, 2, 2, 2,
     1, 1, 1, 1, 1, 1, 1, 1, 1, 1, 1, 1, 1, 1, 1, 1,
     1, 1, 1, 1, 1, 1, 1, 1, 1, 1, 1, 1, 1, 1, 1, 1,
     1, 1, 1, 1, 1, 1, 1, 1, 1, 1, 1, 1, 1, 1, 1, 1,
     1, 1, 1, 1, 1, 1, 1, 1, 1, 1, 1, 1, 1, 1, 1, 1,
     0, 0, 0, 0, 0, 0, 0, 0, 0, 0, 0, 0, 0, 0, 0, 0,
     0, 0, 0, 0, 0, 0, 0, 0, 0, 0, 0, 0, 0, 0, 0, 0,
     0, 0, 0, 0, 0, 0, 0, 0, 0, 0, 0, 0, 0, 0, 0, 0,
     0, 0, 0, 0, 0, 0, 0, 0, 0, 0, 0, 0, 0, 0, 0, 0,
     0, 0, 0, 0, 0, 0, 0, 0, 0, 0, 0, 0, 0, 0, 0, 0,
     0, 0, 0, 0, 0, 0, 0, 0, 0, 0, 0, 0, 0, 0, 0, 0,
     0, 0, 0, 0, 0, 0, 0, 0, 0, 0, 0, 0, 0, 0, 0, 0,
     0, 0, 0, 0, 0, 0, 0, 0, 0, 0, 0, 0, 0, 0, 0, 0]"

definition softfloat_countLeadingZeros32 :: "u32 \<Rightarrow> u8" where
  "softfloat_countLeadingZeros32 a =
     (let count = 0;
          (count, a) = (if a < 0x10000 then (16, push_bit 16 a) else (count, a));
          (count, a) = (if a < 0x1000000 then (count + 8, push_bit 8 a) else (count, a))
      in count + softfloat_countLeadingZeros8 ! unat (drop_bit 24 a))"

definition softfloat_countLeadingZeros64 :: "u64 \<Rightarrow> u8" where
  "softfloat_countLeadingZeros64 a =
     (let count = 0;
          a32 = (ucast (drop_bit 32 a) :: u32);
          (count, a32) = (if a32 = 0 then (32, ucast a) else (count, a32));
          (count, a32) = (if a32 < 0x10000 then (count + 16, push_bit 16 a32) else (count, a32));
          (count, a32) = (if a32 < 0x1000000 then (count + 8, push_bit 8 a32) else (count, a32))
      in count + softfloat_countLeadingZeros8 ! unat (drop_bit 24 a32))"

section \<open>128-bit arithmetic\<close>

text \<open>\<^verbatim>\<open>struct uint128\<close>\<close>

record uint128 =
  v0 :: u64
  v64 :: u64

definition softfloat_add128 :: "u64 \<Rightarrow> u64 \<Rightarrow> u64 \<Rightarrow> u64 \<Rightarrow> uint128" where
  "softfloat_add128 a64 a0 b64 b0 =
     (let z0 = a0 + b0 in \<lparr>v0 = z0, v64 = a64 + b64 + of_bool (z0 < a0)\<rparr>)"

definition softfloat_sub128 :: "u64 \<Rightarrow> u64 \<Rightarrow> u64 \<Rightarrow> u64 \<Rightarrow> uint128" where
  "softfloat_sub128 a64 a0 b64 b0 =
     \<lparr>v0 = a0 - b0, v64 = a64 - b64 - of_bool (a0 < b0)\<rparr>"

definition softfloat_mul64To128 :: "u64 \<Rightarrow> u64 \<Rightarrow> uint128" where
  "softfloat_mul64To128 a b =
     (let a32 = (ucast (drop_bit 32 a) :: u32); a0 = (ucast a :: u32);
          b32 = (ucast (drop_bit 32 b) :: u32); b0 = (ucast b :: u32);
          z0 = (ucast a0 * ucast b0 :: u64);
          mid1 = (ucast a32 * ucast b0 :: u64);
          mid = mid1 + ucast a0 * ucast b32;
          z64 = (ucast a32 * ucast b32 :: u64);
          z64 = z64 + (push_bit 32 (of_bool (mid < mid1)) OR drop_bit 32 mid);
          mid = push_bit 32 mid;
          z0 = z0 + mid;
          z64 = z64 + of_bool (z0 < mid)
      in \<lparr>v0 = z0, v64 = z64\<rparr>)"

definition softfloat_shortShiftLeft128 :: "u64 \<Rightarrow> u64 \<Rightarrow> u8 \<Rightarrow> uint128" where
  "softfloat_shortShiftLeft128 a64 a0 count =
     \<lparr>v0 = push_bit (unat count) a0,
      v64 = push_bit (unat count) a64 OR drop_bit (unat (- count AND 63)) a0\<rparr>"

definition softfloat_shortShiftRightJam128 :: "u64 \<Rightarrow> u64 \<Rightarrow> u8 \<Rightarrow> uint128" where
  "softfloat_shortShiftRightJam128 a64 a0 count =
     (let negCount = - count
      in \<lparr>v0 = push_bit (unat (negCount AND 63)) a64 OR drop_bit (unat count) a0
                OR of_bool (push_bit (unat (negCount AND 63)) a0 \<noteq> 0),
          v64 = drop_bit (unat count) a64\<rparr>)"

definition softfloat_shiftRightJam128 :: "u64 \<Rightarrow> u64 \<Rightarrow> u64 \<Rightarrow> uint128" where
  "softfloat_shiftRightJam128 a64 a0 count =
     (if count < 64
      then (let negCount = - count
            in \<lparr>v0 = push_bit (unat (negCount AND 63)) a64 OR drop_bit (unat count) a0
                      OR of_bool (push_bit (unat (negCount AND 63)) a0 \<noteq> 0),
                v64 = drop_bit (unat count) a64\<rparr>)
      else \<lparr>v0 = (if count < 127
                  then drop_bit (unat (count AND 63)) a64
                         OR of_bool ((a64 AND (push_bit (unat (count AND 63)) 1 - 1)) OR a0 \<noteq> 0)
                  else of_bool (a64 OR a0 \<noteq> 0)),
            v64 = 0\<rparr>)"

section \<open>Reciprocal approximations\<close>

text \<open>
  With \<^verbatim>\<open>SOFTFLOAT_FAST_DIV64TO32\<close> the reciprocal is one 64-by-32-bit division; the table
  version of \<^verbatim>\<open>s_approxRecip32_1.c\<close> is kept under the name \<open>softfloat_approxRecip32_1_table\<close>.
\<close>

definition softfloat_approxRecip32_1 :: "u32 \<Rightarrow> u32" where
  "softfloat_approxRecip32_1 a = ucast (0x7FFFFFFFFFFFFFFF div (ucast a :: u64))"

definition approxRecip_k0s :: "u16 list" where
  "approxRecip_k0s =
    [0xFFC4, 0xF0BE, 0xE363, 0xD76F, 0xCCAD, 0xC2F0, 0xBA16, 0xB201,
     0xAA97, 0xA3C6, 0x9D7A, 0x97A6, 0x923C, 0x8D32, 0x887E, 0x8417]"

definition approxRecip_k1s :: "u16 list" where
  "approxRecip_k1s =
    [0xF0F1, 0xD62C, 0xBFA1, 0xAC77, 0x9C0A, 0x8DDB, 0x8185, 0x76BA,
     0x6D3B, 0x64D4, 0x5D5C, 0x56B1, 0x50B6, 0x4B55, 0x4679, 0x4211]"

definition softfloat_approxRecip32_1_table :: "u32 \<Rightarrow> u32" where
  "softfloat_approxRecip32_1_table a =
     (let index = unat (drop_bit 27 a AND 0xF);
          eps = (ucast (drop_bit 11 a) :: u16);
          r0 = (ucast ((ucast (approxRecip_k0s ! index) :: u64)
                       - drop_bit 20 (ucast (approxRecip_k1s ! index) * ucast eps)) :: u16);
          delta0 = (ucast (NOT (drop_bit 7 (ucast r0 * (ucast a :: u64)))) :: u32);
          r = push_bit 16 (ucast r0 :: u64) + drop_bit 24 (ucast r0 * (ucast delta0 :: u64));
          sqrDelta0 = (ucast (drop_bit 32 ((ucast delta0 :: u64) * ucast delta0)) :: u32);
          r = r + drop_bit 48 (ucast (ucast r :: u32) * (ucast sqrDelta0 :: u64))
      in ucast r)"

section \<open>Correctness of the shifts, the counts and the packing macros\<close>

lemma uint_shiftRightJam32:
  assumes "0 < unat c"
  shows "uint (softfloat_shiftRightJam32 a c) = jam_shift (unat c) (uint a)"
proof (cases "unat c < 31")
  case True
  have "push_bit (unat (- c AND 31)) a \<noteq> 0 \<longleftrightarrow> uint a mod 2 ^ unat c \<noteq> 0"
    using push_eq_0_iff [of "unat c", where a = a] unat_neg_and_31 [of c] True assms by simp
  moreover have "c < 31" using True by (simp add: word_less_nat_alt)
  ultimately show ?thesis
    by (simp add: softfloat_shiftRightJam32_def jam_shift_def uint_simps)
next
  case False
  then have "(2::int) ^ 32 \<le> 2 ^ Suc (unat c)" by (intro power_increasing) simp_all
  then have "uint a < 2 ^ Suc (unat c)" using uint_lt2p [of a] by simp
  then show ?thesis using False
    by (simp add: softfloat_shiftRightJam32_def word_less_nat_alt jam_shift_all uint_simps del: power_Suc)
qed

lemma uint_shiftRightJam64:
  assumes "0 < unat c"
  shows "uint (softfloat_shiftRightJam64 a c) = jam_shift (unat c) (uint a)"
proof (cases "unat c < 63")
  case True
  have "push_bit (unat (- c AND 63)) a \<noteq> 0 \<longleftrightarrow> uint a mod 2 ^ unat c \<noteq> 0"
    using push_eq_0_iff [of "unat c", where a = a] unat_neg_and_63 [of c] True assms by simp
  moreover have "c < 63" using True by (simp add: word_less_nat_alt)
  ultimately show ?thesis
    by (simp add: softfloat_shiftRightJam64_def jam_shift_def uint_simps)
next
  case False
  then have "(2::int) ^ 64 \<le> 2 ^ Suc (unat c)" by (intro power_increasing) simp_all
  then have "uint a < 2 ^ Suc (unat c)" using uint_lt2p [of a] by simp
  then show ?thesis using False
    by (simp add: softfloat_shiftRightJam64_def word_less_nat_alt jam_shift_all uint_simps del: power_Suc)
qed

lemma uint_shortShiftRightJam64:
  assumes "d < 64"
  shows "uint (softfloat_shortShiftRightJam64 a d) = jam_shift d (uint a)"
proof -
  have "a AND (push_bit d 1 - 1) = take_bit d a" by (simp add: and_low_mask [symmetric] push_bit_eq_mult)
  moreover have "take_bit d a \<noteq> 0 \<longleftrightarrow> uint a mod 2 ^ d \<noteq> 0"
    by (metis uint_take uint_eq_0)
  ultimately show ?thesis
    by (simp add: softfloat_shortShiftRightJam64_def jam_shift_def uint_simps)
qed

lemma uint_packToF32UI:
  assumes "0 \<le> e" "e < 256" "e * 2 ^ 23 + uint sig < 2 ^ 31"
  shows "uint (packToF32UI s e sig) = enc_make binary32 s e (uint sig)"
    "uint (ucast (packToF32UI s e sig) :: u32) = enc_make binary32 s e (uint sig)"
proof -
  have a: "uint (push_bit 31 (of_bool s) :: u32) = of_bool s * 2 ^ 31" by (cases s) simp_all
  have b: "uint (push_bit 23 (word_of_int e) :: u32) = e * 2 ^ 23"
    using assms(1,2) by (simp add: uint_push uint_word_of_int)
  have bb: "e * 2 ^ 23 < 2 ^ 31" using assms(2) by simp
  have ab: "uint (push_bit 31 (of_bool s) + push_bit 23 (word_of_int e) :: u32) = of_bool s * 2 ^ 31 + e * 2 ^ 23"
    unfolding a [symmetric] b [symmetric] by (rule uint_add_small) (use a b bb in \<open>cases s; simp\<close>)
  have lt: "of_bool s * 2 ^ 31 + e * 2 ^ 23 + uint sig < 2 ^ 32" using assms(3) by (cases s) simp_all
  have c: "uint (ucast (push_bit 31 (of_bool s) + push_bit 23 (word_of_int e) :: u32) :: u64) = of_bool s * 2 ^ 31 + e * 2 ^ 23"
    unfolding ab [symmetric] by (rule uint_ucast_small) (use lt ab assms in \<open>cases s; simp\<close>)
  show p: "uint (packToF32UI s e sig) = enc_make binary32 s e (uint sig)"
    unfolding packToF32UI_def by (subst uint_add_small, unfold c) (use lt in \<open>simp_all add: enc_make_def\<close>)
  show "uint (ucast (packToF32UI s e sig) :: u32) = enc_make binary32 s e (uint sig)"
    by (subst uint_ucast_small, unfold p) (use lt in \<open>simp_all add: enc_make_def\<close>)
qed

lemma uint_packToF64UI:
  assumes "0 \<le> e" "e < 2048" "e * 2 ^ 52 + uint sig < 2 ^ 63"
  shows "uint (packToF64UI s e sig) = enc_make binary64 s e (uint sig)"
proof -
  have a: "uint (push_bit 63 (of_bool s) :: u64) = of_bool s * 2 ^ 63" by (cases s) simp_all
  have b: "uint (push_bit 52 (word_of_int e) :: u64) = e * 2 ^ 52"
    using assms(1,2) by (simp add: uint_push uint_word_of_int)
  have bb: "e * 2 ^ 52 < 2 ^ 63" using assms(2) by simp
  have ab: "uint (push_bit 63 (of_bool s) + push_bit 52 (word_of_int e) :: u64) = of_bool s * 2 ^ 63 + e * 2 ^ 52"
    unfolding a [symmetric] b [symmetric] by (rule uint_add_small) (use a b bb in \<open>cases s; simp\<close>)
  have lt: "of_bool s * 2 ^ 63 + e * 2 ^ 52 + uint sig < 2 ^ 64" using assms(3) by (cases s) simp_all
  then show ?thesis
    unfolding packToF64UI_def by (subst uint_add_small, unfold ab) (simp_all add: enc_make_def)
qed

lemma clz8_table_all:
  "list_all (\<lambda>i. unat (softfloat_countLeadingZeros8 ! i) \<le> 7 \<and>
     128 \<le> i * 2 ^ unat (softfloat_countLeadingZeros8 ! i) \<and>
     i * 2 ^ unat (softfloat_countLeadingZeros8 ! i) < 256) [1..<256]"
  by code_simp

lemma clz8_table:
  assumes "0 < i" "i < 256"
  shows "unat (softfloat_countLeadingZeros8 ! i) \<le> 7"
    "128 \<le> i * 2 ^ unat (softfloat_countLeadingZeros8 ! i)"
    "i * 2 ^ unat (softfloat_countLeadingZeros8 ! i) < 256"
  using clz8_table_all assms by (auto simp only: list_all_iff set_upt atLeastLessThan_iff Suc_le_eq One_nat_def)

text \<open>The last step of both counts: a 32-bit word with a bit in its top byte.\<close>

lemma clz_top_byte:
  assumes "2 ^ 24 \<le> uint (a :: u32)"
  defines "t \<equiv> unat (softfloat_countLeadingZeros8 ! unat (drop_bit 24 a))"
  shows "t \<le> 7" "2 ^ 31 \<le> uint a * 2 ^ t" "uint a * 2 ^ t < 2 ^ 32"
proof -
  define i where "i = unat (drop_bit 24 a)"
  have u: "int i = uint a div 2 ^ 24" by (simp add: i_def uint_drop)
  have i: "0 < i" "i < 256"
  proof -
    have "1 \<le> uint a div 2 ^ 24" using assms(1) by (simp add: le_int_div_iff)
    then show "0 < i" using u by linarith
    have "uint a div 2 ^ 24 < 256" using uint_lt2p [of a] by (simp add: int_div_less_iff)
    then show "i < 256" using u by linarith
  qed
  note T = clz8_table [OF i]
  have t: "t = unat (softfloat_countLeadingZeros8 ! i)" by (simp add: t_def i_def)
  show "t \<le> 7" using T(1) t by simp
  have b: "int i * 2 ^ 24 \<le> uint a" "uint a < (int i + 1) * 2 ^ 24"
    using int_div_bounds [of "2 ^ 24" "uint a"] by (simp_all add: u)
  have "int 128 \<le> int (i * 2 ^ t)" using T(2) t by (simp only: of_nat_le_iff)
  then have "128 * 2 ^ 24 \<le> int i * 2 ^ 24 * 2 ^ t" by simp
  also have "\<dots> \<le> uint a * 2 ^ t" using b(1) by (intro mult_right_mono) simp_all
  finally show "2 ^ 31 \<le> uint a * 2 ^ t" by simp
  have "i * 2 ^ t + 2 ^ t \<le> 256"
  proof -
    have "(2::nat) ^ t dvd 256" using le_imp_power_dvd [of t 8 "2::nat"] T(1) t by simp
    then obtain m :: nat where m: "256 = 2 ^ t * m" by (auto elim: dvdE)
    have "i * 2 ^ t < 2 ^ t * m" unfolding m [symmetric] using T(3) by (simp only: t)
    then have "i + 1 \<le> m" by (simp add: mult.commute)
    then have "2 ^ t * (i + 1) \<le> 2 ^ t * m" by (rule mult_le_mono2)
    then show ?thesis using m by (simp add: algebra_simps)
  qed
  then have "int (i * 2 ^ t + 2 ^ t) \<le> int 256" by (simp only: of_nat_le_iff)
  then have "(int i + 1) * 2 ^ 24 * 2 ^ t \<le> 2 ^ 32" by (simp add: algebra_simps)
  moreover have "uint a * 2 ^ t < (int i + 1) * 2 ^ 24 * 2 ^ t" using b(2) by (intro mult_strict_right_mono) simp_all
  ultimately show "uint a * 2 ^ t < 2 ^ 32" by linarith
qed

text \<open>The two steps before it, as a function of the count so far.\<close>

definition clz_rest :: "u8 \<Rightarrow> u32 \<Rightarrow> u8" where
  "clz_rest count a =
     (let (count, a) = (if a < 0x10000 then (count + 16, push_bit 16 a) else (count, a));
          (count, a) = (if a < 0x1000000 then (count + 8, push_bit 8 a) else (count, a))
      in count + softfloat_countLeadingZeros8 ! unat (drop_bit 24 a))"

lemma clz_rest:
  assumes "a \<noteq> 0" "uint count \<le> 32"
  shows "\<exists>c. c \<le> 31 \<and> uint (clz_rest count a) = uint count + int c \<and>
    2 ^ 31 \<le> uint a * 2 ^ c \<and> uint a * 2 ^ c < 2 ^ 32"
proof -
  have a0: "1 \<le> uint a" using assms(1) uint_ge_0 [of a] uint_eq_0 [of a] by linarith
  define d1 :: nat where "d1 = (if uint a < 2 ^ 16 then 16 else 0)"
  define a1 where "a1 = push_bit d1 a"
  have a1: "uint a1 = uint a * 2 ^ d1" "2 ^ 16 \<le> uint a1"
    using a0 by (auto simp: a1_def d1_def uint_push_small)
  define d2 :: nat where "d2 = (if uint a1 < 2 ^ 24 then 8 else 0)"
  define a2 where "a2 = push_bit d2 a1"
  have a2: "uint a2 = uint a1 * 2 ^ d2" "2 ^ 24 \<le> uint a2"
    using a1(2) by (auto simp: a2_def d2_def uint_push_small)
  define t where "t = unat (softfloat_countLeadingZeros8 ! unat (drop_bit 24 a2))"
  note T = clz_top_byte [OF a2(2), folded t_def]
  have lt: "a < 0x10000 \<longleftrightarrow> uint a < 2 ^ 16" "a1 < 0x1000000 \<longleftrightarrow> uint a1 < 2 ^ 24"
    by (simp_all add: word_less_uint)
  have s: "(if a < 0x10000 then (count + 16, push_bit 16 a) else (count, a)) = (count + of_nat d1, a1)"
    "(if a1 < 0x1000000 then (count + of_nat d1 + 8, push_bit 8 a1) else (count + of_nat d1, a1))
      = (count + of_nat d1 + of_nat d2, a2)"
    unfolding lt by (simp_all add: d1_def a1_def [unfolded d1_def] d2_def a2_def)
  have "clz_rest count a = count + of_nat d1 + of_nat d2 + softfloat_countLeadingZeros8 ! unat (drop_bit 24 a2)"
    unfolding clz_rest_def s(1) Let_def prod.case s(2) ..
  moreover have "uint (count + of_nat d1 + of_nat d2 + softfloat_countLeadingZeros8 ! unat (drop_bit 24 a2))
      = uint count + int (d1 + d2 + t)"
  proof -
    have u: "uint (of_nat d1 :: u8) = int d1" "uint (of_nat d2 :: u8) = int d2" "d1 \<le> 16" "d2 \<le> 8"
      by (simp_all add: d1_def d2_def)
    have "uint (softfloat_countLeadingZeros8 ! unat (drop_bit 24 a2)) = int t" by (simp add: t_def)
    then show ?thesis using assms(2) T(1) u by (simp add: uint_add_small)
  qed
  moreover have "uint a * 2 ^ (d1 + d2 + t) = uint a2 * 2 ^ t"
    by (simp add: a1(1) a2(1) power_add mult.assoc)
  moreover have "d1 + d2 + t \<le> 31" using T(1) by (simp add: d1_def d2_def)
  ultimately show ?thesis using T(2,3) by metis
qed

lemma countLeadingZeros32:
  assumes "a \<noteq> 0"
  obtains c where "c \<le> 31" "uint (softfloat_countLeadingZeros32 a) = int c"
    "2 ^ 31 \<le> uint a * 2 ^ c" "uint a * 2 ^ c < 2 ^ 32"
proof -
  have "softfloat_countLeadingZeros32 a = clz_rest 0 a"
    by (simp add: softfloat_countLeadingZeros32_def clz_rest_def)
  then show thesis using clz_rest [OF assms, of 0] that by auto
qed

lemma countLeadingZeros32_zero: "softfloat_countLeadingZeros32 0 = 32"
  by code_simp

lemma countLeadingZeros64_zero: "softfloat_countLeadingZeros64 0 = 64"
  by code_simp

lemma countLeadingZeros64:
  assumes "a \<noteq> 0"
  obtains c where "c \<le> 63" "uint (softfloat_countLeadingZeros64 a) = int c"
    "2 ^ 63 \<le> uint a * 2 ^ c" "uint a * 2 ^ c < 2 ^ 64"
proof -
  define h where "h = (ucast (drop_bit 32 a) :: u32)"
  have "uint a div 2 ^ 32 < 2 ^ 32" using uint_lt2p [of a] by (simp add: int_div_less_iff)
  then have h: "uint h = uint a div 2 ^ 32" by (simp add: h_def uint_ucast_small uint_drop)
  have c64: "softfloat_countLeadingZeros64 a = (if h = 0 then clz_rest 32 (ucast a) else clz_rest 0 h)"
    by (simp add: softfloat_countLeadingZeros64_def clz_rest_def h_def)
  show thesis
  proof (cases "h = 0")
    case True
    then have "uint a div 2 ^ 32 < 1" using h by simp
    then have "uint a < 2 ^ 32" by (simp add: int_div_less_iff)
    then have l: "uint (ucast a :: u32) = uint a" by (simp add: uint_ucast_small)
    then have "(ucast a :: u32) \<noteq> 0" using assms by (metis uint_eq_0)
    from clz_rest [OF this, of 32] obtain c where c: "c \<le> 31"
      "uint (clz_rest 32 (ucast a)) = 32 + int c" "2 ^ 31 \<le> uint a * 2 ^ c" "uint a * 2 ^ c < 2 ^ 32"
      unfolding l by auto
    show thesis by (rule that [of "32 + c"]) (use c True c64 in \<open>simp_all add: power_add\<close>)
  next
    case False
    from clz_rest [OF this, of 0] obtain c where c: "c \<le> 31"
      "uint (clz_rest 0 h) = int c" "2 ^ 31 \<le> uint h * 2 ^ c" "uint h * 2 ^ c < 2 ^ 32" by auto
    have b: "uint h * 2 ^ 32 \<le> uint a" "uint a < (uint h + 1) * 2 ^ 32"
      using int_div_bounds [of "2 ^ 32" "uint a"] by (simp_all add: h)
    have lo: "2 ^ 63 \<le> uint a * 2 ^ c"
    proof -
      have "2 ^ 31 * 2 ^ 32 \<le> uint h * 2 ^ 32 * 2 ^ c" using c(3) by simp
      also have "\<dots> \<le> uint a * 2 ^ c" using b(1) by (intro mult_right_mono) simp_all
      finally show ?thesis by simp
    qed
    have p: "2 ^ (32 - c) * 2 ^ c = (2::int) ^ 32" using c(1) power_add [of "2::int" "32 - c" c] by simp
    have "uint h * 2 ^ c < 2 ^ (32 - c) * 2 ^ c" unfolding p by (rule c(4))
    then have "uint h < 2 ^ (32 - c)" by (rule mult_right_less_imp_less) simp
    then have "(uint h + 1) * 2 ^ c \<le> 2 ^ (32 - c) * 2 ^ c" by (intro mult_right_mono) simp_all
    also note p
    finally have "(uint h + 1) * 2 ^ c * 2 ^ 32 \<le> 2 ^ 32 * 2 ^ 32" by (rule mult_right_mono) simp
    then have "(uint h + 1) * 2 ^ 32 * 2 ^ c \<le> 2 ^ 64" by (simp add: algebra_simps)
    moreover have "uint a * 2 ^ c < (uint h + 1) * 2 ^ 32 * 2 ^ c" using b(2) by (intro mult_strict_right_mono) simp_all
    ultimately have "uint a * 2 ^ c < 2 ^ 64" by linarith
    then show thesis by (intro that [of c]) (use c False c64 lo in simp_all)
  qed
qed

section \<open>128-bit arithmetic is exact\<close>

definition u128 :: "uint128 \<Rightarrow> int" where "u128 z = uint (v64 z) * 2 ^ 64 + uint (v0 z)"

lemma u128_range: "0 \<le> u128 z" "u128 z < 2 ^ 128"
proof -
  have b: "uint (v64 z) \<le> 2 ^ 64 - 1" "uint (v0 z) < 2 ^ 64" using uint_lt2p [of "v64 z"] uint_lt2p [of "v0 z"] by simp_all
  have "uint (v64 z) * 2 ^ 64 \<le> (2 ^ 64 - 1) * 2 ^ 64" by (intro mult_right_mono b) simp
  then show "0 \<le> u128 z" "u128 z < 2 ^ 128" using b by (simp_all add: u128_def)
qed

lemma split128: "0 \<le> l \<Longrightarrow> l < 2 ^ 64 \<Longrightarrow> (h * 2 ^ 64 + l) mod 2 ^ 128 = h mod 2 ^ 64 * 2 ^ 64 + (l :: int)"
  using mod_mult2_eq' [of "h * 2 ^ 64 + l" "2 ^ 64" "2 ^ 64"] by simp

lemma add128_correct:
  "u128 (softfloat_add128 a64 a0 b64 b0) =
    (u128 \<lparr>v0 = a0, v64 = a64\<rparr> + u128 \<lparr>v0 = b0, v64 = b64\<rparr>) mod 2 ^ 128"
proof -
  let ?c = "of_bool (a0 + b0 < a0) :: int" and ?h = "uint a64 + uint b64"
  have "uint (a64 + b64 + of_bool (a0 + b0 < a0)) = (?h + ?c) mod 2 ^ 64"
    by (simp add: uint_word_ariths uint_of_bool mod_simps)
  then have "u128 (softfloat_add128 a64 a0 b64 b0) = (?h + ?c) mod 2 ^ 64 * 2 ^ 64 + (uint a0 + uint b0 - ?c * 2 ^ 64)"
    by (simp add: softfloat_add128_def Let_def u128_def uint_add_carry [of a0])
  moreover have "((?h + ?c) * 2 ^ 64 + (uint a0 + uint b0 - ?c * 2 ^ 64)) mod 2 ^ 128 = (?h + ?c) mod 2 ^ 64 * 2 ^ 64 + (uint a0 + uint b0 - ?c * 2 ^ 64)"
    using uint_add_carry [of a0 b0] uint_lt2p [of "a0 + b0"] uint_ge_0 [of "a0 + b0"] by (intro split128) simp_all
  ultimately show ?thesis by (simp add: u128_def algebra_simps)
qed

lemma mul64To128_correct: "u128 (softfloat_mul64To128 a b) = uint a * uint b"
proof -
  define a32 a0 b32 b0 where "a32 = uint a div 2 ^ 32" and "a0 = uint a mod 2 ^ 32"
    and "b32 = uint b div 2 ^ 32" and "b0 = uint b mod 2 ^ 32"
  have ab: "uint a = a32 * 2 ^ 32 + a0" "uint b = b32 * 2 ^ 32 + b0"
    unfolding a32_def a0_def b32_def b0_def by (simp_all only: div_mult_mod_eq)
  have r: "0 \<le> a32" "a32 < 2 ^ 32" "0 \<le> a0" "a0 < 2 ^ 32" "0 \<le> b32" "b32 < 2 ^ 32" "0 \<le> b0" "b0 < 2 ^ 32"
    using uint_lt2p [of a] uint_lt2p [of b]
    by (simp_all add: a32_def a0_def b32_def b0_def pos_imp_zdiv_nonneg_iff int_div_less_iff)
  define hi where "hi w = (ucast (ucast (drop_bit 32 w) :: u32) :: u64)" for w :: u64
  define lo where "lo w = (ucast (ucast w :: u32) :: u64)" for w :: u64
  have hl: "uint (hi a) = a32" "uint (lo a) = a0" "uint (hi b) = b32" "uint (lo b) = b0"
    using r by (simp_all add: hi_def lo_def uint_ucast_up uint_ucast uint_drop a32_def a0_def b32_def b0_def)
  have prod: "x * y \<le> (2 ^ 32 - 1) * (2 ^ 32 - 1)" if "0 \<le> x" "x < 2 ^ 32" "0 \<le> y" "y < 2 ^ 32" for x y :: int
    using that by (intro mult_mono) simp_all
  define mid1 where "mid1 = hi a * lo b"
  define mid where "mid = mid1 + lo a * hi b"
  define z0 where "z0 = lo a * lo b"
  have p: "uint mid1 = a32 * b0" "uint (lo a * hi b) = a0 * b32" "uint z0 = a0 * b0" "uint (hi a * hi b) = a32 * b32"
    using prod [of a32 b0] prod [of a0 b32] prod [of a0 b0] prod [of a32 b32] r
    by (simp_all add: mid1_def z0_def uint_mult_small hl)
  define c1 where "c1 = (of_bool (mid < mid1) :: int)"
  have mid: "uint mid = a32 * b0 + a0 * b32 - c1 * 2 ^ 64"
    using uint_add_carry [of mid1 "lo a * hi b"] by (simp add: mid_def [symmetric] p c1_def)
  define ml where "ml = push_bit 32 mid"
  have ml: "uint ml = uint mid mod 2 ^ 32 * 2 ^ 32"
    unfolding mult_mod_left ml_def uint_push by simp
  define c2 where "c2 = (of_bool (z0 + ml < ml) :: int)"
  have z0': "uint (z0 + ml) = a0 * b0 + uint ml - c2 * 2 ^ 64"
    using uint_add_carry [of ml z0] by (simp add: p c2_def add.commute)
  define zh where "zh = hi a * hi b + (push_bit 32 (of_bool (mid < mid1)) OR drop_bit 32 mid) + of_bool (z0 + ml < ml)"
  have "uint (push_bit 32 (of_bool (mid < mid1)) OR drop_bit 32 mid) = c1 * 2 ^ 32 + uint mid div 2 ^ 32"
  proof -
    have "uint mid div 2 ^ 32 < 2 ^ 32" using uint_lt2p [of mid] by (simp add: int_div_less_iff)
    then show ?thesis by (subst uint_or_disjoint [where n = 32]) (simp_all add: uint_drop c1_def)
  qed
  then have zh: "uint zh = (a32 * b32 + c1 * 2 ^ 32 + uint mid div 2 ^ 32 + c2) mod 2 ^ 64"
    by (simp add: zh_def uint_word_ariths p hl uint_of_bool c2_def mod_simps add.assoc)
  have f: "softfloat_mul64To128 a b = \<lparr>v0 = z0 + ml, v64 = zh\<rparr>"
    by (simp add: softfloat_mul64To128_def Let_def zh_def ml_def z0_def mid_def mid1_def hi_def lo_def)
  define S where "S = a32 * b32 + c1 * 2 ^ 32 + uint mid div 2 ^ 32 + c2"
  define q r where "q = uint mid div 2 ^ 32" and "r = uint mid mod 2 ^ 32"
  have "q * 2 ^ 32 + r = a32 * b0 + a0 * b32 - c1 * 2 ^ 64" unfolding mid [symmetric] q_def r_def by (simp only: div_mult_mod_eq)
  then have "(q * 2 ^ 32 + r) * 2 ^ 32 = (a32 * b0 + a0 * b32 - c1 * 2 ^ 64) * 2 ^ 32" by (rule arg_cong)
  then have eq: "S * 2 ^ 64 + uint (z0 + ml) = uint a * uint b"
    unfolding S_def z0' ml ab q_def [symmetric] r_def [symmetric] by (simp add: algebra_simps)
  have l: "0 \<le> uint (z0 + ml)" "uint (z0 + ml) < 2 ^ 64" using uint_lt2p [of "z0 + ml"] by simp_all
  have "u128 (softfloat_mul64To128 a b) = (uint a * uint b) mod 2 ^ 128"
    unfolding eq [symmetric] split128 [OF l] f u128_def by (simp add: zh S_def)
  also have "\<dots> = uint a * uint b"
  proof (rule mod_pos_pos_trivial)
    have "uint a * uint b < 2 ^ 64 * 2 ^ 64" using uint_lt2p [of a] uint_lt2p [of b] by (intro mult_strict_mono) simp_all
    then show "uint a * uint b < 2 ^ 128" by simp
  qed simp
  finally show ?thesis .
qed

lemma sub128_correct:
  "u128 (softfloat_sub128 a64 a0 b64 b0) =
    (u128 \<lparr>v0 = a0, v64 = a64\<rparr> - u128 \<lparr>v0 = b0, v64 = b64\<rparr>) mod 2 ^ 128"
proof -
  let ?c = "of_bool (a0 < b0) :: int" and ?h = "uint a64 - uint b64"
  have "uint (a64 - b64 - of_bool (a0 < b0)) = (?h - ?c) mod 2 ^ 64"
    by (simp add: uint_word_ariths uint_of_bool mod_simps)
  then have "u128 (softfloat_sub128 a64 a0 b64 b0) = (?h - ?c) mod 2 ^ 64 * 2 ^ 64 + (uint a0 - uint b0 + ?c * 2 ^ 64)"
    by (simp add: softfloat_sub128_def Let_def u128_def uint_sub_borrow [of a0])
  moreover have "((?h - ?c) * 2 ^ 64 + (uint a0 - uint b0 + ?c * 2 ^ 64)) mod 2 ^ 128 = (?h - ?c) mod 2 ^ 64 * 2 ^ 64 + (uint a0 - uint b0 + ?c * 2 ^ 64)"
    using uint_sub_borrow [of a0 b0] uint_lt2p [of "a0 - b0"] uint_ge_0 [of "a0 - b0"] by (intro split128) simp_all
  ultimately show ?thesis by (simp add: u128_def algebra_simps)
qed

lemma u128_jam: "uint (v64 z OR of_bool (v0 z \<noteq> 0)) = jam_shift 64 (u128 z)"
proof -
  have l: "0 \<le> uint (v0 z)" "uint (v0 z) < 2 ^ 64" using uint_lt2p [of "v0 z"] by simp_all
  have "u128 z div 2 ^ 64 = uint (v64 z)" "u128 z mod 2 ^ 64 = uint (v0 z)" using l by (simp_all add: u128_def)
  then show ?thesis by (simp add: jam_shift_def uint_or_one)
qed

lemma or_top_bit:
  assumes "2 ^ n \<le> uint (w :: 'a::len word)" "uint w < 2 ^ (n + 1)" "n < LENGTH('a)"
  shows "w OR push_bit n 1 = w"
proof -
  have "1 \<le> uint w div 2 ^ n" "uint w div 2 ^ n < 2" using assms by (simp_all add: le_int_div_iff int_div_less_iff)
  then have "uint w div 2 ^ n = 1" by linarith
  then have "bit (uint w) n" by (simp add: bit_iff_odd)
  then have b: "bit w n" by (simp add: bit_uint_iff)
  show ?thesis by (rule bit_eqI) (use b in \<open>auto simp: bit_simps\<close>)
qed

lemma and_top_bit64: "((w :: u64) AND 0x8000000000000000 \<noteq> 0) = (2 ^ 63 \<le> uint w)"
proof -
  have a: "uint (w AND 0x8000000000000000) = uint w div 2 ^ 63 mod 2 ^ 1 * 2 ^ 63" by (rule uint_and_field) simp_all
  have "0 \<le> uint w div 2 ^ 63" "uint w div 2 ^ 63 < 2" using uint_lt2p [of w] by (simp_all add: int_div_less_iff pos_imp_zdiv_nonneg_iff)
  then have "uint w div 2 ^ 63 mod 2 ^ 1 = uint w div 2 ^ 63" by simp
  then have "w AND 0x8000000000000000 \<noteq> 0 \<longleftrightarrow> 1 \<le> uint w div 2 ^ 63"
    using a uint_eq_0 [of "w AND 0x8000000000000000"] \<open>0 \<le> uint w div 2 ^ 63\<close> by auto
  then show ?thesis by (simp add: le_int_div_iff)
qed

lemma u128_surjective [simp]: "\<lparr>v0 = v0 w, v64 = v64 w\<rparr> = (w :: uint128)" by simp

lemma u128_parts: "uint (v64 w) < 2 ^ 64" "0 \<le> uint (v0 w)" "uint (v0 w) < 2 ^ 64" "u128 w = uint (v64 w) * 2 ^ 64 + uint (v0 w)"
  using uint_lt2p [of "v64 w"] uint_lt2p [of "v0 w"] by (simp_all add: u128_def)

lemma sub128_value:
  assumes "u128 \<lparr>v0 = b0, v64 = b64\<rparr> \<le> u128 \<lparr>v0 = a0, v64 = a64\<rparr>"
  shows "u128 (softfloat_sub128 a64 a0 b64 b0) = u128 \<lparr>v0 = a0, v64 = a64\<rparr> - u128 \<lparr>v0 = b0, v64 = b64\<rparr>"
  unfolding sub128_correct
proof (rule mod_pos_pos_trivial)
  show "u128 \<lparr>v0 = a0, v64 = a64\<rparr> - u128 \<lparr>v0 = b0, v64 = b64\<rparr> < 2 ^ 128"
    using u128_range(2) [of "\<lparr>v0 = a0, v64 = a64\<rparr>"] u128_range(1) [of "\<lparr>v0 = b0, v64 = b64\<rparr>"] by linarith
qed (use assms in simp)

section \<open>128-bit shifts\<close>

lemma unat_u8_neg: "0 < c \<Longrightarrow> c < 64 \<Longrightarrow> unat (- (of_nat c :: u8) AND 63) = 64 - c"
  using unat_neg_and_63 [of "of_nat c :: u8"] by (simp add: unat_of_nat)

lemma scaled_split:
  assumes "c \<le> 64" shows "(n :: int) * 2 ^ c = n div 2 ^ (64 - c) * 2 ^ 64 + n * 2 ^ c mod 2 ^ 64"
proof -
  have p: "(2::int) ^ 64 = 2 ^ (64 - c) * 2 ^ c" using assms by (simp flip: power_add)
  have "n * 2 ^ c div 2 ^ 64 = n div 2 ^ (64 - c)" unfolding p by (rule div_mult_mult2) simp
  then show ?thesis using div_mult_mod_eq [of "n * 2 ^ c" "2 ^ 64"] by simp
qed

lemma shortShiftLeft128_correct:
  assumes c: "0 < c" "c < 64" and h: "uint a64 * 2 ^ c < 2 ^ 64"
  shows "u128 (softfloat_shortShiftLeft128 a64 a0 (of_nat c)) = u128 \<lparr>v0 = a0, v64 = a64\<rparr> * 2 ^ c"
proof -
  have u: "unat (of_nat c :: u8) = c" using c by (simp add: unat_of_nat)
  have l: "uint a0 div 2 ^ (64 - c) < 2 ^ c"
    using c uint_lt2p [of a0] power_add [of "2::int" c "64 - c"] by (simp add: int_div_less_iff)
  have "uint (push_bit c a64 OR drop_bit (64 - c) a0) = uint a64 * 2 ^ c + uint a0 div 2 ^ (64 - c)"
    using h l by (subst uint_or_disjoint [where n = c]) (simp_all add: uint_push_small uint_drop)
  moreover have "uint (push_bit c a0) = uint a0 * 2 ^ c mod 2 ^ 64" by (simp add: uint_push)
  ultimately show ?thesis using c scaled_split [of c "uint a0"]
    by (simp add: softfloat_shortShiftLeft128_def u128_def u unat_u8_neg algebra_simps)
qed

text \<open>A right shift by less than a word, as both jamming shifts compute it.\<close>

lemma shiftRightJam128_low:
  assumes c: "0 < c" "c < 64"
  shows "u128 \<lparr>v0 = push_bit (64 - c) a64 OR drop_bit c a0 OR of_bool (push_bit (64 - c) a0 \<noteq> 0), v64 = drop_bit c a64\<rparr>
    = jam_shift c (u128 \<lparr>v0 = a0, v64 = a64\<rparr>)"
proof -
  define A L where "A = uint a64" and "L = uint a0"
  have L: "0 \<le> L" "L < 2 ^ 64" using uint_lt2p [of a0] by (simp_all add: L_def)
  have p: "(2::int) ^ 64 = 2 ^ (64 - c) * 2 ^ c" using c by (simp flip: power_add)
  have lo: "L div 2 ^ c < 2 ^ (64 - c)" using L p by (simp add: int_div_less_iff)
  have "A * 2 ^ (64 - c) mod 2 ^ 64 mod 2 ^ (64 - c) = 0" unfolding p by (simp add: mod_mult2_eq' mult.commute)
  then have o: "uint (push_bit (64 - c) a64 OR drop_bit c a0) = A * 2 ^ (64 - c) mod 2 ^ 64 + L div 2 ^ c"
    using lo by (subst uint_or_disjoint [where n = "64 - c"]) (simp_all add: uint_push uint_drop A_def L_def)
  have nz: "push_bit (64 - c) a0 \<noteq> 0 \<longleftrightarrow> L mod 2 ^ c \<noteq> 0" using push_eq_0_iff [of c a0] c by (simp add: L_def)
  have e: "A * 2 ^ (64 - c) = A div 2 ^ c * 2 ^ 64 + A * 2 ^ (64 - c) mod 2 ^ 64" using scaled_split [of "64 - c" A] c by simp
  have n: "A * 2 ^ 64 + L = A * 2 ^ (64 - c) * 2 ^ c + L" using p by simp
  have d: "(A * 2 ^ 64 + L) div 2 ^ c = A * 2 ^ (64 - c) + L div 2 ^ c" "(A * 2 ^ 64 + L) mod 2 ^ c = L mod 2 ^ c"
    unfolding n by simp_all
  have ev: "even (A * 2 ^ (64 - c) + L div 2 ^ c) = even (A * 2 ^ (64 - c) mod 2 ^ 64 + L div 2 ^ c)"
    by (simp add: dvd_mod_iff)
  have q: "uint (push_bit (64 - c) a64 OR drop_bit c a0 OR of_bool (push_bit (64 - c) a0 \<noteq> 0))
      = A * 2 ^ (64 - c) mod 2 ^ 64 + L div 2 ^ c
        + of_bool (L mod 2 ^ c \<noteq> 0 \<and> even (A * 2 ^ (64 - c) mod 2 ^ 64 + L div 2 ^ c))"
    unfolding nz or.assoc [symmetric] by (simp only: uint_or_one o)
  show ?thesis unfolding u128_def jam_shift_def uint128.simps q
    unfolding A_def [symmetric] L_def [symmetric] d ev uint_drop using e by linarith
qed

lemma shortShiftRightJam128_correct:
  "0 < c \<Longrightarrow> c < 64 \<Longrightarrow> u128 (softfloat_shortShiftRightJam128 a64 a0 (of_nat c)) = jam_shift c (u128 \<lparr>v0 = a0, v64 = a64\<rparr>)"
  using shiftRightJam128_low [of c a64 a0]
  by (simp add: softfloat_shortShiftRightJam128_def Let_def unat_u8_neg unat_of_nat)

lemma shiftRightJam128_correct:
  assumes "0 < unat c"
  shows "u128 (softfloat_shiftRightJam128 a64 a0 c) = jam_shift (unat c) (u128 \<lparr>v0 = a0, v64 = a64\<rparr>)"
proof (cases "unat c < 64")
  case True
  then have "c < 64" by (simp add: word_less_nat_alt)
  then show ?thesis using shiftRightJam128_low [OF assms True, of a64 a0] unat_neg_and_63 [OF assms True]
    by (simp add: softfloat_shiftRightJam128_def Let_def)
next
  case False
  define A L where "A = uint a64" and "L = uint a0"
  have L: "0 \<le> L" "L < 2 ^ 64" using uint_lt2p [of a0] by (simp_all add: L_def)
  have A: "0 \<le> A" "A < 2 ^ 64" using uint_lt2p [of a64] by (simp_all add: A_def)
  have c64: "\<not> c < 64" using False by (simp add: word_less_nat_alt)
  have U: "u128 \<lparr>v0 = a0, v64 = a64\<rparr> = A * 2 ^ 64 + L" by (simp add: u128_def A_def L_def)
  show ?thesis
  proof (cases "unat c < 127")
    case True
    define d where "d = unat c - 64"
    have d: "unat c = d + 64" "d < 63" using True False by (simp_all add: d_def)
    have "c < 127" using True by (simp add: word_less_nat_alt)
    have "c AND 63 = take_bit 6 c" using and_low_mask [of c 6] by simp
    then have "unat (c AND 63) = take_bit 6 (unat c)" by (simp only: unsigned_take_bit_eq)
    then have "unat (c AND 63) = unat c mod 64" by (simp add: take_bit_eq_mod)
    then have cd: "unat (c AND 63) = d" using d by simp
    have tk: "a64 AND (2 ^ d - 1) = take_bit d a64" by (rule and_low_mask)
    have nz: "take_bit d a64 OR a0 \<noteq> 0 \<longleftrightarrow> A mod 2 ^ d \<noteq> 0 \<or> L \<noteq> 0"
      by (metis A_def L_def or_eq_0_iff uint_eq_0 uint_take)
    have p: "(2::int) ^ unat c = 2 ^ 64 * 2 ^ d" by (simp add: d power_add)
    have dv: "(A * 2 ^ 64 + L) div 2 ^ unat c = A div 2 ^ d" "(A * 2 ^ 64 + L) mod 2 ^ unat c = A mod 2 ^ d * 2 ^ 64 + L"
      unfolding p using L zdiv_zmult2_eq [of "2 ^ d" "A * 2 ^ 64 + L" "2 ^ 64"] mod_mult2_eq' [of "A * 2 ^ 64 + L" "2 ^ 64" "2 ^ d"] by simp_all
    have "A mod 2 ^ d * 2 ^ 64 + L = 0 \<longleftrightarrow> A mod 2 ^ d = 0 \<and> L = 0" using L(1) by (simp add: add_nonneg_eq_0_iff)
    then show ?thesis unfolding U jam_shift_def dv
      using nz c64 \<open>c < 127\<close> by (simp add: softfloat_shiftRightJam128_def cd tk u128_def uint_or_one uint_drop A_def)
  next
    case False
    then have "(2::int) ^ 128 \<le> 2 ^ Suc (unat c)" by (intro power_increasing) simp_all
    then have "A * 2 ^ 64 + L < 2 ^ Suc (unat c)" using u128_range(2) [of "\<lparr>v0 = a0, v64 = a64\<rparr>"] U by linarith
    moreover have "0 \<le> A * 2 ^ 64 + L" using A L by simp
    ultimately have "jam_shift (unat c) (A * 2 ^ 64 + L) = of_bool (A * 2 ^ 64 + L \<noteq> 0)" by (rule jam_shift_all [rotated])
    moreover have "A * 2 ^ 64 + L = 0 \<longleftrightarrow> a64 OR a0 = 0" using A L by (simp add: add_nonneg_eq_0_iff A_def L_def or_eq_0_iff)
    moreover have "\<not> c < 127" using False by (simp add: word_less_nat_alt)
    ultimately show ?thesis unfolding U using c64 by (simp add: softfloat_shiftRightJam128_def u128_def uint_of_bool)
  qed
qed

lemma uint_and_not_mask:
  assumes "n \<le> LENGTH('a)"
  shows "uint ((w :: 'a::len word) AND NOT (2 ^ n - 1)) = uint w - uint w mod 2 ^ n"
proof -
  have f: "w AND NOT (2 ^ n - 1) = push_bit n (drop_bit n w)"
    by (rule bit_eqI) (auto simp: bit_simps simp flip: mask_eq_exp_minus_1)
  have m: "uint w div 2 ^ n * 2 ^ n = uint w - uint w mod 2 ^ n" by (simp add: minus_mod_eq_div_mult)
  then have "uint w div 2 ^ n * 2 ^ n < 2 ^ LENGTH('a)" 
    using uint_lt2p [of w] int_div_bounds(1) [of "2 ^ n" "uint w"] by (meson le_less_trans zero_less_numeral zero_less_power)
  then show ?thesis unfolding f m [symmetric] by (subst uint_push_small) (simp_all add: uint_drop)
qed

section \<open>Two's complement\<close>

lemma and_top_bit:
  assumes "c = push_bit (LENGTH('a) - 1) (1 :: 'a::len word)"
  shows "((w :: 'a word) AND c \<noteq> 0) = (2 ^ (LENGTH('a) - 1) \<le> uint w)"
proof -
  let ?n = "LENGTH('a) - 1"
  have a: "uint (w AND c) = uint w div 2 ^ ?n mod 2 ^ 1 * 2 ^ ?n" by (rule uint_and_field) (simp_all add: assms)
  have l: "2 * 2 ^ ?n = (2::int) ^ LENGTH('a)" by (simp flip: power_Suc)
  have "0 \<le> uint w div 2 ^ ?n" "uint w div 2 ^ ?n < 2" using uint_lt2p [of w] l by (simp_all add: int_div_less_iff pos_imp_zdiv_nonneg_iff)
  then have "w AND c \<noteq> 0 \<longleftrightarrow> 1 \<le> uint w div 2 ^ ?n"
    using a uint_eq_0 [of "w AND c"] by auto
  then show ?thesis by (simp add: le_int_div_iff)
qed

lemma uint_of_negative:
  assumes "- (2 ^ LENGTH('a)) \<le> x" "x < 0"
  shows "uint (word_of_int x :: 'a::len word) = x + 2 ^ LENGTH('a)"
proof -
  have "x mod 2 ^ LENGTH('a) = (x + 2 ^ LENGTH('a)) mod 2 ^ LENGTH('a)" by simp
  also have "\<dots> = x + 2 ^ LENGTH('a)" using assms by (intro mod_pos_pos_trivial) simp_all
  finally show ?thesis by (simp add: uint_word_of_int)
qed

lemma word_of_int_cong: "x mod 2 ^ LENGTH('a) = y mod 2 ^ LENGTH('a) \<Longrightarrow> word_of_int x = (word_of_int y :: 'a::len word)"
  by (simp add: word_of_int_eq_iff take_bit_eq_mod)

lemma uint_of_nonneg: "0 \<le> x \<Longrightarrow> x < 2 ^ LENGTH('a) \<Longrightarrow> uint (word_of_int x :: 'a::len word) = x"
  by (simp add: uint_word_of_int)

lemma top_bit_negative:
  assumes "- (2 ^ (LENGTH('a) - 1)) \<le> x" "x < 2 ^ (LENGTH('a) - 1)" "c = push_bit (LENGTH('a) - 1) (1 :: 'a::len word)"
  shows "((word_of_int x :: 'a word) AND c \<noteq> 0) = (x < 0)" "(c \<le> (word_of_int x :: 'a word)) = (x < 0)"
proof -
  have l: "2 * 2 ^ (LENGTH('a) - 1) = (2::int) ^ LENGTH('a)" by (simp flip: power_Suc)
  have p: "(0::int) < 2 ^ (LENGTH('a) - 1)" by simp
  have "2 ^ (LENGTH('a) - 1) \<le> uint (word_of_int x :: 'a word) \<longleftrightarrow> x < 0"
  proof (cases "x < 0")
    case True
    then show ?thesis using uint_of_negative [of x, where 'a = 'a] assms l p by linarith
  next
    case False
    then show ?thesis using uint_of_nonneg [of x, where 'a = 'a] assms l p by linarith
  qed
  moreover have "uint c = 2 ^ (LENGTH('a) - 1)" unfolding assms(3) using l p by (subst uint_push_small) simp_all
  ultimately show "((word_of_int x :: 'a word) AND c \<noteq> 0) = (x < 0)" "(c \<le> (word_of_int x :: 'a word)) = (x < 0)"
    by (simp_all only: and_top_bit [OF assms(3)] word_le_uint)
qed

lemma last_bit_odd: "((word_of_int m :: 'a::len word) AND 1 \<noteq> 0) = odd m"
proof -
  have "(word_of_int m :: 'a word) AND 1 = take_bit 1 (word_of_int m)" using and_low_mask [of "word_of_int m :: 'a word" 1] by simp
  then have "(word_of_int m :: 'a word) AND 1 \<noteq> 0 \<longleftrightarrow> uint (word_of_int m :: 'a word) mod 2 ^ 1 \<noteq> 0"
    by (metis uint_eq_0 uint_take)
  also have "uint (word_of_int m :: 'a word) mod 2 ^ 1 = m mod 2" by (simp add: uint_word_of_int mod_mod_cancel)
  finally show ?thesis by (simp add: odd_iff_mod_2_eq_one)
qed

end
