(* ===== verification/Rounding_Contract.thy ===== *)
theory Rounding_Contract
  imports Float_Spec
begin

text \<open>
  The contract of the routines that round and pack a significand, as a locale. Its
  laws say what such a routine computes in integers in the three ranges of the exponent;
  its theorem \<open>correct\<close> says that the result is the IEEE 754 result for the real number
  the significand stands for. The theory of the rounding routines interprets the locale
  for both formats.
\<close>

lemma powi_split: "a \<le> b \<Longrightarrow> (2::real) powi b = of_int (2 ^ nat (b - a)) * 2 powi a"
proof -
  assume "a \<le> b"
  then have "(2::real) powi b = 2 powi ((b - a) + a)" by simp
  also have "\<dots> = 2 powi (b - a) * 2 powi a" by (rule power_int_add) simp
  also have "2 powi (b - a) = (2::real) ^ nat (b - a)"
    using \<open>a \<le> b\<close> by (simp add: power_int_def)
  finally show ?thesis by simp
qed

lemma powi_pos [simp]: "(0::real) < 2 powi a" by simp

lemma powi_le_scaled:
  "a \<le> b \<Longrightarrow> (2 powi b \<le> of_int m * (2::real) powi a) = (2 ^ nat (b - a) \<le> m)"
  by (subst powi_split, assumption)
     (simp only: mult_le_cancel_right_pos [OF powi_pos] of_int_le_iff)

lemma powi_scaled_less:
  "a \<le> b \<Longrightarrow> (of_int m * (2::real) powi a < 2 powi b) = (m < 2 ^ nat (b - a))"
  using powi_le_scaled [of a b m] by linarith

lemma round_int_of_int [simp]: "round_int rm s (of_int n) = n"
  by (simp add: round_int_def)

lemma round_exact:
  assumes "sticky g y n" "0 < g"
  shows "of_int (round_int rm s (y / of_int (2 * g))) * of_int (2 * g) = y \<longleftrightarrow> n mod (2 * g) = 0"
proof
  define M where "M = round_int rm s (y / of_int (2 * g))"
  assume "of_int (round_int rm s (y / of_int (2 * g))) * of_int (2 * g) = y"
  then have "of_int (M * (2 * g)) = y" by (simp add: M_def)
  then have "M * (2 * g) = n" using stickyD(3) [OF assms(1), of "M * (2 * g)"] by simp
  then show "n mod (2 * g) = 0" by auto
next
  assume "n mod (2 * g) = 0"
  then obtain f where f: "n = f * (2 * g)" by (metis div_mult_mod_eq add_0_right)
  then have "of_int n = y" using stickyD(3) [OF assms(1), of n] by simp
  then have "y / of_int (2 * g) = of_int f" using assms(2) f by (auto simp: field_simps)
  then show "of_int (round_int rm s (y / of_int (2 * g))) * of_int (2 * g) = y"
    using \<open>of_int n = y\<close> f by (simp only: round_int_of_int of_int_mult)
qed

text \<open>The rounding of a scaled sticky value.\<close>

lemma round_at_sticky:
  assumes st: "sticky (2 ^ (k - 1)) y n" and k: "1 \<le> k" and x: "x = y * 2 powi (q - int k)"
  shows "round_at rm s q x = of_int (round_code (2 ^ (k - 1)) rm s n) * 2 powi q"
    and "round_at rm s q x = x \<longleftrightarrow> n mod 2 ^ k = 0"
proof -
  have g: "2 * 2 ^ (k - 1) = (2::int) ^ k" using k by (cases k) simp_all
  have "x / 2 powi q = y * (2 powi (q - int k) / 2 powi q)" by (simp add: x)
  also have "2 powi (q - int k) / 2 powi q = 1 / (2 ^ k :: real)"
    by (simp add: power_int_diff)
  finally have xq: "x / 2 powi q = y / of_int (2 * 2 ^ (k - 1))" by (simp only: g) simp
  have r: "round_int rm s (x / 2 powi q) = round_code (2 ^ (k - 1)) rm s n"
    unfolding xq by (subst round_int_sticky [OF st]) (simp_all add: round_code_correct)
  show "round_at rm s q x = of_int (round_code (2 ^ (k - 1)) rm s n) * 2 powi q"
    by (simp add: round_at_def r)
  have "round_at rm s q x = x \<longleftrightarrow>
    of_int (round_int rm s (y / of_int (2 * 2 ^ (k - 1)))) * of_int (2 * 2 ^ (k - 1)) = y"
    unfolding round_at_def xq g by (subst x) (simp add: power_int_diff field_simps)
  then show "round_at rm s q x = x \<longleftrightarrow> n mod 2 ^ k = 0"
    using round_exact [OF st, of rm s] g by simp
qed

text \<open>
  A significand has \<open>k\<close> bits below those of the result. The exponent is one less than
  the biased exponent of the result, because the leading bit of the significand is added
  to it when the result is packed.
\<close>

locale round_pack =
  fixes fmt :: float_format and k :: nat
    and roundPack :: "bool \<Rightarrow> int \<Rightarrow> u64 \<Rightarrow> softfloat_state \<Rightarrow> 'a::len word \<times> softfloat_state"
  assumes k: "2 \<le> k" and fw: "1 \<le> fmt_fw fmt" and ew: "2 \<le> fmt_ew fmt"
    and below: "\<lbrakk>2 ^ (fmt_fw fmt + k) \<le> uint sig; uint sig < 2 ^ (fmt_fw fmt + k + 1);
        - (2 ^ 15) \<le> e; e < 0; j = jam_shift (nat (- e)) (uint sig);
        rm = softfloat_roundingMode st\<rbrakk> \<Longrightarrow>
      uint (fst (roundPack s e sig st)) = enc_make fmt s 0 (round_code (2 ^ (k - 1)) rm s j) \<and>
      snd (roundPack s e sig st) = softfloat_raiseFlags
        (if j mod 2 ^ k = 0 then 0
         else if softfloat_detectTininess st = softfloat_tininess_beforeRounding \<or> e < - 1
           \<or> uint sig + round_incr (2 ^ (k - 1)) rm s < 2 ^ (fmt_fw fmt + k + 1)
         then softfloat_flag_underflow OR softfloat_flag_inexact
         else softfloat_flag_inexact) st"
    and inside: "\<lbrakk>2 ^ (fmt_fw fmt + k) \<le> uint sig; uint sig < 2 ^ (fmt_fw fmt + k + 1);
        0 \<le> e; e < 2 ^ fmt_ew fmt - 3 \<or>
        e = 2 ^ fmt_ew fmt - 3 \<and> uint sig + round_incr (2 ^ (k - 1)) rm s < 2 ^ (fmt_fw fmt + k + 1);
        rm = softfloat_roundingMode st\<rbrakk> \<Longrightarrow>
      uint (fst (roundPack s e sig st)) =
        enc_make fmt s e (round_code (2 ^ (k - 1)) rm s (uint sig)) \<and>
      snd (roundPack s e sig st) = softfloat_raiseFlags
        (if uint sig mod 2 ^ k = 0 then 0 else softfloat_flag_inexact) st"
    and above: "\<lbrakk>2 ^ (fmt_fw fmt + k) \<le> uint sig; uint sig < 2 ^ (fmt_fw fmt + k + 1);
        e < 2 ^ 15; 2 ^ fmt_ew fmt - 3 < e \<or>
        e = 2 ^ fmt_ew fmt - 3 \<and> 2 ^ (fmt_fw fmt + k + 1) \<le> uint sig + round_incr (2 ^ (k - 1)) rm s;
        rm = softfloat_roundingMode st\<rbrakk> \<Longrightarrow>
      uint (fst (roundPack s e sig st)) =
        enc_make fmt s (2 ^ fmt_ew fmt - 1) 0 - of_bool (\<not> away rm s) \<and>
      snd (roundPack s e sig st) = softfloat_raiseFlags
        (softfloat_flag_overflow OR softfloat_flag_inexact) st"
begin

lemma bias: "1 \<le> fmt_bias fmt" "2 * fmt_bias fmt + 2 = 2 ^ fmt_ew fmt"
proof -
  obtain w where w: "fmt_ew fmt = Suc (Suc w)" using ew by (metis Suc_le_D numeral_2_eq_2 Suc_le_mono)
  have "(1::int) \<le> 2 ^ w" by simp
  moreover have "fmt_bias fmt = 2 * 2 ^ w - 1" by (simp add: fmt_bias_def w)
  ultimately show "1 \<le> fmt_bias fmt" by linarith
  show "2 * fmt_bias fmt + 2 = 2 ^ fmt_ew fmt" by (simp add: fmt_bias_def w)
qed

lemma gk: "2 * 2 ^ (k - 1) = (2::int) ^ k" "even ((2::int) ^ (k - 1))" "even ((2::int) ^ fmt_fw fmt)"
  using k fw by (cases k; simp)+

lemma scaled_range:
  assumes "sticky (2 ^ (k - 1)) y n" "2 ^ (fmt_fw fmt + k) \<le> n" "n < 2 ^ (fmt_fw fmt + k + 1)"
    and "x = y * 2 powi (e + fmt_qmin fmt - int k)"
  shows "2 powi (int (fmt_fw fmt) + e + fmt_qmin fmt) \<le> x"
    "x < 2 powi (int (fmt_fw fmt) + e + fmt_qmin fmt + 1)"
    "\<lfloor>log 2 x\<rfloor> = int (fmt_fw fmt) + e + fmt_qmin fmt"
proof -
  have d: "(2::int) ^ (k - 1) dvd 2 ^ (fmt_fw fmt + k)" "(2::int) ^ (k - 1) dvd 2 ^ (fmt_fw fmt + k + 1)"
    by (rule le_imp_power_dvd, simp)+
  have y: "2 ^ (fmt_fw fmt + k) \<le> y" "y < 2 ^ (fmt_fw fmt + k + 1)"
    using stickyD(1) [OF assms(1) d(1)] stickyD(1) [OF assms(1) d(2)] assms(2,3) by simp_all
  have p: "2 ^ (fmt_fw fmt + k) * 2 powi (e + fmt_qmin fmt - int k) =
      (2 powi (int (fmt_fw fmt) + e + fmt_qmin fmt) :: real)"
    unfolding power_int_of_nat [symmetric]
    using power_int_add [of "2::real" "int (fmt_fw fmt + k)" "e + fmt_qmin fmt - int k"]
    by (simp add: algebra_simps del: power_int_of_nat)
  show lo: "2 powi (int (fmt_fw fmt) + e + fmt_qmin fmt) \<le> x"
    unfolding p [symmetric] assms(4) using y(1) by (intro mult_right_mono) simp_all
  have "x < 2 * (2 ^ (fmt_fw fmt + k) * 2 powi (e + fmt_qmin fmt - int k))"
    unfolding assms(4) using mult_strict_right_mono [OF y(2) powi_pos] by (simp add: mult.assoc)
  also have "\<dots> = 2 powi (int (fmt_fw fmt) + e + fmt_qmin fmt + 1)"
    unfolding p by (simp add: power_int_add)
  finally show hi: "x < 2 powi (int (fmt_fw fmt) + e + fmt_qmin fmt + 1)" .
  show "\<lfloor>log 2 x\<rfloor> = int (fmt_fw fmt) + e + fmt_qmin fmt" by (rule floor_log2 [OF lo hi])
qed

lemma code_range:
  assumes "2 ^ (fmt_fw fmt + k) \<le> n" "n < 2 ^ (fmt_fw fmt + k + 1)"
  shows "2 ^ fmt_fw fmt \<le> round_code (2 ^ (k - 1)) rm s n"
    "round_code (2 ^ (k - 1)) rm s n \<le> 2 ^ (fmt_fw fmt + 1)"
    "round_code (2 ^ (k - 1)) rm s n = 2 ^ (fmt_fw fmt + 1) \<longleftrightarrow>
       2 ^ (fmt_fw fmt + k + 1) \<le> n + round_incr (2 ^ (k - 1)) rm s"
  using round_code_range [OF gk(1), of "2 ^ fmt_fw fmt" n "2 ^ (fmt_fw fmt + 1)" rm s] assms
  by (simp_all add: power_add mult.assoc mult.commute [of "2::int"])

text \<open>
  The rounded value of a result, when the significand is shifted down to the exponent
  range of the format (\<open>d = - e\<close>) and when it is not (\<open>d = 0\<close>).
\<close>

lemma round_flt_scaled:
  assumes st: "sticky (2 ^ (k - 1)) y n"
    and n: "2 ^ (fmt_fw fmt + k) \<le> n" "n < 2 ^ (fmt_fw fmt + k + 1)"
    and x: "x = y * 2 powi (e + fmt_qmin fmt - int k)"
    and stj: "sticky (2 ^ (k - 1)) (y / 2 ^ d) j" and d: "int d = max 0 e - e"
  shows "round_flt fmt rm s x =
      of_int (round_code (2 ^ (k - 1)) rm s j) * 2 powi (max 0 e + fmt_qmin fmt)"
    and "round_flt fmt rm s x = x \<longleftrightarrow> j mod 2 ^ k = 0"
proof -
  let ?q = "fmt_qmin fmt"
  note sr = scaled_range [OF st n x]
  have x0: "x \<noteq> 0" using sr(1) powi_pos by (metis less_le_not_le)
  have ulp: "ulp_exp fmt x = max 0 e + ?q" by (simp add: ulp_exp_def sr(3) max_def)
  have "e + ?q - int k = - int d + (max 0 e + ?q - int k)" using d by simp
  then have "(2::real) powi (e + ?q - int k) = 2 powi (- int d + (max 0 e + ?q - int k))" by (rule arg_cong)
  also have "\<dots> = 2 powi (- int d) * 2 powi (max 0 e + ?q - int k)" by (rule power_int_add) simp
  finally have xj: "x = y / 2 ^ d * 2 powi (max 0 e + ?q - int k)" by (simp add: x power_int_minus field_simps)
  have k1: "1 \<le> k" using k by simp
  show "round_flt fmt rm s x = of_int (round_code (2 ^ (k - 1)) rm s j) * 2 powi (max 0 e + ?q)"
    and "round_flt fmt rm s x = x \<longleftrightarrow> j mod 2 ^ k = 0"
    using round_at_sticky [OF stj k1 xj, of rm s] x0 by (simp_all add: round_flt_def ulp)
qed

lemma qmin_bias: "fmt_qmin fmt + int (fmt_fw fmt) = 1 - fmt_bias fmt"
  by (simp add: fmt_qmin_def)

lemma jam_range:
  assumes "0 \<le> n" "n < 2 ^ (fmt_fw fmt + k + 1)" "1 \<le> d"
  shows "0 \<le> jam_shift d n" "jam_shift d n < 2 ^ fmt_fw fmt * 2 ^ k"
    "0 \<le> round_code (2 ^ (k - 1)) rm s (jam_shift d n)"
    "round_code (2 ^ (k - 1)) rm s (jam_shift d n) \<le> 2 ^ fmt_fw fmt"
proof -
  let ?F = "fmt_fw fmt"
  have "0 \<le> n div 2 ^ d" using assms(1) by (simp add: pos_imp_zdiv_nonneg_iff)
  then show j0: "0 \<le> jam_shift d n" by (simp add: jam_shift_def)
  have ev: "even ((2::int) ^ ?F * 2 ^ k)" using gk(3) by simp
  have "(2::int) ^ (?F + k + 1) \<le> 2 ^ (?F + k + d)" using assms(3) by (intro power_increasing) auto
  then have "n < 2 ^ (?F + k + d)" using assms(2) by linarith
  then have "n < 2 ^ ?F * 2 ^ k * 2 ^ d" by (simp only: power_add)
  then show j1: "jam_shift d n < 2 ^ ?F * 2 ^ k" by (subst jam_shift_less [OF ev]) simp_all
  show "0 \<le> round_code (2 ^ (k - 1)) rm s (jam_shift d n)"
    and "round_code (2 ^ (k - 1)) rm s (jam_shift d n) \<le> 2 ^ ?F"
    using round_code_range [OF gk(1), of 0 "jam_shift d n" "2 ^ ?F" rm s] j0 j1 gk(3) by simp_all
qed

lemma tiny_iff:
  assumes st: "sticky (2 ^ (k - 1)) y n"
    and n: "2 ^ (fmt_fw fmt + k) \<le> n" "n < 2 ^ (fmt_fw fmt + k + 1)"
    and x: "x = y * 2 powi (e + fmt_qmin fmt - int k)" and e: "e < 0"
  shows "tiny fmt detect rm s x \<longleftrightarrow>
    detect = softfloat_tininess_beforeRounding \<or> e < - 1
    \<or> n + round_incr (2 ^ (k - 1)) rm s < 2 ^ (fmt_fw fmt + k + 1)"
proof (cases "detect = softfloat_tininess_beforeRounding")
  case True
  have "(2::real) powi (int (fmt_fw fmt) + e + fmt_qmin fmt + 1) \<le> 2 powi (1 - fmt_bias fmt)"
    using e qmin_bias by (intro power_int_increasing) simp_all
  then have "x < 2 powi (1 - fmt_bias fmt)" using scaled_range(2) [OF st n x] by linarith
  then show ?thesis using True by (simp add: tiny_def)
next
  case False
  define M where "M = round_code (2 ^ (k - 1)) rm s n"
  let ?F = "fmt_fw fmt" and ?q = "fmt_qmin fmt"
  have k1: "1 \<le> k" using k by simp
  have "round_at rm s (\<lfloor>log 2 x\<rfloor> - int ?F) x = of_int M * 2 powi (e + ?q)"
    using round_at_sticky(1) [OF st k1, of x "e + ?q" rm s] x scaled_range(3) [OF st n x] by (simp add: M_def)
  then have "tiny fmt detect rm s x \<longleftrightarrow> M < 2 ^ nat (int ?F - e)"
    using False powi_scaled_less [of "e + ?q" "1 - fmt_bias fmt" M] e by (simp add: tiny_def qmin_bias [symmetric])
  also have "\<dots> \<longleftrightarrow> e < - 1 \<or> n + round_incr (2 ^ (k - 1)) rm s < 2 ^ (?F + k + 1)"
  proof (cases "e < - 1")
    case True
    have "M \<le> 2 ^ (?F + 1)" unfolding M_def by (rule code_range(2) [OF n])
    also have "(2::int) ^ (?F + 1) < 2 ^ nat (int ?F - e)"
      using True by (intro power_strict_increasing) simp_all
    finally show ?thesis using True by simp
  next
    case False
    then have "nat (int ?F - e) = ?F + 1" using e by simp
    then show ?thesis using code_range(2,3) [OF n, of rm s] False by (auto simp: M_def)
  qed
  finally show ?thesis using False by simp
qed

lemma correct_below:
  assumes st: "sticky (2 ^ (k - 1)) y (uint sig)"
    and n: "2 ^ (fmt_fw fmt + k) \<le> uint sig" "uint sig < 2 ^ (fmt_fw fmt + k + 1)"
    and e: "- (2 ^ 15) \<le> e" "e < 0"
  shows "ieee_result fmt s (y * 2 powi (e + fmt_qmin fmt - int k)) st (roundPack s e sig st)"
proof -
  define x where "x = y * 2 powi (e + fmt_qmin fmt - int k)"
  define d where "d = nat (- e)"
  define j where "j = jam_shift d (uint sig)"
  define rm where "rm = softfloat_roundingMode st"
  define M where "M = round_code (2 ^ (k - 1)) rm s j"
  let ?q = "fmt_qmin fmt" and ?F = "fmt_fw fmt"
  have d: "int d = max 0 e - e" "1 \<le> d" using e by (simp_all add: d_def)
  have stj: "sticky (2 ^ (k - 1)) (y / 2 ^ d) j" unfolding j_def by (rule sticky_jam [OF st gk(2)])
  have rf: "round_flt fmt rm s x = of_int M * 2 powi ?q" and ex: "round_flt fmt rm s x = x \<longleftrightarrow> j mod 2 ^ k = 0"
    using round_flt_scaled [OF st n x_def stj d(1), of rm s] e by (simp_all add: M_def)
  have M: "0 \<le> M" "M \<le> 2 ^ ?F"
    using jam_range(3,4) [OF _ n(2) d(2), of rm s] by (simp_all add: M_def j_def)
  have "M < 2 ^ nat (fmt_bias fmt + 1 - ?q)"
  proof (rule le_less_trans [OF M(2)])
    show "(2::int) ^ ?F < 2 ^ nat (fmt_bias fmt + 1 - ?q)"
      using bias(1) qmin_bias by (intro power_strict_increasing) simp_all
  qed
  then have no: "\<not> overflows fmt rm s x"
    using powi_scaled_less [of ?q "fmt_bias fmt + 1" M] bias(1) qmin_bias by (simp add: overflows_def rf)
  have "M div 2 ^ ?F \<le> 1" using zdiv_mono1 [OF M(2), of "2 ^ ?F"] by simp
  moreover have "(4::int) \<le> 2 ^ fmt_ew fmt" using power_increasing [OF ew, of "2::int"] by simp
  ultimately have pk: "enc_finite fmt (enc_make fmt s 0 M)" "enc_sign fmt (enc_make fmt s 0 M) = s"
    "enc_abs fmt (enc_make fmt s 0 M) = of_int M * 2 powi ?q"
    using enc_pack [of 0 M fmt s] M by simp_all
  note law = below [OF n e refl refl, where s = s and st = st, folded rm_def d_def, folded j_def, folded M_def]
  show ?thesis
    unfolding ieee_result_def x_def [symmetric] rm_def [symmetric] rounded_def rounding_flags_def
    using law no pk rf ex tiny_iff [OF st n x_def e(2)] by simp
qed

lemma overflow_iff:
  assumes M: "2 ^ fmt_fw fmt \<le> M" "M \<le> 2 ^ (fmt_fw fmt + 1)"
    and rf: "round_flt fmt rm s x = of_int M * 2 powi (e + fmt_qmin fmt)"
  shows "overflows fmt rm s x \<longleftrightarrow>
    2 ^ fmt_ew fmt - 3 < e \<or> e = 2 ^ fmt_ew fmt - 3 \<and> M = 2 ^ (fmt_fw fmt + 1)"
proof -
  let ?q = "fmt_qmin fmt" and ?F = "fmt_fw fmt" and ?E = "(2::int) ^ fmt_ew fmt"
  have "overflows fmt rm s x \<longleftrightarrow>
      2 powi (fmt_bias fmt + 1 - e - ?q) * 2 powi (e + ?q) \<le> of_int M * (2::real) powi (e + ?q)"
    by (simp add: overflows_def rf power_int_add [symmetric])
  also have "\<dots> \<longleftrightarrow> 2 powi (fmt_bias fmt + 1 - e - ?q) \<le> (of_int M :: real)"
    by (rule mult_le_cancel_right_pos [OF powi_pos])
  also have "fmt_bias fmt + 1 - e - ?q = (?E - 3 - e) + (int ?F + 1)" using bias(2) qmin_bias by linarith
  also have "2 powi ((?E - 3 - e) + (int ?F + 1)) \<le> (of_int M :: real) \<longleftrightarrow>
      ?E - 3 < e \<or> e = ?E - 3 \<and> M = 2 ^ (?F + 1)"
  proof -
    have p: "2 powi (int ?F + 1) = (of_int (2 ^ (?F + 1)) :: real)" by (simp add: power_int_add)
    consider (lt) "e < ?E - 3" | (eq) "e = ?E - 3" | (gt) "?E - 3 < e" by linarith
    then show ?thesis
    proof cases
      case lt
      have "of_int M \<le> (of_int (2 ^ (?F + 1)) :: real)" using M(2) by (simp only: of_int_le_iff)
      also have "\<dots> < 2 powi ((?E - 3 - e) + (int ?F + 1))"
        unfolding p [symmetric] using lt by (intro power_int_strict_increasing) simp_all
      finally show ?thesis using lt by simp
    next
      case eq
      then have "2 powi ((?E - 3 - e) + (int ?F + 1)) \<le> (of_int M :: real) \<longleftrightarrow> 2 ^ (?F + 1) \<le> M"
        using p by (simp only: of_int_le_iff diff_self add_0)
      then show ?thesis using M(2) eq by linarith
    next
      case gt
      have "2 powi ((?E - 3 - e) + (int ?F + 1)) \<le> (2::real) powi int ?F"
        using gt by (intro power_int_increasing) simp_all
      also have "\<dots> = of_int (2 ^ ?F)" by simp
      also have "\<dots> \<le> of_int M" using M(1) by (simp only: of_int_le_iff)
      finally show ?thesis using gt by simp
    qed
  qed
  finally show ?thesis .
qed

lemma not_tiny:
  assumes M: "2 ^ fmt_fw fmt \<le> M" and e: "0 \<le> e"
    and x: "2 powi (int (fmt_fw fmt) + e + fmt_qmin fmt) \<le> x"
    and ra: "round_at rm s (\<lfloor>log 2 x\<rfloor> - int (fmt_fw fmt)) x = of_int M * 2 powi (e + fmt_qmin fmt)"
  shows "\<not> tiny fmt detect rm s x"
proof -
  let ?q = "fmt_qmin fmt" and ?F = "fmt_fw fmt"
  have b: "2 powi (1 - fmt_bias fmt) \<le> (2::real) powi (int ?F + e + ?q)"
    using e qmin_bias by (intro power_int_increasing) simp_all
  also have "\<dots> = of_int (2 ^ ?F) * 2 powi (e + ?q)"
    using power_int_add [of "2::real" "int ?F" "e + ?q"] by (simp add: add.assoc)
  also have "\<dots> \<le> of_int M * 2 powi (e + ?q)" using M by (intro mult_right_mono) (simp_all only: of_int_le_iff, simp)
  finally show ?thesis using b x ra by (simp add: tiny_def)
qed

lemma correct_above:
  assumes st: "sticky (2 ^ (k - 1)) y (uint sig)"
    and n: "2 ^ (fmt_fw fmt + k) \<le> uint sig" "uint sig < 2 ^ (fmt_fw fmt + k + 1)"
    and e: "0 \<le> e" "e < 2 ^ 15"
  shows "ieee_result fmt s (y * 2 powi (e + fmt_qmin fmt - int k)) st (roundPack s e sig st)"
proof -
  define x where "x = y * 2 powi (e + fmt_qmin fmt - int k)"
  define rm where "rm = softfloat_roundingMode st"
  define M where "M = round_code (2 ^ (k - 1)) rm s (uint sig)"
  let ?F = "fmt_fw fmt" and ?E = "(2::int) ^ fmt_ew fmt"
  have st0: "sticky (2 ^ (k - 1)) (y / 2 ^ 0) (uint sig)" and d0: "int 0 = max 0 e - e" using st e by simp_all
  have rf: "round_flt fmt rm s x = of_int M * 2 powi (e + fmt_qmin fmt)"
    and ex: "round_flt fmt rm s x = x \<longleftrightarrow> uint sig mod 2 ^ k = 0"
    using round_flt_scaled [OF st n x_def st0 d0, of rm s] e by (simp_all add: M_def)
  note M = code_range [OF n, of rm s, folded M_def]
  note sr = scaled_range [OF st n x_def]
  have k1: "1 \<le> k" using k by simp
  have nt: "\<not> tiny fmt (softfloat_detectTininess st) rm s x"
    using not_tiny [OF M(1) e(1) sr(1)] round_at_sticky(1) [OF st k1 x_def, of rm s] sr(3) by (simp add: M_def)
  note ov = overflow_iff [OF M(1,2) rf]
  show ?thesis
  proof (cases "overflows fmt rm s x")
    case True
    then have "?E - 3 < e \<or> e = ?E - 3 \<and> 2 ^ (?F + k + 1) \<le> uint sig + round_incr (2 ^ (k - 1)) rm s"
      using ov M(3) by blast
    from above [OF n e(2) this rm_def] True show ?thesis
      unfolding ieee_result_def x_def [symmetric] rm_def [symmetric] rounded_def rounding_flags_def by simp
  next
    case False
    have M0: "0 \<le> M" "M div 2 ^ ?F \<le> 2" "M \<noteq> 2 ^ (?F + 1) \<Longrightarrow> M div 2 ^ ?F < 2"
      using M(1,2) zdiv_mono1 [OF M(2), of "2 ^ ?F"] zero_less_power [of "2::int" ?F]
      by (auto simp: int_div_less_iff simp del: zero_less_power)
    then have es: "e + M div 2 ^ ?F \<le> ?E - 2" using ov False by (cases "M = 2 ^ (?F + 1)") auto
    note pk = enc_pack [OF e(1) M0(1) M(2) _ es, of s]
    have "e < ?E - 3 \<or> e = ?E - 3 \<and> uint sig + round_incr (2 ^ (k - 1)) rm s < 2 ^ (?F + k + 1)"
      using False ov M(3) by auto
    note law = inside [OF n e(1) this rm_def, folded M_def]
    show ?thesis
      unfolding ieee_result_def x_def [symmetric] rm_def [symmetric] rounded_def rounding_flags_def
      using law pk M(1) nt ex rf False by simp
  qed
qed

theorem correct:
  assumes "sticky (2 ^ (k - 1)) y (uint sig)"
    and "2 ^ (fmt_fw fmt + k) \<le> uint sig" "uint sig < 2 ^ (fmt_fw fmt + k + 1)"
    and "- (2 ^ 15) \<le> e" "e < 2 ^ 15"
  shows "ieee_result fmt s (y * 2 powi (e + fmt_qmin fmt - int k)) st (roundPack s e sig st)"
  using correct_below [OF assms(1-4)] correct_above [OF assms(1-3) _ assms(5)] by (cases "e < 0") simp_all

end

end
