(* ===== verification/Ieee_Operations.thy ===== *)
theory Ieee_Operations
  imports Rounding_Contract
begin

text \<open>
  What IEEE 754 asks of the operations, for any format, and the arithmetic that the code
  relies on: the result predicates of sum, product and quotient (NaNs, infinities and
  signed zeros included), and the lemmas that a sum, a difference or a product computed
  on significands with a jammed last bit rounds to the right result. The lemmas live in
  the locale of the rounding contract and in its extension by a routine that normalises
  before it rounds.
\<close>

section \<open>Operands\<close>

definition norm_operand :: "float_format \<Rightarrow> int \<Rightarrow> int \<Rightarrow> int \<Rightarrow> bool" where
  "norm_operand fmt u e m \<longleftrightarrow> 2 ^ fmt_fw fmt \<le> m \<and> m < 2 ^ (fmt_fw fmt + 1) \<and>
     enc_abs fmt u = of_int m * 2 powi (e - 1 + fmt_qmin fmt) \<and>
     - int (fmt_fw fmt) < e \<and> e \<le> 2 ^ fmt_ew fmt"

lemma enc_field_range:
  "0 \<le> enc_exp fmt u" "enc_exp fmt u < 2 ^ fmt_ew fmt" "0 \<le> enc_frac fmt u" "enc_frac fmt u < 2 ^ fmt_fw fmt"
  by (simp_all add: enc_exp_def enc_frac_def)

lemma norm_operand_normal:
  assumes "enc_exp fmt u \<noteq> 0"
  shows "norm_operand fmt u (enc_exp fmt u) (2 ^ fmt_fw fmt + enc_frac fmt u)"
proof -
  have "1 \<le> enc_exp fmt u" using assms enc_field_range(1) [of fmt u] by linarith
  moreover have "- int (fmt_fw fmt) < enc_exp fmt u" using calculation by linarith
  ultimately show ?thesis
    using assms enc_field_range [of fmt u] by (simp add: norm_operand_def enc_abs_def enc_sig_def add.commute)
qed

lemma norm_operand_subnormal:
  assumes "enc_exp fmt u = 0" "2 ^ fmt_fw fmt \<le> enc_frac fmt u * 2 ^ c" "enc_frac fmt u * 2 ^ c < 2 ^ (fmt_fw fmt + 1)"
    "c \<le> fmt_fw fmt"
  shows "norm_operand fmt u (1 - int c) (enc_frac fmt u * 2 ^ c)"
proof -
  have "(2::real) powi (fmt_qmin fmt) = 2 ^ c * 2 powi (1 - int c - 1 + fmt_qmin fmt)"
    using power_int_add [of "2::real" "int c" "1 - int c - 1 + fmt_qmin fmt"] by simp
  moreover have "1 - int c \<le> 2 ^ fmt_ew fmt" using one_le_power [of "2::int" "fmt_ew fmt"] by linarith
  ultimately show ?thesis using assms by (simp add: norm_operand_def enc_abs_def enc_sig_def)
qed

lemma round_code_exact:
  assumes "0 < g" shows "round_code g rm s (m * (2 * g)) = m"
proof -
  have "of_int (m * (2 * g)) / of_int (2 * g) = (of_int m :: real)" using assms by simp
  then show ?thesis using round_code_correct [OF assms, of rm s "m * (2 * g)"] by (simp only: round_int_of_int)
qed

section \<open>Results of the operations\<close>

definition enc_zero :: "float_format \<Rightarrow> int \<Rightarrow> bool" where
  "enc_zero fmt u \<longleftrightarrow> enc_exp fmt u = 0 \<and> enc_frac fmt u = 0"

definition enc_snan :: "float_format \<Rightarrow> int \<Rightarrow> bool" where
  "enc_snan fmt u \<longleftrightarrow> enc_nan fmt u \<and> enc_frac fmt u < 2 ^ (fmt_fw fmt - 1)"

definition nan_result ::
  "float_format \<Rightarrow> bool \<Rightarrow> softfloat_state \<Rightarrow> 'a::len word \<times> softfloat_state \<Rightarrow> bool" where
  "nan_result fmt invalid st r \<longleftrightarrow>
     uint (fst r) = enc_make fmt False (2 ^ fmt_ew fmt - 1) (2 ^ (fmt_fw fmt - 1)) \<and>
     snd r = (if invalid then softfloat_raiseFlags softfloat_flag_invalid st else st)"

definition inf_result ::
  "float_format \<Rightarrow> bool \<Rightarrow> softfloat_state \<Rightarrow> 'a::len word \<times> softfloat_state \<Rightarrow> bool" where
  "inf_result fmt s st r \<longleftrightarrow> uint (fst r) = enc_make fmt s (2 ^ fmt_ew fmt - 1) 0 \<and> snd r = st"

definition mags_add ::
  "float_format \<Rightarrow> bool \<Rightarrow> int \<Rightarrow> int \<Rightarrow> softfloat_state \<Rightarrow> 'a::len word \<times> softfloat_state \<Rightarrow> bool" where
  "mags_add fmt s a b st r \<longleftrightarrow>
     (if enc_nan fmt a \<or> enc_nan fmt b then nan_result fmt (enc_snan fmt a \<or> enc_snan fmt b) st r
      else if enc_inf fmt a \<or> enc_inf fmt b then inf_result fmt s st r
      else ieee_result fmt s (enc_abs fmt a + enc_abs fmt b) st r)"

definition mags_sub ::
  "float_format \<Rightarrow> bool \<Rightarrow> int \<Rightarrow> int \<Rightarrow> softfloat_state \<Rightarrow> 'a::len word \<times> softfloat_state \<Rightarrow> bool" where
  "mags_sub fmt s a b st r \<longleftrightarrow>
     (if enc_nan fmt a \<or> enc_nan fmt b then nan_result fmt (enc_snan fmt a \<or> enc_snan fmt b) st r
      else if enc_inf fmt a \<and> enc_inf fmt b then nan_result fmt True st r
      else if enc_inf fmt a then inf_result fmt s st r
      else if enc_inf fmt b then inf_result fmt (\<not> s) st r
      else ieee_result fmt
             (if enc_abs fmt a = enc_abs fmt b then softfloat_roundingMode st = softfloat_round_min
              else if enc_abs fmt b < enc_abs fmt a then s else \<not> s)
             \<bar>enc_abs fmt a - enc_abs fmt b\<bar> st r)"

definition enc_val :: "float_format \<Rightarrow> bool \<Rightarrow> int \<Rightarrow> real" where
  "enc_val fmt s u = (if s then - enc_abs fmt u else enc_abs fmt u)"

definition ieee_sum ::
  "float_format \<Rightarrow> int \<Rightarrow> bool \<Rightarrow> int \<Rightarrow> softfloat_state \<Rightarrow> 'a::len word \<times> softfloat_state \<Rightarrow> bool" where
  "ieee_sum fmt a sb b st r \<longleftrightarrow>
     (let sa = enc_sign fmt a; x = enc_val fmt sa a + enc_val fmt sb b
      in if enc_nan fmt a \<or> enc_nan fmt b then nan_result fmt (enc_snan fmt a \<or> enc_snan fmt b) st r
         else if enc_inf fmt a \<and> enc_inf fmt b \<and> sa \<noteq> sb then nan_result fmt True st r
         else if enc_inf fmt a then inf_result fmt sa st r
         else if enc_inf fmt b then inf_result fmt sb st r
         else ieee_result fmt
                (if x = 0 then if sa = sb then sa else softfloat_roundingMode st = softfloat_round_min
                 else x < 0)
                \<bar>x\<bar> st r)"

definition ieee_product ::
  "float_format \<Rightarrow> int \<Rightarrow> int \<Rightarrow> softfloat_state \<Rightarrow> 'a::len word \<times> softfloat_state \<Rightarrow> bool" where
  "ieee_product fmt a b st r \<longleftrightarrow>
     (let s = (enc_sign fmt a \<noteq> enc_sign fmt b)
      in if enc_nan fmt a \<or> enc_nan fmt b then nan_result fmt (enc_snan fmt a \<or> enc_snan fmt b) st r
         else if enc_inf fmt a \<and> enc_zero fmt b \<or> enc_zero fmt a \<and> enc_inf fmt b
         then nan_result fmt True st r
         else if enc_inf fmt a \<or> enc_inf fmt b then inf_result fmt s st r
         else ieee_result fmt s (enc_abs fmt a * enc_abs fmt b) st r)"

definition ieee_quotient ::
  "float_format \<Rightarrow> int \<Rightarrow> int \<Rightarrow> softfloat_state \<Rightarrow> 'a::len word \<times> softfloat_state \<Rightarrow> bool" where
  "ieee_quotient fmt a b st r \<longleftrightarrow>
     (let s = (enc_sign fmt a \<noteq> enc_sign fmt b)
      in if enc_nan fmt a \<or> enc_nan fmt b then nan_result fmt (enc_snan fmt a \<or> enc_snan fmt b) st r
         else if enc_inf fmt a \<and> enc_inf fmt b \<or> enc_zero fmt a \<and> enc_zero fmt b
         then nan_result fmt True st r
         else if enc_inf fmt a then inf_result fmt s st r
         else if enc_inf fmt b then ieee_result fmt s 0 st r
         else if enc_zero fmt b
         then inf_result fmt s (softfloat_raiseFlags softfloat_flag_infinite st) r
         else ieee_result fmt s (enc_abs fmt a / enc_abs fmt b) st r)"

lemma enc_abs_nonneg: "0 \<le> enc_abs fmt u"
proof -
  have "0 \<le> enc_sig fmt u" using enc_field_range(3) [of fmt u] by (simp add: enc_sig_def)
  then show ?thesis by (simp add: enc_abs_def)
qed

lemma enc_abs_zero: "enc_abs fmt u = 0 \<longleftrightarrow> enc_zero fmt u"
proof -
  have "enc_sig fmt u = 0 \<longleftrightarrow> enc_zero fmt u"
    using add_nonneg_pos [OF enc_field_range(3) [of fmt u] zero_less_power [of "2::int" "fmt_fw fmt"]]
    by (auto simp: enc_sig_def enc_zero_def)
  then show ?thesis by (simp add: enc_abs_def)
qed

lemma sum_of_mags_add:
  assumes "mags_add fmt (enc_sign fmt a) a b st r"
  shows "ieee_sum fmt a (enc_sign fmt a) b st r"
proof -
  define sa where "sa = enc_sign fmt a"
  have "\<bar>enc_val fmt sa a + enc_val fmt sa b\<bar> = enc_abs fmt a + enc_abs fmt b"
    using enc_abs_nonneg [of fmt a] enc_abs_nonneg [of fmt b] by (simp add: enc_val_def)
  moreover have "enc_val fmt sa a + enc_val fmt sa b \<noteq> 0 \<Longrightarrow> (enc_val fmt sa a + enc_val fmt sa b < 0) = sa"
    using enc_abs_nonneg [of fmt a] enc_abs_nonneg [of fmt b] by (auto simp: enc_val_def)
  ultimately show ?thesis using assms
    unfolding ieee_sum_def mags_add_def Let_def sa_def [symmetric] by (auto simp: enc_inf_def enc_nan_def)
qed

lemma sum_of_mags_sub:
  assumes "mags_sub fmt (enc_sign fmt a) a b st r"
  shows "ieee_sum fmt a (\<not> enc_sign fmt a) b st r"
proof -
  define sa where "sa = enc_sign fmt a"
  define x where "x = enc_val fmt sa a + enc_val fmt (\<not> sa) b"
  have "x = (if sa then enc_abs fmt b - enc_abs fmt a else enc_abs fmt a - enc_abs fmt b)"
    by (simp add: x_def enc_val_def)
  then have "\<bar>x\<bar> = \<bar>enc_abs fmt a - enc_abs fmt b\<bar>" "x = 0 \<longleftrightarrow> enc_abs fmt a = enc_abs fmt b"
    "x \<noteq> 0 \<Longrightarrow> x < 0 \<longleftrightarrow> (if enc_abs fmt b < enc_abs fmt a then sa else \<not> sa)" by auto
  then show ?thesis using assms
    unfolding ieee_sum_def mags_sub_def Let_def sa_def [symmetric] x_def [symmetric] by (auto split: if_splits)
qed

context round_pack
begin

text \<open>One step of normalisation before rounding, as after a product or a sum.\<close>

lemma correct_norm1:
  assumes k3: "3 \<le> k" and st: "sticky (2 ^ (k - 2)) y n"
    and n: "2 ^ (fmt_fw fmt + k - 1) \<le> n" "n < 2 ^ (fmt_fw fmt + k + 1)"
    and e: "- (2 ^ 15) < e" "e < 2 ^ 15" and x: "x = y * 2 powi (e + fmt_qmin fmt - int k)"
    and sig: "uint sig = (if n < 2 ^ (fmt_fw fmt + k) then 2 * n else n)"
    and e': "e' = (if n < 2 ^ (fmt_fw fmt + k) then e - 1 else e)"
  shows "ieee_result fmt s x st (roundPack s e' sig st)"
proof (cases "n < 2 ^ (fmt_fw fmt + k)")
  case True
  have "k - 1 = 1 + (k - 2)" using k3 by linarith
  then have g: "2 ^ 1 * 2 ^ (k - 2) = (2::int) ^ (k - 1)" by (simp only: power_add)
  have p: "2 * 2 ^ (fmt_fw fmt + k - 1) = (2::int) ^ (fmt_fw fmt + k)" using k3 by (cases k) simp_all
  have "sticky (2 ^ (k - 1)) (2 * y) (uint sig)"
    using sticky_scale [OF st, of 1] True sig unfolding g by simp
  moreover have "2 ^ (fmt_fw fmt + k) \<le> uint sig" "uint sig < 2 ^ (fmt_fw fmt + k + 1)"
    using True sig n(1) p by simp_all
  moreover have "x = 2 * y * 2 powi (e' + fmt_qmin fmt - int k)"
  proof -
    have "e + fmt_qmin fmt - int k = 1 + (e' + fmt_qmin fmt - int k)" using True e' by simp
    then have "(2::real) powi (e + fmt_qmin fmt - int k) = 2 powi (1 + (e' + fmt_qmin fmt - int k))" by (rule arg_cong)
    also have "\<dots> = 2 * 2 powi (e' + fmt_qmin fmt - int k)" by (subst power_int_add) simp_all
    finally show ?thesis by (simp add: x)
  qed
  ultimately show ?thesis using correct [of "2 * y" sig e' s st] True e e' by simp
next
  case False
  have "sticky (2 ^ (k - 1)) y n"
    using st by (rule sticky_coarser) (rule le_imp_power_dvd, simp)
  then show ?thesis using correct [of y sig e' s st] False e e' n sig by (simp add: x)
qed

lemma correct_exact:
  assumes n: "2 ^ (fmt_fw fmt + k) \<le> uint sig" "uint sig < 2 ^ (fmt_fw fmt + k + 1)"
    and e: "- (2 ^ 15) \<le> e" "e < 2 ^ 15" and x: "x = of_int (uint sig) * 2 powi (e + fmt_qmin fmt - int k)"
  shows "ieee_result fmt s x st (roundPack s e sig st)"
  unfolding x by (rule correct [OF sticky_refl n e])

lemma correct_sum:
  assumes k3: "3 \<le> k" and ma: "2 ^ fmt_fw fmt \<le> ma" "ma < 2 ^ (fmt_fw fmt + 1)"
    and mb: "0 \<le> mb" "mb < 2 ^ (fmt_fw fmt + 1)" and d: "1 \<le> d" and e: "0 \<le> e" "e < 2 ^ 15"
    and n: "n = ma * 2 ^ (k - 1) + jam_shift d (mb * 2 ^ (k - 1))"
    and x: "x = (of_int ma + of_int mb / 2 ^ d) * 2 powi (e - 1 + fmt_qmin fmt)"
    and sig: "uint sig = (if n < 2 ^ (fmt_fw fmt + k) then 2 * n else n)"
    and e': "e' = (if n < 2 ^ (fmt_fw fmt + k) then e - 1 else e)"
  shows "ieee_result fmt s x st (roundPack s e' sig st)"
proof (rule correct_norm1 [OF k3 _ _ _ _ e(2) _ sig e'])
  let ?F = "fmt_fw fmt" and ?K = "(2::int) ^ (k - 1)"
  define y :: real where "y = of_int (ma * ?K) + of_int (mb * ?K) / 2 ^ d"
  have "sticky 2 (of_int (mb * ?K) / 2 ^ d) (jam_shift d (mb * ?K))" by (rule sticky_jam [OF sticky_refl]) simp
  then have "sticky 2 y n" unfolding y_def n using gk(2) by (intro sticky_add) simp_all
  then show "sticky (2 ^ (k - 2)) y n" by (rule sticky_coarser) (use k3 in simp)
  have p: "(2::int) ^ ?F * ?K = 2 ^ (?F + k - 1)" "(2::int) ^ (?F + 1) * ?K = 2 ^ (?F + k)"
    using k3 by (simp_all flip: power_add power_Suc)
  have j0: "0 \<le> jam_shift d (mb * ?K)"
    using mb(1) by (simp add: jam_shift_def pos_imp_zdiv_nonneg_iff)
  have j1: "jam_shift d (mb * ?K) < 2 ^ (?F + k)"
  proof (subst jam_shift_less)
    have "mb * ?K < 2 ^ (?F + 1) * ?K" using mb(2) by (rule mult_strict_right_mono) simp
    also have "\<dots> \<le> 2 ^ (?F + k) * 2 ^ d" unfolding p by simp
    finally show "mb * ?K < 2 ^ (?F + k) * 2 ^ d" .
  qed (use k3 in simp)
  have "2 ^ ?F * ?K \<le> ma * ?K" "ma * ?K < 2 ^ (?F + 1) * ?K" using ma by simp_all
  then show "2 ^ (?F + k - 1) \<le> n" "n < 2 ^ (?F + k + 1)" using j0 j1 unfolding n p by simp_all
  show "- (2 ^ 15) < e" using e(1) by simp
  have "e - 1 + fmt_qmin fmt = int (k - 1) + (e + fmt_qmin fmt - int k)" using k3 by (simp add: of_nat_diff)
  then have "(2::real) powi (e - 1 + fmt_qmin fmt) = 2 powi (int (k - 1) + (e + fmt_qmin fmt - int k))" by (rule arg_cong)
  also have "\<dots> = 2 ^ (k - 1) * 2 powi (e + fmt_qmin fmt - int k)" by (subst power_int_add) simp_all
  finally show "x = y * 2 powi (e + fmt_qmin fmt - int k)" by (simp add: x y_def algebra_simps)
qed

lemma correct_product:
  assumes k3: "3 \<le> k" and a: "norm_operand fmt a ea ma" and b: "norm_operand fmt b eb mb"
    and e: "- (2 ^ 15) < ea + eb - fmt_bias fmt" "ea + eb - fmt_bias fmt < 2 ^ 15"
    and n: "n = jam_shift (fmt_fw fmt + k + 2) (ma * mb * 2 ^ (2 * k + 1))"
    and sig: "uint sig = (if n < 2 ^ (fmt_fw fmt + k) then 2 * n else n)"
    and e': "e' = (if n < 2 ^ (fmt_fw fmt + k) then ea + eb - fmt_bias fmt - 1 else ea + eb - fmt_bias fmt)"
  shows "ieee_result fmt s (enc_abs fmt a * enc_abs fmt b) st (roundPack s e' sig st)"
proof (rule correct_norm1 [OF k3 _ _ _ e _ sig e'])
  let ?F = "fmt_fw fmt" and ?D = "fmt_fw fmt + k + 2" and ?P = "ma * mb * 2 ^ (2 * k + 1)"
  define y :: real where "y = of_int ?P / 2 ^ ?D"
  have ma: "2 ^ ?F \<le> ma" "ma < 2 ^ (?F + 1)" and mb: "2 ^ ?F \<le> mb" "mb < 2 ^ (?F + 1)"
    using a b by (simp_all add: norm_operand_def)
  have "sticky 2 y n" unfolding y_def n by (rule sticky_jam [OF sticky_refl]) simp
  then show "sticky (2 ^ (k - 2)) y n" by (rule sticky_coarser) (use k3 in simp)
  have pos: "(0::int) < 2 ^ ?F" by simp
  have "2 ^ ?F * 2 ^ ?F \<le> ma * mb" using ma mb pos by (intro mult_mono) linarith+
  then have "2 ^ ?F * 2 ^ ?F * 2 ^ (2 * k + 1) \<le> ?P" by (intro mult_right_mono) simp_all
  also have "(2::int) ^ ?F * 2 ^ ?F * 2 ^ (2 * k + 1) = 2 ^ (?F + k - 1) * 2 ^ ?D"
    using k3 by (simp flip: power_add power_Suc)
  finally have "\<not> ?P < 2 ^ (?F + k - 1) * 2 ^ ?D" by linarith
  then show "2 ^ (?F + k - 1) \<le> n" using jam_shift_less(1) [of "2 ^ (?F + k - 1)" ?D ?P] k3 by (simp add: n)
  have "ma * mb < 2 ^ (?F + 1) * 2 ^ (?F + 1)" using ma mb pos by (intro mult_strict_mono) linarith+
  then have "?P < 2 ^ (?F + 1) * 2 ^ (?F + 1) * 2 ^ (2 * k + 1)" by (intro mult_strict_right_mono) simp_all
  also have "(2::int) ^ (?F + 1) * 2 ^ (?F + 1) * 2 ^ (2 * k + 1) = 2 ^ (?F + k + 1) * 2 ^ ?D"
    by (simp flip: power_add)
  finally show "n < 2 ^ (?F + k + 1)" using jam_shift_less(1) [of "2 ^ (?F + k + 1)" ?D ?P] by (simp add: n)
  let ?q = "fmt_qmin fmt"
  have "(2::real) powi (int (2 * k + 1) - int ?D) = 2 ^ (2 * k + 1) / 2 ^ ?D"
    by (subst power_int_diff) (simp_all only: power_int_of_nat, simp)
  then have "y = of_int ma * of_int mb * 2 powi (int (2 * k + 1) - int ?D)" by (simp add: y_def)
  moreover have "(2::real) powi (int (2 * k + 1) - int ?D) * 2 powi (ea + eb - fmt_bias fmt + ?q - int k)
      = 2 powi (ea - 1 + ?q) * 2 powi (eb - 1 + ?q)"
    by (simp flip: power_int_add) (simp add: fmt_qmin_def algebra_simps)
  ultimately show "enc_abs fmt a * enc_abs fmt b = y * 2 powi (ea + eb - fmt_bias fmt + ?q - int k)"
    using a b by (simp add: norm_operand_def mult_ac)
qed

end

section \<open>Normalising before rounding\<close>

locale norm_round_pack = round_pack fmt k roundPack
  for fmt :: float_format and k :: nat
    and roundPack :: "bool \<Rightarrow> int \<Rightarrow> u64 \<Rightarrow> softfloat_state \<Rightarrow> 'a::len word \<times> softfloat_state" +
  fixes normRoundPack :: "bool \<Rightarrow> int \<Rightarrow> u64 \<Rightarrow> softfloat_state \<Rightarrow> 'a::len word \<times> softfloat_state"
  assumes k3: "3 \<le> k"
    and norm: "\<lbrakk>0 < uint sig; uint sig < 2 ^ (fmt_fw fmt + k + 1); - (2 ^ 14) \<le> e; e < 2 ^ 15\<rbrakk> \<Longrightarrow>
      \<exists>c \<le> 63. 2 ^ (fmt_fw fmt + k) \<le> uint sig * 2 ^ c \<and> uint sig * 2 ^ c < 2 ^ (fmt_fw fmt + k + 1) \<and>
        uint (push_bit c sig) = uint sig * 2 ^ c \<and>
        normRoundPack s e sig st = roundPack s (e - int c) (push_bit c sig) st"
begin

lemma correct_normalised:
  assumes n: "0 < uint sig" "uint sig < 2 ^ (fmt_fw fmt + k + 1)" and st: "sticky 2 y (uint sig)"
    and ex: "uint sig < 2 ^ (fmt_fw fmt + k - 1) \<Longrightarrow> y = of_int (uint sig)"
    and e: "- (2 ^ 14) \<le> e" "e < 2 ^ 15" and x: "x = y * 2 powi (e + fmt_qmin fmt - int k)"
  shows "ieee_result fmt s x st (normRoundPack s e sig st)"
proof -
  from norm [OF n e, of s st] obtain c where c: "c \<le> 63" "2 ^ (fmt_fw fmt + k) \<le> uint (push_bit c sig)"
    "uint (push_bit c sig) < 2 ^ (fmt_fw fmt + k + 1)" "uint (push_bit c sig) = uint sig * 2 ^ c"
    "normRoundPack s e sig st = roundPack s (e - int c) (push_bit c sig) st" by auto
  have "sticky (2 ^ (k - 1)) (2 ^ c * y) (uint (push_bit c sig))"
  proof (cases "uint sig < 2 ^ (fmt_fw fmt + k - 1)")
    case True
    then have "2 ^ c * y = of_int (uint (push_bit c sig))" using ex c(4) by simp
    then show ?thesis by (simp only: sticky_refl)
  next
    case False
    have "c \<le> 1"
    proof (rule ccontr)
      assume "\<not> c \<le> 1"
      then have "(2::int) ^ 2 \<le> 2 ^ c" by (intro power_increasing) simp_all
      then have "2 ^ (fmt_fw fmt + k - 1) * 2 ^ 2 \<le> uint sig * 2 ^ c" using False by (intro mult_mono) simp_all
      moreover have "(2::int) ^ (fmt_fw fmt + k - 1) * 2 ^ 2 = 2 ^ (fmt_fw fmt + k + 1)"
        unfolding power_add [symmetric] using k3 by simp
      ultimately have "2 ^ (fmt_fw fmt + k + 1) \<le> uint (push_bit c sig)" unfolding c(4) by linarith
      then show False using c(3) by linarith
    qed
    then have "2 ^ c * 2 dvd (2::int) ^ (k - 1)"
      using k3 le_imp_power_dvd [of "c + 1" "k - 1" "2::int"] by (simp add: mult.commute)
    then show ?thesis using sticky_coarser [OF sticky_scale [OF st, of c]] c(4) by (simp add: mult.commute)
  qed
  from correct [OF this c(2,3), of "e - int c" s st] e c(1,5)
  have "ieee_result fmt s (2 ^ c * y * 2 powi (e - int c + fmt_qmin fmt - int k)) st (normRoundPack s e sig st)" by simp
  moreover have "2 ^ c * y * 2 powi (e - int c + fmt_qmin fmt - int k) = x"
  proof -
    have "e + fmt_qmin fmt - int k = int c + (e - int c + fmt_qmin fmt - int k)" by simp
    then have "(2::real) powi (e + fmt_qmin fmt - int k) = 2 powi (int c + (e - int c + fmt_qmin fmt - int k))" by (rule arg_cong)
    also have "\<dots> = 2 ^ c * 2 powi (e - int c + fmt_qmin fmt - int k)" by (subst power_int_add) simp_all
    finally show ?thesis by (simp add: x mult_ac)
  qed
  ultimately show ?thesis by simp
qed

lemma correct_integer:
  assumes "0 < uint sig" "uint sig < 2 ^ (fmt_fw fmt + k + 1)" "- (2 ^ 14) \<le> e" "e < 2 ^ 15"
    and "x = of_int (uint sig) * 2 powi (e + fmt_qmin fmt - int k)"
  shows "ieee_result fmt s x st (normRoundPack s e sig st)"
  by (rule correct_normalised [OF assms(1,2) sticky_refl _ assms(3-5)]) simp

lemma correct_difference:
  assumes ma: "2 ^ fmt_fw fmt \<le> ma" "ma < 2 ^ (fmt_fw fmt + 1)"
    and mb: "0 \<le> mb" "mb < 2 ^ (fmt_fw fmt + 1)" and d: "1 \<le> d" and e: "0 \<le> e" "e < 2 ^ 15"
    and sig: "uint sig = ma * 2 ^ k - jam_shift d (mb * 2 ^ k)"
    and x: "x = (of_int ma - of_int mb / 2 ^ d) * 2 powi (e + fmt_qmin fmt)"
  shows "ieee_result fmt s x st (normRoundPack s e sig st)"
proof (rule correct_normalised)
  let ?F = "fmt_fw fmt"
  have mk: "mb * 2 ^ k < 2 ^ (?F + 1) * 2 ^ k" using mb(2) by (rule mult_strict_right_mono) simp
  have ak: "2 ^ ?F * 2 ^ k \<le> ma * 2 ^ k" "ma * 2 ^ k < 2 ^ (?F + 1) * 2 ^ k" using ma by simp_all
  have j0: "0 \<le> jam_shift d (mb * 2 ^ k)"
    using mb(1) by (simp add: jam_shift_def pos_imp_zdiv_nonneg_iff)
  have j: "jam_shift d (mb * 2 ^ k) < 2 ^ (?F + k + 1 - c)" if "c \<le> d" "c \<le> 3" for c
  proof (subst jam_shift_less(1))
    show "even ((2::int) ^ (?F + k + 1 - c))" using that k3 by simp
    have "(2::int) ^ (?F + 1) * 2 ^ k \<le> 2 ^ (?F + k + 1 - c + d)"
      unfolding power_add [symmetric] using that k3 by (intro power_increasing) simp_all
    then show "mb * 2 ^ k < 2 ^ (?F + k + 1 - c) * 2 ^ d"
      using mk unfolding power_add [of _ "?F + k + 1 - c"] by linarith
  qed
  have "0 < 2 ^ ?F * 2 ^ k - jam_shift d (mb * 2 ^ k)" using j [of 1] d by (simp add: power_add)
  then show "0 < uint sig" using ak unfolding sig by linarith
  have "(2::int) ^ (?F + k + 1) = 2 ^ (?F + 1) * 2 ^ k" by (simp add: power_add)
  then show "uint sig < 2 ^ (?F + k + 1)" using ak j0 unfolding sig by linarith
  show "sticky 2 (of_int (ma * 2 ^ k) - of_int (mb * 2 ^ k) / 2 ^ d) (uint sig)"
    unfolding sig using k3 by (intro sticky_diff sticky_jam [OF sticky_refl]) simp_all
  show "of_int (ma * 2 ^ k) - of_int (mb * 2 ^ k) / 2 ^ d = (of_int (uint sig) :: real)"
    if small: "uint sig < 2 ^ (?F + k - 1)"
  proof -
    have "d \<le> 2"
    proof (rule ccontr)
      assume "\<not> d \<le> 2"
      then have "jam_shift d (mb * 2 ^ k) < 2 ^ (?F + k + 1 - 2)" using j [of 2] by simp
      moreover have "(2::int) ^ ?F * 2 ^ k = 2 * 2 ^ (?F + k - 1)" "?F + k + 1 - 2 = ?F + k - 1"
        using k3 by (simp_all flip: power_add power_Suc)
      ultimately show False using small ak unfolding sig by simp
    qed
    then have "2 ^ d dvd mb * (2::int) ^ k" using k3 by (intro dvd_mult le_imp_power_dvd) simp
    then obtain m where m: "mb * 2 ^ k = 2 ^ d * m" by (rule dvdE)
    then have "jam_shift d (mb * 2 ^ k) = m" by (simp add: jam_shift_def)
    then show ?thesis unfolding sig m by (simp add: of_int_diff)
  qed
  show "x = (of_int (ma * 2 ^ k) - of_int (mb * 2 ^ k) / 2 ^ d) * 2 powi (e + fmt_qmin fmt - int k)"
    by (simp add: x power_int_diff field_simps)
qed (use e in simp_all)

end

section \<open>Operands of different exponents, exact results\<close>

definition enc_shifted :: "float_format \<Rightarrow> int \<Rightarrow> int" where
  "enc_shifted fmt u = (if enc_exp fmt u = 0 then 2 * enc_frac fmt u else 2 ^ fmt_fw fmt + enc_frac fmt u)"

lemma enc_shifted_range: "0 \<le> enc_shifted fmt u" "enc_shifted fmt u < 2 ^ (fmt_fw fmt + 1)"
  using enc_field_range(3,4) [of fmt u] by (simp_all add: enc_shifted_def)

lemma enc_abs_shifted:
  assumes "E = enc_exp fmt u + int d"
  shows "enc_abs fmt u = of_int (enc_shifted fmt u) / 2 ^ d * 2 powi (E - 1 + fmt_qmin fmt)"
proof -
  let ?E = "enc_exp fmt u" and ?q = "fmt_qmin fmt"
  have "E - 1 + ?q = int d + (?E - 1 + ?q)" using assms by simp
  then have "(2::real) powi (E - 1 + ?q) = 2 powi (int d + (?E - 1 + ?q))" by (rule arg_cong)
  also have "\<dots> = 2 ^ d * 2 powi (?E - 1 + ?q)" by (subst power_int_add) simp_all
  finally have p: "(of_int (enc_shifted fmt u) :: real) / 2 ^ d * 2 powi (E - 1 + ?q) = of_int (enc_shifted fmt u) * 2 powi (?E - 1 + ?q)"
    by simp
  show ?thesis unfolding p
  proof (cases "?E = 0")
    case True
    have "(2::real) powi ?q = 2 powi (1 + (0 - 1 + ?q))" by simp
    also have "\<dots> = 2 * 2 powi (0 - 1 + ?q)" by (subst power_int_add) simp_all
    finally show "enc_abs fmt u = of_int (enc_shifted fmt u) * 2 powi (?E - 1 + ?q)"
      using True by (simp add: enc_abs_def enc_sig_def enc_shifted_def)
  next
    case False
    then have "max 1 ?E = ?E" using enc_field_range(1) [of fmt u] by linarith
    then show "enc_abs fmt u = of_int (enc_shifted fmt u) * 2 powi (?E - 1 + ?q)"
      using False by (simp add: enc_abs_def enc_sig_def enc_shifted_def add.commute)
  qed
qed

lemma enc_abs_bound:
  "enc_abs fmt u < 2 powi (int (fmt_fw fmt) + 1 + (max 1 (enc_exp fmt u) - 1 + fmt_qmin fmt))"
proof -
  let ?E = "max 1 (enc_exp fmt u) - 1 + fmt_qmin fmt"
  have "(0::int) < 2 ^ fmt_fw fmt" by simp
  then have "enc_sig fmt u < 2 ^ (fmt_fw fmt + 1)"
    using enc_field_range(4) [of fmt u] unfolding enc_sig_def power_add power_one_right
    by (simp only: split: if_split) linarith
  then have "of_int (enc_sig fmt u) < (of_int (2 ^ (fmt_fw fmt + 1)) :: real)" by (simp only: of_int_less_iff)
  then have "enc_abs fmt u < of_int (2 ^ (fmt_fw fmt + 1)) * 2 powi ?E"
    unfolding enc_abs_def by (rule mult_strict_right_mono) simp
  also have "\<dots> = 2 powi (int (fmt_fw fmt) + 1 + ?E)" by (subst power_int_add) (simp_all add: power_int_add)
  finally show ?thesis .
qed

text \<open>A representable value is its own rounding.\<close>

context round_pack
begin

lemma enc_abs_less:
  assumes "enc_finite fmt u"
  shows "enc_abs fmt u < 2 powi (fmt_bias fmt + 1)"
proof -
  let ?E = "max 1 (enc_exp fmt u) - 1 + fmt_qmin fmt"
  have "enc_exp fmt u \<le> 2 ^ fmt_ew fmt - 2"
    using assms enc_field_range(2) [of fmt u] by (simp add: enc_finite_def)
  moreover have "(4::int) \<le> 2 ^ fmt_ew fmt" using power_increasing [OF ew, of "2::int"] by simp
  ultimately have "?E \<le> 2 ^ fmt_ew fmt - 3 + fmt_qmin fmt" by simp
  then have le: "int (fmt_fw fmt) + 1 + ?E \<le> fmt_bias fmt + 1" using bias(2) qmin_bias by linarith
  note enc_abs_bound [of fmt u]
  also have "2 powi (int (fmt_fw fmt) + 1 + ?E) \<le> (2::real) powi (fmt_bias fmt + 1)" using le by (intro power_int_increasing) simp_all
  finally show ?thesis .
qed

lemma round_flt_enc: "round_flt fmt rm s (enc_abs fmt u) = enc_abs fmt u"
proof (cases "enc_abs fmt u = 0")
  case False
  let ?E = "max 1 (enc_exp fmt u) - 1 + fmt_qmin fmt" and ?x = "enc_abs fmt u"
  define q where "q = ulp_exp fmt ?x"
  have p: "2 powi j = (2::real) powr of_int j" for j by (simp add: powr_real_of_int')
  have pos: "0 < ?x" using False enc_abs_nonneg [of fmt u] by simp
  note enc_abs_bound [of fmt u]
  also have "2 powi (int (fmt_fw fmt) + 1 + ?E) = (2::real) powr of_int (int (fmt_fw fmt) + 1 + ?E)" by (rule p)
  finally have "log 2 ?x < of_int (int (fmt_fw fmt) + 1 + ?E)" using pos by (simp add: log_less_iff)
  then have "\<lfloor>log 2 ?x\<rfloor> < int (fmt_fw fmt) + 1 + ?E" by (simp only: floor_less_iff)
  then have q: "q \<le> ?E" by (simp add: q_def ulp_exp_def)
  have "?x / 2 powi q = of_int (enc_sig fmt u * 2 ^ nat (?E - q))"
    unfolding enc_abs_def using powi_split [OF q] by simp
  then show ?thesis using False unfolding round_flt_def round_at_def q_def [symmetric] by (simp add: field_simps flip: of_int_mult)
qed (simp add: round_flt_def)

lemma exact_result:
  assumes "enc_finite fmt (uint w)" "enc_sign fmt (uint w) = s" "enc_abs fmt (uint w) = x"
  shows "ieee_result fmt s x st (w, st)"
proof -
  have r: "round_flt fmt rm s x = x" for rm using round_flt_enc [of rm s "uint w"] assms(3) by simp
  then have "\<not> overflows fmt rm s x" for rm using enc_abs_less [OF assms(1)] assms(3) by (simp add: overflows_def)
  then show ?thesis using assms r by (simp add: ieee_result_def rounded_def rounding_flags_def)
qed

lemma exact_pack:
  assumes "uint w = enc_make fmt s e m" "0 \<le> e" "0 \<le> m" "m \<le> 2 ^ (fmt_fw fmt + 1)" "e = 0 \<or> 2 ^ fmt_fw fmt \<le> m"
    "e + m div 2 ^ fmt_fw fmt \<le> 2 ^ fmt_ew fmt - 2" "x = of_int m * 2 powi (e + fmt_qmin fmt)"
  shows "ieee_result fmt s x st (w, st)"
  using enc_pack [OF assms(2-6), of s] assms(1,7) by (intro exact_result) simp_all

lemma zero_result:
  assumes "uint w = enc_make fmt s 0 0"
  shows "ieee_result fmt s 0 st (w, st)"
proof (rule exact_pack [OF assms])
  have "(4::int) \<le> 2 ^ fmt_ew fmt" using power_increasing [OF ew, of "2::int"] by simp
  then show "0 + 0 div 2 ^ fmt_fw fmt \<le> (2::int) ^ fmt_ew fmt - 2" by simp
qed simp_all

end

lemma enc_snan_iff:
  assumes "fmt_fw fmt = Suc f"
  shows "enc_snan fmt u \<longleftrightarrow> u div 2 ^ f mod 2 ^ (fmt_ew fmt + 1) = 2 * (2 ^ fmt_ew fmt - 1) \<and> u mod 2 ^ f \<noteq> 0"
proof -
  define v where "v = u div 2 ^ f"
  have E: "enc_exp fmt u = v div 2 mod 2 ^ fmt_ew fmt"
    by (simp add: enc_exp_def v_def assms zdiv_zmult2_eq [symmetric] mult.commute)
  have F: "enc_frac fmt u = 2 ^ f * (v mod 2) + u mod 2 ^ f"
    using mod_mult2_eq' [of u "2 ^ f" 2] by (simp add: enc_frac_def v_def assms mult.commute)
  have M: "v mod 2 ^ (fmt_ew fmt + 1) = 2 * (v div 2 mod 2 ^ fmt_ew fmt) + v mod 2"
    using mod_mult2_eq' [of v 2 "2 ^ fmt_ew fmt"] by simp
  define r where "r = u mod 2 ^ f"
  have r: "0 \<le> r" "r < 2 ^ f" by (simp_all add: r_def)
  have f: "fmt_fw fmt - 1 = f" using assms by simp
  consider "v mod 2 = 0" | "v mod 2 = 1" using not_mod_2_eq_0_eq_1 [of v] by blast
  then show ?thesis
  proof cases
    case 1
    then show ?thesis unfolding enc_snan_def enc_nan_def E F M f v_def [symmetric] r_def [symmetric] using r by auto
  next
    case 2
    have "odd (2 * (v div 2 mod 2 ^ fmt_ew fmt) + 1)" "even (2 * ((2::int) ^ fmt_ew fmt - 1))" by simp_all
    then have "2 * (v div 2 mod 2 ^ fmt_ew fmt) + 1 \<noteq> 2 * (2 ^ fmt_ew fmt - 1)" by metis
    then show ?thesis
      unfolding enc_snan_def enc_nan_def E F M f v_def [symmetric] r_def [symmetric] using r 2 by simp
  qed
qed

lemma enc_make_self:
  assumes "0 \<le> u" "u < 2 ^ (fmt_ew fmt + fmt_fw fmt + 1)"
  shows "enc_make fmt (enc_sign fmt u) (enc_exp fmt u) (enc_frac fmt u) = u"
proof -
  let ?F = "2 ^ fmt_fw fmt :: int" and ?E = "2 ^ fmt_ew fmt :: int"
  have h: "0 < (?E * ?F)" "u < 2 * (?E * ?F)" using assms(2) by (simp_all add: power_add)
  have "u div (?E * ?F) < 2" using h by (simp add: int_div_less_iff)
  moreover have "0 \<le> u div (?E * ?F)" using h assms(1) by (simp add: pos_imp_zdiv_nonneg_iff)
  ultimately have s: "of_bool (enc_sign fmt u) = u div (?E * ?F)" by (auto simp: enc_sign_def power_add)
  have "u div ?F = u div ?F div ?E * ?E + enc_exp fmt u" by (simp only: enc_exp_def div_mult_mod_eq)
  moreover have "u div ?F div ?E = u div (?E * ?F)" by (simp add: zdiv_zmult2_eq [symmetric] mult.commute)
  ultimately have "u = (u div (?E * ?F) * ?E + enc_exp fmt u) * ?F + enc_frac fmt u"
    by (metis enc_frac_def div_mult_mod_eq)
  then show ?thesis unfolding enc_make_def s by (simp add: power_add algebra_simps)
qed

lemma enc_low: "u mod 2 ^ (fmt_ew fmt + fmt_fw fmt) = enc_exp fmt u * 2 ^ fmt_fw fmt + enc_frac fmt u"
  using mod_mult2_eq' [of u "2 ^ fmt_fw fmt" "2 ^ fmt_ew fmt"]
  by (simp add: enc_exp_def enc_frac_def power_add mult.commute)

context round_pack
begin

lemma correct_same:
  assumes k3: "3 \<le> k" and ma: "2 ^ fmt_fw fmt \<le> ma" "ma < 2 ^ (fmt_fw fmt + 1)"
    and mb: "2 ^ fmt_fw fmt \<le> mb" "mb < 2 ^ (fmt_fw fmt + 1)" and e: "0 \<le> e" "e < 2 ^ 15"
    and sig: "uint sig = (ma + mb) * 2 ^ (k - 1)"
    and x: "x = (of_int ma + of_int mb) * 2 powi (e - 1 + fmt_qmin fmt)"
  shows "ieee_result fmt s x st (roundPack s e sig st)"
proof (rule correct_exact)
  let ?F = "fmt_fw fmt"
  have p: "2 ^ ?F * 2 ^ k = (2 ^ ?F + 2 ^ ?F) * (2::int) ^ (k - 1)"
    "(2 ^ (?F + 1) + 2 ^ (?F + 1)) * (2::int) ^ (k - 1) = 2 ^ (?F + k + 1)"
    using gk(1) by (simp_all add: power_add algebra_simps flip: gk(1))
  show "2 ^ (?F + k) \<le> uint sig" unfolding sig power_add p by (intro mult_right_mono) (use ma mb in simp_all)
  show "uint sig < 2 ^ (?F + k + 1)" unfolding sig p(2) [symmetric] by (intro mult_strict_right_mono) (use ma mb in simp_all)
  have "e - 1 + fmt_qmin fmt = int (k - 1) + (e + fmt_qmin fmt - int k)" using k3 by (simp add: of_nat_diff)
  then have "(2::real) powi (e - 1 + fmt_qmin fmt) = 2 powi (int (k - 1) + (e + fmt_qmin fmt - int k))" by (rule arg_cong)
  also have "\<dots> = 2 ^ (k - 1) * 2 powi (e + fmt_qmin fmt - int k)" by (subst power_int_add) simp_all
  finally show "x = of_int (uint sig) * 2 powi (e + fmt_qmin fmt - int k)" by (simp add: x sig)
qed (use e in simp_all)

end

lemma enc_abs_less_exp:
  assumes "enc_exp fmt b < enc_exp fmt a"
  shows "enc_abs fmt b < enc_abs fmt a"
proof -
  let ?EA = "enc_exp fmt a" and ?mb = "enc_shifted fmt b"
  define d where "d = nat (?EA - enc_exp fmt b)"
  have d: "1 \<le> d" "?EA = enc_exp fmt b + int d" using assms by (simp_all add: d_def)
  have "enc_shifted fmt a = 2 ^ fmt_fw fmt + enc_frac fmt a" using assms enc_field_range(1) [of fmt b] by (auto simp: enc_shifted_def)
  then have m: "2 ^ fmt_fw fmt \<le> enc_shifted fmt a" using enc_field_range(3) [of fmt a] by simp
  have "?mb < 2 ^ fmt_fw fmt * 2 ^ 1" using enc_shifted_range(2) [of fmt b] by simp
  also have "\<dots> \<le> enc_shifted fmt a * 2 ^ d" using m d(1) enc_shifted_range(1) [of fmt a] by (intro mult_mono power_increasing) simp_all
  finally have "of_int ?mb < (of_int (enc_shifted fmt a * 2 ^ d) :: real)" by (simp only: of_int_less_iff)
  then have "of_int ?mb / 2 ^ d < (of_int (enc_shifted fmt a) :: real)" by (simp add: pos_divide_less_eq)
  then show ?thesis
    unfolding enc_abs_shifted [OF d(2)] enc_abs_shifted [of ?EA fmt a 0, simplified]
    by (rule mult_strict_right_mono) simp
qed

lemma enc_abs_same_exp:
  assumes "enc_exp fmt a = enc_exp fmt b"
  shows "enc_abs fmt b < enc_abs fmt a \<longleftrightarrow> enc_frac fmt b < enc_frac fmt a"
    "enc_abs fmt a = enc_abs fmt b \<longleftrightarrow> enc_frac fmt a = enc_frac fmt b"
  using assms by (simp_all add: enc_abs_def enc_sig_def)

lemma mags_sub_finite:
  assumes "enc_finite fmt a" "enc_finite fmt b"
  shows "enc_abs fmt b < enc_abs fmt a \<Longrightarrow> ieee_result fmt s (enc_abs fmt a - enc_abs fmt b) st r \<Longrightarrow> mags_sub fmt s a b st r"
    "enc_abs fmt a < enc_abs fmt b \<Longrightarrow> ieee_result fmt (\<not> s) (enc_abs fmt b - enc_abs fmt a) st r \<Longrightarrow> mags_sub fmt s a b st r"
    "enc_abs fmt a = enc_abs fmt b \<Longrightarrow>
      ieee_result fmt (softfloat_roundingMode st = softfloat_round_min) 0 st r \<Longrightarrow> mags_sub fmt s a b st r"
  using assms by (simp_all add: mags_sub_def enc_nan_def enc_inf_def enc_finite_def)

section \<open>Quotients\<close>

lemma sticky_quotient:
  assumes "0 < M" "1 < g" "sig = (if N div M mod g = 0 then N div M + of_bool (M * (N div M) \<noteq> N) else N div M)"
  shows "sticky g (of_int N / of_int M) sig"
  unfolding sticky_def
proof (intro allI)
  fix m :: int
  define q where "q = N div M"
  have lt: "of_int N / of_int M < (of_int (m * g) :: real) \<longleftrightarrow> q < m * g"
    unfolding q_def int_div_less_iff [OF assms(1)] using assms(1) by (simp add: pos_divide_less_eq flip: of_int_mult)
  have le: "q * M \<le> N" using int_div_bounds(1) [OF assms(1)] by (simp add: q_def)
  have eq: "of_int N / of_int M = (of_int (m * g) :: real) \<longleftrightarrow> N = m * g * M"
    using assms(1) by (simp add: divide_eq_eq flip: of_int_mult)
  have e2: "N = m * g * M \<longleftrightarrow> q = m * g \<and> M * q = N" using assms(1) by (auto simp: q_def mult.commute)
  have gt: "(of_int (m * g) :: real) < of_int N / of_int M \<longleftrightarrow> m * g < q \<or> q = m * g \<and> M * q \<noteq> N"
    using lt eq e2 by (metis linorder_neqE_linordered_idom order_less_imp_not_less)
  show "(of_int N / of_int M < (of_int (m * g) :: real) \<longleftrightarrow> sig < m * g) \<and> ((of_int (m * g) :: real) < of_int N / of_int M \<longleftrightarrow> m * g < sig)"
  proof (cases "q mod g = 0")
    case True
    then obtain t where t: "q = t * g" by (metis add_0_right div_mult_mod_eq)
    have "q + 1 < m * g \<longleftrightarrow> q < m * g"
    proof
      assume "q < m * g"
      then have "t < m" using assms(2) by (simp add: t)
      then have "(t + 1) * g \<le> m * g" using assms(2) by (intro mult_right_mono) simp_all
      then show "q + 1 < m * g" using assms(2) by (simp add: t distrib_right)
    qed simp
    then show ?thesis using True lt gt by (auto simp: assms(3) q_def [symmetric])
  next
    case False
    then have "q \<noteq> m * g" by auto
    then show ?thesis using False lt gt by (auto simp: assms(3) q_def [symmetric])
  qed
qed

context round_pack
begin

lemma correct_quotient:
  assumes a: "norm_operand fmt a ea ma" and b: "norm_operand fmt b eb mb"
    and e: "- (2 ^ 15) < ea - eb + fmt_bias fmt - 1" "ea - eb + fmt_bias fmt - 1 < 2 ^ 15"
    and N: "N = (if ma < mb then ma * 2 ^ (fmt_fw fmt + k + 1) else ma * 2 ^ (fmt_fw fmt + k))"
    and e': "e' = (if ma < mb then ea - eb + fmt_bias fmt - 1 - 1 else ea - eb + fmt_bias fmt - 1)"
    and st: "sticky (2 ^ (k - 1)) (of_int N / of_int mb) (uint sig)"
  shows "ieee_result fmt s (enc_abs fmt a / enc_abs fmt b) st (roundPack s e' sig st)"
proof -
  let ?F = "fmt_fw fmt" and ?q = "fmt_qmin fmt"
  have ma: "2 ^ ?F \<le> ma" "ma < 2 * 2 ^ ?F" and mb: "2 ^ ?F \<le> mb" "mb < 2 * 2 ^ ?F"
    using a b by (simp_all add: norm_operand_def)
  have pos: "(0::int) < 2 ^ ?F" by simp
  then have mp: "0 < mb" using mb by linarith
  have "2 ^ (?F + k) * mb \<le> N" "N < 2 ^ (?F + k + 1) * mb"
  proof -
    have "ma < mb \<Longrightarrow> 2 ^ (?F + k) * mb \<le> 2 ^ (?F + k) * (ma * 2)" using ma mb by (intro mult_left_mono) simp_all
    moreover have "\<not> ma < mb \<Longrightarrow> 2 ^ (?F + k) * ma < 2 ^ (?F + k) * (mb * 2)" using ma mb by (intro mult_strict_left_mono) simp_all
    ultimately show "2 ^ (?F + k) * mb \<le> N" "N < 2 ^ (?F + k + 1) * mb" by (auto simp: N mult_ac)
  qed
  then have "of_int (2 ^ (?F + k) * mb) \<le> (of_int N :: real)" "of_int N < (of_int (2 ^ (?F + k + 1) * mb) :: real)"
    by (simp_all only: of_int_le_iff of_int_less_iff)
  then have y: "of_int (2 ^ (?F + k)) \<le> (of_int N / of_int mb :: real)" "of_int N / of_int mb < (of_int (2 ^ (?F + k + 1)) :: real)"
    using mp by (simp_all add: pos_le_divide_eq pos_divide_less_eq)
  have d: "(2::int) ^ (k - 1) dvd 2 ^ (?F + k)" "(2::int) ^ (k - 1) dvd 2 ^ (?F + k + 1)" by (rule le_imp_power_dvd, simp)+
  have r: "2 ^ (?F + k) \<le> uint sig" "uint sig < 2 ^ (?F + k + 1)"
    using y stickyD(1) [OF st d(1)] stickyD(1) [OF st d(2)] by linarith+
  have p: "2 ^ j * 2 powi (i + ?q - int k) = (2::real) powi (int j + i + ?q - int k)" for j i
    using power_int_add [of "2::real" "int j" "i + ?q - int k"] by (simp add: algebra_simps)
  have "enc_abs fmt a / enc_abs fmt b = of_int ma / of_int mb * 2 powi (ea - eb)"
  proof -
    have "enc_abs fmt a / enc_abs fmt b = of_int ma / of_int mb * (2 powi (ea - 1 + ?q) / 2 powi (eb - 1 + ?q))"
      using a b by (simp add: norm_operand_def)
    also have "2 powi (ea - 1 + ?q) / 2 powi (eb - 1 + ?q) = (2::real) powi (ea - eb)"
      by (subst power_int_diff [symmetric]) simp_all
    finally show ?thesis .
  qed
  also have "\<dots> = of_int N / of_int mb * 2 powi (e' + ?q - int k)"
  proof -
    have "of_int N * 2 powi (e' + ?q - int k) = of_int ma * (2::real) powi (ea - eb)"
      using p [of "?F + k" e'] p [of "?F + k + 1" e'] by (auto simp: N e' fmt_qmin_def algebra_simps)
    then show ?thesis by simp
  qed
  finally show ?thesis using correct [OF st r, of e' s st] e by (simp add: e' split: if_splits)
qed

end

end
