(* ===== verification/Integer_Contract.thy ===== *)
theory Integer_Contract
  imports Ieee_Operations
begin

text \<open>
  The specification of conversions to integers and the contract of the routines that
  round to an integer. \<open>ieee_to_int\<close> is the result of a conversion: the magnitude rounded in
  the given mode, the bounds of the integer type and an invalid flag outside of them, and
  an inexact flag, when asked for, if the operand is not an integer. The locale \<open>int_pack\<close>
  states what a routine that rounds a significand with a fraction promises; inside it the
  conversions are proved once for the four integer types.
\<close>

section \<open>Results of a conversion to an integer\<close>

definition int_result :: "int \<Rightarrow> int \<Rightarrow> bool \<Rightarrow> int \<Rightarrow> bool \<Rightarrow> softfloat_state \<Rightarrow> int \<times> softfloat_state" where
  "int_result lo hi s z inexact st =
     (let v = (if s then - z else z)
      in if v < lo then (lo, softfloat_raiseFlags softfloat_flag_invalid st)
         else if hi < v then (hi, softfloat_raiseFlags softfloat_flag_invalid st)
         else (v, if inexact then softfloat_raiseFlags softfloat_flag_inexact st else st))"

definition ieee_to_int ::
  "float_format \<Rightarrow> int \<Rightarrow> int \<Rightarrow> u8 \<Rightarrow> bool \<Rightarrow> int \<Rightarrow> softfloat_state \<Rightarrow> int \<times> softfloat_state" where
  "ieee_to_int fmt lo hi rm exact u st =
     (let s = enc_sign fmt u; x = enc_abs fmt u
      in if enc_nan fmt u then (hi, softfloat_raiseFlags softfloat_flag_invalid st)
         else if enc_inf fmt u then (if s then lo else hi, softfloat_raiseFlags softfloat_flag_invalid st)
         else int_result lo hi s (round_int rm s x) (exact \<and> x \<notin> \<int>) st)"

lemma round_int_ge:
  assumes "of_int b \<le> x" shows "b \<le> round_int rm s x"
proof -
  have "b \<le> \<lfloor>x\<rfloor>" using assms by (simp add: le_floor_iff)
  moreover have "b \<le> \<lceil>x\<rceil>" using calculation floor_le_ceiling [of x] by linarith
  ultimately show ?thesis by (simp add: round_int_def)
qed

lemma sticky_Ints:
  assumes "sticky g y n" "0 < g"
  shows "y / of_int (2 * g) \<in> \<int> \<longleftrightarrow> n mod (2 * g) = 0"
proof
  have g: "(0::real) < of_int (2 * g)" using assms(2) by simp
  assume "y / of_int (2 * g) \<in> \<int>"
  then obtain m where "y / of_int (2 * g) = of_int m" by (auto elim: Ints_cases)
  then have "of_int (m * (2 * g)) = y" using g by (simp add: nonzero_divide_eq_eq)
  then have "m * (2 * g) = n" using stickyD(3) [OF assms(1), of "m * (2 * g)"] by simp
  then show "n mod (2 * g) = 0" by auto
next
  have g: "(0::real) < of_int (2 * g)" using assms(2) by simp
  assume "n mod (2 * g) = 0"
  then obtain m where m: "n = m * (2 * g)" by (metis mod_eq_0_iff_dvd dvdE mult.commute)
  then have "of_int n = y" using stickyD(3) [OF assms(1), of n] by simp
  then have "y / of_int (2 * g) = of_int m" using g m by (simp add: nonzero_divide_eq_eq)
  then show "y / of_int (2 * g) \<in> \<int>" by simp
qed

lemma sticky_small:
  assumes "0 < y" "y < of_int g" "0 < n" "n < g"
  shows "sticky g y n"
  unfolding sticky_def
proof (intro allI)
  fix m :: int
  have g: "0 < g" using assms by simp
  consider "m \<le> 0" | "1 \<le> m" by linarith
  then show "(y < of_int (m * g) \<longleftrightarrow> n < m * g) \<and> (of_int (m * g) < y \<longleftrightarrow> m * g < n)"
  proof cases
    case 1
    then have "m * g \<le> 0" using g by (simp add: mult_nonpos_nonneg)
    moreover have "of_int (m * g) \<le> (0::real)" using calculation by linarith
    ultimately show ?thesis using assms by linarith
  next
    case 2
    then have "1 * g \<le> m * g" using g by (intro mult_right_mono) simp_all
    moreover have "of_int g \<le> (of_int (m * g)::real)" using calculation by linarith
    ultimately show ?thesis using assms by linarith
  qed
qed

lemma round_code_bounds:
  "round_code g rm s n \<le> (n + round_incr g rm s) div (2 * g)"
  "even b \<Longrightarrow> b \<le> (n + round_incr g rm s) div (2 * g) \<Longrightarrow> b \<le> round_code g rm s n"
proof -
  define q where "q = (n + round_incr g rm s) div (2 * g)"
  have "round_code g rm s n = q \<or> round_code g rm s n = q - q mod 2" by (simp add: round_code_def q_def Let_def)
  moreover have "even b \<Longrightarrow> b \<le> q \<Longrightarrow> b \<le> q - q mod 2" by presburger
  ultimately show "round_code g rm s n \<le> (n + round_incr g rm s) div (2 * g)"
    "even b \<Longrightarrow> b \<le> (n + round_incr g rm s) div (2 * g) \<Longrightarrow> b \<le> round_code g rm s n"
    unfolding q_def [symmetric] by auto
qed

section \<open>The contract\<close>

locale int_pack =
  fixes lo hi g bound :: int
    and pack :: "bool \<Rightarrow> int \<Rightarrow> u8 \<Rightarrow> bool \<Rightarrow> softfloat_state \<Rightarrow> int \<times> softfloat_state"
  assumes g: "0 < g" and lo: "lo \<le> 0" and hi: "0 \<le> hi"
    and law: "\<lbrakk>0 \<le> n; n < bound\<rbrakk> \<Longrightarrow>
      pack s n rm exact st = int_result lo hi s (round_code g rm s n) (exact \<and> n mod (2 * g) \<noteq> 0) st"
begin

lemma correct:
  assumes "enc_finite fmt u" "enc_abs fmt u = y / of_int (2 * g)" "sticky g y n" "0 \<le> n" "n < bound"
  shows "pack (enc_sign fmt u) n rm exact st = ieee_to_int fmt lo hi rm exact u st"
  unfolding law [OF assms(4,5)] ieee_to_int_def Let_def round_code_correct [OF g] assms(2)
    round_int_sticky [OF assms(3) g] sticky_Ints [OF assms(3) g]
  using assms(1) by (simp add: enc_nan_def enc_inf_def enc_finite_def)

lemma out_of_range:
  assumes "hi < z" "- lo < z"
  shows "int_result lo hi s z b st = (if s then lo else hi, softfloat_raiseFlags softfloat_flag_invalid st)"
  using assms lo hi by (simp add: int_result_def)

lemma out_of_bounds:
  assumes "enc_finite fmt u \<Longrightarrow> of_int b \<le> enc_abs fmt u" "hi < b" "- lo < b"
  shows "ieee_to_int fmt lo hi rm exact u st =
    (if \<not> enc_nan fmt u \<and> enc_sign fmt u then lo else hi, softfloat_raiseFlags softfloat_flag_invalid st)"
proof -
  have "enc_finite fmt u \<Longrightarrow> b \<le> round_int rm s (enc_abs fmt u)" for rm s
    using assms(1) by (rule round_int_ge)
  then have "enc_finite fmt u \<Longrightarrow> hi < round_int rm s (enc_abs fmt u) \<and> - lo < round_int rm s (enc_abs fmt u)" for rm s
    using assms(2,3) by (meson less_le_trans)
  moreover have "enc_finite fmt u \<or> enc_inf fmt u \<or> enc_nan fmt u"
    by (auto simp: enc_nan_def enc_inf_def enc_finite_def)
  ultimately show ?thesis by (auto simp: ieee_to_int_def Let_def out_of_range)
qed

lemma overflow:
  assumes "b * (2 * g) \<le> n" "n < bound" "hi < b" "- lo < b"
    and "enc_finite fmt u \<Longrightarrow> of_int b \<le> enc_abs fmt u"
    and "s = (\<not> enc_nan fmt u \<and> enc_sign fmt u)"
  shows "pack s n rm exact st = ieee_to_int fmt lo hi rm exact u st"
proof -
  have "of_int b \<le> of_int n / (of_int (2 * g) :: real)"
    using assms(1) g by (simp add: pos_le_divide_eq flip: of_int_mult of_int_add)
  from round_int_ge [OF this] have "b \<le> round_code g rm s n"
    by (simp add: round_code_correct [OF g])
  moreover have "0 \<le> n" using assms(1,3) g hi by (meson less_imp_le mult_nonneg_nonneg order_trans zero_le_numeral)
  ultimately have "pack s n rm exact st = (if s then lo else hi, softfloat_raiseFlags softfloat_flag_invalid st)"
    using assms(2-4) by (simp add: law out_of_range)
  also have "\<dots> = ieee_to_int fmt lo hi rm exact u st"
    unfolding assms(6) by (rule out_of_bounds [symmetric]) (use assms in simp_all)
  finally show ?thesis .
qed

end

context int_pack
begin

text \<open>A conversion that rounds small operands and lets the bounds catch the large ones.\<close>

lemma convert:
  assumes s: "s = (\<not> enc_nan fmt u \<and> enc_sign fmt u)" and n: "0 \<le> n" "n < bound"
    and r: "if c then enc_finite fmt u \<and> (\<exists>y. sticky g y n \<and> enc_abs fmt u = y / of_int (2 * g))
            else b * (2 * g) \<le> n \<and> of_int b \<le> enc_abs fmt u"
    and b: "hi < b" "- lo < b"
  shows "pack s n rm exact st = ieee_to_int fmt lo hi rm exact u st"
proof (cases c)
  case True
  then obtain y where y: "enc_finite fmt u" "sticky g y n" "enc_abs fmt u = y / of_int (2 * g)" using r by auto
  have "s = enc_sign fmt u" using y(1) by (auto simp: s enc_finite_def enc_nan_def)
  then show ?thesis using correct [OF y(1,3,2) n] by simp
next
  case False
  then show ?thesis using r by (intro overflow [OF _ n(2) b _ s]) simp_all
qed

end

section \<open>Operands of a conversion\<close>

lemma sticky_replace:
  assumes "sticky g y n'" "0 < n'" "n' < g" "0 < n" "n < g"
  shows "sticky g y n"
  using stickyD(2) [OF assms(1), of 0] stickyD(1) [OF assms(1), of g] assms(2-)
  by (intro sticky_small) simp_all

lemma jam_shift_mult: "jam_shift d (m * 2 ^ d) = m"
  by (simp add: jam_shift_def)

lemma jam_shift_pos: "0 < n \<Longrightarrow> 0 < jam_shift d n"
  using jam_shift_less(2) [of 0 d n] by simp

lemma jam_shift_cancel: "jam_shift (d + j) (m * 2 ^ j) = jam_shift d m"
proof -
  have "m * 2 ^ j div 2 ^ (d + j) = m div 2 ^ d" by (simp add: power_add)
  moreover have "m * 2 ^ j mod 2 ^ (d + j) = m mod 2 ^ d * 2 ^ j" by (simp add: power_add)
  ultimately show ?thesis by (simp add: jam_shift_def)
qed

lemma enc_abs_ge:
  assumes "1 \<le> enc_exp fmt u" "int k \<le> int (fmt_fw fmt) + enc_exp fmt u - 1 + fmt_qmin fmt"
  shows "of_int (2 ^ k) \<le> enc_abs fmt u"
proof -
  have "of_int (2 ^ k) = (2::real) powi int k" by simp
  also have "\<dots> \<le> 2 powi (int (fmt_fw fmt) + (enc_exp fmt u - 1 + fmt_qmin fmt))"
    using assms(2) by (intro power_int_increasing) simp_all
  also have "\<dots> = of_int (2 ^ fmt_fw fmt) * 2 powi (enc_exp fmt u - 1 + fmt_qmin fmt)"
    by (subst power_int_add) simp_all
  also have "\<dots> \<le> of_int (enc_sig fmt u) * 2 powi (enc_exp fmt u - 1 + fmt_qmin fmt)"
    using assms(1) enc_field_range(3) [of fmt u] by (intro mult_right_mono) (simp_all add: enc_sig_def flip: of_int_power)
  also have "\<dots> = enc_abs fmt u" using assms(1) by (simp add: enc_abs_def max_def)
  finally show ?thesis .
qed

lemma enc_sig_range: "0 \<le> enc_sig fmt u" "enc_sig fmt u < 2 ^ (fmt_fw fmt + 1)"
  "enc_exp fmt u \<noteq> 0 \<Longrightarrow> 2 ^ fmt_fw fmt \<le> enc_sig fmt u"
  using enc_field_range(3,4) [of fmt u] by (auto simp: enc_sig_def)

lemma int_operand:
  fixes fmt u j k D
  defines "n \<equiv> jam_shift D (enc_sig fmt u * 2 ^ j)"
  assumes D: "int D = int j + 1 - fmt_qmin fmt - int k - enc_exp fmt u" and k: "2 \<le> k"
    and fmt: "fmt_qmin fmt + int (fmt_fw fmt) \<le> 1 - int k"
  shows "\<exists>y. sticky (2 ^ (k - 1)) y n \<and> enc_abs fmt u = y / 2 ^ k"
proof (cases "enc_exp fmt u = 0")
  case False
  let ?E = "enc_exp fmt u"
  have E: "1 \<le> ?E" using False enc_field_range(1) [of fmt u] by linarith
  have "even ((2::int) ^ (k - 1))" using k by simp
  from sticky_jam [OF sticky_refl this, of "enc_sig fmt u * 2 ^ j" D]
  have st: "sticky (2 ^ (k - 1)) (of_int (enc_sig fmt u * 2 ^ j) / 2 ^ D) n" by (simp only: n_def)
  have "?E - 1 + fmt_qmin fmt = int j - int D - int k" using D by simp
  then have "(2::real) powi (?E - 1 + fmt_qmin fmt) = 2 powi (int j - int D - int k)" by (rule arg_cong)
  also have "\<dots> = 2 ^ j / 2 ^ D / 2 ^ k" by (simp add: power_int_diff)
  finally have "enc_abs fmt u = of_int (enc_sig fmt u * 2 ^ j) / 2 ^ D / 2 ^ k"
    using E by (simp add: enc_abs_def max_def)
  then show ?thesis using st by blast
next
  case True
  let ?m = "enc_frac fmt u" and ?F = "fmt_fw fmt"
  define y where "y = of_int ?m * (2 powi (fmt_qmin fmt + int k) :: real)"
  have m: "enc_sig fmt u = ?m" "0 \<le> ?m" "?m < 2 ^ ?F" using True enc_field_range [of fmt u] by (simp_all add: enc_sig_def)
  have x: "enc_abs fmt u = y / 2 ^ k" using True by (simp add: y_def enc_abs_def m power_int_add)
  have "sticky (2 ^ (k - 1)) y n"
  proof (cases "?m = 0")
    case True
    then show ?thesis using sticky_refl [of "2 ^ (k - 1)" 0] by (simp add: y_def n_def m jam_shift_def)
  next
    case False
    have "?F + j \<le> D" using D k fmt True by linarith
    then have "(2::int) ^ ?F * 2 ^ j \<le> 2 ^ D" unfolding power_add [symmetric] by (rule power_increasing) simp
    moreover have "?m * 2 ^ j < 2 ^ ?F * 2 ^ j" using m by simp
    moreover have "(0::int) < 2 ^ D" by simp
    ultimately have "?m * 2 ^ j < 2 ^ Suc D" unfolding power_Suc by linarith
    then have n: "n = 1" using jam_shift_all [of "?m * 2 ^ j" D] m False by (simp add: n_def)
    have "of_int ?m < (of_int (2 ^ ?F) :: real)" using m(3) by (simp only: of_int_less_iff)
    then have "y < 2 powi int ?F * 2 powi (fmt_qmin fmt + int k)" by (simp add: y_def)
    also have "\<dots> = 2 powi (int ?F + (fmt_qmin fmt + int k))" by (rule power_int_add [symmetric]) simp
    also have "\<dots> \<le> 2 powi (int (k - 1))" using fmt k by (intro power_int_increasing) simp_all
    finally have "y < of_int (2 ^ (k - 1))" by simp
    moreover have "0 < y" using m False by (simp add: y_def)
    moreover have "(1::int) < 2 ^ (k - 1)" using k by simp
    ultimately show ?thesis by (intro sticky_small) (simp_all add: n)
  qed
  then show ?thesis using x by blast
qed

lemma enc_abs_scaled:
  assumes "enc_exp fmt u \<noteq> 0" "int D - int j = 1 - fmt_qmin fmt - enc_exp fmt u"
  shows "enc_abs fmt u = of_int (enc_sig fmt u * 2 ^ j) / 2 ^ D"
proof -
  have E: "1 \<le> enc_exp fmt u" using assms(1) enc_field_range(1) [of fmt u] by linarith
  have "enc_exp fmt u - 1 + fmt_qmin fmt = int j - int D" using assms(2) by simp
  then have "(2::real) powi (enc_exp fmt u - 1 + fmt_qmin fmt) = 2 powi (int j - int D)" by (rule arg_cong)
  also have "\<dots> = 2 ^ j / 2 ^ D" by (simp add: power_int_diff)
  finally show ?thesis using E by (simp add: enc_abs_def max_def)
qed

lemma round_int_minMag: "round_int softfloat_round_minMag s x = \<lfloor>x\<rfloor>"
  by (simp add: round_int_def)

lemma scaled_floor: "\<lfloor>of_int n / 2 ^ D :: real\<rfloor> = n div 2 ^ D"
  using floor_divide_of_int_eq [of n "2 ^ D", where ?'a = real] by simp

lemma scaled_Ints: "of_int n / 2 ^ D \<in> (\<int> :: real set) \<longleftrightarrow> n mod 2 ^ D = 0"
proof -
  have "of_int n / 2 ^ D \<in> (\<int> :: real set) \<longleftrightarrow> of_int \<lfloor>of_int n / 2 ^ D :: real\<rfloor> = (of_int n / 2 ^ D :: real)"
    by (metis Ints_of_int floor_of_int Ints_cases)
  also have "\<dots> \<longleftrightarrow> of_int (n div 2 ^ D * 2 ^ D) = (of_int n :: real)"
    by (simp add: scaled_floor field_simps)
  also have "\<dots> \<longleftrightarrow> n mod 2 ^ D = 0" unfolding of_int_eq_iff using div_mult_mod_eq [of n "2 ^ D"] by linarith
  finally show ?thesis .
qed

lemma ieee_to_int_trunc:
  assumes "enc_finite fmt u" "enc_abs fmt u = of_int n / 2 ^ D"
  shows "ieee_to_int fmt lo hi softfloat_round_minMag exact u st =
    int_result lo hi (enc_sign fmt u) (n div 2 ^ D) (exact \<and> n mod 2 ^ D \<noteq> 0) st"
  using assms(1) by (simp add: ieee_to_int_def Let_def assms(2) round_int_minMag scaled_floor scaled_Ints
      enc_finite_def enc_nan_def enc_inf_def)

lemma ieee_to_int_below_one:
  assumes "int (fmt_fw fmt) + enc_exp fmt u - 1 + fmt_qmin fmt < 0" "fmt_qmin fmt + int (fmt_fw fmt) < 0"
    "enc_finite fmt u" "lo \<le> 0" "0 \<le> hi"
  shows "ieee_to_int fmt lo hi softfloat_round_minMag exact u st =
    (0, if exact \<and> \<not> enc_zero fmt u then softfloat_raiseFlags softfloat_flag_inexact st else st)"
proof -
  have "enc_abs fmt u < 2 powi (int (fmt_fw fmt) + 1 + (max 1 (enc_exp fmt u) - 1 + fmt_qmin fmt))" by (rule enc_abs_bound)
  also have "\<dots> \<le> 2 powi 0" using assms(1,2) by (intro power_int_increasing) (simp_all add: max_def)
  finally have x: "enc_abs fmt u < 1" by simp
  have "\<lfloor>enc_abs fmt u\<rfloor> = 0" using x enc_abs_nonneg [of fmt u] by (simp add: floor_eq_iff)
  moreover have "enc_abs fmt u \<in> \<int> \<longleftrightarrow> enc_zero fmt u"
    using calculation enc_abs_zero [of fmt u] by (auto elim!: Ints_cases)
  ultimately show ?thesis using assms(3-)
    by (simp add: ieee_to_int_def Let_def round_int_minMag int_result_def enc_finite_def enc_nan_def enc_inf_def)
qed

lemma ieee_to_int_negative:
  assumes "enc_sign fmt u" "enc_finite fmt u \<Longrightarrow> 1 \<le> enc_abs fmt u" "0 \<le> hi"
  shows "ieee_to_int fmt 0 hi rm exact u st =
    (if enc_nan fmt u then hi else 0, softfloat_raiseFlags softfloat_flag_invalid st)"
proof -
  have "enc_finite fmt u \<Longrightarrow> 1 \<le> round_int rm True (enc_abs fmt u)" using round_int_ge [of 1 "enc_abs fmt u"] assms(2) by simp
  moreover have "enc_finite fmt u \<or> enc_inf fmt u \<or> enc_nan fmt u"
    by (auto simp: enc_nan_def enc_inf_def enc_finite_def)
  ultimately show ?thesis using assms(1,3)
    by (auto simp: ieee_to_int_def Let_def int_result_def)
qed

lemma enc_abs_ge_1:
  assumes "enc_finite fmt u" "1 \<le> enc_exp fmt u" "0 \<le> int (fmt_fw fmt) + enc_exp fmt u - 1 + fmt_qmin fmt"
  shows "1 \<le> enc_abs fmt u"
  using enc_abs_ge [of fmt u 0] assms by simp

lemma trunc_in_range:
  assumes "enc_finite fmt u" "enc_abs fmt u = of_int n / 2 ^ D" "0 \<le> n" "n < b * 2 ^ D" "b \<le> hi + 1"
    "lo \<le> 0" "enc_sign fmt u \<Longrightarrow> b \<le> - lo + 1"
  shows "ieee_to_int fmt lo hi softfloat_round_minMag exact u st =
    (if enc_sign fmt u then - (n div 2 ^ D) else n div 2 ^ D,
     if exact \<and> n mod 2 ^ D \<noteq> 0 then softfloat_raiseFlags softfloat_flag_inexact st else st)"
proof -
  have "0 \<le> n div 2 ^ D" "n div 2 ^ D < b" using assms(3,4) by (simp_all add: pos_imp_zdiv_nonneg_iff int_div_less_iff)
  then show ?thesis using assms(5-) by (auto simp: ieee_to_int_trunc [OF assms(1,2)] int_result_def Let_def)
qed

lemma shifted_range: "n < b * 2 ^ c \<Longrightarrow> c \<le> D \<Longrightarrow> 0 \<le> (b::int) \<Longrightarrow> n < b * 2 ^ D"
  by (meson less_le_trans mult_left_mono power_increasing one_le_numeral)

end
