(* ===== verification/Conversion_Spec.thy ===== *)
theory Conversion_Spec
  imports Integer_Contract
begin

text \<open>
  The specification of conversions between the two formats and of rounding to an
  integral value, and the facts about rounding they need: below half of the least
  subnormal number all magnitudes round alike (\<open>deep_underflow\<close>), and rounding the bit
  pattern of an encoding at bit \<open>k\<close> rounds its value to an integer (\<open>integral_mid\<close>).
\<close>

definition ieee_convert ::
  "float_format \<Rightarrow> float_format \<Rightarrow> int \<Rightarrow> softfloat_state \<Rightarrow> 'a::len word \<times> softfloat_state \<Rightarrow> bool" where
  "ieee_convert src dst u st r \<longleftrightarrow>
     (if enc_nan src u then nan_result dst (enc_snan src u) st r
      else if enc_inf src u then inf_result dst (enc_sign src u) st r
      else ieee_result dst (enc_sign src u) (enc_abs src u) st r)"

definition integral_result ::
  "float_format \<Rightarrow> u8 \<Rightarrow> bool \<Rightarrow> int \<Rightarrow> softfloat_state \<Rightarrow> 'a::len word \<times> softfloat_state \<Rightarrow> bool" where
  "integral_result fmt rm exact u st r \<longleftrightarrow>
     (let s = enc_sign fmt u; x = enc_abs fmt u
      in if enc_nan fmt u then nan_result fmt (enc_snan fmt u) st r
         else if enc_inf fmt u then uint (fst r) = u \<and> snd r = st
         else enc_finite fmt (uint (fst r)) \<and> enc_sign fmt (uint (fst r)) = s \<and>
              enc_abs fmt (uint (fst r)) = of_int (round_int rm s x) \<and>
              snd r = (if exact \<and> x \<notin> \<int> then softfloat_raiseFlags softfloat_flag_inexact st else st))"

lemma round_int_bounds:
  assumes "0 \<le> y" "y \<le> of_int b"
  shows "0 \<le> round_int rm s y" "round_int rm s y \<le> b"
proof -
  show "0 \<le> round_int rm s y" using round_int_ge [of 0 y] assms(1) by simp
  have c: "\<lceil>y\<rceil> \<le> b" using assms(2) by (simp add: ceiling_le_iff)
  show "round_int rm s y \<le> b"
  proof (cases "y = of_int b")
    case False
    then have "\<lfloor>y\<rfloor> + 1 \<le> b" using assms(2) by linarith
    then show ?thesis using c by (simp add: round_int_def)
  qed simp
qed

lemma round_int_below_half:
  assumes "0 < y" "y < 1 / 2"
  shows "round_int rm s y = of_bool (rm = (if s then softfloat_round_min else softfloat_round_max))"
proof -
  have "\<lfloor>y\<rfloor> = 0" "\<lceil>y\<rceil> = 1" using assms by linarith+
  then show ?thesis using assms by (simp add: round_int_def)
qed

lemma powi_nat_add: "2 powi (int n + e) = of_int (2 ^ n) * (2::real) powi e"
  by (simp add: power_int_add)

context round_pack
begin

text \<open>Every positive magnitude below half of the least subnormal rounds alike.\<close>

lemma deep_underflow:
  fixes r :: "'a word \<times> softfloat_state"
  assumes x: "0 < x" "x < 2 powi (fmt_qmin fmt - 1)"
  shows "ieee_result fmt s x st r \<longleftrightarrow>
    enc_finite fmt (uint (fst r)) \<and> enc_sign fmt (uint (fst r)) = s \<and>
    enc_abs fmt (uint (fst r)) =
      of_bool (softfloat_roundingMode st = (if s then softfloat_round_min else softfloat_round_max)) * 2 powi fmt_qmin fmt \<and>
    snd r = softfloat_raiseFlags (softfloat_flag_underflow OR softfloat_flag_inexact) st"
proof -
  let ?q = "fmt_qmin fmt" and ?L = "\<lfloor>log 2 x\<rfloor>"
  have p: "2 powi j = (2::real) powr of_int j" for j by (simp add: powr_real_of_int')
  have "log 2 x < of_int (?q - 1)" using x unfolding p by (simp add: log_less_iff)
  then have L: "?L < ?q - 1" by linarith
  then have u: "ulp_exp fmt x = ?q" by (simp add: ulp_exp_def)
  have h: "2 powi (?q - 1) = (2 powi ?q / 2 :: real)" by (simp add: power_int_diff)
  have y: "0 < x / 2 powi ?q" "x / 2 powi ?q < 1 / 2" using x by (simp_all add: h field_simps)
  have rf: "round_flt fmt rm s x = of_bool (rm = (if s then softfloat_round_min else softfloat_round_max)) * 2 powi ?q" for rm
    using x(1) by (simp only: round_flt_def round_at_def u round_int_below_half [OF y]) simp
  have lt: "(2::real) powi ?q < 2 powi (fmt_bias fmt + 1)" "(2::real) powi (?q - 1) < 2 powi (1 - fmt_bias fmt)"
    using qmin_bias bias by (intro power_int_strict_increasing; simp)+
  have no: "\<not> overflows fmt rm s x" for rm using lt(1) less_trans [OF powi_pos lt(1)] by (simp add: overflows_def rf not_le)
  have ne: "round_flt fmt rm s x \<noteq> x" for rm using x h by (cases "rm = (if s then softfloat_round_min else softfloat_round_max)") (simp_all add: rf)
  have "tiny fmt d rm s x" for d rm
  proof -
    let ?e = "?L - int (fmt_fw fmt)"
    have "x < 2 powi (?L + 1)" unfolding p using x(1) by (simp add: less_powr_iff)
    also have "2 powi (?L + 1) = (2::real) powi (int (fmt_fw fmt + 1) + ?e)" by (rule arg_cong) simp
    also have "\<dots> = of_int (2 ^ (fmt_fw fmt + 1)) * 2 powi ?e" by (rule powi_nat_add)
    finally have "x / 2 powi ?e \<le> of_int (2 ^ (fmt_fw fmt + 1))" by (simp add: pos_divide_le_eq)
    with x(1) have "round_int rm s (x / 2 powi ?e) \<le> 2 ^ (fmt_fw fmt + 1)" by (intro round_int_bounds(2)) simp_all
    then have "of_int (round_int rm s (x / 2 powi ?e)) \<le> (of_int (2 ^ (fmt_fw fmt + 1)) :: real)" by (simp only: of_int_le_iff)
    then have "round_at rm s ?e x \<le> of_int (2 ^ (fmt_fw fmt + 1)) * 2 powi ?e"
      unfolding round_at_def by (rule mult_right_mono) simp
    also have "\<dots> = 2 powi (int (fmt_fw fmt + 1) + ?e)" by (rule powi_nat_add [symmetric])
    also have "\<dots> \<le> 2 powi (?q - 1)" using L by (intro power_int_increasing) simp_all
    finally show ?thesis using lt(2) x(2) by (simp add: tiny_def)
  qed
  then show ?thesis using no ne by (simp add: ieee_result_def rounded_def rounding_flags_def rf)
qed

lemma deep_underflow_same:
  fixes r :: "'a word \<times> softfloat_state"
  assumes "0 < x" "x < 2 powi (fmt_qmin fmt - 1)" "0 < x'" "x' < 2 powi (fmt_qmin fmt - 1)"
    and "ieee_result fmt s x st r"
  shows "ieee_result fmt s x' st r"
  using assms(5) unfolding deep_underflow [OF assms(1,2)] deep_underflow [OF assms(3,4)] .

end

lemma ieee_result_exact:
  assumes "ieee_result fmt s x st r" "round_flt fmt (softfloat_roundingMode st) s x = x" "x < 2 powi (fmt_bias fmt + 1)"
  shows "enc_finite fmt (uint (fst r))" "enc_sign fmt (uint (fst r)) = s" "enc_abs fmt (uint (fst r)) = x" "snd r = st"
  using assms by (simp_all add: ieee_result_def rounded_def rounding_flags_def overflows_def)

lemma jam_shift_range:
  assumes "even lo" "even hi" "lo * 2 ^ d \<le> n" "n < hi * 2 ^ d"
  shows "lo \<le> jam_shift d n" "jam_shift d n < hi"
  using jam_shift_less(1) [OF assms(1), of d n] jam_shift_less(1) [OF assms(2), of d n] assms(3,4) by linarith+

lemma round_code_shift:
  assumes "0 < g" "even c"
  shows "round_code g rm s (c * (2 * g) + n) = c + round_code g rm s n"
proof -
  have "(c * (2 * g) + n + round_incr g rm s) div (2 * g) = c + (n + round_incr g rm s) div (2 * g)"
    using assms(1) by (simp add: add.assoc)
  moreover have "(c + q) mod 2 = q mod 2" for q using assms(2) by presburger
  ultimately show ?thesis by (simp add: round_code_def Let_def)
qed

lemma integral_mid:
  fixes fmt u s k rm
  defines "E \<equiv> enc_exp fmt u" and "s \<equiv> enc_sign fmt u"
  assumes u: "0 \<le> u" "u < 2 ^ (fmt_ew fmt + fmt_fw fmt + 1)" and E: "1 \<le> E" "E \<le> 2 ^ fmt_ew fmt - 3" and ew: "1 \<le> fmt_ew fmt"
    and k: "1 \<le> k" "k \<le> fmt_fw fmt" "int k = 1 - fmt_qmin fmt - E" and par: "even ((E - 1) * 2 ^ (fmt_fw fmt - k))"
  defines "z \<equiv> round_code (2 ^ (k - 1)) rm s u * 2 ^ k"
  shows "enc_finite fmt z \<and> enc_sign fmt z = s \<and> enc_abs fmt z = of_int (round_int rm s (enc_abs fmt u)) \<and>
    (z \<noteq> u \<longleftrightarrow> enc_abs fmt u \<notin> \<int>)"
proof -
  let ?F = "fmt_fw fmt" and ?m = "enc_sig fmt u" and ?g = "(2::int) ^ (k - 1)"
  define R where "R = round_code ?g rm s ?m"
  define c where "c = of_bool s * 2 ^ (fmt_ew fmt + (?F - k)) + (E - 1) * 2 ^ (?F - k)"
  have g: "2 * ?g = 2 ^ k" "0 < ?g" using k(1) by (cases k; simp)+
  have F: "(2::int) ^ ?F = 2 ^ (?F - k) * 2 ^ k" using k(2) by (simp flip: power_add)
  have m: "?m = 2 ^ ?F + enc_frac fmt u" "2 ^ ?F \<le> ?m" "?m < 2 * 2 ^ ?F"
    using E(1) enc_sig_range [of fmt u] enc_field_range(3) [of fmt u] by (simp_all add: enc_sig_def E_def)
  have "u = of_bool s * 2 ^ (fmt_ew fmt + ?F) + E * 2 ^ ?F + enc_frac fmt u"
    using enc_make_self [OF u] by (simp add: enc_make_def E_def s_def)
  then have U: "u = c * (2 * ?g) + ?m" unfolding m(1) c_def g(1) power_add F by (simp add: algebra_simps)
  have "even c" unfolding c_def using par ew by simp
  then have z: "z = c * 2 ^ k + R * 2 ^ k" unfolding z_def R_def by (subst U, subst round_code_shift [OF g(2)]) (simp_all add: distrib_right)
  then have zm: "z = enc_make fmt s (E - 1) (R * 2 ^ k)" unfolding enc_make_def c_def power_add F by (simp add: algebra_simps)
  have x: "enc_abs fmt u = of_int ?m / 2 ^ k" using enc_abs_scaled [of fmt u k 0] E(1) k(3) by (simp add: E_def)
  have xr: "round_int rm s (enc_abs fmt u) = R" unfolding R_def round_code_correct [OF g(2)] x g(1) by simp
  have "of_int (2 ^ (?F - k)) \<le> enc_abs fmt u"
  proof -
    have "of_int (2 ^ (?F - k) * 2 ^ k) \<le> (of_int ?m :: real)" using m(2) unfolding F by (simp only: of_int_le_iff)
    then show ?thesis by (simp add: x pos_le_divide_eq)
  qed
  then have r1: "2 ^ (?F - k) \<le> R" unfolding xr [symmetric] by (rule round_int_ge)
  have "enc_abs fmt u \<le> of_int (2 * 2 ^ (?F - k))"
  proof -
    have "of_int ?m \<le> (of_int (2 * (2 ^ (?F - k) * 2 ^ k)) :: real)" using m(3) unfolding F of_int_le_iff by linarith
    then show ?thesis by (simp add: x pos_divide_le_eq)
  qed
  moreover have "0 \<le> enc_abs fmt u" by (rule enc_abs_nonneg)
  ultimately have r2: "R \<le> 2 * 2 ^ (?F - k)" unfolding xr [symmetric] by (intro round_int_bounds(2))
  have r: "2 ^ ?F \<le> R * 2 ^ k" "R * 2 ^ k \<le> 2 * 2 ^ ?F" unfolding F mult.assoc [symmetric] using r1 r2 by simp_all
  then have q: "R * 2 ^ k div 2 ^ ?F \<le> 2" using int_div_less_iff [of "2 ^ ?F" "R * 2 ^ k" 3] zero_less_power [of "2::int" ?F] by linarith
  have p: "enc_finite fmt z" "enc_sign fmt z = s" "enc_abs fmt z = of_int (R * 2 ^ k) * 2 powi (E - 1 + fmt_qmin fmt)"
    unfolding zm using E r q by (intro enc_pack; simp)+
  have "(2::real) powi (E - 1 + fmt_qmin fmt) = 2 powi (- int k)" using k(3) by (intro arg_cong [of _ _ "power_int 2"]) simp
  then have "enc_abs fmt z = of_int R" using p(3) by (simp add: power_int_minus)
  moreover have "z \<noteq> u \<longleftrightarrow> enc_abs fmt u \<notin> \<int>"
  proof (cases "?m mod 2 ^ k = 0")
    case True
    then have "?m = ?m div 2 ^ k * (2 * ?g)" unfolding g(1) using div_mult_mod_eq [of ?m "2 ^ k"] by simp
    then have "R = ?m div 2 ^ k" unfolding R_def by (metis round_code_exact g(2))
    then have "z = u" using z U g(1) True div_mult_mod_eq [of ?m "2 ^ k"] by simp
    then show ?thesis using True by (simp add: x scaled_Ints)
  next
    case False
    have "z mod 2 ^ k = 0" by (simp add: z_def)
    moreover have "u mod 2 ^ k = ?m mod 2 ^ k" by (subst U) (simp only: g(1) mod_mult_self3)
    ultimately show ?thesis using False by (auto simp: x scaled_Ints)
  qed
  ultimately show ?thesis using p(1,2) xr by simp
qed

lemma enc_abs_half:
  assumes "enc_exp fmt u = 1 - fmt_qmin fmt - int (fmt_fw fmt) - 1" "enc_exp fmt u \<noteq> 0"
  shows "1 / 2 \<le> enc_abs fmt u" "enc_abs fmt u = 1 / 2 \<longleftrightarrow> enc_frac fmt u = 0" "enc_abs fmt u < 1"
proof -
  let ?F = "fmt_fw fmt"
  have x: "enc_abs fmt u = of_int (enc_sig fmt u) / 2 ^ (?F + 1)" using enc_abs_scaled [of fmt u "?F + 1" 0] assms by simp
  have m: "enc_sig fmt u = 2 ^ ?F + enc_frac fmt u" "0 \<le> enc_frac fmt u" "enc_frac fmt u < 2 ^ ?F"
    using assms(2) enc_field_range [of fmt u] by (simp_all add: enc_sig_def)
  have "of_int (enc_frac fmt u) < (of_int (2 ^ ?F) :: real)" using m(3) by (simp only: of_int_less_iff)
  moreover have "(0::real) \<le> of_int (enc_frac fmt u)" using m(2) by simp
  ultimately show "1 / 2 \<le> enc_abs fmt u" "enc_abs fmt u = 1 / 2 \<longleftrightarrow> enc_frac fmt u = 0" "enc_abs fmt u < 1"
    by (simp_all add: x m(1) field_simps)
qed

lemma integral_small:
  assumes E: "enc_exp fmt u \<le> B" and B: "B = - fmt_qmin fmt - int (fmt_fw fmt)" "1 < B" and nz: "\<not> enc_zero fmt u"
  shows "enc_abs fmt u \<notin> \<int>"
    "round_int rm s (enc_abs fmt u) = of_bool (rm = softfloat_round_near_even \<and> enc_exp fmt u = B \<and> enc_frac fmt u \<noteq> 0
      \<or> rm = softfloat_round_near_maxMag \<and> enc_exp fmt u = B \<or> rm = (if s then softfloat_round_min else softfloat_round_max))"
proof -
  let ?x = "enc_abs fmt u"
  have p: "0 < ?x" using enc_abs_nonneg [of fmt u] enc_abs_zero [of fmt u] nz by auto
  have half: "?x < 1 / 2" if "enc_exp fmt u < B"
  proof -
    have "?x < 2 powi (int (fmt_fw fmt) + 1 + (max 1 (enc_exp fmt u) - 1 + fmt_qmin fmt))" by (rule enc_abs_bound)
    also have "\<dots> \<le> 2 powi (- 1)" using that B by (intro power_int_increasing) (simp_all add: max_def)
    finally show ?thesis by (simp add: power_int_minus)
  qed
  have top: "1 / 2 \<le> ?x" "?x = 1 / 2 \<longleftrightarrow> enc_frac fmt u = 0" "?x < 1" if "enc_exp fmt u = B"
    using enc_abs_half [of fmt u] that B by simp_all
  have one: "?x < 1" using half top E by (cases "enc_exp fmt u = B") auto
  then have fl: "\<lfloor>?x\<rfloor> = 0" "\<lceil>?x\<rceil> = 1" using p by linarith+
  show "?x \<notin> \<int>" using fl p by (auto elim!: Ints_cases)
  show "round_int rm s ?x = of_bool (rm = softfloat_round_near_even \<and> enc_exp fmt u = B \<and> enc_frac fmt u \<noteq> 0
      \<or> rm = softfloat_round_near_maxMag \<and> enc_exp fmt u = B \<or> rm = (if s then softfloat_round_min else softfloat_round_max))"
  proof (cases "enc_exp fmt u = B")
    case True
    then show ?thesis using fl top [OF True] by (auto simp: round_int_def)
  next
    case False
    then show ?thesis using fl half E by (auto simp: round_int_def)
  qed
qed

lemma integral_large:
  assumes "enc_finite fmt u" "1 \<le> enc_exp fmt u" "1 - fmt_qmin fmt \<le> enc_exp fmt u"
  shows "enc_abs fmt u \<in> \<int>" "of_int (round_int rm s (enc_abs fmt u)) = enc_abs fmt u"
proof -
  have "enc_abs fmt u = of_int (enc_sig fmt u * 2 ^ nat (enc_exp fmt u - 1 + fmt_qmin fmt)) / 2 ^ 0"
    using assms by (intro enc_abs_scaled) simp_all
  then have x: "enc_abs fmt u = of_int (enc_sig fmt u * 2 ^ nat (enc_exp fmt u - 1 + fmt_qmin fmt))" by simp
  show "enc_abs fmt u \<in> \<int>" unfolding x by (rule Ints_of_int)
  show "of_int (round_int rm s (enc_abs fmt u)) = enc_abs fmt u" unfolding x by (simp only: round_int_of_int)
qed

end
