(* ===== verification/Fused_Spec.thy ===== *)
theory Fused_Spec
  imports Ieee_Operations
begin

text \<open>
  The specification of the fused multiply-add and the arithmetic behind it: the product
  and the addend are aligned in a significand with \<open>w\<close> bits more than the one that is
  rounded, the sum is normalised there, and its low bits are jammed into the last bit of
  the significand that is rounded.
\<close>

definition ieee_mul_add ::
  "float_format \<Rightarrow> int \<Rightarrow> int \<Rightarrow> int \<Rightarrow> softfloat_state \<Rightarrow> 'a::len word \<times> softfloat_state \<Rightarrow> bool" where
  "ieee_mul_add fmt a b c st r \<longleftrightarrow>
     (let sp = (enc_sign fmt a \<noteq> enc_sign fmt b); sc = enc_sign fmt c;
          p = enc_abs fmt a * enc_abs fmt b;
          x = (if sp then - p else p) + enc_val fmt sc c
      in if enc_nan fmt a \<or> enc_nan fmt b
         then nan_result fmt (enc_snan fmt a \<or> enc_snan fmt b \<or> enc_snan fmt c) st r
         else if enc_inf fmt a \<and> enc_zero fmt b \<or> enc_zero fmt a \<and> enc_inf fmt b
         then nan_result fmt True st r
         else if enc_nan fmt c then nan_result fmt (enc_snan fmt c) st r
         else if (enc_inf fmt a \<or> enc_inf fmt b) \<and> enc_inf fmt c \<and> sp \<noteq> sc then nan_result fmt True st r
         else if enc_inf fmt a \<or> enc_inf fmt b then inf_result fmt sp st r
         else if enc_inf fmt c then inf_result fmt sc st r
         else ieee_result fmt
                (if x = 0 then if sp = sc then sp else softfloat_roundingMode st = softfloat_round_min
                 else x < 0)
                \<bar>x\<bar> st r)"

section \<open>Wide significands\<close>

lemma split_less:
  assumes "0 \<le> (lo :: int)" "lo < 2 ^ w"
  shows "a * 2 ^ w + lo < b * 2 ^ w \<longleftrightarrow> a < b"
proof
  assume "a * 2 ^ w + lo < b * 2 ^ w"
  then have "a * 2 ^ w < b * 2 ^ w" using assms(1) by linarith
  then show "a < b" by simp
next
  assume "a < b"
  then have "(a + 1) * 2 ^ w \<le> b * 2 ^ w" by (intro mult_right_mono) simp_all
  then show "a * 2 ^ w + lo < b * 2 ^ w" using assms(2) by (simp add: distrib_right)
qed

lemma sticky_jam_wide:
  assumes "sticky (2 ^ (w + t)) y n" "1 \<le> t"
  shows "sticky (2 ^ t) (y / 2 ^ w) (jam_shift w n)"
  unfolding sticky_def
proof (intro allI)
  fix m :: int
  have e: "even (m * 2 ^ t)" using assms(2) by simp
  have d: "2 ^ (w + t) dvd m * 2 ^ t * 2 ^ w" by (simp add: power_add mult.assoc mult.left_commute)
  have "(y / 2 ^ w < of_int (m * 2 ^ t)) = (y < of_int (m * 2 ^ t * 2 ^ w))"
       "(of_int (m * 2 ^ t) < y / 2 ^ w) = (of_int (m * 2 ^ t * 2 ^ w) < y)"
    by (simp_all add: field_simps)
  then show "(y / 2 ^ w < of_int (m * 2 ^ t) \<longleftrightarrow> jam_shift w n < m * 2 ^ t) \<and>
        (of_int (m * 2 ^ t) < y / 2 ^ w \<longleftrightarrow> m * 2 ^ t < jam_shift w n)"
    using stickyD(1,2) [OF assms(1) d] jam_shift_less [OF e, of w n] by simp
qed

text \<open>A shift of the high part alone, with the low part left in place.\<close>

lemma sticky_high_part:
  assumes "0 \<le> lo" "lo < 2 ^ w"
  shows "sticky (2 ^ (w + 1)) (of_int (hi * 2 ^ w + lo) / 2 ^ d) (jam_shift d hi * 2 ^ w + lo)"
  unfolding sticky_def
proof (intro allI)
  fix m :: int
  note lt = split_less [OF assms]
  have eq: "b * 2 ^ w = a * 2 ^ w + lo \<longleftrightarrow> a = b \<and> lo = 0" for a b :: int
  proof
    assume h: "b * 2 ^ w = a * 2 ^ w + lo"
    then have "a = b" using lt [of a b] lt [of a "b + 1"] assms by (auto simp: distrib_right)
    then show "a = b \<and> lo = 0" using h by simp
  qed simp
  let ?P = "hi * 2 ^ w + lo" and ?J = "jam_shift d hi * 2 ^ w + lo"
  have p: "m * 2 ^ (w + 1) = m * 2 * (2::int) ^ w" "m * 2 ^ (w + 1) * 2 ^ d = m * 2 * 2 ^ d * (2::int) ^ w"
    by (simp_all add: mult_ac)
  have j: "jam_shift d hi < m * 2 \<longleftrightarrow> hi < m * 2 * 2 ^ d" "m * 2 < jam_shift d hi \<longleftrightarrow> m * 2 * 2 ^ d < hi"
    using jam_shift_less [of "m * 2" d hi] by simp_all
  have l1: "?P < m * 2 ^ (w + 1) * 2 ^ d \<longleftrightarrow> ?J < m * 2 ^ (w + 1)" by (simp only: p(2) lt j [symmetric]) (simp only: p(1) lt)
  have "m * 2 ^ (w + 1) * 2 ^ d = ?P \<longleftrightarrow> m * 2 ^ (w + 1) = ?J"
    by (simp only: p(2) eq) (use j in \<open>simp only: p(1) eq, metis linorder_neqE_linordered_idom order_less_irrefl\<close>)
  then have l2: "m * 2 ^ (w + 1) * 2 ^ d < ?P \<longleftrightarrow> m * 2 ^ (w + 1) < ?J" using l1 by linarith
  have "(of_int ?P / 2 ^ d < (of_int (m * 2 ^ (w + 1)) :: real)) = (of_int ?P < (of_int (m * 2 ^ (w + 1) * 2 ^ d) :: real))"
    "((of_int (m * 2 ^ (w + 1)) :: real) < of_int ?P / 2 ^ d) = ((of_int (m * 2 ^ (w + 1) * 2 ^ d) :: real) < of_int ?P)"
    by (simp_all add: field_simps)
  then show "(of_int ?P / 2 ^ d < (of_int (m * 2 ^ (w + 1)) :: real) \<longleftrightarrow> ?J < m * 2 ^ (w + 1)) \<and>
      ((of_int (m * 2 ^ (w + 1)) :: real) < of_int ?P / 2 ^ d \<longleftrightarrow> m * 2 ^ (w + 1) < ?J)"
    unfolding of_int_less_iff l1 l2 by simp
qed

context round_pack
begin

lemma correct_wide:
  assumes n: "2 ^ (fmt_fw fmt + k + w) \<le> n * 2 ^ c" "n * 2 ^ c < 2 ^ (fmt_fw fmt + k + w + 1)" and k4: "4 \<le> k"
    and y: "y = of_int n \<or> sticky g y n \<and> g dvd 2 ^ (w + 1) \<and> 2 ^ (fmt_fw fmt + k + w - 2) \<le> n"
    and e: "- (2 ^ 14) \<le> e" "e < 2 ^ 15" "c \<le> 2 ^ 14" and x: "x = y * 2 powi (e + fmt_qmin fmt - int (k + w))"
    and sig: "uint sig = jam_shift w (n * 2 ^ c)" and e': "e' = e - int c"
  shows "ieee_result fmt s x st (roundPack s e' sig st)"
proof -
  let ?F = "fmt_fw fmt"
  have "sticky (2 ^ (w + (k - 1))) (2 ^ c * y) (2 ^ c * n)"
    using y
  proof (elim disjE conjE)
    assume "y = of_int n"
    then have "2 ^ c * y = of_int (2 ^ c * n)" by simp
    then show ?thesis by (simp only: sticky_refl)
  next
    assume h: "sticky g y n" "g dvd 2 ^ (w + 1)" "2 ^ (?F + k + w - 2) \<le> n"
    have "c \<le> 2"
    proof (rule ccontr)
      assume "\<not> c \<le> 2"
      then have "(2::int) ^ 3 \<le> 2 ^ c" by (intro power_increasing) simp_all
      then have "2 ^ (?F + k + w - 2) * 2 ^ 3 \<le> n * 2 ^ c"
        by (intro mult_mono h(3)) (use order_trans [OF _ h(3), of 0] in simp_all)
      moreover have "(2::int) ^ (?F + k + w - 2) * 2 ^ 3 = 2 ^ (?F + k + w + 1)"
        unfolding power_add [symmetric] using k4 by (intro arg_cong [of _ _ "power 2"]) simp
      ultimately show False using n(2) by linarith
    qed
    then have "(2::int) ^ (c + (w + 1)) dvd 2 ^ (w + (k - 1))" using k4 by (intro le_imp_power_dvd) simp
    moreover have "2 ^ c * g dvd 2 ^ (c + (w + 1))" unfolding power_add [of _ c] by (intro mult_dvd_mono h(2)) simp
    ultimately have "2 ^ c * g dvd 2 ^ (w + (k - 1))" by (rule dvd_trans [rotated])
    then show ?thesis using sticky_coarser [OF sticky_scale [OF h(1), of c]] by blast
  qed
  then have st: "sticky (2 ^ (k - 1)) (2 ^ c * y / 2 ^ w) (uint sig)"
    unfolding sig mult.commute [of n] by (rule sticky_jam_wide) (use k4 in simp)
  have ev: "even ((2::int) ^ (?F + k))" "even ((2::int) ^ (?F + k + 1))" using k4 by simp_all
  have "2 ^ (?F + k) \<le> uint sig" "uint sig < 2 ^ (?F + k + 1)"
    unfolding sig using jam_shift_less(1) [OF ev(1), of w "n * 2 ^ c"] jam_shift_less(1) [OF ev(2), of w "n * 2 ^ c"] n
    by (simp_all only: power_add [symmetric]) (simp_all add: algebra_simps not_less [symmetric])
  note R = correct [OF st this, of e' s st]
  have "e + fmt_qmin fmt - int (k + w) = int c - int w + (e' + fmt_qmin fmt - int k)" by (simp add: e')
  then have "(2::real) powi (e + fmt_qmin fmt - int (k + w)) = 2 powi (int c - int w + (e' + fmt_qmin fmt - int k))" by (rule arg_cong)
  also have "\<dots> = 2 ^ c / 2 ^ w * 2 powi (e' + fmt_qmin fmt - int k)"
    by (subst power_int_add) (simp_all add: power_int_diff)
  finally have "2 ^ c * y / 2 ^ w * 2 powi (e' + fmt_qmin fmt - int k) = x" by (simp add: x)
  then show ?thesis using R e by (simp add: e')
qed

end

section \<open>Aligned differences and the specification for finite operands\<close>

lemma jam_shift_scaled:
  "c \<le> w \<Longrightarrow> jam_shift w (n * 2 ^ c) = jam_shift (w - c) n"
  "w \<le> c \<Longrightarrow> jam_shift w (n * 2 ^ c) = n * 2 ^ (c - w)"
proof -
  assume "c \<le> w"
  then have p: "(2::int) ^ w = 2 ^ (w - c) * 2 ^ c" by (simp flip: power_add)
  show "jam_shift w (n * 2 ^ c) = jam_shift (w - c) n"
    unfolding jam_shift_def p by (simp add: mult_mod_left [symmetric] div_mult_mult2)
next
  assume "w \<le> c"
  then have e: "n * 2 ^ c = n * 2 ^ (c - w) * (2::int) ^ w" by (simp flip: power_add)
  show "jam_shift w (n * 2 ^ c) = n * 2 ^ (c - w)" unfolding e jam_shift_def by simp
qed

lemma jam_shift_bounds:
  assumes "0 \<le> n" "n < 2 ^ M" "c \<le> d" "c < M"
  shows "0 \<le> jam_shift d n" "jam_shift d n < 2 ^ (M - c)"
proof -
  show "0 \<le> jam_shift d n" using assms(1) by (simp add: jam_shift_def pos_imp_zdiv_nonneg_iff)
  have "(2::int) ^ M \<le> 2 ^ (M - c) * 2 ^ d"
    unfolding power_add [symmetric] using assms(3,4) by (intro power_increasing) simp_all
  then show "jam_shift d n < 2 ^ (M - c)" using assms by (subst jam_shift_less) simp_all
qed

lemma wide_difference:
  assumes A: "2 ^ (M - 1) \<le> A" "A < 2 ^ M" "even A" and B: "0 \<le> B" "B < 2 ^ M" "even B" and d: "1 \<le> d" and M: "3 \<le> M"
    and n: "n = A - jam_shift d B" and y: "y = of_int A - of_int B / 2 ^ d"
  shows "0 < n" "n < 2 ^ M" "0 < y" "y = of_int n \<or> sticky 2 y n \<and> 2 ^ (M - 2) \<le> n"
proof -
  have j: "0 \<le> jam_shift d B" "jam_shift d B < 2 ^ (M - 1)" using jam_shift_bounds [OF B(1,2) d] M by simp_all
  show "0 < n" "n < 2 ^ M" using A j by (simp_all add: n)
  have st: "sticky 2 y n" unfolding y n using A(3) by (intro sticky_diff sticky_jam [OF sticky_refl]) simp_all
  show "0 < y" using stickyD(2) [OF st, of 0] \<open>0 < n\<close> by simp
  show "y = of_int n \<or> sticky 2 y n \<and> 2 ^ (M - 2) \<le> n"
  proof (cases "d = 1")
    case True
    from B(3) obtain m where "B = 2 * m" ..
    then show ?thesis using True by (simp add: y n jam_shift_def)
  next
    case False
    then have "jam_shift d B < 2 ^ (M - 2)" using jam_shift_bounds(2) [OF B(1,2), of 2 d] d M by simp
    moreover have "(2::int) ^ (M - 1) = 2 * 2 ^ (M - 2)" using M by (simp flip: power_Suc)
    ultimately show ?thesis using st A(1) by (simp add: n)
  qed
qed

lemma powi_down: "(2::real) powi (e - int d) = 2 powi e / 2 ^ d"
  by (simp add: power_int_diff)

lemma sticky_split:
  assumes "0 \<le> (lo :: int)" "lo < 2 ^ w"
  shows "sticky 2 (of_int (hi * 2 ^ w + lo) * 2 / 2 ^ w) (2 * hi + of_bool (lo \<noteq> 0))"
  unfolding sticky_def
proof (intro allI)
  fix m :: int
  let ?P = "hi * 2 ^ w + lo"
  have l: "?P < m * 2 ^ w \<longleftrightarrow> hi < m" by (rule split_less [OF assms])
  have eq: "m * 2 ^ w = ?P \<longleftrightarrow> hi = m \<and> lo = 0"
  proof
    assume h: "m * 2 ^ w = ?P"
    have "\<not> hi < m" using l h by simp
    moreover have "hi \<le> m" using h assms(1) by (intro mult_right_le_imp_le [of hi "2 ^ w" m]) simp_all
    ultimately show "hi = m \<and> lo = 0" using h by simp
  qed simp
  have r: "p * 2 / 2 ^ w < (of_int (m * 2) :: real) \<longleftrightarrow> p < of_int (m * 2 ^ w)"
    "of_int (m * 2) < p * 2 / 2 ^ w \<longleftrightarrow> of_int (m * 2 ^ w) < p" for p :: real
    by (simp_all add: field_simps)
  have "m * 2 ^ w < ?P \<longleftrightarrow> m < hi \<or> hi = m \<and> lo \<noteq> 0" using l eq by (metis linorder_neqE_linordered_idom order_less_imp_not_less)
  then show "(of_int ?P * 2 / 2 ^ w < (of_int (m * 2) :: real) \<longleftrightarrow> 2 * hi + of_bool (lo \<noteq> 0) < m * 2) \<and>
      ((of_int (m * 2) :: real) < of_int ?P * 2 / 2 ^ w \<longleftrightarrow> m * 2 < 2 * hi + of_bool (lo \<noteq> 0))"
    unfolding r of_int_less_iff l by auto
qed

text \<open>From the two cases of the signs to the specification, for finite operands.\<close>

lemma mul_add_finite:
  fixes r :: "'a::len word \<times> softfloat_state"
  assumes fin: "enc_finite fmt a" "enc_finite fmt b" "enc_finite fmt c"
    and sp: "sp = (enc_sign fmt a \<noteq> enc_sign fmt b)" and vp: "vp = enc_abs fmt a * enc_abs fmt b"
    and same: "sp = enc_sign fmt c \<Longrightarrow> ieee_result fmt sp (vp + enc_abs fmt c) st r"
    and opposite: "enc_sign fmt c = (\<not> sp) \<Longrightarrow> ieee_result fmt
      (if vp = enc_abs fmt c then softfloat_roundingMode st = softfloat_round_min else if enc_abs fmt c < vp then sp else \<not> sp)
      \<bar>vp - enc_abs fmt c\<bar> st r"
  shows "ieee_mul_add fmt a b c st r"
proof -
  define vc where "vc = enc_abs fmt c"
  have nn: "0 \<le> vp" "0 \<le> vc" by (simp_all add: vp vc_def enc_abs_nonneg)
  define sc x where "sc = enc_sign fmt c" and "x = (if sp then - vp else vp) + (if sc then - vc else vc)"
  have "ieee_result fmt (if x = 0 then if sp = sc then sp else softfloat_roundingMode st = softfloat_round_min else x < 0) \<bar>x\<bar> st r"
  proof (cases "sp = sc")
    case True
    then have "x = (if sp then - (vp + vc) else vp + vc)" by (simp add: x_def)
    then have "\<bar>x\<bar> = vp + vc" "x \<noteq> 0 \<Longrightarrow> (x < 0) = sp" using nn by auto
    then show ?thesis using same True by (auto simp: sc_def vc_def)
  next
    case False
    then have "x = (if sp then vc - vp else vp - vc)" by (auto simp: x_def)
    then have "\<bar>x\<bar> = \<bar>vp - vc\<bar>" "(if x = 0 then if sp = sc then sp else softfloat_roundingMode st = softfloat_round_min else x < 0)
        = (if vp = vc then softfloat_roundingMode st = softfloat_round_min else if vc < vp then sp else \<not> sp)"
      using False by auto
    moreover have "enc_sign fmt c = (\<not> sp)" using False by (auto simp: sc_def)
    ultimately show ?thesis using opposite by (simp only: vc_def)
  qed
  then show ?thesis using fin
    unfolding ieee_mul_add_def Let_def sp [symmetric] vp [symmetric] x_def enc_val_def sc_def vc_def
    by (simp add: enc_nan_def enc_inf_def enc_finite_def)
qed

end
