(* ===== verification/Softfloat_Round.thy ===== *)
theory Softfloat_Round
  imports Softfloat_Primitives Conversion_Spec Fused_Spec
begin

text \<open>
  Normalisation, rounding and packing: \<^verbatim>\<open>s_normSubnormalF32Sig.c\<close>, \<^verbatim>\<open>s_roundPackToF32.c\<close>,
  \<^verbatim>\<open>s_normRoundPackToF32.c\<close>, \<^verbatim>\<open>s_roundPackToI32.c\<close>, \<^verbatim>\<open>s_roundPackToUI32.c\<close> and their 64-bit
  counterparts. These are the routines through which every arithmetic operation and every
  conversion of the library produces its result.
\<close>

section \<open>Normalising a subnormal significand\<close>

text \<open>
  \<^verbatim>\<open>struct exp16_sig32\<close> and \<^verbatim>\<open>struct exp16_sig64\<close>: both have an \<^verbatim>\<open>int_fast16_t\<close> exponent and,
  with 64-bit \<^verbatim>\<open>uint_fast32_t\<close>, a 64-bit significand.
\<close>

record exp16_sig =
  norm_exp :: int
  norm_sig :: u64

definition softfloat_normSubnormalF32Sig :: "u64 \<Rightarrow> exp16_sig" where
  "softfloat_normSubnormalF32Sig sig =
     (let shiftCount = uint (softfloat_countLeadingZeros32 (ucast sig)) - 8
      in \<lparr>norm_exp = 1 - shiftCount, norm_sig = push_bit (nat shiftCount) sig\<rparr>)"

definition softfloat_normSubnormalF64Sig :: "u64 \<Rightarrow> exp16_sig" where
  "softfloat_normSubnormalF64Sig sig =
     (let shiftCount = uint (softfloat_countLeadingZeros64 sig) - 11
      in \<lparr>norm_exp = 1 - shiftCount, norm_sig = push_bit (nat shiftCount) sig\<rparr>)"

section \<open>Rounding and packing\<close>

text \<open>
  The choice of the increment is the same in all routines that round: \<open>half\<close> when the mode
  rounds to nearest, and in the directed modes \<open>full\<close> when the mode points away from zero
  for this sign, 0 otherwise.
\<close>

definition softfloat_roundIncrement :: "'a::len word \<Rightarrow> 'a word \<Rightarrow> u8 \<Rightarrow> bool \<Rightarrow> 'a word" where
  "softfloat_roundIncrement half full roundingMode sign =
     (let roundNearEven = (roundingMode = softfloat_round_near_even);
          roundIncrement = half
      in if \<not> roundNearEven \<and> roundingMode \<noteq> softfloat_round_near_maxMag
         then (if roundingMode = (if sign then softfloat_round_min else softfloat_round_max)
               then full else 0)
         else roundIncrement)"

text \<open>The common last part of \<^verbatim>\<open>softfloat_roundPackToF32\<close>, up to the label \<^verbatim>\<open>uiZ\<close>.\<close>

definition softfloat_roundPackToF32_tail ::
  "u8 \<Rightarrow> u8 \<Rightarrow> bool \<Rightarrow> int \<Rightarrow> u64 \<Rightarrow> u8 \<Rightarrow> softfloat_state \<Rightarrow> u32 \<times> softfloat_state" where
  "softfloat_roundPackToF32_tail roundingMode roundIncrement sign e sig roundBits st =
     (let roundNearEven = (roundingMode = softfloat_round_near_even);
          st = (if roundBits \<noteq> 0 then softfloat_raiseFlags softfloat_flag_inexact st else st);
          sig = drop_bit 7 (sig + ucast roundIncrement);
          sig = sig AND NOT (of_bool (roundBits XOR 0x40 = 0 \<and> roundNearEven));
          uiZ = packToF32UI sign (if sig \<noteq> 0 then e else 0) sig
      in (ucast uiZ, st))"

definition softfloat_roundPackToF32 ::
  "bool \<Rightarrow> int \<Rightarrow> u64 \<Rightarrow> softfloat_state \<Rightarrow> u32 \<times> softfloat_state" where
  "softfloat_roundPackToF32 sign e sig st =
     (let roundingMode = softfloat_roundingMode st;
          roundIncrement = softfloat_roundIncrement 0x40 0x7F roundingMode sign;
          roundBits = ucast (sig AND 0x7F);
          tail = softfloat_roundPackToF32_tail roundingMode roundIncrement sign
      in if 0xFD \<le> (word_of_int e :: u16)
         then if e < 0
              then let isTiny = (softfloat_detectTininess st = softfloat_tininess_beforeRounding
                                 \<or> e < -1 \<or> sig + ucast roundIncrement < 0x80000000);
                       sig = ucast (softfloat_shiftRightJam32 (ucast sig) (word_of_int (- e)));
                       e = 0;
                       roundBits = ucast (sig AND 0x7F);
                       st = (if isTiny \<and> roundBits \<noteq> 0
                             then softfloat_raiseFlags softfloat_flag_underflow st else st)
                   in tail e sig roundBits st
              else if 0xFD < e \<or> 0x80000000 \<le> sig + ucast roundIncrement
              then let st = softfloat_raiseFlags
                              (softfloat_flag_overflow OR softfloat_flag_inexact) st;
                       uiZ = packToF32UI sign 0xFF 0 - of_bool (roundIncrement = 0)
                   in (ucast uiZ, st)
              else tail e sig roundBits st
         else tail e sig roundBits st)"

definition softfloat_roundPackToF64_tail ::
  "u8 \<Rightarrow> u64 \<Rightarrow> bool \<Rightarrow> int \<Rightarrow> u64 \<Rightarrow> u64 \<Rightarrow> softfloat_state \<Rightarrow> u64 \<times> softfloat_state" where
  "softfloat_roundPackToF64_tail roundingMode roundIncrement sign e sig roundBits st =
     (let roundNearEven = (roundingMode = softfloat_round_near_even);
          st = (if roundBits \<noteq> 0 then softfloat_raiseFlags softfloat_flag_inexact st else st);
          sig = drop_bit 10 (sig + roundIncrement);
          sig = sig AND NOT (of_bool (roundBits XOR 0x200 = 0 \<and> roundNearEven));
          uiZ = packToF64UI sign (if sig \<noteq> 0 then e else 0) sig
      in (uiZ, st))"

definition softfloat_roundPackToF64 ::
  "bool \<Rightarrow> int \<Rightarrow> u64 \<Rightarrow> softfloat_state \<Rightarrow> u64 \<times> softfloat_state" where
  "softfloat_roundPackToF64 sign e sig st =
     (let roundingMode = softfloat_roundingMode st;
          roundIncrement = softfloat_roundIncrement 0x200 0x3FF roundingMode sign;
          roundBits = sig AND 0x3FF;
          tail = softfloat_roundPackToF64_tail roundingMode roundIncrement sign
      in if 0x7FD \<le> (word_of_int e :: u16)
         then if e < 0
              then let isTiny = (softfloat_detectTininess st = softfloat_tininess_beforeRounding
                                 \<or> e < -1 \<or> sig + roundIncrement < 0x8000000000000000);
                       sig = softfloat_shiftRightJam64 sig (word_of_int (- e));
                       e = 0;
                       roundBits = sig AND 0x3FF;
                       st = (if isTiny \<and> roundBits \<noteq> 0
                             then softfloat_raiseFlags softfloat_flag_underflow st else st)
                   in tail e sig roundBits st
              else if 0x7FD < e \<or> 0x8000000000000000 \<le> sig + roundIncrement
              then let st = softfloat_raiseFlags
                              (softfloat_flag_overflow OR softfloat_flag_inexact) st;
                       uiZ = packToF64UI sign 0x7FF 0 - of_bool (roundIncrement = 0)
                   in (uiZ, st)
              else tail e sig roundBits st
         else tail e sig roundBits st)"

definition softfloat_normRoundPackToF32 ::
  "bool \<Rightarrow> int \<Rightarrow> u64 \<Rightarrow> softfloat_state \<Rightarrow> u32 \<times> softfloat_state" where
  "softfloat_normRoundPackToF32 sign e sig st =
     (let shiftCount = uint (softfloat_countLeadingZeros32 (ucast sig)) - 1;
          e = e - shiftCount
      in if 7 \<le> shiftCount \<and> (word_of_int e :: u16) < 0xFD
         then (ucast (packToF32UI sign (if sig \<noteq> 0 then e else 0)
                        (push_bit (nat (shiftCount - 7)) sig)), st)
         else softfloat_roundPackToF32 sign e (push_bit (nat shiftCount) sig) st)"

definition softfloat_normRoundPackToF64 ::
  "bool \<Rightarrow> int \<Rightarrow> u64 \<Rightarrow> softfloat_state \<Rightarrow> u64 \<times> softfloat_state" where
  "softfloat_normRoundPackToF64 sign e sig st =
     (let shiftCount = uint (softfloat_countLeadingZeros64 sig) - 1;
          e = e - shiftCount
      in if 10 \<le> shiftCount \<and> (word_of_int e :: u16) < 0x7FD
         then (packToF64UI sign (if sig \<noteq> 0 then e else 0)
                 (push_bit (nat (shiftCount - 10)) sig), st)
         else softfloat_roundPackToF64 sign e (push_bit (nat shiftCount) sig) st)"

section \<open>Rounding and packing is correct\<close>

lemma uint_roundIncrement:
  assumes "uint half = g" "uint full = 2 * g - 1"
  shows "uint (softfloat_roundIncrement half full rm s) = round_incr g rm s"
  using assms by (simp add: softfloat_roundIncrement_def round_incr_def)

lemma uint_round_drop:
  fixes w :: "'a::len word"
  assumes k: "1 \<le> k" and inc: "uint inc = round_incr (2 ^ (k - 1)) rm s"
    and w: "uint w + 2 ^ k \<le> 2 ^ LENGTH('a)" and tie: "tie \<longleftrightarrow> uint w mod 2 ^ k = 2 ^ (k - 1)"
  shows "uint (drop_bit k (w + inc) AND NOT (of_bool (tie \<and> rm = softfloat_round_near_even)))
    = round_code (2 ^ (k - 1)) rm s (uint w)"
proof -
  have g: "2 * 2 ^ (k - 1) = (2::int) ^ k" using k by (cases k) simp_all
  have "round_incr (2 ^ (k - 1)) rm s < 2 ^ k" unfolding g [symmetric] by (simp add: round_incr_def)
  then have "uint (w + inc) = uint w + round_incr (2 ^ (k - 1)) rm s"
    using w inc by (simp add: uint_add_small)
  then show ?thesis unfolding round_code_def Let_def g by (simp add: uint_clear_last uint_drop tie)
qed

lemma ucast_low_bits:
  "uint (ucast (sig AND 0x7F) :: u8) = uint (sig :: u64) mod 2 ^ 7"
  "uint (sig AND 0x3FF) = uint sig mod 2 ^ 10"
proof -
  have "sig AND 0x7F = take_bit 7 sig" using and_low_mask [of sig 7] by simp
  then show "uint (ucast (sig AND 0x7F) :: u8) = uint sig mod 2 ^ 7"
    by (simp add: uint_ucast uint_take)
  have "sig AND 0x3FF = take_bit 10 sig" using and_low_mask [of sig 10] by simp
  then show "uint (sig AND 0x3FF) = uint sig mod 2 ^ 10" by (simp add: uint_take)
qed

lemma roundPackToF32_tail:
  assumes "uint sig < 2 ^ 31" and "0 \<le> e" "e < 256"
    and r: "r = round_code (2 ^ (7 - 1)) rm s (uint sig)" "e * 2 ^ 23 + r < 2 ^ 31" "r = 0 \<Longrightarrow> e = 0"
  shows "uint (fst (softfloat_roundPackToF32_tail rm (softfloat_roundIncrement 0x40 0x7F rm s) s e sig
      (ucast (sig AND 0x7F)) st)) = enc_make binary32 s e r"
    "snd (softfloat_roundPackToF32_tail rm (softfloat_roundIncrement 0x40 0x7F rm s) s e sig
      (ucast (sig AND 0x7F)) st) =
      softfloat_raiseFlags (if uint sig mod 2 ^ 7 = 0 then 0 else softfloat_flag_inexact) st"
proof -
  let ?rb = "ucast (sig AND 0x7F) :: u8"
  define inc :: u64 where "inc = ucast (softfloat_roundIncrement (0x40 :: u8) 0x7F rm s)"
  define w where "w = drop_bit 7 (sig + inc) AND NOT (of_bool (?rb XOR 0x40 = 0 \<and> rm = softfloat_round_near_even))"
  have inc: "uint inc = round_incr (2 ^ (7 - 1)) rm s"
    by (simp add: inc_def uint_ucast uint_roundIncrement [of _ 64] round_incr_def)
  have tie: "?rb XOR 0x40 = 0 \<longleftrightarrow> uint sig mod 2 ^ 7 = 2 ^ (7 - 1)"
    unfolding xor_eq_0_iff unfolding word_eq_uint ucast_low_bits by simp
  have w: "uint w = r" unfolding w_def r(1)
    by (rule uint_round_drop [OF _ inc _ tie]) (use assms(1) in simp_all)
  have rb: "?rb \<noteq> 0 \<longleftrightarrow> uint sig mod 2 ^ 7 \<noteq> 0" by (subst uint_eq_0 [symmetric]) (simp only: ucast_low_bits)
  show "snd (softfloat_roundPackToF32_tail rm (softfloat_roundIncrement 0x40 0x7F rm s) s e sig ?rb st) =
      softfloat_raiseFlags (if uint sig mod 2 ^ 7 = 0 then 0 else softfloat_flag_inexact) st"
    using rb by (simp add: softfloat_roundPackToF32_tail_def Let_def)
  have "(if w \<noteq> 0 then e else 0) = e" using r(3) w by auto
  then have "fst (softfloat_roundPackToF32_tail rm (softfloat_roundIncrement 0x40 0x7F rm s) s e sig ?rb st) =
      ucast (packToF32UI s e w)"
    unfolding softfloat_roundPackToF32_tail_def Let_def fst_conv inc_def [symmetric] w_def [symmetric] by simp
  then show "uint (fst (softfloat_roundPackToF32_tail rm (softfloat_roundIncrement 0x40 0x7F rm s) s e sig ?rb st))
      = enc_make binary32 s e r"
    using uint_packToF32UI(2) [OF assms(2,3), of w s] w r(2) by simp
qed

lemma roundPackToF64_tail:
  assumes "uint sig < 2 ^ 63" and "0 \<le> e" "e < 2048"
    and r: "r = round_code (2 ^ (10 - 1)) rm s (uint sig)" "e * 2 ^ 52 + r < 2 ^ 63" "r = 0 \<Longrightarrow> e = 0"
  shows "uint (fst (softfloat_roundPackToF64_tail rm (softfloat_roundIncrement 0x200 0x3FF rm s) s e sig
      (sig AND 0x3FF) st)) = enc_make binary64 s e r"
    "snd (softfloat_roundPackToF64_tail rm (softfloat_roundIncrement 0x200 0x3FF rm s) s e sig
      (sig AND 0x3FF) st) =
      softfloat_raiseFlags (if uint sig mod 2 ^ 10 = 0 then 0 else softfloat_flag_inexact) st"
proof -
  let ?rb = "sig AND 0x3FF"
  define inc :: u64 where "inc = softfloat_roundIncrement (0x200 :: u64) 0x3FF rm s"
  define w where "w = drop_bit 10 (sig + inc) AND NOT (of_bool (?rb XOR 0x200 = 0 \<and> rm = softfloat_round_near_even))"
  have inc: "uint inc = round_incr (2 ^ (10 - 1)) rm s"
    by (simp add: inc_def uint_roundIncrement [of _ 512] round_incr_def)
  have tie: "?rb XOR 0x200 = 0 \<longleftrightarrow> uint sig mod 2 ^ 10 = 2 ^ (10 - 1)"
    unfolding xor_eq_0_iff unfolding word_eq_uint ucast_low_bits by simp
  have w: "uint w = r" unfolding w_def r(1)
    by (rule uint_round_drop [OF _ inc _ tie]) (use assms(1) in simp_all)
  have rb: "?rb \<noteq> 0 \<longleftrightarrow> uint sig mod 2 ^ 10 \<noteq> 0" by (subst uint_eq_0 [symmetric]) (simp only: ucast_low_bits)
  show "snd (softfloat_roundPackToF64_tail rm (softfloat_roundIncrement 0x200 0x3FF rm s) s e sig ?rb st) =
      softfloat_raiseFlags (if uint sig mod 2 ^ 10 = 0 then 0 else softfloat_flag_inexact) st"
    using rb by (simp add: softfloat_roundPackToF64_tail_def Let_def)
  have "(if w \<noteq> 0 then e else 0) = e" using r(3) w by auto
  then have "fst (softfloat_roundPackToF64_tail rm (softfloat_roundIncrement 0x200 0x3FF rm s) s e sig ?rb st) =
      packToF64UI s e w"
    unfolding softfloat_roundPackToF64_tail_def Let_def fst_conv inc_def [symmetric] w_def [symmetric] by simp
  then show "uint (fst (softfloat_roundPackToF64_tail rm (softfloat_roundIncrement 0x200 0x3FF rm s) s e sig ?rb st))
      = enc_make binary64 s e r"
    using uint_packToF64UI [OF assms(2,3), of w s] w r(2) by simp
qed

lemma add_incr32:
  assumes "uint (sig :: u64) < 2 ^ 31"
  shows "uint (sig + ucast (softfloat_roundIncrement (0x40 :: u8) 0x7F rm s)) = uint sig + round_incr (2 ^ (7 - 1)) rm s"
proof -
  have i: "uint (ucast (softfloat_roundIncrement (0x40 :: u8) 0x7F rm s) :: u64) = round_incr (2 ^ (7 - 1)) rm s"
    by (simp add: uint_ucast uint_roundIncrement [of _ 64] round_incr_def)
  show ?thesis unfolding i [symmetric]
    by (rule uint_add_small) (use assms i round_incr_bounds(2) [of 64 rm s] in simp)
qed

lemma roundPackToF32_below:
  assumes n: "2 ^ 30 \<le> uint sig" "uint sig < 2 ^ 31" and e: "- (2 ^ 15) \<le> e" "e < 0"
    and j: "j = jam_shift (nat (- e)) (uint sig)" and rm: "rm = softfloat_roundingMode st"
  shows "uint (fst (softfloat_roundPackToF32 s e sig st)) = enc_make binary32 s 0 (round_code (2 ^ (7 - 1)) rm s j) \<and>
      snd (softfloat_roundPackToF32 s e sig st) = softfloat_raiseFlags
        (if j mod 2 ^ 7 = 0 then 0
         else if softfloat_detectTininess st = softfloat_tininess_beforeRounding \<or> e < - 1
           \<or> uint sig + round_incr (2 ^ (7 - 1)) rm s < 2 ^ 31
         then softfloat_flag_underflow OR softfloat_flag_inexact
         else softfloat_flag_inexact) st"
proof -
  define sj :: u64 where "sj = ucast (softfloat_shiftRightJam32 (ucast sig) (word_of_int (- e)))"
  define inc where "inc = softfloat_roundIncrement (0x40 :: u8) 0x7F rm s"
  have c: "unat (word_of_int (- e) :: u64) = nat (- e)"
    using e by (intro unat_word_of_int) simp_all
  have "uint (softfloat_shiftRightJam32 (ucast sig) (word_of_int (- e))) = j"
    using uint_shiftRightJam32 [of "word_of_int (- e)" "ucast sig"] e n unfolding c
    by (simp add: j uint_ucast_small)
  then have sj: "uint sj = j" by (simp add: sj_def uint_ucast_up)
  have jr: "0 \<le> j" "j < 2 ^ 30"
  proof -
    show "0 \<le> j" using sj by (metis uint_ge_0)
    have "(2::int) ^ 31 \<le> 2 ^ 30 * 2 ^ nat (- e)"
      using e power_increasing [of 1 "nat (- e)" "2::int"] by simp
    then show "j < 2 ^ 30" unfolding j using n(2) by (subst jam_shift_less) simp_all
  qed
  have r: "round_code (2 ^ (7 - 1)) rm s j \<le> 2 ^ 23"
    using round_code_range(2) [of "2 ^ (7 - 1)" 7 0 j "2 ^ 23" rm s] jr by simp
  have t: "softfloat_roundPackToF32 s e sig st =
    softfloat_roundPackToF32_tail rm inc s 0 sj (ucast (sj AND 0x7F))
      (if (softfloat_detectTininess st = softfloat_tininess_beforeRounding
             \<or> e < -1 \<or> sig + ucast inc < 0x80000000) \<and> (ucast (sj AND 0x7F) :: u8) \<noteq> 0
       then softfloat_raiseFlags softfloat_flag_underflow st else st)"
    using u16_of_neg [OF e, of 253 "0xFD"] e(2)
    by (simp add: softfloat_roundPackToF32_def Let_def rm inc_def sj_def)
  have rb: "(ucast (sj AND 0x7F) :: u8) \<noteq> 0 \<longleftrightarrow> j mod 2 ^ 7 \<noteq> 0"
    by (subst uint_eq_0 [symmetric]) (simp only: ucast_low_bits sj)
  have "sig + ucast inc < 0x80000000 \<longleftrightarrow> uint sig + round_incr (2 ^ (7 - 1)) rm s < 2 ^ 31"
    unfolding word_less_uint inc_def add_incr32 [OF n(2)] by simp
  then show ?thesis
    unfolding t rb inc_def using roundPackToF32_tail [of sj 0 _ rm s] sj jr r by (simp add: or.commute)
qed

lemma roundPackToF32_inside:
  assumes n: "2 ^ 30 \<le> uint sig" "uint sig < 2 ^ 31" and e: "0 \<le> e"
    and u: "e < 253 \<or> e = 253 \<and> uint sig + round_incr (2 ^ (7 - 1)) rm s < 2 ^ 31"
    and rm: "rm = softfloat_roundingMode st"
  shows "uint (fst (softfloat_roundPackToF32 s e sig st)) =
        enc_make binary32 s e (round_code (2 ^ (7 - 1)) rm s (uint sig)) \<and>
      snd (softfloat_roundPackToF32 s e sig st) = softfloat_raiseFlags
        (if uint sig mod 2 ^ 7 = 0 then 0 else softfloat_flag_inexact) st"
proof -
  define r where "r = round_code (2 ^ (7 - 1)) rm s (uint sig)"
  have r: "2 ^ 23 \<le> r" "r \<le> 2 ^ 24" "r = 2 ^ 24 \<longleftrightarrow> 2 ^ 31 \<le> uint sig + round_incr (2 ^ (7 - 1)) rm s"
    using round_code_range [of "2 ^ (7 - 1)" 7 "2 ^ 23" "uint sig" "2 ^ 24" rm s] n by (simp_all add: r_def)
  have b: "e < 256" "e * 2 ^ 23 + r < 2 ^ 31" "r = 0 \<Longrightarrow> e = 0" using r u by auto
  have "softfloat_roundPackToF32 s e sig st =
    softfloat_roundPackToF32_tail rm (softfloat_roundIncrement 0x40 0x7F rm s) s e sig (ucast (sig AND 0x7F)) st"
    using u e u16_of_pos(1) [of e "0xFD"] add_incr32 [OF n(2), of rm s]
    by (auto simp: softfloat_roundPackToF32_def Let_def rm word_le_uint)
  then show ?thesis using roundPackToF32_tail [OF n(2) e b(1) r_def b(2,3)] by (simp add: r_def)
qed

lemma roundPackToF32_above:
  assumes n: "2 ^ 30 \<le> uint sig" "uint sig < 2 ^ 31" and e: "e < 2 ^ 15"
    and u: "253 < e \<or> e = 253 \<and> 2 ^ 31 \<le> uint sig + round_incr (2 ^ (7 - 1)) rm s"
    and rm: "rm = softfloat_roundingMode st"
  shows "uint (fst (softfloat_roundPackToF32 s e sig st)) =
        enc_make binary32 s 255 0 - of_bool (\<not> away rm s) \<and>
      snd (softfloat_roundPackToF32 s e sig st) = softfloat_raiseFlags
        (softfloat_flag_overflow OR softfloat_flag_inexact) st"
proof -
  define inc where "inc = softfloat_roundIncrement (0x40 :: u8) 0x7F rm s"
  have "uint inc = round_incr 64 rm s" unfolding inc_def by (rule uint_roundIncrement) simp_all
  then have i: "inc = 0 \<longleftrightarrow> \<not> away rm s" using round_incr_zero [of 64 rm s] by (metis uint_eq_0 one_less_numeral_iff semiring_norm(76))
  have t: "softfloat_roundPackToF32 s e sig st =
    (ucast (packToF32UI s 0xFF 0 - of_bool (inc = 0)),
     softfloat_raiseFlags (softfloat_flag_overflow OR softfloat_flag_inexact) st)"
    using u e u16_of_pos(1) [of e "0xFD"] add_incr32 [OF n(2), of rm s]
    by (auto simp: softfloat_roundPackToF32_def Let_def rm word_le_uint inc_def)
  have p: "uint (packToF32UI s 0xFF 0) = enc_make binary32 s 255 0" by (subst uint_packToF32UI) simp_all
  have "uint (packToF32UI s 0xFF 0 - of_bool (inc = 0)) = enc_make binary32 s 255 0 - of_bool (inc = 0)"
    by (subst uint_sub_small) (simp_all add: p uint_of_bool enc_make_def)
  then have "uint (ucast (packToF32UI s 0xFF 0 - of_bool (inc = 0)) :: u32) = enc_make binary32 s 255 0 - of_bool (inc = 0)"
    by (subst uint_ucast_small) (simp_all add: enc_make_def)
  then show ?thesis by (simp add: t i)
qed

interpretation rp32: round_pack binary32 7 softfloat_roundPackToF32
proof unfold_locales
  show "(2::nat) \<le> 7" by simp
  show "1 \<le> fmt_fw binary32" by simp
  show "2 \<le> fmt_ew binary32" by simp
qed (use roundPackToF32_below roundPackToF32_inside roundPackToF32_above in simp_all)

lemma add_incr64:
  assumes "uint (sig :: u64) < 2 ^ 63"
  shows "uint (sig + softfloat_roundIncrement 0x200 0x3FF rm s) = uint sig + round_incr (2 ^ (10 - 1)) rm s"
proof -
  have i: "uint (softfloat_roundIncrement (0x200 :: u64) 0x3FF rm s) = round_incr (2 ^ (10 - 1)) rm s"
    by (rule uint_roundIncrement) simp_all
  show ?thesis unfolding i [symmetric]
    by (rule uint_add_small) (use assms i round_incr_bounds(2) [of 512 rm s] in simp)
qed

lemma roundPackToF64_below:
  assumes n: "2 ^ 62 \<le> uint sig" "uint sig < 2 ^ 63" and e: "- (2 ^ 15) \<le> e" "e < 0"
    and j: "j = jam_shift (nat (- e)) (uint sig)" and rm: "rm = softfloat_roundingMode st"
  shows "uint (fst (softfloat_roundPackToF64 s e sig st)) = enc_make binary64 s 0 (round_code (2 ^ (10 - 1)) rm s j) \<and>
      snd (softfloat_roundPackToF64 s e sig st) = softfloat_raiseFlags
        (if j mod 2 ^ 10 = 0 then 0
         else if softfloat_detectTininess st = softfloat_tininess_beforeRounding \<or> e < - 1
           \<or> uint sig + round_incr (2 ^ (10 - 1)) rm s < 2 ^ 63
         then softfloat_flag_underflow OR softfloat_flag_inexact
         else softfloat_flag_inexact) st"
proof -
  define sj where "sj = softfloat_shiftRightJam64 sig (word_of_int (- e))"
  define inc where "inc = softfloat_roundIncrement (0x200 :: u64) 0x3FF rm s"
  have c: "unat (word_of_int (- e) :: u64) = nat (- e)"
    using e by (intro unat_word_of_int) simp_all
  have sj: "uint sj = j" unfolding sj_def
    using uint_shiftRightJam64 [of "word_of_int (- e)" sig] e n unfolding c by (simp add: j)
  have jr: "0 \<le> j" "j < 2 ^ 62"
  proof -
    show "0 \<le> j" using sj by (metis uint_ge_0)
    have "(2::int) ^ 63 \<le> 2 ^ 62 * 2 ^ nat (- e)"
      using e power_increasing [of 1 "nat (- e)" "2::int"] by simp
    then show "j < 2 ^ 62" unfolding j using n(2) by (subst jam_shift_less) simp_all
  qed
  have r: "round_code (2 ^ (10 - 1)) rm s j \<le> 2 ^ 52"
    using round_code_range(2) [of "2 ^ (10 - 1)" 10 0 j "2 ^ 52" rm s] jr by simp
  have t: "softfloat_roundPackToF64 s e sig st =
    softfloat_roundPackToF64_tail rm inc s 0 sj (sj AND 0x3FF)
      (if (softfloat_detectTininess st = softfloat_tininess_beforeRounding
             \<or> e < -1 \<or> sig + inc < 0x8000000000000000) \<and> (sj AND 0x3FF) \<noteq> 0
       then softfloat_raiseFlags softfloat_flag_underflow st else st)"
    using u16_of_neg [OF e, of 2045 "0x7FD"] e(2)
    by (simp add: softfloat_roundPackToF64_def Let_def rm inc_def sj_def)
  have rb: "(sj AND 0x3FF) \<noteq> 0 \<longleftrightarrow> j mod 2 ^ 10 \<noteq> 0"
    by (subst uint_eq_0 [symmetric]) (simp only: ucast_low_bits sj)
  have "sig + inc < 0x8000000000000000 \<longleftrightarrow> uint sig + round_incr (2 ^ (10 - 1)) rm s < 2 ^ 63"
    unfolding word_less_uint inc_def add_incr64 [OF n(2)] by simp
  then show ?thesis
    unfolding t rb inc_def using roundPackToF64_tail [of sj 0 _ rm s] sj jr r by (simp add: or.commute)
qed

lemma roundPackToF64_inside:
  assumes n: "2 ^ 62 \<le> uint sig" "uint sig < 2 ^ 63" and e: "0 \<le> e"
    and u: "e < 2045 \<or> e = 2045 \<and> uint sig + round_incr (2 ^ (10 - 1)) rm s < 2 ^ 63"
    and rm: "rm = softfloat_roundingMode st"
  shows "uint (fst (softfloat_roundPackToF64 s e sig st)) =
        enc_make binary64 s e (round_code (2 ^ (10 - 1)) rm s (uint sig)) \<and>
      snd (softfloat_roundPackToF64 s e sig st) = softfloat_raiseFlags
        (if uint sig mod 2 ^ 10 = 0 then 0 else softfloat_flag_inexact) st"
proof -
  define r where "r = round_code (2 ^ (10 - 1)) rm s (uint sig)"
  have r: "2 ^ 52 \<le> r" "r \<le> 2 ^ 53" "r = 2 ^ 53 \<longleftrightarrow> 2 ^ 63 \<le> uint sig + round_incr (2 ^ (10 - 1)) rm s"
    using round_code_range [of "2 ^ (10 - 1)" 10 "2 ^ 52" "uint sig" "2 ^ 53" rm s] n by (simp_all add: r_def)
  have b: "e < 2048" "e * 2 ^ 52 + r < 2 ^ 63" "r = 0 \<Longrightarrow> e = 0" using r u by auto
  have "softfloat_roundPackToF64 s e sig st =
    softfloat_roundPackToF64_tail rm (softfloat_roundIncrement 0x200 0x3FF rm s) s e sig (sig AND 0x3FF) st"
    using u e u16_of_pos(1) [of e "0x7FD"] add_incr64 [OF n(2), of rm s]
    by (auto simp: softfloat_roundPackToF64_def Let_def rm word_le_uint)
  then show ?thesis using roundPackToF64_tail [OF n(2) e b(1) r_def b(2,3)] by (simp add: r_def)
qed

lemma roundPackToF64_above:
  assumes n: "2 ^ 62 \<le> uint sig" "uint sig < 2 ^ 63" and e: "e < 2 ^ 15"
    and u: "2045 < e \<or> e = 2045 \<and> 2 ^ 63 \<le> uint sig + round_incr (2 ^ (10 - 1)) rm s"
    and rm: "rm = softfloat_roundingMode st"
  shows "uint (fst (softfloat_roundPackToF64 s e sig st)) =
        enc_make binary64 s 2047 0 - of_bool (\<not> away rm s) \<and>
      snd (softfloat_roundPackToF64 s e sig st) = softfloat_raiseFlags
        (softfloat_flag_overflow OR softfloat_flag_inexact) st"
proof -
  define inc where "inc = softfloat_roundIncrement (0x200 :: u64) 0x3FF rm s"
  have "uint inc = round_incr 512 rm s" unfolding inc_def by (rule uint_roundIncrement) simp_all
  then have i: "inc = 0 \<longleftrightarrow> \<not> away rm s" using round_incr_zero [of 512 rm s] by (metis uint_eq_0 one_less_numeral_iff semiring_norm(76))
  have t: "softfloat_roundPackToF64 s e sig st =
    (packToF64UI s 0x7FF 0 - of_bool (inc = 0),
     softfloat_raiseFlags (softfloat_flag_overflow OR softfloat_flag_inexact) st)"
    using u e u16_of_pos(1) [of e "0x7FD"] add_incr64 [OF n(2), of rm s]
    by (auto simp: softfloat_roundPackToF64_def Let_def rm word_le_uint inc_def)
  have p: "uint (packToF64UI s 0x7FF 0) = enc_make binary64 s 2047 0" by (subst uint_packToF64UI) simp_all
  have "uint (packToF64UI s 0x7FF 0 - of_bool (inc = 0)) = enc_make binary64 s 2047 0 - of_bool (inc = 0)"
    by (subst uint_sub_small) (simp_all add: p uint_of_bool enc_make_def)
  then show ?thesis by (simp add: t i)
qed

interpretation rp64: round_pack binary64 10 softfloat_roundPackToF64
proof unfold_locales
  show "(2::nat) \<le> 10" by simp
  show "1 \<le> fmt_fw binary64" by simp
  show "2 \<le> fmt_ew binary64" by simp
qed (use roundPackToF64_below roundPackToF64_inside roundPackToF64_above in simp_all)

section \<open>Fields and normalisation\<close>

lemma and_FF: "w AND 0xFF = take_bit 8 (w :: u64)" using and_low_mask [of w 8] by simp

lemma and_7FF: "w AND 0x7FF = take_bit 11 (w :: u64)" using and_low_mask [of w 11] by simp

lemma and_frac32: "w AND 0x007FFFFF = take_bit 23 (w :: u64)" using and_low_mask [of w 23] by simp

lemma and_frac64: "w AND 0x000FFFFFFFFFFFFF = take_bit 52 (w :: u64)" using and_low_mask [of w 52] by simp

lemma expF32UI_enc: "expF32UI w = enc_exp binary32 (uint w)"
  by (simp add: expF32UI_def and_FF uint_take uint_drop enc_exp_def)

lemma fracF32UI_enc: "uint (fracF32UI w) = enc_frac binary32 (uint w)"
  by (simp add: fracF32UI_def and_frac32 uint_take enc_frac_def)

lemma expF64UI_enc: "expF64UI w = enc_exp binary64 (uint w)"
  by (simp add: expF64UI_def and_7FF uint_take uint_drop enc_exp_def)

lemma fracF64UI_enc: "uint (fracF64UI w) = enc_frac binary64 (uint w)"
  by (simp add: fracF64UI_def and_frac64 uint_take enc_frac_def)

lemma half_range: "0 \<le> u \<Longrightarrow> u < 2 * h \<Longrightarrow> 0 < (h::int) \<Longrightarrow> u div h mod 2 = 1 \<longleftrightarrow> u div h \<noteq> 0"
proof -
  assume a: "0 \<le> u" "u < 2 * h" "0 < h"
  have "u div h < 2" using a by (simp add: int_div_less_iff)
  moreover have "0 \<le> u div h" using a by (simp add: pos_imp_zdiv_nonneg_iff)
  ultimately show ?thesis by auto
qed

lemma signF32UI_enc: "uint w < 2 ^ 32 \<Longrightarrow> signF32UI w = enc_sign binary32 (uint w)"
proof -
  assume w: "uint w < 2 ^ 32"
  have "signF32UI w \<longleftrightarrow> uint (drop_bit 31 (ucast w :: u32)) \<noteq> 0" by (simp only: signF32UI_def uint_eq_0)
  also have "\<dots> \<longleftrightarrow> uint w div 2 ^ 31 \<noteq> 0" using w by (simp add: uint_drop uint_ucast_small)
  finally show ?thesis using half_range [of "uint w" "2 ^ 31"] w by (simp add: enc_sign_def)
qed

lemma signF64UI_enc: "signF64UI w = enc_sign binary64 (uint w)"
proof -
  have "signF64UI w \<longleftrightarrow> uint (drop_bit 63 w) \<noteq> 0" by (simp only: signF64UI_def uint_eq_0)
  also have "\<dots> \<longleftrightarrow> uint w div 2 ^ 63 \<noteq> 0" by (simp add: uint_drop)
  finally show ?thesis using half_range [of "uint w" "2 ^ 63"] uint_lt2p [of w] by (simp add: enc_sign_def)
qed

lemma normSubnormalF32Sig:
  assumes "0 < uint sig" "uint sig < 2 ^ 23"
  obtains c where "c \<le> 23" "norm_exp (softfloat_normSubnormalF32Sig sig) = 1 - int c"
    "uint (norm_sig (softfloat_normSubnormalF32Sig sig)) = uint sig * 2 ^ c"
    "2 ^ 23 \<le> uint sig * 2 ^ c" "uint sig * 2 ^ c < 2 ^ 24"
proof -
  have u: "uint (ucast sig :: u32) = uint sig" using assms by (simp add: uint_ucast_small)
  then have "(ucast sig :: u32) \<noteq> 0" using assms by (metis less_irrefl uint_eq_0)
  from countLeadingZeros32 [OF this] obtain d where d: "d \<le> 31"
    "uint (softfloat_countLeadingZeros32 (ucast sig)) = int d" "2 ^ 31 \<le> uint sig * 2 ^ d" "uint sig * 2 ^ d < 2 ^ 32"
    unfolding u by metis
  have d8: "8 \<le> d"
  proof (rule ccontr)
    assume "\<not> 8 \<le> d"
    then have "(2::int) ^ d \<le> 2 ^ 7" by (intro power_increasing) simp_all
    then have "uint sig * 2 ^ d \<le> uint sig * 2 ^ 7" by (intro mult_left_mono) simp_all
    then show False using d(3) assms(2) by simp
  qed
  then have p: "(2::int) ^ d = 2 ^ (d - 8) * 2 ^ 8" by (subst power_add [symmetric]) simp
  have r: "2 ^ 23 \<le> uint sig * 2 ^ (d - 8)" "uint sig * 2 ^ (d - 8) < 2 ^ 24"
    using d(3,4) unfolding p by simp_all
  have "nat (int d - 8) = d - 8" by simp
  then show thesis
    by (intro that [of "d - 8"]) (use d d8 r in \<open>simp_all add: softfloat_normSubnormalF32Sig_def Let_def uint_push_small\<close>)
qed

lemma normSubnormalF64Sig:
  assumes "0 < uint sig" "uint sig < 2 ^ 52"
  obtains c where "c \<le> 52" "norm_exp (softfloat_normSubnormalF64Sig sig) = 1 - int c"
    "uint (norm_sig (softfloat_normSubnormalF64Sig sig)) = uint sig * 2 ^ c"
    "2 ^ 52 \<le> uint sig * 2 ^ c" "uint sig * 2 ^ c < 2 ^ 53"
proof -
  have "sig \<noteq> 0" using assms by auto
  from countLeadingZeros64 [OF this] obtain d where d: "d \<le> 63"
    "uint (softfloat_countLeadingZeros64 sig) = int d" "2 ^ 63 \<le> uint sig * 2 ^ d" "uint sig * 2 ^ d < 2 ^ 64" .
  have d8: "11 \<le> d"
  proof (rule ccontr)
    assume "\<not> 11 \<le> d"
    then have "(2::int) ^ d \<le> 2 ^ 10" by (intro power_increasing) simp_all
    then have "uint sig * 2 ^ d \<le> uint sig * 2 ^ 10" by (intro mult_left_mono) simp_all
    then show False using d(3) assms(2) by simp
  qed
  then have p: "(2::int) ^ d = 2 ^ (d - 11) * 2 ^ 11" by (subst power_add [symmetric]) simp
  have r: "2 ^ 52 \<le> uint sig * 2 ^ (d - 11)" "uint sig * 2 ^ (d - 11) < 2 ^ 53"
    using d(3,4) unfolding p by simp_all
  have "nat (int d - 11) = d - 11" by simp
  then show thesis
    by (intro that [of "d - 11"]) (use d d8 r in \<open>simp_all add: softfloat_normSubnormalF64Sig_def Let_def uint_push_small\<close>)
qed

section \<open>Normalising, rounding and packing is correct\<close>

lemma push_decomp:
  assumes "uint (push_bit c (w :: 'a::len word)) = uint w * 2 ^ c" "j \<le> c"
  shows "uint (push_bit (c - j) w) = uint w * 2 ^ (c - j)" "uint (push_bit c w) = uint w * 2 ^ (c - j) * 2 ^ j"
proof -
  have p: "(2::int) ^ c = 2 ^ (c - j) * 2 ^ j" using assms(2) by (simp flip: power_add)
  then show b: "uint (push_bit c w) = uint w * 2 ^ (c - j) * 2 ^ j" by (simp add: assms(1))
  have "uint w * 2 ^ (c - j) * 1 \<le> uint w * 2 ^ (c - j) * 2 ^ j" by (intro mult_left_mono) simp_all
  then have "uint w * 2 ^ (c - j) < 2 ^ LENGTH('a)" using b uint_lt2p [of "push_bit c w"] by linarith
  then show "uint (push_bit (c - j) w) = uint w * 2 ^ (c - j)" by (rule uint_push_small)
qed

lemma u16_small: "- (2 ^ 15) \<le> e \<Longrightarrow> e < 2 ^ 15 \<Longrightarrow> uint (c :: u16) \<le> 2 ^ 15 \<Longrightarrow>
    (word_of_int e :: u16) < c \<longleftrightarrow> 0 \<le> e \<and> e < uint c"
  using u16_of_neg [of e "uint c" c] u16_of_pos(2) [of e c] by (cases "e < 0") auto

lemma normRoundPackToF32_law:
  assumes n: "0 < uint sig" "uint sig < 2 ^ 31" and e: "- (2 ^ 14) \<le> e" "e < 2 ^ 15"
  shows "\<exists>c \<le> 63. 2 ^ 30 \<le> uint sig * 2 ^ c \<and> uint sig * 2 ^ c < 2 ^ 31 \<and>
        uint (push_bit c sig) = uint sig * 2 ^ c \<and>
        softfloat_normRoundPackToF32 s e sig st = softfloat_roundPackToF32 s (e - int c) (push_bit c sig) st"
proof -
  have u: "uint (ucast sig :: u32) = uint sig" using n by (simp add: uint_ucast_small)
  then have "(ucast sig :: u32) \<noteq> 0" using n by (metis less_irrefl uint_eq_0)
  from countLeadingZeros32 [OF this] obtain d where d: "d \<le> 31"
    "uint (softfloat_countLeadingZeros32 (ucast sig)) = int d" "2 ^ 31 \<le> uint sig * 2 ^ d" "uint sig * 2 ^ d < 2 ^ 32"
    unfolding u by metis
  have "d \<noteq> 0" using d(3) n(2) by (intro notI) simp
  define c where "c = d - 1"
  have dc: "d = Suc c" using \<open>d \<noteq> 0\<close> by (simp add: c_def)
  have r: "2 ^ 30 \<le> uint sig * 2 ^ c" "uint sig * 2 ^ c < 2 ^ 31" using d(3,4) by (simp_all add: dc)
  then have pc: "uint (push_bit c sig) = uint sig * 2 ^ c" by (intro uint_push_small) simp
  have nr: "softfloat_normRoundPackToF32 s e sig st =
     (if 7 \<le> c \<and> (word_of_int (e - int c) :: u16) < 0xFD
      then (ucast (packToF32UI s (e - int c) (push_bit (c - 7) sig)), st)
      else softfloat_roundPackToF32 s (e - int c) (push_bit c sig) st)"
    using d(2) dc n(1) by (auto simp: softfloat_normRoundPackToF32_def Let_def nat_diff_distrib)
  have "softfloat_normRoundPackToF32 s e sig st = softfloat_roundPackToF32 s (e - int c) (push_bit c sig) st"
  proof (cases "7 \<le> c \<and> (word_of_int (e - int c) :: u16) < 0xFD")
    case True
    then have er: "0 \<le> e - int c" "e - int c < 253"
      using u16_small [of "e - int c" "0xFD"] e d(1) by (auto simp: c_def)
    define m where "m = uint sig * 2 ^ (c - 7)"
    have m: "uint (push_bit (c - 7) sig) = m" "uint (push_bit c sig) = m * (2 * 2 ^ (7 - 1))"
      using push_decomp [OF pc, of 7] True by (simp_all add: m_def)
    have z: "uint (push_bit c sig) mod 2 ^ 7 = 0" unfolding m(2) by simp
    have mr: "m < 2 ^ 24" using m(2) r pc by simp
    have "uint (fst (softfloat_roundPackToF32 s (e - int c) (push_bit c sig) st)) = enc_make binary32 s (e - int c) m"
      "snd (softfloat_roundPackToF32 s (e - int c) (push_bit c sig) st) = st"
      using roundPackToF32_inside [of "push_bit c sig" "e - int c" _ s st, OF _ _ er(1)] r pc er m(2) z
        round_code_exact [of "2 ^ (7 - 1)" _ s m] by simp_all
    moreover have "uint (ucast (packToF32UI s (e - int c) (push_bit (c - 7) sig)) :: u32) = enc_make binary32 s (e - int c) m"
      unfolding m(1) [symmetric] by (rule uint_packToF32UI(2)) (use er mr m(1) in simp_all)
    ultimately show ?thesis using True nr by (auto intro!: prod_eqI simp: word_uint_eq_iff)
  next
    case False
    show ?thesis unfolding nr if_not_P [OF False] ..
  qed
  then show ?thesis using r pc d(1) dc by (intro exI [of _ c]) simp
qed

lemma normRoundPackToF64_law:
  assumes n: "0 < uint sig" "uint sig < 2 ^ 63" and e: "- (2 ^ 14) \<le> e" "e < 2 ^ 15"
  shows "\<exists>c \<le> 63. 2 ^ 62 \<le> uint sig * 2 ^ c \<and> uint sig * 2 ^ c < 2 ^ 63 \<and>
        uint (push_bit c sig) = uint sig * 2 ^ c \<and>
        softfloat_normRoundPackToF64 s e sig st = softfloat_roundPackToF64 s (e - int c) (push_bit c sig) st"
proof -
  have "sig \<noteq> 0" using n by auto
  from countLeadingZeros64 [OF this] obtain d where d: "d \<le> 63"
    "uint (softfloat_countLeadingZeros64 sig) = int d" "2 ^ 63 \<le> uint sig * 2 ^ d" "uint sig * 2 ^ d < 2 ^ 64" .
  have "d \<noteq> 0" using d(3) n(2) by (intro notI) simp
  define c where "c = d - 1"
  have dc: "d = Suc c" using \<open>d \<noteq> 0\<close> by (simp add: c_def)
  have r: "2 ^ 62 \<le> uint sig * 2 ^ c" "uint sig * 2 ^ c < 2 ^ 63" using d(3,4) by (simp_all add: dc)
  then have pc: "uint (push_bit c sig) = uint sig * 2 ^ c" by (intro uint_push_small) simp
  have nr: "softfloat_normRoundPackToF64 s e sig st =
     (if 10 \<le> c \<and> (word_of_int (e - int c) :: u16) < 0x7FD
      then (packToF64UI s (e - int c) (push_bit (c - 10) sig), st)
      else softfloat_roundPackToF64 s (e - int c) (push_bit c sig) st)"
    using d(2) dc n(1) by (auto simp: softfloat_normRoundPackToF64_def Let_def nat_diff_distrib)
  have "softfloat_normRoundPackToF64 s e sig st = softfloat_roundPackToF64 s (e - int c) (push_bit c sig) st"
  proof (cases "10 \<le> c \<and> (word_of_int (e - int c) :: u16) < 0x7FD")
    case True
    then have er: "0 \<le> e - int c" "e - int c < 2045"
      using u16_small [of "e - int c" "0x7FD"] e d(1) by (auto simp: c_def)
    define m where "m = uint sig * 2 ^ (c - 10)"
    have m: "uint (push_bit (c - 10) sig) = m" "uint (push_bit c sig) = m * (2 * 2 ^ (10 - 1))"
      using push_decomp [OF pc, of 10] True by (simp_all add: m_def)
    have z: "uint (push_bit c sig) mod 2 ^ 10 = 0" unfolding m(2) by simp
    have mr: "m < 2 ^ 53" using m(2) r pc by simp
    have "uint (fst (softfloat_roundPackToF64 s (e - int c) (push_bit c sig) st)) = enc_make binary64 s (e - int c) m"
      "snd (softfloat_roundPackToF64 s (e - int c) (push_bit c sig) st) = st"
      using roundPackToF64_inside [of "push_bit c sig" "e - int c" _ s st, OF _ _ er(1)] r pc er m(2) z
        round_code_exact [of "2 ^ (10 - 1)" _ s m] by simp_all
    moreover have "uint (packToF64UI s (e - int c) (push_bit (c - 10) sig)) = enc_make binary64 s (e - int c) m"
      unfolding m(1) [symmetric] by (rule uint_packToF64UI) (use er mr m(1) in simp_all)
    ultimately show ?thesis using True nr by (auto intro!: prod_eqI simp: word_uint_eq_iff)
  next
    case False
    show ?thesis unfolding nr if_not_P [OF False] ..
  qed
  then show ?thesis using r pc d(1) dc by (intro exI [of _ c]) simp
qed

interpretation np32: norm_round_pack binary32 7 softfloat_roundPackToF32 softfloat_normRoundPackToF32
  by unfold_locales (use normRoundPackToF32_law in simp_all)

interpretation np64: norm_round_pack binary64 10 softfloat_roundPackToF64 softfloat_normRoundPackToF64
  by unfold_locales (use normRoundPackToF64_law in simp_all)

section \<open>NaN operands and alignment shifts\<close>

lemma isSigNaNF32UI_enc: "softfloat_isSigNaNF32UI w = enc_snan binary32 (uint w)"
proof -
  have a: "uint (w AND 0x7FC00000) = uint w div 2 ^ 22 mod 2 ^ 9 * 2 ^ 22" by (rule uint_and_field) simp_all
  have "w AND 0x003FFFFF = take_bit 22 w" using and_low_mask [of w 22] by simp
  then have b: "uint (w AND 0x003FFFFF) = uint w mod 2 ^ 22" by (simp add: uint_take)
  have "softfloat_isSigNaNF32UI w \<longleftrightarrow> uint (w AND 0x7FC00000) = 0x7F800000 \<and> uint (w AND 0x003FFFFF) \<noteq> 0"
    unfolding softfloat_isSigNaNF32UI_def word_eq_uint [of "w AND 0x7FC00000"] uint_eq_0 by simp
  then show ?thesis unfolding a b by (subst enc_snan_iff [of _ 22]) simp_all
qed

lemma isSigNaNF64UI_enc: "softfloat_isSigNaNF64UI w = enc_snan binary64 (uint w)"
proof -
  have a: "uint (w AND 0x7FF8000000000000) = uint w div 2 ^ 51 mod 2 ^ 12 * 2 ^ 51" by (rule uint_and_field) simp_all
  have "w AND 0x0007FFFFFFFFFFFF = take_bit 51 w" using and_low_mask [of w 51] by simp
  then have b: "uint (w AND 0x0007FFFFFFFFFFFF) = uint w mod 2 ^ 51" by (simp add: uint_take)
  have "softfloat_isSigNaNF64UI w \<longleftrightarrow> uint (w AND 0x7FF8000000000000) = 0x7FF0000000000000 \<and> uint (w AND 0x0007FFFFFFFFFFFF) \<noteq> 0"
    unfolding softfloat_isSigNaNF64UI_def word_eq_uint [of "w AND 0x7FF8000000000000"] uint_eq_0 by simp
  then show ?thesis unfolding a b by (subst enc_snan_iff [of _ 51]) simp_all
qed

lemma propagateNaNF32UI_result:
  "nan_result binary32 (enc_snan binary32 (uint uiA) \<or> enc_snan binary32 (uint uiB)) st
    (let (uiZ, st) = softfloat_propagateNaNF32UI uiA uiB st in (ucast uiZ :: u32, st))"
  by (simp add: nan_result_def softfloat_propagateNaNF32UI_def isSigNaNF32UI_enc enc_make_def)

lemma propagateNaNF64UI_result:
  "nan_result binary64 (enc_snan binary64 (uint uiA) \<or> enc_snan binary64 (uint uiB)) st
    (softfloat_propagateNaNF64UI uiA uiB st)"
  by (simp add: nan_result_def softfloat_propagateNaNF64UI_def isSigNaNF64UI_enc enc_make_def)

lemma uint_jam32:
  assumes "1 \<le> d" "d < 2 ^ 32" "uint w < 2 ^ 32"
  shows "uint (ucast (softfloat_shiftRightJam32 (ucast w) (word_of_int d)) :: u64) = jam_shift (nat d) (uint (w :: u64))"
proof -
  have "unat (word_of_int d :: u64) = nat d" using assms by (intro unat_word_of_int) simp_all
  then show ?thesis using assms uint_shiftRightJam32 [of "word_of_int d" "ucast w"]
    by (simp add: uint_ucast_up uint_ucast_small)
qed

lemma uint_jam64:
  assumes "1 \<le> d" "d < 2 ^ 32"
  shows "uint (softfloat_shiftRightJam64 w (word_of_int d)) = jam_shift (nat d) (uint w)"
proof -
  have "unat (word_of_int d :: u64) = nat d" using assms by (intro unat_word_of_int) simp_all
  then show ?thesis using assms uint_shiftRightJam64 [of "word_of_int d" w] by simp
qed

section \<open>Normalised arguments\<close>

text \<open>
  The block \<^verbatim>\<open>if ( ! expA ) { normExpSig = softfloat_normSubnormalF32Sig( sigA ); ... }\<close> with
  which the multiplicative operations normalise an argument that is not zero.
\<close>

definition softfloat_normArgF32 :: "int \<Rightarrow> u64 \<Rightarrow> int \<times> u64" where
  "softfloat_normArgF32 e sig =
     (if e = 0
      then let normExpSig = softfloat_normSubnormalF32Sig sig in (norm_exp normExpSig, norm_sig normExpSig)
      else (e, sig))"

definition softfloat_normArgF64 :: "int \<Rightarrow> u64 \<Rightarrow> int \<times> u64" where
  "softfloat_normArgF64 e sig =
     (if e = 0
      then let normExpSig = softfloat_normSubnormalF64Sig sig in (norm_exp normExpSig, norm_sig normExpSig)
      else (e, sig))"

lemma fracF32UI_zero: "fracF32UI w = 0 \<longleftrightarrow> enc_frac binary32 (uint w) = 0"
  using fracF32UI_enc [of w] uint_eq_0 [of "fracF32UI w"] by simp

lemma exp_or_frac32: "(word_of_int (expF32UI w) OR fracF32UI w :: u64) = 0 \<longleftrightarrow> enc_zero binary32 (uint w)"
proof -
  have "uint (word_of_int (expF32UI w) :: u64) = expF32UI w"
    using enc_field_range(1,2) [of binary32 "uint w"] by (simp add: uint_word_of_int expF32UI_enc)
  then have "(word_of_int (expF32UI w) :: u64) = 0 \<longleftrightarrow> expF32UI w = 0" by (metis uint_eq_0)
  then show ?thesis by (simp add: or_eq_0_iff fracF32UI_zero enc_zero_def expF32UI_enc)
qed

lemma uint_or_hidden32: "uint w < 2 ^ 23 \<Longrightarrow> uint (w OR 0x00800000 :: u64) = 2 ^ 23 + uint w"
  using uint_or_disjoint [of "0x00800000 :: u64" 23 w] by (simp add: or.commute)

lemma or_hidden32_id: "2 ^ 23 \<le> uint w \<Longrightarrow> uint w < 2 ^ 24 \<Longrightarrow> w OR 0x00800000 = (w :: u64)"
  using or_top_bit [of 23 w] by simp

lemma normArgF32:
  assumes "\<not> enc_zero binary32 (uint w)" "softfloat_normArgF32 (expF32UI w) (fracF32UI w) = (e, s)"
  shows "norm_operand binary32 (uint w) e (uint (s OR 0x00800000))"
proof (cases "expF32UI w = 0")
  case True
  then have E: "enc_exp binary32 (uint w) = 0" by (simp add: expF32UI_enc)
  have "0 < uint (fracF32UI w)" "uint (fracF32UI w) < 2 ^ 23"
    using assms(1) E enc_field_range(3,4) [of binary32 "uint w"] by (auto simp: enc_zero_def fracF32UI_enc)
  from normSubnormalF32Sig [OF this] obtain c where c: "c \<le> 23" "e = 1 - int c"
    "uint s = uint (fracF32UI w) * 2 ^ c" "2 ^ 23 \<le> uint s" "uint s < 2 ^ 24"
    using assms(2) True by (auto simp: softfloat_normArgF32_def Let_def)
  show ?thesis using norm_operand_subnormal [OF E, of c] c by (simp add: or_hidden32_id fracF32UI_enc)
next
  case False
  then have "e = enc_exp binary32 (uint w)" "s = fracF32UI w" "enc_exp binary32 (uint w) \<noteq> 0"
    using assms(2) by (simp_all add: softfloat_normArgF32_def expF32UI_enc)
  moreover have "uint (fracF32UI w) < 2 ^ 23" using enc_field_range(4) [of binary32 "uint w"] by (simp add: fracF32UI_enc)
  ultimately show ?thesis using norm_operand_normal [of binary32 "uint w"] by (simp add: uint_or_hidden32 fracF32UI_enc)
qed

lemma fracF64UI_zero: "fracF64UI w = 0 \<longleftrightarrow> enc_frac binary64 (uint w) = 0"
  using fracF64UI_enc [of w] uint_eq_0 [of "fracF64UI w"] by simp

lemma exp_or_frac64: "(word_of_int (expF64UI w) OR fracF64UI w :: u64) = 0 \<longleftrightarrow> enc_zero binary64 (uint w)"
proof -
  have "uint (word_of_int (expF64UI w) :: u64) = expF64UI w"
    using enc_field_range(1,2) [of binary64 "uint w"] by (simp add: uint_word_of_int expF64UI_enc)
  then have "(word_of_int (expF64UI w) :: u64) = 0 \<longleftrightarrow> expF64UI w = 0" by (metis uint_eq_0)
  then show ?thesis by (simp add: or_eq_0_iff fracF64UI_zero enc_zero_def expF64UI_enc)
qed

lemma uint_or_hidden64: "uint w < 2 ^ 52 \<Longrightarrow> uint (w OR 0x0010000000000000 :: u64) = 2 ^ 52 + uint w"
  using uint_or_disjoint [of "0x0010000000000000 :: u64" 52 w] by (simp add: or.commute)

lemma or_hidden64_id: "2 ^ 52 \<le> uint w \<Longrightarrow> uint w < 2 ^ 53 \<Longrightarrow> w OR 0x0010000000000000 = (w :: u64)"
  using or_top_bit [of 52 w] by simp

lemma normArgF64:
  assumes "\<not> enc_zero binary64 (uint w)" "softfloat_normArgF64 (expF64UI w) (fracF64UI w) = (e, s)"
  shows "norm_operand binary64 (uint w) e (uint (s OR 0x0010000000000000))"
proof (cases "expF64UI w = 0")
  case True
  then have E: "enc_exp binary64 (uint w) = 0" by (simp add: expF64UI_enc)
  have "0 < uint (fracF64UI w)" "uint (fracF64UI w) < 2 ^ 52"
    using assms(1) E enc_field_range(3,4) [of binary64 "uint w"] by (auto simp: enc_zero_def fracF64UI_enc)
  from normSubnormalF64Sig [OF this] obtain c where c: "c \<le> 52" "e = 1 - int c"
    "uint s = uint (fracF64UI w) * 2 ^ c" "2 ^ 52 \<le> uint s" "uint s < 2 ^ 53"
    using assms(2) True by (auto simp: softfloat_normArgF64_def Let_def)
  show ?thesis using norm_operand_subnormal [OF E, of c] c by (simp add: or_hidden64_id fracF64UI_enc)
next
  case False
  then have "e = enc_exp binary64 (uint w)" "s = fracF64UI w" "enc_exp binary64 (uint w) \<noteq> 0"
    using assms(2) by (simp_all add: softfloat_normArgF64_def expF64UI_enc)
  moreover have "uint (fracF64UI w) < 2 ^ 52" using enc_field_range(4) [of binary64 "uint w"] by (simp add: fracF64UI_enc)
  ultimately show ?thesis using norm_operand_normal [of binary64 "uint w"] by (simp add: uint_or_hidden64 fracF64UI_enc)
qed

end
