(* ===== verification/Softfloat_Add.thy ===== *)
theory Softfloat_Add
  imports Softfloat_Round
begin

text \<open>
  Addition and subtraction: \<^verbatim>\<open>f32_add.c\<close>, \<^verbatim>\<open>f32_sub.c\<close>, \<^verbatim>\<open>s_addMagsF32.c\<close>, \<^verbatim>\<open>s_subMagsF32.c\<close> and
  the files of the double-precision format. Labels reached by \<^verbatim>\<open>goto\<close> are local names
  (\<open>propagateNaN\<close>, \<open>aBigger\<close>, \<open>bBigger\<close>), \<^verbatim>\<open>INLINE_LEVEL\<close> is 5 as in \<^verbatim>\<open>platform.h\<close>.
  Both operations are shown to give the correctly rounded IEEE 754 result with the right
  flags for all operands, rounding modes and tininess modes.
\<close>

section \<open>Single precision\<close>

definition softfloat_addMagsF32 ::
  "u64 \<Rightarrow> u64 \<Rightarrow> bool \<Rightarrow> softfloat_state \<Rightarrow> u32 \<times> softfloat_state" where
  "softfloat_addMagsF32 uiA uiB signZ st =
     (let expA = expF32UI uiA; sigA = fracF32UI uiA;
          expB = expF32UI uiB; sigB = fracF32UI uiB;
          expDiff = expA - expB;
          sigA = push_bit 6 sigA; sigB = push_bit 6 sigB;
          propagateNaN = (let (uiZ, st) = softfloat_propagateNaNF32UI uiA uiB st in (ucast uiZ, st));
          finish = (\<lambda>expZ sigA sigB.
            let sigZ = 0x20000000 + sigA + sigB;
                (expZ, sigZ) = (if sigZ < 0x40000000 then (expZ - 1, push_bit 1 sigZ) else (expZ, sigZ))
            in softfloat_roundPackToF32 signZ expZ sigZ st)
      in if expDiff = 0
         then if expA = 0xFF
              then if sigA OR sigB \<noteq> 0 then propagateNaN else (ucast uiA, st)
              else if expA = 0
              then (ucast (packToF32UI signZ 0 ((uiA + uiB) AND 0x7FFFFFFF)), st)
              else softfloat_roundPackToF32 signZ expA (0x40000000 + sigA + sigB) st
         else if expDiff < 0
         then if expB = 0xFF
              then if sigB \<noteq> 0 then propagateNaN else (ucast (packToF32UI signZ 0xFF 0), st)
              else let sigA = sigA + (if expA \<noteq> 0 then 0x20000000 else sigA);
                       sigA = ucast (softfloat_shiftRightJam32 (ucast sigA) (word_of_int (- expDiff)))
                   in finish expB sigA sigB
         else if expA = 0xFF
              then if sigA \<noteq> 0 then propagateNaN else (ucast uiA, st)
              else let sigB = sigB + (if expB \<noteq> 0 then 0x20000000 else sigB);
                       sigB = ucast (softfloat_shiftRightJam32 (ucast sigB) (word_of_int expDiff))
                   in finish expA sigA sigB)"

definition softfloat_subMagsF32 ::
  "u64 \<Rightarrow> u64 \<Rightarrow> bool \<Rightarrow> softfloat_state \<Rightarrow> u32 \<times> softfloat_state" where
  "softfloat_subMagsF32 uiA uiB signZ st =
     (let expA = expF32UI uiA; sigA = fracF32UI uiA;
          expB = expF32UI uiB; sigB = fracF32UI uiB;
          expDiff = expA - expB;
          sigA = push_bit 7 sigA; sigB = push_bit 7 sigB;
          propagateNaN = (let (uiZ, st) = softfloat_propagateNaNF32UI uiA uiB st in (ucast uiZ, st));
          bBigger = (\<lambda>expB sigA sigB. softfloat_normRoundPackToF32 (\<not> signZ) (expB - 1) (sigB - sigA) st);
          aBigger = (\<lambda>expA sigA sigB. softfloat_normRoundPackToF32 signZ (expA - 1) (sigA - sigB) st)
      in if 0 < expDiff
         then if expA = 0xFF
              then if sigA \<noteq> 0 then propagateNaN else (ucast uiA, st)
              else let sigB = sigB + (if expB \<noteq> 0 then 0x40000000 else sigB);
                       sigB = ucast (softfloat_shiftRightJam32 (ucast sigB) (word_of_int expDiff));
                       sigA = sigA OR 0x40000000
                   in aBigger expA sigA sigB
         else if expDiff < 0
         then if expB = 0xFF
              then if sigB \<noteq> 0 then propagateNaN
                   else (ucast (packToF32UI (\<not> signZ) 0xFF 0), st)
              else let sigA = sigA + (if expA \<noteq> 0 then 0x40000000 else sigA);
                       sigA = ucast (softfloat_shiftRightJam32 (ucast sigA) (word_of_int (- expDiff)));
                       sigB = sigB OR 0x40000000
                   in bBigger expB sigA sigB
         else if expA = 0xFF
         then if sigA OR sigB \<noteq> 0 then propagateNaN
              else (ucast defaultNaNF32UI, softfloat_raiseFlags softfloat_flag_invalid st)
         else let (expA, expB) = (if expA = 0 then (1, 1) else (expA, expB))
              in if sigB < sigA then aBigger expA sigA sigB
                 else if sigA < sigB then bBigger expB sigA sigB
                 else (ucast (packToF32UI (softfloat_roundingMode st = softfloat_round_min) 0 0), st))"

definition f32_add :: "u32 \<Rightarrow> u32 \<Rightarrow> softfloat_state \<Rightarrow> u32 \<times> softfloat_state" where
  "f32_add a b st =
     (let uiA = ucast a; signA = signF32UI uiA; uiB = ucast b; signB = signF32UI uiB
      in if signA = signB then softfloat_addMagsF32 uiA uiB signA st
         else softfloat_subMagsF32 uiA uiB signA st)"

definition f32_sub :: "u32 \<Rightarrow> u32 \<Rightarrow> softfloat_state \<Rightarrow> u32 \<times> softfloat_state" where
  "f32_sub a b st =
     (let uiA = ucast a; signA = signF32UI uiA; uiB = ucast b; signB = signF32UI uiB
      in if signA = signB then softfloat_subMagsF32 uiA uiB signA st
         else softfloat_addMagsF32 uiA uiB signA st)"

section \<open>Double precision\<close>

definition softfloat_addMagsF64 ::
  "u64 \<Rightarrow> u64 \<Rightarrow> bool \<Rightarrow> softfloat_state \<Rightarrow> u64 \<times> softfloat_state" where
  "softfloat_addMagsF64 uiA uiB signZ st =
     (let expA = expF64UI uiA; sigA = fracF64UI uiA;
          expB = expF64UI uiB; sigB = fracF64UI uiB;
          expDiff = expA - expB;
          sigA = push_bit 9 sigA; sigB = push_bit 9 sigB;
          propagateNaN = softfloat_propagateNaNF64UI uiA uiB st;
          finish = (\<lambda>expZ sigA sigB.
            let sigZ = 0x2000000000000000 + sigA + sigB;
                (expZ, sigZ) = (if sigZ < 0x4000000000000000 then (expZ - 1, push_bit 1 sigZ) else (expZ, sigZ))
            in softfloat_roundPackToF64 signZ expZ sigZ st)
      in if expDiff = 0
         then if expA = 0x7FF
              then if sigA OR sigB \<noteq> 0 then propagateNaN else (uiA, st)
              else if expA = 0
              then (packToF64UI signZ 0 ((uiA + uiB) AND 0x7FFFFFFFFFFFFFFF), st)
              else softfloat_roundPackToF64 signZ expA (0x4000000000000000 + sigA + sigB) st
         else if expDiff < 0
         then if expB = 0x7FF
              then if sigB \<noteq> 0 then propagateNaN else (packToF64UI signZ 0x7FF 0, st)
              else let sigA = sigA + (if expA \<noteq> 0 then 0x2000000000000000 else sigA);
                       sigA = softfloat_shiftRightJam64 sigA (word_of_int (- expDiff))
                   in finish expB sigA sigB
         else if expA = 0x7FF
              then if sigA \<noteq> 0 then propagateNaN else (uiA, st)
              else let sigB = sigB + (if expB \<noteq> 0 then 0x2000000000000000 else sigB);
                       sigB = softfloat_shiftRightJam64 sigB (word_of_int expDiff)
                   in finish expA sigA sigB)"

definition softfloat_subMagsF64 ::
  "u64 \<Rightarrow> u64 \<Rightarrow> bool \<Rightarrow> softfloat_state \<Rightarrow> u64 \<times> softfloat_state" where
  "softfloat_subMagsF64 uiA uiB signZ st =
     (let expA = expF64UI uiA; sigA = fracF64UI uiA;
          expB = expF64UI uiB; sigB = fracF64UI uiB;
          expDiff = expA - expB;
          sigA = push_bit 10 sigA; sigB = push_bit 10 sigB;
          propagateNaN = softfloat_propagateNaNF64UI uiA uiB st;
          bBigger = (\<lambda>expB sigA sigB. softfloat_normRoundPackToF64 (\<not> signZ) (expB - 1) (sigB - sigA) st);
          aBigger = (\<lambda>expA sigA sigB. softfloat_normRoundPackToF64 signZ (expA - 1) (sigA - sigB) st)
      in if 0 < expDiff
         then if expA = 0x7FF
              then if sigA \<noteq> 0 then propagateNaN else (uiA, st)
              else let sigB = sigB + (if expB \<noteq> 0 then 0x4000000000000000 else sigB);
                       sigB = softfloat_shiftRightJam64 sigB (word_of_int expDiff);
                       sigA = sigA OR 0x4000000000000000
                   in aBigger expA sigA sigB
         else if expDiff < 0
         then if expB = 0x7FF
              then if sigB \<noteq> 0 then propagateNaN
                   else (packToF64UI (\<not> signZ) 0x7FF 0, st)
              else let sigA = sigA + (if expA \<noteq> 0 then 0x4000000000000000 else sigA);
                       sigA = softfloat_shiftRightJam64 sigA (word_of_int (- expDiff));
                       sigB = sigB OR 0x4000000000000000
                   in bBigger expB sigA sigB
         else if expA = 0x7FF
         then if sigA OR sigB \<noteq> 0 then propagateNaN
              else (defaultNaNF64UI, softfloat_raiseFlags softfloat_flag_invalid st)
         else let (expA, expB) = (if expA = 0 then (1, 1) else (expA, expB))
              in if sigB < sigA then aBigger expA sigA sigB
                 else if sigA < sigB then bBigger expB sigA sigB
                 else (packToF64UI (softfloat_roundingMode st = softfloat_round_min) 0 0, st))"

definition f64_add :: "u64 \<Rightarrow> u64 \<Rightarrow> softfloat_state \<Rightarrow> u64 \<times> softfloat_state" where
  "f64_add a b st =
     (let uiA = a; signA = signF64UI uiA; uiB = b; signB = signF64UI uiB
      in if signA = signB then softfloat_addMagsF64 uiA uiB signA st
         else softfloat_subMagsF64 uiA uiB signA st)"

definition f64_sub :: "u64 \<Rightarrow> u64 \<Rightarrow> softfloat_state \<Rightarrow> u64 \<times> softfloat_state" where
  "f64_sub a b st =
     (let uiA = a; signA = signF64UI uiA; uiB = b; signB = signF64UI uiB
      in if signA = signB then softfloat_subMagsF64 uiA uiB signA st
         else softfloat_addMagsF64 uiA uiB signA st)"

section \<open>Single-precision sums and differences are correct\<close>

lemma uint_frac32:
  "uint (push_bit 6 (fracF32UI w)) = enc_frac binary32 (uint w) * 2 ^ 6"
  "uint (push_bit 7 (fracF32UI w)) = enc_frac binary32 (uint w) * 2 ^ 7"
  using enc_field_range(4) [of binary32 "uint w"] by (subst uint_push_small; simp add: fracF32UI_enc)+

lemma uint_shifted32:
  "uint (push_bit 6 (fracF32UI w) + (if expF32UI w \<noteq> 0 then 0x20000000 else push_bit 6 (fracF32UI w)))
    = enc_shifted binary32 (uint w) * 2 ^ 6"
  "uint (push_bit 7 (fracF32UI w) + (if expF32UI w \<noteq> 0 then 0x40000000 else push_bit 7 (fracF32UI w)))
    = enc_shifted binary32 (uint w) * 2 ^ 7"
  using enc_field_range(4) [of binary32 "uint w"]
  by (subst uint_add_small; simp add: uint_frac32 enc_shifted_def expF32UI_enc)+

lemma addMagsF32_finish:
  assumes sA: "uint sA = FA * 2 ^ 6" "0 \<le> FA" "FA < 2 ^ 23" and sB: "uint sB = jam_shift d (mb * 2 ^ 6)"
    and mb: "0 \<le> mb" "mb < 2 ^ 24" and d: "1 \<le> d" and e: "0 \<le> e" "e < 2 ^ 15"
    and z: "z = 0x20000000 + sA + sB"
    and x: "x = (of_int (2 ^ 23 + FA) + of_int mb / 2 ^ d) * 2 powi (e - 1 + fmt_qmin binary32)"
  shows "ieee_result binary32 s x st
    (let (expZ, sigZ) = (if z < 0x40000000 then (e - 1, push_bit 1 z) else (e, z))
     in softfloat_roundPackToF32 s expZ sigZ st)"
proof -
  have j: "jam_shift d (mb * 2 ^ 6) < 2 ^ 30"
  proof (subst jam_shift_less(1))
    have "(2::int) ^ 30 * 1 \<le> 2 ^ 30 * 2 ^ d" by (intro mult_left_mono) simp_all
    moreover have "mb * 2 ^ 6 < 2 ^ 30" using mb(2) by simp
    ultimately show "mb * 2 ^ 6 < 2 ^ 30 * 2 ^ d" by linarith
  qed simp
  define n where "n = (2 ^ 23 + FA) * 2 ^ (7 - 1) + jam_shift d (mb * 2 ^ (7 - 1))"
  have zn: "uint z = n" unfolding z n_def using sA sB j by (simp add: uint_add_small)
  have nr: "n < 2 ^ 31" using j sA by (simp add: n_def)
  have lt: "z < 0x40000000 \<longleftrightarrow> n < 2 ^ 30" unfolding word_less_uint zn by simp
  have sg: "uint (if z < 0x40000000 then push_bit 1 z else z) = (if n < 2 ^ 30 then 2 * n else n)"
    unfolding lt using nr zn uint_push_small [of z 1] by (simp del: push_bit_of_1)
  have "ieee_result binary32 s x st (softfloat_roundPackToF32 s (if n < 2 ^ 30 then e - 1 else e)
      (if z < 0x40000000 then push_bit 1 z else z) st)"
    by (rule rp32.correct_sum [where ma = "2 ^ 23 + FA" and mb = mb and d = d and n = n])
       (use sA mb d e x sg n_def in simp_all)
  then show ?thesis by (simp add: lt split: if_splits)
qed

lemma addMagsF32_special:
  assumes "uint uiA < 2 ^ 32" "signZ = enc_sign binary32 (uint uiA)"
    and "enc_exp binary32 (uint uiA) = 255 \<or> enc_exp binary32 (uint uiB) = 255"
  shows "mags_add binary32 signZ (uint uiA) (uint uiB) st (softfloat_addMagsF32 uiA uiB signZ st)"
proof -
  let ?a = "uint uiA" and ?b = "uint uiB"
  note fr = enc_field_range [of binary32 ?a] enc_field_range [of binary32 ?b]
  have z: "push_bit 6 (fracF32UI w) = 0 \<longleftrightarrow> enc_frac binary32 (uint w) = 0" for w
    using uint_frac32(1) [of w] uint_eq_0 [of "push_bit 6 (fracF32UI w)"] by simp
  have A: "uint (ucast uiA :: u32) = enc_make binary32 signZ 255 0"
    if "enc_exp binary32 ?a = 255" "enc_frac binary32 ?a = 0"
    using enc_make_self [of ?a binary32] that assms by (simp add: uint_ucast_small)
  have P: "uint (ucast (packToF32UI signZ 0xFF 0) :: u32) = enc_make binary32 signZ 255 0"
    by (subst uint_packToF32UI) simp_all
  have lt: "enc_exp binary32 ?a \<noteq> 255 \<Longrightarrow> enc_exp binary32 ?a < 255" "enc_exp binary32 ?b \<noteq> 255 \<Longrightarrow> enc_exp binary32 ?b < 255"
    using fr by simp_all
  note defs = mags_add_def enc_nan_def enc_inf_def inf_result_def softfloat_addMagsF32_def Let_def expF32UI_enc z or_eq_0_iff
  note facts = assms(3) A P propagateNaNF32UI_result [of uiA uiB st, unfolded Let_def] lt
  show ?thesis
    using facts by (cases "enc_exp binary32 ?a = 255"; cases "enc_exp binary32 ?b = 255";
      cases "enc_frac binary32 ?a = 0"; cases "enc_frac binary32 ?b = 0") (simp_all add: defs)
qed

lemma uint_sum_low32:
  fixes uiA uiB :: u64
  assumes "uint uiA < 2 ^ 32" "uint uiB < 2 ^ 32"
    and "enc_exp binary32 (uint uiA) = 0" "enc_exp binary32 (uint uiB) = 0"
  shows "uint ((uiA + uiB) AND 0x7FFFFFFF) = enc_frac binary32 (uint uiA) + enc_frac binary32 (uint uiB)"
proof -
  let ?a = "uint uiA" and ?b = "uint uiB"
  have "(uiA + uiB) AND 0x7FFFFFFF = take_bit 31 (uiA + uiB)" using and_low_mask [of "uiA + uiB" 31] by simp
  moreover have "uint (uiA + uiB) = ?a + ?b" using assms by (intro uint_add_small) simp
  ultimately have "uint ((uiA + uiB) AND 0x7FFFFFFF) = (?a + ?b) mod 2 ^ 31" by (simp add: uint_take)
  also have "\<dots> = (?a mod 2 ^ 31 + ?b mod 2 ^ 31) mod 2 ^ 31" by (simp add: mod_add_eq)
  also have "\<dots> = (enc_frac binary32 ?a + enc_frac binary32 ?b) mod 2 ^ 31"
    using enc_low [of ?a binary32] enc_low [of ?b binary32] assms(3,4) by simp
  finally show ?thesis using enc_field_range(3,4) [of binary32 ?a] enc_field_range(3,4) [of binary32 ?b] by simp
qed

lemma addMagsF32_zero:
  assumes "uint uiA < 2 ^ 32" "uint uiB < 2 ^ 32"
    and e: "enc_exp binary32 (uint uiA) = 0" "enc_exp binary32 (uint uiB) = 0"
  shows "ieee_result binary32 signZ (enc_abs binary32 (uint uiA) + enc_abs binary32 (uint uiB)) st
    (softfloat_addMagsF32 uiA uiB signZ st)"
proof -
  let ?m = "enc_frac binary32 (uint uiA) + enc_frac binary32 (uint uiB)"
  note fr = enc_field_range(3,4) [of binary32 "uint uiA"] enc_field_range(3,4) [of binary32 "uint uiB"]
  note s = uint_sum_low32 [OF assms]
  have r: "softfloat_addMagsF32 uiA uiB signZ st = (ucast (packToF32UI signZ 0 ((uiA + uiB) AND 0x7FFFFFFF)), st)"
    using e by (simp add: softfloat_addMagsF32_def Let_def expF32UI_enc)
  have "?m div 2 ^ 23 < 2" using fr by (simp add: int_div_less_iff)
  then show ?thesis unfolding r
    by (intro rp32.exact_pack [where e = 0 and m = ?m])
       (use fr s e in \<open>simp_all add: uint_packToF32UI enc_abs_def enc_sig_def algebra_simps\<close>)
qed

lemma addMagsF32_same:
  assumes e: "enc_exp binary32 (uint uiA) = enc_exp binary32 (uint uiB)"
    "enc_exp binary32 (uint uiA) \<noteq> 0" "enc_exp binary32 (uint uiA) \<noteq> 255"
  shows "ieee_result binary32 signZ (enc_abs binary32 (uint uiA) + enc_abs binary32 (uint uiB)) st
    (softfloat_addMagsF32 uiA uiB signZ st)"
proof -
  let ?a = "uint uiA" and ?b = "uint uiB" and ?s = "0x40000000 + push_bit 6 (fracF32UI uiA) + push_bit 6 (fracF32UI uiB)"
  let ?E = "enc_exp binary32 ?a"
  note fr = enc_field_range [of binary32 ?a] enc_field_range [of binary32 ?b]
  have r: "softfloat_addMagsF32 uiA uiB signZ st = softfloat_roundPackToF32 signZ ?E ?s st"
    using e by (simp add: softfloat_addMagsF32_def Let_def expF32UI_enc)
  have u: "uint ?s = (enc_shifted binary32 ?a + enc_shifted binary32 ?b) * 2 ^ (7 - 1)"
    using fr e by (simp add: uint_add_small uint_frac32 enc_shifted_def)
  have ab: "enc_abs binary32 ?a = of_int (enc_shifted binary32 ?a) * 2 powi (?E - 1 + fmt_qmin binary32)"
    "enc_abs binary32 ?b = of_int (enc_shifted binary32 ?b) * 2 powi (?E - 1 + fmt_qmin binary32)"
    using enc_abs_shifted [of ?E binary32 ?a 0] enc_abs_shifted [of ?E binary32 ?b 0] e(1) by simp_all
  show ?thesis unfolding r ab distrib_right [symmetric]
    by (rule rp32.correct_same [OF _ _ _ _ _ _ _ u]) (use fr e in \<open>simp_all add: enc_shifted_def\<close>)
qed

lemma addMagsF32_less:
  assumes e: "enc_exp binary32 (uint uiA) < enc_exp binary32 (uint uiB)" "enc_exp binary32 (uint uiB) \<noteq> 255"
  shows "ieee_result binary32 signZ (enc_abs binary32 (uint uiA) + enc_abs binary32 (uint uiB)) st
    (softfloat_addMagsF32 uiA uiB signZ st)"
proof -
  let ?a = "uint uiA" and ?b = "uint uiB" and ?sA = "push_bit 6 (fracF32UI uiA)" and ?sB = "push_bit 6 (fracF32UI uiB)"
  let ?EA = "enc_exp binary32 ?a" and ?EB = "enc_exp binary32 ?b"
  define d where "d = nat (?EB - ?EA)"
  note fr = enc_field_range [of binary32 ?a] enc_field_range [of binary32 ?b] enc_shifted_range [of binary32 ?a]
  have d: "1 \<le> d" "?EB = ?EA + int d" using e by (simp_all add: d_def)
  define sJ where "sJ = (ucast (softfloat_shiftRightJam32 (ucast (?sA + (if expF32UI uiA \<noteq> 0 then 0x20000000 else ?sA))) (word_of_int (?EB - ?EA))) :: u64)"
  have J: "uint sJ = jam_shift d (enc_shifted binary32 ?a * 2 ^ 6)"
    unfolding sJ_def using e fr by (subst uint_jam32) (simp_all add: uint_shifted32 d_def)
  have r: "softfloat_addMagsF32 uiA uiB signZ st =
    (let z = 0x20000000 + ?sB + sJ; (expZ, sigZ) = (if z < 0x40000000 then (?EB - 1, push_bit 1 z) else (?EB, z))
     in softfloat_roundPackToF32 signZ expZ sigZ st)"
    using e fr unfolding sJ_def by (simp add: softfloat_addMagsF32_def Let_def expF32UI_enc add_ac)
  have "enc_abs binary32 ?b = of_int (2 ^ 23 + enc_frac binary32 ?b) * 2 powi (?EB - 1 + fmt_qmin binary32)"
    using enc_abs_shifted [of ?EB binary32 ?b 0] e fr by (simp add: enc_shifted_def)
  then have x: "enc_abs binary32 ?a + enc_abs binary32 ?b =
      (of_int (2 ^ 23 + enc_frac binary32 ?b) + of_int (enc_shifted binary32 ?a) / 2 ^ d) * 2 powi (?EB - 1 + fmt_qmin binary32)"
    using enc_abs_shifted [OF d(2)] by (simp add: algebra_simps)
  show ?thesis unfolding r Let_def
    by (rule addMagsF32_finish [unfolded Let_def, OF uint_frac32(1) _ _ J _ _ d(1) _ _ refl x]) (use fr in simp_all)
qed

lemma addMagsF32_greater:
  assumes e: "enc_exp binary32 (uint uiB) < enc_exp binary32 (uint uiA)" "enc_exp binary32 (uint uiA) \<noteq> 255"
  shows "ieee_result binary32 signZ (enc_abs binary32 (uint uiA) + enc_abs binary32 (uint uiB)) st
    (softfloat_addMagsF32 uiA uiB signZ st)"
proof -
  let ?a = "uint uiA" and ?b = "uint uiB" and ?sA = "push_bit 6 (fracF32UI uiA)" and ?sB = "push_bit 6 (fracF32UI uiB)"
  let ?EA = "enc_exp binary32 ?a" and ?EB = "enc_exp binary32 ?b"
  define d where "d = nat (?EA - ?EB)"
  note fr = enc_field_range [of binary32 ?b] enc_field_range [of binary32 ?a] enc_shifted_range [of binary32 ?b]
  have d: "1 \<le> d" "?EA = ?EB + int d" using e by (simp_all add: d_def)
  define sJ where "sJ = (ucast (softfloat_shiftRightJam32 (ucast (?sB + (if expF32UI uiB \<noteq> 0 then 0x20000000 else ?sB))) (word_of_int (?EA - ?EB))) :: u64)"
  have J: "uint sJ = jam_shift d (enc_shifted binary32 ?b * 2 ^ 6)"
    unfolding sJ_def using e fr by (subst uint_jam32) (simp_all add: uint_shifted32 d_def)
  have r: "softfloat_addMagsF32 uiA uiB signZ st =
    (let z = 0x20000000 + ?sA + sJ; (expZ, sigZ) = (if z < 0x40000000 then (?EA - 1, push_bit 1 z) else (?EA, z))
     in softfloat_roundPackToF32 signZ expZ sigZ st)"
    using e fr unfolding sJ_def by (simp add: softfloat_addMagsF32_def Let_def expF32UI_enc add_ac)
  have "enc_abs binary32 ?a = of_int (2 ^ 23 + enc_frac binary32 ?a) * 2 powi (?EA - 1 + fmt_qmin binary32)"
    using enc_abs_shifted [of ?EA binary32 ?a 0] e fr by (simp add: enc_shifted_def)
  then have x: "enc_abs binary32 ?a + enc_abs binary32 ?b =
      (of_int (2 ^ 23 + enc_frac binary32 ?a) + of_int (enc_shifted binary32 ?b) / 2 ^ d) * 2 powi (?EA - 1 + fmt_qmin binary32)"
    using enc_abs_shifted [OF d(2)] by (simp add: algebra_simps)
  show ?thesis unfolding r Let_def
    by (rule addMagsF32_finish [unfolded Let_def, OF uint_frac32(1) _ _ J _ _ d(1) _ _ refl x]) (use fr in simp_all)
qed

theorem addMagsF32_correct:
  assumes "uint uiA < 2 ^ 32" "uint uiB < 2 ^ 32" "signZ = enc_sign binary32 (uint uiA)"
  shows "mags_add binary32 signZ (uint uiA) (uint uiB) st (softfloat_addMagsF32 uiA uiB signZ st)"
proof (cases "enc_exp binary32 (uint uiA) = 255 \<or> enc_exp binary32 (uint uiB) = 255")
  case True
  then show ?thesis using addMagsF32_special assms by blast
next
  case False
  then have "ieee_result binary32 signZ (enc_abs binary32 (uint uiA) + enc_abs binary32 (uint uiB)) st
    (softfloat_addMagsF32 uiA uiB signZ st)"
    using addMagsF32_zero [OF assms(1,2)] addMagsF32_same addMagsF32_less addMagsF32_greater
    by (metis linorder_neqE_linordered_idom)
  then show ?thesis using False by (simp add: mags_add_def enc_nan_def enc_inf_def)
qed

lemma subMagsF32_special:
  assumes "uint uiA < 2 ^ 32" "signZ = enc_sign binary32 (uint uiA)"
    and "enc_exp binary32 (uint uiA) = 255 \<or> enc_exp binary32 (uint uiB) = 255"
  shows "mags_sub binary32 signZ (uint uiA) (uint uiB) st (softfloat_subMagsF32 uiA uiB signZ st)"
proof -
  let ?a = "uint uiA" and ?b = "uint uiB"
  note fr = enc_field_range [of binary32 ?a] enc_field_range [of binary32 ?b]
  have z: "push_bit 7 (fracF32UI w) = 0 \<longleftrightarrow> enc_frac binary32 (uint w) = 0" for w
    using uint_frac32(2) [of w] uint_eq_0 [of "push_bit 7 (fracF32UI w)"] by simp
  have A: "uint (ucast uiA :: u32) = enc_make binary32 signZ 255 0"
    if "enc_exp binary32 ?a = 255" "enc_frac binary32 ?a = 0"
    using enc_make_self [of ?a binary32] that assms by (simp add: uint_ucast_small)
  have P: "uint (ucast (packToF32UI s 0xFF 0) :: u32) = enc_make binary32 s 255 0" for s
    by (subst uint_packToF32UI) simp_all
  have lt: "enc_exp binary32 ?a \<noteq> 255 \<Longrightarrow> enc_exp binary32 ?a < 255" "enc_exp binary32 ?b \<noteq> 255 \<Longrightarrow> enc_exp binary32 ?b < 255"
    using fr by simp_all
  have D: "nan_result binary32 True st (ucast defaultNaNF32UI :: u32, softfloat_raiseFlags softfloat_flag_invalid st)"
    by (simp add: nan_result_def enc_make_def)
  note defs = mags_sub_def enc_nan_def enc_inf_def inf_result_def softfloat_subMagsF32_def Let_def expF32UI_enc z or_eq_0_iff
  note facts = assms(3) A P propagateNaNF32UI_result [of uiA uiB st, unfolded Let_def] D lt
  show ?thesis
    using facts by (cases "enc_exp binary32 ?a = 255"; cases "enc_exp binary32 ?b = 255";
      cases "enc_frac binary32 ?a = 0"; cases "enc_frac binary32 ?b = 0") (simp_all add: defs)
qed

text \<open>The difference when the exponents differ: \<open>a\<close> is the operand with the larger exponent.\<close>

lemma subMagsF32_bigger:
  assumes e: "enc_exp binary32 (uint uiB) < enc_exp binary32 (uint uiA)" "enc_exp binary32 (uint uiA) \<noteq> 255"
    and sJ: "sJ = (ucast (softfloat_shiftRightJam32
        (ucast (push_bit 7 (fracF32UI uiB) + (if expF32UI uiB \<noteq> 0 then 0x40000000 else push_bit 7 (fracF32UI uiB))))
        (word_of_int (enc_exp binary32 (uint uiA) - enc_exp binary32 (uint uiB)))) :: u64)"
  shows "ieee_result binary32 s (enc_abs binary32 (uint uiA) - enc_abs binary32 (uint uiB)) st
      (softfloat_normRoundPackToF32 s (enc_exp binary32 (uint uiA) - 1)
        ((push_bit 7 (fracF32UI uiA) OR 0x40000000) - sJ) st)"
proof -
  let ?a = "uint uiA" and ?b = "uint uiB" and ?sA = "push_bit 7 (fracF32UI uiA) OR 0x40000000"
  let ?EA = "enc_exp binary32 ?a" and ?EB = "enc_exp binary32 ?b" and ?mb = "enc_shifted binary32 ?b"
  let ?ma = "2 ^ 23 + enc_frac binary32 ?a"
  define d where "d = nat (?EA - ?EB)"
  note fr = enc_field_range [of binary32 ?a] enc_field_range [of binary32 ?b] enc_shifted_range [of binary32 ?b]
  have d: "1 \<le> d" "?EA = ?EB + int d" using e by (simp_all add: d_def)
  have J: "uint sJ = jam_shift d (?mb * 2 ^ 7)"
    unfolding sJ using e fr by (subst uint_jam32) (simp_all add: uint_shifted32 d_def)
  have "uint (0x40000000 OR push_bit 7 (fracF32UI uiA)) = uint (0x40000000 :: u64) + uint (push_bit 7 (fracF32UI uiA))"
    by (rule uint_or_disjoint [where n = 30]) (use fr in \<open>simp_all add: uint_frac32\<close>)
  then have A: "uint ?sA = ?ma * 2 ^ 7" by (simp add: uint_frac32 or.commute)
  have j: "jam_shift d (?mb * 2 ^ 7) < 2 ^ 30"
  proof (subst jam_shift_less(1))
    have "(2::int) ^ 30 * 2 ^ 1 \<le> 2 ^ 30 * 2 ^ d" using d(1) by (intro mult_left_mono power_increasing) simp_all
    moreover have "?mb * 2 ^ 7 < 2 ^ 30 * 2 ^ 1" using fr by simp
    ultimately show "?mb * 2 ^ 7 < 2 ^ 30 * 2 ^ d" by linarith
  qed simp
  have S: "uint (?sA - sJ) = ?ma * 2 ^ 7 - jam_shift d (?mb * 2 ^ 7)"
    using A J j fr by (subst uint_sub_small) simp_all
  have a: "enc_abs binary32 ?a = of_int ?ma * 2 powi (?EA - 1 + fmt_qmin binary32)"
    using enc_abs_shifted [of ?EA binary32 ?a 0] e fr by (simp add: enc_shifted_def)
  have b: "enc_abs binary32 ?b = of_int ?mb / 2 ^ d * 2 powi (?EA - 1 + fmt_qmin binary32)"
    by (rule enc_abs_shifted [OF d(2)])
  show "ieee_result binary32 s (enc_abs binary32 ?a - enc_abs binary32 ?b) st
      (softfloat_normRoundPackToF32 s (?EA - 1) (?sA - sJ) st)"
    by (rule np32.correct_difference [OF _ _ _ _ d(1) _ _ S]) (use fr e in \<open>simp_all add: a b algebra_simps\<close>)
qed

lemma subMagsF32_same:
  assumes "enc_exp binary32 (uint uiA) = enc_exp binary32 (uint uiB)" "enc_exp binary32 (uint uiA) \<noteq> 255"
    and "enc_frac binary32 (uint uiB) < enc_frac binary32 (uint uiA)"
  shows "ieee_result binary32 s (enc_abs binary32 (uint uiA) - enc_abs binary32 (uint uiB)) st
      (softfloat_normRoundPackToF32 s (max 1 (enc_exp binary32 (uint uiA)) - 1)
        (push_bit 7 (fracF32UI uiA) - push_bit 7 (fracF32UI uiB)) st)"
proof -
  let ?a = "uint uiA" and ?b = "uint uiB"
  note fr = enc_field_range [of binary32 ?a] enc_field_range [of binary32 ?b]
  have S: "uint (push_bit 7 (fracF32UI uiA) - push_bit 7 (fracF32UI uiB)) = (enc_frac binary32 ?a - enc_frac binary32 ?b) * 2 ^ 7"
    using assms(3) by (subst uint_sub_small) (simp_all add: uint_frac32)
  have x: "enc_abs binary32 ?a - enc_abs binary32 ?b =
      of_int (enc_frac binary32 ?a - enc_frac binary32 ?b) * 2 powi (max 1 (enc_exp binary32 ?a) - 1 + fmt_qmin binary32)"
    using assms(1) by (simp add: enc_abs_def enc_sig_def algebra_simps)
  show "ieee_result binary32 s (enc_abs binary32 ?a - enc_abs binary32 ?b) st
      (softfloat_normRoundPackToF32 s (max 1 (enc_exp binary32 ?a) - 1) (push_bit 7 (fracF32UI uiA) - push_bit 7 (fracF32UI uiB)) st)"
  proof (rule np32.correct_integer)
    show "enc_abs binary32 ?a - enc_abs binary32 ?b = of_int (uint (push_bit 7 (fracF32UI uiA) - push_bit 7 (fracF32UI uiB)))
        * 2 powi (max 1 (enc_exp binary32 ?a) - 1 + fmt_qmin binary32 - int 7)"
      unfolding x S by (simp add: power_int_diff)
  qed (use fr assms(3) S in simp_all)
qed

lemma subMagsF32_exp_differs:
  assumes "enc_finite binary32 (uint uiA)" "enc_finite binary32 (uint uiB)"
    and "enc_exp binary32 (uint uiA) \<noteq> enc_exp binary32 (uint uiB)"
  shows "mags_sub binary32 signZ (uint uiA) (uint uiB) st (softfloat_subMagsF32 uiA uiB signZ st)"
proof -
  let ?EA = "enc_exp binary32 (uint uiA)" and ?EB = "enc_exp binary32 (uint uiB)"
  consider (gt) "?EB < ?EA" | (lt) "?EA < ?EB" using assms(3) by linarith
  then show ?thesis
  proof cases
    case gt
    show ?thesis
      by (rule mags_sub_finite(1) [OF assms(1,2) enc_abs_less_exp [OF gt]])
         (use subMagsF32_bigger [OF gt _ refl, of signZ st] gt assms in
          \<open>simp add: softfloat_subMagsF32_def Let_def expF32UI_enc enc_finite_def\<close>)
  next
    case lt
    show ?thesis
      by (rule mags_sub_finite(2) [OF assms(1,2) enc_abs_less_exp [OF lt]])
         (use subMagsF32_bigger [OF lt _ refl, of "\<not> signZ" st] lt assms in
          \<open>simp add: softfloat_subMagsF32_def Let_def expF32UI_enc enc_finite_def\<close>)
  qed
qed

lemma subMagsF32_exp_same:
  assumes fin: "enc_finite binary32 (uint uiA)" "enc_finite binary32 (uint uiB)"
    and eq: "enc_exp binary32 (uint uiA) = enc_exp binary32 (uint uiB)"
  shows "mags_sub binary32 signZ (uint uiA) (uint uiB) st (softfloat_subMagsF32 uiA uiB signZ st)"
proof -
  let ?a = "uint uiA" and ?b = "uint uiB" and ?sA = "push_bit 7 (fracF32UI uiA)" and ?sB = "push_bit 7 (fracF32UI uiB)"
  let ?EA = "enc_exp binary32 ?a" and ?EB = "enc_exp binary32 ?b"
  have c: "?sB < ?sA \<longleftrightarrow> enc_abs binary32 ?b < enc_abs binary32 ?a" "?sA < ?sB \<longleftrightarrow> enc_abs binary32 ?a < enc_abs binary32 ?b"
    unfolding word_less_uint uint_frac32 enc_abs_same_exp(1) [OF eq] enc_abs_same_exp(1) [OF eq [symmetric]] by simp_all
  have Z: "ieee_result binary32 s 0 st (ucast (packToF32UI s 0 0) :: u32, st)" for s
    by (rule rp32.zero_result) (subst uint_packToF32UI, simp_all)
  have M: "?EB \<noteq> 0 \<Longrightarrow> max 1 ?EB = ?EB" using enc_field_range(1) [of binary32 ?b] by simp
  have ne: "?EA \<noteq> 255" "?EB \<noteq> 255" using fin by (simp_all add: enc_finite_def)
  have r: "softfloat_subMagsF32 uiA uiB signZ st =
    (if enc_abs binary32 ?b < enc_abs binary32 ?a
     then softfloat_normRoundPackToF32 signZ (max 1 ?EA - 1) (?sA - ?sB) st
     else if enc_abs binary32 ?a < enc_abs binary32 ?b
     then softfloat_normRoundPackToF32 (\<not> signZ) (max 1 ?EB - 1) (?sB - ?sA) st
     else (ucast (packToF32UI (softfloat_roundingMode st = softfloat_round_min) 0 0), st))"
    unfolding c [symmetric] using eq ne M order_less_not_sym [of ?sA ?sB]
    by (simp add: softfloat_subMagsF32_def Let_def expF32UI_enc)
  consider "enc_abs binary32 ?b < enc_abs binary32 ?a" | "enc_abs binary32 ?a < enc_abs binary32 ?b"
    | "enc_abs binary32 ?a = enc_abs binary32 ?b" by linarith
  then show ?thesis
  proof cases
    case 1
    then show ?thesis using subMagsF32_same [OF eq, of signZ st] ne enc_abs_same_exp(1) [OF eq]
      by (intro mags_sub_finite(1) [OF fin]) (simp_all add: r)
  next
    case 2
    then show ?thesis using subMagsF32_same [OF eq [symmetric], of "\<not> signZ" st] ne enc_abs_same_exp(1) [OF eq [symmetric]]
      by (intro mags_sub_finite(2) [OF fin]) (simp_all add: r)
  next
    case 3
    then show ?thesis using Z by (intro mags_sub_finite(3) [OF fin]) (simp_all add: r)
  qed
qed

theorem subMagsF32_correct:
  assumes "uint uiA < 2 ^ 32" "signZ = enc_sign binary32 (uint uiA)"
  shows "mags_sub binary32 signZ (uint uiA) (uint uiB) st (softfloat_subMagsF32 uiA uiB signZ st)"
proof (cases "enc_finite binary32 (uint uiA) \<and> enc_finite binary32 (uint uiB)")
  case True
  then show ?thesis using subMagsF32_exp_differs subMagsF32_exp_same by blast
next
  case False
  then show ?thesis using subMagsF32_special [OF assms] by (simp add: enc_finite_def)
qed

lemma f32_add_ieee: "ieee_sum binary32 (uint a) (enc_sign binary32 (uint b)) (uint b) st (f32_add a b st)"
proof -
  have u: "uint (ucast a :: u64) = uint a" "uint (ucast b :: u64) = uint b" by (simp_all add: uint_ucast_up)
  have l: "uint a < 2 ^ 32" "uint b < 2 ^ 32" using uint_lt2p [of a] uint_lt2p [of b] by simp_all
  show ?thesis
    using sum_of_mags_add [OF addMagsF32_correct [of "ucast a" "ucast b", unfolded u, OF l refl]]
      sum_of_mags_sub [OF subMagsF32_correct [of "ucast a" _ "ucast b", unfolded u, OF l(1) refl]]
    unfolding f32_add_def Let_def signF32UI_enc [of "ucast a", unfolded u, OF l(1)] signF32UI_enc [of "ucast b", unfolded u, OF l(2)]
    by (cases "enc_sign binary32 (uint a)"; cases "enc_sign binary32 (uint b)") simp_all
qed

lemma f32_sub_ieee: "ieee_sum binary32 (uint a) (\<not> enc_sign binary32 (uint b)) (uint b) st (f32_sub a b st)"
proof -
  have u: "uint (ucast a :: u64) = uint a" "uint (ucast b :: u64) = uint b" by (simp_all add: uint_ucast_up)
  have l: "uint a < 2 ^ 32" "uint b < 2 ^ 32" using uint_lt2p [of a] uint_lt2p [of b] by simp_all
  show ?thesis
    using sum_of_mags_add [OF addMagsF32_correct [of "ucast a" "ucast b", unfolded u, OF l refl]]
      sum_of_mags_sub [OF subMagsF32_correct [of "ucast a" _ "ucast b", unfolded u, OF l(1) refl]]
    unfolding f32_sub_def Let_def signF32UI_enc [of "ucast a", unfolded u, OF l(1)] signF32UI_enc [of "ucast b", unfolded u, OF l(2)]
    by (cases "enc_sign binary32 (uint a)"; cases "enc_sign binary32 (uint b)") simp_all
qed

section \<open>Double-precision sums and differences are correct\<close>

lemma uint_frac64:
  "uint (push_bit 9 (fracF64UI w)) = enc_frac binary64 (uint w) * 2 ^ 9"
  "uint (push_bit 10 (fracF64UI w)) = enc_frac binary64 (uint w) * 2 ^ 10"
  using enc_field_range(4) [of binary64 "uint w"] by (subst uint_push_small; simp add: fracF64UI_enc)+

lemma uint_shifted64:
  "uint (push_bit 9 (fracF64UI w) + (if expF64UI w \<noteq> 0 then 0x2000000000000000 else push_bit 9 (fracF64UI w)))
    = enc_shifted binary64 (uint w) * 2 ^ 9"
  "uint (push_bit 10 (fracF64UI w) + (if expF64UI w \<noteq> 0 then 0x4000000000000000 else push_bit 10 (fracF64UI w)))
    = enc_shifted binary64 (uint w) * 2 ^ 10"
  using enc_field_range(4) [of binary64 "uint w"]
  by (subst uint_add_small; simp add: uint_frac64 enc_shifted_def expF64UI_enc)+

lemma addMagsF64_finish:
  assumes sA: "uint sA = FA * 2 ^ 9" "0 \<le> FA" "FA < 2 ^ 52" and sB: "uint sB = jam_shift d (mb * 2 ^ 9)"
    and mb: "0 \<le> mb" "mb < 2 ^ 53" and d: "1 \<le> d" and e: "0 \<le> e" "e < 2 ^ 15"
    and z: "z = 0x2000000000000000 + sA + sB"
    and x: "x = (of_int (2 ^ 52 + FA) + of_int mb / 2 ^ d) * 2 powi (e - 1 + fmt_qmin binary64)"
  shows "ieee_result binary64 s x st
    (let (expZ, sigZ) = (if z < 0x4000000000000000 then (e - 1, push_bit 1 z) else (e, z))
     in softfloat_roundPackToF64 s expZ sigZ st)"
proof -
  have j: "jam_shift d (mb * 2 ^ 9) < 2 ^ 62"
  proof (subst jam_shift_less(1))
    have "(2::int) ^ 62 * 1 \<le> 2 ^ 62 * 2 ^ d" by (intro mult_left_mono) simp_all
    moreover have "mb * 2 ^ 9 < 2 ^ 62" using mb(2) by simp
    ultimately show "mb * 2 ^ 9 < 2 ^ 62 * 2 ^ d" by linarith
  qed simp
  define n where "n = (2 ^ 52 + FA) * 2 ^ (10 - 1) + jam_shift d (mb * 2 ^ (10 - 1))"
  have zn: "uint z = n" unfolding z n_def using sA sB j by (simp add: uint_add_small)
  have nr: "n < 2 ^ 63" using j sA by (simp add: n_def)
  have lt: "z < 0x4000000000000000 \<longleftrightarrow> n < 2 ^ 62" unfolding word_less_uint zn by simp
  have sg: "uint (if z < 0x4000000000000000 then push_bit 1 z else z) = (if n < 2 ^ 62 then 2 * n else n)"
    unfolding lt using nr zn uint_push_small [of z 1] by (simp del: push_bit_of_1)
  have "ieee_result binary64 s x st (softfloat_roundPackToF64 s (if n < 2 ^ 62 then e - 1 else e)
      (if z < 0x4000000000000000 then push_bit 1 z else z) st)"
    by (rule rp64.correct_sum [where ma = "2 ^ 52 + FA" and mb = mb and d = d and n = n])
       (use sA mb d e x sg n_def in simp_all)
  then show ?thesis by (simp add: lt split: if_splits)
qed

lemma addMagsF64_special:
  assumes "signZ = enc_sign binary64 (uint uiA)"
    and "enc_exp binary64 (uint uiA) = 2047 \<or> enc_exp binary64 (uint uiB) = 2047"
  shows "mags_add binary64 signZ (uint uiA) (uint uiB) st (softfloat_addMagsF64 uiA uiB signZ st)"
proof -
  let ?a = "uint uiA" and ?b = "uint uiB"
  note fr = enc_field_range [of binary64 ?a] enc_field_range [of binary64 ?b]
  have z: "push_bit 9 (fracF64UI w) = 0 \<longleftrightarrow> enc_frac binary64 (uint w) = 0" for w
    using uint_frac64(1) [of w] uint_eq_0 [of "push_bit 9 (fracF64UI w)"] by simp
  have A: "uint uiA = enc_make binary64 signZ 2047 0"
    if "enc_exp binary64 ?a = 2047" "enc_frac binary64 ?a = 0"
    using enc_make_self [of ?a binary64] that assms uint_lt2p [of uiA] by simp
  have P: "uint (packToF64UI signZ 0x7FF 0) = enc_make binary64 signZ 2047 0"
    by (subst uint_packToF64UI) simp_all
  have lt: "enc_exp binary64 ?a \<noteq> 2047 \<Longrightarrow> enc_exp binary64 ?a < 2047" "enc_exp binary64 ?b \<noteq> 2047 \<Longrightarrow> enc_exp binary64 ?b < 2047"
    using fr by simp_all
  note defs = mags_add_def enc_nan_def enc_inf_def inf_result_def softfloat_addMagsF64_def Let_def expF64UI_enc z or_eq_0_iff
  note facts = assms(2) A P propagateNaNF64UI_result [of uiA uiB st] lt
  show ?thesis
    using facts by (cases "enc_exp binary64 ?a = 2047"; cases "enc_exp binary64 ?b = 2047";
      cases "enc_frac binary64 ?a = 0"; cases "enc_frac binary64 ?b = 0") (simp_all add: defs)
qed

lemma uint_sum_low64:
  fixes uiA uiB :: u64
  assumes "enc_exp binary64 (uint uiA) = 0" "enc_exp binary64 (uint uiB) = 0"
  shows "uint ((uiA + uiB) AND 0x7FFFFFFFFFFFFFFF) = enc_frac binary64 (uint uiA) + enc_frac binary64 (uint uiB)"
proof -
  let ?a = "uint uiA" and ?b = "uint uiB"
  have "(uiA + uiB) AND 0x7FFFFFFFFFFFFFFF = take_bit 63 (uiA + uiB)" using and_low_mask [of "uiA + uiB" 63] by simp
  moreover have "uint (uiA + uiB) = (?a + ?b) mod 2 ^ 64" by (simp add: uint_word_ariths)
  ultimately have "uint ((uiA + uiB) AND 0x7FFFFFFFFFFFFFFF) = (?a + ?b) mod 2 ^ 64 mod 2 ^ 63" by (simp add: uint_take)
  also have "\<dots> = (?a + ?b) mod 2 ^ 63" by (rule mod_mod_cancel) simp
  also have "\<dots> = (?a mod 2 ^ 63 + ?b mod 2 ^ 63) mod 2 ^ 63" by (simp add: mod_add_eq)
  also have "\<dots> = (enc_frac binary64 ?a + enc_frac binary64 ?b) mod 2 ^ 63"
    using enc_low [of ?a binary64] enc_low [of ?b binary64] assms by simp
  finally show ?thesis using enc_field_range(3,4) [of binary64 ?a] enc_field_range(3,4) [of binary64 ?b] by simp
qed

lemma addMagsF64_zero:
  assumes e: "enc_exp binary64 (uint uiA) = 0" "enc_exp binary64 (uint uiB) = 0"
  shows "ieee_result binary64 signZ (enc_abs binary64 (uint uiA) + enc_abs binary64 (uint uiB)) st
    (softfloat_addMagsF64 uiA uiB signZ st)"
proof -
  let ?m = "enc_frac binary64 (uint uiA) + enc_frac binary64 (uint uiB)"
  note fr = enc_field_range(3,4) [of binary64 "uint uiA"] enc_field_range(3,4) [of binary64 "uint uiB"]
  note s = uint_sum_low64 [OF assms]
  have r: "softfloat_addMagsF64 uiA uiB signZ st = (packToF64UI signZ 0 ((uiA + uiB) AND 0x7FFFFFFFFFFFFFFF), st)"
    using e by (simp add: softfloat_addMagsF64_def Let_def expF64UI_enc)
  have "?m div 2 ^ 52 < 2" using fr by (simp add: int_div_less_iff)
  then show ?thesis unfolding r
    by (intro rp64.exact_pack [where e = 0 and m = ?m])
       (use fr s e in \<open>simp_all add: uint_packToF64UI enc_abs_def enc_sig_def algebra_simps\<close>)
qed

lemma addMagsF64_same:
  assumes e: "enc_exp binary64 (uint uiA) = enc_exp binary64 (uint uiB)"
    "enc_exp binary64 (uint uiA) \<noteq> 0" "enc_exp binary64 (uint uiA) \<noteq> 2047"
  shows "ieee_result binary64 signZ (enc_abs binary64 (uint uiA) + enc_abs binary64 (uint uiB)) st
    (softfloat_addMagsF64 uiA uiB signZ st)"
proof -
  let ?a = "uint uiA" and ?b = "uint uiB" and ?s = "0x4000000000000000 + push_bit 9 (fracF64UI uiA) + push_bit 9 (fracF64UI uiB)"
  let ?E = "enc_exp binary64 ?a"
  note fr = enc_field_range [of binary64 ?a] enc_field_range [of binary64 ?b]
  have r: "softfloat_addMagsF64 uiA uiB signZ st = softfloat_roundPackToF64 signZ ?E ?s st"
    using e by (simp add: softfloat_addMagsF64_def Let_def expF64UI_enc)
  have u: "uint ?s = (enc_shifted binary64 ?a + enc_shifted binary64 ?b) * 2 ^ (10 - 1)"
    using fr e by (simp add: uint_add_small uint_frac64 enc_shifted_def)
  have ab: "enc_abs binary64 ?a = of_int (enc_shifted binary64 ?a) * 2 powi (?E - 1 + fmt_qmin binary64)"
    "enc_abs binary64 ?b = of_int (enc_shifted binary64 ?b) * 2 powi (?E - 1 + fmt_qmin binary64)"
    using enc_abs_shifted [of ?E binary64 ?a 0] enc_abs_shifted [of ?E binary64 ?b 0] e(1) by simp_all
  show ?thesis unfolding r ab distrib_right [symmetric]
    by (rule rp64.correct_same [OF _ _ _ _ _ _ _ u]) (use fr e in \<open>simp_all add: enc_shifted_def\<close>)
qed

lemma addMagsF64_less:
  assumes e: "enc_exp binary64 (uint uiA) < enc_exp binary64 (uint uiB)" "enc_exp binary64 (uint uiB) \<noteq> 2047"
  shows "ieee_result binary64 signZ (enc_abs binary64 (uint uiA) + enc_abs binary64 (uint uiB)) st
    (softfloat_addMagsF64 uiA uiB signZ st)"
proof -
  let ?a = "uint uiA" and ?b = "uint uiB" and ?sA = "push_bit 9 (fracF64UI uiA)" and ?sB = "push_bit 9 (fracF64UI uiB)"
  let ?EA = "enc_exp binary64 ?a" and ?EB = "enc_exp binary64 ?b"
  define d where "d = nat (?EB - ?EA)"
  note fr = enc_field_range [of binary64 ?a] enc_field_range [of binary64 ?b] enc_shifted_range [of binary64 ?a]
  have d: "1 \<le> d" "?EB = ?EA + int d" using e by (simp_all add: d_def)
  define sJ where "sJ = softfloat_shiftRightJam64 (?sA + (if expF64UI uiA \<noteq> 0 then 0x2000000000000000 else ?sA)) (word_of_int (?EB - ?EA))"
  have J: "uint sJ = jam_shift d (enc_shifted binary64 ?a * 2 ^ 9)"
    unfolding sJ_def using e fr by (subst uint_jam64) (simp_all add: uint_shifted64 d_def)
  have r: "softfloat_addMagsF64 uiA uiB signZ st =
    (let z = 0x2000000000000000 + ?sB + sJ; (expZ, sigZ) = (if z < 0x4000000000000000 then (?EB - 1, push_bit 1 z) else (?EB, z))
     in softfloat_roundPackToF64 signZ expZ sigZ st)"
    using e fr unfolding sJ_def by (simp add: softfloat_addMagsF64_def Let_def expF64UI_enc add_ac)
  have "enc_abs binary64 ?b = of_int (2 ^ 52 + enc_frac binary64 ?b) * 2 powi (?EB - 1 + fmt_qmin binary64)"
    using enc_abs_shifted [of ?EB binary64 ?b 0] e fr by (simp add: enc_shifted_def)
  then have x: "enc_abs binary64 ?a + enc_abs binary64 ?b =
      (of_int (2 ^ 52 + enc_frac binary64 ?b) + of_int (enc_shifted binary64 ?a) / 2 ^ d) * 2 powi (?EB - 1 + fmt_qmin binary64)"
    using enc_abs_shifted [OF d(2)] by (simp add: algebra_simps)
  show ?thesis unfolding r Let_def
    by (rule addMagsF64_finish [unfolded Let_def, OF uint_frac64(1) _ _ J _ _ d(1) _ _ refl x]) (use fr in simp_all)
qed

lemma addMagsF64_greater:
  assumes e: "enc_exp binary64 (uint uiB) < enc_exp binary64 (uint uiA)" "enc_exp binary64 (uint uiA) \<noteq> 2047"
  shows "ieee_result binary64 signZ (enc_abs binary64 (uint uiA) + enc_abs binary64 (uint uiB)) st
    (softfloat_addMagsF64 uiA uiB signZ st)"
proof -
  let ?a = "uint uiA" and ?b = "uint uiB" and ?sA = "push_bit 9 (fracF64UI uiA)" and ?sB = "push_bit 9 (fracF64UI uiB)"
  let ?EA = "enc_exp binary64 ?a" and ?EB = "enc_exp binary64 ?b"
  define d where "d = nat (?EA - ?EB)"
  note fr = enc_field_range [of binary64 ?b] enc_field_range [of binary64 ?a] enc_shifted_range [of binary64 ?b]
  have d: "1 \<le> d" "?EA = ?EB + int d" using e by (simp_all add: d_def)
  define sJ where "sJ = softfloat_shiftRightJam64 (?sB + (if expF64UI uiB \<noteq> 0 then 0x2000000000000000 else ?sB)) (word_of_int (?EA - ?EB))"
  have J: "uint sJ = jam_shift d (enc_shifted binary64 ?b * 2 ^ 9)"
    unfolding sJ_def using e fr by (subst uint_jam64) (simp_all add: uint_shifted64 d_def)
  have r: "softfloat_addMagsF64 uiA uiB signZ st =
    (let z = 0x2000000000000000 + ?sA + sJ; (expZ, sigZ) = (if z < 0x4000000000000000 then (?EA - 1, push_bit 1 z) else (?EA, z))
     in softfloat_roundPackToF64 signZ expZ sigZ st)"
    using e fr unfolding sJ_def by (simp add: softfloat_addMagsF64_def Let_def expF64UI_enc add_ac)
  have "enc_abs binary64 ?a = of_int (2 ^ 52 + enc_frac binary64 ?a) * 2 powi (?EA - 1 + fmt_qmin binary64)"
    using enc_abs_shifted [of ?EA binary64 ?a 0] e fr by (simp add: enc_shifted_def)
  then have x: "enc_abs binary64 ?a + enc_abs binary64 ?b =
      (of_int (2 ^ 52 + enc_frac binary64 ?a) + of_int (enc_shifted binary64 ?b) / 2 ^ d) * 2 powi (?EA - 1 + fmt_qmin binary64)"
    using enc_abs_shifted [OF d(2)] by (simp add: algebra_simps)
  show ?thesis unfolding r Let_def
    by (rule addMagsF64_finish [unfolded Let_def, OF uint_frac64(1) _ _ J _ _ d(1) _ _ refl x]) (use fr in simp_all)
qed

theorem addMagsF64_correct:
  assumes "signZ = enc_sign binary64 (uint uiA)"
  shows "mags_add binary64 signZ (uint uiA) (uint uiB) st (softfloat_addMagsF64 uiA uiB signZ st)"
proof (cases "enc_exp binary64 (uint uiA) = 2047 \<or> enc_exp binary64 (uint uiB) = 2047")
  case True
  then show ?thesis using addMagsF64_special assms by blast
next
  case False
  then have "ieee_result binary64 signZ (enc_abs binary64 (uint uiA) + enc_abs binary64 (uint uiB)) st
    (softfloat_addMagsF64 uiA uiB signZ st)"
    using addMagsF64_zero addMagsF64_same addMagsF64_less addMagsF64_greater
    by (metis linorder_neqE_linordered_idom)
  then show ?thesis using False by (simp add: mags_add_def enc_nan_def enc_inf_def)
qed

lemma subMagsF64_special:
  assumes "signZ = enc_sign binary64 (uint uiA)"
    and "enc_exp binary64 (uint uiA) = 2047 \<or> enc_exp binary64 (uint uiB) = 2047"
  shows "mags_sub binary64 signZ (uint uiA) (uint uiB) st (softfloat_subMagsF64 uiA uiB signZ st)"
proof -
  let ?a = "uint uiA" and ?b = "uint uiB"
  note fr = enc_field_range [of binary64 ?a] enc_field_range [of binary64 ?b]
  have z: "push_bit 10 (fracF64UI w) = 0 \<longleftrightarrow> enc_frac binary64 (uint w) = 0" for w
    using uint_frac64(2) [of w] uint_eq_0 [of "push_bit 10 (fracF64UI w)"] by simp
  have A: "uint uiA = enc_make binary64 signZ 2047 0"
    if "enc_exp binary64 ?a = 2047" "enc_frac binary64 ?a = 0"
    using enc_make_self [of ?a binary64] that assms uint_lt2p [of uiA] by simp
  have P: "uint (packToF64UI s 0x7FF 0) = enc_make binary64 s 2047 0" for s
    by (subst uint_packToF64UI) simp_all
  have lt: "enc_exp binary64 ?a \<noteq> 2047 \<Longrightarrow> enc_exp binary64 ?a < 2047" "enc_exp binary64 ?b \<noteq> 2047 \<Longrightarrow> enc_exp binary64 ?b < 2047"
    using fr by simp_all
  have D: "nan_result binary64 True st (defaultNaNF64UI, softfloat_raiseFlags softfloat_flag_invalid st)"
    by (simp add: nan_result_def enc_make_def)
  note defs = mags_sub_def enc_nan_def enc_inf_def inf_result_def softfloat_subMagsF64_def Let_def expF64UI_enc z or_eq_0_iff
  note facts = assms(2) A P propagateNaNF64UI_result [of uiA uiB st] D lt
  show ?thesis
    using facts by (cases "enc_exp binary64 ?a = 2047"; cases "enc_exp binary64 ?b = 2047";
      cases "enc_frac binary64 ?a = 0"; cases "enc_frac binary64 ?b = 0") (simp_all add: defs)
qed

lemma subMagsF64_bigger:
  assumes e: "enc_exp binary64 (uint uiB) < enc_exp binary64 (uint uiA)" "enc_exp binary64 (uint uiA) \<noteq> 2047"
    and sJ: "sJ = softfloat_shiftRightJam64 (push_bit 10 (fracF64UI uiB) + (if expF64UI uiB \<noteq> 0 then 0x4000000000000000 else push_bit 10 (fracF64UI uiB))) (word_of_int (enc_exp binary64 (uint uiA) - enc_exp binary64 (uint uiB)))"
  shows "ieee_result binary64 s (enc_abs binary64 (uint uiA) - enc_abs binary64 (uint uiB)) st
      (softfloat_normRoundPackToF64 s (enc_exp binary64 (uint uiA) - 1)
        ((push_bit 10 (fracF64UI uiA) OR 0x4000000000000000) - sJ) st)"
proof -
  let ?a = "uint uiA" and ?b = "uint uiB" and ?sA = "push_bit 10 (fracF64UI uiA) OR 0x4000000000000000"
  let ?EA = "enc_exp binary64 ?a" and ?EB = "enc_exp binary64 ?b" and ?mb = "enc_shifted binary64 ?b"
  let ?ma = "2 ^ 52 + enc_frac binary64 ?a"
  define d where "d = nat (?EA - ?EB)"
  note fr = enc_field_range [of binary64 ?a] enc_field_range [of binary64 ?b] enc_shifted_range [of binary64 ?b]
  have d: "1 \<le> d" "?EA = ?EB + int d" using e by (simp_all add: d_def)
  have J: "uint sJ = jam_shift d (?mb * 2 ^ 10)"
    unfolding sJ using e fr by (subst uint_jam64) (simp_all add: uint_shifted64 d_def)
  have "uint (0x4000000000000000 OR push_bit 10 (fracF64UI uiA)) = uint (0x4000000000000000 :: u64) + uint (push_bit 10 (fracF64UI uiA))"
    by (rule uint_or_disjoint [where n = 62]) (use fr in \<open>simp_all add: uint_frac64\<close>)
  then have A: "uint ?sA = ?ma * 2 ^ 10" by (simp add: uint_frac64 or.commute)
  have j: "jam_shift d (?mb * 2 ^ 10) < 2 ^ 62"
  proof (subst jam_shift_less(1))
    have "(2::int) ^ 62 * 2 ^ 1 \<le> 2 ^ 62 * 2 ^ d" using d(1) by (intro mult_left_mono power_increasing) simp_all
    moreover have "?mb * 2 ^ 10 < 2 ^ 62 * 2 ^ 1" using fr by simp
    ultimately show "?mb * 2 ^ 10 < 2 ^ 62 * 2 ^ d" by linarith
  qed simp
  have S: "uint (?sA - sJ) = ?ma * 2 ^ 10 - jam_shift d (?mb * 2 ^ 10)"
    using A J j fr by (subst uint_sub_small) simp_all
  have a: "enc_abs binary64 ?a = of_int ?ma * 2 powi (?EA - 1 + fmt_qmin binary64)"
    using enc_abs_shifted [of ?EA binary64 ?a 0] e fr by (simp add: enc_shifted_def)
  have b: "enc_abs binary64 ?b = of_int ?mb / 2 ^ d * 2 powi (?EA - 1 + fmt_qmin binary64)"
    by (rule enc_abs_shifted [OF d(2)])
  show "ieee_result binary64 s (enc_abs binary64 ?a - enc_abs binary64 ?b) st
      (softfloat_normRoundPackToF64 s (?EA - 1) (?sA - sJ) st)"
    by (rule np64.correct_difference [OF _ _ _ _ d(1) _ _ S]) (use fr e in \<open>simp_all add: a b algebra_simps\<close>)
qed

lemma subMagsF64_same:
  assumes "enc_exp binary64 (uint uiA) = enc_exp binary64 (uint uiB)" "enc_exp binary64 (uint uiA) \<noteq> 2047"
    and "enc_frac binary64 (uint uiB) < enc_frac binary64 (uint uiA)"
  shows "ieee_result binary64 s (enc_abs binary64 (uint uiA) - enc_abs binary64 (uint uiB)) st
      (softfloat_normRoundPackToF64 s (max 1 (enc_exp binary64 (uint uiA)) - 1)
        (push_bit 10 (fracF64UI uiA) - push_bit 10 (fracF64UI uiB)) st)"
proof -
  let ?a = "uint uiA" and ?b = "uint uiB"
  note fr = enc_field_range [of binary64 ?a] enc_field_range [of binary64 ?b]
  have S: "uint (push_bit 10 (fracF64UI uiA) - push_bit 10 (fracF64UI uiB)) = (enc_frac binary64 ?a - enc_frac binary64 ?b) * 2 ^ 10"
    using assms(3) by (subst uint_sub_small) (simp_all add: uint_frac64)
  have x: "enc_abs binary64 ?a - enc_abs binary64 ?b =
      of_int (enc_frac binary64 ?a - enc_frac binary64 ?b) * 2 powi (max 1 (enc_exp binary64 ?a) - 1 + fmt_qmin binary64)"
    using assms(1) by (simp add: enc_abs_def enc_sig_def algebra_simps)
  show "ieee_result binary64 s (enc_abs binary64 ?a - enc_abs binary64 ?b) st
      (softfloat_normRoundPackToF64 s (max 1 (enc_exp binary64 ?a) - 1) (push_bit 10 (fracF64UI uiA) - push_bit 10 (fracF64UI uiB)) st)"
  proof (rule np64.correct_integer)
    show "enc_abs binary64 ?a - enc_abs binary64 ?b = of_int (uint (push_bit 10 (fracF64UI uiA) - push_bit 10 (fracF64UI uiB)))
        * 2 powi (max 1 (enc_exp binary64 ?a) - 1 + fmt_qmin binary64 - int 10)"
      unfolding x S by (simp add: power_int_diff)
  qed (use fr assms(3) S in simp_all)
qed

lemma subMagsF64_exp_differs:
  assumes "enc_finite binary64 (uint uiA)" "enc_finite binary64 (uint uiB)"
    and "enc_exp binary64 (uint uiA) \<noteq> enc_exp binary64 (uint uiB)"
  shows "mags_sub binary64 signZ (uint uiA) (uint uiB) st (softfloat_subMagsF64 uiA uiB signZ st)"
proof -
  let ?EA = "enc_exp binary64 (uint uiA)" and ?EB = "enc_exp binary64 (uint uiB)"
  consider (gt) "?EB < ?EA" | (lt) "?EA < ?EB" using assms(3) by linarith
  then show ?thesis
  proof cases
    case gt
    show ?thesis
      by (rule mags_sub_finite(1) [OF assms(1,2) enc_abs_less_exp [OF gt]])
         (use subMagsF64_bigger [OF gt _ refl, of signZ st] gt assms in
          \<open>simp add: softfloat_subMagsF64_def Let_def expF64UI_enc enc_finite_def\<close>)
  next
    case lt
    show ?thesis
      by (rule mags_sub_finite(2) [OF assms(1,2) enc_abs_less_exp [OF lt]])
         (use subMagsF64_bigger [OF lt _ refl, of "\<not> signZ" st] lt assms in
          \<open>simp add: softfloat_subMagsF64_def Let_def expF64UI_enc enc_finite_def\<close>)
  qed
qed

lemma subMagsF64_exp_same:
  assumes fin: "enc_finite binary64 (uint uiA)" "enc_finite binary64 (uint uiB)"
    and eq: "enc_exp binary64 (uint uiA) = enc_exp binary64 (uint uiB)"
  shows "mags_sub binary64 signZ (uint uiA) (uint uiB) st (softfloat_subMagsF64 uiA uiB signZ st)"
proof -
  let ?a = "uint uiA" and ?b = "uint uiB" and ?sA = "push_bit 10 (fracF64UI uiA)" and ?sB = "push_bit 10 (fracF64UI uiB)"
  let ?EA = "enc_exp binary64 ?a" and ?EB = "enc_exp binary64 ?b"
  have c: "?sB < ?sA \<longleftrightarrow> enc_abs binary64 ?b < enc_abs binary64 ?a" "?sA < ?sB \<longleftrightarrow> enc_abs binary64 ?a < enc_abs binary64 ?b"
    unfolding word_less_uint uint_frac64 enc_abs_same_exp(1) [OF eq] enc_abs_same_exp(1) [OF eq [symmetric]] by simp_all
  have Z: "ieee_result binary64 s 0 st (packToF64UI s 0 0, st)" for s
    by (rule rp64.zero_result) (subst uint_packToF64UI, simp_all)
  have M: "?EB \<noteq> 0 \<Longrightarrow> max 1 ?EB = ?EB" using enc_field_range(1) [of binary64 ?b] by simp
  have ne: "?EA \<noteq> 2047" "?EB \<noteq> 2047" using fin by (simp_all add: enc_finite_def)
  have r: "softfloat_subMagsF64 uiA uiB signZ st =
    (if enc_abs binary64 ?b < enc_abs binary64 ?a
     then softfloat_normRoundPackToF64 signZ (max 1 ?EA - 1) (?sA - ?sB) st
     else if enc_abs binary64 ?a < enc_abs binary64 ?b
     then softfloat_normRoundPackToF64 (\<not> signZ) (max 1 ?EB - 1) (?sB - ?sA) st
     else (packToF64UI (softfloat_roundingMode st = softfloat_round_min) 0 0, st))"
    unfolding c [symmetric] using eq ne M order_less_not_sym [of ?sA ?sB]
    by (simp add: softfloat_subMagsF64_def Let_def expF64UI_enc)
  consider "enc_abs binary64 ?b < enc_abs binary64 ?a" | "enc_abs binary64 ?a < enc_abs binary64 ?b"
    | "enc_abs binary64 ?a = enc_abs binary64 ?b" by linarith
  then show ?thesis
  proof cases
    case 1
    then show ?thesis using subMagsF64_same [OF eq, of signZ st] ne enc_abs_same_exp(1) [OF eq]
      by (intro mags_sub_finite(1) [OF fin]) (simp_all add: r)
  next
    case 2
    then show ?thesis using subMagsF64_same [OF eq [symmetric], of "\<not> signZ" st] ne enc_abs_same_exp(1) [OF eq [symmetric]]
      by (intro mags_sub_finite(2) [OF fin]) (simp_all add: r)
  next
    case 3
    then show ?thesis using Z by (intro mags_sub_finite(3) [OF fin]) (simp_all add: r)
  qed
qed

theorem subMagsF64_correct:
  assumes "signZ = enc_sign binary64 (uint uiA)"
  shows "mags_sub binary64 signZ (uint uiA) (uint uiB) st (softfloat_subMagsF64 uiA uiB signZ st)"
proof (cases "enc_finite binary64 (uint uiA) \<and> enc_finite binary64 (uint uiB)")
  case True
  then show ?thesis using subMagsF64_exp_differs subMagsF64_exp_same by blast
next
  case False
  then show ?thesis using subMagsF64_special [OF assms] by (simp add: enc_finite_def)
qed

lemma f64_add_ieee: "ieee_sum binary64 (uint a) (enc_sign binary64 (uint b)) (uint b) st (f64_add a b st)"
  using sum_of_mags_add [OF addMagsF64_correct [OF refl, of a b st]] sum_of_mags_sub [OF subMagsF64_correct [OF refl, of a b st]]
  unfolding f64_add_def Let_def signF64UI_enc
  by (cases "enc_sign binary64 (uint a)"; cases "enc_sign binary64 (uint b)") simp_all

lemma f64_sub_ieee: "ieee_sum binary64 (uint a) (\<not> enc_sign binary64 (uint b)) (uint b) st (f64_sub a b st)"
  using sum_of_mags_add [OF addMagsF64_correct [OF refl, of a b st]] sum_of_mags_sub [OF subMagsF64_correct [OF refl, of a b st]]
  unfolding f64_sub_def Let_def signF64UI_enc
  by (cases "enc_sign binary64 (uint a)"; cases "enc_sign binary64 (uint b)") simp_all

text \<open>C1. f32_add, f64_add, f32_sub and f64_sub return the IEEE 754 sum and difference of their operands: the exact real result rounded once in the current rounding mode with the flags of that rounding, and the canonical NaN, infinities and signed zeros where the standard asks for them.\<close>

theorem float_add_sub_correct:
  "ieee_sum binary32 (uint a) (enc_sign binary32 (uint b)) (uint b) st (f32_add a b st) \<and>
   ieee_sum binary64 (uint c) (enc_sign binary64 (uint d)) (uint d) st (f64_add c d st) \<and>
   ieee_sum binary32 (uint a) (\<not> enc_sign binary32 (uint b)) (uint b) st (f32_sub a b st) \<and>
   ieee_sum binary64 (uint c) (\<not> enc_sign binary64 (uint d)) (uint d) st (f64_sub c d st)"
  by (intro conjI f32_add_ieee f64_add_ieee f32_sub_ieee f64_sub_ieee)

end
