(* ===== verification/Softfloat_Mul.thy ===== *)
theory Softfloat_Mul
  imports Softfloat_Round
begin

text \<open>
  Multiplication: \<^verbatim>\<open>f32_mul.c\<close> and \<^verbatim>\<open>f64_mul.c\<close> in the configuration of \<^verbatim>\<open>platform.h\<close>, where the
  double-precision product is a 64-by-64-bit product (\<^verbatim>\<open>SOFTFLOAT_FAST_INT64\<close>).
\<close>

section \<open>The operations\<close>

definition f32_mul :: "u32 \<Rightarrow> u32 \<Rightarrow> softfloat_state \<Rightarrow> u32 \<times> softfloat_state" where
  "f32_mul a b st =
     (let uiA = (ucast a :: u64); signA = signF32UI uiA; expA = expF32UI uiA; sigA = fracF32UI uiA;
          uiB = (ucast b :: u64); signB = signF32UI uiB; expB = expF32UI uiB; sigB = fracF32UI uiB;
          signZ = (signA \<noteq> signB);
          propagateNaN = (let (uiZ, st) = softfloat_propagateNaNF32UI uiA uiB st in (ucast uiZ, st));
          infArg = (\<lambda>magBits :: u64.
            if magBits = 0
            then (ucast defaultNaNF32UI, softfloat_raiseFlags softfloat_flag_invalid st)
            else (ucast (packToF32UI signZ 0xFF 0), st));
          zero = (ucast (packToF32UI signZ 0 0), st)
      in if expA = 0xFF
         then if sigA \<noteq> 0 \<or> (expB = 0xFF \<and> sigB \<noteq> 0) then propagateNaN
              else infArg (word_of_int expB OR sigB)
         else if expB = 0xFF
         then if sigB \<noteq> 0 then propagateNaN else infArg (word_of_int expA OR sigA)
         else if expA = 0 \<and> sigA = 0 then zero
         else let (expA, sigA) = softfloat_normArgF32 expA sigA
              in if expB = 0 \<and> sigB = 0 then zero
         else let (expB, sigB) = softfloat_normArgF32 expB sigB;
                  expZ = expA + expB - 0x7F;
                  sigA = push_bit 7 (sigA OR 0x00800000);
                  sigB = push_bit 8 (sigB OR 0x00800000);
                  sigZ = softfloat_shortShiftRightJam64 (sigA * sigB) 32;
                  (expZ, sigZ) = (if sigZ < 0x40000000 then (expZ - 1, push_bit 1 sigZ) else (expZ, sigZ))
              in softfloat_roundPackToF32 signZ expZ sigZ st)"

definition f64_mul :: "u64 \<Rightarrow> u64 \<Rightarrow> softfloat_state \<Rightarrow> u64 \<times> softfloat_state" where
  "f64_mul a b st =
     (let uiA = a; signA = signF64UI uiA; expA = expF64UI uiA; sigA = fracF64UI uiA;
          uiB = b; signB = signF64UI uiB; expB = expF64UI uiB; sigB = fracF64UI uiB;
          signZ = (signA \<noteq> signB);
          propagateNaN = softfloat_propagateNaNF64UI uiA uiB st;
          infArg = (\<lambda>magBits :: u64.
            if magBits = 0
            then (defaultNaNF64UI, softfloat_raiseFlags softfloat_flag_invalid st)
            else (packToF64UI signZ 0x7FF 0, st));
          zero = (packToF64UI signZ 0 0, st)
      in if expA = 0x7FF
         then if sigA \<noteq> 0 \<or> (expB = 0x7FF \<and> sigB \<noteq> 0) then propagateNaN
              else infArg (word_of_int expB OR sigB)
         else if expB = 0x7FF
         then if sigB \<noteq> 0 then propagateNaN else infArg (word_of_int expA OR sigA)
         else if expA = 0 \<and> sigA = 0 then zero
         else let (expA, sigA) = softfloat_normArgF64 expA sigA
              in if expB = 0 \<and> sigB = 0 then zero
         else let (expB, sigB) = softfloat_normArgF64 expB sigB;
                  expZ = expA + expB - 0x3FF;
                  sigA = push_bit 10 (sigA OR 0x0010000000000000);
                  sigB = push_bit 11 (sigB OR 0x0010000000000000);
                  sig128Z = softfloat_mul64To128 sigA sigB;
                  sigZ = v64 sig128Z OR of_bool (v0 sig128Z \<noteq> 0);
                  (expZ, sigZ) = (if sigZ < 0x4000000000000000 then (expZ - 1, push_bit 1 sigZ) else (expZ, sigZ))
              in softfloat_roundPackToF64 signZ expZ sigZ st)"

section \<open>Products are correct\<close>

lemma f32_mul_finite:
  assumes fin: "enc_finite binary32 (uint a)" "enc_finite binary32 (uint b)"
    and nz: "\<not> enc_zero binary32 (uint a)" "\<not> enc_zero binary32 (uint b)"
  shows "ieee_result binary32 (enc_sign binary32 (uint a) \<noteq> enc_sign binary32 (uint b))
    (enc_abs binary32 (uint a) * enc_abs binary32 (uint b)) st (f32_mul a b st)"
proof -
  let ?A = "ucast a :: u64" and ?B = "ucast b :: u64"
  have u: "uint ?A = uint a" "uint ?B = uint b" by (simp_all add: uint_ucast_up)
  have l: "uint a < 2 ^ 32" "uint b < 2 ^ 32" using uint_lt2p [of a] uint_lt2p [of b] by simp_all
  obtain ea sa eb sb where ab: "softfloat_normArgF32 (expF32UI ?A) (fracF32UI ?A) = (ea, sa)"
    "softfloat_normArgF32 (expF32UI ?B) (fracF32UI ?B) = (eb, sb)" by force
  define ma mb where "ma = uint (sa OR 0x00800000)" and "mb = uint (sb OR 0x00800000)"
  have A: "norm_operand binary32 (uint a) ea ma" using normArgF32 [OF _ ab(1)] nz(1) by (simp add: u ma_def)
  have B: "norm_operand binary32 (uint b) eb mb" using normArgF32 [OF _ ab(2)] nz(2) by (simp add: u mb_def)
  have r: "2 ^ 23 \<le> ma" "ma < 2 ^ 24" "2 ^ 23 \<le> mb" "mb < 2 ^ 24" "-23 < ea" "-23 < eb" "ea \<le> 256" "eb \<le> 256"
    using A B by (simp_all add: norm_operand_def)
  define z where "z = softfloat_shortShiftRightJam64 (push_bit 7 (sa OR 0x00800000) * push_bit 8 (sb OR 0x00800000)) 32"
  have "uint (push_bit 7 (sa OR 0x00800000)) = ma * 2 ^ 7" "uint (push_bit 8 (sb OR 0x00800000)) = mb * 2 ^ 8"
    using r by (subst uint_push_small; simp add: ma_def mb_def)+
  moreover have "ma * 2 ^ 7 * (mb * 2 ^ 8) < 2 ^ 31 * 2 ^ 32" using r by (intro mult_strict_mono) simp_all
  ultimately have "uint (push_bit 7 (sa OR 0x00800000) * push_bit 8 (sb OR 0x00800000)) = ma * mb * 2 ^ 15"
    by (subst uint_mult_small) simp_all
  then have z: "uint z = jam_shift 32 (ma * mb * 2 ^ 15)" by (simp add: z_def uint_shortShiftRightJam64)
  have nz': "\<not> (expF32UI ?A = 0 \<and> fracF32UI ?A = 0)" "\<not> (expF32UI ?B = 0 \<and> fracF32UI ?B = 0)"
    using nz by (auto simp: enc_zero_def expF32UI_enc fracF32UI_zero u)
  have c: "expF32UI ?A \<noteq> 0xFF" "expF32UI ?B \<noteq> 0xFF" using fin by (simp_all add: enc_finite_def expF32UI_enc u)
  have sg: "signF32UI ?A = enc_sign binary32 (uint a)" "signF32UI ?B = enc_sign binary32 (uint b)"
    using l by (simp_all add: signF32UI_enc u)
  have lt: "z < 0x40000000 \<longleftrightarrow> uint z < 2 ^ 30" by (simp add: word_less_uint)
  have "f32_mul a b st = softfloat_roundPackToF32 (enc_sign binary32 (uint a) \<noteq> enc_sign binary32 (uint b))
      (if uint z < 2 ^ 30 then ea + eb - 127 - 1 else ea + eb - 127) (if uint z < 2 ^ 30 then push_bit 1 z else z) st"
    unfolding f32_mul_def Let_def sg if_not_P [OF c(1)] if_not_P [OF c(2)] if_not_P [OF nz'(1)] if_not_P [OF nz'(2)]
      ab prod.case z_def [symmetric] lt by (cases "uint z < 2 ^ 30") simp_all
  moreover have "uint (if uint z < 2 ^ 30 then push_bit 1 z else z) = (if uint z < 2 ^ 30 then 2 * uint z else uint z)"
    using uint_push_small [of z 1] by simp
  ultimately show ?thesis
    by (simp only:) (rule rp32.correct_product [OF _ A B, where n = "uint z"]; use r z in simp)
qed

lemma f32_mul_ieee: "ieee_product binary32 (uint a) (uint b) st (f32_mul a b st)"
proof -
  let ?A = "ucast a :: u64" and ?B = "ucast b :: u64"
  let ?s = "enc_sign binary32 (uint a) \<noteq> enc_sign binary32 (uint b)"
  have u: "uint ?A = uint a" "uint ?B = uint b" by (simp_all add: uint_ucast_up)
  have l: "uint a < 2 ^ 32" "uint b < 2 ^ 32" using uint_lt2p [of a] uint_lt2p [of b] by simp_all
  have sg: "signF32UI ?A = enc_sign binary32 (uint a)" "signF32UI ?B = enc_sign binary32 (uint b)"
    using l by (simp_all add: signF32UI_enc u)
  have I: "inf_result binary32 ?s st (ucast (packToF32UI ?s 0xFF 0) :: u32, st)"
    unfolding inf_result_def fst_conv by (subst uint_packToF32UI) simp_all
  have Z: "ieee_result binary32 ?s 0 st (ucast (packToF32UI ?s 0 0) :: u32, st)"
    by (rule rp32.zero_result) (subst uint_packToF32UI, simp_all)
  have D: "nan_result binary32 True st (ucast defaultNaNF32UI :: u32, softfloat_raiseFlags softfloat_flag_invalid st)"
    by (simp add: nan_result_def enc_make_def)
  note N = propagateNaNF32UI_result [of ?A ?B st, unfolded u Let_def]
  show ?thesis
  proof (cases "enc_finite binary32 (uint a) \<and> enc_finite binary32 (uint b)")
    case fin: True
    show ?thesis
    proof (cases "enc_zero binary32 (uint a) \<or> enc_zero binary32 (uint b)")
      case True
      then have m: "f32_mul a b st = (ucast (packToF32UI ?s 0 0) :: u32, st)"
        using fin unfolding f32_mul_def Let_def sg
        by (auto simp: enc_zero_def enc_finite_def expF32UI_enc fracF32UI_zero u split: prod.splits)
      have "enc_abs binary32 (uint a) * enc_abs binary32 (uint b) = 0" using True enc_abs_zero by auto
      with Z m have "ieee_result binary32 ?s (enc_abs binary32 (uint a) * enc_abs binary32 (uint b)) st (f32_mul a b st)"
        by (simp only:)
      then show ?thesis using fin by (simp add: ieee_product_def Let_def enc_finite_def enc_nan_def enc_inf_def)
    next
      case False
      then show ?thesis using f32_mul_finite [of a b st] fin
        by (simp add: ieee_product_def Let_def enc_finite_def enc_nan_def enc_inf_def)
    qed
  next
    case False
    then show ?thesis using I D N
      unfolding f32_mul_def Let_def sg exp_or_frac32 ieee_product_def
      by (cases "enc_exp binary32 (uint a) = 255"; cases "enc_exp binary32 (uint b) = 255";
          cases "enc_frac binary32 (uint a) = 0"; cases "enc_frac binary32 (uint b) = 0")
         (simp_all add: enc_finite_def enc_nan_def enc_inf_def enc_zero_def u expF32UI_enc fracF32UI_zero)
  qed
qed

lemma f64_mul_finite:
  assumes fin: "enc_finite binary64 (uint a)" "enc_finite binary64 (uint b)"
    and nz: "\<not> enc_zero binary64 (uint a)" "\<not> enc_zero binary64 (uint b)"
  shows "ieee_result binary64 (enc_sign binary64 (uint a) \<noteq> enc_sign binary64 (uint b))
    (enc_abs binary64 (uint a) * enc_abs binary64 (uint b)) st (f64_mul a b st)"
proof -
  obtain ea sa eb sb where ab: "softfloat_normArgF64 (expF64UI a) (fracF64UI a) = (ea, sa)"
    "softfloat_normArgF64 (expF64UI b) (fracF64UI b) = (eb, sb)" by force
  define ma mb where "ma = uint (sa OR 0x0010000000000000)" and "mb = uint (sb OR 0x0010000000000000)"
  have A: "norm_operand binary64 (uint a) ea ma" using normArgF64 [OF _ ab(1)] nz(1) by (simp add: ma_def)
  have B: "norm_operand binary64 (uint b) eb mb" using normArgF64 [OF _ ab(2)] nz(2) by (simp add: mb_def)
  have r: "2 ^ 52 \<le> ma" "ma < 2 ^ 53" "2 ^ 52 \<le> mb" "mb < 2 ^ 53" "-52 < ea" "-52 < eb" "ea \<le> 2048" "eb \<le> 2048"
    using A B by (simp_all add: norm_operand_def)
  define P where "P = softfloat_mul64To128 (push_bit 10 (sa OR 0x0010000000000000)) (push_bit 11 (sb OR 0x0010000000000000))"
  define z where "z = v64 P OR of_bool (v0 P \<noteq> 0)"
  have "uint (push_bit 10 (sa OR 0x0010000000000000)) = ma * 2 ^ 10" "uint (push_bit 11 (sb OR 0x0010000000000000)) = mb * 2 ^ 11"
    using r by (subst uint_push_small; simp add: ma_def mb_def)+
  then have "u128 P = ma * mb * 2 ^ 21" by (simp add: P_def mul64To128_correct)
  then have z: "uint z = jam_shift 64 (ma * mb * 2 ^ 21)" by (simp only: z_def u128_jam)
  have nz': "\<not> (expF64UI a = 0 \<and> fracF64UI a = 0)" "\<not> (expF64UI b = 0 \<and> fracF64UI b = 0)"
    using nz by (auto simp: enc_zero_def expF64UI_enc fracF64UI_zero)
  have c: "expF64UI a \<noteq> 0x7FF" "expF64UI b \<noteq> 0x7FF" using fin by (simp_all add: enc_finite_def expF64UI_enc)
  have sg: "signF64UI a = enc_sign binary64 (uint a)" "signF64UI b = enc_sign binary64 (uint b)"
    by (simp_all add: signF64UI_enc)
  have lt: "z < 0x4000000000000000 \<longleftrightarrow> uint z < 2 ^ 62" by (simp add: word_less_uint)
  have "f64_mul a b st = softfloat_roundPackToF64 (enc_sign binary64 (uint a) \<noteq> enc_sign binary64 (uint b))
      (if uint z < 2 ^ 62 then ea + eb - 1023 - 1 else ea + eb - 1023) (if uint z < 2 ^ 62 then push_bit 1 z else z) st"
    unfolding f64_mul_def Let_def sg if_not_P [OF c(1)] if_not_P [OF c(2)] if_not_P [OF nz'(1)] if_not_P [OF nz'(2)]
      ab prod.case P_def [symmetric] z_def [symmetric] lt by (cases "uint z < 2 ^ 62") simp_all
  moreover have "uint (if uint z < 2 ^ 62 then push_bit 1 z else z) = (if uint z < 2 ^ 62 then 2 * uint z else uint z)"
    using uint_push_small [of z 1] by simp
  ultimately show ?thesis
    by (simp only:) (rule rp64.correct_product [OF _ A B, where n = "uint z"]; use r z in simp)
qed

lemma f64_mul_ieee: "ieee_product binary64 (uint a) (uint b) st (f64_mul a b st)"
proof -
  let ?s = "enc_sign binary64 (uint a) \<noteq> enc_sign binary64 (uint b)"
  have sg: "signF64UI a = enc_sign binary64 (uint a)" "signF64UI b = enc_sign binary64 (uint b)"
    by (simp_all add: signF64UI_enc)
  have I: "inf_result binary64 ?s st (packToF64UI ?s 0x7FF 0, st)"
    unfolding inf_result_def fst_conv by (subst uint_packToF64UI) simp_all
  have Z: "ieee_result binary64 ?s 0 st (packToF64UI ?s 0 0, st)"
    by (rule rp64.zero_result) (subst uint_packToF64UI, simp_all)
  have D: "nan_result binary64 True st (defaultNaNF64UI, softfloat_raiseFlags softfloat_flag_invalid st)"
    by (simp add: nan_result_def enc_make_def)
  note N = propagateNaNF64UI_result [of a b st]
  show ?thesis
  proof (cases "enc_finite binary64 (uint a) \<and> enc_finite binary64 (uint b)")
    case fin: True
    show ?thesis
    proof (cases "enc_zero binary64 (uint a) \<or> enc_zero binary64 (uint b)")
      case True
      then have m: "f64_mul a b st = (packToF64UI ?s 0 0, st)"
        using fin unfolding f64_mul_def Let_def sg
        by (auto simp: enc_zero_def enc_finite_def expF64UI_enc fracF64UI_zero split: prod.splits)
      have "enc_abs binary64 (uint a) * enc_abs binary64 (uint b) = 0" using True enc_abs_zero by auto
      with Z m have "ieee_result binary64 ?s (enc_abs binary64 (uint a) * enc_abs binary64 (uint b)) st (f64_mul a b st)"
        by (simp only:)
      then show ?thesis using fin by (simp add: ieee_product_def Let_def enc_finite_def enc_nan_def enc_inf_def)
    next
      case False
      then show ?thesis using f64_mul_finite [of a b st] fin
        by (simp add: ieee_product_def Let_def enc_finite_def enc_nan_def enc_inf_def)
    qed
  next
    case False
    then show ?thesis using I D N
      unfolding f64_mul_def Let_def sg exp_or_frac64 ieee_product_def
      by (cases "enc_exp binary64 (uint a) = 2047"; cases "enc_exp binary64 (uint b) = 2047";
          cases "enc_frac binary64 (uint a) = 0"; cases "enc_frac binary64 (uint b) = 0")
         (simp_all add: enc_finite_def enc_nan_def enc_inf_def enc_zero_def expF64UI_enc fracF64UI_zero)
  qed
qed

end
