(* ===== verification/Softfloat_Div.thy ===== *)
theory Softfloat_Div
  imports Softfloat_Mul
begin

text \<open>
  Division: \<^verbatim>\<open>f32_div.c\<close> and \<^verbatim>\<open>f64_div.c\<close> in the configuration of \<^verbatim>\<open>platform.h\<close>. The
  single-precision quotient is one 64-bit division (\<^verbatim>\<open>SOFTFLOAT_FAST_DIV64TO32\<close>). The
  double-precision quotient is estimated in two steps with a 32-bit reciprocal; the estimate
  exceeds the quotient by less than 64 units, and a third remainder decides the cases in which
  that is not enough to round.
\<close>

section \<open>The operations\<close>

definition f32_div :: "u32 \<Rightarrow> u32 \<Rightarrow> softfloat_state \<Rightarrow> u32 \<times> softfloat_state" where
  "f32_div a b st =
     (let uiA = (ucast a :: u64); signA = signF32UI uiA; expA = expF32UI uiA; sigA = fracF32UI uiA;
          uiB = (ucast b :: u64); signB = signF32UI uiB; expB = expF32UI uiB; sigB = fracF32UI uiB;
          signZ = (signA \<noteq> signB);
          propagateNaN = (let (uiZ, st) = softfloat_propagateNaNF32UI uiA uiB st in (ucast uiZ, st));
          invalid = (ucast defaultNaNF32UI, softfloat_raiseFlags softfloat_flag_invalid st);
          infinity = (\<lambda>st. (ucast (packToF32UI signZ 0xFF 0), st));
          zero = (ucast (packToF32UI signZ 0 0), st)
      in if expA = 0xFF
         then if sigA \<noteq> 0 then propagateNaN
              else if expB = 0xFF then if sigB \<noteq> 0 then propagateNaN else invalid
              else infinity st
         else if expB = 0xFF
         then if sigB \<noteq> 0 then propagateNaN else zero
         else if expB = 0 \<and> sigB = 0
         then if word_of_int expA OR sigA = 0 then invalid
              else infinity (softfloat_raiseFlags softfloat_flag_infinite st)
         else let (expB, sigB) = softfloat_normArgF32 expB sigB
              in if expA = 0 \<and> sigA = 0 then zero
         else let (expA, sigA) = softfloat_normArgF32 expA sigA;
                  expZ = expA - expB + 0x7E;
                  sigA = sigA OR 0x00800000;
                  sigB = sigB OR 0x00800000;
                  (expZ, sig64A) = (if sigA < sigB then (expZ - 1, push_bit 31 sigA)
                                    else (expZ, push_bit 30 sigA));
                  sigZ = sig64A div sigB;
                  sigZ = (if sigZ AND 0x3F = 0 then sigZ OR of_bool (sigB * sigZ \<noteq> sig64A) else sigZ)
              in softfloat_roundPackToF32 signZ expZ sigZ st)"

text \<open>The significand of a double-precision quotient, from the shifted significands.\<close>

definition f64_div_sig :: "u64 \<Rightarrow> u64 \<Rightarrow> u64" where
  "f64_div_sig sigA sigB =
     (let recip32 = softfloat_approxRecip32_1 (ucast (drop_bit 32 sigB)) - 2;
          sig32Z = (ucast (drop_bit 32 (ucast (ucast (drop_bit 32 sigA) :: u32) * (ucast recip32 :: u64))) :: u32);
          doubleTerm = push_bit 1 sig32Z;
          rem = push_bit 28 (sigA - ucast doubleTerm * ucast (ucast (drop_bit 32 sigB) :: u32))
                  - ucast doubleTerm * ucast (drop_bit 4 (ucast sigB :: u32));
          q = (ucast (drop_bit 32 (ucast (ucast (drop_bit 32 rem) :: u32) * (ucast recip32 :: u64)) + 4) :: u32);
          sigZ = push_bit 32 (ucast sig32Z) + push_bit 4 (ucast q)
      in if sigZ AND 0x1FF < push_bit 4 4
         then let q = q AND NOT 7;
                  sigZ = sigZ AND NOT 0x7F;
                  doubleTerm = push_bit 1 q;
                  rem = push_bit 28 (rem - ucast doubleTerm * ucast (ucast (drop_bit 32 sigB) :: u32))
                          - ucast doubleTerm * ucast (drop_bit 4 (ucast sigB :: u32))
              in if rem AND 0x8000000000000000 \<noteq> 0 then sigZ - push_bit 7 1
                 else if rem \<noteq> 0 then sigZ OR 1 else sigZ
         else sigZ)"

definition f64_div :: "u64 \<Rightarrow> u64 \<Rightarrow> softfloat_state \<Rightarrow> u64 \<times> softfloat_state" where
  "f64_div a b st =
     (let uiA = a; signA = signF64UI uiA; expA = expF64UI uiA; sigA = fracF64UI uiA;
          uiB = b; signB = signF64UI uiB; expB = expF64UI uiB; sigB = fracF64UI uiB;
          signZ = (signA \<noteq> signB);
          propagateNaN = softfloat_propagateNaNF64UI uiA uiB st;
          invalid = (defaultNaNF64UI, softfloat_raiseFlags softfloat_flag_invalid st);
          infinity = (\<lambda>st. (packToF64UI signZ 0x7FF 0, st));
          zero = (packToF64UI signZ 0 0, st)
      in if expA = 0x7FF
         then if sigA \<noteq> 0 then propagateNaN
              else if expB = 0x7FF then if sigB \<noteq> 0 then propagateNaN else invalid
              else infinity st
         else if expB = 0x7FF
         then if sigB \<noteq> 0 then propagateNaN else zero
         else if expB = 0 \<and> sigB = 0
         then if word_of_int expA OR sigA = 0 then invalid
              else infinity (softfloat_raiseFlags softfloat_flag_infinite st)
         else let (expB, sigB) = softfloat_normArgF64 expB sigB
              in if expA = 0 \<and> sigA = 0 then zero
         else let (expA, sigA) = softfloat_normArgF64 expA sigA;
                  expZ = expA - expB + 0x3FE;
                  sigA = sigA OR 0x0010000000000000;
                  sigB = sigB OR 0x0010000000000000;
                  (expZ, sigA) = (if sigA < sigB then (expZ - 1, push_bit 11 sigA)
                                  else (expZ, push_bit 10 sigA));
                  sigB = push_bit 11 sigB;
                  sigZ = f64_div_sig sigA sigB
              in softfloat_roundPackToF64 signZ expZ sigZ st)"

section \<open>Quotients are correct\<close>

lemma f32_div_finite:
  assumes fin: "enc_finite binary32 (uint a)" "enc_finite binary32 (uint b)"
    and nz: "\<not> enc_zero binary32 (uint a)" "\<not> enc_zero binary32 (uint b)"
  shows "ieee_result binary32 (enc_sign binary32 (uint a) \<noteq> enc_sign binary32 (uint b))
    (enc_abs binary32 (uint a) / enc_abs binary32 (uint b)) st (f32_div a b st)"
proof -
  let ?A = "ucast a :: u64" and ?B = "ucast b :: u64"
  have u: "uint ?A = uint a" "uint ?B = uint b" by (simp_all add: uint_ucast_up)
  have l: "uint a < 2 ^ 32" "uint b < 2 ^ 32" using uint_lt2p [of a] uint_lt2p [of b] by simp_all
  obtain ea sa eb sb where ab: "softfloat_normArgF32 (expF32UI ?A) (fracF32UI ?A) = (ea, sa)"
    "softfloat_normArgF32 (expF32UI ?B) (fracF32UI ?B) = (eb, sb)" by force
  define A B where "A = sa OR 0x00800000" and "B = sb OR 0x00800000"
  have na: "norm_operand binary32 (uint a) ea (uint A)" using normArgF32 [OF _ ab(1)] nz(1) by (simp add: u A_def)
  have nb: "norm_operand binary32 (uint b) eb (uint B)" using normArgF32 [OF _ ab(2)] nz(2) by (simp add: u B_def)
  have r: "2 ^ 23 \<le> uint A" "uint A < 2 ^ 24" "2 ^ 23 \<le> uint B" "uint B < 2 ^ 24" "-23 < ea" "-23 < eb" "ea \<le> 256" "eb \<le> 256"
    using na nb by (simp_all add: norm_operand_def)
  define N where "N = (if A < B then push_bit 31 A else push_bit 30 A)"
  define q where "q = N div B"
  define z where "z = (if q AND 0x3F = 0 then q OR of_bool (B * q \<noteq> N) else q)"
  have nz': "\<not> (expF32UI ?A = 0 \<and> fracF32UI ?A = 0)" "\<not> (expF32UI ?B = 0 \<and> fracF32UI ?B = 0)"
    using nz by (auto simp: enc_zero_def expF32UI_enc fracF32UI_zero u)
  have c: "expF32UI ?A \<noteq> 0xFF" "expF32UI ?B \<noteq> 0xFF" using fin by (simp_all add: enc_finite_def expF32UI_enc u)
  have sg: "signF32UI ?A = enc_sign binary32 (uint a)" "signF32UI ?B = enc_sign binary32 (uint b)"
    using l by (simp_all add: signF32UI_enc u)
  have R: "f32_div a b st = softfloat_roundPackToF32 (enc_sign binary32 (uint a) \<noteq> enc_sign binary32 (uint b))
      (if A < B then ea - eb + 126 - 1 else ea - eb + 126) z st"
    unfolding f32_div_def Let_def sg if_not_P [OF c(1)] if_not_P [OF c(2)] if_not_P [OF nz'(1)] if_not_P [OF nz'(2)]
      ab prod.case A_def [symmetric] B_def [symmetric] z_def q_def N_def by (cases "A < B") simp_all
  have N: "uint N = (if uint A < uint B then uint A * 2 ^ 31 else uint A * 2 ^ 30)"
    using r by (auto simp: N_def word_less_uint uint_push_small)
  have q: "uint q = uint N div uint B" by (simp add: q_def uint_div)
  have "q AND 0x3F = take_bit 6 q" using and_low_mask [of q 6] by simp
  then have m: "q AND 0x3F = 0 \<longleftrightarrow> uint q mod 64 = 0" using uint_take [of 6 q] uint_eq_0 [of "take_bit 6 q"] by simp
  have "uint B * uint q \<le> uint N" unfolding q using int_div_bounds(1) [of "uint B" "uint N"] r by (simp add: mult.commute)
  then have "uint (B * q) = uint B * uint q" using uint_lt2p [of N] by (intro uint_mult_small) linarith
  then have p: "B * q \<noteq> N \<longleftrightarrow> uint B * uint q \<noteq> uint N" by (simp add: word_eq_uint)
  have "uint z = (if uint q mod 64 = 0 then uint q + of_bool (uint B * uint q \<noteq> uint N) else uint q)"
    unfolding z_def m p by (auto simp: uint_or_one)
  then have st: "sticky (2 ^ (7 - 1)) (of_int (uint N) / of_int (uint B)) (uint z)"
    using r by (intro sticky_quotient) (simp_all add: q)
  show ?thesis unfolding R
    by (rule rp32.correct_quotient [OF na nb _ _ _ _ st]) (use r N in \<open>simp_all add: word_less_uint\<close>)
qed

lemma f32_div_ieee: "ieee_quotient binary32 (uint a) (uint b) st (f32_div a b st)"
proof -
  let ?A = "ucast a :: u64" and ?B = "ucast b :: u64"
  let ?s = "enc_sign binary32 (uint a) \<noteq> enc_sign binary32 (uint b)"
  have u: "uint ?A = uint a" "uint ?B = uint b" by (simp_all add: uint_ucast_up)
  have l: "uint a < 2 ^ 32" "uint b < 2 ^ 32" using uint_lt2p [of a] uint_lt2p [of b] by simp_all
  have sg: "signF32UI ?A = enc_sign binary32 (uint a)" "signF32UI ?B = enc_sign binary32 (uint b)"
    using l by (simp_all add: signF32UI_enc u)
  have I: "inf_result binary32 ?s st' (ucast (packToF32UI ?s 0xFF 0) :: u32, st')" for st'
    unfolding inf_result_def fst_conv by (subst uint_packToF32UI) simp_all
  have Z: "ieee_result binary32 ?s 0 st (ucast (packToF32UI ?s 0 0) :: u32, st)"
    by (rule rp32.zero_result) (subst uint_packToF32UI, simp_all)
  have D: "nan_result binary32 True st (ucast defaultNaNF32UI :: u32, softfloat_raiseFlags softfloat_flag_invalid st)"
    by (simp add: nan_result_def enc_make_def)
  note N = propagateNaNF32UI_result [of ?A ?B st, unfolded u Let_def]
  note defs = enc_finite_def enc_nan_def enc_inf_def enc_zero_def
  show ?thesis
  proof (cases "enc_finite binary32 (uint a) \<and> enc_finite binary32 (uint b)")
    case fin: True
    consider "enc_zero binary32 (uint b)" | "enc_zero binary32 (uint a)" "\<not> enc_zero binary32 (uint b)"
      | "\<not> enc_zero binary32 (uint a)" "\<not> enc_zero binary32 (uint b)" by blast
    then show ?thesis
    proof cases
      case 1
      then show ?thesis using fin I D unfolding f32_div_def Let_def sg exp_or_frac32 ieee_quotient_def
        by (cases "enc_exp binary32 (uint a) = 0"; cases "enc_frac binary32 (uint a) = 0")
           (simp_all add: defs u expF32UI_enc fracF32UI_zero)
    next
      case 2
      then have "f32_div a b st = (ucast (packToF32UI ?s 0 0) :: u32, st)"
        using fin unfolding f32_div_def Let_def sg
        by (auto simp: defs expF32UI_enc fracF32UI_zero u split: prod.splits)
      moreover have "enc_abs binary32 (uint a) = 0" using 2 enc_abs_zero by auto
      ultimately show ?thesis using Z fin 2
        by (simp add: ieee_quotient_def Let_def enc_finite_def enc_nan_def enc_inf_def)
    next
      case 3
      then show ?thesis using f32_div_finite [of a b st] fin
        by (simp add: ieee_quotient_def Let_def enc_finite_def enc_nan_def enc_inf_def)
    qed
  next
    case False
    then show ?thesis using I D N Z
      unfolding f32_div_def Let_def sg ieee_quotient_def
      by (cases "enc_exp binary32 (uint a) = 255"; cases "enc_exp binary32 (uint b) = 255";
          cases "enc_frac binary32 (uint a) = 0"; cases "enc_frac binary32 (uint b) = 0")
         (simp_all add: defs u expF32UI_enc fracF32UI_zero)
  qed
qed

section \<open>The double-precision quotient\<close>

text \<open>The estimate \<open>t X = (X div 2^32) * r div 2^32\<close> of \<open>X * 2^31 / B\<close> is too small, by less than 5.\<close>

lemma recip_bounds:
  assumes "2 ^ 31 \<le> (h :: int)" "h < 2 ^ 32" and r: "r = (2 ^ 63 - 1) div h - 2"
  shows "0 < r" "r * (h + 1) < 2 ^ 63" "2 ^ 63 \<le> (r + 3) * h" "r + 3 \<le> 2 ^ 32"
proof -
  have h0: "0 < h" using assms(1) by simp
  note b = int_div_bounds [OF h0, of "2 ^ 63 - 1"]
  have q: "(2 ^ 63 - 1) div h = r + 2" using r by simp
  have "3 * h \<le> 2 ^ 63 - 1" using assms(2) by simp
  then have "3 \<le> r + 2" unfolding q [symmetric] using le_int_div_iff [OF h0] by blast
  then show "0 < r" by simp
  have "2 ^ 63 - 1 < 2 ^ 32 * h" using assms(1) by simp
  then have "r + 2 < 2 ^ 32" unfolding q [symmetric] using int_div_less_iff [OF h0] by blast
  then show r3: "r + 3 \<le> 2 ^ 32" by simp
  show "2 ^ 63 \<le> (r + 3) * h" using b(2) unfolding q by (simp add: add.assoc)
  have "(r + 2) * h \<le> 2 ^ 63 - 1" using b(1) unfolding q .
  moreover have "r < 2 * h" using r3 assms(1) by simp
  ultimately show "r * (h + 1) < 2 ^ 63" by (simp add: distrib_right distrib_left)
qed

lemma quotient_estimate:
  assumes h: "2 ^ 31 \<le> (h :: int)" "h < 2 ^ 32" and r: "r = (2 ^ 63 - 1) div h - 2"
    and B: "B = h * 2 ^ 32 + l" "0 \<le> l" "l < 2 ^ 32" and X: "0 < X"
    and t: "xh = X div 2 ^ 32" "t = xh * r div 2 ^ 32"
  shows "t * B < X * 2 ^ 31" "X * 2 ^ 63 < ((t + 2) * 2 ^ 32 + 3 * xh) * B" "0 \<le> t"
proof -
  note rb = recip_bounds [OF h r]
  have x: "0 \<le> xh" "xh * 2 ^ 32 \<le> X" "X < (xh + 1) * 2 ^ 32"
    using X int_div_bounds [of "2 ^ 32" X] by (simp_all add: t pos_imp_zdiv_nonneg_iff)
  have "0 \<le> xh * r" using x rb by simp
  then show t0: "0 \<le> t" by (simp add: t(2) pos_imp_zdiv_nonneg_iff)
  have tb: "t * 2 ^ 32 \<le> xh * r" "xh * r < (t + 1) * 2 ^ 32" using int_div_bounds [of "2 ^ 32" "xh * r"] by (simp_all add: t(2))
  have Bb: "h * 2 ^ 32 \<le> B" "B < (h + 1) * 2 ^ 32" using B by simp_all
  show "t * B < X * 2 ^ 31"
  proof (cases "xh = 0")
    case True
    then show ?thesis using X by (simp add: t(2))
  next
    case False
    have "t * B \<le> t * ((h + 1) * 2 ^ 32)" using Bb t0 by (intro mult_left_mono) simp_all
    also have "\<dots> = t * 2 ^ 32 * (h + 1)" by simp
    also have "\<dots> \<le> xh * r * (h + 1)" using tb(1) h by (intro mult_right_mono) simp_all
    also have "\<dots> = xh * (r * (h + 1))" by simp
    also have "\<dots> < xh * 2 ^ 63" using rb(2) False x(1) by (intro mult_strict_left_mono) simp_all
    also have "\<dots> \<le> X * 2 ^ 31" using x(2) by simp
    finally show ?thesis .
  qed
  have B0: "0 < B" using Bb h by simp
  have "X * 2 ^ 63 < (xh + 1) * 2 ^ 32 * 2 ^ 63" using x(3) by (intro mult_strict_right_mono) simp_all
  also have "\<dots> \<le> (xh + 1) * 2 ^ 32 * ((r + 3) * h)" using rb(3) x(1) by (intro mult_left_mono) simp_all
  also have "\<dots> = (xh + 1) * (r + 3) * (h * 2 ^ 32)" by simp
  also have "\<dots> \<le> (xh + 1) * (r + 3) * B" using Bb(1) x(1) rb(1) by (intro mult_left_mono) simp_all
  also have "\<dots> \<le> ((t + 2) * 2 ^ 32 + 3 * xh) * B"
  proof (rule mult_right_mono)
    have "(xh + 1) * (r + 3) = xh * r + 3 * xh + (r + 3)" by (simp add: algebra_simps)
    then show "(xh + 1) * (r + 3) \<le> (t + 2) * 2 ^ 32 + 3 * xh" using tb(2) rb(4) by (simp add: algebra_simps)
  qed (use B0 in simp)
  finally show "X * 2 ^ 63 < ((t + 2) * 2 ^ 32 + 3 * xh) * B" .
qed

lemma quotient_steps:
  assumes h: "2 ^ 31 \<le> (h :: int)" "h < 2 ^ 32" and r: "r = (2 ^ 63 - 1) div h - 2"
    and B: "B = h * 2 ^ 32 + l" "0 \<le> l" "l < 2 ^ 32" "B = 8 * b" and A: "0 < A" "A < B"
    and s1: "Q = A div 2 ^ 32 * r div 2 ^ 32" "R = 2 ^ 28 * A - Q * b" and s2: "q = R div 2 ^ 32 * r div 2 ^ 32 + 4"
  shows "0 \<le> Q" "Q < 2 ^ 31" "0 < R" "8 * R < 5 * B" "(q - 4) * B < R * 2 ^ 31" "R * 2 ^ 31 < q * B" "4 \<le> q" "q < 2 ^ 31"
proof -
  have B64: "B < 2 ^ 64" "0 < B" using h B by simp_all
  note e1 = quotient_estimate [OF h r B(1-3) A(1) refl s1(1)]
  show "0 \<le> Q" by (rule e1(3))
  have R8: "8 * R = A * 2 ^ 31 - Q * B" unfolding s1(2) B(4) by simp
  show R0: "0 < R" using e1(1) R8 by simp
  have "Q * B < 2 ^ 31 * B" using e1(1) A(2) by simp
  then show Q: "Q < 2 ^ 31" using B64(2) by simp
  have x1: "A div 2 ^ 32 < 2 ^ 32" using A B64(1) by (simp add: int_div_less_iff)
  have "A * 2 ^ 31 * 2 ^ 32 < ((Q + 2) * 2 ^ 32 + 3 * (A div 2 ^ 32)) * B" using e1(2) by simp
  also have "\<dots> \<le> ((Q + 5) * 2 ^ 32) * B" using x1 B64(2) by (intro mult_right_mono) simp_all
  also have "\<dots> = (Q + 5) * B * 2 ^ 32" by simp
  finally have "A * 2 ^ 31 < (Q + 5) * B" by (rule mult_right_less_imp_less) simp
  then show R5: "8 * R < 5 * B" using R8 by (simp add: distrib_right)
  define t where "t = R div 2 ^ 32 * r div 2 ^ 32"
  note e2 = quotient_estimate [OF h r B(1-3) R0 refl t_def]
  have q: "q = t + 4" by (simp add: s2 t_def)
  show "(q - 4) * B < R * 2 ^ 31" using e2(1) by (simp add: q)
  have x2: "R div 2 ^ 32 < 5 * 2 ^ 29" using R5 B64(1) by (simp add: int_div_less_iff)
  have "R * 2 ^ 31 * 2 ^ 32 < ((t + 2) * 2 ^ 32 + 3 * (R div 2 ^ 32)) * B" using e2(2) by simp
  also have "\<dots> \<le> (q * 2 ^ 32) * B" using x2 B64(2) unfolding q by (intro mult_right_mono) simp_all
  also have "\<dots> = q * B * 2 ^ 32" by simp
  finally show "R * 2 ^ 31 < q * B" by (rule mult_right_less_imp_less) simp
  show "4 \<le> q" using e2(3) by (simp add: q)
  have "t * B < 5 * 2 ^ 28 * B" using e2(1) R5 by simp
  then have "t < 5 * 2 ^ 28" using B64(2) by simp
  then show "q < 2 ^ 31" by (simp add: q)
qed

text \<open>The words of the code as these integers.\<close>

lemma word_estimate:
  assumes "uint r32 = r" "0 < r" "r < 2 ^ 32" and "0 \<le> X" "uint (w :: u64) = X"
  shows "uint (drop_bit 32 (ucast (ucast (drop_bit 32 w) :: u32) * (ucast (r32 :: u32) :: u64))) = X div 2 ^ 32 * r div 2 ^ 32"
    "X div 2 ^ 32 * r div 2 ^ 32 < 2 ^ 32"
proof -
  have xh: "0 \<le> X div 2 ^ 32" "X div 2 ^ 32 < 2 ^ 32"
    using assms(4,5) uint_lt2p [of w] by (simp_all add: int_div_less_iff pos_imp_zdiv_nonneg_iff)
  have "uint (ucast (ucast (drop_bit 32 w) :: u32) :: u64) = X div 2 ^ 32"
    using xh assms(5) by (simp add: uint_ucast_up uint_ucast uint_drop)
  moreover have "uint (ucast r32 :: u64) = r" using assms(1) by (simp add: uint_ucast_up)
  moreover have m: "X div 2 ^ 32 * r < 2 ^ 32 * 2 ^ 32" using xh assms(2,3) by (intro mult_strict_mono) simp_all
  ultimately show "uint (drop_bit 32 (ucast (ucast (drop_bit 32 w) :: u32) * (ucast r32 :: u64))) = X div 2 ^ 32 * r div 2 ^ 32"
    by (simp add: uint_drop uint_mult_small)
  show "X div 2 ^ 32 * r div 2 ^ 32 < 2 ^ 32" using m by (simp add: int_div_less_iff)
qed

lemma word_remainder:
  assumes B: "uint sigB = h * 2 ^ 32 + l" "0 \<le> h" "h < 2 ^ 32" "0 \<le> l" "l < 2 ^ 32" "16 dvd l"
    and b: "uint sigB = 8 * b" and Q: "uint (w :: u32) = Q" "Q < 2 ^ 31" and X: "x = word_of_int X"
  shows "push_bit 28 (x - ucast (push_bit 1 w) * ucast (ucast (drop_bit 32 sigB) :: u32))
      - ucast (push_bit 1 w) * ucast (drop_bit 4 (ucast sigB :: u32)) = (word_of_int (2 ^ 28 * X - Q * b) :: u64)"
proof -
  have "uint (ucast (push_bit 1 w) :: u64) = 2 * Q" using Q uint_push_small [of w 1] by (simp add: uint_ucast_up)
  then have w1: "ucast (push_bit 1 w) = (word_of_int (2 * Q) :: u64)" by (metis word_of_int_uint)
  have "uint sigB div 2 ^ 32 = h" "uint sigB mod 2 ^ 32 = l" using B by simp_all
  then have "uint (ucast (ucast (drop_bit 32 sigB) :: u32) :: u64) = h" "uint (ucast (drop_bit 4 (ucast sigB :: u32)) :: u64) = l div 16"
    using B by (simp_all add: uint_ucast_up uint_ucast uint_drop)
  then have w2: "ucast (ucast (drop_bit 32 sigB) :: u32) = (word_of_int h :: u64)"
    "ucast (drop_bit 4 (ucast sigB :: u32)) = (word_of_int (l div 16) :: u64)" by (metis word_of_int_uint)+
  have e: "2 ^ 28 * X - Q * b = (X - 2 * Q * h) * 2 ^ 28 - 2 * Q * (l div 16)"
  proof -
    have "l = 16 * (l div 16)" using B(6) by simp
    then have "b = h * 2 ^ 29 + 2 * (l div 16)" using B(1) b by simp
    then show ?thesis by (simp add: algebra_simps)
  qed
  show ?thesis unfolding e w1 w2 X by (simp add: push_bit_eq_mult)
qed

lemma sticky_ratio:
  assumes "0 < M" "\<And>m. N < m * g * M \<longleftrightarrow> n < m * g" "\<And>m. m * g * M < N \<longleftrightarrow> m * g < n"
  shows "sticky g (of_int N / of_int M) n"
  unfolding sticky_def
proof (intro allI)
  fix m :: int
  have "of_int N / of_int M < (of_int (m * g) :: real) \<longleftrightarrow> N < m * g * M" "(of_int (m * g) :: real) < of_int N / of_int M \<longleftrightarrow> m * g * M < N"
    using assms(1) by (simp_all add: pos_divide_less_eq pos_less_divide_eq flip: of_int_mult)
  then show "(of_int N / of_int M < (of_int (m * g) :: real) \<longleftrightarrow> n < m * g) \<and> ((of_int (m * g) :: real) < of_int N / of_int M \<longleftrightarrow> m * g < n)"
    using assms(2,3) by blast
qed

text \<open>A ratio that lies between two neighbours of \<open>n\<close> with no multiple of \<open>g\<close> inside.\<close>

lemma sticky_between:
  assumes M: "0 < M" and a: "a * M < N" "N < b * M" and g: "0 < g" "k * g \<le> a" "b \<le> (k + 1) * g" "k * g < n" "n < (k + 1) * g"
  shows "sticky g (of_int N / of_int M) (n :: int)"
proof (rule sticky_cell [OF _ _ g(4,5,1)])
  have "k * g * M < N" "N < (k + 1) * g * M" using a mult_right_mono [OF g(2), of M] mult_right_mono [OF g(3), of M] M by linarith+
  then have "real_of_int (k * g * M) < of_int N" "real_of_int N < of_int ((k + 1) * g * M)" by (simp_all only: of_int_less_iff)
  then show "of_int (k * g) < (of_int N / of_int M :: real)" "(of_int N / of_int M :: real) < of_int ((k + 1) * g)"
    using M by (simp_all add: pos_less_divide_eq pos_divide_less_eq)
qed

lemma quotient_rounding:
  assumes B: "0 < B" "B < 2 ^ 64" "B = 8 * b" and R: "8 * R = A * 2 ^ 31 - Q * B" "(q - 4) * B < R * 2 ^ 31" "R * 2 ^ 31 < q * B"
    and S: "S = Q * 2 ^ 32 + 16 * q"
  shows "64 \<le> S mod 512 \<Longrightarrow> sticky (2 ^ 9) (of_int (A * 2 ^ 63) / of_int B) S"
    and "S mod 512 < 64 \<Longrightarrow> R' = 2 ^ 28 * R - (q - q mod 8) * b \<Longrightarrow> S' = S - S mod 128 \<Longrightarrow> \<bar>R'\<bar> < 2 ^ 63 \<and>
      sticky (2 ^ 9) (of_int (A * 2 ^ 63) / of_int B) (if R' < 0 then S' - 128 else if R' \<noteq> 0 then S' + 1 else S') \<and> 512 dvd S' \<and>
      (R' < 0 \<longrightarrow> A * 2 ^ 63 < S' * B)"
proof -
  have N: "A * 2 ^ 63 = Q * 2 ^ 32 * B + 16 * (R * 2 ^ 31)" using R(1) by simp
  have lo: "(S - 64) * B < A * 2 ^ 63" and hi: "A * 2 ^ 63 < S * B" unfolding N S using R(2,3) by (simp_all add: algebra_simps)
  show "64 \<le> S mod 512 \<Longrightarrow> sticky (2 ^ 9) (of_int (A * 2 ^ 63) / of_int B) S"
  proof -
    assume m: "64 \<le> S mod 512"
    define k r where "k = S div 512" and "r = S mod 512"
    have "S = k * 512 + r" "r < 512" "64 \<le> r" using m by (simp_all add: k_def r_def)
    then show ?thesis by (intro sticky_between [OF B(1) lo hi, of _ k]) simp_all
  qed
  assume m: "S mod 512 < 64" and R': "R' = 2 ^ 28 * R - (q - q mod 8) * b" and S': "S' = S - S mod 128"
  have q32: "S mod 512 = 16 * (q mod 32)"
  proof -
    have "S mod 512 = (16 * q) mod 512" unfolding S by (simp add: mod_add_left_eq [symmetric])
    then show ?thesis using mult_mod_right [of 16 q 32] by simp
  qed
  have r3: "q mod 32 < 4" using m q32 by simp
  have q8: "q mod 8 = q mod 32" "S mod 128 = S mod 512"
    using r3 m mod_mod_cancel [of 8 32 q] mod_mod_cancel [of 128 512 S] pos_mod_sign [of 32 q] pos_mod_sign [of 512 S] by simp_all
  define k where "k = S div 512"
  have S2: "S' = k * 512" "S' = Q * 2 ^ 32 + 16 * (q - q mod 8)"
    unfolding S' q8 by (simp add: k_def minus_mod_eq_div_mult) (use q32 S in \<open>simp add: right_diff_distrib\<close>)
  have d: "8 * R' = R * 2 ^ 31 - (q - q mod 8) * B" unfolding R' B(3) by simp
  have eq: "A * 2 ^ 63 = S' * B + 128 * R'" unfolding N S2(2) using d by (simp add: algebra_simps)
  define u where "u = q mod 8"
  have "0 \<le> u" "u \<le> 3" using r3 by (simp_all add: u_def q8)
  then have "0 \<le> u * B" "u * B \<le> 3 * B" using B(1) by (simp_all add: mult_right_mono)
  moreover have "u * B - 4 * B < 8 * R'" "8 * R' < u * B" unfolding d u_def [symmetric] using R(2,3) by (simp_all add: algebra_simps)
  ultimately have bnd: "- 4 * B < 8 * R'" "8 * R' < 4 * B" using B(1) by linarith+
  have abs: "\<bar>R'\<bar> < 2 ^ 63" using bnd B(2) by simp
  have b: "(S' - 64) * B < A * 2 ^ 63" "A * 2 ^ 63 < (S' + 64) * B" unfolding eq using bnd by (simp_all add: algebra_simps)
  have "sticky (2 ^ 9) (of_int (A * 2 ^ 63) / of_int B) (if R' < 0 then S' - 128 else if R' \<noteq> 0 then S' + 1 else S')"
  proof -
    consider "R' < 0" | "R' = 0" | "0 < R'" by linarith
    then show ?thesis
    proof cases
      case 1
      have "A * 2 ^ 63 < S' * B" using eq 1 by simp
      then have "sticky (2 ^ 9) (of_int (A * 2 ^ 63) / of_int B) (S' - 128)"
        by (intro sticky_between [OF B(1) b(1), of S' _ "k - 1"]) (simp_all add: S2(1))
      then show ?thesis using 1 by (simp only: if_True)
    next
      case 2
      then have "of_int (A * 2 ^ 63) / of_int B = (of_int S' :: real)" using eq B(1) by simp
      then show ?thesis using 2 by (simp only: sticky_refl if_False simp_thms less_irrefl)
    next
      case 3
      have "S' * B < A * 2 ^ 63" using eq 3 by simp
      then have "sticky (2 ^ 9) (of_int (A * 2 ^ 63) / of_int B) (S' + 1)"
        by (intro sticky_between [OF B(1) _ b(2), of S' _ k]) (simp_all add: S2(1))
      moreover have "\<not> R' < 0" "R' \<noteq> 0" using 3 by simp_all
      ultimately show ?thesis by (simp only: if_False if_True simp_thms)
    qed
  qed
  then show "\<bar>R'\<bar> < 2 ^ 63 \<and>
      sticky (2 ^ 9) (of_int (A * 2 ^ 63) / of_int B) (if R' < 0 then S' - 128 else if R' \<noteq> 0 then S' + 1 else S') \<and> 512 dvd S' \<and>
      (R' < 0 \<longrightarrow> A * 2 ^ 63 < S' * B)"
  proof (intro conjI impI abs)
    show "512 dvd S'" by (simp add: S2(1))
    show "R' < 0 \<Longrightarrow> A * 2 ^ 63 < S' * B" using eq by simp
  qed
qed

lemma f64_div_sig_sticky:
  assumes A: "0 < uint sigA" "uint sigA < uint sigB" and B: "2 ^ 63 \<le> uint sigB" "2 ^ 11 dvd uint sigB"
  shows "sticky (2 ^ 9) (of_int (uint sigA * 2 ^ 63) / of_int (uint sigB)) (uint (f64_div_sig sigA sigB))"
proof -
  define h l b where "h = uint sigB div 2 ^ 32" and "l = uint sigB mod 2 ^ 32" and "b = uint sigB div 8"
  have B64: "uint sigB < 2 ^ 64" using uint_lt2p [of sigB] by simp
  have hl: "uint sigB = h * 2 ^ 32 + l" "0 \<le> l" "l < 2 ^ 32" by (simp_all add: h_def l_def)
  have h: "2 ^ 31 \<le> h" "h < 2 ^ 32" "0 \<le> h" using B(1) B64 by (simp_all add: h_def le_int_div_iff int_div_less_iff)
  have "8 dvd uint sigB" using B(2) dvd_trans [of 8 "2 ^ 11" "uint sigB"] by simp
  then have b: "uint sigB = 8 * b" by (simp add: b_def)
  have "16 dvd uint sigB" using B(2) dvd_trans [of 16 "2 ^ 11" "uint sigB"] by simp
  then have l16: "16 dvd l" by (simp add: l_def dvd_mod)
  define r where "r = (2 ^ 63 - 1) div h - 2"
  note rb = recip_bounds [OF h(1,2) r_def]
  define r32 where "r32 = softfloat_approxRecip32_1 (ucast (drop_bit 32 sigB)) - 2"
  have r32: "uint r32 = r"
  proof -
    have "uint (ucast (ucast (drop_bit 32 sigB) :: u32) :: u64) = h" using h by (simp add: uint_ucast_up uint_ucast uint_drop h_def)
    moreover have "(2 ^ 63 - 1) div h = r + 2" by (simp add: r_def)
    ultimately have "uint (softfloat_approxRecip32_1 (ucast (drop_bit 32 sigB))) = r + 2"
      using rb by (simp add: softfloat_approxRecip32_1_def uint_ucast uint_div)
    then show ?thesis unfolding r32_def using rb by (subst uint_sub_small) simp_all
  qed
  define z where "z = (ucast (drop_bit 32 (ucast (ucast (drop_bit 32 sigA) :: u32) * (ucast r32 :: u64))) :: u32)"
  define rem where "rem = push_bit 28 (sigA - ucast (push_bit 1 z) * ucast (ucast (drop_bit 32 sigB) :: u32))
    - ucast (push_bit 1 z) * ucast (drop_bit 4 (ucast sigB :: u32))"
  define qw where "qw = (ucast (drop_bit 32 (ucast (ucast (drop_bit 32 rem) :: u32) * (ucast r32 :: u64)) + 4) :: u32)"
  define s where "s = (push_bit 32 (ucast z) + push_bit 4 (ucast qw) :: u64)"
  define Q R q where "Q = uint sigA div 2 ^ 32 * r div 2 ^ 32" and "R = 2 ^ 28 * uint sigA - Q * b" and "q = R div 2 ^ 32 * r div 2 ^ 32 + 4"
  note st = quotient_steps [OF h(1,2) r_def hl b A Q_def R_def q_def]
  have rr: "0 < r" "r < 2 ^ 32" using rb by simp_all
  have zQ: "uint z = Q" unfolding z_def Q_def using word_estimate [OF r32 rr _ refl, of sigA] by (simp add: uint_ucast_small)
  have remR: "rem = word_of_int R" unfolding rem_def R_def
    by (rule word_remainder [OF hl(1) h(3,2) hl(2,3) l16 b zQ st(2)]) simp
  have "R < 2 ^ 64" using st(4) B64 by simp
  then have uR: "uint rem = R" using st(3) by (simp add: remR uint_word_of_int)
  have qq: "uint qw = q"
  proof -
    note we = word_estimate [OF r32 rr _ uR]
    have "uint (drop_bit 32 (ucast (ucast (drop_bit 32 rem) :: u32) * (ucast r32 :: u64)) + 4) = q"
      using we st(3,8) by (subst uint_add_small) (simp_all add: q_def)
    then show ?thesis unfolding qw_def using st(7,8) by (subst uint_ucast_small) simp_all
  qed
  define S where "S = Q * 2 ^ 32 + 16 * q"
  have sS: "uint s = S"
  proof -
    have "uint (push_bit 32 (ucast z) :: u64) = Q * 2 ^ 32" "uint (push_bit 4 (ucast qw) :: u64) = 16 * q"
      using st zQ qq by (subst uint_push_small; simp add: uint_ucast_up)+
    then show ?thesis unfolding s_def S_def using st by (subst uint_add_small) simp_all
  qed
  have R8: "8 * R = uint sigA * 2 ^ 31 - Q * uint sigB" unfolding R_def using b by simp
  have B0: "0 < uint sigB" using B(1) by simp
  note qr = quotient_rounding [OF B0 B64 b R8 st(5,6) S_def]
  define qm where "qm = qw AND NOT 7"
  define sm where "sm = s AND NOT 0x7F"
  define rem' where "rem' = push_bit 28 (rem - ucast (push_bit 1 qm) * ucast (ucast (drop_bit 32 sigB) :: u32))
    - ucast (push_bit 1 qm) * ucast (drop_bit 4 (ucast sigB :: u32))"
  have cond: "s AND 0x1FF < push_bit 4 4 \<longleftrightarrow> S mod 512 < 64"
  proof -
    have "s AND 0x1FF = take_bit 9 s" using and_low_mask [of s 9] by simp
    then have "uint (s AND 0x1FF) = S mod 512" by (simp add: uint_take sS)
    then show ?thesis by (simp add: word_less_uint)
  qed
  have F: "f64_div_sig sigA sigB = (if S mod 512 < 64
      then if rem' AND 0x8000000000000000 \<noteq> 0 then sm - push_bit 7 1 else if rem' \<noteq> 0 then sm OR 1 else sm else s)"
    unfolding f64_div_sig_def Let_def r32_def [symmetric] z_def [symmetric] rem_def [symmetric] qw_def [symmetric]
      s_def [symmetric] qm_def [symmetric] sm_def [symmetric] rem'_def [symmetric] cond ..
  show ?thesis
  proof (cases "S mod 512 < 64")
    case False
    then show ?thesis using qr(1) F sS by simp
  next
    case True
    define R' S' where "R' = 2 ^ 28 * R - (q - q mod 8) * b" and "S' = S - S mod 128"
    note c = qr(2) [OF True R'_def S'_def]
    have qm: "uint qm = q - q mod 8" using uint_and_not_mask [of 3 qw] qq by (simp add: qm_def)
    have sm: "uint sm = S'" using uint_and_not_mask [of 7 s] sS by (simp add: sm_def S'_def)
    have "q - q mod 8 < 2 ^ 31" using st(8) pos_mod_sign [of 8 q] by linarith
    then have rm: "rem' = word_of_int R'" unfolding rem'_def R'_def
      by (rule word_remainder [OF hl(1) h(3,2) hl(2,3) l16 b qm _ remR])
    have uR': "uint rem' = (if R' < 0 then R' + 2 ^ 64 else R')"
    proof -
      have a: "\<bar>R'\<bar> < 2 ^ 63" using c by blast
      have "R' mod 2 ^ 64 = (R' + 2 ^ 64) mod 2 ^ 64" by simp
      also have "\<dots> = R' + 2 ^ 64" if "R' < 0" using that a by (intro mod_pos_pos_trivial) simp_all
      finally show ?thesis using a unfolding rm by (simp add: uint_word_of_int)
    qed
    have top: "rem' AND 0x8000000000000000 \<noteq> 0 \<longleftrightarrow> R' < 0" unfolding and_top_bit64 uR' using c by auto
    have nz: "rem' \<noteq> 0 \<longleftrightarrow> R' \<noteq> 0" using uR' uint_eq_0 [of rem'] c by (auto split: if_splits)
    have neg: "128 \<le> S'" if "R' < 0"
    proof -
      have "0 < uint sigA * 2 ^ 63" using A(1) by simp
      then have "0 < S' * uint sigB" using c that by linarith
      then have "0 < S'" using B0 by (simp add: zero_less_mult_iff)
      moreover from c obtain k where "S' = 512 * k" by blast
      ultimately show ?thesis by simp
    qed
    have ev: "even S'" using c by (meson dvd_trans even_numeral)
    have "uint (f64_div_sig sigA sigB) = (if R' < 0 then S' - 128 else if R' \<noteq> 0 then S' + 1 else S')"
      unfolding F top nz using True sm neg ev uint_or_one [of sm True] by (auto simp: uint_sub_small)
    then show ?thesis using c by (simp only:)
  qed
qed

lemma f64_div_finite:
  assumes fin: "enc_finite binary64 (uint a)" "enc_finite binary64 (uint b)"
    and nz: "\<not> enc_zero binary64 (uint a)" "\<not> enc_zero binary64 (uint b)"
  shows "ieee_result binary64 (enc_sign binary64 (uint a) \<noteq> enc_sign binary64 (uint b))
    (enc_abs binary64 (uint a) / enc_abs binary64 (uint b)) st (f64_div a b st)"
proof -
  obtain ea sa eb sb where ab: "softfloat_normArgF64 (expF64UI a) (fracF64UI a) = (ea, sa)"
    "softfloat_normArgF64 (expF64UI b) (fracF64UI b) = (eb, sb)" by force
  define A B where "A = sa OR 0x0010000000000000" and "B = sb OR 0x0010000000000000"
  have na: "norm_operand binary64 (uint a) ea (uint A)" using normArgF64 [OF _ ab(1)] nz(1) by (simp add: A_def)
  have nb: "norm_operand binary64 (uint b) eb (uint B)" using normArgF64 [OF _ ab(2)] nz(2) by (simp add: B_def)
  have r: "2 ^ 52 \<le> uint A" "uint A < 2 ^ 53" "2 ^ 52 \<le> uint B" "uint B < 2 ^ 53" "-52 < ea" "-52 < eb" "ea \<le> 2048" "eb \<le> 2048"
    using na nb by (simp_all add: norm_operand_def)
  define A' where "A' = (if A < B then push_bit 11 A else push_bit 10 A)"
  define N where "N = (if uint A < uint B then uint A * 2 ^ 63 else uint A * 2 ^ 62)"
  have nz': "\<not> (expF64UI a = 0 \<and> fracF64UI a = 0)" "\<not> (expF64UI b = 0 \<and> fracF64UI b = 0)"
    using nz by (auto simp: enc_zero_def expF64UI_enc fracF64UI_zero)
  have c: "expF64UI a \<noteq> 0x7FF" "expF64UI b \<noteq> 0x7FF" using fin by (simp_all add: enc_finite_def expF64UI_enc)
  have sg: "signF64UI a = enc_sign binary64 (uint a)" "signF64UI b = enc_sign binary64 (uint b)"
    by (simp_all add: signF64UI_enc)
  have R: "f64_div a b st = softfloat_roundPackToF64 (enc_sign binary64 (uint a) \<noteq> enc_sign binary64 (uint b))
      (if A < B then ea - eb + 1022 - 1 else ea - eb + 1022) (f64_div_sig A' (push_bit 11 B)) st"
    unfolding f64_div_def Let_def sg if_not_P [OF c(1)] if_not_P [OF c(2)] if_not_P [OF nz'(1)] if_not_P [OF nz'(2)]
      ab prod.case A_def [symmetric] B_def [symmetric] A'_def by (cases "A < B") simp_all
  have uB: "uint (push_bit 11 B) = uint B * 2 ^ 11" using r by (simp add: uint_push_small)
  have uA: "uint A' = (if uint A < uint B then uint A * 2 ^ 11 else uint A * 2 ^ 10)"
    using r by (auto simp: A'_def word_less_uint uint_push_small)
  have "sticky (2 ^ 9) (of_int (uint A' * 2 ^ 63) / of_int (uint (push_bit 11 B))) (uint (f64_div_sig A' (push_bit 11 B)))"
    by (rule f64_div_sig_sticky) (use r in \<open>auto simp: uA uB\<close>)
  moreover have "of_int (uint A' * 2 ^ 63) / of_int (uint (push_bit 11 B)) = (of_int N / of_int (uint B) :: real)"
    using r by (auto simp: uA uB N_def)
  ultimately have st: "sticky (2 ^ (10 - 1)) (of_int N / of_int (uint B)) (uint (f64_div_sig A' (push_bit 11 B)))" by simp
  show ?thesis unfolding R
    by (rule rp64.correct_quotient [OF na nb _ _ _ _ st]) (use r in \<open>simp_all add: word_less_uint N_def\<close>)
qed

lemma f64_div_ieee: "ieee_quotient binary64 (uint a) (uint b) st (f64_div a b st)"
proof -
  let ?s = "enc_sign binary64 (uint a) \<noteq> enc_sign binary64 (uint b)"
  have sg: "signF64UI a = enc_sign binary64 (uint a)" "signF64UI b = enc_sign binary64 (uint b)"
    by (simp_all add: signF64UI_enc)
  have I: "inf_result binary64 ?s st' (packToF64UI ?s 0x7FF 0, st')" for st'
    unfolding inf_result_def fst_conv by (subst uint_packToF64UI) simp_all
  have Z: "ieee_result binary64 ?s 0 st (packToF64UI ?s 0 0, st)"
    by (rule rp64.zero_result) (subst uint_packToF64UI, simp_all)
  have D: "nan_result binary64 True st (defaultNaNF64UI, softfloat_raiseFlags softfloat_flag_invalid st)"
    by (simp add: nan_result_def enc_make_def)
  note N = propagateNaNF64UI_result [of a b st]
  note defs = enc_finite_def enc_nan_def enc_inf_def enc_zero_def
  show ?thesis
  proof (cases "enc_finite binary64 (uint a) \<and> enc_finite binary64 (uint b)")
    case fin: True
    consider "enc_zero binary64 (uint b)" | "enc_zero binary64 (uint a)" "\<not> enc_zero binary64 (uint b)"
      | "\<not> enc_zero binary64 (uint a)" "\<not> enc_zero binary64 (uint b)" by blast
    then show ?thesis
    proof cases
      case 1
      then show ?thesis using fin I D unfolding f64_div_def Let_def sg exp_or_frac64 ieee_quotient_def
        by (cases "enc_exp binary64 (uint a) = 0"; cases "enc_frac binary64 (uint a) = 0")
           (simp_all add: defs expF64UI_enc fracF64UI_zero)
    next
      case 2
      then have "f64_div a b st = (packToF64UI ?s 0 0, st)"
        using fin unfolding f64_div_def Let_def sg
        by (auto simp: defs expF64UI_enc fracF64UI_zero split: prod.splits)
      moreover have "enc_abs binary64 (uint a) = 0" using 2 enc_abs_zero by auto
      ultimately show ?thesis using Z fin 2
        by (simp add: ieee_quotient_def Let_def enc_finite_def enc_nan_def enc_inf_def)
    next
      case 3
      then show ?thesis using f64_div_finite [of a b st] fin
        by (simp add: ieee_quotient_def Let_def enc_finite_def enc_nan_def enc_inf_def)
    qed
  next
    case False
    then show ?thesis using I D N Z
      unfolding f64_div_def Let_def sg ieee_quotient_def
      by (cases "enc_exp binary64 (uint a) = 2047"; cases "enc_exp binary64 (uint b) = 2047";
          cases "enc_frac binary64 (uint a) = 0"; cases "enc_frac binary64 (uint b) = 0")
         (simp_all add: defs expF64UI_enc fracF64UI_zero)
  qed
qed

text \<open>C3. f32_mul, f64_mul, f32_div and f64_div return the IEEE 754 product and quotient of their operands, correctly rounded with exact flags: subnormal operands and results, zero times infinity, division by zero, invalid quotients and NaNs included.\<close>

theorem float_mul_div_correct:
  "ieee_product binary32 (uint a) (uint b) st (f32_mul a b st) \<and>
   ieee_product binary64 (uint c) (uint d) st (f64_mul c d st) \<and>
   ieee_quotient binary32 (uint a) (uint b) st (f32_div a b st) \<and>
   ieee_quotient binary64 (uint c) (uint d) st (f64_div c d st)"
  by (intro conjI f32_mul_ieee f64_mul_ieee f32_div_ieee f64_div_ieee)

end
