(* ===== verification/Softfloat_Compare.thy ===== *)
theory Softfloat_Compare
  imports Softfloat_Round
begin

text \<open>
  Comparisons and classification: \<^verbatim>\<open>f32_eq.c\<close>, \<^verbatim>\<open>f32_eq_signaling.c\<close>, \<^verbatim>\<open>f32_le.c\<close>,
  \<^verbatim>\<open>f32_le_quiet.c\<close>, \<^verbatim>\<open>f32_lt.c\<close>, \<^verbatim>\<open>f32_lt_quiet.c\<close>, \<^verbatim>\<open>f32_isSignalingNaN.c\<close>,
  \<^verbatim>\<open>f32_classify.c\<close> and the files of the double-precision format. The code compares bit
  patterns; the theory shows that this decides the order of the values, infinities and
  signed zeros included, and derives the laws of the order once for both formats, in the
  locale \<open>float_order\<close>.
\<close>

section \<open>Single precision\<close>

definition f32_eq :: "u32 \<Rightarrow> u32 \<Rightarrow> softfloat_state \<Rightarrow> bool \<times> softfloat_state" where
  "f32_eq a b st =
     (let uiA = (ucast a :: u64); uiB = (ucast b :: u64)
      in if isNaNF32UI uiA \<or> isNaNF32UI uiB
         then (False, if softfloat_isSigNaNF32UI uiA \<or> softfloat_isSigNaNF32UI uiB
                      then softfloat_raiseFlags softfloat_flag_invalid st else st)
         else (uiA = uiB \<or> (ucast (push_bit 1 (uiA OR uiB)) :: u32) = 0, st))"

definition f32_eq_signaling :: "u32 \<Rightarrow> u32 \<Rightarrow> softfloat_state \<Rightarrow> bool \<times> softfloat_state" where
  "f32_eq_signaling a b st =
     (let uiA = (ucast a :: u64); uiB = (ucast b :: u64)
      in if isNaNF32UI uiA \<or> isNaNF32UI uiB
         then (False, softfloat_raiseFlags softfloat_flag_invalid st)
         else (uiA = uiB \<or> (ucast (push_bit 1 (uiA OR uiB)) :: u32) = 0, st))"

definition f32_le :: "u32 \<Rightarrow> u32 \<Rightarrow> softfloat_state \<Rightarrow> bool \<times> softfloat_state" where
  "f32_le a b st =
     (let uiA = (ucast a :: u64); uiB = (ucast b :: u64)
      in if isNaNF32UI uiA \<or> isNaNF32UI uiB
         then (False, softfloat_raiseFlags softfloat_flag_invalid st)
         else let signA = signF32UI uiA; signB = signF32UI uiB
              in (if signA \<noteq> signB then signA \<or> (ucast (push_bit 1 (uiA OR uiB)) :: u32) = 0
                  else uiA = uiB \<or> (signA \<noteq> (uiA < uiB)), st))"

definition f32_le_quiet :: "u32 \<Rightarrow> u32 \<Rightarrow> softfloat_state \<Rightarrow> bool \<times> softfloat_state" where
  "f32_le_quiet a b st =
     (let uiA = (ucast a :: u64); uiB = (ucast b :: u64)
      in if isNaNF32UI uiA \<or> isNaNF32UI uiB
         then (False, if softfloat_isSigNaNF32UI uiA \<or> softfloat_isSigNaNF32UI uiB
                      then softfloat_raiseFlags softfloat_flag_invalid st else st)
         else let signA = signF32UI uiA; signB = signF32UI uiB
              in (if signA \<noteq> signB then signA \<or> (ucast (push_bit 1 (uiA OR uiB)) :: u32) = 0
                  else uiA = uiB \<or> (signA \<noteq> (uiA < uiB)), st))"

definition f32_lt :: "u32 \<Rightarrow> u32 \<Rightarrow> softfloat_state \<Rightarrow> bool \<times> softfloat_state" where
  "f32_lt a b st =
     (let uiA = (ucast a :: u64); uiB = (ucast b :: u64)
      in if isNaNF32UI uiA \<or> isNaNF32UI uiB
         then (False, softfloat_raiseFlags softfloat_flag_invalid st)
         else let signA = signF32UI uiA; signB = signF32UI uiB
              in (if signA \<noteq> signB then signA \<and> (ucast (push_bit 1 (uiA OR uiB)) :: u32) \<noteq> 0
                  else uiA \<noteq> uiB \<and> (signA \<noteq> (uiA < uiB)), st))"

definition f32_lt_quiet :: "u32 \<Rightarrow> u32 \<Rightarrow> softfloat_state \<Rightarrow> bool \<times> softfloat_state" where
  "f32_lt_quiet a b st =
     (let uiA = (ucast a :: u64); uiB = (ucast b :: u64)
      in if isNaNF32UI uiA \<or> isNaNF32UI uiB
         then (False, if softfloat_isSigNaNF32UI uiA \<or> softfloat_isSigNaNF32UI uiB
                      then softfloat_raiseFlags softfloat_flag_invalid st else st)
         else let signA = signF32UI uiA; signB = signF32UI uiB
              in (if signA \<noteq> signB then signA \<and> (ucast (push_bit 1 (uiA OR uiB)) :: u32) \<noteq> 0
                  else uiA \<noteq> uiB \<and> (signA \<noteq> (uiA < uiB)), st))"

definition f32_isSignalingNaN :: "u32 \<Rightarrow> bool" where
  "f32_isSignalingNaN a \<longleftrightarrow> softfloat_isSigNaNF32UI (ucast a :: u64)"

definition f32_classify :: "u32 \<Rightarrow> u64" where
  "f32_classify a =
     (let uiA = (ucast a :: u64);
          infOrNaN = (expF32UI uiA = 0xFF);
          subnormalOrZero = (expF32UI uiA = 0);
          sign = signF32UI uiA
      in push_bit 0 (of_bool (sign \<and> infOrNaN \<and> fracF32UI uiA = 0)) OR
         push_bit 1 (of_bool (sign \<and> \<not> infOrNaN \<and> \<not> subnormalOrZero)) OR
         push_bit 2 (of_bool (sign \<and> subnormalOrZero \<and> fracF32UI uiA \<noteq> 0)) OR
         push_bit 3 (of_bool (sign \<and> subnormalOrZero \<and> fracF32UI uiA = 0)) OR
         push_bit 7 (of_bool (\<not> sign \<and> infOrNaN \<and> fracF32UI uiA = 0)) OR
         push_bit 6 (of_bool (\<not> sign \<and> \<not> infOrNaN \<and> \<not> subnormalOrZero)) OR
         push_bit 5 (of_bool (\<not> sign \<and> subnormalOrZero \<and> fracF32UI uiA \<noteq> 0)) OR
         push_bit 4 (of_bool (\<not> sign \<and> subnormalOrZero \<and> fracF32UI uiA = 0)) OR
         push_bit 8 (of_bool (isNaNF32UI uiA \<and> softfloat_isSigNaNF32UI uiA)) OR
         push_bit 9 (of_bool (isNaNF32UI uiA \<and> \<not> softfloat_isSigNaNF32UI uiA)))"

section \<open>Double precision\<close>

definition f64_eq :: "u64 \<Rightarrow> u64 \<Rightarrow> softfloat_state \<Rightarrow> bool \<times> softfloat_state" where
  "f64_eq a b st =
     (let uiA = a; uiB = b
      in if isNaNF64UI uiA \<or> isNaNF64UI uiB
         then (False, if softfloat_isSigNaNF64UI uiA \<or> softfloat_isSigNaNF64UI uiB
                      then softfloat_raiseFlags softfloat_flag_invalid st else st)
         else (uiA = uiB \<or> (uiA OR uiB) AND 0x7FFFFFFFFFFFFFFF = 0, st))"

definition f64_eq_signaling :: "u64 \<Rightarrow> u64 \<Rightarrow> softfloat_state \<Rightarrow> bool \<times> softfloat_state" where
  "f64_eq_signaling a b st =
     (let uiA = a; uiB = b
      in if isNaNF64UI uiA \<or> isNaNF64UI uiB
         then (False, softfloat_raiseFlags softfloat_flag_invalid st)
         else (uiA = uiB \<or> (uiA OR uiB) AND 0x7FFFFFFFFFFFFFFF = 0, st))"

definition f64_le :: "u64 \<Rightarrow> u64 \<Rightarrow> softfloat_state \<Rightarrow> bool \<times> softfloat_state" where
  "f64_le a b st =
     (let uiA = a; uiB = b
      in if isNaNF64UI uiA \<or> isNaNF64UI uiB
         then (False, softfloat_raiseFlags softfloat_flag_invalid st)
         else let signA = signF64UI uiA; signB = signF64UI uiB
              in (if signA \<noteq> signB then signA \<or> (uiA OR uiB) AND 0x7FFFFFFFFFFFFFFF = 0
                  else uiA = uiB \<or> (signA \<noteq> (uiA < uiB)), st))"

definition f64_le_quiet :: "u64 \<Rightarrow> u64 \<Rightarrow> softfloat_state \<Rightarrow> bool \<times> softfloat_state" where
  "f64_le_quiet a b st =
     (let uiA = a; uiB = b
      in if isNaNF64UI uiA \<or> isNaNF64UI uiB
         then (False, if softfloat_isSigNaNF64UI uiA \<or> softfloat_isSigNaNF64UI uiB
                      then softfloat_raiseFlags softfloat_flag_invalid st else st)
         else let signA = signF64UI uiA; signB = signF64UI uiB
              in (if signA \<noteq> signB then signA \<or> (uiA OR uiB) AND 0x7FFFFFFFFFFFFFFF = 0
                  else uiA = uiB \<or> (signA \<noteq> (uiA < uiB)), st))"

definition f64_lt :: "u64 \<Rightarrow> u64 \<Rightarrow> softfloat_state \<Rightarrow> bool \<times> softfloat_state" where
  "f64_lt a b st =
     (let uiA = a; uiB = b
      in if isNaNF64UI uiA \<or> isNaNF64UI uiB
         then (False, softfloat_raiseFlags softfloat_flag_invalid st)
         else let signA = signF64UI uiA; signB = signF64UI uiB
              in (if signA \<noteq> signB then signA \<and> (uiA OR uiB) AND 0x7FFFFFFFFFFFFFFF \<noteq> 0
                  else uiA \<noteq> uiB \<and> (signA \<noteq> (uiA < uiB)), st))"

definition f64_lt_quiet :: "u64 \<Rightarrow> u64 \<Rightarrow> softfloat_state \<Rightarrow> bool \<times> softfloat_state" where
  "f64_lt_quiet a b st =
     (let uiA = a; uiB = b
      in if isNaNF64UI uiA \<or> isNaNF64UI uiB
         then (False, if softfloat_isSigNaNF64UI uiA \<or> softfloat_isSigNaNF64UI uiB
                      then softfloat_raiseFlags softfloat_flag_invalid st else st)
         else let signA = signF64UI uiA; signB = signF64UI uiB
              in (if signA \<noteq> signB then signA \<and> (uiA OR uiB) AND 0x7FFFFFFFFFFFFFFF \<noteq> 0
                  else uiA \<noteq> uiB \<and> (signA \<noteq> (uiA < uiB)), st))"

definition f64_isSignalingNaN :: "u64 \<Rightarrow> bool" where
  "f64_isSignalingNaN a \<longleftrightarrow> softfloat_isSigNaNF64UI a"

definition f64_classify :: "u64 \<Rightarrow> u64" where
  "f64_classify a =
     (let uiA = a;
          infOrNaN = (expF64UI uiA = 0x7FF);
          subnormalOrZero = (expF64UI uiA = 0);
          sign = signF64UI uiA
      in push_bit 0 (of_bool (sign \<and> infOrNaN \<and> fracF64UI uiA = 0)) OR
         push_bit 1 (of_bool (sign \<and> \<not> infOrNaN \<and> \<not> subnormalOrZero)) OR
         push_bit 2 (of_bool (sign \<and> subnormalOrZero \<and> fracF64UI uiA \<noteq> 0)) OR
         push_bit 3 (of_bool (sign \<and> subnormalOrZero \<and> fracF64UI uiA = 0)) OR
         push_bit 7 (of_bool (\<not> sign \<and> infOrNaN \<and> fracF64UI uiA = 0)) OR
         push_bit 6 (of_bool (\<not> sign \<and> \<not> infOrNaN \<and> \<not> subnormalOrZero)) OR
         push_bit 5 (of_bool (\<not> sign \<and> subnormalOrZero \<and> fracF64UI uiA \<noteq> 0)) OR
         push_bit 4 (of_bool (\<not> sign \<and> subnormalOrZero \<and> fracF64UI uiA = 0)) OR
         push_bit 8 (of_bool (isNaNF64UI uiA \<and> softfloat_isSigNaNF64UI uiA)) OR
         push_bit 9 (of_bool (isNaNF64UI uiA \<and> \<not> softfloat_isSigNaNF64UI uiA)))"

section \<open>The order of the values\<close>

text \<open>Order of encodings.\<close>

definition enc_mag :: "float_format \<Rightarrow> int \<Rightarrow> int" where
  "enc_mag fmt u = enc_exp fmt u * 2 ^ fmt_fw fmt + enc_frac fmt u"

definition enc_key :: "float_format \<Rightarrow> int \<Rightarrow> int" where
  "enc_key fmt u = (if enc_sign fmt u then - enc_mag fmt u else enc_mag fmt u)"

definition enc_equal :: "float_format \<Rightarrow> int \<Rightarrow> int \<Rightarrow> bool" where
  "enc_equal fmt a b \<longleftrightarrow>
     (if enc_inf fmt a \<or> enc_inf fmt b
      then enc_inf fmt a \<and> enc_inf fmt b \<and> enc_sign fmt a = enc_sign fmt b
      else enc_val fmt (enc_sign fmt a) a = enc_val fmt (enc_sign fmt b) b)"

definition enc_less :: "float_format \<Rightarrow> int \<Rightarrow> int \<Rightarrow> bool" where
  "enc_less fmt a b \<longleftrightarrow>
     (if enc_inf fmt a then enc_sign fmt a \<and> \<not> (enc_inf fmt b \<and> enc_sign fmt b)
      else if enc_inf fmt b then \<not> enc_sign fmt b
      else enc_val fmt (enc_sign fmt a) a < enc_val fmt (enc_sign fmt b) b)"

lemma lex_less:
  assumes "0 \<le> f" "f < (P::int)" "0 \<le> g" "g < P"
  shows "e * P + f < d * P + g \<longleftrightarrow> e < d \<or> e = d \<and> f < g"
proof -
  have "e < d \<Longrightarrow> e * P + f < d * P + g"
  proof -
    assume "e < d"
    then have "(e + 1) * P \<le> d * P" using assms by (intro mult_right_mono) simp_all
    then show ?thesis using assms by (simp add: distrib_right)
  qed
  moreover have "d < e \<Longrightarrow> \<not> e * P + f < d * P + g"
  proof -
    assume "d < e"
    then have "(d + 1) * P \<le> e * P" using assms by (intro mult_right_mono) simp_all
    then show ?thesis using assms by (simp add: distrib_right)
  qed
  ultimately show ?thesis by (cases e d rule: linorder_cases) auto
qed

lemma enc_mag_less: "enc_mag fmt a < enc_mag fmt b \<longleftrightarrow>
    enc_exp fmt a < enc_exp fmt b \<or> enc_exp fmt a = enc_exp fmt b \<and> enc_frac fmt a < enc_frac fmt b"
  unfolding enc_mag_def by (rule lex_less) (rule enc_field_range)+

lemma enc_abs_mag: "enc_abs fmt a < enc_abs fmt b \<longleftrightarrow> enc_mag fmt a < enc_mag fmt b"
proof (cases "enc_exp fmt a" "enc_exp fmt b" rule: linorder_cases)
  case less
  then show ?thesis using enc_abs_less_exp [OF less] by (simp add: enc_mag_less)
next
  case equal
  then show ?thesis using enc_abs_same_exp(1) [of fmt b a] by (simp add: enc_mag_less)
next
  case greater
  then show ?thesis using enc_abs_less_exp [OF greater] by (simp add: enc_mag_less)
qed

lemma enc_mag_nonneg: "0 \<le> enc_mag fmt a"
  using enc_field_range(1,3) [of fmt a] by (simp add: enc_mag_def)

lemma enc_mag_zero: "enc_mag fmt a = 0 \<longleftrightarrow> enc_zero fmt a"
  using enc_field_range(1,3) [of fmt a] by (auto simp: enc_mag_def enc_zero_def add_nonneg_eq_0_iff)

lemma enc_val_key: "enc_val fmt (enc_sign fmt a) a < enc_val fmt (enc_sign fmt b) b \<longleftrightarrow> enc_key fmt a < enc_key fmt b"
proof -
  note n = enc_mag_nonneg [of fmt a] enc_mag_nonneg [of fmt b] enc_abs_nonneg [of fmt a] enc_abs_nonneg [of fmt b]
  have z: "enc_abs fmt u = 0 \<longleftrightarrow> enc_mag fmt u = 0" for u by (simp add: enc_abs_zero enc_mag_zero)
  show ?thesis
    using enc_abs_mag [of fmt a b] enc_abs_mag [of fmt b a] n z [of a] z [of b]
    by (cases "enc_sign fmt a"; cases "enc_sign fmt b") (auto simp: enc_val_def enc_key_def)
qed

lemma enc_inf_mag:
  assumes "\<not> enc_nan fmt a"
  shows "enc_inf fmt a \<longleftrightarrow> (2 ^ fmt_ew fmt - 1) * 2 ^ fmt_fw fmt \<le> enc_mag fmt a"
    "enc_mag fmt a \<le> (2 ^ fmt_ew fmt - 1) * 2 ^ fmt_fw fmt"
proof -
  note r = enc_field_range [of fmt a]
  have "enc_exp fmt a \<noteq> 2 ^ fmt_ew fmt - 1 \<Longrightarrow> enc_exp fmt a + 1 \<le> 2 ^ fmt_ew fmt - 1" using r(2) by linarith
  then have "enc_exp fmt a \<noteq> 2 ^ fmt_ew fmt - 1 \<Longrightarrow> (enc_exp fmt a + 1) * 2 ^ fmt_fw fmt \<le> (2 ^ fmt_ew fmt - 1) * 2 ^ fmt_fw fmt"
    by (intro mult_right_mono) simp_all
  then show "enc_inf fmt a \<longleftrightarrow> (2 ^ fmt_ew fmt - 1) * 2 ^ fmt_fw fmt \<le> enc_mag fmt a"
    "enc_mag fmt a \<le> (2 ^ fmt_ew fmt - 1) * 2 ^ fmt_fw fmt"
    using assms r by (auto simp: enc_nan_def enc_inf_def enc_mag_def distrib_right)
qed

lemma enc_key_order:
  assumes "\<not> enc_nan fmt a" "\<not> enc_nan fmt b" "1 \<le> fmt_ew fmt"
  shows "enc_less fmt a b \<longleftrightarrow> enc_key fmt a < enc_key fmt b" "enc_equal fmt a b \<longleftrightarrow> enc_key fmt a = enc_key fmt b"
proof -
  define M :: int where "M = (2 ^ fmt_ew fmt - 1) * 2 ^ fmt_fw fmt"
  have "(2::int) ^ 1 \<le> 2 ^ fmt_ew fmt" using assms(3) by (intro power_increasing) simp_all
  then have M: "0 < M" by (simp add: M_def)
  note i = enc_inf_mag [OF assms(1), folded M_def] enc_inf_mag [OF assms(2), folded M_def]
  note n = enc_mag_nonneg [of fmt a] enc_mag_nonneg [of fmt b]
  show "enc_less fmt a b \<longleftrightarrow> enc_key fmt a < enc_key fmt b"
    unfolding enc_less_def enc_val_key using i n M by (auto simp: enc_key_def split: if_splits)
  have e: "enc_val fmt (enc_sign fmt a) a = enc_val fmt (enc_sign fmt b) b \<longleftrightarrow> enc_key fmt a = enc_key fmt b"
    using enc_val_key [of fmt a b] enc_val_key [of fmt b a] by (metis linorder_neqE_linordered_idom less_irrefl)
  show "enc_equal fmt a b \<longleftrightarrow> enc_key fmt a = enc_key fmt b"
    unfolding enc_equal_def e using i n M by (auto simp: enc_key_def split: if_splits)
qed

text \<open>The comparisons the code makes on bit patterns.\<close>

lemma enc_eq_mag:
  assumes "0 \<le> u" "u < 2 ^ (fmt_ew fmt + fmt_fw fmt + 1)" "0 \<le> v" "v < 2 ^ (fmt_ew fmt + fmt_fw fmt + 1)"
    "enc_sign fmt u = enc_sign fmt v"
  shows "u = v \<longleftrightarrow> enc_mag fmt u = enc_mag fmt v" "u < v \<longleftrightarrow> enc_mag fmt u < enc_mag fmt v"
  using enc_make_self [OF assms(1,2)] enc_make_self [OF assms(3,4)] assms(5)
  by (auto simp: enc_make_def enc_mag_def)

lemma pattern_order:
  assumes r: "0 \<le> u" "u < 2 ^ (fmt_ew fmt + fmt_fw fmt + 1)" "0 \<le> v" "v < 2 ^ (fmt_ew fmt + fmt_fw fmt + 1)"
    and z: "z \<longleftrightarrow> enc_zero fmt u \<and> enc_zero fmt v"
  defines "s \<equiv> enc_sign fmt u" and "t \<equiv> enc_sign fmt v"
  shows "(u = v \<or> z) \<longleftrightarrow> enc_key fmt u = enc_key fmt v"
    "(if s \<noteq> t then s \<or> z else u = v \<or> s \<noteq> (u < v)) \<longleftrightarrow> enc_key fmt u \<le> enc_key fmt v"
    "(if s \<noteq> t then s \<and> \<not> z else u \<noteq> v \<and> s \<noteq> (u < v)) \<longleftrightarrow> enc_key fmt u < enc_key fmt v"
proof -
  note n = enc_mag_nonneg [of fmt u] enc_mag_nonneg [of fmt v]
  have zz: "z \<longleftrightarrow> enc_mag fmt u = 0 \<and> enc_mag fmt v = 0" by (simp add: z enc_mag_zero)
  have "(u = v \<longleftrightarrow> s = t \<and> enc_mag fmt u = enc_mag fmt v)" using enc_eq_mag(1) [OF r] by (auto simp: s_def t_def)
  then show "(u = v \<or> z) \<longleftrightarrow> enc_key fmt u = enc_key fmt v"
    using n by (auto simp: zz enc_key_def s_def t_def split: if_splits)
  show "(if s \<noteq> t then s \<or> z else u = v \<or> s \<noteq> (u < v)) \<longleftrightarrow> enc_key fmt u \<le> enc_key fmt v"
    "(if s \<noteq> t then s \<and> \<not> z else u \<noteq> v \<and> s \<noteq> (u < v)) \<longleftrightarrow> enc_key fmt u < enc_key fmt v"
    using n enc_eq_mag [OF r] by (auto simp: zz enc_key_def s_def t_def split: if_splits)
qed

section \<open>The comparisons decide the order of the values\<close>

definition compare_result ::
  "float_format \<Rightarrow> bool \<Rightarrow> int \<Rightarrow> int \<Rightarrow> bool \<Rightarrow> softfloat_state \<Rightarrow> bool \<times> softfloat_state" where
  "compare_result fmt quiet a b P st =
     (if enc_nan fmt a \<or> enc_nan fmt b
      then (False, if \<not> quiet \<or> enc_snan fmt a \<or> enc_snan fmt b
                   then softfloat_raiseFlags softfloat_flag_invalid st else st)
      else (P, st))"

locale float_order =
  fixes fmt :: float_format
    and eq eq_signaling le le_quiet lt lt_quiet ::
      "'a::len word \<Rightarrow> 'a word \<Rightarrow> softfloat_state \<Rightarrow> bool \<times> softfloat_state"
  assumes ew: "1 \<le> fmt_ew fmt"
    and eq: "eq a b st = compare_result fmt True (uint a) (uint b)
          (enc_key fmt (uint a) = enc_key fmt (uint b)) st"
    and eq_signaling: "eq_signaling a b st = compare_result fmt False (uint a) (uint b)
          (enc_key fmt (uint a) = enc_key fmt (uint b)) st"
    and le: "le a b st = compare_result fmt False (uint a) (uint b)
          (enc_key fmt (uint a) \<le> enc_key fmt (uint b)) st"
    and le_quiet: "le_quiet a b st = compare_result fmt True (uint a) (uint b)
          (enc_key fmt (uint a) \<le> enc_key fmt (uint b)) st"
    and lt: "lt a b st = compare_result fmt False (uint a) (uint b)
          (enc_key fmt (uint a) < enc_key fmt (uint b)) st"
    and lt_quiet: "lt_quiet a b st = compare_result fmt True (uint a) (uint b)
          (enc_key fmt (uint a) < enc_key fmt (uint b)) st"
begin

lemmas operations = eq eq_signaling le le_quiet lt lt_quiet

text \<open>The comparisons decide the order of the values.\<close>

lemma by_value:
  "eq a b st = compare_result fmt True (uint a) (uint b) (enc_equal fmt (uint a) (uint b)) st"
  "eq_signaling a b st = compare_result fmt False (uint a) (uint b) (enc_equal fmt (uint a) (uint b)) st"
  "le a b st = compare_result fmt False (uint a) (uint b)
     (enc_less fmt (uint a) (uint b) \<or> enc_equal fmt (uint a) (uint b)) st"
  "le_quiet a b st = compare_result fmt True (uint a) (uint b)
     (enc_less fmt (uint a) (uint b) \<or> enc_equal fmt (uint a) (uint b)) st"
  "lt a b st = compare_result fmt False (uint a) (uint b) (enc_less fmt (uint a) (uint b)) st"
  "lt_quiet a b st = compare_result fmt True (uint a) (uint b) (enc_less fmt (uint a) (uint b)) st"
  unfolding operations compare_result_def
  using enc_key_order [of fmt "uint a" "uint b"] ew by auto

lemma exactly_one:
  assumes "\<not> enc_nan fmt (uint a)" "\<not> enc_nan fmt (uint b)"
  shows "length (filter id [fst (lt a b st), fst (eq a b st), fst (lt b a st)]) = 1"
  using assms by (simp add: operations compare_result_def)

lemma le_trans:
  assumes "fst (le a b st)" "fst (le b c st)"
  shows "fst (le a c st)"
  using assms by (auto simp: operations compare_result_def split: if_splits)

lemma le_antisym: "fst (le a b st) \<Longrightarrow> fst (le b a st) \<Longrightarrow> fst (eq a b st)"
  by (auto simp: operations compare_result_def split: if_splits)

lemma quiet_agrees: "fst (le_quiet a b st) = fst (le a b st)" "fst (lt_quiet a b st) = fst (lt a b st)"
  "fst (eq_signaling a b st) = fst (eq a b st)"
  by (auto simp: operations compare_result_def)

end

lemma isNaNF32UI_enc: "isNaNF32UI w = enc_nan binary32 (uint w)"
proof -
  have "uint (w AND 0x7F800000) = uint w div 2 ^ 23 mod 2 ^ 8 * 2 ^ 23" by (rule uint_and_field) simp_all
  then have a: "uint (w AND 0x7F800000) = enc_exp binary32 (uint w) * 2 ^ 23" by (simp add: enc_exp_def)
  have "isNaNF32UI w \<longleftrightarrow> uint (w AND 0x7F800000) = 0x7F800000 \<and> uint (fracF32UI w) \<noteq> 0"
    unfolding isNaNF32UI_def word_eq_uint [of "w AND 0x7F800000"] uint_eq_0 fracF32UI_def by simp
  then show ?thesis unfolding a fracF32UI_enc by (auto simp: enc_nan_def)
qed

lemma isNaNF64UI_enc: "isNaNF64UI w = enc_nan binary64 (uint w)"
proof -
  have "uint (w AND 0x7FF0000000000000) = uint w div 2 ^ 52 mod 2 ^ 11 * 2 ^ 52" by (rule uint_and_field) simp_all
  then have a: "uint (w AND 0x7FF0000000000000) = enc_exp binary64 (uint w) * 2 ^ 52" by (simp add: enc_exp_def)
  have "isNaNF64UI w \<longleftrightarrow> uint (w AND 0x7FF0000000000000) = 0x7FF0000000000000 \<and> uint (fracF64UI w) \<noteq> 0"
    unfolding isNaNF64UI_def word_eq_uint [of "w AND 0x7FF0000000000000"] uint_eq_0 fracF64UI_def by simp
  then show ?thesis unfolding a fracF64UI_enc by (auto simp: enc_nan_def)
qed

lemma zero_patterns32:
  fixes a b :: u32
  shows "(ucast (push_bit 1 (ucast a OR ucast b :: u64)) :: u32) = 0 \<longleftrightarrow> enc_zero binary32 (uint a) \<and> enc_zero binary32 (uint b)"
proof -
  have z: "take_bit 31 w = 0 \<longleftrightarrow> enc_zero binary32 (uint w)" for w :: u32
    using uint_take [of 31 w] uint_eq_0 [of "take_bit 31 w"] enc_low [of "uint w" binary32] enc_mag_zero [of binary32 "uint w"]
    by (simp add: enc_mag_def)
  have "(ucast (push_bit j (ucast a OR ucast b :: u64)) :: u32) = push_bit j (a OR b)" for j
    by (rule bit_eqI) (auto simp: bit_simps)
  then have "(ucast (push_bit 1 (ucast a OR ucast b :: u64)) :: u32) = push_bit 1 (a OR b)" .
  also have "\<dots> = 0 \<longleftrightarrow> take_bit 31 (a OR b) = 0"
    using push_eq_0_iff [of 31, where a = "a OR b"] uint_take [of 31 "a OR b"] uint_eq_0 [of "take_bit 31 (a OR b)"] by simp
  also have "\<dots> \<longleftrightarrow> take_bit 31 a = 0 \<and> take_bit 31 b = 0" by (simp add: or_eq_0_iff)
  finally show ?thesis by (simp only: z)
qed

lemma zero_patterns64:
  "(a OR b) AND 0x7FFFFFFFFFFFFFFF = (0 :: u64) \<longleftrightarrow> enc_zero binary64 (uint a) \<and> enc_zero binary64 (uint b)"
proof -
  have z: "take_bit 63 w = 0 \<longleftrightarrow> enc_zero binary64 (uint w)" for w :: u64
    using uint_take [of 63 w] uint_eq_0 [of "take_bit 63 w"] enc_low [of "uint w" binary64] enc_mag_zero [of binary64 "uint w"]
    by (simp add: enc_mag_def)
  have "(a OR b) AND 0x7FFFFFFFFFFFFFFF = take_bit 63 a OR take_bit 63 b"
    using and_low_mask [of "a OR b" 63] by simp
  then show ?thesis by (simp add: or_eq_0_iff z)
qed

lemma compareF32:
  fixes a b :: u32
  shows "isNaNF32UI (ucast a) = enc_nan binary32 (uint a)" "softfloat_isSigNaNF32UI (ucast a) = enc_snan binary32 (uint a)"
    "signF32UI (ucast a) = enc_sign binary32 (uint a)"
    "(ucast a :: u64) = ucast b \<longleftrightarrow> uint a = uint b" "(ucast a :: u64) < ucast b \<longleftrightarrow> uint a < uint b"
proof -
  have u: "uint (ucast a :: u64) = uint a" "uint (ucast b :: u64) = uint b" by (simp_all add: uint_ucast_up)
  show "isNaNF32UI (ucast a) = enc_nan binary32 (uint a)" "softfloat_isSigNaNF32UI (ucast a) = enc_snan binary32 (uint a)"
    by (simp_all only: isNaNF32UI_enc isSigNaNF32UI_enc u)
  show "signF32UI (ucast a) = enc_sign binary32 (uint a)" using uint_lt2p [of a] by (subst signF32UI_enc) (simp_all add: u)
  show "(ucast a :: u64) = ucast b \<longleftrightarrow> uint a = uint b" "(ucast a :: u64) < ucast b \<longleftrightarrow> uint a < uint b"
    by (simp_all only: word_eq_uint [of "ucast a :: u64"] word_less_uint u)
qed

interpretation order32: float_order binary32 f32_eq f32_eq_signaling f32_le f32_le_quiet f32_lt f32_lt_quiet
proof
  fix a b :: u32 and st
  have r: "0 \<le> uint a" "uint a < 2 ^ (fmt_ew binary32 + fmt_fw binary32 + 1)" "0 \<le> uint b" "uint b < 2 ^ (fmt_ew binary32 + fmt_fw binary32 + 1)"
    using uint_lt2p [of a] uint_lt2p [of b] by simp_all
  note p = pattern_order [OF r zero_patterns32]
  note d = compare_result_def Let_def compareF32
  show "f32_eq a b st = compare_result binary32 True (uint a) (uint b) (enc_key binary32 (uint a) = enc_key binary32 (uint b)) st"
    "f32_eq_signaling a b st = compare_result binary32 False (uint a) (uint b) (enc_key binary32 (uint a) = enc_key binary32 (uint b)) st"
    "f32_le a b st = compare_result binary32 False (uint a) (uint b) (enc_key binary32 (uint a) \<le> enc_key binary32 (uint b)) st"
    "f32_le_quiet a b st = compare_result binary32 True (uint a) (uint b) (enc_key binary32 (uint a) \<le> enc_key binary32 (uint b)) st"
    "f32_lt a b st = compare_result binary32 False (uint a) (uint b) (enc_key binary32 (uint a) < enc_key binary32 (uint b)) st"
    "f32_lt_quiet a b st = compare_result binary32 True (uint a) (uint b) (enc_key binary32 (uint a) < enc_key binary32 (uint b)) st"
    unfolding f32_eq_def f32_eq_signaling_def f32_le_def f32_le_quiet_def f32_lt_def f32_lt_quiet_def d p by simp_all
qed simp

interpretation order64: float_order binary64 f64_eq f64_eq_signaling f64_le f64_le_quiet f64_lt f64_lt_quiet
proof
  fix a b :: u64 and st
  have r: "0 \<le> uint a" "uint a < 2 ^ (fmt_ew binary64 + fmt_fw binary64 + 1)" "0 \<le> uint b" "uint b < 2 ^ (fmt_ew binary64 + fmt_fw binary64 + 1)"
    using uint_lt2p [of a] uint_lt2p [of b] by simp_all
  note p = pattern_order [OF r zero_patterns64]
  note d = compare_result_def Let_def isNaNF64UI_enc isSigNaNF64UI_enc signF64UI_enc word_eq_uint [of a b] word_less_uint
  show "f64_eq a b st = compare_result binary64 True (uint a) (uint b) (enc_key binary64 (uint a) = enc_key binary64 (uint b)) st"
    "f64_eq_signaling a b st = compare_result binary64 False (uint a) (uint b) (enc_key binary64 (uint a) = enc_key binary64 (uint b)) st"
    "f64_le a b st = compare_result binary64 False (uint a) (uint b) (enc_key binary64 (uint a) \<le> enc_key binary64 (uint b)) st"
    "f64_le_quiet a b st = compare_result binary64 True (uint a) (uint b) (enc_key binary64 (uint a) \<le> enc_key binary64 (uint b)) st"
    "f64_lt a b st = compare_result binary64 False (uint a) (uint b) (enc_key binary64 (uint a) < enc_key binary64 (uint b)) st"
    "f64_lt_quiet a b st = compare_result binary64 True (uint a) (uint b) (enc_key binary64 (uint a) < enc_key binary64 (uint b)) st"
    unfolding f64_eq_def f64_eq_signaling_def f64_le_def f64_le_quiet_def f64_lt_def f64_lt_quiet_def d p by simp_all
qed simp

text \<open>Classification: the bit of the class, and no other.\<close>

definition class_bit :: "float_format \<Rightarrow> int \<Rightarrow> nat" where
  "class_bit fmt u =
     (if enc_nan fmt u then if enc_snan fmt u then 8 else 9
      else let s = enc_sign fmt u
           in if enc_inf fmt u then if s then 0 else 7
              else if enc_zero fmt u then if s then 3 else 4
              else if enc_exp fmt u = 0 then if s then 2 else 5
              else if s then 1 else 6)"

lemma f32_classify_correct: "f32_classify a = push_bit (class_bit binary32 (uint a)) 1"
proof -
  have u: "uint (ucast a :: u64) = uint a" by (simp add: uint_ucast_up)
  show ?thesis
    unfolding f32_classify_def Let_def compareF32 fracF32UI_zero expF32UI_enc u class_bit_def
    by (cases "enc_exp binary32 (uint a) = 255"; cases "enc_exp binary32 (uint a) = 0"; cases "enc_frac binary32 (uint a) = 0";
        cases "enc_sign binary32 (uint a)"; cases "enc_snan binary32 (uint a)")
       (simp_all add: enc_nan_def enc_inf_def enc_zero_def enc_snan_def)
qed

lemma f64_classify_correct: "f64_classify a = push_bit (class_bit binary64 (uint a)) 1"
  unfolding f64_classify_def Let_def isNaNF64UI_enc isSigNaNF64UI_enc signF64UI_enc fracF64UI_zero expF64UI_enc class_bit_def
  by (cases "enc_exp binary64 (uint a) = 2047"; cases "enc_exp binary64 (uint a) = 0"; cases "enc_frac binary64 (uint a) = 0";
      cases "enc_sign binary64 (uint a)"; cases "enc_snan binary64 (uint a)")
     (simp_all add: enc_nan_def enc_inf_def enc_zero_def enc_snan_def)

text \<open>The single-precision comparisons.\<close>

text \<open>C7. The six comparisons of each format decide equality and order of the real values (signed zeros equal, NaNs unordered) and raise invalid exactly for a NaN in the signaling comparisons and for a signaling NaN in the quiet ones; f32_classify and f64_classify return a mask with exactly the bit of the class of the operand, in the order of the RISC-V fclass instruction.\<close>

theorem float_compare_classify_correct:
  "f32_eq a b st = compare_result binary32 True (uint a) (uint b) (enc_equal binary32 (uint a) (uint b)) st \<and>
   f32_eq_signaling a b st = compare_result binary32 False (uint a) (uint b) (enc_equal binary32 (uint a) (uint b)) st \<and>
   f32_le a b st = compare_result binary32 False (uint a) (uint b)
     (enc_less binary32 (uint a) (uint b) \<or> enc_equal binary32 (uint a) (uint b)) st \<and>
   f32_le_quiet a b st = compare_result binary32 True (uint a) (uint b)
     (enc_less binary32 (uint a) (uint b) \<or> enc_equal binary32 (uint a) (uint b)) st \<and>
   f32_lt a b st = compare_result binary32 False (uint a) (uint b) (enc_less binary32 (uint a) (uint b)) st \<and>
   f32_lt_quiet a b st = compare_result binary32 True (uint a) (uint b) (enc_less binary32 (uint a) (uint b)) st \<and>
   f64_eq c d st = compare_result binary64 True (uint c) (uint d) (enc_equal binary64 (uint c) (uint d)) st \<and>
   f64_eq_signaling c d st = compare_result binary64 False (uint c) (uint d) (enc_equal binary64 (uint c) (uint d)) st \<and>
   f64_le c d st = compare_result binary64 False (uint c) (uint d)
     (enc_less binary64 (uint c) (uint d) \<or> enc_equal binary64 (uint c) (uint d)) st \<and>
   f64_le_quiet c d st = compare_result binary64 True (uint c) (uint d)
     (enc_less binary64 (uint c) (uint d) \<or> enc_equal binary64 (uint c) (uint d)) st \<and>
   f64_lt c d st = compare_result binary64 False (uint c) (uint d) (enc_less binary64 (uint c) (uint d)) st \<and>
   f64_lt_quiet c d st = compare_result binary64 True (uint c) (uint d) (enc_less binary64 (uint c) (uint d)) st \<and>
   f32_classify a = push_bit (class_bit binary32 (uint a)) 1 \<and>
   f64_classify c = push_bit (class_bit binary64 (uint c)) 1"
  by (intro conjI order32.by_value order64.by_value f32_classify_correct f64_classify_correct)

text \<open>Of two numbers exactly one of less, equal and greater holds.\<close>

lemma f64_order_exactly_one:
  assumes "\<not> enc_nan binary64 (uint a)" "\<not> enc_nan binary64 (uint b)"
  shows "length (filter id [fst (f64_lt a b st), fst (f64_eq a b st), fst (f64_lt b a st)]) = 1"
  by (rule order64.exactly_one [OF assms])

end
