(* ===== verification/Softfloat_RoundInt.thy ===== *)
theory Softfloat_RoundInt
  imports Softfloat_Round
begin

text \<open>
  The routines that round a significand to a 32- or 64-bit integer:
  \<^verbatim>\<open>s_roundPackToUI32.c\<close>, \<^verbatim>\<open>s_roundPackToI32.c\<close>, \<^verbatim>\<open>s_roundPackToUI64.c\<close> and
  \<^verbatim>\<open>s_roundPackToI64.c\<close>. Each of them meets the contract \<open>int_pack\<close>.
\<close>

section \<open>Rounding to integers\<close>

text \<open>
  The significand carries 7 fraction bits (32-bit results) or a separate 64-bit fraction
  (64-bit results). Signed results are integers: the value the C union reads back.
\<close>

definition softfloat_roundPackToUI32 ::
  "bool \<Rightarrow> u64 \<Rightarrow> u8 \<Rightarrow> bool \<Rightarrow> softfloat_state \<Rightarrow> u64 \<times> softfloat_state" where
  "softfloat_roundPackToUI32 sign sig roundingMode exact st =
     (let invalid = (if sign then ui32_fromNegOverflow else ui32_fromPosOverflow,
                     softfloat_raiseFlags softfloat_flag_invalid st);
          roundNearEven = (roundingMode = softfloat_round_near_even);
          roundIncrement = softfloat_roundIncrement (0x40 :: u8) 0x7F roundingMode sign;
          roundBits = (ucast (sig AND 0x7F) :: u8);
          sig = sig + ucast roundIncrement
      in if sig AND 0xFFFFFF8000000000 \<noteq> 0 then invalid
         else let z = drop_bit 7 sig;
                  z = z AND NOT (of_bool (roundBits XOR 0x40 = 0 \<and> roundNearEven))
              in if sign \<and> z \<noteq> 0 then invalid
                 else (z, if exact \<and> roundBits \<noteq> 0
                          then softfloat_raiseFlags softfloat_flag_inexact st else st))"

definition softfloat_roundPackToI32 ::
  "bool \<Rightarrow> u64 \<Rightarrow> u8 \<Rightarrow> bool \<Rightarrow> softfloat_state \<Rightarrow> int \<times> softfloat_state" where
  "softfloat_roundPackToI32 sign sig roundingMode exact st =
     (let invalid = (if sign then i32_fromNegOverflow else i32_fromPosOverflow,
                     softfloat_raiseFlags softfloat_flag_invalid st);
          roundNearEven = (roundingMode = softfloat_round_near_even);
          roundIncrement = softfloat_roundIncrement (0x40 :: u8) 0x7F roundingMode sign;
          roundBits = (ucast (sig AND 0x7F) :: u8);
          sig = sig + ucast roundIncrement
      in if sig AND 0xFFFFFF8000000000 \<noteq> 0 then invalid
         else let sig32 = drop_bit 7 sig;
                  sig32 = sig32 AND NOT (of_bool (roundBits XOR 0x40 = 0 \<and> roundNearEven));
                  uZ = (ucast (if sign then - sig32 else sig32) :: u32);
                  z = sint uZ
              in if z \<noteq> 0 \<and> ((z < 0) \<noteq> sign) then invalid
                 else (z, if exact \<and> roundBits \<noteq> 0
                          then softfloat_raiseFlags softfloat_flag_inexact st else st))"

text \<open>The test whether the fraction \<open>sigExtra\<close> rounds up, shared by the 64-bit routines.\<close>

definition softfloat_doIncrement :: "u8 \<Rightarrow> bool \<Rightarrow> u64 \<Rightarrow> bool" where
  "softfloat_doIncrement roundingMode sign sigExtra =
     (let roundNearEven = (roundingMode = softfloat_round_near_even);
          doIncrement = (0x8000000000000000 \<le> sigExtra)
      in if \<not> roundNearEven \<and> roundingMode \<noteq> softfloat_round_near_maxMag
         then roundingMode = (if sign then softfloat_round_min else softfloat_round_max)
              \<and> sigExtra \<noteq> 0
         else doIncrement)"

definition softfloat_roundPackToUI64 ::
  "bool \<Rightarrow> u64 \<Rightarrow> u64 \<Rightarrow> u8 \<Rightarrow> bool \<Rightarrow> softfloat_state \<Rightarrow> u64 \<times> softfloat_state" where
  "softfloat_roundPackToUI64 sign sig sigExtra roundingMode exact st =
     (let invalid = (if sign then ui64_fromNegOverflow else ui64_fromPosOverflow,
                     softfloat_raiseFlags softfloat_flag_invalid st);
          roundNearEven = (roundingMode = softfloat_round_near_even);
          doIncrement = softfloat_doIncrement roundingMode sign sigExtra;
          finish = (\<lambda>sig. if sign \<and> sig \<noteq> 0 then invalid
                          else (sig, if exact \<and> sigExtra \<noteq> 0
                                     then softfloat_raiseFlags softfloat_flag_inexact st else st))
      in if doIncrement
         then let sig = sig + 1
              in if sig = 0 then invalid
                 else finish (sig AND NOT (of_bool (sigExtra AND 0x7FFFFFFFFFFFFFFF = 0
                                                    \<and> roundNearEven)))
         else finish sig)"

definition softfloat_roundPackToI64 ::
  "bool \<Rightarrow> u64 \<Rightarrow> u64 \<Rightarrow> u8 \<Rightarrow> bool \<Rightarrow> softfloat_state \<Rightarrow> int \<times> softfloat_state" where
  "softfloat_roundPackToI64 sign sig sigExtra roundingMode exact st =
     (let invalid = (if sign then i64_fromNegOverflow else i64_fromPosOverflow,
                     softfloat_raiseFlags softfloat_flag_invalid st);
          roundNearEven = (roundingMode = softfloat_round_near_even);
          doIncrement = softfloat_doIncrement roundingMode sign sigExtra;
          finish = (\<lambda>sig. let uZ = (if sign then - sig else sig); z = sint uZ
                          in if z \<noteq> 0 \<and> ((z < 0) \<noteq> sign) then invalid
                             else (z, if exact \<and> sigExtra \<noteq> 0
                                      then softfloat_raiseFlags softfloat_flag_inexact st else st))
      in if doIncrement
         then let sig = sig + 1
              in if sig = 0 then invalid
                 else finish (sig AND NOT (of_bool (sigExtra AND 0x7FFFFFFFFFFFFFFF = 0
                                                    \<and> roundNearEven)))
         else finish sig)"

section \<open>The routines meet the contract\<close>

lemma roundPackToInt32_steps:
  assumes "uint (sig :: u64) < 2 ^ 63"
  shows "sig + ucast (softfloat_roundIncrement (0x40 :: u8) 0x7F rm s) AND 0xFFFFFF8000000000 \<noteq> 0 \<longleftrightarrow>
      2 ^ 32 \<le> round_code 64 rm s (uint sig)"
    "uint (drop_bit 7 (sig + ucast (softfloat_roundIncrement (0x40 :: u8) 0x7F rm s)) AND
      NOT (of_bool ((ucast (sig AND 0x7F) :: u8) XOR 0x40 = 0 \<and> rm = softfloat_round_near_even)))
      = round_code 64 rm s (uint sig)"
    "(ucast (sig AND 0x7F) :: u8) \<noteq> 0 \<longleftrightarrow> uint sig mod 128 \<noteq> 0"
proof -
  let ?i = "ucast (softfloat_roundIncrement (0x40 :: u8) 0x7F rm s) :: u64" and ?r = "round_code 64 rm s (uint sig)"
  have i: "uint ?i = round_incr (2 ^ (7 - 1)) rm s"
    by (simp add: uint_ucast_up uint_roundIncrement [where g = 64])
  have b: "0 \<le> uint ?i" "uint ?i < 128" using round_incr_bounds [of 64 rm s] by (simp_all add: i)
  have sum: "uint (sig + ?i) = uint sig + round_incr 64 rm s" using assms b i by (simp add: uint_add_small)
  have "uint (sig + ?i AND 0xFFFFFF8000000000) = uint (sig + ?i) div 2 ^ 39 mod 2 ^ 25 * 2 ^ 39"
    by (rule uint_and_field) simp_all
  moreover have "uint (sig + ?i) div 2 ^ 39 mod 2 ^ 25 = uint (sig + ?i) div 2 ^ 39"
    using uint_lt2p [of "sig + ?i"] by (intro mod_pos_pos_trivial) (simp_all add: pos_imp_zdiv_nonneg_iff int_div_less_iff)
  ultimately have "sig + ?i AND 0xFFFFFF8000000000 \<noteq> 0 \<longleftrightarrow> 0 < uint (sig + ?i) div 2 ^ 39"
    by (metis uint_eq_0 less_le mult_eq_0_iff uint_ge_0 pos_imp_zdiv_nonneg_iff zero_less_numeral zero_less_power zero_neq_numeral power_eq_0_iff)
  also have "\<dots> \<longleftrightarrow> 2 ^ 39 \<le> uint (sig + ?i)" using le_int_div_iff [of "2 ^ 39" 1 "uint (sig + ?i)"] by (simp add: int_one_le_iff_zero_less)
  also have "\<dots> \<longleftrightarrow> 2 ^ 32 \<le> (uint sig + round_incr 64 rm s) div (2 * 64)" by (simp add: le_int_div_iff sum)
  also have "\<dots> \<longleftrightarrow> 2 ^ 32 \<le> ?r" using round_code_bounds(1) [of 64 rm s "uint sig"] round_code_bounds(2) [of "2 ^ 32" "uint sig" 64 rm s] by auto
  finally show "sig + ?i AND 0xFFFFFF8000000000 \<noteq> 0 \<longleftrightarrow> 2 ^ 32 \<le> ?r" .
  have tie: "(ucast (sig AND 0x7F) :: u8) XOR 0x40 = 0 \<longleftrightarrow> uint sig mod 2 ^ 7 = 2 ^ (7 - 1)"
    by (simp add: xor_eq_0_iff word_eq_uint [of _ "0x40 :: u8"] ucast_low_bits)
  show "uint (drop_bit 7 (sig + ?i) AND
      NOT (of_bool ((ucast (sig AND 0x7F) :: u8) XOR 0x40 = 0 \<and> rm = softfloat_round_near_even))) = ?r"
    using uint_round_drop [OF _ i, of sig, OF _ _ tie] assms by simp
  show "(ucast (sig AND 0x7F) :: u8) \<noteq> 0 \<longleftrightarrow> uint sig mod 128 \<noteq> 0"
    using ucast_low_bits(1) [of sig] uint_eq_0 [of "ucast (sig AND 0x7F) :: u8"] by simp
qed

lemma uint_pos_iff: "0 < uint (w :: 'a::len word) \<longleftrightarrow> w \<noteq> 0"
  by (metis uint_eq_0 uint_ge_0 less_le)

lemma roundPackToUI32_law:
  assumes "uint sig < 2 ^ 63"
  shows "map_prod uint id (softfloat_roundPackToUI32 s sig rm exact st) =
    int_result 0 (2 ^ 32 - 1) s (round_code 64 rm s (uint sig)) (exact \<and> uint sig mod (2 * 64) \<noteq> 0) st"
proof -
  define z where "z = drop_bit 7 (sig + ucast (softfloat_roundIncrement (0x40 :: u8) 0x7F rm s)) AND
      NOT (of_bool ((ucast (sig AND 0x7F) :: u8) XOR 0x40 = 0 \<and> rm = softfloat_round_near_even))"
  have r: "round_code 64 rm s (uint sig) = uint z" using roundPackToInt32_steps(2) [OF assms] by (simp only: z_def)
  show ?thesis
    unfolding softfloat_roundPackToUI32_def Let_def roundPackToInt32_steps(1) [OF assms]
      roundPackToInt32_steps(3) [OF assms] int_result_def z_def [symmetric] r
    using uint_pos_iff [of z] by auto
qed

lemma sint_if:
  "sint (w :: 'a::len word) = (if uint w < 2 ^ (LENGTH('a) - 1) then uint w else uint w - 2 ^ LENGTH('a))"
proof -
  obtain n where n: "LENGTH('a) = Suc n" by (metis len_gt_0 gr0_conv_Suc)
  have "uint w < 2 ^ Suc n" using uint_lt2p [of w] by (simp only: n)
  then have "bit (uint w) n \<longleftrightarrow> \<not> uint w < 2 ^ n"
    using half_range [of "uint w" "2 ^ n"] le_int_div_iff [of "2 ^ n" 1 "uint w"]
      pos_imp_zdiv_nonneg_iff [of "2 ^ n" "uint w"] by (simp add: bit_iff_odd odd_iff_mod_2_eq_one) linarith
  moreover have "take_bit (Suc n) (uint w) = uint w"
    using \<open>uint w < 2 ^ Suc n\<close> by (simp add: take_bit_int_eq_self)
  moreover have "sint w = signed_take_bit n (uint w)" by (simp add: sint_uint n)
  ultimately show ?thesis by (simp add: signed_take_bit_eq_take_bit_minus n)
qed

lemma uint_neg: "uint (- w :: 'a::len word) = (if w = 0 then 0 else 2 ^ LENGTH('a) - uint w)"
  using uint_sub_borrow [of 0 w] by (auto simp: word_less_uint uint_pos_iff)

lemma sint_neg_if:
  "sint (- w :: 'a::len word) = (if uint w \<le> 2 ^ (LENGTH('a) - 1) then - uint w else 2 ^ LENGTH('a) - uint w)"
proof -
  have "(2::int) ^ LENGTH('a) = 2 * 2 ^ (LENGTH('a) - 1)" by (metis len_gt_0 power_minus_mult mult.commute)
  then show ?thesis by (simp add: sint_if uint_neg)
qed

lemma roundPackToI32_law:
  assumes "uint sig < 2 ^ 63"
  shows "softfloat_roundPackToI32 s sig rm exact st =
    int_result (- (2 ^ 31)) (2 ^ 31 - 1) s (round_code 64 rm s (uint sig)) (exact \<and> uint sig mod (2 * 64) \<noteq> 0) st"
proof -
  define z where "z = drop_bit 7 (sig + ucast (softfloat_roundIncrement (0x40 :: u8) 0x7F rm s)) AND
      NOT (of_bool ((ucast (sig AND 0x7F) :: u8) XOR 0x40 = 0 \<and> rm = softfloat_round_near_even))"
  have r: "round_code 64 rm s (uint sig) = uint z" using roundPackToInt32_steps(2) [OF assms] by (simp only: z_def)
  have neg: "(ucast (- z) :: u32) = - ucast z" 
    by (simp add: word_eq_uint [of "ucast (- z)"] uint_word_ariths uint_ucast mod_minus_eq mod_mod_cancel)
  show ?thesis
  proof (cases "2 ^ 32 \<le> uint z")
    case True
    then show ?thesis
      unfolding softfloat_roundPackToI32_def Let_def roundPackToInt32_steps(1) [OF assms]
      roundPackToInt32_steps(3) [OF assms] int_result_def z_def [symmetric] r by simp
  next
    case False
    then have "uint (ucast z :: u32) = uint z" by (intro uint_ucast_small) simp
    then have "sint (ucast z :: u32) = (if uint z < 2 ^ 31 then uint z else uint z - 2 ^ 32)"
      "sint (ucast (- z) :: u32) = (if uint z \<le> 2 ^ 31 then - uint z else 2 ^ 32 - uint z)"
      using sint_if [of "ucast z :: u32"] sint_neg_if [of "ucast z :: u32"] by (simp_all add: neg)
    moreover have "0 \<le> uint z" by simp
    ultimately show ?thesis using False uint_pos_iff [of z]
      unfolding softfloat_roundPackToI32_def Let_def roundPackToInt32_steps(1) [OF assms]
      roundPackToInt32_steps(3) [OF assms] int_result_def z_def [symmetric] r by auto
  qed
qed

lemma round_code_64:
  assumes "n = uint (sig :: u64) * 2 ^ 64 + uint (ex :: u64)"
  shows "round_code (2 ^ 63) rm s n =
    (if softfloat_doIncrement rm s ex
     then if ex AND 0x7FFFFFFFFFFFFFFF = 0 \<and> rm = softfloat_round_near_even
          then uint sig + 1 - (uint sig + 1) mod 2 else uint sig + 1
     else uint sig)"
proof -
  have ex: "0 \<le> uint ex" "uint ex < 2 ^ 64" using uint_lt2p [of ex] by simp_all
  have m: "n mod (2 * 2 ^ 63) = uint ex" using ex by (simp add: assms)
  have "ex AND 0x7FFFFFFFFFFFFFFF = take_bit 63 ex" using and_low_mask [of ex 63] by simp
  then have "uint (ex AND 0x7FFFFFFFFFFFFFFF) = uint ex mod 2 ^ 63" by (simp add: uint_take)
  then have l: "ex AND 0x7FFFFFFFFFFFFFFF = 0 \<longleftrightarrow> uint ex mod 2 ^ 63 = 0" by (metis uint_eq_0)
  have inc: "(n + i) div (2 * 2 ^ 63) = uint sig + of_bool (2 ^ 64 \<le> uint ex + i)" if "0 \<le> i" "i < 2 ^ 64" for i
  proof -
    have "(n + i) div (2 * 2 ^ 63) = uint sig + (uint ex + i) div 2 ^ 64" using ex by (simp add: assms add.assoc)
    moreover have "(uint ex + i) div 2 ^ 64 = of_bool (2 ^ 64 \<le> uint ex + i)"
      using ex that by (cases "2 ^ 64 \<le> uint ex + i") (simp_all add: div_pos_pos_trivial div_pos_geq)
    ultimately show ?thesis by simp
  qed
  have tie: "uint ex = 2 ^ 63 \<longleftrightarrow> 2 ^ 63 \<le> uint ex \<and> uint ex mod 2 ^ 63 = 0"
    using ex by (auto simp: mod_eq_0_iff_dvd)
  have d: "softfloat_doIncrement rm s ex \<longleftrightarrow> 2 ^ 64 \<le> uint ex + round_incr (2 ^ 63) rm s"
    using ex uint_pos_iff [of ex] by (auto simp: softfloat_doIncrement_def round_incr_def word_le_uint Let_def)
  have "rm = softfloat_round_near_even \<Longrightarrow> softfloat_doIncrement rm s ex \<longleftrightarrow> 2 ^ 63 \<le> uint ex"
    by (simp add: softfloat_doIncrement_def word_le_uint)
  moreover have "(n + round_incr (2 ^ 63) rm s) div (2 * 2 ^ 63) = uint sig + of_bool (softfloat_doIncrement rm s ex)"
    unfolding d using round_incr_bounds [of "2 ^ 63" rm s] by (intro inc) simp_all
  ultimately show ?thesis using tie unfolding round_code_def Let_def m l by (simp only:) auto
qed

lemma roundPackToInt64_steps:
  assumes "n = uint (sig :: u64) * 2 ^ 64 + uint (ex :: u64)"
  shows "softfloat_doIncrement rm s ex \<Longrightarrow> sig + 1 = 0 \<Longrightarrow> round_code (2 ^ 63) rm s n = 2 ^ 64"
    "softfloat_doIncrement rm s ex \<Longrightarrow> sig + 1 \<noteq> 0 \<Longrightarrow>
      round_code (2 ^ 63) rm s n = uint (sig + 1 AND NOT (of_bool (ex AND 0x7FFFFFFFFFFFFFFF = 0 \<and> rm = softfloat_round_near_even)))"
    "\<not> softfloat_doIncrement rm s ex \<Longrightarrow> round_code (2 ^ 63) rm s n = uint sig"
    "n mod (2 * 2 ^ 63) \<noteq> 0 \<longleftrightarrow> ex \<noteq> 0"
proof -
  have sum: "uint (sig + 1) = (if uint sig + 1 < 2 ^ 64 then uint sig + 1 else uint sig + 1 - 2 ^ 64)"
    using uint_plus_if' [of sig 1] by simp
  have b: "0 \<le> uint sig" "uint sig < 2 ^ 64" using uint_lt2p [of sig] by simp_all
  have "sig + 1 = 0 \<longleftrightarrow> uint (sig + 1) = 0" by (simp only: uint_eq_0)
  also have "\<dots> \<longleftrightarrow> uint sig = 2 ^ 64 - 1" using sum b by (cases "uint sig + 1 < 2 ^ 64") (simp_all only: if_True if_False, linarith+)
  finally have "sig + 1 \<noteq> 0 \<Longrightarrow> uint (sig + 1) = uint sig + 1" "sig + 1 = 0 \<Longrightarrow> uint sig = 2 ^ 64 - 1"
    using sum b by simp_all
  then show "softfloat_doIncrement rm s ex \<Longrightarrow> sig + 1 = 0 \<Longrightarrow> round_code (2 ^ 63) rm s n = 2 ^ 64"
    "softfloat_doIncrement rm s ex \<Longrightarrow> sig + 1 \<noteq> 0 \<Longrightarrow>
      round_code (2 ^ 63) rm s n = uint (sig + 1 AND NOT (of_bool (ex AND 0x7FFFFFFFFFFFFFFF = 0 \<and> rm = softfloat_round_near_even)))"
    "\<not> softfloat_doIncrement rm s ex \<Longrightarrow> round_code (2 ^ 63) rm s n = uint sig"
    by (simp_all only: round_code_64 [OF assms] uint_clear_last) simp_all
  have "uint ex < 2 ^ 64" using uint_lt2p [of ex] by simp
  then show "n mod (2 * 2 ^ 63) \<noteq> 0 \<longleftrightarrow> ex \<noteq> 0" by (simp add: assms)
qed

lemma roundPackToUI64_law:
  assumes "n = uint (sig :: u64) * 2 ^ 64 + uint (ex :: u64)"
  shows "map_prod uint id (softfloat_roundPackToUI64 s sig ex rm exact st) =
    int_result 0 (2 ^ 64 - 1) s (round_code (2 ^ 63) rm s n) (exact \<and> n mod (2 * 2 ^ 63) \<noteq> 0) st"
proof -
  note steps = roundPackToInt64_steps [OF assms]
  have u: "uint z < 2 ^ 64" "z \<noteq> 0 \<Longrightarrow> 0 < uint z" for z :: u64
    using uint_lt2p [of z] uint_pos_iff [of z] by simp_all
  have fin: "map_prod uint id (if s \<and> z \<noteq> 0 then (if s then 0 else 0xFFFFFFFFFFFFFFFF, softfloat_raiseFlags 16 st)
      else (z, if exact \<and> ex \<noteq> 0 then softfloat_raiseFlags 1 st else st)) =
      int_result 0 (2 ^ 64 - 1) s (uint z) (exact \<and> ex \<noteq> 0) st" for z :: u64
    using u [of z] by (auto simp: int_result_def Let_def)
  show ?thesis
  proof (cases "softfloat_doIncrement rm s ex")
    case True
    then show ?thesis using steps(1,2) [OF True] fin
      unfolding softfloat_roundPackToUI64_def Let_def steps(4)
      by (cases "sig + 1 = 0") (simp_all only: if_True if_False refl not_True_eq_False not_False_eq_True simp_thms, simp add: int_result_def)
  next
    case False
    then show ?thesis using steps(3) [OF False] fin
      unfolding softfloat_roundPackToUI64_def Let_def steps(4) by (simp only: if_False)
  qed
qed

lemma roundPackToI64_law:
  assumes "n = uint (sig :: u64) * 2 ^ 64 + uint (ex :: u64)"
  shows "softfloat_roundPackToI64 s sig ex rm exact st =
    int_result (- (2 ^ 63)) (2 ^ 63 - 1) s (round_code (2 ^ 63) rm s n) (exact \<and> n mod (2 * 2 ^ 63) \<noteq> 0) st"
proof -
  note steps = roundPackToInt64_steps [OF assms]
  let ?inv = "(if s then - 0x7FFFFFFFFFFFFFFF - 1 else 0x7FFFFFFFFFFFFFFF, softfloat_raiseFlags 16 st) :: int \<times> softfloat_state"
  have fin: "(if sint (if s then - z else z) \<noteq> 0 \<and> (sint (if s then - z else z) < 0) \<noteq> s then ?inv
      else (sint (if s then - z else z), if exact \<and> ex \<noteq> 0 then softfloat_raiseFlags 1 st else st)) =
      int_result (- (2 ^ 63)) (2 ^ 63 - 1) s (uint z) (exact \<and> ex \<noteq> 0) st" for z :: u64
  proof -
    have "sint z = (if uint z < 2 ^ 63 then uint z else uint z - 2 ^ 64)"
      "sint (- z) = (if uint z \<le> 2 ^ 63 then - uint z else 2 ^ 64 - uint z)"
      using sint_if [of z] sint_neg_if [of z] by simp_all
    moreover have "0 \<le> uint z" "uint z < 2 ^ 64" using uint_lt2p [of z] by simp_all
    ultimately show ?thesis using uint_pos_iff [of z] by (auto simp: int_result_def Let_def)
  qed
  show ?thesis
  proof (cases "softfloat_doIncrement rm s ex")
    case True
    then show ?thesis using steps(1,2) [OF True] fin
      unfolding softfloat_roundPackToI64_def Let_def steps(4)
      by (cases "sig + 1 = 0") (simp_all only: if_True if_False refl not_True_eq_False not_False_eq_True simp_thms, simp add: int_result_def)
  next
    case False
    then show ?thesis using steps(3) [OF False] fin
      unfolding softfloat_roundPackToI64_def Let_def steps(4) by (simp only: if_False)
  qed
qed

interpretation ui32: int_pack 0 "2 ^ 32 - 1" 64 "2 ^ 63"
  "\<lambda>s n rm exact st. map_prod uint id (softfloat_roundPackToUI32 s (word_of_int n) rm exact st)"
proof unfold_locales
  fix n rm exact st s assume "0 \<le> n" "n < (2 ^ 63 :: int)"
  then have "uint (word_of_int n :: u64) = n" by (simp add: uint_word_of_int)
  then show "map_prod uint id (softfloat_roundPackToUI32 s (word_of_int n) rm exact st) =
    int_result 0 (2 ^ 32 - 1) s (round_code 64 rm s n) (exact \<and> n mod (2 * 64) \<noteq> 0) st"
    using roundPackToUI32_law [of "word_of_int n"] \<open>n < 2 ^ 63\<close> by simp
qed simp_all

interpretation i32: int_pack "- (2 ^ 31)" "2 ^ 31 - 1" 64 "2 ^ 63"
  "\<lambda>s n rm exact st. softfloat_roundPackToI32 s (word_of_int n) rm exact st"
proof unfold_locales
  fix n rm exact st s assume "0 \<le> n" "n < (2 ^ 63 :: int)"
  then have "uint (word_of_int n :: u64) = n" by (simp add: uint_word_of_int)
  then show "softfloat_roundPackToI32 s (word_of_int n) rm exact st =
    int_result (- (2 ^ 31)) (2 ^ 31 - 1) s (round_code 64 rm s n) (exact \<and> n mod (2 * 64) \<noteq> 0) st"
    using roundPackToI32_law [of "word_of_int n"] \<open>n < 2 ^ 63\<close> by simp
qed simp_all

lemma split_n64:
  assumes "0 \<le> n" "n < (2 ^ 128 :: int)"
  shows "n = uint (word_of_int (n div 2 ^ 64) :: u64) * 2 ^ 64 + uint (word_of_int n :: u64)"
proof -
  have "0 \<le> n div 2 ^ 64" "n div 2 ^ 64 < 2 ^ 64" using assms by (simp_all add: pos_imp_zdiv_nonneg_iff int_div_less_iff)
  then have "uint (word_of_int (n div 2 ^ 64) :: u64) = n div 2 ^ 64" by (simp add: uint_word_of_int)
  then show ?thesis by (simp add: uint_word_of_int)
qed

interpretation ui64: int_pack 0 "2 ^ 64 - 1" "2 ^ 63" "2 ^ 128"
  "\<lambda>s n rm exact st. map_prod uint id (softfloat_roundPackToUI64 s (word_of_int (n div 2 ^ 64)) (word_of_int n) rm exact st)"
  by unfold_locales (simp_all only: roundPackToUI64_law [OF split_n64], simp_all)

interpretation i64: int_pack "- (2 ^ 63)" "2 ^ 63 - 1" "2 ^ 63" "2 ^ 128"
  "\<lambda>s n rm exact st. softfloat_roundPackToI64 s (word_of_int (n div 2 ^ 64)) (word_of_int n) rm exact st"
  by unfold_locales (simp_all only: roundPackToI64_law [OF split_n64], simp_all)

end
