(* ===== verification/Softfloat_ToInt.thy ===== *)
theory Softfloat_ToInt
  imports Softfloat_RoundInt
begin

text \<open>
  The conversions from floating point to integers: \<^verbatim>\<open>f32_to_i32.c\<close>, \<^verbatim>\<open>f64_to_ui64.c\<close> and the
  other six conversions in a given rounding mode, and the eight truncating conversions
  \<^verbatim>\<open>f32_to_i32_r_minMag.c\<close> to \<^verbatim>\<open>f64_to_ui64_r_minMag.c\<close>. A signed result is the integer the
  C code returns, an unsigned one a word. All of them give the result \<open>ieee_to_int\<close>.
\<close>

section \<open>The conversions\<close>

definition f32_to_i32 :: "u32 \<Rightarrow> u8 \<Rightarrow> bool \<Rightarrow> softfloat_state \<Rightarrow> int \<times> softfloat_state" where
  "f32_to_i32 a roundingMode exact st =
     (let uiA = (ucast a :: u64); sign = signF32UI uiA; e = expF32UI uiA; sig = fracF32UI uiA;
          sign = (if e = 0xFF \<and> sig \<noteq> 0 then False else sign);
          sig = (if e \<noteq> 0 then sig OR 0x00800000 else sig);
          sig64 = push_bit 32 sig;
          shiftDist = 0xAF - e;
          sig64 = (if 0 < shiftDist then softfloat_shiftRightJam64 sig64 (word_of_int shiftDist) else sig64)
      in softfloat_roundPackToI32 sign sig64 roundingMode exact st)"

definition f32_to_i64 :: "u32 \<Rightarrow> u8 \<Rightarrow> bool \<Rightarrow> softfloat_state \<Rightarrow> int \<times> softfloat_state" where
  "f32_to_i64 a roundingMode exact st =
     (let uiA = (ucast a :: u64); sign = signF32UI uiA; e = expF32UI uiA; sig = fracF32UI uiA;
          shiftDist = 0xBE - e
      in if shiftDist < 0
         then (if e = 0xFF \<and> sig \<noteq> 0 then i64_fromNaN
               else if sign then i64_fromNegOverflow else i64_fromPosOverflow,
               softfloat_raiseFlags softfloat_flag_invalid st)
         else let sig = (if e \<noteq> 0 then sig OR 0x00800000 else sig);
                  sig64 = push_bit 40 sig;
                  extra = 0;
                  (sig64, extra) =
                    (if shiftDist \<noteq> 0
                     then let sig64Extra = softfloat_shiftRightJam64Extra sig64 0 (word_of_int shiftDist)
                          in (extra_v sig64Extra, extra_extra sig64Extra)
                     else (sig64, extra))
              in softfloat_roundPackToI64 sign sig64 extra roundingMode exact st)"

definition f32_to_ui32 :: "u32 \<Rightarrow> u8 \<Rightarrow> bool \<Rightarrow> softfloat_state \<Rightarrow> u64 \<times> softfloat_state" where
  "f32_to_ui32 a roundingMode exact st =
     (let uiA = (ucast a :: u64); sign = signF32UI uiA; e = expF32UI uiA; sig = fracF32UI uiA;
          sign = (if e = 0xFF \<and> sig \<noteq> 0 then False else sign);
          sig = (if e \<noteq> 0 then sig OR 0x00800000 else sig);
          sig64 = push_bit 32 sig;
          shiftDist = 0xAF - e;
          sig64 = (if 0 < shiftDist then softfloat_shiftRightJam64 sig64 (word_of_int shiftDist) else sig64)
      in softfloat_roundPackToUI32 sign sig64 roundingMode exact st)"

definition f32_to_ui64 :: "u32 \<Rightarrow> u8 \<Rightarrow> bool \<Rightarrow> softfloat_state \<Rightarrow> u64 \<times> softfloat_state" where
  "f32_to_ui64 a roundingMode exact st =
     (let uiA = (ucast a :: u64); sign = signF32UI uiA; e = expF32UI uiA; sig = fracF32UI uiA;
          shiftDist = 0xBE - e
      in if shiftDist < 0
         then (if e = 0xFF \<and> sig \<noteq> 0 then ui64_fromNaN
               else if sign then ui64_fromNegOverflow else ui64_fromPosOverflow,
               softfloat_raiseFlags softfloat_flag_invalid st)
         else let sig = (if e \<noteq> 0 then sig OR 0x00800000 else sig);
                  sig64 = push_bit 40 sig;
                  extra = 0;
                  (sig64, extra) =
                    (if shiftDist \<noteq> 0
                     then let sig64Extra = softfloat_shiftRightJam64Extra sig64 0 (word_of_int shiftDist)
                          in (extra_v sig64Extra, extra_extra sig64Extra)
                     else (sig64, extra))
              in softfloat_roundPackToUI64 sign sig64 extra roundingMode exact st)"

definition f64_to_i32 :: "u64 \<Rightarrow> u8 \<Rightarrow> bool \<Rightarrow> softfloat_state \<Rightarrow> int \<times> softfloat_state" where
  "f64_to_i32 a roundingMode exact st =
     (let uiA = a; sign = signF64UI uiA; e = expF64UI uiA; sig = fracF64UI uiA;
          sign = (if e = 0x7FF \<and> sig \<noteq> 0 then False else sign);
          sig = (if e \<noteq> 0 then sig OR 0x0010000000000000 else sig);
          shiftDist = 0x42C - e;
          sig = (if 0 < shiftDist then softfloat_shiftRightJam64 sig (word_of_int shiftDist) else sig)
      in softfloat_roundPackToI32 sign sig roundingMode exact st)"

definition f64_to_i64 :: "u64 \<Rightarrow> u8 \<Rightarrow> bool \<Rightarrow> softfloat_state \<Rightarrow> int \<times> softfloat_state" where
  "f64_to_i64 a roundingMode exact st =
     (let uiA = a; sign = signF64UI uiA; e = expF64UI uiA; sig = fracF64UI uiA;
          sig = (if e \<noteq> 0 then sig OR 0x0010000000000000 else sig);
          shiftDist = 0x433 - e
      in if shiftDist < -11
         then (if e = 0x7FF \<and> fracF64UI uiA \<noteq> 0 then i64_fromNaN
               else if sign then i64_fromNegOverflow else i64_fromPosOverflow,
               softfloat_raiseFlags softfloat_flag_invalid st)
         else let sigExtra = (if shiftDist \<le> 0
                              then \<lparr>extra_extra = 0, extra_v = push_bit (nat (- shiftDist)) sig\<rparr>
                              else softfloat_shiftRightJam64Extra sig 0 (word_of_int shiftDist))
              in softfloat_roundPackToI64 sign (extra_v sigExtra) (extra_extra sigExtra) roundingMode exact st)"

definition f64_to_ui32 :: "u64 \<Rightarrow> u8 \<Rightarrow> bool \<Rightarrow> softfloat_state \<Rightarrow> u64 \<times> softfloat_state" where
  "f64_to_ui32 a roundingMode exact st =
     (let uiA = a; sign = signF64UI uiA; e = expF64UI uiA; sig = fracF64UI uiA;
          sign = (if e = 0x7FF \<and> sig \<noteq> 0 then False else sign);
          sig = (if e \<noteq> 0 then sig OR 0x0010000000000000 else sig);
          shiftDist = 0x42C - e;
          sig = (if 0 < shiftDist then softfloat_shiftRightJam64 sig (word_of_int shiftDist) else sig)
      in softfloat_roundPackToUI32 sign sig roundingMode exact st)"

definition f64_to_ui64 :: "u64 \<Rightarrow> u8 \<Rightarrow> bool \<Rightarrow> softfloat_state \<Rightarrow> u64 \<times> softfloat_state" where
  "f64_to_ui64 a roundingMode exact st =
     (let uiA = a; sign = signF64UI uiA; e = expF64UI uiA; sig = fracF64UI uiA;
          sig = (if e \<noteq> 0 then sig OR 0x0010000000000000 else sig);
          shiftDist = 0x433 - e
      in if shiftDist < -11
         then (if e = 0x7FF \<and> fracF64UI uiA \<noteq> 0 then ui64_fromNaN
               else if sign then ui64_fromNegOverflow else ui64_fromPosOverflow,
               softfloat_raiseFlags softfloat_flag_invalid st)
         else let sigExtra = (if shiftDist \<le> 0
                              then \<lparr>extra_extra = 0, extra_v = push_bit (nat (- shiftDist)) sig\<rparr>
                              else softfloat_shiftRightJam64Extra sig 0 (word_of_int shiftDist))
              in softfloat_roundPackToUI64 sign (extra_v sigExtra) (extra_extra sigExtra) roundingMode exact st)"

definition f32_to_i32_r_minMag :: "u32 \<Rightarrow> bool \<Rightarrow> softfloat_state \<Rightarrow> int \<times> softfloat_state" where
  "f32_to_i32_r_minMag a exact st =
     (let uiA = (ucast a :: u64); e = expF32UI uiA; sig = fracF32UI uiA; shiftDist = 0x9E - e
      in if 32 \<le> shiftDist
         then (0, if exact \<and> (word_of_int e OR sig) \<noteq> 0
                  then softfloat_raiseFlags softfloat_flag_inexact st else st)
         else let sign = signF32UI uiA
         in if shiftDist \<le> 0
         then if uiA = packToF32UI True 0x9E 0 then (- 0x7FFFFFFF - 1, st)
              else (if e = 0xFF \<and> sig \<noteq> 0 then i32_fromNaN
               else if sign then i32_fromNegOverflow else i32_fromPosOverflow,
               softfloat_raiseFlags softfloat_flag_invalid st)
         else let sig = push_bit 8 (sig OR 0x00800000);
                  absZ = drop_bit (nat shiftDist) sig
              in (if sign then - uint absZ else uint absZ,
                  if exact \<and> push_bit (nat shiftDist) absZ \<noteq> sig
                  then softfloat_raiseFlags softfloat_flag_inexact st else st))"

definition f32_to_ui32_r_minMag :: "u32 \<Rightarrow> bool \<Rightarrow> softfloat_state \<Rightarrow> u64 \<times> softfloat_state" where
  "f32_to_ui32_r_minMag a exact st =
     (let uiA = (ucast a :: u64); e = expF32UI uiA; sig = fracF32UI uiA; shiftDist = 0x9E - e
      in if 32 \<le> shiftDist
         then (0, if exact \<and> (word_of_int e OR sig) \<noteq> 0
                  then softfloat_raiseFlags softfloat_flag_inexact st else st)
         else let sign = signF32UI uiA
         in if sign \<or> shiftDist < 0
         then (if e = 0xFF \<and> sig \<noteq> 0 then ui32_fromNaN
               else if sign then ui32_fromNegOverflow else ui32_fromPosOverflow,
               softfloat_raiseFlags softfloat_flag_invalid st)
         else let sig = push_bit 8 (sig OR 0x00800000);
                  z = drop_bit (nat shiftDist) sig
              in (z, if exact \<and> push_bit (nat shiftDist) z \<noteq> sig
                     then softfloat_raiseFlags softfloat_flag_inexact st else st))"

definition f32_to_i64_r_minMag :: "u32 \<Rightarrow> bool \<Rightarrow> softfloat_state \<Rightarrow> int \<times> softfloat_state" where
  "f32_to_i64_r_minMag a exact st =
     (let uiA = (ucast a :: u64); e = expF32UI uiA; sig = fracF32UI uiA; shiftDist = 0xBE - e
      in if 64 \<le> shiftDist
         then (0, if exact \<and> (word_of_int e OR sig) \<noteq> 0
                  then softfloat_raiseFlags softfloat_flag_inexact st else st)
         else let sign = signF32UI uiA
         in if shiftDist \<le> 0
         then if uiA = packToF32UI True 0xBE 0 then (- 0x7FFFFFFFFFFFFFFF - 1, st)
              else (if e = 0xFF \<and> sig \<noteq> 0 then i64_fromNaN
               else if sign then i64_fromNegOverflow else i64_fromPosOverflow,
               softfloat_raiseFlags softfloat_flag_invalid st)
         else let sig = sig OR 0x00800000;
                  sig64 = push_bit 40 sig;
                  absZ = drop_bit (nat shiftDist) sig64;
                  shiftDist = 40 - shiftDist
              in (if sign then - uint absZ else uint absZ,
                  if exact \<and> shiftDist < 0
                       \<and> (ucast (push_bit (unat ((word_of_int shiftDist :: u64) AND 31)) sig) :: u32) \<noteq> 0
                  then softfloat_raiseFlags softfloat_flag_inexact st else st))"

definition f32_to_ui64_r_minMag :: "u32 \<Rightarrow> bool \<Rightarrow> softfloat_state \<Rightarrow> u64 \<times> softfloat_state" where
  "f32_to_ui64_r_minMag a exact st =
     (let uiA = (ucast a :: u64); e = expF32UI uiA; sig = fracF32UI uiA; shiftDist = 0xBE - e
      in if 64 \<le> shiftDist
         then (0, if exact \<and> (word_of_int e OR sig) \<noteq> 0
                  then softfloat_raiseFlags softfloat_flag_inexact st else st)
         else let sign = signF32UI uiA
         in if sign \<or> shiftDist < 0
         then (if e = 0xFF \<and> sig \<noteq> 0 then ui64_fromNaN
               else if sign then ui64_fromNegOverflow else ui64_fromPosOverflow,
               softfloat_raiseFlags softfloat_flag_invalid st)
         else let sig = sig OR 0x00800000;
                  sig64 = push_bit 40 sig;
                  z = drop_bit (nat shiftDist) sig64;
                  shiftDist = 40 - shiftDist
              in (z, if exact \<and> shiftDist < 0
                          \<and> (ucast (push_bit (unat ((word_of_int shiftDist :: u64) AND 31)) sig) :: u32) \<noteq> 0
                     then softfloat_raiseFlags softfloat_flag_inexact st else st))"

definition f64_to_i32_r_minMag :: "u64 \<Rightarrow> bool \<Rightarrow> softfloat_state \<Rightarrow> int \<times> softfloat_state" where
  "f64_to_i32_r_minMag a exact st =
     (let uiA = a; e = expF64UI uiA; sig = fracF64UI uiA; shiftDist = 0x433 - e
      in if 53 \<le> shiftDist
         then (0, if exact \<and> (word_of_int e OR sig) \<noteq> 0
                  then softfloat_raiseFlags softfloat_flag_inexact st else st)
         else let sign = signF64UI uiA
         in if shiftDist < 22
         then if sign \<and> e = 0x41E \<and> sig < 0x0000000000200000
              then (- 0x7FFFFFFF - 1, if exact \<and> sig \<noteq> 0
                                      then softfloat_raiseFlags softfloat_flag_inexact st else st)
              else (if e = 0x7FF \<and> sig \<noteq> 0 then i32_fromNaN
               else if sign then i32_fromNegOverflow else i32_fromPosOverflow,
               softfloat_raiseFlags softfloat_flag_invalid st)
         else let sig = sig OR 0x0010000000000000;
                  absZ = drop_bit (nat shiftDist) sig
              in (if sign then - uint absZ else uint absZ,
                  if exact \<and> push_bit (nat shiftDist) absZ \<noteq> sig
                  then softfloat_raiseFlags softfloat_flag_inexact st else st))"

definition f64_to_ui32_r_minMag :: "u64 \<Rightarrow> bool \<Rightarrow> softfloat_state \<Rightarrow> u64 \<times> softfloat_state" where
  "f64_to_ui32_r_minMag a exact st =
     (let uiA = a; e = expF64UI uiA; sig = fracF64UI uiA; shiftDist = 0x433 - e
      in if 53 \<le> shiftDist
         then (0, if exact \<and> (word_of_int e OR sig) \<noteq> 0
                  then softfloat_raiseFlags softfloat_flag_inexact st else st)
         else let sign = signF64UI uiA
         in if sign \<or> shiftDist < 21
         then (if e = 0x7FF \<and> sig \<noteq> 0 then ui32_fromNaN
               else if sign then ui32_fromNegOverflow else ui32_fromPosOverflow,
               softfloat_raiseFlags softfloat_flag_invalid st)
         else let sig = sig OR 0x0010000000000000;
                  z = drop_bit (nat shiftDist) sig
              in (z, if exact \<and> push_bit (nat shiftDist) z \<noteq> sig
                     then softfloat_raiseFlags softfloat_flag_inexact st else st))"

definition f64_to_i64_r_minMag :: "u64 \<Rightarrow> bool \<Rightarrow> softfloat_state \<Rightarrow> int \<times> softfloat_state" where
  "f64_to_i64_r_minMag a exact st =
     (let uiA = a; sign = signF64UI uiA; e = expF64UI uiA; sig = fracF64UI uiA; shiftDist = 0x433 - e
      in if shiftDist \<le> 0
         then if shiftDist < -10
              then if uiA = packToF64UI True 0x43E 0 then (- 0x7FFFFFFFFFFFFFFF - 1, st)
                   else (if e = 0x7FF \<and> sig \<noteq> 0 then i64_fromNaN
               else if sign then i64_fromNegOverflow else i64_fromPosOverflow,
               softfloat_raiseFlags softfloat_flag_invalid st)
              else let sig = sig OR 0x0010000000000000;
                       absZ = push_bit (nat (- shiftDist)) sig
                   in (if sign then - sint absZ else sint absZ, st)
         else if 53 \<le> shiftDist
         then (0, if exact \<and> (word_of_int e OR sig) \<noteq> 0
                  then softfloat_raiseFlags softfloat_flag_inexact st else st)
         else let sig = sig OR 0x0010000000000000;
                  absZ = drop_bit (nat shiftDist) sig
              in (if sign then - sint absZ else sint absZ,
                  if exact \<and> push_bit (nat shiftDist) absZ \<noteq> sig
                  then softfloat_raiseFlags softfloat_flag_inexact st else st))"

definition f64_to_ui64_r_minMag :: "u64 \<Rightarrow> bool \<Rightarrow> softfloat_state \<Rightarrow> u64 \<times> softfloat_state" where
  "f64_to_ui64_r_minMag a exact st =
     (let uiA = a; e = expF64UI uiA; sig = fracF64UI uiA; shiftDist = 0x433 - e
      in if 53 \<le> shiftDist
         then (0, if exact \<and> (word_of_int e OR sig) \<noteq> 0
                  then softfloat_raiseFlags softfloat_flag_inexact st else st)
         else let sign = signF64UI uiA;
                  invalid = (if e = 0x7FF \<and> sig \<noteq> 0 then ui64_fromNaN
               else if sign then ui64_fromNegOverflow else ui64_fromPosOverflow,
               softfloat_raiseFlags softfloat_flag_invalid st)
         in if sign then invalid
         else if shiftDist \<le> 0
         then if shiftDist < -11 then invalid
              else (push_bit (nat (- shiftDist)) (sig OR 0x0010000000000000), st)
         else let sig = sig OR 0x0010000000000000;
                  z = drop_bit (nat shiftDist) sig
              in (z, if exact \<and> push_bit (unat ((word_of_int (- shiftDist) :: u64) AND 63)) sig \<noteq> 0
                     then softfloat_raiseFlags softfloat_flag_inexact st else st))"

section \<open>Conversions in a given rounding mode\<close>

lemma push_drop_eq:
  assumes "d < LENGTH('a)"
  shows "push_bit d (drop_bit d w) \<noteq> (w :: 'a::len word) \<longleftrightarrow> uint w mod 2 ^ d \<noteq> 0"
proof -
  have "uint w div 2 ^ d * 2 ^ d < 2 ^ LENGTH('a)"
    using int_div_bounds(1) [of "2 ^ d" "uint w"] uint_lt2p [of w] zero_less_power [of "2::int" d] by linarith
  then have "uint (push_bit d (drop_bit d w)) = uint w div 2 ^ d * 2 ^ d"
    unfolding uint_push uint_drop by (intro mod_pos_pos_trivial) (simp_all add: pos_imp_zdiv_nonneg_iff)
  then have "push_bit d (drop_bit d w) = w \<longleftrightarrow> uint w div 2 ^ d * 2 ^ d = uint w" by (simp only: word_eq_uint)
  also have "\<dots> \<longleftrightarrow> uint w mod 2 ^ d = 0" using div_mult_mod_eq [of "uint w" "2 ^ d"] by linarith
  finally show ?thesis by simp
qed

lemma jam64Extra:
  fixes a c :: u64
  defines "z \<equiv> softfloat_shiftRightJam64Extra a 0 c"
  assumes c: "0 < unat c" and st: "sticky (2 ^ 63) y (jam_shift (unat c) (uint a * 2 ^ 64))"
  shows "sticky (2 ^ 63) y (uint (extra_v z) * 2 ^ 64 + uint (extra_extra z))"
proof (cases "unat c \<le> 64")
  case True
  have "uint (extra_v z) * 2 ^ 64 + uint (extra_extra z) = jam_shift (unat c) (uint a * 2 ^ 64)"
  proof (cases "unat c = 64")
    case True
    then have "c = 64" by (simp add: word_unat_eq_iff)
    then show ?thesis using jam_shift_mult [of 64 "uint a"] by (simp add: z_def softfloat_shiftRightJam64Extra_def)
  next
    case False
    then have d: "unat c < 64" using \<open>unat c \<le> 64\<close> by simp
    then have c64: "c < 64" by (simp add: word_less_nat_alt)
    let ?d = "unat c"
    have p: "(2::int) ^ 64 = 2 ^ (64 - ?d) * 2 ^ ?d" using d by (simp flip: power_add)
    have "jam_shift ?d (uint a * 2 ^ 64) = uint a * 2 ^ (64 - ?d)"
      using jam_shift_mult [of ?d "uint a * 2 ^ (64 - ?d)"] by (simp only: p mult.assoc)
    moreover have "uint (push_bit (64 - ?d) a) = uint a mod 2 ^ ?d * 2 ^ (64 - ?d)"
      using mod_mult_mult2 [of "uint a" "2 ^ (64 - ?d)" "2 ^ ?d"] uint_push [of "64 - ?d" a]
      by (simp only: p [symmetric] mult.commute [of "2 ^ ?d" "2 ^ (64 - ?d)"] len64)
    moreover have "uint a * 2 ^ (64 - ?d) = uint a div 2 ^ ?d * 2 ^ 64 + uint a mod 2 ^ ?d * 2 ^ (64 - ?d)"
      unfolding p using arg_cong [OF div_mult_mod_eq [of "uint a" "2 ^ ?d"], of "\<lambda>x. x * 2 ^ (64 - ?d)"]
      by (simp only: distrib_right mult.assoc mult.commute [of "2 ^ ?d" "2 ^ (64 - ?d)"])
    ultimately show ?thesis using c64 c d
      by (simp add: z_def softfloat_shiftRightJam64Extra_def uint_drop unat_neg_and_63)
  qed
  then show ?thesis using st by simp
next
  case False
  have "\<not> c < 64" "c \<noteq> 64" using False by (auto simp: word_less_nat_alt)
  then have z: "extra_v z = 0" "extra_extra z = of_bool (a \<noteq> 0)" by (simp_all add: z_def softfloat_shiftRightJam64Extra_def)
  show ?thesis
  proof (cases "a = 0")
    case True
    then show ?thesis using st z by (simp add: jam_shift_def)
  next
    case nz: False
    define d where "d = unat c - 64"
    have d: "unat c = d + 64" "1 \<le> d" using False by (simp_all add: d_def)
    have j: "jam_shift (unat c) (uint a * 2 ^ 64) = jam_shift d (uint a)" unfolding d(1) by (rule jam_shift_cancel)
    have "uint a < 2 ^ 63 * 2 ^ 1" using uint_lt2p [of a] by simp
    also have "\<dots> \<le> 2 ^ 63 * 2 ^ d" using d(2) by (intro mult_left_mono power_increasing) simp_all
    finally have "jam_shift d (uint a) < 2 ^ 63" using jam_shift_less(1) [of "2 ^ 63" d "uint a"] by simp
    moreover have "0 < jam_shift d (uint a)" using nz by (intro jam_shift_pos) (simp add: uint_pos_iff)
    ultimately show ?thesis using st nz unfolding j z by (intro sticky_replace [OF st [unfolded j]]) simp_all
  qed
qed

lemma sig_or_hidden32:
  "uint (if expF32UI w \<noteq> 0 then fracF32UI w OR 0x00800000 else fracF32UI w) = enc_sig binary32 (uint w)"
  using uint_or_hidden32 [of "fracF32UI w"] enc_field_range(4) [of binary32 "uint w"]
  by (simp add: enc_sig_def expF32UI_enc fracF32UI_enc)

lemma sig_or_hidden64:
  "uint (if expF64UI w \<noteq> 0 then fracF64UI w OR 0x0010000000000000 else fracF64UI w) = enc_sig binary64 (uint w)"
  using uint_or_hidden64 [of "fracF64UI w"] enc_field_range(4) [of binary64 "uint w"]
  by (simp add: enc_sig_def expF64UI_enc fracF64UI_enc)

lemma f32_int32_sig:
  fixes w :: u64
  defines "sig \<equiv> push_bit 32 (if expF32UI w \<noteq> 0 then fracF32UI w OR 0x00800000 else fracF32UI w)"
  defines "d \<equiv> 0xAF - expF32UI w"
  defines "n \<equiv> uint (if 0 < d then softfloat_shiftRightJam64 sig (word_of_int d) else sig)"
  shows "n < 2 ^ 63"
    "if 0 < d then enc_finite binary32 (uint w) \<and> (\<exists>y. sticky 64 y n \<and> enc_abs binary32 (uint w) = y / of_int (2 * 64))
     else 2 ^ 33 * (2 * 64) \<le> n \<and> of_int (2 ^ 33) \<le> enc_abs binary32 (uint w)"
proof -
  let ?m = "enc_sig binary32 (uint w)" and ?E = "enc_exp binary32 (uint w)"
  have m: "0 \<le> ?m" "?m < 2 ^ 24" "?E \<noteq> 0 \<Longrightarrow> 2 ^ 23 \<le> ?m" using enc_sig_range [of binary32 "uint w"] by simp_all
  have E: "0 \<le> ?E" "?E < 256" using enc_field_range(1,2) [of binary32 "uint w"] by simp_all
  have s: "uint sig = ?m * 2 ^ 32" using m by (simp add: sig_def sig_or_hidden32 uint_push)
  have d: "d = 175 - ?E" by (simp add: d_def expF32UI_enc)
  have n: "0 < d \<Longrightarrow> n = jam_shift (nat d) (?m * 2 ^ 32)" "\<not> 0 < d \<Longrightarrow> n = ?m * 2 ^ 32"
    using uint_jam64 [of d sig] E by (simp_all add: n_def s d)
  show "n < 2 ^ 63"
  proof (cases "0 < d")
    case True
    have "?m * 2 ^ 32 < 2 ^ 56 * 1" using m by simp
    also have "\<dots> \<le> 2 ^ 56 * 2 ^ nat d" by (intro mult_left_mono one_le_power) simp_all
    finally have "jam_shift (nat d) (?m * 2 ^ 32) < 2 ^ 56" using jam_shift_less(1) [of "2 ^ 56" "nat d"] by simp
    then show ?thesis using n(1) [OF True] by simp
  qed (use n(2) m in simp)
  have "0 < d \<Longrightarrow> \<exists>y. sticky 64 y n \<and> enc_abs binary32 (uint w) = y / of_int (2 * 64)"
    using int_operand [of "nat d" 32 binary32 7 "uint w"] n(1) by (simp add: d fmt_qmin_def fmt_bias_def)
  moreover have "\<not> 0 < d \<Longrightarrow> 2 ^ 33 * (2 * 64) \<le> n \<and> of_int (2 ^ 33) \<le> enc_abs binary32 (uint w)"
    using n(2) m enc_abs_ge [of binary32 "uint w" 33] by (simp add: d fmt_qmin_def fmt_bias_def)
  moreover have "0 < d \<Longrightarrow> enc_finite binary32 (uint w)" by (simp add: d enc_finite_def)
  ultimately show "if 0 < d then enc_finite binary32 (uint w) \<and> (\<exists>y. sticky 64 y n \<and> enc_abs binary32 (uint w) = y / of_int (2 * 64))
     else 2 ^ 33 * (2 * 64) \<le> n \<and> of_int (2 ^ 33) \<le> enc_abs binary32 (uint w)" by (simp only: split: if_split) blast
qed

lemma f64_int32_sig:
  fixes w :: u64
  defines "sig \<equiv> (if expF64UI w \<noteq> 0 then fracF64UI w OR 0x0010000000000000 else fracF64UI w)"
  defines "d \<equiv> 0x42C - expF64UI w"
  defines "n \<equiv> uint (if 0 < d then softfloat_shiftRightJam64 sig (word_of_int d) else sig)"
  shows "n < 2 ^ 63"
    "if 0 < d then enc_finite binary64 (uint w) \<and> (\<exists>y. sticky 64 y n \<and> enc_abs binary64 (uint w) = y / of_int (2 * 64))
     else 2 ^ 33 * (2 * 64) \<le> n \<and> of_int (2 ^ 33) \<le> enc_abs binary64 (uint w)"
proof -
  let ?m = "enc_sig binary64 (uint w)" and ?E = "enc_exp binary64 (uint w)"
  have m: "0 \<le> ?m" "?m < 2 ^ 53" "?E \<noteq> 0 \<Longrightarrow> 2 ^ 52 \<le> ?m" using enc_sig_range [of binary64 "uint w"] by simp_all
  have E: "0 \<le> ?E" "?E < 2048" using enc_field_range(1,2) [of binary64 "uint w"] by simp_all
  have s: "uint sig = ?m" by (simp only: sig_def sig_or_hidden64)
  have d: "d = 1068 - ?E" by (simp add: d_def expF64UI_enc)
  have n: "0 < d \<Longrightarrow> n = jam_shift (nat d) ?m" "\<not> 0 < d \<Longrightarrow> n = ?m"
    using uint_jam64 [of d sig] E by (simp_all add: n_def s d)
  show "n < 2 ^ 63"
  proof (cases "0 < d")
    case True
    have "?m < 2 ^ 56 * 1" using m by simp
    also have "\<dots> \<le> 2 ^ 56 * 2 ^ nat d" by (intro mult_left_mono one_le_power) simp_all
    finally have "jam_shift (nat d) ?m < 2 ^ 56" using jam_shift_less(1) [of "2 ^ 56" "nat d"] by simp
    then show ?thesis using n(1) [OF True] by simp
  qed (use n(2) m in simp)
  have "0 < d \<Longrightarrow> \<exists>y. sticky 64 y n \<and> enc_abs binary64 (uint w) = y / of_int (2 * 64)"
    using int_operand [of "nat d" 0 binary64 7 "uint w"] n(1) by (simp add: d fmt_qmin_def fmt_bias_def)
  moreover have "\<not> 0 < d \<Longrightarrow> 2 ^ 33 * (2 * 64) \<le> n \<and> of_int (2 ^ 33) \<le> enc_abs binary64 (uint w)"
    using n(2) m enc_abs_ge [of binary64 "uint w" 33] by (simp add: d fmt_qmin_def fmt_bias_def)
  moreover have "0 < d \<Longrightarrow> enc_finite binary64 (uint w)" by (simp add: d enc_finite_def)
  ultimately show "if 0 < d then enc_finite binary64 (uint w) \<and> (\<exists>y. sticky 64 y n \<and> enc_abs binary64 (uint w) = y / of_int (2 * 64))
     else 2 ^ 33 * (2 * 64) \<le> n \<and> of_int (2 ^ 33) \<le> enc_abs binary64 (uint w)" by (simp only: split: if_split) blast
qed

lemma words_of_n64:
  "word_of_int ((uint v * 2 ^ 64 + uint x) div 2 ^ 64) = (v :: u64)" "word_of_int (uint v * 2 ^ 64 + uint x) = (x :: u64)"
  "0 \<le> uint v * 2 ^ 64 + uint x" "uint v * 2 ^ 64 + uint x < 2 ^ 128"
proof -
  have b: "0 \<le> uint x" "uint x < 2 ^ 64" "uint v \<le> 2 ^ 64 - 1" using uint_lt2p [of x] uint_lt2p [of v] by simp_all
  have "(uint v * 2 ^ 64 + uint x) div 2 ^ 64 = uint v" using b by simp
  then show "word_of_int ((uint v * 2 ^ 64 + uint x) div 2 ^ 64) = v" by (simp only: word_of_int_uint)
  have "uint (word_of_int (uint v * 2 ^ 64 + uint x) :: u64) = (uint v * 2 ^ 64 + uint x) mod 2 ^ 64"
    by (simp only: uint_word_of_int len64)
  also have "\<dots> = uint x" using b by simp
  finally have "uint (word_of_int (uint v * 2 ^ 64 + uint x) :: u64) = uint x" .
  then show "word_of_int (uint v * 2 ^ 64 + uint x) = x" by (simp only: word_eq_uint)
  show "0 \<le> uint v * 2 ^ 64 + uint x" by simp
  have "uint v * 2 ^ 64 \<le> (2 ^ 64 - 1) * 2 ^ 64" using b(3) by (rule mult_right_mono) simp
  then show "uint v * 2 ^ 64 + uint x < 2 ^ 128" using b(2) by simp
qed

lemma f32_int64_sig:
  fixes w :: u64
  defines "sig \<equiv> push_bit 40 (if expF32UI w \<noteq> 0 then fracF32UI w OR 0x00800000 else fracF32UI w)"
  defines "d \<equiv> 0xBE - expF32UI w"
  defines "z \<equiv> (if d \<noteq> 0 then softfloat_shiftRightJam64Extra sig 0 (word_of_int d)
                  else \<lparr>extra_extra = 0, extra_v = sig\<rparr>)"
  defines "n \<equiv> uint (extra_v z) * 2 ^ 64 + uint (extra_extra z)"
  assumes d0: "0 \<le> d"
  shows "\<exists>y. sticky (2 ^ 63) y n \<and> enc_abs binary32 (uint w) = y / of_int (2 * 2 ^ 63)"
proof -
  let ?m = "enc_sig binary32 (uint w)" and ?E = "enc_exp binary32 (uint w)"
  have m: "0 \<le> ?m" "?m < 2 ^ 24" using enc_sig_range [of binary32 "uint w"] by simp_all
  have E: "0 \<le> ?E" using enc_field_range(1) [of binary32 "uint w"] by simp
  have s: "uint sig = ?m * 2 ^ 40" using m by (simp add: sig_def sig_or_hidden32 uint_push)
  have d: "d = 190 - ?E" by (simp add: d_def expF32UI_enc)
  obtain y where y: "sticky (2 ^ 63) y (jam_shift (nat d) (uint sig * 2 ^ 64))"
    "enc_abs binary32 (uint w) = y / of_int (2 * 2 ^ 63)"
    using int_operand [of "nat d" 104 binary32 64 "uint w"] d0 by (auto simp: s d fmt_qmin_def fmt_bias_def mult.commute)
  have "sticky (2 ^ 63) y n"
  proof (cases "d = 0")
    case False
    have "unat (word_of_int d :: u64) = nat d" using d0 d E by (intro unat_word_of_int) simp_all
    then show ?thesis using jam64Extra [of "word_of_int d" y sig] y(1) False d0 by (simp add: n_def z_def)
  qed (use y(1) in \<open>simp add: n_def z_def\<close>)
  then show ?thesis using y(2) by blast
qed

lemma f64_int64_sig:
  fixes w :: u64
  defines "sig \<equiv> (if expF64UI w \<noteq> 0 then fracF64UI w OR 0x0010000000000000 else fracF64UI w)"
  defines "d \<equiv> 0x433 - expF64UI w"
  defines "z \<equiv> (if d \<le> 0 then \<lparr>extra_extra = 0, extra_v = push_bit (nat (- d)) sig\<rparr>
                  else softfloat_shiftRightJam64Extra sig 0 (word_of_int d))"
  defines "n \<equiv> uint (extra_v z) * 2 ^ 64 + uint (extra_extra z)"
  assumes d0: "- 11 \<le> d"
  shows "\<exists>y. sticky (2 ^ 63) y n \<and> enc_abs binary64 (uint w) = y / of_int (2 * 2 ^ 63)"
proof -
  let ?m = "enc_sig binary64 (uint w)" and ?E = "enc_exp binary64 (uint w)"
  have m: "0 \<le> ?m" "?m < 2 ^ 53" using enc_sig_range [of binary64 "uint w"] by simp_all
  have E: "0 \<le> ?E" using enc_field_range(1) [of binary64 "uint w"] by simp
  have s: "uint sig = ?m" by (simp only: sig_def sig_or_hidden64)
  have d: "d = 1075 - ?E" by (simp add: d_def expF64UI_enc)
  show ?thesis
  proof (cases "d \<le> 0")
    case True
    let ?k = "nat (- d)"
    have k: "?k \<le> 11" using d0 by simp
    have "?m * 2 ^ ?k \<le> (2 ^ 53 - 1) * 2 ^ 11" using m k by (intro mult_mono power_increasing) simp_all
    then have "uint (push_bit ?k sig) = ?m * 2 ^ ?k" by (subst uint_push_small) (simp_all add: s)
    then have n: "n = ?m * 2 ^ ?k * 2 ^ 64" using True by (simp add: n_def z_def)
    have "int (0::nat) = int (64 + ?k) + 1 - fmt_qmin binary64 - int 64 - ?E" using True by (simp add: d fmt_qmin_def fmt_bias_def)
    from int_operand [OF this] show ?thesis by (simp add: n fmt_qmin_def fmt_bias_def power_add mult.assoc mult.commute)
  next
    case False
    then have "unat (word_of_int d :: u64) = nat d" using d E by (intro unat_word_of_int) simp_all
    then have "sticky (2 ^ 63) y (jam_shift (nat d) (uint sig * 2 ^ 64)) \<Longrightarrow> sticky (2 ^ 63) y n" for y
      using jam64Extra [of "word_of_int d" y sig] False by (simp add: n_def z_def)
    then show ?thesis using int_operand [of "nat d" 64 binary64 64 "uint w"] False
      by (auto simp: s d fmt_qmin_def fmt_bias_def)
  qed
qed

lemma enc_nan32: "expF32UI w = 0xFF \<and> fracF32UI w \<noteq> 0 \<longleftrightarrow> enc_nan binary32 (uint w)"
  by (simp add: enc_nan_def expF32UI_enc fracF32UI_zero)

lemma enc_nan64: "expF64UI w = 0x7FF \<and> fracF64UI w \<noteq> 0 \<longleftrightarrow> enc_nan binary64 (uint w)"
  by (simp add: enc_nan_def expF64UI_enc fracF64UI_zero)

lemma f32_to_int32_correct:
  "f32_to_i32 a rm exact st = ieee_to_int binary32 (- (2 ^ 31)) (2 ^ 31 - 1) rm exact (uint a) st"
  "map_prod uint id (f32_to_ui32 a rm exact st) = ieee_to_int binary32 0 (2 ^ 32 - 1) rm exact (uint a) st"
proof -
  let ?w = "ucast a :: u64"
  let ?sig = "push_bit 32 (if expF32UI ?w \<noteq> 0 then fracF32UI ?w OR 0x00800000 else fracF32UI ?w)"
    and ?d = "0xAF - expF32UI ?w"
  let ?z = "if 0 < ?d then softfloat_shiftRightJam64 ?sig (word_of_int ?d) else ?sig"
  have u: "uint ?w = uint a" "uint a < 2 ^ 32" using uint_lt2p [of a] by (simp_all add: uint_ucast_up)
  have s: "(if expF32UI ?w = 0xFF \<and> fracF32UI ?w \<noteq> 0 then False else signF32UI ?w) =
      (\<not> enc_nan binary32 (uint a) \<and> enc_sign binary32 (uint a))"
    using u signF32UI_enc [of ?w] by (simp add: enc_nan32)
  note sig = f32_int32_sig [of ?w, unfolded u]
  show "f32_to_i32 a rm exact st = ieee_to_int binary32 (- (2 ^ 31)) (2 ^ 31 - 1) rm exact (uint a) st"
    using i32.convert [OF s uint_ge_0 sig]
    unfolding f32_to_i32_def Let_def by (simp only: word_of_int_uint) simp
  show "map_prod uint id (f32_to_ui32 a rm exact st) = ieee_to_int binary32 0 (2 ^ 32 - 1) rm exact (uint a) st"
    using ui32.convert [OF s uint_ge_0 sig]
    unfolding f32_to_ui32_def Let_def by (simp only: word_of_int_uint) simp
qed

lemma f64_to_int32_correct:
  "f64_to_i32 a rm exact st = ieee_to_int binary64 (- (2 ^ 31)) (2 ^ 31 - 1) rm exact (uint a) st"
  "map_prod uint id (f64_to_ui32 a rm exact st) = ieee_to_int binary64 0 (2 ^ 32 - 1) rm exact (uint a) st"
proof -
  let ?w = "a"
  let ?sig = "(if expF64UI ?w \<noteq> 0 then fracF64UI ?w OR 0x0010000000000000 else fracF64UI ?w)"
    and ?d = "0x42C - expF64UI ?w"
  let ?z = "if 0 < ?d then softfloat_shiftRightJam64 ?sig (word_of_int ?d) else ?sig"
  have s: "(if expF64UI ?w = 0x7FF \<and> fracF64UI ?w \<noteq> 0 then False else signF64UI ?w) =
      (\<not> enc_nan binary64 (uint a) \<and> enc_sign binary64 (uint a))"
    by (simp add: enc_nan64 signF64UI_enc)
  note sig = f64_int32_sig [of ?w]
  show "f64_to_i32 a rm exact st = ieee_to_int binary64 (- (2 ^ 31)) (2 ^ 31 - 1) rm exact (uint a) st"
    using i32.convert [OF s uint_ge_0 sig]
    unfolding f64_to_i32_def Let_def by (simp only: word_of_int_uint) simp
  show "map_prod uint id (f64_to_ui32 a rm exact st) = ieee_to_int binary64 0 (2 ^ 32 - 1) rm exact (uint a) st"
    using ui32.convert [OF s uint_ge_0 sig]
    unfolding f64_to_ui32_def Let_def by (simp only: word_of_int_uint) simp
qed

lemma f32_to_int64_correct:
  "f32_to_i64 a rm exact st = ieee_to_int binary32 (- (2 ^ 63)) (2 ^ 63 - 1) rm exact (uint a) st"
  "map_prod uint id (f32_to_ui64 a rm exact st) = ieee_to_int binary32 0 (2 ^ 64 - 1) rm exact (uint a) st"
proof -
  define w where "w = (ucast a :: u64)"
  define sig where "sig = push_bit 40 (if expF32UI w \<noteq> 0 then fracF32UI w OR 0x00800000 else fracF32UI w)"
  define d where "d = 0xBE - expF32UI w"
  define z where "z = (if d \<noteq> 0 then softfloat_shiftRightJam64Extra sig 0 (word_of_int d)
                  else \<lparr>extra_extra = 0, extra_v = sig\<rparr>)"
  have u: "uint w = uint a" "uint a < 2 ^ 32" using uint_lt2p [of a] by (simp_all add: w_def uint_ucast_up)
  have s: "signF32UI w = enc_sign binary32 (uint a)" using u signF32UI_enc [of w] by simp
  have nan: "enc_nan binary32 (uint a) \<longleftrightarrow> expF32UI w = 0xFF \<and> fracF32UI w \<noteq> 0" by (simp add: enc_nan32 u)
  have big: "of_int (2 ^ 64) \<le> enc_abs binary32 (uint a)" if "d < 0"
    using that enc_abs_ge [of binary32 "uint a" 64] by (simp add: d_def expF32UI_enc u fmt_qmin_def fmt_bias_def)
  have fin: "0 \<le> d \<Longrightarrow> enc_finite binary32 (uint a)" by (simp add: d_def expF32UI_enc u enc_finite_def)
  note sg = f32_int64_sig [of w, folded sig_def d_def, folded z_def, unfolded u]
  have zz: "(if d \<noteq> 0 then let z = softfloat_shiftRightJam64Extra sig 0 (word_of_int d) in (extra_v z, extra_extra z)
      else (sig, 0)) = (extra_v z, extra_extra z)" by (simp add: z_def Let_def)
  show "f32_to_i64 a rm exact st = ieee_to_int binary32 (- (2 ^ 63)) (2 ^ 63 - 1) rm exact (uint a) st"
  proof (cases "d < 0")
    case True
    then show ?thesis using i64.out_of_bounds [of binary32 "uint a" "2 ^ 64" rm exact st] big nan s
      unfolding f32_to_i64_def w_def [symmetric] Let_def d_def by simp
  next
    case False
    then obtain y where y: "sticky (2 ^ 63) y (uint (extra_v z) * 2 ^ 64 + uint (extra_extra z))"
      "enc_abs binary32 (uint a) = y / of_int (2 * 2 ^ 63)" using sg by fastforce
    show ?thesis using i64.correct [OF fin y(2,1) words_of_n64(3,4)] zz False
      unfolding f32_to_i64_def w_def [symmetric] Let_def sig_def [symmetric] d_def [symmetric]
      by (simp only: words_of_n64 if_False prod.case s)
  qed
  show "map_prod uint id (f32_to_ui64 a rm exact st) = ieee_to_int binary32 0 (2 ^ 64 - 1) rm exact (uint a) st"
  proof (cases "d < 0")
    case True
    then show ?thesis using ui64.out_of_bounds [of binary32 "uint a" "2 ^ 64" rm exact st] big nan s
      unfolding f32_to_ui64_def w_def [symmetric] Let_def d_def by simp
  next
    case False
    then obtain y where y: "sticky (2 ^ 63) y (uint (extra_v z) * 2 ^ 64 + uint (extra_extra z))"
      "enc_abs binary32 (uint a) = y / of_int (2 * 2 ^ 63)" using sg by fastforce
    show ?thesis using ui64.correct [OF fin y(2,1) words_of_n64(3,4)] zz False
      unfolding f32_to_ui64_def w_def [symmetric] Let_def sig_def [symmetric] d_def [symmetric]
      by (simp only: words_of_n64 if_False prod.case s)
  qed
qed

lemma f64_to_int64_correct:
  "f64_to_i64 a rm exact st = ieee_to_int binary64 (- (2 ^ 63)) (2 ^ 63 - 1) rm exact (uint a) st"
  "map_prod uint id (f64_to_ui64 a rm exact st) = ieee_to_int binary64 0 (2 ^ 64 - 1) rm exact (uint a) st"
proof -
  define sig where "sig = (if expF64UI a \<noteq> 0 then fracF64UI a OR 0x0010000000000000 else fracF64UI a)"
  define d where "d = 0x433 - expF64UI a"
  define z where "z = (if d \<le> 0 then \<lparr>extra_extra = 0, extra_v = push_bit (nat (- d)) sig\<rparr>
                  else softfloat_shiftRightJam64Extra sig 0 (word_of_int d))"
  have s: "signF64UI a = enc_sign binary64 (uint a)" by (rule signF64UI_enc)
  have nan: "enc_nan binary64 (uint a) \<longleftrightarrow> expF64UI a = 0x7FF \<and> fracF64UI a \<noteq> 0" by (simp add: enc_nan64)
  have big: "of_int (2 ^ 64) \<le> enc_abs binary64 (uint a)" if "d < - 11"
    using that enc_abs_ge [of binary64 "uint a" 64] by (simp add: d_def expF64UI_enc fmt_qmin_def fmt_bias_def)
  have fin: "\<not> d < - 11 \<Longrightarrow> enc_finite binary64 (uint a)" by (simp add: d_def expF64UI_enc enc_finite_def)
  note sg = f64_int64_sig [of a, folded sig_def d_def, folded z_def]
  show "f64_to_i64 a rm exact st = ieee_to_int binary64 (- (2 ^ 63)) (2 ^ 63 - 1) rm exact (uint a) st"
  proof (cases "d < - 11")
    case True
    then show ?thesis using i64.out_of_bounds [of binary64 "uint a" "2 ^ 64" rm exact st] big nan s
      unfolding f64_to_i64_def Let_def d_def by simp
  next
    case False
    then obtain y where y: "sticky (2 ^ 63) y (uint (extra_v z) * 2 ^ 64 + uint (extra_extra z))"
      "enc_abs binary64 (uint a) = y / of_int (2 * 2 ^ 63)" using sg by fastforce
    show ?thesis using i64.correct [OF fin y(2,1) words_of_n64(3,4)] False
      unfolding f64_to_i64_def Let_def sig_def [symmetric] d_def [symmetric] z_def [symmetric]
      by (simp only: words_of_n64 if_False s) simp
  qed
  show "map_prod uint id (f64_to_ui64 a rm exact st) = ieee_to_int binary64 0 (2 ^ 64 - 1) rm exact (uint a) st"
  proof (cases "d < - 11")
    case True
    then show ?thesis using ui64.out_of_bounds [of binary64 "uint a" "2 ^ 64" rm exact st] big nan s
      unfolding f64_to_ui64_def Let_def d_def by simp
  next
    case False
    then obtain y where y: "sticky (2 ^ 63) y (uint (extra_v z) * 2 ^ 64 + uint (extra_extra z))"
      "enc_abs binary64 (uint a) = y / of_int (2 * 2 ^ 63)" using sg by fastforce
    show ?thesis using ui64.correct [OF fin y(2,1) words_of_n64(3,4)] False
      unfolding f64_to_ui64_def Let_def sig_def [symmetric] d_def [symmetric] z_def [symmetric]
      by (simp only: words_of_n64 if_False s) simp
  qed
qed

section \<open>Truncating conversions\<close>

lemma pack_pattern32:
  assumes "uint w < 2 ^ 32" "0 \<le> e" "e < 255"
  shows "w = packToF32UI True e 0 \<longleftrightarrow> signF32UI w \<and> expF32UI w = e \<and> fracF32UI w = 0"
proof -
  have p: "uint (packToF32UI True e 0) = enc_make binary32 True e 0" using uint_packToF32UI(1) [of e 0 True] assms by simp
  have "w = packToF32UI True e 0 \<longleftrightarrow> uint w = enc_make binary32 True e 0" by (simp only: word_eq_uint p)
  also have "\<dots> \<longleftrightarrow> enc_sign binary32 (uint w) \<and> enc_exp binary32 (uint w) = e \<and> enc_frac binary32 (uint w) = 0"
    using enc_make_self [of "uint w" binary32] enc_make_fields [of e binary32 0 True] assms by auto
  finally show ?thesis by (simp add: signF32UI_enc [OF assms(1)] expF32UI_enc fracF32UI_zero)
qed

lemma f32_trunc_sig:
  assumes "expF32UI w \<noteq> 0" "expF32UI w < 255" "j \<le> 40" "int D - int j = 150 - expF32UI w"
  defines "n \<equiv> uint (push_bit j (fracF32UI w OR 0x00800000))"
  shows "enc_finite binary32 (uint w)" "enc_abs binary32 (uint w) = of_int n / 2 ^ D" "0 \<le> n" "n < 2 ^ (24 + j)"
    "n = (2 ^ 23 + enc_frac binary32 (uint w)) * 2 ^ j"
proof -
  let ?m = "enc_sig binary32 (uint w)"
  have m: "0 \<le> ?m" "?m < 2 ^ 24" using enc_sig_range [of binary32 "uint w"] by simp_all
  have s: "uint (fracF32UI w OR 0x00800000) = ?m" using assms(1) sig_or_hidden32 [of w] by simp
  have l: "?m * 2 ^ j < 2 ^ 24 * 2 ^ j" using m by simp
  also have "\<dots> \<le> 2 ^ 24 * 2 ^ 40" using assms(3) by (intro mult_left_mono power_increasing) simp_all
  finally have n: "n = ?m * 2 ^ j" unfolding n_def by (subst uint_push_small) (simp_all add: s)
  show "enc_finite binary32 (uint w)" using assms(2) by (simp add: enc_finite_def expF32UI_enc)
  show "enc_abs binary32 (uint w) = of_int n / 2 ^ D" unfolding n
    using assms(1,4) by (intro enc_abs_scaled) (simp_all add: expF32UI_enc fmt_qmin_def fmt_bias_def)
  show "0 \<le> n" "n < 2 ^ (24 + j)" using m l by (simp_all add: n power_add)
  show "n = (2 ^ 23 + enc_frac binary32 (uint w)) * 2 ^ j"
    using assms(1) by (simp add: n enc_sig_def expF32UI_enc)
qed

lemma f64_trunc_sig:
  assumes "expF64UI w \<noteq> 0" "expF64UI w < 2047" "j \<le> 11" "int D - int j = 1075 - expF64UI w"
  defines "n \<equiv> uint (push_bit j (fracF64UI w OR 0x0010000000000000))"
  shows "enc_finite binary64 (uint w)" "enc_abs binary64 (uint w) = of_int n / 2 ^ D" "0 \<le> n" "n < 2 ^ (53 + j)"
    "n = (2 ^ 52 + enc_frac binary64 (uint w)) * 2 ^ j"
proof -
  let ?m = "enc_sig binary64 (uint w)"
  have m: "0 \<le> ?m" "?m < 2 ^ 53" using enc_sig_range [of binary64 "uint w"] by simp_all
  have s: "uint (fracF64UI w OR 0x0010000000000000) = ?m" using assms(1) sig_or_hidden64 [of w] by simp
  have l: "?m * 2 ^ j < 2 ^ 53 * 2 ^ j" using m by simp
  also have "\<dots> \<le> 2 ^ 53 * 2 ^ 11" using assms(3) by (intro mult_left_mono power_increasing) simp_all
  finally have n: "n = ?m * 2 ^ j" unfolding n_def by (subst uint_push_small) (simp_all add: s)
  show "enc_finite binary64 (uint w)" using assms(2) by (simp add: enc_finite_def expF64UI_enc)
  show "enc_abs binary64 (uint w) = of_int n / 2 ^ D" unfolding n
    using assms(1,4) by (intro enc_abs_scaled) (simp_all add: expF64UI_enc fmt_qmin_def fmt_bias_def)
  show "0 \<le> n" "n < 2 ^ (53 + j)" using m l by (simp_all add: n power_add)
  show "n = (2 ^ 52 + enc_frac binary64 (uint w)) * 2 ^ j"
    using assms(1) by (simp add: n enc_sig_def expF64UI_enc)
qed

lemma f32_below_one:
  assumes "expF32UI w \<le> 126" "lo \<le> 0" "0 \<le> hi"
  shows "ieee_to_int binary32 lo hi softfloat_round_minMag exact (uint w) st =
    (0, if exact \<and> (word_of_int (expF32UI w) OR fracF32UI w) \<noteq> 0 then softfloat_raiseFlags softfloat_flag_inexact st else st)"
  using ieee_to_int_below_one [of binary32 "uint w" lo hi exact st] assms exp_or_frac32 [of w]
  by (simp add: expF32UI_enc fmt_qmin_def fmt_bias_def enc_finite_def)

lemma f64_below_one:
  assumes "expF64UI w \<le> 1022" "lo \<le> 0" "0 \<le> hi"
  shows "ieee_to_int binary64 lo hi softfloat_round_minMag exact (uint w) st =
    (0, if exact \<and> (word_of_int (expF64UI w) OR fracF64UI w) \<noteq> 0 then softfloat_raiseFlags softfloat_flag_inexact st else st)"
  using ieee_to_int_below_one [of binary64 "uint w" lo hi exact st] assms exp_or_frac64 [of w]
  by (simp add: expF64UI_enc fmt_qmin_def fmt_bias_def enc_finite_def)

lemma ucast32:
  "uint (ucast (a :: u32) :: u64) = uint a" "uint a < 2 ^ 32"
  "signF32UI (ucast a) = enc_sign binary32 (uint a)" "expF32UI (ucast a) = enc_exp binary32 (uint a)"
  "enc_nan binary32 (uint a) \<longleftrightarrow> expF32UI (ucast a) = 0xFF \<and> fracF32UI (ucast a) \<noteq> 0"
proof -
  show u: "uint (ucast a :: u64) = uint a" "uint a < 2 ^ 32" using uint_lt2p [of a] by (simp_all add: uint_ucast_up)
  show "signF32UI (ucast a) = enc_sign binary32 (uint a)" using u signF32UI_enc [of "ucast a"] by simp
  show "expF32UI (ucast a) = enc_exp binary32 (uint a)" by (simp only: expF32UI_enc u)
  show "enc_nan binary32 (uint a) \<longleftrightarrow> expF32UI (ucast a) = 0xFF \<and> fracF32UI (ucast a) \<noteq> 0" by (simp add: enc_nan32 u)
qed

lemma f32_to_i32_minMag_correct:
  "f32_to_i32_r_minMag a exact st =
     ieee_to_int binary32 (- (2 ^ 31)) (2 ^ 31 - 1) softfloat_round_minMag exact (uint a) st"
proof -
  define w where "w = (ucast a :: u64)"
  note u = ucast32 [of a, folded w_def]
  consider (small) "expF32UI w \<le> 126" | (mid) "126 < expF32UI w" "expF32UI w < 158" | (edge) "expF32UI w = 158"
    | (big) "158 < expF32UI w" by linarith
  then show ?thesis
  proof cases
    case small
    then show ?thesis using f32_below_one [OF small, of "- (2 ^ 31)" "2 ^ 31 - 1" exact st]
      unfolding f32_to_i32_r_minMag_def w_def [symmetric] Let_def by (simp add: u)
  next
    case mid
    let ?D = "nat (0x9E - expF32UI w)"
    note g = f32_trunc_sig [of w 8 ?D, unfolded u]
    from mid show ?thesis
      using trunc_in_range [OF g(1-3), of "2 ^ 31" "2 ^ 31 - 1" "- (2 ^ 31)"] g(4)
        shifted_range [of "uint (push_bit 8 (fracF32UI w OR 0x00800000))" "2 ^ 31" 1 ?D]
        push_drop_eq [of ?D "push_bit 8 (fracF32UI w OR 0x00800000)"]
      unfolding f32_to_i32_r_minMag_def w_def [symmetric] Let_def by (simp add: uint_drop u)
  next
    case edge
    note g = f32_trunc_sig [of w 8 0, unfolded u]
    from edge have "enc_exp binary32 (uint a) = 158" by (simp only: u)
    with edge u(2) pack_pattern32 [of w 158] g(5) ieee_to_int_trunc [OF g(1,2)] enc_field_range(3) [of binary32 "uint a"]
    show ?thesis unfolding f32_to_i32_r_minMag_def w_def [symmetric] Let_def
      by (auto simp: int_result_def Let_def u(1,3) fracF32UI_zero)
  next
    case big
    have "of_int (2 ^ 32) \<le> enc_abs binary32 (uint a)"
      using big enc_abs_ge [of binary32 "uint a" 32] by (simp add: u fmt_qmin_def fmt_bias_def)
    then show ?thesis
      using big i32.out_of_bounds [of binary32 "uint a" "2 ^ 32"] u pack_pattern32 [of w 158]
      unfolding f32_to_i32_r_minMag_def w_def [symmetric] Let_def by simp
  qed
qed

lemma f32_to_ui32_minMag_correct:
  "map_prod uint id (f32_to_ui32_r_minMag a exact st) =
     ieee_to_int binary32 0 (2 ^ 32 - 1) softfloat_round_minMag exact (uint a) st"
proof -
  define w where "w = (ucast a :: u64)"
  note u = ucast32 [of a, folded w_def]
  consider (small) "expF32UI w \<le> 126" | (neg) "126 < expF32UI w" "signF32UI w"
    | (mid) "126 < expF32UI w" "expF32UI w \<le> 158" "\<not> signF32UI w" | (big) "158 < expF32UI w" "\<not> signF32UI w" by linarith
  then show ?thesis
  proof cases
    case small
    then show ?thesis using f32_below_one [OF small, of 0 "2 ^ 32 - 1" exact st]
      unfolding f32_to_ui32_r_minMag_def w_def [symmetric] Let_def by (simp add: u)
  next
    case neg
    have "1 \<le> enc_abs binary32 (uint a)" if "enc_finite binary32 (uint a)"
      using neg that by (intro enc_abs_ge_1) (simp_all add: u fmt_qmin_def fmt_bias_def)
    with neg show ?thesis using ieee_to_int_negative [of binary32 "uint a" "2 ^ 32 - 1"] u(5)
      unfolding f32_to_ui32_r_minMag_def w_def [symmetric] Let_def by (simp add: u(3))
  next
    case mid
    let ?D = "nat (0x9E - expF32UI w)"
    note g = f32_trunc_sig [of w 8 ?D, unfolded u]
    from mid show ?thesis
      using trunc_in_range [OF g(1-3), of "2 ^ 32" "2 ^ 32 - 1" 0] g(4)
        shifted_range [of "uint (push_bit 8 (fracF32UI w OR 0x00800000))" "2 ^ 32" 0 ?D]
        push_drop_eq [of ?D "push_bit 8 (fracF32UI w OR 0x00800000)"]
      unfolding f32_to_ui32_r_minMag_def w_def [symmetric] Let_def by (simp add: uint_drop u)
  next
    case big
    have "of_int (2 ^ 32) \<le> enc_abs binary32 (uint a)"
      using big enc_abs_ge [of binary32 "uint a" 32] by (simp add: u fmt_qmin_def fmt_bias_def)
    then show ?thesis
      using big ui32.out_of_bounds [of binary32 "uint a" "2 ^ 32"] u(3,5)
      unfolding f32_to_ui32_r_minMag_def w_def [symmetric] Let_def by simp
  qed
qed

lemma low_bits_32:
  assumes "1 \<le> f" "f < 32"
  shows "(ucast (push_bit (unat ((word_of_int (- f) :: u64) AND 31)) (sig :: u64)) :: u32) \<noteq> 0 \<longleftrightarrow> uint sig mod 2 ^ nat f \<noteq> 0"
proof -
  have c: "unat (word_of_int f :: u64) = nat f" using assms by (intro unat_word_of_int) simp_all
  then have k: "unat ((word_of_int (- f) :: u64) AND 31) = 32 - nat f"
    using unat_neg_and_31 [of "word_of_int f :: u64"] assms by simp
  have "uint (ucast (push_bit (32 - nat f) sig) :: u32) = uint sig * 2 ^ (32 - nat f) mod 2 ^ 32"
    by (simp add: uint_ucast uint_push mod_mod_cancel)
  also have "(2::int) ^ 32 = 2 ^ nat f * 2 ^ (32 - nat f)" using assms by (simp flip: power_add)
  finally have "uint (ucast (push_bit (32 - nat f) sig) :: u32) = uint sig mod 2 ^ nat f * 2 ^ (32 - nat f)"
    by (simp only: mod_mult_mult2)
  then show ?thesis unfolding k by (metis uint_eq_0 mult_eq_0_iff power_eq_0_iff zero_neq_numeral)
qed

lemma low_bits_64:
  assumes "1 \<le> f" "f < 64"
  shows "push_bit (unat ((word_of_int (- f) :: u64) AND 63)) (sig :: u64) \<noteq> 0 \<longleftrightarrow> uint sig mod 2 ^ nat f \<noteq> 0"
proof -
  have c: "unat (word_of_int f :: u64) = nat f" using assms by (intro unat_word_of_int) simp_all
  then have "unat ((word_of_int (- f) :: u64) AND 63) = 64 - nat f"
    using unat_neg_and_63 [of "word_of_int f :: u64"] assms by simp
  then show ?thesis using push_eq_0_iff [of "nat f" sig] assms by simp
qed

lemma inexact_40:
  assumes "D \<le> 63" "n = uint (sig :: u64) * 2 ^ 40"
  shows "40 - int D < 0 \<and> (ucast (push_bit (unat ((word_of_int (40 - int D) :: u64) AND 31)) sig) :: u32) \<noteq> 0 \<longleftrightarrow>
    n mod 2 ^ D \<noteq> 0"
proof (cases "40 < D")
  case True
  then have "D = nat (int D - 40) + 40" by simp
  then have "n mod 2 ^ D = uint sig mod 2 ^ nat (int D - 40) * 2 ^ 40" unfolding assms(2) by (metis mod_mult_mult2 power_add)
  then show ?thesis using low_bits_32 [of "int D - 40" sig] True assms(1) by simp
next
  case False
  then have "40 = (40 - D) + D" by simp
  then have "n = uint sig * 2 ^ (40 - D) * 2 ^ D" unfolding assms(2) by (metis power_add mult.assoc)
  then show ?thesis using False by simp
qed

lemma f32_to_i64_minMag_correct:
  "f32_to_i64_r_minMag a exact st =
     ieee_to_int binary32 (- (2 ^ 63)) (2 ^ 63 - 1) softfloat_round_minMag exact (uint a) st"
proof -
  define w where "w = (ucast a :: u64)"
  note u = ucast32 [of a, folded w_def]
  consider (small) "expF32UI w \<le> 126" | (mid) "126 < expF32UI w" "expF32UI w < 190" | (edge) "expF32UI w = 190"
    | (big) "190 < expF32UI w" by linarith
  then show ?thesis
  proof cases
    case small
    then show ?thesis using f32_below_one [OF small, of "- (2 ^ 63)" "2 ^ 63 - 1" exact st]
      unfolding f32_to_i64_r_minMag_def w_def [symmetric] Let_def by (simp add: u)
  next
    case mid
    let ?D = "nat (0xBE - expF32UI w)" and ?s = "fracF32UI w OR 0x00800000"
    note g = f32_trunc_sig [of w 40 ?D, unfolded u]
    from mid have x: "exact \<and> 40 - (0xBE - expF32UI w) < 0 \<and>
        (ucast (push_bit (unat ((word_of_int (40 - (0xBE - expF32UI w)) :: u64) AND 31)) ?s) :: u32) \<noteq> 0 \<longleftrightarrow>
        exact \<and> uint (push_bit 40 ?s) mod 2 ^ ?D \<noteq> 0"
      using inexact_40 [of ?D "uint (push_bit 40 ?s)" ?s] g(5) sig_or_hidden32 [of w] by (simp add: u enc_sig_def add.commute)
    from mid show ?thesis
      using trunc_in_range [OF g(1-3), of "2 ^ 63" "2 ^ 63 - 1" "- (2 ^ 63)"] g(4)
        shifted_range [of "uint (push_bit 40 ?s)" "2 ^ 63" 1 ?D]
      unfolding f32_to_i64_r_minMag_def w_def [symmetric] Let_def x by (simp add: uint_drop u)
  next
    case edge
    note g = f32_trunc_sig [of w 40 0, unfolded u]
    from edge have "enc_exp binary32 (uint a) = 190" by (simp only: u)
    with edge u(2) pack_pattern32 [of w 190] g(5) ieee_to_int_trunc [OF g(1,2)] enc_field_range(3) [of binary32 "uint a"]
    show ?thesis unfolding f32_to_i64_r_minMag_def w_def [symmetric] Let_def
      by (auto simp: int_result_def Let_def u(1,3) fracF32UI_zero)
  next
    case big
    have "of_int (2 ^ 64) \<le> enc_abs binary32 (uint a)"
      using big enc_abs_ge [of binary32 "uint a" 64] by (simp add: u fmt_qmin_def fmt_bias_def)
    then show ?thesis
      using big i64.out_of_bounds [of binary32 "uint a" "2 ^ 64"] u pack_pattern32 [of w 190]
      unfolding f32_to_i64_r_minMag_def w_def [symmetric] Let_def by simp
  qed
qed

lemma f32_to_ui64_minMag_correct:
  "map_prod uint id (f32_to_ui64_r_minMag a exact st) =
     ieee_to_int binary32 0 (2 ^ 64 - 1) softfloat_round_minMag exact (uint a) st"
proof -
  define w where "w = (ucast a :: u64)"
  note u = ucast32 [of a, folded w_def]
  consider (small) "expF32UI w \<le> 126" | (neg) "126 < expF32UI w" "signF32UI w"
    | (mid) "126 < expF32UI w" "expF32UI w \<le> 190" "\<not> signF32UI w" | (big) "190 < expF32UI w" "\<not> signF32UI w" by linarith
  then show ?thesis
  proof cases
    case small
    then show ?thesis using f32_below_one [OF small, of 0 "2 ^ 64 - 1" exact st]
      unfolding f32_to_ui64_r_minMag_def w_def [symmetric] Let_def by (simp add: u)
  next
    case neg
    have "1 \<le> enc_abs binary32 (uint a)" if "enc_finite binary32 (uint a)"
      using neg that by (intro enc_abs_ge_1) (simp_all add: u fmt_qmin_def fmt_bias_def)
    with neg show ?thesis using ieee_to_int_negative [of binary32 "uint a" "2 ^ 64 - 1"] u(5)
      unfolding f32_to_ui64_r_minMag_def w_def [symmetric] Let_def by (simp add: u(3))
  next
    case mid
    let ?D = "nat (0xBE - expF32UI w)" and ?s = "fracF32UI w OR 0x00800000"
    note g = f32_trunc_sig [of w 40 ?D, unfolded u]
    from mid have x: "exact \<and> 40 - (0xBE - expF32UI w) < 0 \<and>
        (ucast (push_bit (unat ((word_of_int (40 - (0xBE - expF32UI w)) :: u64) AND 31)) ?s) :: u32) \<noteq> 0 \<longleftrightarrow>
        exact \<and> uint (push_bit 40 ?s) mod 2 ^ ?D \<noteq> 0"
      using inexact_40 [of ?D "uint (push_bit 40 ?s)" ?s] g(5) sig_or_hidden32 [of w] by (simp add: u enc_sig_def add.commute)
    from mid show ?thesis
      using trunc_in_range [OF g(1-3), of "2 ^ 64" "2 ^ 64 - 1" 0] g(4)
        shifted_range [of "uint (push_bit 40 ?s)" "2 ^ 64" 0 ?D]
      unfolding f32_to_ui64_r_minMag_def w_def [symmetric] Let_def x by (simp add: uint_drop u)
  next
    case big
    have "of_int (2 ^ 64) \<le> enc_abs binary32 (uint a)"
      using big enc_abs_ge [of binary32 "uint a" 64] by (simp add: u fmt_qmin_def fmt_bias_def)
    then show ?thesis
      using big ui64.out_of_bounds [of binary32 "uint a" "2 ^ 64"] u(3,5)
      unfolding f32_to_ui64_r_minMag_def w_def [symmetric] Let_def by simp
  qed
qed

lemma pack_pattern64:
  assumes "0 \<le> e" "e < 2047"
  shows "w = packToF64UI True e 0 \<longleftrightarrow> signF64UI w \<and> expF64UI w = e \<and> fracF64UI w = 0"
proof -
  have p: "uint (packToF64UI True e 0) = enc_make binary64 True e 0" using uint_packToF64UI [of e 0 True] assms by simp
  have "w = packToF64UI True e 0 \<longleftrightarrow> uint w = enc_make binary64 True e 0" by (simp only: word_eq_uint p)
  also have "\<dots> \<longleftrightarrow> enc_sign binary64 (uint w) \<and> enc_exp binary64 (uint w) = e \<and> enc_frac binary64 (uint w) = 0"
    using enc_make_self [of "uint w" binary64] enc_make_fields [of e binary64 0 True] assms uint_lt2p [of w] by auto
  finally show ?thesis by (simp add: signF64UI_enc expF64UI_enc fracF64UI_zero)
qed

lemma f64_to_i32_minMag_correct:
  "f64_to_i32_r_minMag a exact st =
     ieee_to_int binary64 (- (2 ^ 31)) (2 ^ 31 - 1) softfloat_round_minMag exact (uint a) st"
proof -
  consider (small) "expF64UI a \<le> 1022" | (mid) "1022 < expF64UI a" "expF64UI a < 1054" | (edge) "expF64UI a = 1054"
    | (big) "1054 < expF64UI a" by linarith
  then show ?thesis
  proof cases
    case small
    then show ?thesis using f64_below_one [OF small, of "- (2 ^ 31)" "2 ^ 31 - 1" exact st]
      unfolding f64_to_i32_r_minMag_def Let_def by simp
  next
    case mid
    let ?D = "nat (0x433 - expF64UI a)"
    note g = f64_trunc_sig [of a 0 ?D]
    from mid show ?thesis
      using trunc_in_range [OF g(1-3), of "2 ^ 31" "2 ^ 31 - 1" "- (2 ^ 31)"] g(4)
        shifted_range [of "uint (fracF64UI a OR 0x0010000000000000)" "2 ^ 31" 22 ?D]
        push_drop_eq [of ?D "fracF64UI a OR 0x0010000000000000"]
      unfolding f64_to_i32_r_minMag_def Let_def by (simp add: uint_drop signF64UI_enc)
  next
    case edge
    note g = f64_trunc_sig [of a 0 21]
    let ?f = "enc_frac binary64 (uint a)"
    have f: "0 \<le> ?f" using enc_field_range(3) [of binary64 "uint a"] by simp
    have n: "(2 ^ 52 + ?f) div 2 ^ 21 = 2 ^ 31 + ?f div 2 ^ 21" "(2 ^ 52 + ?f) mod 2 ^ 21 = ?f mod 2 ^ 21"
      using div_mult_self3 [of "2 ^ 21" "2 ^ 31" ?f] mod_mult_self3 [of "2 ^ 31" "2 ^ 21" ?f] by simp_all
    have lt: "fracF64UI a < 0x200000 \<longleftrightarrow> ?f < 2 ^ 21" by (simp add: word_less_uint fracF64UI_enc)
    have q: "?f < 2 ^ 21 \<Longrightarrow> ?f div 2 ^ 21 = 0 \<and> ?f mod 2 ^ 21 = ?f" "\<not> ?f < 2 ^ 21 \<Longrightarrow> 1 \<le> ?f div 2 ^ 21" "0 \<le> ?f div 2 ^ 21"
      using f by (simp_all add: le_int_div_iff pos_imp_zdiv_nonneg_iff)
    have "ieee_to_int binary64 (- (2 ^ 31)) (2 ^ 31 - 1) softfloat_round_minMag exact (uint a) st =
        int_result (- (2 ^ 31)) (2 ^ 31 - 1) (signF64UI a) (2 ^ 31 + ?f div 2 ^ 21) (exact \<and> ?f mod 2 ^ 21 \<noteq> 0) st"
      using ieee_to_int_trunc [OF g(1,2), of "- (2 ^ 31)" "2 ^ 31 - 1"] g(5) edge n by (simp add: signF64UI_enc)
    then show ?thesis using edge q lt fracF64UI_zero [of a] unfolding f64_to_i32_r_minMag_def Let_def
      by (cases "?f < 2 ^ 21") (auto simp: int_result_def Let_def)
  next
    case big
    have "of_int (2 ^ 32) \<le> enc_abs binary64 (uint a)"
      using big enc_abs_ge [of binary64 "uint a" 32] by (simp add: expF64UI_enc fmt_qmin_def fmt_bias_def)
    then show ?thesis
      using big i32.out_of_bounds [of binary64 "uint a" "2 ^ 32"] enc_nan64 [of a]
      unfolding f64_to_i32_r_minMag_def Let_def by (simp add: signF64UI_enc)
  qed
qed

lemma f64_to_ui32_minMag_correct:
  "map_prod uint id (f64_to_ui32_r_minMag a exact st) =
     ieee_to_int binary64 0 (2 ^ 32 - 1) softfloat_round_minMag exact (uint a) st"
proof -
  consider (small) "expF64UI a \<le> 1022" | (neg) "1022 < expF64UI a" "signF64UI a"
    | (mid) "1022 < expF64UI a" "expF64UI a \<le> 1054" "\<not> signF64UI a" | (big) "1054 < expF64UI a" "\<not> signF64UI a" by linarith
  then show ?thesis
  proof cases
    case small
    then show ?thesis using f64_below_one [OF small, of 0 "2 ^ 32 - 1" exact st]
      unfolding f64_to_ui32_r_minMag_def Let_def by simp
  next
    case neg
    have "1 \<le> enc_abs binary64 (uint a)" if "enc_finite binary64 (uint a)"
      using neg that by (intro enc_abs_ge_1) (simp_all add: expF64UI_enc fmt_qmin_def fmt_bias_def)
    with neg show ?thesis using ieee_to_int_negative [of binary64 "uint a" "2 ^ 32 - 1"] enc_nan64 [of a]
      unfolding f64_to_ui32_r_minMag_def Let_def by (simp add: signF64UI_enc)
  next
    case mid
    let ?D = "nat (0x433 - expF64UI a)"
    note g = f64_trunc_sig [of a 0 ?D]
    from mid show ?thesis
      using trunc_in_range [OF g(1-3), of "2 ^ 32" "2 ^ 32 - 1" 0] g(4)
        shifted_range [of "uint (fracF64UI a OR 0x0010000000000000)" "2 ^ 32" 21 ?D]
        push_drop_eq [of ?D "fracF64UI a OR 0x0010000000000000"]
      unfolding f64_to_ui32_r_minMag_def Let_def by (simp add: uint_drop signF64UI_enc)
  next
    case big
    have "of_int (2 ^ 32) \<le> enc_abs binary64 (uint a)"
      using big enc_abs_ge [of binary64 "uint a" 32] by (simp add: expF64UI_enc fmt_qmin_def fmt_bias_def)
    then show ?thesis
      using big ui32.out_of_bounds [of binary64 "uint a" "2 ^ 32"] enc_nan64 [of a]
      unfolding f64_to_ui32_r_minMag_def Let_def by (simp add: signF64UI_enc)
  qed
qed

lemma f64_to_i64_minMag_correct:
  "f64_to_i64_r_minMag a exact st =
     ieee_to_int binary64 (- (2 ^ 63)) (2 ^ 63 - 1) softfloat_round_minMag exact (uint a) st"
proof -
  consider (small) "expF64UI a \<le> 1022" | (mid) "1022 < expF64UI a" "expF64UI a < 1075"
    | (left) "1075 \<le> expF64UI a" "expF64UI a < 1086" | (edge) "expF64UI a = 1086" | (big) "1086 < expF64UI a" by linarith
  then show ?thesis
  proof cases
    case small
    then show ?thesis using f64_below_one [OF small, of "- (2 ^ 63)" "2 ^ 63 - 1" exact st]
      unfolding f64_to_i64_r_minMag_def Let_def by simp
  next
    case mid
    let ?D = "nat (0x433 - expF64UI a)" and ?s = "fracF64UI a OR 0x0010000000000000"
    note g = f64_trunc_sig [of a 0 ?D]
    have n: "uint ?s < 2 ^ 53" using g(4) mid by simp
    then have "uint (drop_bit ?D ?s) < 2 ^ 53" using int_div_less_iff [of "2 ^ ?D" "uint ?s" "2 ^ 53"]
      shifted_range [of "uint ?s" "2 ^ 53" 0 ?D] by (simp add: uint_drop)
    then have "sint (drop_bit ?D ?s) = uint ?s div 2 ^ ?D" by (simp add: sint_if uint_drop)
    with mid n show ?thesis
      using trunc_in_range [OF g(1-3), of "2 ^ 63" "2 ^ 63 - 1" "- (2 ^ 63)"]
        shifted_range [of "uint ?s" "2 ^ 63" 0 ?D] push_drop_eq [of ?D ?s]
      unfolding f64_to_i64_r_minMag_def Let_def by (simp add: signF64UI_enc)
  next
    case left
    let ?j = "nat (- (0x433 - expF64UI a))" and ?s = "fracF64UI a OR 0x0010000000000000"
    note g = f64_trunc_sig [of a ?j 0]
    have "?j \<le> 10" using left by simp
    then have "(2::int) ^ (53 + ?j) \<le> 2 ^ 63" by (intro power_increasing) simp_all
    moreover have "uint (push_bit ?j ?s) < 2 ^ (53 + ?j)" using left by (intro g(4)) simp_all
    ultimately have n: "uint (push_bit ?j ?s) < 2 ^ 63" by (meson less_le_trans)
    then have "sint (push_bit ?j ?s) = uint (push_bit ?j ?s)" by (simp add: sint_if)
    with left n show ?thesis
      using trunc_in_range [OF g(1-3), of "2 ^ 63" "2 ^ 63 - 1" "- (2 ^ 63)"]
      unfolding f64_to_i64_r_minMag_def Let_def by (simp add: signF64UI_enc)
  next
    case edge
    note g = f64_trunc_sig [of a 11 0]
    from edge pack_pattern64 [of 1086 a] g(5) ieee_to_int_trunc [OF g(1,2)] enc_field_range(3) [of binary64 "uint a"]
    show ?thesis unfolding f64_to_i64_r_minMag_def Let_def
      by (auto simp: int_result_def Let_def signF64UI_enc fracF64UI_zero)
  next
    case big
    have "of_int (2 ^ 64) \<le> enc_abs binary64 (uint a)"
      using big enc_abs_ge [of binary64 "uint a" 64] by (simp add: expF64UI_enc fmt_qmin_def fmt_bias_def)
    then show ?thesis
      using big i64.out_of_bounds [of binary64 "uint a" "2 ^ 64"] enc_nan64 [of a] pack_pattern64 [of 1086 a]
      unfolding f64_to_i64_r_minMag_def Let_def by (simp add: signF64UI_enc)
  qed
qed

lemma f64_to_ui64_minMag_correct:
  "map_prod uint id (f64_to_ui64_r_minMag a exact st) =
     ieee_to_int binary64 0 (2 ^ 64 - 1) softfloat_round_minMag exact (uint a) st"
proof -
  consider (small) "expF64UI a \<le> 1022" | (neg) "1022 < expF64UI a" "signF64UI a"
    | (mid) "1022 < expF64UI a" "expF64UI a < 1075" "\<not> signF64UI a"
    | (left) "1075 \<le> expF64UI a" "expF64UI a \<le> 1086" "\<not> signF64UI a" | (big) "1086 < expF64UI a" "\<not> signF64UI a" by linarith
  then show ?thesis
  proof cases
    case small
    then show ?thesis using f64_below_one [OF small, of 0 "2 ^ 64 - 1" exact st]
      unfolding f64_to_ui64_r_minMag_def Let_def by simp
  next
    case neg
    have "1 \<le> enc_abs binary64 (uint a)" if "enc_finite binary64 (uint a)"
      using neg that by (intro enc_abs_ge_1) (simp_all add: expF64UI_enc fmt_qmin_def fmt_bias_def)
    with neg show ?thesis using ieee_to_int_negative [of binary64 "uint a" "2 ^ 64 - 1"] enc_nan64 [of a]
      unfolding f64_to_ui64_r_minMag_def Let_def by (simp add: signF64UI_enc)
  next
    case mid
    let ?d = "0x433 - expF64UI a" and ?s = "fracF64UI a OR 0x0010000000000000"
    note g = f64_trunc_sig [of a 0 "nat ?d"]
    have x: "push_bit (unat ((word_of_int (- ?d) :: u64) AND 63)) ?s \<noteq> 0 \<longleftrightarrow> uint ?s mod 2 ^ nat ?d \<noteq> 0"
      using mid by (intro low_bits_64) simp_all
    from mid show ?thesis
      using trunc_in_range [OF g(1-3), of "2 ^ 64" "2 ^ 64 - 1" 0] g(4) shifted_range [of "uint ?s" "2 ^ 64" 0 "nat ?d"]
      unfolding f64_to_ui64_r_minMag_def Let_def x by (simp add: uint_drop signF64UI_enc)
  next
    case left
    let ?j = "nat (- (0x433 - expF64UI a))" and ?s = "fracF64UI a OR 0x0010000000000000"
    note g = f64_trunc_sig [of a ?j 0]
    have n: "uint (push_bit ?j ?s) < 2 ^ 64" using uint_lt2p [of "push_bit ?j ?s"] by simp
    from left n show ?thesis
      using trunc_in_range [OF g(1-3), of "2 ^ 64" "2 ^ 64 - 1" 0]
      unfolding f64_to_ui64_r_minMag_def Let_def by (simp add: signF64UI_enc)
  next
    case big
    have "of_int (2 ^ 64) \<le> enc_abs binary64 (uint a)"
      using big enc_abs_ge [of binary64 "uint a" 64] by (simp add: expF64UI_enc fmt_qmin_def fmt_bias_def)
    then show ?thesis
      using big ui64.out_of_bounds [of binary64 "uint a" "2 ^ 64"] enc_nan64 [of a]
      unfolding f64_to_ui64_r_minMag_def Let_def by (simp add: signF64UI_enc)
  qed
qed

section \<open>The conversions meet the specification\<close>

text \<open>C8. The eight conversions of a single- or double-precision number to a 32- or 64-bit, signed or unsigned integer round in the given mode, saturate with the invalid flag out of range and for NaN and infinities, and raise inexact exactly when asked to and the operand is not an integer.\<close>

theorem float_to_int_correct:
  "f32_to_i32 a rm exact st = ieee_to_int binary32 (- (2 ^ 31)) (2 ^ 31 - 1) rm exact (uint a) st \<and>
   map_prod uint id (f32_to_ui32 a rm exact st) = ieee_to_int binary32 0 (2 ^ 32 - 1) rm exact (uint a) st \<and>
   f32_to_i64 a rm exact st = ieee_to_int binary32 (- (2 ^ 63)) (2 ^ 63 - 1) rm exact (uint a) st \<and>
   map_prod uint id (f32_to_ui64 a rm exact st) = ieee_to_int binary32 0 (2 ^ 64 - 1) rm exact (uint a) st \<and>
   f64_to_i32 b rm exact st = ieee_to_int binary64 (- (2 ^ 31)) (2 ^ 31 - 1) rm exact (uint b) st \<and>
   map_prod uint id (f64_to_ui32 b rm exact st) = ieee_to_int binary64 0 (2 ^ 32 - 1) rm exact (uint b) st \<and>
   f64_to_i64 b rm exact st = ieee_to_int binary64 (- (2 ^ 63)) (2 ^ 63 - 1) rm exact (uint b) st \<and>
   map_prod uint id (f64_to_ui64 b rm exact st) = ieee_to_int binary64 0 (2 ^ 64 - 1) rm exact (uint b) st"
  by (intro conjI f32_to_int32_correct f32_to_int64_correct f64_to_int32_correct f64_to_int64_correct)

lemma map_prod_uint_eq: "map_prod uint id r = map_prod uint id (r' :: 'a::len word \<times> 'b) \<Longrightarrow> r = r'"
  by (cases r; cases r') (simp add: word_eq_uint)

lemma f32_to_int_minMag_correct:
  "f32_to_i32_r_minMag a exact st = f32_to_i32 a softfloat_round_minMag exact st \<and>
   f32_to_ui32_r_minMag a exact st = f32_to_ui32 a softfloat_round_minMag exact st \<and>
   f32_to_i64_r_minMag a exact st = f32_to_i64 a softfloat_round_minMag exact st \<and>
   f32_to_ui64_r_minMag a exact st = f32_to_ui64 a softfloat_round_minMag exact st"
  using f32_to_i32_minMag_correct [of a exact st] f32_to_i64_minMag_correct [of a exact st]
    f32_to_ui32_minMag_correct [of a exact st] f32_to_ui64_minMag_correct [of a exact st]
    f32_to_int32_correct [of a softfloat_round_minMag exact st] f32_to_int64_correct [of a softfloat_round_minMag exact st]
  by (auto intro!: map_prod_uint_eq)

lemma f64_to_int_minMag_correct:
  "f64_to_i32_r_minMag a exact st = f64_to_i32 a softfloat_round_minMag exact st \<and>
   f64_to_ui32_r_minMag a exact st = f64_to_ui32 a softfloat_round_minMag exact st \<and>
   f64_to_i64_r_minMag a exact st = f64_to_i64 a softfloat_round_minMag exact st \<and>
   f64_to_ui64_r_minMag a exact st = f64_to_ui64 a softfloat_round_minMag exact st"
  using f64_to_i32_minMag_correct [of a exact st] f64_to_i64_minMag_correct [of a exact st]
    f64_to_ui32_minMag_correct [of a exact st] f64_to_ui64_minMag_correct [of a exact st]
    f64_to_int32_correct [of a softfloat_round_minMag exact st] f64_to_int64_correct [of a softfloat_round_minMag exact st]
  by (auto intro!: map_prod_uint_eq)

text \<open>C9. The eight truncating conversions, which are separate bit-level routines, give exactly the result and flags of the general conversions in the mode towards zero.\<close>

theorem to_int_minMag_correct:
  "(f32_to_i32_r_minMag a exact st = f32_to_i32 a softfloat_round_minMag exact st \<and>
   f32_to_ui32_r_minMag a exact st = f32_to_ui32 a softfloat_round_minMag exact st \<and>
   f32_to_i64_r_minMag a exact st = f32_to_i64 a softfloat_round_minMag exact st \<and>
   f32_to_ui64_r_minMag a exact st = f32_to_ui64 a softfloat_round_minMag exact st) \<and>
   (f64_to_i32_r_minMag b exact st = f64_to_i32 b softfloat_round_minMag exact st \<and>
   f64_to_ui32_r_minMag b exact st = f64_to_ui32 b softfloat_round_minMag exact st \<and>
   f64_to_i64_r_minMag b exact st = f64_to_i64 b softfloat_round_minMag exact st \<and>
   f64_to_ui64_r_minMag b exact st = f64_to_ui64 b softfloat_round_minMag exact st)"
  by (rule conjI [OF f32_to_int_minMag_correct f64_to_int_minMag_correct])

end
