(* ===== verification/Softfloat_Convert.thy ===== *)
theory Softfloat_Convert
  imports Softfloat_ToInt Softfloat_Compare
begin

text \<open>
  The conversions from integers (\<^verbatim>\<open>i32_to_f32.c\<close>, \<^verbatim>\<open>ui64_to_f64.c\<close> and the other six), which
  round the integer as a real number, and between the formats (\<^verbatim>\<open>f32_to_f64.c\<close>,
  \<^verbatim>\<open>f64_to_f32.c\<close>): widening is exact, and narrowing a widened number gives it back.
\<close>

section \<open>The conversions\<close>

definition i32_to_f32 :: "u32 \<Rightarrow> softfloat_state \<Rightarrow> u32 \<times> softfloat_state" where
  "i32_to_f32 a st =
     (let sign = (sint a < 0)
      in if a AND 0x7FFFFFFF = 0
         then (ucast (if sign then packToF32UI True 0x9E 0 else 0), st)
         else let absA = (if sign then - scast a else scast a :: u64)
              in softfloat_normRoundPackToF32 sign 0x9C absA st)"

definition ui32_to_f32 :: "u32 \<Rightarrow> softfloat_state \<Rightarrow> u32 \<times> softfloat_state" where
  "ui32_to_f32 a st =
     (if a = 0 then (0, st)
      else if a AND 0x80000000 \<noteq> 0
      then softfloat_roundPackToF32 False 0x9D (ucast (drop_bit 1 a OR (a AND 1))) st
      else softfloat_normRoundPackToF32 False 0x9C (ucast a) st)"

definition i64_to_f32 :: "u64 \<Rightarrow> softfloat_state \<Rightarrow> u32 \<times> softfloat_state" where
  "i64_to_f32 a st =
     (let sign = (sint a < 0);
          absA = (if sign then - a else a);
          shiftCount = uint (softfloat_countLeadingZeros64 absA) - 40
      in if 0 \<le> shiftCount
         then (ucast (if a \<noteq> 0 then packToF32UI sign (0x95 - shiftCount) (push_bit (nat shiftCount) absA)
                      else 0), st)
         else let shiftCount = shiftCount + 7;
                  sig = (if shiftCount < 0 then softfloat_shortShiftRightJam64 absA (nat (- shiftCount))
                         else push_bit (nat shiftCount) absA)
              in softfloat_roundPackToF32 sign (0x9C - shiftCount) sig st)"

definition ui64_to_f32 :: "u64 \<Rightarrow> softfloat_state \<Rightarrow> u32 \<times> softfloat_state" where
  "ui64_to_f32 a st =
     (let absA = a;
          shiftCount = uint (softfloat_countLeadingZeros64 absA) - 40
      in if 0 \<le> shiftCount
         then (ucast (if a \<noteq> 0 then packToF32UI False (0x95 - shiftCount) (push_bit (nat shiftCount) absA)
                      else 0), st)
         else let shiftCount = shiftCount + 7;
                  sig = (if shiftCount < 0 then softfloat_shortShiftRightJam64 absA (nat (- shiftCount))
                         else push_bit (nat shiftCount) absA)
              in softfloat_roundPackToF32 False (0x9C - shiftCount) sig st)"

definition i32_to_f64 :: "u32 \<Rightarrow> u64" where
  "i32_to_f64 a =
     (if a = 0 then 0
      else let sign = (sint a < 0);
               absA = (if sign then - scast a else scast a :: u64);
               shiftCount = uint (softfloat_countLeadingZeros32 (ucast absA)) + 21
           in packToF64UI sign (0x432 - shiftCount) (push_bit (nat shiftCount) absA))"

definition ui32_to_f64 :: "u32 \<Rightarrow> u64" where
  "ui32_to_f64 a =
     (if a = 0 then 0
      else let shiftCount = uint (softfloat_countLeadingZeros32 a) + 21
           in packToF64UI False (0x432 - shiftCount) (push_bit (nat shiftCount) (ucast a)))"

definition i64_to_f64 :: "u64 \<Rightarrow> softfloat_state \<Rightarrow> u64 \<times> softfloat_state" where
  "i64_to_f64 a st =
     (let sign = (sint a < 0)
      in if a AND 0x7FFFFFFFFFFFFFFF = 0
         then (if sign then packToF64UI True 0x43E 0 else 0, st)
         else let absA = (if sign then - a else a)
              in softfloat_normRoundPackToF64 sign 0x43C absA st)"

definition ui64_to_f64 :: "u64 \<Rightarrow> softfloat_state \<Rightarrow> u64 \<times> softfloat_state" where
  "ui64_to_f64 a st =
     (if a = 0 then (0, st)
      else if a AND 0x8000000000000000 \<noteq> 0
      then softfloat_roundPackToF64 False 0x43D (softfloat_shortShiftRightJam64 a 1) st
      else softfloat_normRoundPackToF64 False 0x43C a st)"

definition f32_to_f64 :: "u32 \<Rightarrow> softfloat_state \<Rightarrow> u64 \<times> softfloat_state" where
  "f32_to_f64 a st =
     (let uiA = (ucast a :: u64); sign = signF32UI uiA; e = expF32UI uiA; sig = fracF32UI uiA
      in if e = 0xFF
         then if sig \<noteq> 0 then (defaultNaNF64UI, softfloat_f32UIToCommonNaN uiA st)
              else (packToF64UI sign 0x7FF 0, st)
         else if e = 0 \<and> sig = 0 then (packToF64UI sign 0 0, st)
         else let (e, sig) = (if e = 0
                              then let normExpSig = softfloat_normSubnormalF32Sig sig
                                   in (norm_exp normExpSig - 1, norm_sig normExpSig)
                              else (e, sig))
              in (packToF64UI sign (e + 0x380) (push_bit 29 sig), st))"

definition f64_to_f32 :: "u64 \<Rightarrow> softfloat_state \<Rightarrow> u32 \<times> softfloat_state" where
  "f64_to_f32 a st =
     (let uiA = a; sign = signF64UI uiA; e = expF64UI uiA; sig = fracF64UI uiA
      in if e = 0x7FF
         then if sig \<noteq> 0 then (ucast defaultNaNF32UI, softfloat_f64UIToCommonNaN uiA st)
              else (ucast (packToF32UI sign 0xFF 0), st)
         else let sig32 = softfloat_shortShiftRightJam64 sig 22
              in if word_of_int e OR sig32 = 0 then (ucast (packToF32UI sign 0 0), st)
                 else softfloat_roundPackToF32 sign (e - 0x381) (sig32 OR 0x40000000) st)"

section \<open>Conversions from integers\<close>

lemma uint_abs_scast:
  "uint (if sint (a :: u32) < 0 then - scast a else scast a :: u64) = \<bar>sint a\<bar>"
proof -
  have b: "- (2 ^ 31) \<le> sint a" "sint a < 2 ^ 31" using sint_lt [of a] sint_ge [of a] by simp_all
  have "(scast a :: u64) = word_of_int (sint a)" by (rule scast_eq)
  moreover have "(- word_of_int (sint a) :: u64) = word_of_int (- sint a)" by simp
  ultimately have "(if sint a < 0 then - scast a else scast a :: u64) = word_of_int \<bar>sint a\<bar>"
    by (simp only: abs_if split: if_split) simp
  moreover have "uint (word_of_int \<bar>sint a\<bar> :: u64) = \<bar>sint a\<bar> mod 2 ^ 64" by (simp only: uint_word_of_int len64)
  moreover have "\<bar>sint a\<bar> mod 2 ^ 64 = \<bar>sint a\<bar>" using b by (intro mod_pos_pos_trivial) simp_all
  ultimately show ?thesis by (simp only:)
qed

lemma uint_abs64: "uint (if sint (a :: u64) < 0 then - a else a) = \<bar>sint a\<bar>"
  using sint_if [of a] uint_neg [of a] uint_lt2p [of a] by (auto split: if_splits)

lemma i32_to_f32_correct:
  "ieee_result binary32 (sint a < 0) (of_int \<bar>sint a\<bar>) st (i32_to_f32 a st)"
proof -
  have m: "a AND 0x7FFFFFFF = take_bit 31 a" using and_low_mask [of a 31] by simp
  have z: "a AND 0x7FFFFFFF = 0 \<longleftrightarrow> uint a mod 2 ^ 31 = 0" unfolding m using uint_eq_0 [of "take_bit 31 a"] by (simp add: uint_take)
  have s: "sint a = (if uint a < 2 ^ 31 then uint a else uint a - 2 ^ 32)" using sint_if [of a] by simp
  have l: "0 \<le> uint a" "uint a < 2 ^ 32" using uint_lt2p [of a] by simp_all
  show ?thesis
  proof (cases "uint a mod 2 ^ 31 = 0")
    case True
    have "uint a div 2 ^ 31 = 0 \<or> uint a div 2 ^ 31 = 1" using l int_div_less_iff [of "2 ^ 31" "uint a" 2]
      pos_imp_zdiv_nonneg_iff [of "2 ^ 31" "uint a"] by auto
    then have "uint a = 0 \<or> uint a = 2 ^ 31" using True div_mult_mod_eq [of "uint a" "2 ^ 31"] by auto
    then show ?thesis
    proof
      assume "uint a = 0"
      then show ?thesis using rp32.zero_result [of 0 False st] by (simp add: i32_to_f32_def enc_make_def)
    next
      assume u: "uint a = 2 ^ 31"
      have p: "uint (ucast (packToF32UI True 158 0) :: u32) = enc_make binary32 True 157 (2 ^ 23)"
        using uint_packToF32UI(2) [of 158 0 True] by (simp add: enc_make_def)
      have "ieee_result binary32 True (2 ^ 31) st (ucast (packToF32UI True 158 0) :: u32, st)"
        using rp32.exact_pack [OF p, of "2 ^ 31" st] by (simp add: fmt_qmin_def fmt_bias_def)
      then show ?thesis using u z True by (simp add: i32_to_f32_def s)
    qed
  next
    case False
    then have "uint a \<noteq> 0" "uint a \<noteq> 2 ^ 31" by (auto simp del: uint_eq_0)
    then have "0 < \<bar>sint a\<bar>" "\<bar>sint a\<bar> < 2 ^ 31" using l s by (simp_all del: uint_eq_0 split: if_splits)
    then show ?thesis using np32.correct_integer [of "if sint a < 0 then - scast a else scast a" 156] False z
      by (simp add: i32_to_f32_def Let_def uint_abs_scast fmt_qmin_def fmt_bias_def)
  qed
qed

lemma push1_drop1: "drop_bit 1 a OR (a AND 1) = (drop_bit 1 a OR of_bool (uint a mod 2 \<noteq> 0) :: 'a::len word)"
proof -
  have "a AND (2 ^ 1 - 1) = take_bit 1 a" by (rule and_low_mask)
  then have "uint (a AND (2 ^ 1 - 1)) = uint a mod 2 ^ 1" by (simp only: uint_take)
  then have "uint (a AND 1) = uint a mod 2" by simp
  then have "a AND 1 = of_bool (uint a mod 2 \<noteq> 0)" unfolding word_eq_uint [of "a AND 1"] uint_of_bool by (simp add: mod_2_eq_odd)
  then show ?thesis by simp
qed

lemma jam_or_low: "uint (drop_bit 1 a OR (a AND 1)) = jam_shift 1 (uint (a :: 'a::len word))"
  unfolding push1_drop1 uint_or_one uint_drop jam_shift_def by simp

lemma top_bit_32: "a AND 0x80000000 \<noteq> 0 \<longleftrightarrow> 2 ^ 31 \<le> uint (a :: u32)"
proof -
  have "uint (a AND 0x80000000) = uint a div 2 ^ 31 mod 2 ^ 1 * 2 ^ 31" by (rule uint_and_field) simp_all
  moreover have "uint a < 2 ^ 32" using uint_lt2p [of a] by simp
  ultimately show ?thesis using uint_eq_0 [of "a AND 0x80000000"] half_range [of "uint a" "2 ^ 31"]
    le_int_div_iff [of "2 ^ 31" 1 "uint a"] pos_imp_zdiv_nonneg_iff [of "2 ^ 31" "uint a"] by auto
qed

lemma top_bit_64: "a AND 0x8000000000000000 \<noteq> 0 \<longleftrightarrow> 2 ^ 63 \<le> uint (a :: u64)"
proof -
  have "uint (a AND 0x8000000000000000) = uint a div 2 ^ 63 mod 2 ^ 1 * 2 ^ 63" by (rule uint_and_field) simp_all
  moreover have "uint a < 2 ^ 64" using uint_lt2p [of a] by simp
  ultimately show ?thesis using uint_eq_0 [of "a AND 0x8000000000000000"] half_range [of "uint a" "2 ^ 63"]
    le_int_div_iff [of "2 ^ 63" 1 "uint a"] pos_imp_zdiv_nonneg_iff [of "2 ^ 63" "uint a"] by auto
qed

lemma ui32_to_f32_correct: "ieee_result binary32 False (of_int (uint a)) st (ui32_to_f32 a st)"
proof -
  have l: "0 \<le> uint a" "uint a < 2 ^ 32" using uint_lt2p [of a] by simp_all
  consider "a = 0" | "a \<noteq> 0" "2 ^ 31 \<le> uint a" | "a \<noteq> 0" "uint a < 2 ^ 31" by linarith
  then show ?thesis
  proof cases
    case 1
    then show ?thesis using rp32.zero_result [of 0 False st] by (simp add: ui32_to_f32_def enc_make_def)
  next
    case 2
    let ?s = "ucast (drop_bit 1 a OR (a AND 1)) :: u64"
    have u: "uint ?s = jam_shift 1 (uint a)" unfolding jam_or_low [symmetric] by (rule uint_ucast_up) simp
    have "sticky (2 ^ (7 - 1)) (of_int (uint a) / 2 ^ 1) (uint ?s)" unfolding u by (rule sticky_jam [OF sticky_refl]) simp
    moreover have "2 ^ (23 + 7) \<le> uint ?s" "uint ?s < 2 ^ (23 + 7 + 1)"
      unfolding u using 2 l jam_shift_range [of "2 ^ 30" "2 ^ 31" 1 "uint a"] by simp_all
    ultimately show ?thesis using rp32.correct [of "of_int (uint a) / 2" ?s 157 False st] 2 top_bit_32 [of a]
      by (simp add: ui32_to_f32_def fmt_qmin_def fmt_bias_def)
  next
    case 3
    then show ?thesis using np32.correct_integer [of "ucast a" 156] top_bit_32 [of a] uint_pos_iff [of a]
      by (simp add: ui32_to_f32_def uint_ucast_up fmt_qmin_def fmt_bias_def)
  qed
qed

lemma magnitude64_to_f32:
  fixes m :: u64 and s :: bool
  defines "sc \<equiv> uint (softfloat_countLeadingZeros64 m) - 40"
  assumes m: "m \<noteq> 0"
  shows "0 \<le> sc \<Longrightarrow> ieee_result binary32 s (of_int (uint m)) st (ucast (packToF32UI s (0x95 - sc) (push_bit (nat sc) m)) :: u32, st)"
    "\<not> 0 \<le> sc \<Longrightarrow> ieee_result binary32 s (of_int (uint m)) st
       (softfloat_roundPackToF32 s (0x9C - (sc + 7))
         (if sc + 7 < 0 then softfloat_shortShiftRightJam64 m (nat (- (sc + 7))) else push_bit (nat (sc + 7)) m) st)"
proof -
  obtain c where c: "c \<le> 63" "uint (softfloat_countLeadingZeros64 m) = int c" "2 ^ 63 \<le> uint m * 2 ^ c" "uint m * 2 ^ c < 2 ^ 64"
    using countLeadingZeros64 [OF m] by blast
  have sc: "sc = int c - 40" using c(2) by (simp add: sc_def)
  have sh: "2 ^ (63 - e) \<le> uint m * 2 ^ f \<and> uint m * 2 ^ f < 2 ^ (64 - e)" if "c = f + e" "e \<le> 63" for e f
  proof -
    have p: "(2::int) ^ 63 = 2 ^ (63 - e) * 2 ^ e" "(2::int) ^ 64 = 2 ^ (64 - e) * 2 ^ e" "uint m * 2 ^ c = uint m * 2 ^ f * 2 ^ e"
      using that by (simp_all add: power_add flip: power_add)
    show ?thesis using c(3,4) unfolding p by simp
  qed
  {
    assume "0 \<le> sc"
    then have k: "c = nat sc + 40" using sc by simp
    from sh [OF k] have r: "2 ^ 23 \<le> uint m * 2 ^ nat sc" "uint m * 2 ^ nat sc < 2 ^ 24" by simp_all
    have u: "uint (push_bit (nat sc) m) = uint m * 2 ^ nat sc" using r by (intro uint_push_small) simp
    have b: "sc \<le> 23" using c(1) sc by simp
    have p: "uint (ucast (packToF32UI s (149 - sc) (push_bit (nat sc) m)) :: u32) = enc_make binary32 s (149 - sc) (uint m * 2 ^ nat sc)"
      using uint_packToF32UI(2) [of "149 - sc" "push_bit (nat sc) m" s] r u b \<open>0 \<le> sc\<close> by simp
    have q: "uint m * 2 ^ nat sc div 2 ^ 23 \<le> 1" using r int_div_less_iff [of "2 ^ 23" "uint m * 2 ^ nat sc" 2] by simp
    have "(2::real) powi (149 - sc + fmt_qmin binary32) = inverse (2 ^ nat sc)"
      using \<open>0 \<le> sc\<close> power_int_minus [of "2::real" sc] by (simp add: fmt_qmin_def fmt_bias_def power_int_def)
    then have x: "of_int (uint m) = (of_int (uint m * 2 ^ nat sc) * 2 powi (149 - sc + fmt_qmin binary32) :: real)" by simp
    show "ieee_result binary32 s (of_int (uint m)) st (ucast (packToF32UI s (0x95 - sc) (push_bit (nat sc) m)) :: u32, st)"
      by (rule rp32.exact_pack [OF p _ _ _ _ _ x]) (use b r q \<open>0 \<le> sc\<close> in simp_all)
  next
    assume n: "\<not> 0 \<le> sc"
    let ?z = "if sc + 7 < 0 then softfloat_shortShiftRightJam64 m (nat (- (sc + 7))) else push_bit (nat (sc + 7)) m"
    define y where "y = of_int (uint m) * (2 powi (sc + 7) :: real)"
    have st: "sticky (2 ^ (7 - 1)) y (uint ?z) \<and> 2 ^ 30 \<le> uint ?z \<and> uint ?z < 2 ^ 31"
    proof (cases "sc + 7 < 0")
      case True
      let ?d = "nat (- (sc + 7))"
      have d: "?d < 64" "33 = c + ?d" using True sc by simp_all
      have u: "uint ?z = jam_shift ?d (uint m)" using True d by (simp add: uint_shortShiftRightJam64)
      have y: "y = of_int (uint m) / 2 ^ ?d" using True by (simp add: y_def power_int_def field_simps)
      have p: "(2::int) ^ 63 = 2 ^ 30 * 2 ^ ?d * 2 ^ c" "(2::int) ^ 64 = 2 ^ 31 * 2 ^ ?d * 2 ^ c"
        unfolding power_add [symmetric] using d(2) by (intro arg_cong [of _ _ "power 2"]; simp)+
      have "2 ^ 30 * 2 ^ ?d \<le> uint m" "uint m < 2 ^ 31 * 2 ^ ?d" using c(3,4) unfolding p by simp_all
      then show ?thesis unfolding u y using jam_shift_range [of "2 ^ 30" "2 ^ 31" ?d "uint m"]
        by (intro conjI sticky_jam [OF sticky_refl]) simp_all
    next
      case False
      let ?f = "nat (sc + 7)"
      have k: "c = ?f + 33" using False sc by simp
      from sh [OF k] have r: "2 ^ 30 \<le> uint m * 2 ^ ?f" "uint m * 2 ^ ?f < 2 ^ 31" by simp_all
      have u: "uint (push_bit ?f m) = uint m * 2 ^ ?f" using r by (intro uint_push_small) simp
      have y: "y = of_int (uint m * 2 ^ ?f)" using False by (simp add: y_def power_int_def)
      show ?thesis unfolding y if_not_P [OF False] u by (intro conjI sticky_refl r)
    qed
    have x: "y * 2 powi (0x9C - (sc + 7) + fmt_qmin binary32 - int 7) = of_int (uint m)"
    proof -
      have "0x9C - (sc + 7) + fmt_qmin binary32 - int 7 = - (sc + 7)" by (simp add: fmt_qmin_def fmt_bias_def)
      then have "2 powi (0x9C - (sc + 7) + fmt_qmin binary32 - int 7) = (2::real) powi (- (sc + 7))" by (rule arg_cong)
      moreover have "(2::real) powi (sc + 7) * 2 powi (- (sc + 7)) = 1"
        using power_int_add [of "2::real" "sc + 7" "- (sc + 7)"] by simp
      ultimately show ?thesis by (simp only: y_def mult.assoc mult_1_right)
    qed
    have e: "- (2 ^ 15) \<le> 0x9C - (sc + 7)" "0x9C - (sc + 7) < 2 ^ 15" using sc c(1) by simp_all
    show "ieee_result binary32 s (of_int (uint m)) st (softfloat_roundPackToF32 s (0x9C - (sc + 7)) ?z st)"
      using rp32.correct [of y ?z "0x9C - (sc + 7)" s st] st e unfolding x by simp
  }
qed

lemma i64_to_f32_correct: "ieee_result binary32 (sint a < 0) (of_int \<bar>sint a\<bar>) st (i64_to_f32 a st)"
proof (cases "a = 0")
  case True
  then show ?thesis using rp32.zero_result [of 0 False st]
    by (simp add: i64_to_f32_def countLeadingZeros64_zero enc_make_def)
next
  case False
  let ?m = "if sint a < 0 then - a else a"
  have "?m \<noteq> 0" using False by simp
  from magnitude64_to_f32 [OF this, of "sint a < 0" st] False show ?thesis
    unfolding i64_to_f32_def Let_def uint_abs64 by simp
qed

lemma ui64_to_f32_correct: "ieee_result binary32 False (of_int (uint a)) st (ui64_to_f32 a st)"
proof (cases "a = 0")
  case True
  then show ?thesis using rp32.zero_result [of 0 False st]
    by (simp add: ui64_to_f32_def countLeadingZeros64_zero enc_make_def)
next
  case False
  from magnitude64_to_f32 [OF this, of False st] False show ?thesis
    unfolding ui64_to_f32_def Let_def by simp
qed

lemma magnitude32_to_f64:
  fixes m :: u32 and s :: bool
  defines "sc \<equiv> uint (softfloat_countLeadingZeros32 m) + 21"
  assumes m: "m \<noteq> 0"
  shows "ieee_result binary64 s (of_int (uint m)) st (packToF64UI s (0x432 - sc) (push_bit (nat sc) (ucast m)), st)"
proof -
  obtain c where c: "c \<le> 31" "uint (softfloat_countLeadingZeros32 m) = int c" "2 ^ 31 \<le> uint m * 2 ^ c" "uint m * 2 ^ c < 2 ^ 32"
    using countLeadingZeros32 [OF m] by blast
  have sc: "sc = int (c + 21)" "nat sc = c + 21" using c(2) by (simp_all add: sc_def)
  have r: "2 ^ 52 \<le> uint m * 2 ^ nat sc" "uint m * 2 ^ nat sc < 2 ^ 53"
    unfolding sc(2) power_add using c(3,4) by simp_all
  have u: "uint (push_bit (nat sc) (ucast m) :: u64) = uint m * 2 ^ nat sc"
    using r by (subst uint_push_small) (simp_all add: uint_ucast_up)
  have p: "uint (packToF64UI s (1074 - sc) (push_bit (nat sc) (ucast m))) = enc_make binary64 s (1074 - sc) (uint m * 2 ^ nat sc)"
    using uint_packToF64UI [of "1074 - sc" "push_bit (nat sc) (ucast m)" s] r u c(1) sc(1) by simp
  have q: "uint m * 2 ^ nat sc div 2 ^ 52 \<le> 1" using r int_div_less_iff [of "2 ^ 52" "uint m * 2 ^ nat sc" 2] by simp
  have "(2::real) powi (1074 - sc + fmt_qmin binary64) = 2 powi (- int (c + 21))"
    by (rule arg_cong) (simp add: sc fmt_qmin_def fmt_bias_def)
  then have "(2::real) powi (1074 - sc + fmt_qmin binary64) = inverse (2 ^ nat sc)"
    by (simp only: sc(2) power_int_minus power_int_of_nat)
  then have x: "of_int (uint m) = (of_int (uint m * 2 ^ nat sc) * 2 powi (1074 - sc + fmt_qmin binary64) :: real)" by simp
  show ?thesis using rp64.exact_pack [OF p _ _ _ _ _ x] sc(1) c(1) r q by simp
qed

lemma ui32_to_f64_correct: "ieee_result binary64 False (of_int (uint a)) st (ui32_to_f64 a, st)"
  using magnitude32_to_f64 [of a False st] rp64.zero_result [of 0 False st]
  by (cases "a = 0") (simp_all add: ui32_to_f64_def enc_make_def Let_def)

lemma i32_to_f64_correct: "ieee_result binary64 (sint a < 0) (of_int \<bar>sint a\<bar>) st (i32_to_f64 a, st)"
proof (cases "a = 0")
  case True
  then show ?thesis using rp64.zero_result [of 0 False st] by (simp add: i32_to_f64_def enc_make_def)
next
  case False
  define w where "w = (if sint a < 0 then - scast a else scast a :: u64)"
  define m where "m = (ucast w :: u32)"
  have w: "uint w = \<bar>sint a\<bar>" by (simp only: w_def uint_abs_scast)
  have b: "- (2 ^ 31) \<le> sint a" "sint a < 2 ^ 31" using sint_lt [of a] sint_ge [of a] by simp_all
  then have m: "uint m = \<bar>sint a\<bar>" "ucast m = w" unfolding m_def
    using w by (simp_all add: uint_ucast_small word_eq_uint [of _ w] uint_ucast_up uint_ucast mod_pos_pos_trivial)
  have "m \<noteq> 0" using False m(1) uint_eq_0 [of m] by (simp add: signed_eq_0_iff)
  from magnitude32_to_f64 [OF this, of "sint a < 0" st] False show ?thesis
    unfolding i32_to_f64_def Let_def w_def [symmetric] m_def [symmetric] m by simp
qed

lemma i64_to_f64_correct:
  "ieee_result binary64 (sint a < 0) (of_int \<bar>sint a\<bar>) st (i64_to_f64 a st)"
proof -
  have m: "a AND 0x7FFFFFFFFFFFFFFF = take_bit 63 a" using and_low_mask [of a 63] by simp
  have z: "a AND 0x7FFFFFFFFFFFFFFF = 0 \<longleftrightarrow> uint a mod 2 ^ 63 = 0" unfolding m using uint_eq_0 [of "take_bit 63 a"] by (simp add: uint_take)
  have s: "sint a = (if uint a < 2 ^ 63 then uint a else uint a - 2 ^ 64)" using sint_if [of a] by simp
  have l: "0 \<le> uint a" "uint a < 2 ^ 64" using uint_lt2p [of a] by simp_all
  show ?thesis
  proof (cases "uint a mod 2 ^ 63 = 0")
    case True
    have "uint a div 2 ^ 63 = 0 \<or> uint a div 2 ^ 63 = 1" using l int_div_less_iff [of "2 ^ 63" "uint a" 2]
      pos_imp_zdiv_nonneg_iff [of "2 ^ 63" "uint a"] by auto
    then have "uint a = 0 \<or> uint a = 2 ^ 63" using True div_mult_mod_eq [of "uint a" "2 ^ 63"] by auto
    then show ?thesis
    proof
      assume "uint a = 0"
      then show ?thesis using rp64.zero_result [of 0 False st] by (simp add: i64_to_f64_def enc_make_def)
    next
      assume u: "uint a = 2 ^ 63"
      have p: "uint (packToF64UI True 1086 0) = enc_make binary64 True 1085 (2 ^ 52)"
        using uint_packToF64UI [of 1086 0 True] by (simp add: enc_make_def)
      have "ieee_result binary64 True (2 ^ 63) st (packToF64UI True 1086 0, st)"
        using rp64.exact_pack [OF p, of "2 ^ 63" st] by (simp add: fmt_qmin_def fmt_bias_def)
      then show ?thesis using u z True by (simp add: i64_to_f64_def s)
    qed
  next
    case False
    then have "uint a \<noteq> 0" "uint a \<noteq> 2 ^ 63" by (auto simp del: uint_eq_0)
    then have "0 < \<bar>sint a\<bar>" "\<bar>sint a\<bar> < 2 ^ 63" using l s by (simp_all del: uint_eq_0 split: if_splits)
    then show ?thesis using np64.correct_integer [of "if sint a < 0 then - a else a" 1084] False z
      by (simp add: i64_to_f64_def Let_def uint_abs64 fmt_qmin_def fmt_bias_def)
  qed
qed

lemma ui64_to_f64_correct: "ieee_result binary64 False (of_int (uint a)) st (ui64_to_f64 a st)"
proof -
  have l: "0 \<le> uint a" "uint a < 2 ^ 64" using uint_lt2p [of a] by simp_all
  consider "a = 0" | "a \<noteq> 0" "2 ^ 63 \<le> uint a" | "a \<noteq> 0" "uint a < 2 ^ 63" by linarith
  then show ?thesis
  proof cases
    case 1
    then show ?thesis using rp64.zero_result [of 0 False st] by (simp add: ui64_to_f64_def enc_make_def)
  next
    case 2
    let ?s = "softfloat_shortShiftRightJam64 a 1"
    have u: "uint ?s = jam_shift 1 (uint a)" by (rule uint_shortShiftRightJam64) simp
    have "sticky (2 ^ (10 - 1)) (of_int (uint a) / 2 ^ 1) (uint ?s)" unfolding u by (rule sticky_jam [OF sticky_refl]) simp
    moreover have "2 ^ (52 + 10) \<le> uint ?s" "uint ?s < 2 ^ (52 + 10 + 1)"
      unfolding u using 2 l jam_shift_range [of "2 ^ 62" "2 ^ 63" 1 "uint a"] by simp_all
    ultimately show ?thesis using rp64.correct [of "of_int (uint a) / 2" ?s 1085 False st] 2 top_bit_64 [of a]
      by (simp add: ui64_to_f64_def fmt_qmin_def fmt_bias_def)
  next
    case 3
    then show ?thesis using np64.correct_integer [of a 1084] top_bit_64 [of a] uint_pos_iff [of a]
      by (simp add: ui64_to_f64_def fmt_qmin_def fmt_bias_def)
  qed
qed

lemma quiet_bit32: "enc_nan binary32 (uint w) \<Longrightarrow> (w :: u64) AND 0x00400000 = 0 \<longleftrightarrow> enc_snan binary32 (uint w)"
proof -
  assume n: "enc_nan binary32 (uint w)"
  have "uint (w AND 0x00400000) = uint w div 2 ^ 22 mod 2 ^ 1 * 2 ^ 22" by (rule uint_and_field) simp_all
  moreover have "uint w mod 2 ^ 23 = 2 ^ 22 * (uint w div 2 ^ 22 mod 2) + uint w mod 2 ^ 22"
    using mod_mult2_eq' [of "uint w" "2 ^ 22" 2] by simp
  moreover have "0 \<le> uint w mod 2 ^ 22" "uint w mod 2 ^ 22 < 2 ^ 22" by simp_all
  ultimately show ?thesis using n uint_eq_0 [of "w AND 0x00400000"] mod_2_eq_odd [of "uint w div 2 ^ 22"]
    by (auto simp: enc_snan_def enc_frac_def)
qed

lemma quiet_bit64: "enc_nan binary64 (uint w) \<Longrightarrow> (w :: u64) AND 0x0008000000000000 = 0 \<longleftrightarrow> enc_snan binary64 (uint w)"
proof -
  assume n: "enc_nan binary64 (uint w)"
  have "uint (w AND 0x0008000000000000) = uint w div 2 ^ 51 mod 2 ^ 1 * 2 ^ 51" by (rule uint_and_field) simp_all
  moreover have "uint w mod 2 ^ 52 = 2 ^ 51 * (uint w div 2 ^ 51 mod 2) + uint w mod 2 ^ 51"
    using mod_mult2_eq' [of "uint w" "2 ^ 51" 2] by simp
  moreover have "0 \<le> uint w mod 2 ^ 51" "uint w mod 2 ^ 51 < 2 ^ 51" by simp_all
  ultimately show ?thesis using n uint_eq_0 [of "w AND 0x0008000000000000"] mod_2_eq_odd [of "uint w div 2 ^ 51"]
    by (auto simp: enc_snan_def enc_frac_def)
qed

lemma f64_to_f32_finite:
  assumes fin: "enc_finite binary64 (uint a)" and nz: "\<not> enc_zero binary64 (uint a)"
  shows "ieee_result binary32 s (enc_abs binary64 (uint a)) st
    (softfloat_roundPackToF32 s (expF64UI a - 0x381) (softfloat_shortShiftRightJam64 (fracF64UI a) 22 OR 0x40000000) st)"
proof -
  let ?f = "enc_frac binary64 (uint a)" and ?E = "enc_exp binary64 (uint a)"
  let ?sig = "softfloat_shortShiftRightJam64 (fracF64UI a) 22 OR 0x40000000" and ?j = "jam_shift 22 (enc_frac binary64 (uint a))"
  have f: "0 \<le> ?f" "?f < 2 ^ 52" and E: "0 \<le> ?E" "?E < 2048" using enc_field_range [of binary64 "uint a"] by simp_all
  have j: "uint (softfloat_shortShiftRightJam64 (fracF64UI a) 22) = ?j" by (simp add: uint_shortShiftRightJam64 fracF64UI_enc)
  have jr: "0 \<le> ?j" "?j < 2 ^ 30" using jam_shift_range [of 0 "2 ^ 30" 22 ?f] f by simp_all
  have u: "uint ?sig = 2 ^ 30 + ?j"
    using uint_or_disjoint [of "0x40000000 :: u64" 30 "softfloat_shortShiftRightJam64 (fracF64UI a) 22"] j jr by (simp add: or.commute)
  have st: "sticky (2 ^ (7 - 1)) (of_int (2 ^ 30) + of_int ?f / 2 ^ 22) (uint ?sig)"
    unfolding u by (intro sticky_add sticky_jam sticky_refl) simp_all
  have e: "- (2 ^ 15) \<le> ?E - 0x381" "?E - 0x381 < 2 ^ 15" using E by simp_all
  have "ieee_result binary32 s ((of_int (2 ^ 30) + of_int ?f / 2 ^ 22) * 2 powi (?E - 0x381 + fmt_qmin binary32 - int 7)) st
      (softfloat_roundPackToF32 s (?E - 0x381) ?sig st)"
    by (rule rp32.correct [OF st _ _ e]) (use jr in \<open>simp_all add: u\<close>)
  moreover have "(of_int (2 ^ 30) + of_int ?f / 2 ^ 22) * 2 powi (?E - 0x381 + fmt_qmin binary32 - int 7) =
      of_int (2 ^ 52 + ?f) * (2 powi (?E - 1075) :: real)"
  proof -
    have "?E - 0x381 + fmt_qmin binary32 - int 7 = 22 + (?E - 1075)" by (simp add: fmt_qmin_def fmt_bias_def)
    then have "(2::real) powi (?E - 0x381 + fmt_qmin binary32 - int 7) = 2 powi (22 + (?E - 1075))" by (rule arg_cong)
    also have "\<dots> = 2 ^ 22 * 2 powi (?E - 1075)" by (subst power_int_add) simp_all
    finally show ?thesis by (simp add: field_simps)
  qed
  ultimately have r: "ieee_result binary32 s (of_int (2 ^ 52 + ?f) * 2 powi (?E - 1075)) st
      (softfloat_roundPackToF32 s (expF64UI a - 0x381) ?sig st)" by (simp only: expF64UI_enc)
  show ?thesis
  proof (cases "?E = 0")
    case False
    then have "enc_abs binary64 (uint a) = of_int (2 ^ 52 + ?f) * 2 powi (?E - 1075)"
      using E by (simp add: enc_abs_def enc_sig_def max_def fmt_qmin_def fmt_bias_def add.commute)
    then show ?thesis using r by simp
  next
    case True
    have small: "of_int m * 2 powi (- 1075) < (2 powi (fmt_qmin binary32 - 1) :: real)" if "m < 2 ^ 54" for m
    proof -
      have "of_int m < (of_int (2 ^ 54) :: real)" using that by (simp only: of_int_less_iff)
      then have "of_int m * 2 powi (- 1075) < (2 powi int 54 * 2 powi (- 1075) :: real)" by simp
      also have "\<dots> = 2 powi (int 54 + - 1075)" by (rule power_int_add [symmetric]) simp
      also have "\<dots> \<le> 2 powi (fmt_qmin binary32 - 1)" by (intro power_int_increasing) (simp_all add: fmt_qmin_def fmt_bias_def)
      finally show ?thesis .
    qed
    have x: "enc_abs binary64 (uint a) = of_int (2 * ?f) * 2 powi (- 1075)"
    proof -
      have "(2::real) powi (- 1074) = 2 powi (1 + - 1075)" by simp
      also have "\<dots> = 2 powi 1 * 2 powi (- 1075)" by (rule power_int_add) simp
      finally have "(2::real) powi (- 1074) = 2 * 2 powi (- 1075)" by simp
      then show ?thesis using True by (simp only: enc_abs_def enc_sig_def) (simp add: fmt_qmin_def fmt_bias_def)
    qed
    have "?f \<noteq> 0" using nz True by (simp add: enc_zero_def)
    then have p: "0 < (of_int (2 * ?f) * 2 powi (- 1075) :: real)" "0 < (of_int (2 ^ 52 + ?f) * 2 powi (- 1075) :: real)"
      using f by (simp_all add: add_pos_nonneg)
    show ?thesis unfolding x
      by (rule rp32.deep_underflow_same [OF p(2) small p(1) small]) (use f r True in simp_all)
  qed
qed

lemma f64_to_f32_convert: "ieee_convert binary64 binary32 (uint a) st (f64_to_f32 a st)"
proof -
  have z: "(word_of_int (expF64UI a) OR softfloat_shortShiftRightJam64 (fracF64UI a) 22 = 0) \<longleftrightarrow> enc_zero binary64 (uint a)"
  proof -
    have "uint (softfloat_shortShiftRightJam64 (fracF64UI a) 22) = jam_shift 22 (uint (fracF64UI a))"
      by (rule uint_shortShiftRightJam64) simp
    then have "softfloat_shortShiftRightJam64 (fracF64UI a) 22 = 0 \<longleftrightarrow> fracF64UI a = 0"
      using jam_shift_pos [of "uint (fracF64UI a)" 22] uint_pos_iff [of "fracF64UI a"]
        uint_eq_0 [of "softfloat_shortShiftRightJam64 (fracF64UI a) 22"]
      by (cases "fracF64UI a = 0") (auto simp: jam_shift_def)
    then show ?thesis using exp_or_frac64 [of a] by (simp add: or_eq_0_iff)
  qed
  have n: "expF64UI a = 0x7FF \<longleftrightarrow> \<not> enc_finite binary64 (uint a)" by (simp add: enc_finite_def expF64UI_enc)
  have cl: "fracF64UI a \<noteq> 0 \<Longrightarrow> \<not> enc_finite binary64 (uint a) \<Longrightarrow> enc_nan binary64 (uint a)"
    "fracF64UI a = 0 \<Longrightarrow> \<not> enc_finite binary64 (uint a) \<Longrightarrow> enc_inf binary64 (uint a) \<and> \<not> enc_nan binary64 (uint a)"
    "enc_finite binary64 (uint a) \<Longrightarrow> \<not> enc_nan binary64 (uint a) \<and> \<not> enc_inf binary64 (uint a)"
    by (auto simp: enc_nan_def enc_inf_def enc_finite_def fracF64UI_zero)
  have I: "inf_result binary32 (signF64UI a) st (ucast (packToF32UI (signF64UI a) 0xFF 0) :: u32, st)"
    using uint_packToF32UI(2) [of 255 0] by (simp add: inf_result_def)
  have Z: "ieee_result binary32 (signF64UI a) 0 st (ucast (packToF32UI (signF64UI a) 0 0) :: u32, st)"
    using rp32.zero_result [OF uint_packToF32UI(2) [of 0 0, simplified]] by simp
  consider "\<not> enc_finite binary64 (uint a)" "fracF64UI a \<noteq> 0" | "\<not> enc_finite binary64 (uint a)" "fracF64UI a = 0"
    | "enc_zero binary64 (uint a)" "enc_finite binary64 (uint a)" | "enc_finite binary64 (uint a)" "\<not> enc_zero binary64 (uint a)" by blast
  then show ?thesis
  proof cases
    case 1
    with cl(1) quiet_bit64 [of a] n show ?thesis
      by (simp add: f64_to_f32_def ieee_convert_def nan_result_def softfloat_f64UIToCommonNaN_def enc_make_def Let_def)
  next
    case 2
    with cl(2) I n show ?thesis by (simp add: f64_to_f32_def ieee_convert_def Let_def signF64UI_enc)
  next
    case 3
    with cl(3) Z n z enc_abs_zero [of binary64 "uint a"] show ?thesis by (simp add: f64_to_f32_def ieee_convert_def Let_def signF64UI_enc)
  next
    case 4
    with cl(3) n z f64_to_f32_finite [OF 4] show ?thesis by (simp add: f64_to_f32_def ieee_convert_def Let_def signF64UI_enc)
  qed
qed

lemma f32_to_f64_finite:
  assumes fin: "enc_finite binary32 (uint w)" and nz: "\<not> enc_zero binary32 (uint w)" and w: "uint w < 2 ^ 32"
  shows "\<exists>z. enc_finite binary64 (uint z) \<and> enc_sign binary64 (uint z) = s \<and>
    enc_abs binary64 (uint z) = enc_abs binary32 (uint w) \<and> (z, st) =
    (let (e, sig) = (if expF32UI w = 0
                     then let normExpSig = softfloat_normSubnormalF32Sig (fracF32UI w)
                          in (norm_exp normExpSig - 1, norm_sig normExpSig)
                     else (expF32UI w, fracF32UI w))
     in (packToF64UI s (e + 0x380) (push_bit 29 sig), st))"
proof -
  let ?f = "enc_frac binary32 (uint w)" and ?E = "enc_exp binary32 (uint w)"
  have f: "0 \<le> ?f" "?f < 2 ^ 23" and E: "0 \<le> ?E" "?E < 255" using enc_field_range [of binary32 "uint w"] fin by (simp_all add: enc_finite_def)
  have pack: "let z = packToF64UI s p (push_bit 29 sig)
      in enc_finite binary64 (uint z) \<and> enc_sign binary64 (uint z) = s \<and> enc_abs binary64 (uint z) = of_int m * 2 powi (e - 149)"
    if m: "2 ^ 23 \<le> m" "m < 2 ^ 24" and e: "- 100 \<le> e" "e < 255"
      and s: "p = e + 896 \<and> uint sig = m \<or> p = e + 897 \<and> uint sig = m - 2 ^ 23" for m e p and sig :: u64
  proof -
    have u: "uint (push_bit 29 sig) = uint sig * 2 ^ 29" using m s by (intro uint_push_small) auto
    have P: "uint (packToF64UI s p (push_bit 29 sig)) = enc_make binary64 s (e + 896) (m * 2 ^ 29)"
      using uint_packToF64UI [of p "push_bit 29 sig" s] m e s u by (auto simp: enc_make_def)
    have q: "m * 2 ^ 29 div 2 ^ 52 \<le> 1" using m int_div_less_iff [of "2 ^ 52" "m * 2 ^ 29" 2] by simp
    have x: "of_int m * 2 powi (e - 149) = (of_int (m * 2 ^ 29) * 2 powi (e + 896 + fmt_qmin binary64) :: real)"
    proof -
      have "(2::real) powi (e - 149) = 2 powi (int 29 + (e + 896 + fmt_qmin binary64))"
        by (rule arg_cong) (simp add: fmt_qmin_def fmt_bias_def)
      then show ?thesis unfolding powi_nat_add by simp
    qed
    show ?thesis unfolding Let_def P x using enc_pack [of "e + 896" "m * 2 ^ 29" binary64 s] m e q by simp
  qed
  show ?thesis
  proof (cases "?E = 0")
    case False
    have "enc_abs binary32 (uint w) = of_int (2 ^ 23 + ?f) * 2 powi (?E - 1 - 149)"
      using False E by (simp add: enc_abs_def enc_sig_def max_def fmt_qmin_def fmt_bias_def add.commute)
    then show ?thesis
      using pack [of "2 ^ 23 + ?f" "?E - 1" "?E + 896" "fracF32UI w"] f E False by (simp add: expF32UI_enc fracF32UI_enc add.commute Let_def)
  next
    case True
    then have "0 < uint (fracF32UI w)" "uint (fracF32UI w) < 2 ^ 23" using nz f by (simp_all add: enc_zero_def fracF32UI_enc)
    from normSubnormalF32Sig [OF this] obtain c where c: "c \<le> 23"
      "norm_exp (softfloat_normSubnormalF32Sig (fracF32UI w)) = 1 - int c"
      "uint (norm_sig (softfloat_normSubnormalF32Sig (fracF32UI w))) = ?f * 2 ^ c"
      "2 ^ 23 \<le> ?f * 2 ^ c" "?f * 2 ^ c < 2 ^ 24" unfolding fracF32UI_enc by blast
    have "(2::real) powi (- 149) = 2 powi (int c + (- int c - 149))" by (rule arg_cong) simp
    then have "enc_abs binary32 (uint w) = of_int (?f * 2 ^ c) * 2 powi (- int c - 149)"
      unfolding powi_nat_add using True by (simp add: enc_abs_def enc_sig_def fmt_qmin_def fmt_bias_def)
    then show ?thesis using pack [OF c(4,5), of "- int c"] c True by (simp add: expF32UI_enc Let_def)
  qed
qed

lemma f32_to_f64_convert: "ieee_convert binary32 binary64 (uint a) st (f32_to_f64 a st)"
proof -
  define w where "w = (ucast a :: u64)"
  note u = ucast32 [of a, folded w_def]
  have n: "expF32UI w = 0xFF \<longleftrightarrow> \<not> enc_finite binary32 (uint a)" by (simp add: enc_finite_def u)
  have z: "expF32UI w = 0 \<and> fracF32UI w = 0 \<longleftrightarrow> enc_zero binary32 (uint a)" by (simp add: enc_zero_def u fracF32UI_zero)
  have cl: "fracF32UI w \<noteq> 0 \<Longrightarrow> \<not> enc_finite binary32 (uint a) \<Longrightarrow> enc_nan binary32 (uint a)"
    "fracF32UI w = 0 \<Longrightarrow> \<not> enc_finite binary32 (uint a) \<Longrightarrow> enc_inf binary32 (uint a) \<and> \<not> enc_nan binary32 (uint a)"
    "enc_finite binary32 (uint a) \<Longrightarrow> \<not> enc_nan binary32 (uint a) \<and> \<not> enc_inf binary32 (uint a)"
    by (auto simp: enc_nan_def enc_inf_def enc_finite_def fracF32UI_zero u(1))
  have I: "inf_result binary64 s st (packToF64UI s 0x7FF 0, st)" for s
    using uint_packToF64UI [of 2047 0] by (simp add: inf_result_def)
  have Z: "ieee_result binary64 s 0 st (packToF64UI s 0 0, st)" for s
    using rp64.zero_result [OF uint_packToF64UI [of 0 0, simplified]] by simp
  consider "\<not> enc_finite binary32 (uint a)" "fracF32UI w \<noteq> 0" | "\<not> enc_finite binary32 (uint a)" "fracF32UI w = 0"
    | "enc_zero binary32 (uint a)" "enc_finite binary32 (uint a)" | "enc_finite binary32 (uint a)" "\<not> enc_zero binary32 (uint a)" by blast
  then show ?thesis
  proof cases
    case 1
    with cl(1) quiet_bit32 [of w] n show ?thesis unfolding f32_to_f64_def w_def [symmetric] Let_def
      by (simp add: ieee_convert_def nan_result_def softfloat_f32UIToCommonNaN_def enc_make_def u(1))
  next
    case 2
    with cl(2) I n show ?thesis unfolding f32_to_f64_def w_def [symmetric] Let_def by (simp add: ieee_convert_def u(3))
  next
    case 3
    with cl(3) Z n z enc_abs_zero [of binary32 "uint a"] show ?thesis unfolding f32_to_f64_def w_def [symmetric] Let_def
      by (simp add: ieee_convert_def u(3))
  next
    case 4
    with f32_to_f64_finite [of w "signF32UI w" st] u(2) obtain v where v: "enc_finite binary64 (uint v)"
      "enc_sign binary64 (uint v) = signF32UI w" "enc_abs binary64 (uint v) = enc_abs binary32 (uint a)" "f32_to_f64 a st = (v, st)"
      unfolding f32_to_f64_def w_def [symmetric] Let_def n z by (auto simp: u(1))
    then show ?thesis using 4 cl(3) rp64.exact_result [OF v(1-3)] by (simp add: ieee_convert_def u(3))
  qed
qed




section \<open>The conversions meet the specification\<close>

text \<open>C10. The conversions of 32- and 64-bit, signed and unsigned integers to single and double precision return the correctly rounded integer with the flags of that rounding. f64_to_f32 rounds a double-precision number to single precision, with overflow, underflow (double subnormals included) and NaN handling as IEEE 754 asks; f32_to_f64 is exact.\<close>

theorem to_float_correct:
  "ieee_result binary32 (sint i < 0) (of_int \<bar>sint i\<bar>) st (i32_to_f32 i st) \<and>
   ieee_result binary32 False (of_int (uint i)) st (ui32_to_f32 i st) \<and>
   ieee_result binary32 (sint j < 0) (of_int \<bar>sint j\<bar>) st (i64_to_f32 j st) \<and>
   ieee_result binary32 False (of_int (uint j)) st (ui64_to_f32 j st) \<and>
   ieee_result binary64 (sint i < 0) (of_int \<bar>sint i\<bar>) st (i32_to_f64 i, st) \<and>
   ieee_result binary64 False (of_int (uint i)) st (ui32_to_f64 i, st) \<and>
   ieee_result binary64 (sint j < 0) (of_int \<bar>sint j\<bar>) st (i64_to_f64 j st) \<and>
   ieee_result binary64 False (of_int (uint j)) st (ui64_to_f64 j st) \<and>
   ieee_convert binary64 binary32 (uint j) st (f64_to_f32 j st) \<and>
   ieee_convert binary32 binary64 (uint i) st (f32_to_f64 i st)"
  by (intro conjI i32_to_f32_correct ui32_to_f32_correct i64_to_f32_correct ui64_to_f32_correct
    i32_to_f64_correct ui32_to_f64_correct i64_to_f64_correct ui64_to_f64_correct f64_to_f32_convert f32_to_f64_convert)





end
