(* ===== verification/Softfloat_RoundToInt.thy ===== *)
theory Softfloat_RoundToInt
  imports Softfloat_ToInt
begin

text \<open>
  Rounding to an integral value, \<^verbatim>\<open>f32_roundToInt.c\<close> and \<^verbatim>\<open>f64_roundToInt.c\<close>: the routines
  work on the bit pattern, adding half of the last kept bit to it and clearing the rest.
\<close>

definition f32_roundToInt :: "u32 \<Rightarrow> u8 \<Rightarrow> bool \<Rightarrow> softfloat_state \<Rightarrow> u32 \<times> softfloat_state" where
  "f32_roundToInt a roundingMode exact st =
     (let uiA = (ucast a :: u64); e = expF32UI uiA
      in if e \<le> 0x7E
         then if (ucast (push_bit 1 uiA) :: u32) = 0 then (a, st)
              else let st = (if exact then softfloat_raiseFlags softfloat_flag_inexact st else st);
                       uiZ = uiA AND packToF32UI True 0 0;
                       uiZ = (if roundingMode = softfloat_round_near_even
                              then if fracF32UI uiA = 0 then uiZ
                                   else if e = 0x7E then uiZ OR packToF32UI False 0x7F 0 else uiZ
                              else if roundingMode = softfloat_round_near_maxMag
                              then if e = 0x7E then uiZ OR packToF32UI False 0x7F 0 else uiZ
                              else if roundingMode = softfloat_round_min
                              then if uiZ \<noteq> 0 then packToF32UI True 0x7F 0 else uiZ
                              else if roundingMode = softfloat_round_max
                              then if uiZ = 0 then packToF32UI False 0x7F 0 else uiZ
                              else uiZ)
                   in (ucast uiZ, st)
         else if 0x96 \<le> e
         then if e = 0xFF \<and> fracF32UI uiA \<noteq> 0 then (let (uiZ, st) = softfloat_propagateNaNF32UI uiA 0 st in (ucast uiZ, st))
              else (a, st)
         else let lastBitMask = push_bit (nat (0x96 - e)) 1;
                  roundBitsMask = lastBitMask - 1;
                  uiZ = (if roundingMode = softfloat_round_near_maxMag then uiA + drop_bit 1 lastBitMask
                         else if roundingMode = softfloat_round_near_even
                         then let uiZ = uiA + drop_bit 1 lastBitMask
                              in if uiZ AND roundBitsMask = 0 then uiZ AND NOT lastBitMask else uiZ
                         else if roundingMode \<noteq> softfloat_round_minMag
                         then if signF32UI uiA \<noteq> (roundingMode = softfloat_round_max)
                              then uiA + roundBitsMask else uiA
                         else uiA);
                  uiZ = uiZ AND NOT roundBitsMask
              in (ucast uiZ, if exact \<and> uiZ \<noteq> uiA
                         then softfloat_raiseFlags softfloat_flag_inexact st else st))"

definition f64_roundToInt :: "u64 \<Rightarrow> u8 \<Rightarrow> bool \<Rightarrow> softfloat_state \<Rightarrow> u64 \<times> softfloat_state" where
  "f64_roundToInt a roundingMode exact st =
     (let uiA = a; e = expF64UI uiA
      in if e \<le> 0x3FE
         then if uiA AND 0x7FFFFFFFFFFFFFFF = 0 then (a, st)
              else let st = (if exact then softfloat_raiseFlags softfloat_flag_inexact st else st);
                       uiZ = uiA AND packToF64UI True 0 0;
                       uiZ = (if roundingMode = softfloat_round_near_even
                              then if fracF64UI uiA = 0 then uiZ
                                   else if e = 0x3FE then uiZ OR packToF64UI False 0x3FF 0 else uiZ
                              else if roundingMode = softfloat_round_near_maxMag
                              then if e = 0x3FE then uiZ OR packToF64UI False 0x3FF 0 else uiZ
                              else if roundingMode = softfloat_round_min
                              then if uiZ \<noteq> 0 then packToF64UI True 0x3FF 0 else uiZ
                              else if roundingMode = softfloat_round_max
                              then if uiZ = 0 then packToF64UI False 0x3FF 0 else uiZ
                              else uiZ)
                   in (uiZ, st)
         else if 0x433 \<le> e
         then if e = 0x7FF \<and> fracF64UI uiA \<noteq> 0 then softfloat_propagateNaNF64UI uiA 0 st
              else (a, st)
         else let lastBitMask = push_bit (nat (0x433 - e)) 1;
                  roundBitsMask = lastBitMask - 1;
                  uiZ = (if roundingMode = softfloat_round_near_maxMag then uiA + drop_bit 1 lastBitMask
                         else if roundingMode = softfloat_round_near_even
                         then let uiZ = uiA + drop_bit 1 lastBitMask
                              in if uiZ AND roundBitsMask = 0 then uiZ AND NOT lastBitMask else uiZ
                         else if roundingMode \<noteq> softfloat_round_minMag
                         then if signF64UI uiA \<noteq> (roundingMode = softfloat_round_max)
                              then uiA + roundBitsMask else uiA
                         else uiA);
                  uiZ = uiZ AND NOT roundBitsMask
              in (uiZ, if exact \<and> uiZ \<noteq> uiA
                         then softfloat_raiseFlags softfloat_flag_inexact st else st))"

section \<open>Rounding the bit pattern\<close>

lemma and_not_mask: "(w :: 'a::len word) AND NOT (push_bit k 1 - 1) = push_bit k (drop_bit k w)"
proof -
  have "push_bit k 1 - 1 = (mask k :: 'a word)" by (simp add: mask_eq_exp_minus_1 push_bit_of_1)
  then show ?thesis by (auto intro!: bit_eqI simp: bit_simps)
qed

lemma and_not_mask_last:
  "((w :: 'a::len word) AND NOT (push_bit k 1)) AND NOT (push_bit k 1 - 1) = push_bit k (drop_bit k w AND NOT 1)"
proof -
  have "push_bit k 1 - 1 = (mask k :: 'a word)" by (simp add: mask_eq_exp_minus_1 push_bit_of_1)
  then show ?thesis by (auto intro!: bit_eqI simp: bit_simps)
qed

lemma low_modes: "(rm :: u8) \<le> 4 \<Longrightarrow> rm = 0 \<or> rm = 1 \<or> rm = 2 \<or> rm = 3 \<or> rm = 4"
proof -
  assume "rm \<le> 4"
  then have "uint rm \<le> 4" by (simp add: word_le_uint)
  moreover have "0 \<le> uint rm" by simp
  moreover have "i \<in> {0, 1, 2, 3, 4}" if "i \<le> 4" "0 \<le> i" for i :: int using that by auto
  ultimately have "uint rm \<in> {0, 1, 2, 3, 4}" by blast
  then show ?thesis by (auto simp: word_eq_uint [of rm] simp del: uint_eq_0)
qed

lemma round_bits_word:
  fixes w :: "'a::len word" and s :: bool and rm :: u8
  assumes k: "1 \<le> k" "k < LENGTH('a)" and w: "uint w + 2 ^ k \<le> 2 ^ LENGTH('a)" and rm: "rm \<le> 4"
  defines "lb \<equiv> push_bit k 1 :: 'a word"
  defines "z \<equiv> (if rm = softfloat_round_near_maxMag then w + drop_bit 1 lb
                 else if rm = softfloat_round_near_even
                 then let uiZ = w + drop_bit 1 lb
                      in if uiZ AND (lb - 1) = 0 then uiZ AND NOT lb else uiZ
                 else if rm \<noteq> softfloat_round_minMag
                 then if s \<noteq> (rm = softfloat_round_max) then w + (lb - 1) else w
                 else w)"
  shows "uint (z AND NOT (lb - 1)) = round_code (2 ^ (k - 1)) rm s (uint w) * 2 ^ k"
proof -
  define inc where "inc = (if rm = softfloat_round_near_maxMag \<or> rm = softfloat_round_near_even then drop_bit 1 lb
    else if rm = (if s then softfloat_round_min else softfloat_round_max) then lb - 1 else 0)"
  have g: "(2::int) * 2 ^ (k - 1) = 2 ^ k" using k(1) by (cases k) simp_all
  have kk: "(2::int) ^ k < 2 ^ LENGTH('a)" using k(2) by (intro power_strict_increasing) simp_all
  have l: "uint lb = 2 ^ k" unfolding lb_def uint_push using kk by (subst mod_pos_pos_trivial) simp_all
  have d: "uint (drop_bit 1 lb) = 2 ^ (k - 1)" unfolding uint_drop l g [symmetric] by simp
  have m: "uint (lb - 1) = 2 * 2 ^ (k - 1) - 1" using l g by (subst uint_sub_small) simp_all
  have i: "uint inc = round_incr (2 ^ (k - 1)) rm s" using d m by (auto simp: inc_def round_incr_def)
  have low: "uint (v AND (lb - 1)) = uint v mod 2 ^ k" for v :: "'a word"
    using and_low_mask [of v k] by (simp add: lb_def push_bit_of_1 uint_take)
  have sum: "uint (w + drop_bit 1 lb) = uint w + 2 ^ (k - 1)"
  proof -
    have "uint w + 2 ^ (k - 1) < 2 ^ LENGTH('a)" using w zero_less_power [of "2::int" "k - 1"] unfolding g [symmetric] by linarith
    then show ?thesis by (rule uint_add_small [of w "drop_bit 1 lb", unfolded d])
  qed
  have tie: "w + drop_bit 1 lb AND (lb - 1) = 0 \<longleftrightarrow> uint w mod 2 ^ k = 2 ^ (k - 1)"
  proof -
    define a b where "a = uint w mod 2 ^ k" and "b = (2::int) ^ (k - 1)"
    have "0 \<le> a" "a < 2 * b" "0 < b" unfolding a_def b_def g by simp_all
    then have "(a + b) mod (2 * b) = 0 \<longleftrightarrow> a = b" 
      by (cases "a < b") (auto simp: mod_pos_pos_trivial mod_pos_geq)
    moreover have "uint (w + drop_bit 1 lb AND (lb - 1)) = (a + b) mod (2 * b)"
      unfolding low sum a_def b_def g by (simp add: mod_add_left_eq)
    ultimately show ?thesis unfolding a_def [symmetric] b_def [symmetric] by (metis uint_eq_0)
  qed
  define t where "t \<longleftrightarrow> (w + drop_bit 1 lb AND (lb - 1) = 0)"
  have zz: "z = (if t \<and> rm = softfloat_round_near_even then w + inc AND NOT lb else w + inc)"
    using low_modes [OF rm] by (elim disjE) (simp_all add: z_def inc_def t_def Let_def)
  have z: "z AND NOT (lb - 1) = push_bit k (drop_bit k (w + inc) AND NOT (of_bool (t \<and> rm = softfloat_round_near_even)))"
  proof (cases "t \<and> rm = softfloat_round_near_even")
    case True
    then show ?thesis unfolding zz lb_def using and_not_mask_last [of "w + inc" k] by (simp only: if_True of_bool_eq simp_thms)
  next
    case False
    then have "v AND NOT (of_bool (t \<and> rm = softfloat_round_near_even)) = v" for v :: "'a word" by auto
    then show ?thesis unfolding zz lb_def if_not_P [OF False] and_not_mask by (simp only:)
  qed
  have u: "uint (drop_bit k (w + inc) AND NOT (of_bool (t \<and> rm = softfloat_round_near_even))) =
      round_code (2 ^ (k - 1)) rm s (uint w)"
    by (rule uint_round_drop [OF k(1) i w tie [folded t_def]])
  have "round_code (2 ^ (k - 1)) rm s (uint w) * 2 ^ k \<le> (uint w + round_incr (2 ^ (k - 1)) rm s) div (2 * 2 ^ (k - 1)) * 2 ^ k"
    by (intro mult_right_mono round_code_bounds(1)) simp
  also have "\<dots> \<le> uint w + round_incr (2 ^ (k - 1)) rm s" unfolding g by (rule int_div_bounds(1)) simp
  also have "\<dots> < 2 ^ LENGTH('a)" using w round_incr_bounds(2) [of "2 ^ (k - 1)" rm s] unfolding g by simp
  finally have "round_code (2 ^ (k - 1)) rm s (uint w) * 2 ^ k < 2 ^ LENGTH('a)" .
  then show ?thesis unfolding z by (subst uint_push_small) (simp_all only: u)
qed

lemma sign_bit32:
  assumes "uint w < 2 ^ 32"
  shows "w AND packToF32UI True 0 0 = (if signF32UI w then 0x80000000 else 0)"
proof -
  have p: "packToF32UI True 0 0 = 0x80000000" by code_simp
  have "uint (w AND 0x80000000) = uint w div 2 ^ 31 mod 2 ^ 1 * 2 ^ 31" by (rule uint_and_field) simp_all
  then have "uint (w AND 0x80000000) = uint (if signF32UI w then 0x80000000 else 0 :: u64)"
    using signF32UI_enc [OF assms] by (simp add: enc_sign_def mod_2_eq_odd)
  then show ?thesis unfolding p by (simp only: word_eq_uint)
qed

lemma sign_bit64: "w AND packToF64UI True 0 0 = (if signF64UI w then 0x8000000000000000 else 0)"
proof -
  have p: "packToF64UI True 0 0 = 0x8000000000000000" by code_simp
  have "uint (w AND 0x8000000000000000) = uint w div 2 ^ 63 mod 2 ^ 1 * 2 ^ 63" by (rule uint_and_field) simp_all
  then have "uint (w AND 0x8000000000000000) = uint (if signF64UI w then 0x8000000000000000 else 0 :: u64)"
    using signF64UI_enc [of w] by (simp add: enc_sign_def mod_2_eq_odd)
  then show ?thesis unfolding p by (simp only: word_eq_uint)
qed

lemma enc_unit:
  "enc_finite binary32 (enc_make binary32 s (if b then 127 else 0) 0) \<and> enc_sign binary32 (enc_make binary32 s (if b then 127 else 0) 0) = s \<and>
    enc_abs binary32 (enc_make binary32 s (if b then 127 else 0) 0) = of_int (of_bool b)"
  "enc_finite binary64 (enc_make binary64 s (if b then 1023 else 0) 0) \<and> enc_sign binary64 (enc_make binary64 s (if b then 1023 else 0) 0) = s \<and>
    enc_abs binary64 (enc_make binary64 s (if b then 1023 else 0) 0) = of_int (of_bool b)"
proof -
  have a: "enc_make binary32 s 127 0 = enc_make binary32 s 126 (2 ^ 23)" "enc_make binary64 s 1023 0 = enc_make binary64 s 1022 (2 ^ 52)"
    by (simp_all add: enc_make_def)
  show "enc_finite binary32 (enc_make binary32 s (if b then 127 else 0) 0) \<and> enc_sign binary32 (enc_make binary32 s (if b then 127 else 0) 0) = s \<and>
    enc_abs binary32 (enc_make binary32 s (if b then 127 else 0) 0) = of_int (of_bool b)"
    using enc_pack [of 0 0 binary32 s] enc_pack [of 126 "2 ^ 23" binary32 s] a by (cases b) (simp_all add: fmt_qmin_def fmt_bias_def)
  show "enc_finite binary64 (enc_make binary64 s (if b then 1023 else 0) 0) \<and> enc_sign binary64 (enc_make binary64 s (if b then 1023 else 0) 0) = s \<and>
    enc_abs binary64 (enc_make binary64 s (if b then 1023 else 0) 0) = of_int (of_bool b)"
    using enc_pack [of 0 0 binary64 s] enc_pack [of 1022 "2 ^ 52" binary64 s] a by (cases b) (simp_all add: fmt_qmin_def fmt_bias_def)
qed

lemma pack_units:
  "packToF32UI False 0x7F 0 = 0x3F800000" "packToF32UI True 0x7F 0 = 0xBF800000"
  "packToF64UI False 0x3FF 0 = 0x3FF0000000000000" "packToF64UI True 0x3FF 0 = 0xBFF0000000000000"
  by code_simp+

lemma f32_roundToInt_correct:
  assumes rm: "rm \<le> 4"
  shows "integral_result binary32 rm exact (uint a) st (f32_roundToInt a rm exact st)"
proof -
  define w where "w = (ucast a :: u64)"
  note u = ucast32 [of a, folded w_def]
  let ?s = "enc_sign binary32 (uint a)" and ?E = "enc_exp binary32 (uint a)"
  have cast: "uint (ucast v :: u32) = uint v mod 2 ^ 32" for v :: u64 by (simp add: uint_ucast)
  have Z: "(ucast (push_bit 1 w) :: u32) = 0 \<longleftrightarrow> enc_zero binary32 (uint a)"
  proof -
    have "uint (ucast (push_bit 1 w) :: u32) = uint a * 2 ^ 1 mod 2 ^ 32" unfolding uint_ucast uint_push u(1) by (simp add: mod_mod_cancel)
    also have "\<dots> = uint a mod 2 ^ 31 * 2 ^ 1" using mod_mult_mult2 [of "uint a" "2 ^ 1" "2 ^ 31"] by simp
    finally have "(ucast (push_bit 1 w) :: u32) = 0 \<longleftrightarrow> uint a mod 2 ^ 31 = 0" by (metis uint_eq_0 mult_eq_0_iff power_eq_0_iff zero_neq_numeral)
    also have "\<dots> \<longleftrightarrow> enc_zero binary32 (uint a)"
      using enc_low [of "uint a" binary32] enc_field_range(1,3) [of binary32 "uint a"] by (simp add: enc_zero_def add_nonneg_eq_0_iff)
    finally show ?thesis .
  qed
  have fr: "fracF32UI w = 0 \<longleftrightarrow> enc_frac binary32 (uint a) = 0" by (simp add: fracF32UI_zero u(1))
  consider (zero) "?E \<le> 126" "enc_zero binary32 (uint a)" | (small) "?E \<le> 126" "\<not> enc_zero binary32 (uint a)"
    | (mid) "126 < ?E" "?E < 150" | (large) "150 \<le> ?E" "?E < 255" | (special) "?E = 255"
    using enc_field_range(2) [of binary32 "uint a"] by force
  then show ?thesis
  proof cases
    case zero
    then show ?thesis using Z enc_abs_zero [of binary32 "uint a"] round_int_of_int [of rm ?s 0] unfolding f32_roundToInt_def w_def [symmetric] Let_def
      by (simp add: u integral_result_def enc_nan_def enc_inf_def enc_finite_def Let_def)
  next
    case small
    let ?r = "round_int rm ?s (enc_abs binary32 (uint a))"
    note v = integral_small [of binary32 "uint a" 126, OF small(1) _ _ small(2)]
    have r: "?r = of_bool (rm = softfloat_round_near_even \<and> ?E = 126 \<and> enc_frac binary32 (uint a) \<noteq> 0
      \<or> rm = softfloat_round_near_maxMag \<and> ?E = 126 \<or> rm = (if ?s then softfloat_round_min else softfloat_round_max))"
      by (rule v(2)) (simp_all add: fmt_qmin_def fmt_bias_def)
    have n: "enc_abs binary32 (uint a) \<notin> \<int>" by (rule v(1)) (simp_all add: fmt_qmin_def fmt_bias_def)
    have e: "uint (fst (f32_roundToInt a rm exact st)) = enc_make binary32 ?s (if ?r = 1 then 127 else 0) 0"
      using low_modes [OF rm] small Z fr sign_bit32 [of w] u(2) unfolding r f32_roundToInt_def w_def [symmetric] Let_def
      by (elim disjE) (auto simp: u(1,3,4) cast pack_units enc_make_def)
    have s: "snd (f32_roundToInt a rm exact st) = (if exact then softfloat_raiseFlags softfloat_flag_inexact st else st)"
      using small Z unfolding f32_roundToInt_def w_def [symmetric] Let_def by (simp add: u(4))
    have "of_int (of_bool (?r = 1)) = (of_int ?r :: real)" unfolding r by simp
    with e s n small show ?thesis using enc_unit(1) [of ?s "?r = 1"]
      by (simp add: integral_result_def Let_def enc_nan_def enc_inf_def)
  next
    case mid
    let ?k = "nat (0x96 - ?E)"
    have "?E = 127 \<or> 0 < 23 - ?k" using mid by arith
    then have par: "even ((?E - 1) * 2 ^ (23 - ?k))" by auto
    have g: "(2::int) * 2 ^ (?k - 1) = 2 ^ ?k" using mid by (cases ?k) simp_all
    have l: "(2::int) ^ ?k \<le> 2 ^ 23" using mid by (intro power_increasing) simp_all
    define z where "z = round_code (2 ^ (?k - 1)) rm ?s (uint a) * 2 ^ ?k"
    have m: "enc_finite binary32 z \<and> enc_sign binary32 z = ?s \<and>
        enc_abs binary32 z = of_int (round_int rm ?s (enc_abs binary32 (uint a))) \<and>
        (z \<noteq> uint a \<longleftrightarrow> enc_abs binary32 (uint a) \<notin> \<int>)"
      unfolding z_def by (rule integral_mid) (use mid u(2) par in \<open>simp_all add: fmt_qmin_def fmt_bias_def\<close>)
    have "uint w + 2 ^ ?k \<le> 2 ^ LENGTH(64)" using l u(1,2) by simp
    then have "uint w + 2 ^ nat (0x96 - expF32UI w) \<le> 2 ^ LENGTH(64)" by (simp only: u(4))
    note wd = round_bits_word [OF _ _ this rm, of "signF32UI w"]
    have n: "\<not> expF32UI w \<le> 0x7E" "\<not> 0x96 \<le> expF32UI w" using mid by (simp_all add: u(4))
    have "\<exists>v. f32_roundToInt a rm exact st =
        (ucast v, if exact \<and> v \<noteq> w then softfloat_raiseFlags softfloat_flag_inexact st else st) \<and>
        uint v = round_code (2 ^ (nat (0x96 - expF32UI w) - 1)) rm (signF32UI w) (uint w) * 2 ^ nat (0x96 - expF32UI w)"
      unfolding f32_roundToInt_def w_def [symmetric] Let_def if_not_P [OF n(1)] if_not_P [OF n(2)]
      by (rule exI, rule conjI, rule refl, rule wd [unfolded Let_def]) (use n in simp_all)
    then obtain v where v: "f32_roundToInt a rm exact st =
        (ucast v, if exact \<and> v \<noteq> w then softfloat_raiseFlags softfloat_flag_inexact st else st)" "uint v = z"
      unfolding z_def u by blast
    have a: "uint a < 2 ^ 31 + 151 * 2 ^ 23"
      using enc_make_self [of "uint a" binary32] u(2) mid enc_field_range(4) [of binary32 "uint a"]
      by (cases ?s) (simp_all add: enc_make_def)
    have "z \<le> (uint a + round_incr (2 ^ (?k - 1)) rm ?s) div (2 * 2 ^ (?k - 1)) * 2 ^ ?k"
      unfolding z_def by (intro mult_right_mono round_code_bounds(1)) simp
    also have "\<dots> = (uint a + round_incr (2 ^ (?k - 1)) rm ?s) div 2 ^ ?k * 2 ^ ?k" unfolding g ..
    also have "\<dots> \<le> uint a + round_incr (2 ^ (?k - 1)) rm ?s" by (rule int_div_bounds(1)) simp
    finally have "z < 2 ^ 32" using round_incr_bounds(2) [of "2 ^ (?k - 1)" rm ?s] a l unfolding g by simp
    then have c: "uint (ucast v :: u32) = z" using uint_ge_0 [of v] unfolding cast v(2) by (intro mod_pos_pos_trivial)
    have "v \<noteq> w \<longleftrightarrow> z \<noteq> uint a" using word_eq_uint [of v w] v(2) u(1) by simp
    then show ?thesis using m mid c v(1) by (simp add: integral_result_def enc_nan_def enc_inf_def)
  next
    case large
    then show ?thesis using integral_large [of binary32 "uint a"] unfolding f32_roundToInt_def w_def [symmetric] Let_def
      by (simp add: u integral_result_def enc_nan_def enc_inf_def enc_finite_def fmt_qmin_def fmt_bias_def)
  next
    case special
    then show ?thesis using propagateNaNF32UI_result [of w 0 st] fr unfolding f32_roundToInt_def w_def [symmetric] Let_def
      by (cases "fracF32UI w = 0")
        (simp_all add: u integral_result_def enc_nan_def enc_inf_def enc_snan_def enc_exp_def enc_frac_def split_def)
  qed
qed

lemma f64_roundToInt_correct:
  assumes rm: "rm \<le> 4"
  shows "integral_result binary64 rm exact (uint a) st (f64_roundToInt a rm exact st)"
proof -
  let ?s = "enc_sign binary64 (uint a)" and ?E = "enc_exp binary64 (uint a)"
  note u = signF64UI_enc [of a] expF64UI_enc [of a]
  have u64: "uint a < 2 ^ 64" using uint_lt2p [of a] by simp
  have Z: "a AND 0x7FFFFFFFFFFFFFFF = 0 \<longleftrightarrow> enc_zero binary64 (uint a)"
  proof -
    have "a AND 0x7FFFFFFFFFFFFFFF = take_bit 63 a" using and_low_mask [of a 63] by simp
    then have "uint (a AND 0x7FFFFFFFFFFFFFFF) = uint a mod 2 ^ 63" by (simp add: uint_take)
    then have "a AND 0x7FFFFFFFFFFFFFFF = 0 \<longleftrightarrow> uint a mod 2 ^ 63 = 0" by (metis uint_eq_0)
    also have "\<dots> \<longleftrightarrow> enc_zero binary64 (uint a)"
      using enc_low [of "uint a" binary64] enc_field_range(1,3) [of binary64 "uint a"] by (simp add: enc_zero_def add_nonneg_eq_0_iff)
    finally show ?thesis .
  qed
  note fr = fracF64UI_zero [of a]
  consider (zero) "?E \<le> 1022" "enc_zero binary64 (uint a)" | (small) "?E \<le> 1022" "\<not> enc_zero binary64 (uint a)"
    | (mid) "1022 < ?E" "?E < 1075" | (large) "1075 \<le> ?E" "?E < 2047" | (special) "?E = 2047"
    using enc_field_range(2) [of binary64 "uint a"] by force
  then show ?thesis
  proof cases
    case zero
    then show ?thesis using Z enc_abs_zero [of binary64 "uint a"] round_int_of_int [of rm ?s 0] unfolding f64_roundToInt_def Let_def
      by (simp add: u integral_result_def enc_nan_def enc_inf_def enc_finite_def Let_def)
  next
    case small
    let ?r = "round_int rm ?s (enc_abs binary64 (uint a))"
    note v = integral_small [of binary64 "uint a" 1022, OF small(1) _ _ small(2)]
    have r: "?r = of_bool (rm = softfloat_round_near_even \<and> ?E = 1022 \<and> enc_frac binary64 (uint a) \<noteq> 0
      \<or> rm = softfloat_round_near_maxMag \<and> ?E = 1022 \<or> rm = (if ?s then softfloat_round_min else softfloat_round_max))"
      by (rule v(2)) (simp_all add: fmt_qmin_def fmt_bias_def)
    have n: "enc_abs binary64 (uint a) \<notin> \<int>" by (rule v(1)) (simp_all add: fmt_qmin_def fmt_bias_def)
    have e: "uint (fst (f64_roundToInt a rm exact st)) = enc_make binary64 ?s (if ?r = 1 then 1023 else 0) 0"
      using low_modes [OF rm] small Z fr sign_bit64 [of a] unfolding r f64_roundToInt_def Let_def
      by (elim disjE) (auto simp: u pack_units enc_make_def)
    have s: "snd (f64_roundToInt a rm exact st) = (if exact then softfloat_raiseFlags softfloat_flag_inexact st else st)"
      using small Z unfolding f64_roundToInt_def Let_def by (simp add: u)
    have "of_int (of_bool (?r = 1)) = (of_int ?r :: real)" unfolding r by simp
    with e s n small show ?thesis using enc_unit(2) [of ?s "?r = 1"]
      by (simp add: integral_result_def Let_def enc_nan_def enc_inf_def)
  next
    case mid
    let ?k = "nat (0x433 - ?E)"
    have "?E = 1023 \<or> 0 < 52 - ?k" using mid by arith
    then have par: "even ((?E - 1) * 2 ^ (52 - ?k))" by auto
    have l: "(2::int) ^ ?k \<le> 2 ^ 52" using mid by (intro power_increasing) simp_all
    define z where "z = round_code (2 ^ (?k - 1)) rm ?s (uint a) * 2 ^ ?k"
    have m: "enc_finite binary64 z \<and> enc_sign binary64 z = ?s \<and>
        enc_abs binary64 z = of_int (round_int rm ?s (enc_abs binary64 (uint a))) \<and>
        (z \<noteq> uint a \<longleftrightarrow> enc_abs binary64 (uint a) \<notin> \<int>)"
      unfolding z_def by (rule integral_mid) (use mid u64 par in \<open>simp_all add: fmt_qmin_def fmt_bias_def\<close>)
    have "uint a < 2 ^ 63 + 1076 * 2 ^ 52"
      using enc_make_self [of "uint a" binary64] u64 mid enc_field_range(4) [of binary64 "uint a"]
      by (cases ?s) (simp_all add: enc_make_def)
    then have "uint a + 2 ^ nat (0x433 - expF64UI a) \<le> 2 ^ LENGTH(64)" using l unfolding u by simp
    note wd = round_bits_word [OF _ _ this rm, of "signF64UI a"]
    have n: "\<not> expF64UI a \<le> 0x3FE" "\<not> 0x433 \<le> expF64UI a" using mid by (simp_all add: u)
    have "\<exists>v. f64_roundToInt a rm exact st =
        (v, if exact \<and> v \<noteq> a then softfloat_raiseFlags softfloat_flag_inexact st else st) \<and>
        uint v = round_code (2 ^ (nat (0x433 - expF64UI a) - 1)) rm (signF64UI a) (uint a) * 2 ^ nat (0x433 - expF64UI a)"
      unfolding f64_roundToInt_def Let_def if_not_P [OF n(1)] if_not_P [OF n(2)]
      by (rule exI, rule conjI, rule refl, rule wd [unfolded Let_def]) (use n in simp_all)
    then obtain v where v: "f64_roundToInt a rm exact st =
        (v, if exact \<and> v \<noteq> a then softfloat_raiseFlags softfloat_flag_inexact st else st)" "uint v = z"
      unfolding z_def u by blast
    have "v \<noteq> a \<longleftrightarrow> z \<noteq> uint a" using word_eq_uint [of v a] v(2) by simp
    then show ?thesis using m mid v by (simp add: integral_result_def enc_nan_def enc_inf_def)
  next
    case large
    then show ?thesis using integral_large [of binary64 "uint a"] unfolding f64_roundToInt_def Let_def
      by (simp add: u integral_result_def enc_nan_def enc_inf_def enc_finite_def fmt_qmin_def fmt_bias_def)
  next
    case special
    then show ?thesis using propagateNaNF64UI_result [of a 0 st] fr unfolding f64_roundToInt_def Let_def
      by (cases "fracF64UI a = 0")
        (simp_all add: u integral_result_def enc_nan_def enc_inf_def enc_snan_def enc_exp_def enc_frac_def split_def)
  qed
qed

text \<open>C12. In the five defined rounding modes f32_roundToInt and f64_roundToInt return the number whose value is the operand rounded to an integer, keep its sign, and raise inexact exactly when asked to and the operand is not an integer.\<close>

theorem roundToInt_correct:
  assumes "rm \<le> 4"
  shows "integral_result binary32 rm exact (uint a) st (f32_roundToInt a rm exact st) \<and>
    integral_result binary64 rm exact (uint b) st (f64_roundToInt b rm exact st)"
  using f32_roundToInt_correct [OF assms] f64_roundToInt_correct [OF assms] by blast

theorem roundToInt_correct_witness:
  "integral_result binary32 softfloat_round_min True (uint (0x3FC00000 :: u32)) softfloat_initial_state
     (f32_roundToInt 0x3FC00000 softfloat_round_min True softfloat_initial_state) \<and>
   integral_result binary64 softfloat_round_min True (uint (0xBFE0000000000000 :: u64)) softfloat_initial_state
     (f64_roundToInt 0xBFE0000000000000 softfloat_round_min True softfloat_initial_state) \<and>
   fst (f32_roundToInt 0x3FC00000 softfloat_round_min True softfloat_initial_state) = 0x3F800000 \<and>
   fst (f64_roundToInt 0xBFE0000000000000 softfloat_round_min True softfloat_initial_state) = 0xBFF0000000000000"
proof -
  have m: "softfloat_round_min \<le> 4" by simp
  have "fst (f32_roundToInt 0x3FC00000 softfloat_round_min True softfloat_initial_state) = 0x3F800000" by code_simp
  moreover have "fst (f64_roundToInt 0xBFE0000000000000 softfloat_round_min True softfloat_initial_state) = 0xBFF0000000000000" by code_simp
  ultimately show ?thesis using roundToInt_correct [OF m] by blast
qed

text \<open>
  Modes outside of the five defined ones are treated differently by the two branches: a
  magnitude below one is truncated, a larger one is rounded as towards minus infinity.
\<close>

lemma f32_roundToInt_undefined_mode:
  "fst (f32_roundToInt 0xBF000000 5 False st) = 0x80000000 \<and> fst (f32_roundToInt 0xBFC00000 5 False st) = 0xC0000000"
  by (simp add: f32_roundToInt_def expF32UI_def fracF32UI_def signF32UI_def packToF32UI_def Let_def)

end
