(* ===== verification/Softfloat_MulAddF32.thy ===== *)
theory Softfloat_MulAddF32
  imports Softfloat_Round
begin

text \<open>
  The single-precision fused multiply-add: \<^verbatim>\<open>s_mulAddF32.c\<close> and \<^verbatim>\<open>f32_mulAdd.c\<close>. The exact
  product of two significands fits 64 bits, the addend is aligned with it there, and the
  sum is rounded once.
\<close>

section \<open>The operations\<close>

text \<open>The enumeration of \<^verbatim>\<open>internals.h\<close> that selects the signs.\<close>

definition softfloat_mulAdd_subC :: u8 where "softfloat_mulAdd_subC = 1"
definition softfloat_mulAdd_subProd :: u8 where "softfloat_mulAdd_subProd = 2"

text \<open>The normalisation of a difference of wide significands, before it is rounded.\<close>

definition softfloat_mulAddF32_normalise ::
  "bool \<Rightarrow> int \<Rightarrow> u64 \<Rightarrow> softfloat_state \<Rightarrow> u32 \<times> softfloat_state" where
  "softfloat_mulAddF32_normalise signZ expZ sig64Z st =
     (let shiftCount = uint (softfloat_countLeadingZeros64 sig64Z) - 1;
          expZ = expZ - shiftCount;
          shiftCount = shiftCount - 32;
          sigZ = (if shiftCount < 0
                  then softfloat_shortShiftRightJam64 sig64Z (nat (- shiftCount))
                  else push_bit (nat shiftCount) sig64Z)
      in softfloat_roundPackToF32 signZ expZ sigZ st)"

text \<open>
  The sum of a normalised product and an addend that is not zero, after both have been
  normalised: the last part of \<^verbatim>\<open>softfloat_mulAddF32\<close> up to the label \<^verbatim>\<open>roundPack\<close>, with the
  label \<^verbatim>\<open>completeCancellation\<close>.
\<close>

definition softfloat_mulAddF32_sum ::
  "bool \<Rightarrow> int \<Rightarrow> u64 \<Rightarrow> bool \<Rightarrow> int \<Rightarrow> u64 \<Rightarrow> softfloat_state \<Rightarrow> u32 \<times> softfloat_state" where
  "softfloat_mulAddF32_sum signProd expProd sigProd signC expC sigC st =
     (let sigC = push_bit 6 (sigC OR 0x00800000);
          expDiff = expProd - expC
      in if signProd = signC
         then let (expZ, sigZ) =
                    (if expDiff \<le> 0
                     then (expC, sigC + softfloat_shiftRightJam64 sigProd (word_of_int (32 - expDiff)))
                     else let sig64Z = sigProd + softfloat_shiftRightJam64 (push_bit 32 sigC) (word_of_int expDiff)
                          in (expProd, softfloat_shortShiftRightJam64 sig64Z 32));
                  (expZ, sigZ) = (if sigZ < 0x40000000 then (expZ - 1, push_bit 1 sigZ) else (expZ, sigZ))
              in softfloat_roundPackToF32 signProd expZ sigZ st
         else let sig64C = push_bit 32 sigC;
                  finish = (\<lambda>signZ expZ sig64Z. softfloat_mulAddF32_normalise signZ expZ sig64Z st)
              in if expDiff < 0
                 then finish signC expC (sig64C - softfloat_shiftRightJam64 sigProd (word_of_int (- expDiff)))
                 else if expDiff = 0
                 then let sig64Z = sigProd - sig64C
                      in if sig64Z = 0
                         then (ucast (packToF32UI (softfloat_roundingMode st = softfloat_round_min) 0 0), st)
                         else if sig64Z AND 0x8000000000000000 \<noteq> 0
                         then finish (\<not> signProd) expProd (- sig64Z)
                         else finish signProd expProd sig64Z
                 else finish signProd expProd (sigProd - softfloat_shiftRightJam64 sig64C (word_of_int expDiff)))"

definition softfloat_mulAddF32 ::
  "u64 \<Rightarrow> u64 \<Rightarrow> u64 \<Rightarrow> u8 \<Rightarrow> softfloat_state \<Rightarrow> u32 \<times> softfloat_state" where
  "softfloat_mulAddF32 uiA uiB uiC op st =
     (let signA = signF32UI uiA; expA = expF32UI uiA; sigA = fracF32UI uiA;
          signB = signF32UI uiB; expB = expF32UI uiB; sigB = fracF32UI uiB;
          signC = (signF32UI uiC \<noteq> (op = softfloat_mulAdd_subC)); expC = expF32UI uiC; sigC = fracF32UI uiC;
          signProd = ((signA \<noteq> signB) \<noteq> (op = softfloat_mulAdd_subProd));
          uiZ = (\<lambda>uiZ st. (ucast uiZ, st));
          propagateNaN_ZC = (\<lambda>z st. let (z, st) = softfloat_propagateNaNF32UI z uiC st in uiZ z st);
          propagateNaN_ABC = (let (z, st) = softfloat_propagateNaNF32UI uiA uiB st in propagateNaN_ZC z st);
          invalid = propagateNaN_ZC defaultNaNF32UI (softfloat_raiseFlags softfloat_flag_invalid st);
          infProdArg = (\<lambda>magBits :: u64.
            if magBits \<noteq> 0
            then let z = packToF32UI signProd 0xFF 0
                 in if expC \<noteq> 0xFF then uiZ z st
                    else if sigC \<noteq> 0 then propagateNaN_ZC z st
                    else if signProd = signC then uiZ z st
                    else invalid
            else invalid);
          zeroProd = (if word_of_int expC OR sigC = 0 \<and> signProd \<noteq> signC
                      then uiZ (packToF32UI (softfloat_roundingMode st = softfloat_round_min) 0 0) st
                      else uiZ uiC st)
      in if expA = 0xFF
         then if sigA \<noteq> 0 \<or> (expB = 0xFF \<and> sigB \<noteq> 0) then propagateNaN_ABC
              else infProdArg (word_of_int expB OR sigB)
         else if expB = 0xFF
         then if sigB \<noteq> 0 then propagateNaN_ABC else infProdArg (word_of_int expA OR sigA)
         else if expC = 0xFF
         then if sigC \<noteq> 0 then propagateNaN_ZC 0 st else uiZ uiC st
         else if expA = 0 \<and> sigA = 0 then zeroProd
         else let (expA, sigA) = softfloat_normArgF32 expA sigA
              in if expB = 0 \<and> sigB = 0 then zeroProd
         else let (expB, sigB) = softfloat_normArgF32 expB sigB;
                  expProd = expA + expB - 0x7E;
                  sigA = push_bit 7 (sigA OR 0x00800000);
                  sigB = push_bit 7 (sigB OR 0x00800000);
                  sigProd = sigA * sigB;
                  (expProd, sigProd) =
                    (if sigProd < 0x2000000000000000 then (expProd - 1, push_bit 1 sigProd) else (expProd, sigProd))
              in if expC = 0 \<and> sigC = 0
                 then softfloat_roundPackToF32 signProd (expProd - 1) (softfloat_shortShiftRightJam64 sigProd 31) st
                 else let (expC, sigC) = softfloat_normArgF32 expC sigC
                      in softfloat_mulAddF32_sum signProd expProd sigProd signC expC sigC st)"

definition f32_mulAdd :: "u32 \<Rightarrow> u32 \<Rightarrow> u32 \<Rightarrow> softfloat_state \<Rightarrow> u32 \<times> softfloat_state" where
  "f32_mulAdd a b c st = softfloat_mulAddF32 (ucast a) (ucast b) (ucast c) 0 st"

section \<open>Aligned sums are correct\<close>

lemma mulAddF32_normalise:
  assumes n: "uint w = n" "0 < n" "n < 2 ^ 62"
    and y: "y = of_int n \<or> sticky 2 y n \<and> 2 ^ 60 \<le> n"
    and e: "- (2 ^ 14) \<le> e" "e < 2 ^ 15" and x: "x = y * 2 powi (e - 188)"
  shows "ieee_result binary32 s x st
    (softfloat_mulAddF32_normalise s e w st)"
proof -
  have "w \<noteq> 0" using n by auto
  from countLeadingZeros64 [OF this] obtain d where d: "d \<le> 63" "uint (softfloat_countLeadingZeros64 w) = int d"
    "2 ^ 63 \<le> n * 2 ^ d" "n * 2 ^ d < 2 ^ 64" unfolding n(1) .
  have "d \<noteq> 0" using d(3) n(3) by (intro notI) simp
  define c where "c = d - 1"
  have dc: "d = Suc c" using \<open>d \<noteq> 0\<close> by (simp add: c_def)
  have r: "2 ^ 62 \<le> n * 2 ^ c" "n * 2 ^ c < 2 ^ 63" using d(3,4) by (simp_all add: dc)
  define z where "z = (if c < 32 then softfloat_shortShiftRightJam64 w (32 - c) else push_bit (c - 32) w)"
  have z: "uint z = jam_shift 32 (n * 2 ^ c)"
  proof (cases "c < 32")
    case True
    then show ?thesis by (cases "c = 0") (simp_all add: z_def uint_shortShiftRightJam64 n jam_shift_scaled)
  next
    case False
    have "n * 2 ^ (c - 32) * 1 \<le> n * 2 ^ (c - 32) * 2 ^ 32" using n(2) by (intro mult_left_mono) simp_all
    also have "\<dots> = n * 2 ^ c" using False power_add [of "2::int" "c - 32" 32] by simp
    finally have "n * 2 ^ (c - 32) < 2 ^ 64" using r(2) by simp
    then show ?thesis using False n by (simp add: z_def uint_push_small jam_shift_scaled)
  qed
  have "nat (1 + int (31 - c)) = 32 - c" if "c < 32" using that by simp
  then have R: "softfloat_mulAddF32_normalise s e w st = softfloat_roundPackToF32 s (e - int c) z st"
    unfolding softfloat_mulAddF32_normalise_def Let_def d(2) dc z_def by (auto simp: nat_diff_distrib algebra_simps)
  show ?thesis unfolding R
    by (rule rp32.correct_wide [where w = 32 and n = n and c = c and y = y and g = 2])
       (use r y e x z d(1) dc in simp_all)
qed

text \<open>Aligned sums: the addend and the product in either order.\<close>

lemma mulAddF32_sum_same:
  assumes P: "uint sp = P" "2 ^ 61 \<le> P" "P < 2 ^ 62" "even P" and C: "uint (sc OR 0x00800000) = mc" "2 ^ 23 \<le> mc" "mc < 2 ^ 24"
    and e: "- (2 ^ 13) \<le> ep" "ep < 2 ^ 13" "- (2 ^ 13) \<le> ec" "ec < 2 ^ 13"
    and v: "vp = of_int P * 2 powi (ep - 188)" "vc = of_int mc * 2 powi (ec - 150)"
  shows "ieee_result binary32 s (vp + vc) st (softfloat_mulAddF32_sum s ep sp s ec sc st)"
proof -
  define c where "c = push_bit 6 (sc OR 0x00800000)"
  have c: "uint c = mc * 2 ^ 6" "uint (push_bit 32 c) = mc * 2 ^ 6 * 2 ^ 32"
    using C by (simp_all add: c_def uint_push_small)
  have vc: "vc = of_int (mc * 2 ^ 6) * 2 powi (ec - 156)" using powi_down [of "ec - 150" 6] by (simp add: v(2))
  have vp: "vp = of_int P / 2 ^ 32 * 2 powi (ep - 156)" using powi_down [of "ep - 156" 32] by (simp add: v(1))
  define z where "z = (if ep - ec \<le> 0 then c + softfloat_shiftRightJam64 sp (word_of_int (32 - (ep - ec)))
    else softfloat_shortShiftRightJam64 (sp + softfloat_shiftRightJam64 (push_bit 32 c) (word_of_int (ep - ec))) 32)"
  define E where "E = max ep ec"
  have lt: "z < 0x40000000 \<longleftrightarrow> uint z < 2 ^ 30" by (simp add: word_less_uint)
  have zE: "(if ep - ec \<le> 0 then (ec, c + softfloat_shiftRightJam64 sp (word_of_int (32 - (ep - ec))))
    else (ep, softfloat_shortShiftRightJam64 (sp + softfloat_shiftRightJam64 (push_bit 32 c) (word_of_int (ep - ec))) 32)) = (E, z)"
    by (simp add: z_def E_def)
  have R: "softfloat_mulAddF32_sum s ep sp s ec sc st = softfloat_roundPackToF32 s
      (if uint z < 2 ^ 30 then E - 1 else E) (if uint z < 2 ^ 30 then push_bit 1 z else z) st"
    unfolding softfloat_mulAddF32_sum_def Let_def c_def [symmetric] zE prod.case lt by simp
  have "\<exists>y. sticky 2 y (uint z) \<and> 2 ^ 29 \<le> uint z \<and> uint z < 2 ^ 31 \<and> vp + vc = y * 2 powi (E - 156)"
  proof (cases "ep \<le> ec")
    case True
    define D where "D = nat (32 - (ep - ec))"
    have D: "32 \<le> D" "ep - 156 = ec - 156 - int (D - 32)" using True by (simp_all add: D_def)
    have j: "0 \<le> jam_shift D P" "jam_shift D P < 2 ^ (62 - 32)" using jam_shift_bounds [of P 62 32 D] P D by simp_all
    have J: "uint (softfloat_shiftRightJam64 sp (word_of_int (32 - (ep - ec)))) = jam_shift D P"
      unfolding D_def P(1) [symmetric] using True e by (intro uint_jam64) simp_all
    have z: "uint z = mc * 2 ^ 6 + jam_shift D P"
      using True j C J by (simp add: z_def uint_add_small c)
    have "vp = of_int P / 2 ^ D * 2 powi (ec - 156)"
      unfolding vp D(2) powi_down using D(1) power_add [of "2::real" 32 "D - 32"] by simp
    then have "vp + vc = (of_int (mc * 2 ^ 6) + of_int P / 2 ^ D) * 2 powi (E - 156)"
      using True by (simp add: vc E_def max_def distrib_right)
    moreover have "sticky 2 (of_int (mc * 2 ^ 6) + of_int P / 2 ^ D) (uint z)"
      unfolding z by (intro sticky_add sticky_jam [OF sticky_refl]) simp_all
    ultimately show ?thesis using j C z by (intro exI conjI) simp_all
  next
    case False
    define D where "D = nat (ep - ec)"
    have D: "1 \<le> D" "ec - 156 = ep - 156 - int D" using False by (simp_all add: D_def)
    let ?C = "mc * 2 ^ 6 * 2 ^ 32"
    have j: "0 \<le> jam_shift D ?C" "jam_shift D ?C < 2 ^ (62 - 1)" using jam_shift_bounds [of ?C 62 1 D] C D by simp_all
    have J: "uint (softfloat_shiftRightJam64 (push_bit 32 c) (word_of_int (ep - ec))) = jam_shift D ?C"
      unfolding D_def c(2) [symmetric] using False e by (intro uint_jam64) simp_all
    define n where "n = P + jam_shift D ?C"
    have "uint (sp + softfloat_shiftRightJam64 (push_bit 32 c) (word_of_int (ep - ec))) = n"
      using j P J by (simp add: n_def uint_add_small)
    then have z: "uint z = jam_shift 32 n" using False by (simp add: z_def uint_shortShiftRightJam64)
    have "2 ^ 29 * 2 ^ 32 \<le> n" "n < 2 ^ 31 * 2 ^ 32" using j P by (simp_all add: n_def)
    then have "2 ^ 29 \<le> uint z" "uint z < 2 ^ 31" unfolding z using jam_shift_less(1) [of _ 32 n] by (simp_all add: not_less [symmetric])
    moreover have "sticky 2 ((of_int P + of_int ?C / 2 ^ D) / 2 ^ 32) (uint z)"
      unfolding z n_def using P(4) by (intro sticky_jam sticky_add sticky_jam [OF sticky_refl]) simp_all
    moreover have "vp + vc = (of_int P + of_int ?C / 2 ^ D) / 2 ^ 32 * 2 powi (E - 156)"
      unfolding vp vc D(2) powi_down using False by (simp add: E_def max_def field_simps)
    ultimately show ?thesis by blast
  qed
  then obtain y where y: "sticky 2 y (uint z)" "2 ^ 29 \<le> uint z" "uint z < 2 ^ 31" "vp + vc = y * 2 powi (E - 156)" by blast
  have sg: "uint (if uint z < 2 ^ 30 then push_bit 1 z else z) = (if uint z < 2 ^ 30 then 2 * uint z else uint z)"
    using uint_push_small [of z 1] by (simp del: push_bit_of_1)
  have "sticky (2 ^ (7 - 2)) y (uint z)" by (rule sticky_coarser [OF y(1)]) simp
  then show ?thesis unfolding R
    by (rule rp32.correct_norm1 [where n = "uint z" and e = E, rotated]) (use y e sg in \<open>simp_all add: E_def\<close>)
qed

lemma mulAddF32_sum_opposite:
  assumes P: "uint sp = P" "2 ^ 61 \<le> P" "P < 2 ^ 62" "even P" and C: "uint (sc OR 0x00800000) = mc" "2 ^ 23 \<le> mc" "mc < 2 ^ 24"
    and e: "- (2 ^ 13) \<le> ep" "ep < 2 ^ 13" "- (2 ^ 13) \<le> ec" "ec < 2 ^ 13"
    and v: "vp = of_int P * 2 powi (ep - 188)" "vc = of_int mc * 2 powi (ec - 150)"
  shows "ieee_result binary32 (if vp = vc then softfloat_roundingMode st = softfloat_round_min else if vc < vp then s else \<not> s)
    \<bar>vp - vc\<bar> st (softfloat_mulAddF32_sum s ep sp (\<not> s) ec sc st)"
proof -
  define c where "c = push_bit 32 (push_bit 6 (sc OR 0x00800000))"
  define B where "B = mc * 2 ^ 38"
  have c: "uint c = B" "2 ^ 61 \<le> B" "B < 2 ^ 62" "even B" using C by (simp_all add: c_def B_def uint_push_small)
  have vc: "vc = of_int B * 2 powi (ec - 188)" using powi_down [of "ec - 150" 38] by (simp add: v(2) B_def)
  note R = softfloat_mulAddF32_sum_def [of s ep sp "\<not> s" ec sc st]
  consider "ep < ec" | "ec < ep" | "ec = ep" by linarith
  then show ?thesis
  proof cases
    case 1
    define D where "D = nat (ec - ep)"
    have D: "1 \<le> D" "ep - 188 = ec - 188 - int D" using 1 by (simp_all add: D_def)
    have J: "uint (softfloat_shiftRightJam64 sp (word_of_int (- (ep - ec)))) = jam_shift D P"
      unfolding D_def P(1) [symmetric] using 1 e by (subst uint_jam64) simp_all
    define n where "n = B - jam_shift D P"
    define y :: real where "y = of_int B - of_int P / 2 ^ D"
    have wd: "0 < n" "n < 2 ^ 62" "0 < y" "y = of_int n \<or> sticky 2 y n \<and> 2 ^ 60 \<le> n"
      using wide_difference [of 62 B P D n y] P c D n_def y_def by simp_all
    have n: "uint (c - softfloat_shiftRightJam64 sp (word_of_int (- (ep - ec)))) = n"
      using wd(1) uint_sub_small [of "softfloat_shiftRightJam64 sp (word_of_int (- (ep - ec)))" c] unfolding J c(1) n_def by linarith
    have x: "vc - vp = y * 2 powi (ec - 188)" unfolding v(1) vc D(2) powi_down by (simp add: y_def left_diff_distrib)
    then have "vp < vc" using wd P by (simp add: algebra_simps)
    moreover have "ieee_result binary32 (\<not> s) (vc - vp) st (softfloat_mulAddF32_sum s ep sp (\<not> s) ec sc st)"
      unfolding R Let_def c_def [symmetric] using 1 mulAddF32_normalise [OF n _ _ _ _ _ x, of "\<not> s" st] wd P e by simp
    ultimately show ?thesis by simp
  next
    case 2
    define D where "D = nat (ep - ec)"
    have D: "1 \<le> D" "ec - 188 = ep - 188 - int D" using 2 by (simp_all add: D_def)
    have J: "uint (softfloat_shiftRightJam64 c (word_of_int (ep - ec))) = jam_shift D B"
      unfolding D_def c(1) [symmetric] using 2 e by (subst uint_jam64) simp_all
    define n where "n = P - jam_shift D B"
    define y :: real where "y = of_int P - of_int B / 2 ^ D"
    have wd: "0 < n" "n < 2 ^ 62" "0 < y" "y = of_int n \<or> sticky 2 y n \<and> 2 ^ 60 \<le> n"
      using wide_difference [of 62 P B D n y] P c D n_def y_def by simp_all
    have n: "uint (sp - softfloat_shiftRightJam64 c (word_of_int (ep - ec))) = n"
      using wd(1) uint_sub_small [of "softfloat_shiftRightJam64 c (word_of_int (ep - ec))" sp] unfolding J P(1) n_def by linarith
    have x: "vp - vc = y * 2 powi (ep - 188)" unfolding v(1) vc D(2) powi_down by (simp add: y_def left_diff_distrib)
    then have "vc < vp" using wd c by (simp add: algebra_simps)
    moreover have "ieee_result binary32 s (vp - vc) st (softfloat_mulAddF32_sum s ep sp (\<not> s) ec sc st)"
      unfolding R Let_def c_def [symmetric] using 2 mulAddF32_normalise [OF n _ _ _ _ _ x, of s st] wd c e by simp
    ultimately show ?thesis by simp
  next
    case 3
    have x: "vp - vc = of_int (P - B) * 2 powi (ep - 188)" "vc - vp = of_int (B - P) * 2 powi (ep - 188)"
      unfolding v(1) vc 3 by (simp_all add: left_diff_distrib)
    have cmp: "vp = vc \<longleftrightarrow> P = B" "vc < vp \<longleftrightarrow> B < P" "vp < vc \<longleftrightarrow> P < B" unfolding v(1) vc 3 by simp_all
    consider "P = B" | "B < P" | "P < B" by linarith
    then show ?thesis
    proof cases
      case eq: 1
      then have "sp = c" using P c by (simp add: word_uint_eq_iff)
      then have "softfloat_mulAddF32_sum s ep sp (\<not> s) ec sc st =
          (ucast (packToF32UI (softfloat_roundingMode st = softfloat_round_min) 0 0), st)"
        unfolding R Let_def c_def [symmetric] using 3 by simp
      moreover have "ieee_result binary32 r 0 st (ucast (packToF32UI r 0 0) :: u32, st)" for r
        by (rule rp32.zero_result) (subst uint_packToF32UI, simp_all)
      ultimately show ?thesis using eq cmp by simp
    next
      case gt: 2
      then have n: "uint (sp - c) = P - B" using P c by (simp add: uint_sub_small)
      then have "sp - c \<noteq> 0" "\<not> 2 ^ 63 \<le> uint (sp - c)" using gt P c by auto
      then have "ieee_result binary32 s (vp - vc) st (softfloat_mulAddF32_sum s ep sp (\<not> s) ec sc st)"
        unfolding R Let_def c_def [symmetric] and_top_bit64 using 3 mulAddF32_normalise [OF n _ _ _ _ _ x(1), of s st] gt P c e by simp
      then show ?thesis using gt cmp by simp
    next
      case ls: 3
      have n: "uint (- (sp - c)) = B - P" using ls P c by (simp add: uint_sub_small)
      have "uint (sp - c) = P - B + 2 ^ 64" using ls P c uint_sub_borrow [of sp c] by (simp add: word_less_uint)
      then have "sp - c \<noteq> 0" "2 ^ 63 \<le> uint (sp - c)" using ls P c by auto
      then have "ieee_result binary32 (\<not> s) (vc - vp) st (softfloat_mulAddF32_sum s ep sp (\<not> s) ec sc st)"
        unfolding R Let_def c_def [symmetric] and_top_bit64 using 3 mulAddF32_normalise [OF n _ _ _ _ _ x(2), of "\<not> s" st] ls P c e by simp
      then show ?thesis using ls cmp by simp
    qed
  qed
qed

section \<open>The fused multiply-add is correct\<close>

text \<open>The normalised product.\<close>

lemma mulAddF32_product:
  assumes A: "norm_operand binary32 a ea ma" and B: "norm_operand binary32 b eb mb"
    and u: "uint (sa :: u64) = ma" "uint sb = mb" and p: "p = push_bit 7 sa * push_bit 7 sb"
    and r: "(e, q) = (if p < 0x2000000000000000 then (ea + eb - 0x7E - 1, push_bit 1 p) else (ea + eb - 0x7E, p))"
  shows "2 ^ 61 \<le> uint q" "uint q < 2 ^ 62" "2 ^ 14 dvd uint q" "- 200 \<le> e" "e \<le> 400"
    "enc_abs binary32 a * enc_abs binary32 b = of_int (uint q) * 2 powi (e - 188)"
proof -
  have m: "2 ^ 23 \<le> ma" "ma < 2 ^ 24" "2 ^ 23 \<le> mb" "mb < 2 ^ 24" "-23 < ea" "-23 < eb" "ea \<le> 256" "eb \<le> 256"
    using A B by (simp_all add: norm_operand_def)
  have pp: "2 ^ 23 * 2 ^ 23 \<le> ma * mb" "ma * mb < 2 ^ 24 * 2 ^ 24" using m by (intro mult_mono mult_strict_mono; simp)+
  have "uint (push_bit 7 sa) = ma * 2 ^ 7" "uint (push_bit 7 sb) = mb * 2 ^ 7" using m u by (subst uint_push_small; simp)+
  then have P: "uint p = ma * mb * 2 ^ 14" unfolding p using pp by (subst uint_mult_small) simp_all
  have lt: "p < 0x2000000000000000 \<longleftrightarrow> uint p < 2 ^ 61" by (simp add: word_less_uint)
  have v: "enc_abs binary32 a * enc_abs binary32 b = of_int (uint p) * 2 powi (ea + eb - 126 - 188)"
  proof -
    have "enc_abs binary32 a * enc_abs binary32 b = of_int (ma * mb) * (2 powi (ea - 150) * 2 powi (eb - 150))"
      using A B by (simp add: norm_operand_def)
    also have "2 powi (ea - 150) * 2 powi (eb - 150) = (2::real) powi (ea + eb - 300)"
      by (subst power_int_add [symmetric]) (simp_all add: algebra_simps)
    also have "\<dots> = 2 ^ 14 * 2 powi (ea + eb - 126 - 188)" using powi_down [of "ea + eb - 300" 14] by simp
    finally show ?thesis by (simp add: P)
  qed
  have q: "uint q = (if uint p < 2 ^ 61 then uint p * 2 else uint p)" "e = (if uint p < 2 ^ 61 then ea + eb - 127 else ea + eb - 126)"
    using r uint_push_small [of p 1] by (auto simp: lt split: if_splits)
  show "2 ^ 61 \<le> uint q" "uint q < 2 ^ 62" using pp by (auto simp: q P)
  show "2 ^ 14 dvd uint q" by (auto simp: q P)
  show "- 200 \<le> e" "e \<le> 400" using m by (auto simp: q)
  show "enc_abs binary32 a * enc_abs binary32 b = of_int (uint q) * 2 powi (e - 188)"
    unfolding v q using powi_down [of "ea + eb - 126 - 188" 1] by simp
qed

lemma mulAddF32_finite:
  assumes fin: "enc_finite binary32 (uint a)" "enc_finite binary32 (uint b)" "enc_finite binary32 (uint c)"
    and nz: "\<not> enc_zero binary32 (uint a)" "\<not> enc_zero binary32 (uint b)"
    and l: "uint a < 2 ^ 32" "uint b < 2 ^ 32" "uint c < 2 ^ 32"
  shows "ieee_mul_add binary32 (uint a) (uint b) (uint c) st (softfloat_mulAddF32 a b c 0 st)"
proof -
  define sp where "sp = (enc_sign binary32 (uint a) \<noteq> enc_sign binary32 (uint b))"
  obtain ea sa eb sb ec sc where ab: "softfloat_normArgF32 (expF32UI a) (fracF32UI a) = (ea, sa)"
    "softfloat_normArgF32 (expF32UI b) (fracF32UI b) = (eb, sb)" "softfloat_normArgF32 (expF32UI c) (fracF32UI c) = (ec, sc)" by force
  note A = normArgF32 [OF nz(1) ab(1)] and B = normArgF32 [OF nz(2) ab(2)]
  define p where "p = push_bit 7 (sa OR 0x00800000) * push_bit 7 (sb OR 0x00800000)"
  obtain e q where eq: "(e, q) = (if p < 0x2000000000000000 then (ea + eb - 0x7E - 1, push_bit 1 p) else (ea + eb - 0x7E, p))"
    by (cases "p < 0x2000000000000000") auto
  note Q = mulAddF32_product [OF A B refl refl p_def eq]
  have nz': "\<not> (expF32UI a = 0 \<and> fracF32UI a = 0)" "\<not> (expF32UI b = 0 \<and> fracF32UI b = 0)"
    "(expF32UI c = 0 \<and> fracF32UI c = 0) = enc_zero binary32 (uint c)"
    using nz by (auto simp: enc_zero_def expF32UI_enc fracF32UI_zero)
  have x: "expF32UI a \<noteq> 0xFF" "expF32UI b \<noteq> 0xFF" "expF32UI c \<noteq> 0xFF" using fin by (simp_all add: enc_finite_def expF32UI_enc)
  have sg: "signF32UI a = enc_sign binary32 (uint a)" "signF32UI b = enc_sign binary32 (uint b)"
    "(signF32UI c \<noteq> ((0 :: u8) = softfloat_mulAdd_subC)) = enc_sign binary32 (uint c)" "((0 :: u8) = softfloat_mulAdd_subProd) = False"
    using l by (simp_all add: signF32UI_enc softfloat_mulAdd_subC_def softfloat_mulAdd_subProd_def)
  have R: "softfloat_mulAddF32 a b c 0 st = (if enc_zero binary32 (uint c)
      then softfloat_roundPackToF32 sp (e - 1) (softfloat_shortShiftRightJam64 q 31) st
      else softfloat_mulAddF32_sum sp e q (enc_sign binary32 (uint c)) ec sc st)"
    unfolding softfloat_mulAddF32_def Let_def sg if_not_P [OF x(1)] if_not_P [OF x(2)] if_not_P [OF x(3)]
      if_not_P [OF nz'(1)] if_not_P [OF nz'(2)] nz'(3) ab prod.case p_def [symmetric] eq [symmetric] sp_def by simp
  show ?thesis
  proof (cases "enc_zero binary32 (uint c)")
    case True
    then have c0: "enc_abs binary32 (uint c) = 0" by (simp add: enc_abs_zero)
    have z: "uint (softfloat_shortShiftRightJam64 q 31) = jam_shift 31 (uint q)" by (simp add: uint_shortShiftRightJam64)
    have zr: "2 ^ 30 \<le> uint (softfloat_shortShiftRightJam64 q 31)" "uint (softfloat_shortShiftRightJam64 q 31) < 2 ^ 31"
      unfolding z using jam_shift_less(1) [of "2 ^ 30" 31 "uint q"] jam_shift_less(1) [of "2 ^ 31" 31 "uint q"] Q by simp_all
    have st: "sticky (2 ^ (7 - 1)) (of_int (uint q) / 2 ^ 31) (uint (softfloat_shortShiftRightJam64 q 31))"
      unfolding z by (rule sticky_jam [OF sticky_refl]) simp
    have "of_int (uint q) / 2 ^ 31 * 2 powi (e - 1 + fmt_qmin binary32 - int 7) = enc_abs binary32 (uint a) * enc_abs binary32 (uint b)"
      unfolding Q(6) using powi_down [of "e - 157" 31] by simp
    then have I: "ieee_result binary32 sp (enc_abs binary32 (uint a) * enc_abs binary32 (uint b)) st (softfloat_mulAddF32 a b c 0 st)"
      unfolding R using rp32.correct [OF st, of "e - 1" sp st] zr Q(4,5) True by simp
    have "0 < enc_abs binary32 (uint a) * enc_abs binary32 (uint b)" unfolding Q(6) using Q(1) by (intro mult_pos_pos) (simp_all only: of_int_0_less_iff, simp_all)
    then show ?thesis using I c0 by (intro mul_add_finite [OF fin sp_def refl]) auto
  next
    case False
    note C = normArgF32 [OF False ab(3)]
    have cb: "2 ^ 23 \<le> uint (sc OR 0x00800000)" "uint (sc OR 0x00800000) < 2 ^ 24" "- (2 ^ 13) \<le> ec" "ec < 2 ^ 13"
      and vc: "enc_abs binary32 (uint c) = of_int (uint (sc OR 0x00800000)) * 2 powi (ec - 150)"
      using C by (simp_all add: norm_operand_def)
    have ev: "even (uint q)" using Q(3) by (meson dvd_trans dvd_power zero_less_numeral)
    have eb: "- (2 ^ 13) \<le> e" "e < 2 ^ 13" using Q(4,5) by simp_all
    have R': "softfloat_mulAddF32 a b c 0 st = softfloat_mulAddF32_sum sp e q (enc_sign binary32 (uint c)) ec sc st"
      unfolding R using False by simp
    note S = mulAddF32_sum_same [OF refl Q(1,2) ev refl cb(1,2) eb cb(3,4) Q(6) vc]
      and O = mulAddF32_sum_opposite [OF refl Q(1,2) ev refl cb(1,2) eb cb(3,4) Q(6) vc]
    show ?thesis using S [of sp st] O [of st sp] unfolding R' by (intro mul_add_finite [OF fin sp_def refl]) simp_all
  qed
qed

lemma mulAddF32_zero:
  assumes fin: "enc_finite binary32 (uint a)" "enc_finite binary32 (uint b)" "enc_finite binary32 (uint c)"
    and z: "enc_zero binary32 (uint a) \<or> enc_zero binary32 (uint b)"
    and l: "uint a < 2 ^ 32" "uint b < 2 ^ 32" "uint c < 2 ^ 32"
  shows "ieee_mul_add binary32 (uint a) (uint b) (uint c) st (softfloat_mulAddF32 a b c 0 st)"
proof -
  define sp where "sp = (enc_sign binary32 (uint a) \<noteq> enc_sign binary32 (uint b))"
  define sc where "sc = enc_sign binary32 (uint c)"
  have vp: "enc_abs binary32 (uint a) * enc_abs binary32 (uint b) = 0" using z by (auto simp: enc_abs_zero)
  have sg: "signF32UI a = enc_sign binary32 (uint a)" "signF32UI b = enc_sign binary32 (uint b)"
    "(signF32UI c \<noteq> ((0 :: u8) = softfloat_mulAdd_subC)) = sc" "((0 :: u8) = softfloat_mulAdd_subProd) = False"
    using l by (simp_all add: signF32UI_enc softfloat_mulAdd_subC_def softfloat_mulAdd_subProd_def sc_def)
  have R: "softfloat_mulAddF32 a b c 0 st = (if enc_zero binary32 (uint c) \<and> sp \<noteq> sc
      then (ucast (packToF32UI (softfloat_roundingMode st = softfloat_round_min) 0 0), st) else (ucast c, st))"
    using fin z unfolding softfloat_mulAddF32_def Let_def sg exp_or_frac32 sp_def
    by (auto simp: enc_zero_def enc_finite_def expF32UI_enc fracF32UI_zero split: prod.splits)
  have uc: "uint (ucast c :: u32) = uint c" using l by (simp add: uint_ucast_small)
  have I: "ieee_result binary32 sc (enc_abs binary32 (uint c)) st (ucast c :: u32, st)"
    by (rule rp32.exact_result) (use fin uc in \<open>simp_all add: sc_def\<close>)
  have Z: "ieee_result binary32 r 0 st (ucast (packToF32UI r 0 0) :: u32, st)" for r
    by (rule rp32.zero_result) (subst uint_packToF32UI, simp_all)
  have pos: "enc_zero binary32 (uint c) = (enc_abs binary32 (uint c) = 0)" "0 \<le> enc_abs binary32 (uint c)"
    by (simp_all add: enc_abs_zero enc_abs_nonneg)
  show ?thesis
    by (rule mul_add_finite [OF fin sp_def refl]) (use I Z R pos in \<open>auto simp: vp sc_def\<close>)
qed

lemma mulAddF32_special:
  assumes fin: "\<not> (enc_finite binary32 (uint a) \<and> enc_finite binary32 (uint b) \<and> enc_finite binary32 (uint c))"
    and l: "uint a < 2 ^ 32" "uint b < 2 ^ 32" "uint c < 2 ^ 32"
  shows "ieee_mul_add binary32 (uint a) (uint b) (uint c) st (softfloat_mulAddF32 a b c 0 st)"
proof -
  define sp where "sp = (enc_sign binary32 (uint a) \<noteq> enc_sign binary32 (uint b))"
  define sc where "sc = enc_sign binary32 (uint c)"
  have sg: "signF32UI a = enc_sign binary32 (uint a)" "signF32UI b = enc_sign binary32 (uint b)"
    "(signF32UI c \<noteq> ((0 :: u8) = softfloat_mulAdd_subC)) = sc" "((0 :: u8) = softfloat_mulAdd_subProd) = False"
    "((enc_sign binary32 (uint a) \<noteq> enc_sign binary32 (uint b)) \<noteq> False) = sp"
    using l by (simp_all add: signF32UI_enc softfloat_mulAdd_subC_def softfloat_mulAdd_subProd_def sc_def sp_def)
  have P: "uint (packToF32UI s 0xFF 0) = enc_make binary32 s 255 0" "uint (ucast (packToF32UI s 0xFF 0) :: u32) = enc_make binary32 s 255 0" for s
    by (subst uint_packToF32UI; simp)+
  have snan: "\<not> enc_snan binary32 (enc_make binary32 s 255 0)" "\<not> enc_snan binary32 0x7FC00000"
    "\<not> enc_snan binary32 0" for s
    using enc_make_fields(3) [of 255 binary32 0 s] by (simp_all add: enc_snan_def enc_nan_def enc_frac_def enc_exp_def)
  have I: "inf_result binary32 s st (ucast (packToF32UI s 0xFF 0) :: u32, st)" for s
    unfolding inf_result_def fst_conv P(2) by simp
  have uc: "inf_result binary32 sc st (ucast c :: u32, st)" if "enc_exp binary32 (uint c) = 255" "enc_frac binary32 (uint c) = 0"
    using enc_make_self [of "uint c" binary32] that l by (simp add: inf_result_def uint_ucast_small sc_def)
  have D: "nan_result binary32 i st (ucast defaultNaNF32UI :: u32, if i then softfloat_raiseFlags softfloat_flag_invalid st else st)" for i
    by (simp add: nan_result_def enc_make_def)
  note D' = D [of True, unfolded if_True] D [of False, unfolded if_False]
  note spec = ieee_mul_add_def [of binary32 "uint a" "uint b" "uint c" st] enc_nan_def enc_inf_def enc_zero_def enc_finite_def
  note code = softfloat_mulAddF32_def softfloat_propagateNaNF32UI_def isSigNaNF32UI_enc
  show ?thesis
    using fin uc I D' D
    unfolding code Let_def sg exp_or_frac32 spec sp_def [symmetric] sc_def [symmetric] prod.case P(1)
    by (cases "enc_exp binary32 (uint a) = 255"; cases "enc_exp binary32 (uint b) = 255"; cases "enc_exp binary32 (uint c) = 255";
        cases "enc_frac binary32 (uint a) = 0"; cases "enc_frac binary32 (uint b) = 0"; cases "enc_frac binary32 (uint c) = 0")
       (simp_all add: expF32UI_enc fracF32UI_zero snan)
qed

lemma f32_mulAdd_ieee: "ieee_mul_add binary32 (uint a) (uint b) (uint c) st (f32_mulAdd a b c st)"
proof -
  let ?A = "ucast a :: u64" and ?B = "ucast b :: u64" and ?C = "ucast c :: u64"
  have u: "uint ?A = uint a" "uint ?B = uint b" "uint ?C = uint c" by (simp_all add: uint_ucast_up)
  have l: "uint ?A < 2 ^ 32" "uint ?B < 2 ^ 32" "uint ?C < 2 ^ 32"
    unfolding u using uint_lt2p [of a] uint_lt2p [of b] uint_lt2p [of c] by simp_all
  from mulAddF32_special [OF _ l] mulAddF32_zero [OF _ _ _ _ l] mulAddF32_finite [OF _ _ _ _ _ l]
  show ?thesis unfolding f32_mulAdd_def u by blast
qed

end
