(* ===== verification/Softfloat_MulAddF64.thy ===== *)
theory Softfloat_MulAddF64
  imports Softfloat_MulAddF32
begin

text \<open>
  The double-precision fused multiply-add: \<^verbatim>\<open>s_mulAddF64.c\<close> in the version for 64-bit
  integers and \<^verbatim>\<open>f64_mulAdd.c\<close>. The product has 128 bits; when it is smaller than the addend
  only its high half is shifted, and \<^verbatim>\<open>sig128C\<close> is only used when the addend is the smaller one.
\<close>

section \<open>The operations\<close>

definition softfloat_mulAddF64_normalise ::
  "bool \<Rightarrow> int \<Rightarrow> uint128 \<Rightarrow> softfloat_state \<Rightarrow> u64 \<times> softfloat_state" where
  "softfloat_mulAddF64_normalise signZ expZ sig128Z st =
     (let (expZ, sig128Z) =
            (if v64 sig128Z = 0 then (expZ - 64, \<lparr>v0 = 0, v64 = v0 sig128Z\<rparr>) else (expZ, sig128Z));
          shiftCount = uint (softfloat_countLeadingZeros64 (v64 sig128Z)) - 1;
          expZ = expZ - shiftCount;
          (sig128Z, sigZ) =
            (if shiftCount < 0
             then (sig128Z, softfloat_shortShiftRightJam64 (v64 sig128Z) (nat (- shiftCount)))
             else let sig128Z = softfloat_shortShiftLeft128 (v64 sig128Z) (v0 sig128Z) (word_of_int shiftCount)
                  in (sig128Z, v64 sig128Z));
          sigZ = sigZ OR of_bool (v0 sig128Z \<noteq> 0)
      in softfloat_roundPackToF64 signZ expZ sigZ st)"

definition softfloat_mulAddF64_sum ::
  "bool \<Rightarrow> int \<Rightarrow> uint128 \<Rightarrow> bool \<Rightarrow> int \<Rightarrow> u64 \<Rightarrow> softfloat_state \<Rightarrow> u64 \<times> softfloat_state" where
  "softfloat_mulAddF64_sum signZ expZ sig128Z signC expC sigC st =
     (let sigC = push_bit 9 (sigC OR 0x0010000000000000);
          expDiff = expZ - expC;
          (expZ, sig128Z) =
            (if expDiff < 0
             then (expC,
                   if signZ = signC \<or> expDiff < - 1
                   then sig128Z\<lparr>v64 := softfloat_shiftRightJam64 (v64 sig128Z) (word_of_int (- expDiff))\<rparr>
                   else softfloat_shortShiftRightJam128 (v64 sig128Z) (v0 sig128Z) 1)
             else (expZ, sig128Z));
          sig128C = softfloat_shiftRightJam128 sigC 0 (word_of_int expDiff)
      in if signZ = signC
         then let sigZ =
                    (if expDiff \<le> 0 then (sigC + v64 sig128Z) OR of_bool (v0 sig128Z \<noteq> 0)
                     else let sig128Z = softfloat_add128 (v64 sig128Z) (v0 sig128Z) (v64 sig128C) (v0 sig128C)
                          in v64 sig128Z OR of_bool (v0 sig128Z \<noteq> 0));
                  (expZ, sigZ) =
                    (if sigZ < 0x4000000000000000 then (expZ - 1, push_bit 1 sigZ) else (expZ, sigZ))
              in softfloat_roundPackToF64 signZ expZ sigZ st
         else let finish = (\<lambda>signZ sig128Z. softfloat_mulAddF64_normalise signZ expZ sig128Z st)
              in if expDiff < 0
                 then finish signC (softfloat_sub128 sigC 0 (v64 sig128Z) (v0 sig128Z))
                 else if expDiff = 0
                 then let sig128Z = sig128Z\<lparr>v64 := v64 sig128Z - sigC\<rparr>
                      in if v64 sig128Z OR v0 sig128Z = 0
                         then (packToF64UI (softfloat_roundingMode st = softfloat_round_min) 0 0, st)
                         else if v64 sig128Z AND 0x8000000000000000 \<noteq> 0
                         then finish (\<not> signZ) (softfloat_sub128 0 0 (v64 sig128Z) (v0 sig128Z))
                         else finish signZ sig128Z
                 else finish signZ (softfloat_sub128 (v64 sig128Z) (v0 sig128Z) (v64 sig128C) (v0 sig128C)))"

definition softfloat_mulAddF64 ::
  "u64 \<Rightarrow> u64 \<Rightarrow> u64 \<Rightarrow> u8 \<Rightarrow> softfloat_state \<Rightarrow> u64 \<times> softfloat_state" where
  "softfloat_mulAddF64 uiA uiB uiC op st =
     (let signA = signF64UI uiA; expA = expF64UI uiA; sigA = fracF64UI uiA;
          signB = signF64UI uiB; expB = expF64UI uiB; sigB = fracF64UI uiB;
          signC = (signF64UI uiC \<noteq> (op = softfloat_mulAdd_subC)); expC = expF64UI uiC; sigC = fracF64UI uiC;
          signZ = ((signA \<noteq> signB) \<noteq> (op = softfloat_mulAdd_subProd));
          propagateNaN_ZC = (\<lambda>z st. softfloat_propagateNaNF64UI z uiC st);
          propagateNaN_ABC = (let (z, st) = softfloat_propagateNaNF64UI uiA uiB st in propagateNaN_ZC z st);
          invalid = propagateNaN_ZC defaultNaNF64UI (softfloat_raiseFlags softfloat_flag_invalid st);
          infProdArg = (\<lambda>magBits :: u64.
            if magBits \<noteq> 0
            then let z = packToF64UI signZ 0x7FF 0
                 in if expC \<noteq> 0x7FF then (z, st)
                    else if sigC \<noteq> 0 then propagateNaN_ZC z st
                    else if signZ = signC then (z, st)
                    else invalid
            else invalid);
          zeroProd = (if word_of_int expC OR sigC = 0 \<and> signZ \<noteq> signC
                      then (packToF64UI (softfloat_roundingMode st = softfloat_round_min) 0 0, st)
                      else (uiC, st))
      in if expA = 0x7FF
         then if sigA \<noteq> 0 \<or> (expB = 0x7FF \<and> sigB \<noteq> 0) then propagateNaN_ABC
              else infProdArg (word_of_int expB OR sigB)
         else if expB = 0x7FF
         then if sigB \<noteq> 0 then propagateNaN_ABC else infProdArg (word_of_int expA OR sigA)
         else if expC = 0x7FF
         then if sigC \<noteq> 0 then propagateNaN_ZC 0 st else (uiC, st)
         else if expA = 0 \<and> sigA = 0 then zeroProd
         else let (expA, sigA) = softfloat_normArgF64 expA sigA
              in if expB = 0 \<and> sigB = 0 then zeroProd
         else let (expB, sigB) = softfloat_normArgF64 expB sigB;
                  expZ = expA + expB - 0x3FE;
                  sigA = push_bit 10 (sigA OR 0x0010000000000000);
                  sigB = push_bit 10 (sigB OR 0x0010000000000000);
                  sig128Z = softfloat_mul64To128 sigA sigB;
                  (expZ, sig128Z) =
                    (if v64 sig128Z < 0x2000000000000000
                     then (expZ - 1, softfloat_add128 (v64 sig128Z) (v0 sig128Z) (v64 sig128Z) (v0 sig128Z))
                     else (expZ, sig128Z))
              in if expC = 0 \<and> sigC = 0
                 then softfloat_roundPackToF64 signZ (expZ - 1)
                        (push_bit 1 (v64 sig128Z) OR of_bool (v0 sig128Z \<noteq> 0)) st
                 else let (expC, sigC) = softfloat_normArgF64 expC sigC
                      in softfloat_mulAddF64_sum signZ expZ sig128Z signC expC sigC st)"

definition f64_mulAdd :: "u64 \<Rightarrow> u64 \<Rightarrow> u64 \<Rightarrow> softfloat_state \<Rightarrow> u64 \<times> softfloat_state" where
  "f64_mulAdd a b c st = softfloat_mulAddF64 a b c 0 st"

section \<open>Aligned sums are correct\<close>

lemma mulAddF64_normalise:
  assumes n: "u128 w = n" "0 < n" "n < 2 ^ 126"
    and y: "y = of_int n \<or> sticky g y n \<and> g dvd 2 ^ 65 \<and> 2 ^ 124 \<le> n"
    and e: "- (2 ^ 14) \<le> e" "e < 2 ^ 15" and x: "x = y * 2 powi (e - 1148)"
  shows "ieee_result binary64 s x st (softfloat_mulAddF64_normalise s e w st)"
proof -
  have "\<exists>c z. 2 ^ 126 \<le> n * 2 ^ c \<and> n * 2 ^ c < 2 ^ 127 \<and> c \<le> 127 \<and> uint z = jam_shift 64 (n * 2 ^ c) \<and>
    softfloat_mulAddF64_normalise s e w st = softfloat_roundPackToF64 s (e - int c) z st"
  proof (cases "v64 w = 0")
    case True
    then have v: "uint (v0 w) = n" using n(1) by (simp add: u128_def)
    then have "v0 w \<noteq> 0" using n by auto
    from countLeadingZeros64 [OF this] obtain d where d: "d \<le> 63" "uint (softfloat_countLeadingZeros64 (v0 w)) = int d"
      "2 ^ 63 \<le> n * 2 ^ d" "n * 2 ^ d < 2 ^ 64" unfolding v .
    have pc: "n * 2 ^ (63 + d) = n * 2 ^ d * 2 ^ 63" by (simp add: power_add)
    show ?thesis
    proof (cases "d = 0")
      case True
      have "softfloat_mulAddF64_normalise s e w st = softfloat_roundPackToF64 s (e - 63) (softfloat_shortShiftRightJam64 (v0 w) 1) st"
        using True d(2) \<open>v64 w = 0\<close> by (simp add: softfloat_mulAddF64_normalise_def)
      then show ?thesis using d True v jam_shift_scaled(1) [of 63 64 n]
        by (intro exI [of _ 63] exI [of _ "softfloat_shortShiftRightJam64 (v0 w) 1"]) (simp add: uint_shortShiftRightJam64)
    next
      case False
      then obtain t where t: "d = Suc t" by (cases d) auto
      have u: "uint (push_bit t (v0 w)) = n * 2 ^ t" using d t v by (subst uint_push_small) simp_all
      have "softfloat_mulAddF64_normalise s e w st = softfloat_roundPackToF64 s (e - int (64 + t)) (push_bit t (v0 w)) st"
        using t d(1,2) \<open>v64 w = 0\<close>
        by (simp add: softfloat_mulAddF64_normalise_def softfloat_shortShiftLeft128_def unat_of_nat algebra_simps)
      then show ?thesis using d t u jam_shift_scaled(2) [of 64 "64 + t" n]
        by (intro exI [of _ "64 + t"] exI [of _ "push_bit t (v0 w)"]) (simp add: power_add)
    qed
  next
    case False
    from countLeadingZeros64 [OF this] obtain d where d: "d \<le> 63" "uint (softfloat_countLeadingZeros64 (v64 w)) = int d"
      "2 ^ 63 \<le> uint (v64 w) * 2 ^ d" "uint (v64 w) * 2 ^ d < 2 ^ 64" .
    have "uint (v64 w) * 2 ^ 64 \<le> n" unfolding n(1) [symmetric] u128_def by simp
    also have "n < 2 ^ 62 * 2 ^ 64" using n(3) by simp
    finally have h: "uint (v64 w) < 2 ^ 62" by (rule mult_right_less_imp_less) simp
    have "d \<noteq> 0" "d \<noteq> 1" using d(3) h by (intro notI; simp)+
    then obtain t where t: "d = Suc t" "0 < t" "t < 64" using d(1) by (cases d) auto
    define z where "z = softfloat_shortShiftLeft128 (v64 w) (v0 w) (of_nat t)"
    have "u128 z = n * 2 ^ t"
      unfolding z_def n(1) [symmetric] using d(4) t by (subst shortShiftLeft128_correct) (simp_all add: u128_def)
    then have zz: "uint (v64 z OR of_bool (v0 z \<noteq> 0)) = jam_shift 64 (n * 2 ^ t)" by (simp only: u128_jam)
    have R: "softfloat_mulAddF64_normalise s e w st = softfloat_roundPackToF64 s (e - int t) (v64 z OR of_bool (v0 z \<noteq> 0)) st"
      using t d(1,2) False by (simp add: softfloat_mulAddF64_normalise_def z_def Let_def)
    have l: "0 \<le> uint (v0 w)" "uint (v0 w) < 2 ^ 64" using uint_lt2p [of "v0 w"] by simp_all
    have hr: "2 ^ 62 \<le> uint (v64 w) * 2 ^ t" "uint (v64 w) * 2 ^ t < 2 ^ 63" using d(3,4) t by simp_all
    have n': "n * 2 ^ t = uint (v64 w) * 2 ^ t * 2 ^ 64 + uint (v0 w) * 2 ^ t"
      unfolding n(1) [symmetric] u128_def by (simp add: algebra_simps)
    have lo: "2 ^ 126 \<le> n * 2 ^ t" using hr(1) l unfolding n' by (intro order_trans [OF _ le_add_same_cancel1 [THEN iffD2]]) simp_all
    have hi: "n * 2 ^ t < 2 ^ 127"
    proof -
      have p: "2 ^ (63 - t) * 2 ^ t = (2::int) ^ 63" using t by (simp flip: power_add)
      have "uint (v64 w) * 2 ^ t < 2 ^ (63 - t) * 2 ^ t" unfolding p by (rule hr(2))
      then have "uint (v64 w) < 2 ^ (63 - t)" by simp
      then have "n < 2 ^ (63 - t) * 2 ^ 64" unfolding n(1) [symmetric] u128_def using split_less [OF l] by simp
      then have "n * 2 ^ t < 2 ^ (63 - t) * 2 ^ 64 * 2 ^ t" by (intro mult_strict_right_mono) simp_all
      also have "\<dots> = 2 ^ 63 * 2 ^ 64" by (simp only: p [symmetric] mult_ac)
      finally show ?thesis by simp
    qed
    show ?thesis by (intro exI [of _ t] exI [of _ "v64 z OR of_bool (v0 z \<noteq> 0)"]) (use R zz lo hi t in simp)
  qed
  then obtain c z where r: "2 ^ 126 \<le> n * 2 ^ c" "n * 2 ^ c < 2 ^ 127" "c \<le> 127" "uint z = jam_shift 64 (n * 2 ^ c)"
    "softfloat_mulAddF64_normalise s e w st = softfloat_roundPackToF64 s (e - int c) z st" by blast
  show ?thesis unfolding r(5)
    by (rule rp64.correct_wide [where w = 64 and n = n and c = c and y = y and g = g])
       (use r y e x in simp_all)
qed

lemma mulAddF64_sum_same:
  assumes P: "u128 sp = P" "2 ^ 125 \<le> P" "P < 2 ^ 126" "even P" and C: "uint (sc OR 0x0010000000000000) = mc" "2 ^ 52 \<le> mc" "mc < 2 ^ 53"
    and e: "- (2 ^ 13) \<le> ep" "ep < 2 ^ 13" "- (2 ^ 13) \<le> ec" "ec < 2 ^ 13"
    and v: "vp = of_int P * 2 powi (ep - 1148)" "vc = of_int mc * 2 powi (ec - 1075)"
  shows "ieee_result binary64 s (vp + vc) st (softfloat_mulAddF64_sum s ep sp s ec sc st)"
proof -
  define c where "c = push_bit 9 (sc OR 0x0010000000000000)"
  have c: "uint c = mc * 2 ^ 9" "u128 \<lparr>v0 = 0, v64 = c\<rparr> = mc * 2 ^ 9 * 2 ^ 64"
    using C by (simp_all add: c_def uint_push_small u128_def)
  have vc: "vc = of_int (mc * 2 ^ 9) * 2 powi (ec - 1084)" using powi_down [of "ec - 1075" 9] by (simp add: v(2))
  have vp: "vp = of_int P / 2 ^ 64 * 2 powi (ep - 1084)" using powi_down [of "ep - 1084" 64] by (simp add: v(1))
  define h where "h = (if ep < ec then softfloat_shiftRightJam64 (v64 sp) (word_of_int (- (ep - ec))) else v64 sp)"
  define a where "a = softfloat_add128 (v64 sp) (v0 sp) (v64 (softfloat_shiftRightJam128 c 0 (word_of_int (ep - ec))))
    (v0 (softfloat_shiftRightJam128 c 0 (word_of_int (ep - ec))))"
  define z where "z = (if ep - ec \<le> 0 then (c + h) OR of_bool (v0 sp \<noteq> 0) else v64 a OR of_bool (v0 a \<noteq> 0))"
  define E where "E = max ep ec"
  have lt: "z < 0x4000000000000000 \<longleftrightarrow> uint z < 2 ^ 62" by (simp add: word_less_uint)
  have R: "softfloat_mulAddF64_sum s ep sp s ec sc st = softfloat_roundPackToF64 s
      (if uint z < 2 ^ 62 then E - 1 else E) (if uint z < 2 ^ 62 then push_bit 1 z else z) st"
    unfolding softfloat_mulAddF64_sum_def Let_def c_def [symmetric] lt [symmetric]
    by (cases "ep < ec"; cases "ep = ec") (simp_all add: z_def a_def h_def E_def max_def)
  have "\<exists>y. sticky 2 y (uint z) \<and> 2 ^ 61 \<le> uint z \<and> uint z < 2 ^ 63 \<and> vp + vc = y * 2 powi (E - 1084)"
  proof (cases "ep \<le> ec")
    case True
    define D where "D = nat (ec - ep)"
    have D: "ep - 1084 = ec - 1084 - int D" using True by (simp add: D_def)
    have H: "uint (v64 sp) < 2 ^ 62"
    proof -
      have "uint (v64 sp) * 2 ^ 64 + uint (v0 sp) < 2 ^ 62 * 2 ^ 64" using P(1,3) by (simp add: u128_def)
      then show ?thesis using split_less [OF u128_parts(2,3)] by blast
    qed
    have h: "uint h = jam_shift D (uint (v64 sp))"
      using True e uint_jam64 [of "ec - ep" "v64 sp"] by (cases "ep = ec") (simp_all add: h_def D_def)
    have j: "0 \<le> uint h" "uint h < 2 ^ 62" using jam_shift_bounds [of "uint (v64 sp)" 62 0 D] H by (simp_all add: h)
    define J where "J = jam_shift 64 (uint h * 2 ^ 64 + uint (v0 sp))"
    have J: "J = uint h + of_bool (v0 sp \<noteq> 0 \<and> even (uint h))"
      unfolding J_def jam_shift_def using u128_parts(2,3) [of sp] by simp
    have ch: "uint (c + h) = mc * 2 ^ 9 + uint h" using j C c by (subst uint_add_small) simp_all
    have z: "uint z = mc * 2 ^ 9 + J" using True by (simp add: z_def uint_or_one ch J)
    have "sticky (2 ^ (64 + 1)) (of_int P / 2 ^ D) (uint h * 2 ^ 64 + uint (v0 sp))"
      unfolding P(1) [symmetric] h u128_parts(4) [of sp] by (rule sticky_high_part [OF u128_parts(2,3)])
    then have "sticky (2 ^ 1) (of_int P / 2 ^ D / 2 ^ 64) J" unfolding J_def by (rule sticky_jam_wide) simp
    then have "sticky 2 (of_int (mc * 2 ^ 9) + of_int P / 2 ^ D / 2 ^ 64) (uint z)"
      unfolding z by (intro sticky_add) simp_all
    moreover have "vp + vc = (of_int (mc * 2 ^ 9) + of_int P / 2 ^ D / 2 ^ 64) * 2 powi (E - 1084)"
      unfolding vp vc D powi_down using True by (simp add: E_def max_def field_simps)
    moreover have "0 \<le> J" "J \<le> 2 ^ 62" unfolding J using j by simp_all
    then have "2 ^ 61 \<le> uint z" "uint z < 2 ^ 63" unfolding z using C(2,3) by simp_all
    ultimately show ?thesis by blast
  next
    case False
    define D where "D = nat (ep - ec)"
    have D: "1 \<le> D" "ec - 1084 = ep - 1084 - int D" using False by (simp_all add: D_def)
    have uD: "unat (word_of_int (ep - ec) :: u64) = D" unfolding D_def using False e by (intro unat_word_of_int) simp_all
    let ?C = "mc * 2 ^ 9 * 2 ^ 64"
    have j: "0 \<le> jam_shift D ?C" "jam_shift D ?C < 2 ^ (126 - 1)" using jam_shift_bounds [of ?C 126 1 D] C D by simp_all
    define n where "n = P + jam_shift D ?C"
    have "u128 a = n mod 2 ^ 128"
      unfolding a_def add128_correct u128_surjective n_def P(1) using shiftRightJam128_correct [of "word_of_int (ep - ec)" c 0] D uD c by simp
    then have "u128 a = n" using j P by (simp add: n_def)
    then have z: "uint z = jam_shift 64 n" using False by (simp add: z_def u128_jam)
    have "2 ^ 61 * 2 ^ 64 \<le> n" "n < 2 ^ 63 * 2 ^ 64" using j P by (simp_all add: n_def)
    then have "2 ^ 61 \<le> uint z" "uint z < 2 ^ 63" unfolding z using jam_shift_less(1) [of _ 64 n] by (simp_all add: not_less [symmetric])
    moreover have "sticky 2 ((of_int P + of_int ?C / 2 ^ D) / 2 ^ 64) (uint z)"
      unfolding z n_def using P(4) by (intro sticky_jam sticky_add sticky_jam [OF sticky_refl]) simp_all
    moreover have "vp + vc = (of_int P + of_int ?C / 2 ^ D) / 2 ^ 64 * 2 powi (E - 1084)"
      unfolding vp vc D(2) powi_down using False by (simp add: E_def max_def field_simps)
    ultimately show ?thesis by blast
  qed
  then obtain y where y: "sticky 2 y (uint z)" "2 ^ 61 \<le> uint z" "uint z < 2 ^ 63" "vp + vc = y * 2 powi (E - 1084)" by blast
  have sg: "uint (if uint z < 2 ^ 62 then push_bit 1 z else z) = (if uint z < 2 ^ 62 then 2 * uint z else uint z)"
    using uint_push_small [of z 1] by (simp del: push_bit_of_1)
  have "sticky (2 ^ (10 - 2)) y (uint z)" by (rule sticky_coarser [OF y(1)]) simp
  then show ?thesis unfolding R
    by (rule rp64.correct_norm1 [where n = "uint z" and e = E, rotated]) (use y e sg in \<open>simp_all add: E_def\<close>)
qed

text \<open>The product is subtracted from the larger addend.\<close>

lemma mulAddF64_shifted_product:
  assumes P: "u128 w = P" "2 ^ 125 \<le> P" "P < 2 ^ 126" "even P" and D: "1 \<le> D" "D < 2 ^ 15"
    and B: "2 ^ 125 \<le> B" "B < 2 ^ 126" "2 ^ 65 dvd B"
    and j: "j = (if 1 < D then w\<lparr>v64 := softfloat_shiftRightJam64 (v64 w) (word_of_int (int D))\<rparr>
      else softfloat_shortShiftRightJam128 (v64 w) (v0 w) 1)"
    and y: "y = of_int B - of_int P / 2 ^ D" and n: "n = B - u128 j"
  shows "0 < n" "n < 2 ^ 126" "0 < y" "y = of_int n \<or> sticky (2 ^ 65) y n \<and> (2 :: int) ^ 65 dvd 2 ^ 65 \<and> 2 ^ 124 \<le> n"
proof -
  have *: "0 < n \<and> n < 2 ^ 126 \<and> 0 < y \<and> (y = of_int n \<or> sticky (2 ^ 65) y n \<and> 2 ^ 124 \<le> n)"
  proof (cases "1 < D")
    case False
    then have "D = 1" using D by simp
    have "u128 j = jam_shift 1 P" using shortShiftRightJam128_correct [of 1 "v64 w" "v0 w"] \<open>D = 1\<close> P(1) by (simp add: j)
    moreover from P(4) obtain m where m: "P = 2 * m" ..
    ultimately have "u128 j = m" by (simp add: jam_shift_def)
    then show ?thesis using P B u128_range(1) [of j] \<open>D = 1\<close> by (simp add: n y m)
  next
    case True
    have uD: "unat (word_of_int (int D) :: u64) = D" using D by (subst unat_word_of_int) simp_all
    then have J: "u128 j = jam_shift D (uint (v64 w)) * 2 ^ 64 + uint (v0 w)"
      using True uint_shiftRightJam64 [of "word_of_int (int D)" "v64 w"] by (simp add: j u128_def)
    have "uint (v64 w) * 2 ^ 64 + uint (v0 w) < 2 ^ 62 * 2 ^ 64" using P(1,3) by (simp add: u128_def)
    then have "uint (v64 w) < 2 ^ 62" using split_less [OF u128_parts(2,3)] by blast
    then have "jam_shift D (uint (v64 w)) < 2 ^ 60" using jam_shift_bounds(2) [of "uint (v64 w)" 62 2 D] True by simp
    then have "u128 j < 2 ^ 60 * 2 ^ 64" unfolding J using split_less [OF u128_parts(2,3)] by blast
    then have nr: "2 ^ 124 \<le> n" "n < 2 ^ 126" using B u128_range(1) [of j] by (simp_all add: n)
    have "sticky (2 ^ (64 + 1)) (of_int P / 2 ^ D) (u128 j)"
      unfolding P(1) [symmetric] J u128_parts(4) [of w] by (rule sticky_high_part [OF u128_parts(2,3)])
    then have st: "sticky (2 ^ 65) y n" unfolding y n using B(3) by (intro sticky_diff) simp_all
    moreover have "0 < y" using stickyD(2) [OF st, of 0] nr by simp
    ultimately show ?thesis using nr by simp
  qed
  then show "0 < n" "n < 2 ^ 126" "0 < y" "y = of_int n \<or> sticky (2 ^ 65) y n \<and> (2 :: int) ^ 65 dvd 2 ^ 65 \<and> 2 ^ 124 \<le> n" by auto
qed

lemma mulAddF64_sum_opposite:
  assumes P: "u128 sp = P" "2 ^ 125 \<le> P" "P < 2 ^ 126" "even P" and C: "uint (sc OR 0x0010000000000000) = mc" "2 ^ 52 \<le> mc" "mc < 2 ^ 53"
    and e: "- (2 ^ 13) \<le> ep" "ep < 2 ^ 13" "- (2 ^ 13) \<le> ec" "ec < 2 ^ 13"
    and v: "vp = of_int P * 2 powi (ep - 1148)" "vc = of_int mc * 2 powi (ec - 1075)"
  shows "ieee_result binary64 (if vp = vc then softfloat_roundingMode st = softfloat_round_min else if vc < vp then s else \<not> s)
    \<bar>vp - vc\<bar> st (softfloat_mulAddF64_sum s ep sp (\<not> s) ec sc st)"
proof -
  define c where "c = push_bit 9 (sc OR 0x0010000000000000)"
  define B where "B = mc * 2 ^ 73"
  have uc: "uint c = mc * 2 ^ 9" using C by (simp add: c_def uint_push_small)
  have c: "u128 \<lparr>v0 = 0, v64 = c\<rparr> = B" "2 ^ 125 \<le> B" "B < 2 ^ 126" "even B" "2 ^ 65 dvd B"
    using C uc by (simp_all add: B_def u128_def)
  have vc: "vc = of_int B * 2 powi (ec - 1148)" using powi_down [of "ec - 1075" 73] by (simp add: v(2) B_def)
  note R = softfloat_mulAddF64_sum_def [of s ep sp "\<not> s" ec sc st]
  consider "ep < ec" | "ec < ep" | "ec = ep" by linarith
  then show ?thesis
  proof cases
    case 1
    define D where "D = nat (ec - ep)"
    have D: "1 \<le> D" "D < 2 ^ 15" "ep - 1148 = ec - 1148 - int D" "- (ep - ec) = int D" "(ep - ec < -1) = (1 < D)"
      using 1 e by (simp_all add: D_def) linarith+
    define j where "j = (if 1 < D then sp\<lparr>v64 := softfloat_shiftRightJam64 (v64 sp) (word_of_int (int D))\<rparr>
      else softfloat_shortShiftRightJam128 (v64 sp) (v0 sp) 1)"
    define y :: real where "y = of_int B - of_int P / 2 ^ D"
    define n where "n = B - u128 j"
    note sh = mulAddF64_shifted_product [OF P D(1,2) c(2,3,5) j_def y_def n_def]
    have n: "u128 (softfloat_sub128 c 0 (v64 j) (v0 j)) = n"
      using sh(1) by (subst sub128_value) (simp_all add: c n_def)
    have x: "vc - vp = y * 2 powi (ec - 1148)" unfolding v(1) vc D(3) powi_down by (simp add: y_def left_diff_distrib)
    then have "vp < vc" using sh(3) by (simp add: algebra_simps)
    moreover have "softfloat_mulAddF64_sum s ep sp (\<not> s) ec sc st
        = softfloat_mulAddF64_normalise (\<not> s) ec (softfloat_sub128 c 0 (v64 j) (v0 j)) st"
      unfolding R Let_def c_def [symmetric] D(4,5) using 1 by (simp add: j_def)
    ultimately show ?thesis using mulAddF64_normalise [OF n sh(1,2,4) _ _ x, of "\<not> s" st] e by simp
  next
    case 2
    define D where "D = nat (ep - ec)"
    have D: "1 \<le> D" "ec - 1148 = ep - 1148 - int D" using 2 by (simp_all add: D_def)
    have uD: "unat (word_of_int (ep - ec) :: u64) = D" unfolding D_def using 2 e by (intro unat_word_of_int) simp_all
    define j where "j = softfloat_shiftRightJam128 c 0 (word_of_int (ep - ec))"
    have J: "u128 j = jam_shift D B" using shiftRightJam128_correct [of "word_of_int (ep - ec)" c 0] D(1) uD c(1) by (simp add: j_def)
    define n where "n = P - jam_shift D B"
    define y :: real where "y = of_int P - of_int B / 2 ^ D"
    have wd: "0 < n" "n < 2 ^ 126" "0 < y" "y = of_int n \<or> sticky 2 y n \<and> 2 dvd (2 :: int) ^ 65 \<and> 2 ^ 124 \<le> n"
      using wide_difference [of 126 P B D n y] P c D n_def y_def by simp_all
    have n: "u128 (softfloat_sub128 (v64 sp) (v0 sp) (v64 j) (v0 j)) = n"
      using wd(1) by (subst sub128_value) (simp_all add: P J n_def)
    have x: "vp - vc = y * 2 powi (ep - 1148)" unfolding v(1) vc D(2) powi_down by (simp add: y_def left_diff_distrib)
    then have "vc < vp" using wd(3) by (simp add: algebra_simps)
    moreover have "softfloat_mulAddF64_sum s ep sp (\<not> s) ec sc st
        = softfloat_mulAddF64_normalise s ep (softfloat_sub128 (v64 sp) (v0 sp) (v64 j) (v0 j)) st"
      unfolding R Let_def c_def [symmetric] j_def using 2 by simp
    ultimately show ?thesis using mulAddF64_normalise [OF n wd(1,2,4) _ _ x, of s st] e by simp
  next
    case 3
    have x: "vp - vc = of_int (P - B) * 2 powi (ep - 1148)" "vc - vp = of_int (B - P) * 2 powi (ep - 1148)"
      unfolding v(1) vc 3 by (simp_all add: left_diff_distrib)
    have cmp: "vp = vc \<longleftrightarrow> P = B" "vc < vp \<longleftrightarrow> B < P" "vp < vc \<longleftrightarrow> P < B" unfolding v(1) vc 3 by simp_all
    define q where "q = sp\<lparr>v64 := v64 sp - c\<rparr>"
    have q: "u128 q = P - B + of_bool (v64 sp < c) * 2 ^ 128"
      using P(1) c(1) by (simp add: q_def u128_def uint_sub_borrow algebra_simps)
    have less: "v64 sp < c \<longleftrightarrow> P < B"
      unfolding word_less_uint P(1) [symmetric] c(1) [symmetric] u128_parts(4) [of sp] u128_def [of "\<lparr>v0 = 0, v64 = c\<rparr>"]
      using split_less [OF u128_parts(2,3), of "uint (v64 sp)" sp "uint c"] by simp
    have top: "v64 q AND 0x8000000000000000 \<noteq> 0 \<longleftrightarrow> 2 ^ 63 * 2 ^ 64 \<le> u128 q"
      unfolding and_top_bit64 u128_parts(4) [of q] using split_less [OF u128_parts(2,3), of "uint (v64 q)" q "2 ^ 63"] by (simp add: not_less [symmetric])
    have zero: "v64 q OR v0 q = 0 \<longleftrightarrow> u128 q = 0"
      unfolding u128_def using uint_ge_0 [of "v64 q"] uint_ge_0 [of "v0 q"] by (simp add: add_nonneg_eq_0_iff or_eq_0_iff)
    have S: "softfloat_mulAddF64_sum s ep sp (\<not> s) ec sc st =
        (if u128 q = 0 then (packToF64UI (softfloat_roundingMode st = softfloat_round_min) 0 0, st)
         else if 2 ^ 63 * 2 ^ 64 \<le> u128 q then softfloat_mulAddF64_normalise (\<not> s) ep (softfloat_sub128 0 0 (v64 q) (v0 q)) st
         else softfloat_mulAddF64_normalise s ep q st)"
      unfolding zero [symmetric] top [symmetric] unfolding R Let_def c_def [symmetric] q_def using 3 by simp
    consider "P = B" | "B < P" | "P < B" by linarith
    then show ?thesis
    proof cases
      case eq: 1
      moreover have "ieee_result binary64 r 0 st (packToF64UI r 0 0, st)" for r
        by (rule rp64.zero_result) (subst uint_packToF64UI, simp_all)
      ultimately show ?thesis using cmp q less unfolding S by simp
    next
      case gt: 2
      have n: "u128 q = P - B" using q less gt by simp
      then have "ieee_result binary64 s (vp - vc) st (softfloat_mulAddF64_normalise s ep q st)"
        using mulAddF64_normalise [OF n _ _ _ _ _ x(1), of 2 s st] gt P c e by simp
      then show ?thesis using gt cmp n P c unfolding S by simp
    next
      case ls: 3
      have u: "u128 q = P - B + 2 ^ 128" using q less ls by simp
      have n: "u128 (softfloat_sub128 0 0 (v64 q) (v0 q)) = B - P"
        unfolding sub128_correct u128_surjective u using ls P c by (simp add: u128_def)
      then have "ieee_result binary64 (\<not> s) (vc - vp) st (softfloat_mulAddF64_normalise (\<not> s) ep (softfloat_sub128 0 0 (v64 q) (v0 q)) st)"
        using mulAddF64_normalise [OF n _ _ _ _ _ x(2), of 2 "\<not> s" st] ls P c e by simp
      then show ?thesis using ls cmp u P c unfolding S by simp
    qed
  qed
qed

section \<open>The fused multiply-add is correct\<close>

lemma mulAddF64_product:
  assumes A: "norm_operand binary64 a ea ma" and B: "norm_operand binary64 b eb mb"
    and u: "uint (sa :: u64) = ma" "uint sb = mb" and p: "p = softfloat_mul64To128 (push_bit 10 sa) (push_bit 10 sb)"
    and r: "(e, q) = (if v64 p < 0x2000000000000000 then (ea + eb - 0x3FE - 1, softfloat_add128 (v64 p) (v0 p) (v64 p) (v0 p)) else (ea + eb - 0x3FE, p))"
  shows "2 ^ 125 \<le> u128 q" "u128 q < 2 ^ 126" "2 ^ 14 dvd u128 q" "- 2000 \<le> e" "e \<le> 4000"
    "enc_abs binary64 a * enc_abs binary64 b = of_int (u128 q) * 2 powi (e - 1148)"
proof -
  have m: "2 ^ 52 \<le> ma" "ma < 2 ^ 53" "2 ^ 52 \<le> mb" "mb < 2 ^ 53" "-52 < ea" "-52 < eb" "ea \<le> 2048" "eb \<le> 2048"
    using A B by (simp_all add: norm_operand_def)
  have pp: "2 ^ 52 * 2 ^ 52 \<le> ma * mb" "ma * mb < 2 ^ 53 * 2 ^ 53" using m by (intro mult_mono mult_strict_mono; simp)+
  have "uint (push_bit 10 sa) = ma * 2 ^ 10" "uint (push_bit 10 sb) = mb * 2 ^ 10" using m u by (subst uint_push_small; simp)+
  then have P: "u128 p = ma * mb * 2 ^ 20" unfolding p by (simp add: mul64To128_correct)
  have "v64 p < 0x2000000000000000 \<longleftrightarrow> uint (v64 p) < 2 ^ 61" by (simp add: word_less_uint)
  also have "\<dots> \<longleftrightarrow> u128 p < 2 ^ 61 * 2 ^ 64" unfolding u128_parts(4) [of p] split_less [OF u128_parts(2,3)] ..
  finally have lt: "v64 p < 0x2000000000000000 \<longleftrightarrow> u128 p < 2 ^ 125" by simp
  have v: "enc_abs binary64 a * enc_abs binary64 b = of_int (u128 p) * 2 powi (ea + eb - 1022 - 1148)"
  proof -
    have "enc_abs binary64 a * enc_abs binary64 b = of_int (ma * mb) * (2 powi (ea - 1075) * 2 powi (eb - 1075))"
      using A B by (simp add: norm_operand_def)
    also have "2 powi (ea - 1075) * 2 powi (eb - 1075) = (2::real) powi (ea + eb - 2150)"
      by (subst power_int_add [symmetric]) (simp_all add: algebra_simps)
    also have "\<dots> = 2 ^ 20 * 2 powi (ea + eb - 1022 - 1148)" using powi_down [of "ea + eb - 2150" 20] by simp
    finally show ?thesis by (simp add: P)
  qed
  have "u128 p < 2 ^ 125 \<Longrightarrow> u128 (softfloat_add128 (v64 p) (v0 p) (v64 p) (v0 p)) = u128 p * 2"
    unfolding add128_correct using u128_range(1) [of p] by simp
  then have q: "u128 q = (if u128 p < 2 ^ 125 then u128 p * 2 else u128 p)" "e = (if u128 p < 2 ^ 125 then ea + eb - 1023 else ea + eb - 1022)"
    using r by (auto simp: lt split: if_splits)
  show "2 ^ 125 \<le> u128 q" "u128 q < 2 ^ 126" using pp by (auto simp: q P)
  show "2 ^ 14 dvd u128 q" by (auto simp: q P)
  show "- 2000 \<le> e" "e \<le> 4000" using m by (auto simp: q)
  show "enc_abs binary64 a * enc_abs binary64 b = of_int (u128 q) * 2 powi (e - 1148)"
    unfolding v q using powi_down [of "ea + eb - 1022 - 1148" 1] by simp
qed

lemma mulAddF64_finite:
  assumes fin: "enc_finite binary64 (uint a)" "enc_finite binary64 (uint b)" "enc_finite binary64 (uint c)"
    and nz: "\<not> enc_zero binary64 (uint a)" "\<not> enc_zero binary64 (uint b)"
  shows "ieee_mul_add binary64 (uint a) (uint b) (uint c) st (softfloat_mulAddF64 a b c 0 st)"
proof -
  define sp where "sp = (enc_sign binary64 (uint a) \<noteq> enc_sign binary64 (uint b))"
  obtain ea sa eb sb ec sc where ab: "softfloat_normArgF64 (expF64UI a) (fracF64UI a) = (ea, sa)"
    "softfloat_normArgF64 (expF64UI b) (fracF64UI b) = (eb, sb)" "softfloat_normArgF64 (expF64UI c) (fracF64UI c) = (ec, sc)" by force
  note A = normArgF64 [OF nz(1) ab(1)] and B = normArgF64 [OF nz(2) ab(2)]
  define p where "p = softfloat_mul64To128 (push_bit 10 (sa OR 0x0010000000000000)) (push_bit 10 (sb OR 0x0010000000000000))"
  obtain e q where eq: "(e, q) = (if v64 p < 0x2000000000000000 then (ea + eb - 0x3FE - 1, softfloat_add128 (v64 p) (v0 p) (v64 p) (v0 p)) else (ea + eb - 0x3FE, p))"
    by (cases "v64 p < 0x2000000000000000") auto
  note Q = mulAddF64_product [OF A B refl refl p_def eq]
  have nz': "\<not> (expF64UI a = 0 \<and> fracF64UI a = 0)" "\<not> (expF64UI b = 0 \<and> fracF64UI b = 0)"
    "(expF64UI c = 0 \<and> fracF64UI c = 0) = enc_zero binary64 (uint c)"
    using nz by (auto simp: enc_zero_def expF64UI_enc fracF64UI_zero)
  have x: "expF64UI a \<noteq> 0x7FF" "expF64UI b \<noteq> 0x7FF" "expF64UI c \<noteq> 0x7FF" using fin by (simp_all add: enc_finite_def expF64UI_enc)
  have sg: "signF64UI a = enc_sign binary64 (uint a)" "signF64UI b = enc_sign binary64 (uint b)"
    "(signF64UI c \<noteq> ((0 :: u8) = softfloat_mulAdd_subC)) = enc_sign binary64 (uint c)" "((0 :: u8) = softfloat_mulAdd_subProd) = False"
    by (simp_all add: signF64UI_enc softfloat_mulAdd_subC_def softfloat_mulAdd_subProd_def)
  define z where "z = push_bit 1 (v64 q) OR of_bool (v0 q \<noteq> 0)"
  have R: "softfloat_mulAddF64 a b c 0 st = (if enc_zero binary64 (uint c)
      then softfloat_roundPackToF64 sp (e - 1) z st
      else softfloat_mulAddF64_sum sp e q (enc_sign binary64 (uint c)) ec sc st)"
    unfolding softfloat_mulAddF64_def Let_def sg if_not_P [OF x(1)] if_not_P [OF x(2)] if_not_P [OF x(3)]
      if_not_P [OF nz'(1)] if_not_P [OF nz'(2)] nz'(3) ab prod.case p_def [symmetric] eq [symmetric] sp_def z_def by simp
  show ?thesis
  proof (cases "enc_zero binary64 (uint c)")
    case True
    then have c0: "enc_abs binary64 (uint c) = 0" by (simp add: enc_abs_zero)
    have hb: "2 ^ 61 \<le> uint (v64 q)" "uint (v64 q) < 2 ^ 62"
    proof -
      have "\<not> u128 q < 2 ^ 61 * 2 ^ 64" "u128 q < 2 ^ 62 * 2 ^ 64" using Q(1,2) by simp_all
      then show "2 ^ 61 \<le> uint (v64 q)" "uint (v64 q) < 2 ^ 62"
        unfolding u128_parts(4) [of q] split_less [OF u128_parts(2,3)] by simp_all
    qed
    have z: "uint z = 2 * uint (v64 q) + of_bool (uint (v0 q) \<noteq> 0)"
      unfolding z_def uint_or_one using hb by (subst (1 2) uint_push_small) simp_all
    have st: "sticky (2 ^ (10 - 1)) (of_int (u128 q) * 2 / 2 ^ 64) (uint z)"
      unfolding z u128_parts(4) [of q] by (rule sticky_coarser [OF sticky_split [OF u128_parts(2,3)]]) simp
    have "of_int (u128 q) * 2 / 2 ^ 64 * 2 powi (e - 1 + fmt_qmin binary64 - int 10) = enc_abs binary64 (uint a) * enc_abs binary64 (uint b)"
      unfolding Q(6) using powi_down [of "e - 1085" 63] by simp
    then have I: "ieee_result binary64 sp (enc_abs binary64 (uint a) * enc_abs binary64 (uint b)) st (softfloat_mulAddF64 a b c 0 st)"
      unfolding R using rp64.correct [OF st, of "e - 1" sp st] hb z Q(4,5) True by simp
    have "0 < enc_abs binary64 (uint a) * enc_abs binary64 (uint b)" unfolding Q(6) using Q(1) by (intro mult_pos_pos) (simp_all only: of_int_0_less_iff, simp_all)
    then show ?thesis using I c0 by (intro mul_add_finite [OF fin sp_def refl]) auto
  next
    case False
    note C = normArgF64 [OF False ab(3)]
    have cb: "2 ^ 52 \<le> uint (sc OR 0x0010000000000000)" "uint (sc OR 0x0010000000000000) < 2 ^ 53" "- (2 ^ 13) \<le> ec" "ec < 2 ^ 13"
      and vc: "enc_abs binary64 (uint c) = of_int (uint (sc OR 0x0010000000000000)) * 2 powi (ec - 1075)"
      using C by (simp_all add: norm_operand_def)
    have ev: "even (u128 q)" using Q(3) by (meson dvd_trans dvd_power zero_less_numeral)
    have eb: "- (2 ^ 13) \<le> e" "e < 2 ^ 13" using Q(4,5) by simp_all
    have R': "softfloat_mulAddF64 a b c 0 st = softfloat_mulAddF64_sum sp e q (enc_sign binary64 (uint c)) ec sc st"
      unfolding R using False by simp
    note S = mulAddF64_sum_same [OF refl Q(1,2) ev refl cb(1,2) eb cb(3,4) Q(6) vc]
      and O = mulAddF64_sum_opposite [OF refl Q(1,2) ev refl cb(1,2) eb cb(3,4) Q(6) vc]
    show ?thesis using S [of sp st] O [of st sp] unfolding R' by (intro mul_add_finite [OF fin sp_def refl]) simp_all
  qed
qed

lemma mulAddF64_zero:
  assumes fin: "enc_finite binary64 (uint a)" "enc_finite binary64 (uint b)" "enc_finite binary64 (uint c)"
    and z: "enc_zero binary64 (uint a) \<or> enc_zero binary64 (uint b)"
  shows "ieee_mul_add binary64 (uint a) (uint b) (uint c) st (softfloat_mulAddF64 a b c 0 st)"
proof -
  define sp where "sp = (enc_sign binary64 (uint a) \<noteq> enc_sign binary64 (uint b))"
  define sc where "sc = enc_sign binary64 (uint c)"
  have vp: "enc_abs binary64 (uint a) * enc_abs binary64 (uint b) = 0" using z by (auto simp: enc_abs_zero)
  have sg: "signF64UI a = enc_sign binary64 (uint a)" "signF64UI b = enc_sign binary64 (uint b)"
    "(signF64UI c \<noteq> ((0 :: u8) = softfloat_mulAdd_subC)) = sc" "((0 :: u8) = softfloat_mulAdd_subProd) = False"
    by (simp_all add: signF64UI_enc softfloat_mulAdd_subC_def softfloat_mulAdd_subProd_def sc_def)
  have R: "softfloat_mulAddF64 a b c 0 st = (if enc_zero binary64 (uint c) \<and> sp \<noteq> sc
      then (packToF64UI (softfloat_roundingMode st = softfloat_round_min) 0 0, st) else (c, st))"
    using fin z unfolding softfloat_mulAddF64_def Let_def sg exp_or_frac64 sp_def
    by (auto simp: enc_zero_def enc_finite_def expF64UI_enc fracF64UI_zero split: prod.splits)
  have I: "ieee_result binary64 sc (enc_abs binary64 (uint c)) st (c, st)"
    by (rule rp64.exact_result) (use fin in \<open>simp_all add: sc_def\<close>)
  have Z: "ieee_result binary64 r 0 st (packToF64UI r 0 0, st)" for r
    by (rule rp64.zero_result) (subst uint_packToF64UI, simp_all)
  have pos: "enc_zero binary64 (uint c) = (enc_abs binary64 (uint c) = 0)" "0 \<le> enc_abs binary64 (uint c)"
    by (simp_all add: enc_abs_zero enc_abs_nonneg)
  show ?thesis
    by (rule mul_add_finite [OF fin sp_def refl]) (use I Z R pos in \<open>auto simp: vp sc_def\<close>)
qed

lemma mulAddF64_special:
  assumes fin: "\<not> (enc_finite binary64 (uint a) \<and> enc_finite binary64 (uint b) \<and> enc_finite binary64 (uint c))"
  shows "ieee_mul_add binary64 (uint a) (uint b) (uint c) st (softfloat_mulAddF64 a b c 0 st)"
proof -
  define sp where "sp = (enc_sign binary64 (uint a) \<noteq> enc_sign binary64 (uint b))"
  define sc where "sc = enc_sign binary64 (uint c)"
  have sg: "signF64UI a = enc_sign binary64 (uint a)" "signF64UI b = enc_sign binary64 (uint b)"
    "(signF64UI c \<noteq> ((0 :: u8) = softfloat_mulAdd_subC)) = sc" "((0 :: u8) = softfloat_mulAdd_subProd) = False"
    "((enc_sign binary64 (uint a) \<noteq> enc_sign binary64 (uint b)) \<noteq> False) = sp"
    by (simp_all add: signF64UI_enc softfloat_mulAdd_subC_def softfloat_mulAdd_subProd_def sc_def sp_def)
  have P: "uint (packToF64UI s 0x7FF 0) = enc_make binary64 s 2047 0" for s
    by (subst uint_packToF64UI) simp_all
  have snan: "\<not> enc_snan binary64 (enc_make binary64 s 2047 0)" "\<not> enc_snan binary64 0x7FF8000000000000"
    "\<not> enc_snan binary64 0" for s
    using enc_make_fields(3) [of 2047 binary64 0 s] by (simp_all add: enc_snan_def enc_nan_def enc_frac_def enc_exp_def)
  have I: "inf_result binary64 s st (packToF64UI s 0x7FF 0, st)" for s
    unfolding inf_result_def fst_conv P by simp
  have uc: "inf_result binary64 sc st (c, st)" if "enc_exp binary64 (uint c) = 2047" "enc_frac binary64 (uint c) = 0"
    using enc_make_self [of "uint c" binary64] that uint_lt2p [of c] by (simp add: inf_result_def sc_def)
  have D: "nan_result binary64 i st (defaultNaNF64UI, if i then softfloat_raiseFlags softfloat_flag_invalid st else st)" for i
    by (simp add: nan_result_def enc_make_def)
  note D' = D [of True, unfolded if_True] D [of False, unfolded if_False]
  note spec = ieee_mul_add_def [of binary64 "uint a" "uint b" "uint c" st] enc_nan_def enc_inf_def enc_zero_def enc_finite_def
  note code = softfloat_mulAddF64_def softfloat_propagateNaNF64UI_def isSigNaNF64UI_enc
  show ?thesis
    using fin uc I D' D
    unfolding code Let_def sg exp_or_frac64 spec sp_def [symmetric] sc_def [symmetric] prod.case P
    by (cases "enc_exp binary64 (uint a) = 2047"; cases "enc_exp binary64 (uint b) = 2047"; cases "enc_exp binary64 (uint c) = 2047";
        cases "enc_frac binary64 (uint a) = 0"; cases "enc_frac binary64 (uint b) = 0"; cases "enc_frac binary64 (uint c) = 0")
       (simp_all add: expF64UI_enc fracF64UI_zero snan)
qed

lemma f64_mulAdd_ieee: "ieee_mul_add binary64 (uint a) (uint b) (uint c) st (f64_mulAdd a b c st)"
  unfolding f64_mulAdd_def using mulAddF64_special [of a b c st] mulAddF64_zero [of a b c st] mulAddF64_finite [of a b c st] by blast

text \<open>C2. f32_mulAdd and f64_mulAdd return the IEEE 754 fused multiply-add of their three operands: the exact value a * b + c rounded once, with exact flags, massive cancellation, subnormals, signed zeros, infinities and NaNs included.\<close>

theorem float_mulAdd_correct:
  "ieee_mul_add binary32 (uint a) (uint b) (uint c) st (f32_mulAdd a b c st) \<and>
   ieee_mul_add binary64 (uint d) (uint e) (uint f) st (f64_mulAdd d e f st)"
  by (intro conjI f32_mulAdd_ieee f64_mulAdd_ieee)

text \<open>
  The shortcuts for an infinite addend and for a zero product return the addend as it is, whatever the op code: with the op code that
  subtracts the addend its sign is lost.
\<close>

lemma mulAddF32_addend:
  assumes fin: "expF32UI a \<noteq> 0xFF" "expF32UI b \<noteq> 0xFF"
  shows "expF32UI c = 0xFF \<Longrightarrow> fracF32UI c = 0 \<Longrightarrow> softfloat_mulAddF32 a b c op st = (ucast c, st)"
    "expF32UI c \<noteq> 0xFF \<Longrightarrow> word_of_int (expF32UI c) OR fracF32UI c \<noteq> 0 \<Longrightarrow>
     expF32UI a = 0 \<and> fracF32UI a = 0 \<or> expF32UI b = 0 \<and> fracF32UI b = 0 \<Longrightarrow> softfloat_mulAddF32 a b c op st = (ucast c, st)"
proof -
  show "softfloat_mulAddF32 a b c op st = (ucast c, st)" if "expF32UI c = 0xFF" "fracF32UI c = 0"
    unfolding softfloat_mulAddF32_def Let_def if_not_P [OF fin(1)] if_not_P [OF fin(2)] if_P [OF that(1)] that(2) by simp
  show "softfloat_mulAddF32 a b c op st = (ucast c, st)"
    if c: "expF32UI c \<noteq> 0xFF" "word_of_int (expF32UI c) OR fracF32UI c \<noteq> 0"
      and z: "expF32UI a = 0 \<and> fracF32UI a = 0 \<or> expF32UI b = 0 \<and> fracF32UI b = 0"
  proof (cases "expF32UI a = 0 \<and> fracF32UI a = 0")
    case True
    show ?thesis
      unfolding softfloat_mulAddF32_def Let_def if_not_P [OF fin(1)] if_not_P [OF fin(2)] if_not_P [OF c(1)] if_P [OF True] using c(2) by simp
  next
    case False
    then have b: "expF32UI b = 0 \<and> fracF32UI b = 0" using z by blast
    show ?thesis
      unfolding softfloat_mulAddF32_def Let_def if_not_P [OF fin(1)] if_not_P [OF fin(2)] if_not_P [OF c(1)] if_not_P [OF False] if_P [OF b]
      using c(2) by (simp add: case_prod_beta)
  qed
qed

lemma mulAddF64_addend:
  assumes fin: "expF64UI a \<noteq> 0x7FF" "expF64UI b \<noteq> 0x7FF"
  shows "expF64UI c = 0x7FF \<Longrightarrow> fracF64UI c = 0 \<Longrightarrow> softfloat_mulAddF64 a b c op st = (c, st)"
    "expF64UI c \<noteq> 0x7FF \<Longrightarrow> word_of_int (expF64UI c) OR fracF64UI c \<noteq> 0 \<Longrightarrow>
     expF64UI a = 0 \<and> fracF64UI a = 0 \<or> expF64UI b = 0 \<and> fracF64UI b = 0 \<Longrightarrow> softfloat_mulAddF64 a b c op st = (c, st)"
proof -
  show "softfloat_mulAddF64 a b c op st = (c, st)" if "expF64UI c = 0x7FF" "fracF64UI c = 0"
    unfolding softfloat_mulAddF64_def Let_def if_not_P [OF fin(1)] if_not_P [OF fin(2)] if_P [OF that(1)] that(2) by simp
  show "softfloat_mulAddF64 a b c op st = (c, st)"
    if c: "expF64UI c \<noteq> 0x7FF" "word_of_int (expF64UI c) OR fracF64UI c \<noteq> 0"
      and z: "expF64UI a = 0 \<and> fracF64UI a = 0 \<or> expF64UI b = 0 \<and> fracF64UI b = 0"
  proof (cases "expF64UI a = 0 \<and> fracF64UI a = 0")
    case True
    show ?thesis
      unfolding softfloat_mulAddF64_def Let_def if_not_P [OF fin(1)] if_not_P [OF fin(2)] if_not_P [OF c(1)] if_P [OF True] using c(2) by simp
  next
    case False
    then have b: "expF64UI b = 0 \<and> fracF64UI b = 0" using z by blast
    show ?thesis
      unfolding softfloat_mulAddF64_def Let_def if_not_P [OF fin(1)] if_not_P [OF fin(2)] if_not_P [OF c(1)] if_not_P [OF False] if_P [OF b]
      using c(2) by (simp add: case_prod_beta)
  qed
qed

lemma mul_add_infinite_sign:
  assumes "enc_finite fmt a" "enc_finite fmt b" "enc_inf fmt c" "0 < fmt_ew fmt" "ieee_mul_add fmt a b c st r"
  shows "enc_sign fmt (uint (fst r)) = enc_sign fmt c"
proof -
  have "inf_result fmt (enc_sign fmt c) st r"
    using assms by (simp add: ieee_mul_add_def Let_def enc_nan_def enc_inf_def enc_finite_def split: if_splits)
  then show ?thesis using assms(4) by (simp add: inf_result_def enc_make_fields)
qed

text \<open>C13. For finite factors the fused multiply-add routines return an infinite addend, and any nonzero finite addend of a zero product, with its own sign, whatever the op code is: with the op code that subtracts the addend, the result for an infinite c is not the IEEE 754 result of a * b + (-c), in both formats.\<close>

theorem mulAdd_subC_sign_lost:
  fixes a b c minus_c :: u32 and d e f minus_f :: u64
  assumes "enc_finite binary32 (uint a)" "enc_finite binary32 (uint b)"
    "enc_inf binary32 (uint c) \<or>
     (enc_zero binary32 (uint a) \<or> enc_zero binary32 (uint b)) \<and> enc_finite binary32 (uint c) \<and> \<not> enc_zero binary32 (uint c)"
    and "enc_finite binary64 (uint d)" "enc_finite binary64 (uint e)"
    "enc_inf binary64 (uint f) \<or>
     (enc_zero binary64 (uint d) \<or> enc_zero binary64 (uint e)) \<and> enc_finite binary64 (uint f) \<and> \<not> enc_zero binary64 (uint f)"
  shows "softfloat_mulAddF32 (ucast a) (ucast b) (ucast c) op st = (c, st) \<and> softfloat_mulAddF64 d e f op st = (f, st) \<and>
    (enc_inf binary32 (uint minus_c) \<and> enc_sign binary32 (uint minus_c) \<noteq> enc_sign binary32 (uint c) \<longrightarrow>
       \<not> ieee_mul_add binary32 (uint a) (uint b) (uint minus_c) st (softfloat_mulAddF32 (ucast a) (ucast b) (ucast c) softfloat_mulAdd_subC st)) \<and>
    (enc_inf binary64 (uint minus_f) \<and> enc_sign binary64 (uint minus_f) \<noteq> enc_sign binary64 (uint f) \<longrightarrow>
       \<not> ieee_mul_add binary64 (uint d) (uint e) (uint minus_f) st (softfloat_mulAddF64 d e f softfloat_mulAdd_subC st))"
proof -
  have u: "uint (ucast w :: u64) = uint w" for w :: u32 by (rule uint_up_ucast) (simp add: is_up)
  have e: "(word_of_int (expF32UI (ucast w)) OR fracF32UI (ucast w) :: u64) = 0 \<longleftrightarrow> enc_zero binary32 (uint w)" for w :: u32
    by (simp only: exp_or_frac32 u)
  have fin: "expF32UI (ucast a) \<noteq> 0xFF" "expF32UI (ucast b) \<noteq> 0xFF" "expF64UI d \<noteq> 0x7FF" "expF64UI e \<noteq> 0x7FF"
    using assms(1,2,4,5) by (simp_all add: enc_finite_def expF32UI_enc expF64UI_enc u)
  have "softfloat_mulAddF32 (ucast a) (ucast b) (ucast c) op st = (ucast (ucast c :: u64), st)" for op
    using assms(3) mulAddF32_addend [OF fin(1,2), of "ucast c" op st] unfolding e
    by (auto simp: enc_finite_def enc_inf_def enc_zero_def expF32UI_enc fracF32UI_zero u)
  moreover have "ucast (ucast c :: u64) = c" by (rule ucast_up_ucast_id) (simp add: is_up)
  moreover have "softfloat_mulAddF64 d e f op st = (f, st)" for op
    using assms(6) mulAddF64_addend [OF fin(3,4), of f op st] unfolding exp_or_frac64
    by (auto simp: enc_finite_def enc_inf_def enc_zero_def expF64UI_enc fracF64UI_zero)
  ultimately show ?thesis
    using mul_add_infinite_sign [OF assms(1,2), of "uint minus_c" st "(c, st)"] mul_add_infinite_sign [OF assms(4,5), of "uint minus_f" st "(f, st)"]
    by auto
qed

theorem mulAdd_subC_sign_lost_witness:
  "softfloat_mulAddF32 (ucast (0x3F800000 :: u32)) (ucast (0x3F800000 :: u32)) (ucast (0x7F800000 :: u32)) softfloat_mulAdd_subC softfloat_initial_state
     = (0x7F800000, softfloat_initial_state) \<and>
   \<not> ieee_mul_add binary64 (uint (0x3FF0000000000000 :: u64)) (uint (0x3FF0000000000000 :: u64)) (uint (0xFFF0000000000000 :: u64)) softfloat_initial_state
     (softfloat_mulAddF64 0x3FF0000000000000 0x3FF0000000000000 0x7FF0000000000000 softfloat_mulAdd_subC softfloat_initial_state)"
proof -
  note ones = mulAdd_subC_sign_lost [of "0x3F800000" "0x3F800000" "0x7F800000" "0x3FF0000000000000" "0x3FF0000000000000" "0x7FF0000000000000"
      softfloat_mulAdd_subC softfloat_initial_state "0xFF800000" "0xFFF0000000000000"]
  have "enc_finite binary32 (uint (0x3F800000 :: u32))" "enc_inf binary32 (uint (0x7F800000 :: u32))"
    "enc_finite binary64 (uint (0x3FF0000000000000 :: u64))" "enc_inf binary64 (uint (0x7FF0000000000000 :: u64))"
    "enc_inf binary64 (uint (0xFFF0000000000000 :: u64))"
    "enc_sign binary64 (uint (0xFFF0000000000000 :: u64)) \<noteq> enc_sign binary64 (uint (0x7FF0000000000000 :: u64))"
    by (simp_all add: enc_finite_def enc_inf_def enc_exp_def enc_frac_def enc_sign_def)
  with ones show ?thesis by blast
qed

end
