(* ===== verification/Softfloat_Rem.thy ===== *)
theory Softfloat_Rem
  imports Softfloat_Round
begin

text \<open>
  The IEEE 754 remainder: \<^verbatim>\<open>f32_rem.c\<close> and \<^verbatim>\<open>f64_rem.c\<close> of
  \<^verbatim>\<open>src/riscv-tools/riscv-isa-sim/softfloat/\<close>.  The quotient is produced 29 bits at a time from an
  approximate reciprocal; the loop that corrects the last estimate may, as written, run for ever,
  so it is an option-valued function and the correctness theorems state that it returns.
\<close>

section \<open>The operations\<close>

text \<open>
  The reduction loop obtains 29 bits of the quotient per iteration and ends when \<^verbatim>\<open>expDiff\<close>
  becomes negative; it returns \<^verbatim>\<open>q\<close>, \<^verbatim>\<open>rem\<close> and \<^verbatim>\<open>expDiff\<close>.
\<close>

function f32_rem_loop :: "u32 \<Rightarrow> u64 \<Rightarrow> int \<Rightarrow> u32 \<Rightarrow> u32 \<times> u32 \<times> int" where
  "f32_rem_loop recip32 sigB expDiff rem =
     (let q = ucast (drop_bit 32 (ucast rem * (ucast recip32 :: u64)))
      in if expDiff < 0 then (q, rem, expDiff)
         else f32_rem_loop recip32 sigB (expDiff - 29) (- (q * ucast sigB)))"
  by auto

termination by (relation "measure (\<lambda>(_, _, expDiff, _). nat (expDiff + 1))") auto

declare f32_rem_loop.simps [simp del]

text \<open>The loop that subtracts the divisor until the remainder is negative.\<close>

partial_function (option) f32_rem_subtract :: "u64 \<Rightarrow> u32 \<Rightarrow> u32 \<Rightarrow> (u32 \<times> u32 \<times> u32) option" where
  "f32_rem_subtract sigB q rem =
     (let altRem = rem; q = q + 1; rem = rem - ucast sigB
      in if rem AND 0x80000000 = 0 then f32_rem_subtract sigB q rem else Some (q, altRem, rem))"

declare f32_rem_subtract.simps [code]

text \<open>The choice between the two remainders, and the sign of the result.\<close>

definition f32_rem_select :: "bool \<Rightarrow> int \<Rightarrow> u32 \<times> u32 \<times> u32 \<Rightarrow> softfloat_state \<Rightarrow> u32 \<times> softfloat_state" where
  "f32_rem_select signA expB x st =
     (let (q, altRem, rem) = x;
          meanRem = rem + altRem;
          rem = (if meanRem AND 0x80000000 \<noteq> 0 \<or> meanRem = 0 \<and> q AND 1 \<noteq> 0 then altRem else rem);
          (signRem, rem) = (if 0x80000000 \<le> rem then (\<not> signA, - rem) else (signA, rem))
      in softfloat_normRoundPackToF32 signRem expB (ucast rem) st)"

text \<open>From the two significands and the difference of the exponents to the two candidates.\<close>

definition f32_rem_reduce :: "u32 \<Rightarrow> u64 \<Rightarrow> int \<Rightarrow> (u32 \<times> u32 \<times> u32) option" where
  "f32_rem_reduce rem sigB expDiff =
     (if expDiff < 1
      then let sigB = push_bit 6 sigB
           in if expDiff \<noteq> 0 then f32_rem_subtract sigB 0 (push_bit 5 rem)
              else let rem = push_bit 6 rem; q = of_bool (sigB \<le> ucast rem)
                   in f32_rem_subtract sigB q (if q \<noteq> 0 then rem - ucast sigB else rem)
      else let recip32 = softfloat_approxRecip32_1 (ucast (push_bit 8 sigB));
               rem = push_bit 7 rem;
               sigB = push_bit 6 sigB;
               (q, rem, expDiff) = f32_rem_loop recip32 sigB (expDiff - 31) rem;
               q = drop_bit (nat (- expDiff - 1)) q
           in f32_rem_subtract sigB q (push_bit (nat (expDiff + 30)) rem - q * ucast sigB))"

definition f32_rem :: "u32 \<Rightarrow> u32 \<Rightarrow> softfloat_state \<Rightarrow> (u32 \<times> softfloat_state) option" where
  "f32_rem a b st =
     (let uiA = (ucast a :: u64); signA = signF32UI uiA; expA = expF32UI uiA; sigA = fracF32UI uiA;
          uiB = (ucast b :: u64); expB = expF32UI uiB; sigB = fracF32UI uiB;
          propagateNaN = Some (let (uiZ, st) = softfloat_propagateNaNF32UI uiA uiB st in (ucast uiZ, st));
          invalid = Some (ucast defaultNaNF32UI, softfloat_raiseFlags softfloat_flag_invalid st)
      in if expA = 0xFF
         then if sigA \<noteq> 0 \<or> expB = 0xFF \<and> sigB \<noteq> 0 then propagateNaN else invalid
         else if expB = 0xFF
         then if sigB \<noteq> 0 then propagateNaN else Some (a, st)
         else if expB = 0 \<and> sigB = 0 then invalid
         else let (expB, sigB) = softfloat_normArgF32 expB sigB
              in if expA = 0 \<and> sigA = 0 then Some (a, st)
         else let (expA, sigA) = softfloat_normArgF32 expA sigA;
                  rem = (ucast (sigA OR 0x00800000) :: u32);
                  sigB = sigB OR 0x00800000;
                  expDiff = expA - expB
              in if expDiff < - 1 then Some (a, st)
                 else map_option (\<lambda>x. f32_rem_select signA expB x st) (f32_rem_reduce rem sigB expDiff))"

text \<open>Double precision.\<close>

function f64_rem_loop :: "u32 \<Rightarrow> u64 \<Rightarrow> int \<Rightarrow> u64 \<Rightarrow> u64 \<times> u64 \<times> int" where
  "f64_rem_loop recip32 sigB expDiff rem =
     (let q64 = ucast (ucast (drop_bit 32 rem) :: u32) * (ucast recip32 :: u64)
      in if expDiff < 0 then (q64, rem, expDiff)
         else let q = (ucast (drop_bit 32 (q64 + 0x80000000)) :: u32);
                  rem = push_bit 29 rem;
                  rem = rem - ucast q * sigB;
                  rem = (if rem AND 0x8000000000000000 \<noteq> 0 then rem + sigB else rem)
              in f64_rem_loop recip32 sigB (expDiff - 29) rem)"
  by auto

termination by (relation "measure (\<lambda>(_, _, expDiff, _). nat (expDiff + 1))") auto

declare f64_rem_loop.simps [simp del]

partial_function (option) f64_rem_subtract :: "u64 \<Rightarrow> u32 \<Rightarrow> u64 \<Rightarrow> (u32 \<times> u64 \<times> u64) option" where
  "f64_rem_subtract sigB q rem =
     (let altRem = rem; q = q + 1; rem = rem - sigB
      in if rem AND 0x8000000000000000 = 0 then f64_rem_subtract sigB q rem else Some (q, altRem, rem))"

declare f64_rem_subtract.simps [code]

definition f64_rem_select :: "bool \<Rightarrow> int \<Rightarrow> u32 \<times> u64 \<times> u64 \<Rightarrow> softfloat_state \<Rightarrow> u64 \<times> softfloat_state" where
  "f64_rem_select signA expB x st =
     (let (q, altRem, rem) = x;
          meanRem = rem + altRem;
          rem = (if meanRem AND 0x8000000000000000 \<noteq> 0 \<or> meanRem = 0 \<and> q AND 1 \<noteq> 0 then altRem else rem);
          (signRem, rem) = (if rem AND 0x8000000000000000 \<noteq> 0 then (\<not> signA, - rem) else (signA, rem))
      in softfloat_normRoundPackToF64 signRem expB rem st)"

definition f64_rem_reduce :: "u64 \<Rightarrow> u64 \<Rightarrow> int \<Rightarrow> (u32 \<times> u64 \<times> u64) option" where
  "f64_rem_reduce rem sigB expDiff =
     (if expDiff < 1
      then let sigB = push_bit 9 sigB
           in if expDiff \<noteq> 0 then f64_rem_subtract sigB 0 (push_bit 8 rem)
              else let rem = push_bit 9 rem; q = of_bool (sigB \<le> rem)
                   in f64_rem_subtract sigB q (if q \<noteq> 0 then rem - sigB else rem)
      else let recip32 = softfloat_approxRecip32_1 (ucast (drop_bit 21 sigB));
               rem = push_bit 9 rem;
               sigB = push_bit 9 sigB;
               (q64, rem, expDiff) = f64_rem_loop recip32 sigB (expDiff - 30) rem;
               q = drop_bit (nat (- expDiff - 1)) (ucast (drop_bit 32 q64) :: u32);
               rem = push_bit (nat (expDiff + 30)) rem - ucast q * sigB
           in if rem AND 0x8000000000000000 \<noteq> 0 then Some (q, rem + sigB, rem)
              else f64_rem_subtract sigB q rem)"

definition f64_rem :: "u64 \<Rightarrow> u64 \<Rightarrow> softfloat_state \<Rightarrow> (u64 \<times> softfloat_state) option" where
  "f64_rem a b st =
     (let uiA = a; signA = signF64UI uiA; expA = expF64UI uiA; sigA = fracF64UI uiA;
          uiB = b; expB = expF64UI uiB; sigB = fracF64UI uiB;
          propagateNaN = Some (softfloat_propagateNaNF64UI uiA uiB st);
          invalid = Some (defaultNaNF64UI, softfloat_raiseFlags softfloat_flag_invalid st)
      in if expA = 0x7FF
         then if sigA \<noteq> 0 \<or> expB = 0x7FF \<and> sigB \<noteq> 0 then propagateNaN else invalid
         else if expB = 0x7FF
         then if sigB \<noteq> 0 then propagateNaN else Some (a, st)
         else if expA < expB - 1 then Some (a, st)
         else if expB = 0 \<and> sigB = 0 then invalid
         else let (expB, sigB) = softfloat_normArgF64 expB sigB
              in if expA = 0 \<and> sigA = 0 then Some (a, st)
         else let (expA, sigA) = softfloat_normArgF64 expA sigA;
                  rem = sigA OR 0x0010000000000000;
                  sigB = sigB OR 0x0010000000000000;
                  expDiff = expA - expB
              in if expDiff < - 1 then Some (a, st)
                 else map_option (\<lambda>x. f64_rem_select signA expB x st) (f64_rem_reduce rem sigB expDiff))"

section \<open>What the remainder is\<close>

definition ieee_remainder ::
  "float_format \<Rightarrow> int \<Rightarrow> int \<Rightarrow> softfloat_state \<Rightarrow> 'a::len word \<times> softfloat_state \<Rightarrow> bool" where
  "ieee_remainder fmt a b st r \<longleftrightarrow>
     (let s = enc_sign fmt a;
          n = round_int softfloat_round_near_even False (enc_abs fmt a / enc_abs fmt b);
          x = enc_abs fmt a - of_int n * enc_abs fmt b
      in if enc_nan fmt a \<or> enc_nan fmt b then nan_result fmt (enc_snan fmt a \<or> enc_snan fmt b) st r
         else if enc_inf fmt a \<or> enc_zero fmt b then nan_result fmt True st r
         else if enc_inf fmt b then ieee_result fmt s (enc_abs fmt a) st r
         else ieee_result fmt (if x < 0 then \<not> s else s) \<bar>x\<bar> st r)"

lemma round_int_less_half:
  assumes "0 \<le> y" "y < 1 / 2"
  shows "round_int softfloat_round_near_even s y = 0"
proof -
  have "\<lfloor>y\<rfloor> = 0" using assms by (intro floor_unique) simp_all
  then show ?thesis using assms by (simp add: round_int_def)
qed

text \<open>The remainder of smallest magnitude, an even quotient preferred.\<close>

lemma nearest_remainder:
  assumes "0 < B" "0 \<le> alt" "alt < B"
  shows "round_int softfloat_round_near_even s (of_int (n * B + alt) / of_int B) =
    (if 2 * alt < B \<or> 2 * alt = B \<and> even n then n else n + 1)"
proof -
  define w :: real where "w = of_int alt / of_int B"
  have y: "of_int (n * B + alt) / of_int B = of_int n + w"
    using assms(1) by (simp add: add_divide_distrib w_def)
  have "0 \<le> w" "w < 1" using assms by (simp_all add: w_def)
  then have f: "\<lfloor>of_int n + w\<rfloor> = n" by (intro floor_unique) simp_all
  have c: "(w < 1 / 2) = (2 * alt < B)" "(1 / 2 < w) = (B < 2 * alt)"
    using assms(1) by (simp_all add: w_def pos_divide_less_eq pos_less_divide_eq) linarith+
  show ?thesis unfolding y round_int_def f add_diff_cancel_left' c by auto
qed

definition rem_result ::
  "float_format \<Rightarrow> bool \<Rightarrow> real \<Rightarrow> real \<Rightarrow> softfloat_state \<Rightarrow> ('a::len word \<times> softfloat_state) option \<Rightarrow> bool" where
  "rem_result fmt s y z st res \<longleftrightarrow>
     (\<exists>r x. res = Some r \<and> x = y - of_int (round_int softfloat_round_near_even False (y / z)) * z \<and>
        ieee_result fmt (if x < 0 then \<not> s else s) \<bar>x\<bar> st r)"

text \<open>The state after the reduction: the two candidate remainders and the parity of the quotient.\<close>

definition rem_reduced :: "int \<Rightarrow> real \<Rightarrow> (u32 \<times> 'a::len word \<times> 'a word) option \<Rightarrow> bool" where
  "rem_reduced B y res \<longleftrightarrow>
     (\<exists>n k alt. res = Some (word_of_int (k + 1), word_of_int alt, word_of_int (alt - B)) \<and>
        0 \<le> alt \<and> alt < B \<and> (even k \<longleftrightarrow> even n) \<and> y = of_int (n * B + alt))"

lemma rem_reducedI:
  assumes "0 < B" "(even k \<longleftrightarrow> even n)" "y = of_int (n * B + x)"
  shows "rem_reduced B y (Some (word_of_int (k + x div B + 1), word_of_int (x mod B), word_of_int (x mod B - B)))"
proof -
  have "even (k + x div B) \<longleftrightarrow> even (n + x div B)" using assms(2) by simp
  moreover have "y = of_int ((n + x div B) * B + x mod B)" unfolding assms(3) by (simp only: distrib_right add.assoc div_mult_mod_eq)
  ultimately show ?thesis unfolding rem_reduced_def
    using assms(1) by (intro exI [of _ "n + x div B"] exI [of _ "k + x div B"] exI [of _ "x mod B"]) simp
qed

text \<open>A selection that is correct on the candidates gives the remainder.\<close>

lemma rem_resultI:
  assumes red: "rem_reduced B t res" and B: "0 < B" and yz: "y = t * 2 powi e" "z = of_int B * 2 powi e"
    and sel: "\<And>n k alt x. 0 \<le> alt \<Longrightarrow> alt < B \<Longrightarrow> (even k \<longleftrightarrow> even n) \<Longrightarrow>
      x = n * B + alt - round_int softfloat_round_near_even False (of_int (n * B + alt) / of_int B) * B \<Longrightarrow>
      ieee_result fmt (if x < 0 then \<not> s else s) (of_int \<bar>x\<bar> * 2 powi e) st
        (select (word_of_int (k + 1), word_of_int alt, word_of_int (alt - B)))"
  shows "rem_result fmt s y z st (map_option select res)"
proof -
  obtain n k alt where r: "res = Some (word_of_int (k + 1), word_of_int alt, word_of_int (alt - B))"
      "0 \<le> alt" "alt < B" "even k \<longleftrightarrow> even n" "t = of_int (n * B + alt)"
    using red unfolding rem_reduced_def by (elim exE conjE)
  define N where "N = round_int softfloat_round_near_even False (of_int (n * B + alt) / of_int B)"
  define d where "d = n * B + alt - N * B"
  have q: "y / z = of_int (n * B + alt) / of_int B" unfolding yz r(5) by simp
  have dx: "y - of_int N * z = of_int d * 2 powi e" unfolding yz r(5) d_def by (simp add: left_diff_distrib)
  have "ieee_result fmt (if d < 0 then \<not> s else s) (of_int \<bar>d\<bar> * 2 powi e) st
      (select (word_of_int (k + 1), word_of_int alt, word_of_int (alt - B)))"
    by (rule sel [OF r(2,3,4)]) (simp only: d_def N_def)
  moreover have "y - of_int N * z < 0 \<longleftrightarrow> d < 0" "\<bar>y - of_int N * z\<bar> = of_int \<bar>d\<bar> * 2 powi e"
    unfolding dx using mult_less_cancel_right_pos [OF powi_pos, of "of_int d" e 0] by (simp_all add: abs_mult)
  ultimately show ?thesis unfolding rem_result_def q N_def [symmetric] r(1) by simp
qed

lemma rem_result_small:
  assumes "0 \<le> y" "y < z / 2" "ieee_result fmt s y st r"
  shows "rem_result fmt s y z st (Some r)"
proof -
  have "0 < z" using assms by linarith
  then have "0 \<le> y / z" "y / z < 1 / 2" using assms by (simp_all add: pos_divide_less_eq)
  then show ?thesis using assms by (simp add: rem_result_def round_int_less_half)
qed

lemma rem_result_zero: "ieee_result fmt s 0 st r \<Longrightarrow> rem_result fmt s 0 z st (Some r)"
  using round_int_less_half [of 0] by (simp add: rem_result_def)

lemma ieee_remainder_finite:
  assumes "enc_finite fmt a" "enc_finite fmt b" "\<not> enc_zero fmt b"
  shows "(\<exists>r. res = Some r \<and> ieee_remainder fmt a b st r) \<longleftrightarrow>
    rem_result fmt (enc_sign fmt a) (enc_abs fmt a) (enc_abs fmt b) st res"
  using assms by (auto simp: ieee_remainder_def rem_result_def Let_def enc_finite_def enc_nan_def enc_inf_def)

lemma norm_operand_halved:
  assumes "norm_operand fmt u ea ma" "norm_operand fmt v eb mb" "ea - eb < - 1"
  shows "enc_abs fmt u < enc_abs fmt v / 2"
proof -
  let ?q = "fmt_qmin fmt" and ?w = "fmt_fw fmt"
  have "enc_abs fmt u < 2 ^ (?w + 1) * 2 powi (ea - 1 + ?q)"
    using assms(1) of_int_less_iff [of ma "2 ^ (?w + 1)", where 'a = real] by (simp add: norm_operand_def)
  also have "\<dots> \<le> 2 ^ (?w + 1) * 2 powi (eb - 1 + ?q - int 2)"
    using assms(3) by (intro mult_left_mono power_int_increasing) simp_all
  also have "\<dots> = of_int (2 ^ ?w) * 2 powi (eb - 1 + ?q) / 2" unfolding powi_down by simp
  also have "\<dots> \<le> enc_abs fmt v / 2"
    using assms(2) unfolding norm_operand_def by (intro divide_right_mono) (auto simp del: of_int_power intro!: mult_right_mono)
  finally show ?thesis .
qed

section \<open>The single-precision remainder\<close>

lemma rem32_estimate:
  assumes B: "B = m * 64" "2 ^ 23 \<le> (m :: int)" and r: "r = (2 ^ 63 - 1) div (m * 256)" and x: "0 \<le> x" "x < 2 ^ 31" and q: "q = x * r div 2 ^ 32"
  shows "q * B \<le> x * 2 ^ 29" "2 * (x * 2 ^ 29) < (2 * q + 3) * B" "0 \<le> q" "0 \<le> r"
proof -
  have p: "0 < m * 256" "0 < B" using B by simp_all
  have rb: "r * B \<le> 2 ^ 61" "2 ^ 61 \<le> (r + 1) * B"
  proof -
    have e: "m * 256 = 4 * B" by (simp add: B(1))
    note b = int_div_bounds [OF p(1), of "2 ^ 63 - 1", folded r, unfolded e]
    have "r * (4 * B) = 4 * (r * B)" "(r + 1) * (4 * B) = 4 * ((r + 1) * B)" by simp_all
    then have "4 * (r * B) \<le> 2 ^ 63 - 1" "2 ^ 63 - 1 < 4 * ((r + 1) * B)" using b by simp_all
    then show "r * B \<le> 2 ^ 61" "2 ^ 61 \<le> (r + 1) * B" by simp_all
  qed
  show r0: "0 \<le> r" unfolding r using p by (simp add: pos_imp_zdiv_nonneg_iff)
  have qb: "q * 2 ^ 32 \<le> x * r" "x * r < (q + 1) * 2 ^ 32" using int_div_bounds [of "2 ^ 32" "x * r"] by (simp_all add: q)
  show "0 \<le> q" using x r0 by (simp add: q pos_imp_zdiv_nonneg_iff)
  have "q * 2 ^ 32 * B \<le> x * r * B" using qb(1) p by (intro mult_right_mono) simp_all
  also have "\<dots> \<le> x * 2 ^ 61" unfolding mult.assoc using rb(1) x by (intro mult_left_mono) simp_all
  finally show "q * B \<le> x * 2 ^ 29" by (simp add: mult.commute)
  have "x * 2 ^ 61 \<le> x * ((r + 1) * B)" using rb(2) x by (intro mult_left_mono) simp_all
  also have "\<dots> = (x * r + x) * B" by (simp add: algebra_simps)
  also have "\<dots> < ((q + 1) * 2 ^ 32 + 2 ^ 31) * B" using qb(2) x p by (intro mult_strict_right_mono) simp_all
  finally show "2 * (x * 2 ^ 29) < (2 * q + 3) * B" by (simp add: algebra_simps)
qed

lemma f32_rem_loop_correct:
  assumes m: "2 ^ 23 \<le> m" "m < 2 ^ 24" and B: "uint sigB = m * 64" and r: "uint r32 = (2 ^ 63 - 1) div (m * 256)"
  shows "0 \<le> x \<Longrightarrow> x < 2 ^ 31 \<Longrightarrow> 8 dvd x \<Longrightarrow> - 30 \<le> e \<Longrightarrow> uint rem = x \<Longrightarrow>
    \<exists>q y f n. f32_rem_loop r32 sigB e rem = (word_of_int q, word_of_int y, f) \<and> 0 \<le> y \<and> y < 2 ^ 31 \<and> - 30 \<le> f \<and> f < 0 \<and>
      q = y * uint r32 div 2 ^ 32 \<and> x * 2 ^ nat (e + 30) = 2 * n * (m * 64) + y * 2 ^ nat (f + 30)"
proof (induction "nat (e + 30)" arbitrary: e rem x rule: less_induct)
  case less
  let ?B = "m * 64"
  define q where "q = x * uint r32 div 2 ^ 32"
  note est = rem32_estimate [OF refl m(1) r less.prems(1,2) q_def]
  have rem: "rem = word_of_int x" using less.prems(5) by (metis word_of_int_uint)
  have "x * uint r32 < 2 ^ 31 * 2 ^ 32" using less.prems(1,2) uint_lt2p [of r32] est(4) by (intro mult_strict_mono) simp_all
  then have "uint (ucast rem * (ucast r32 :: u64)) = x * uint r32" and ql: "q < 2 ^ 32"
    using less.prems(5) by (simp_all add: uint_mult_small uint_ucast_up q_def int_div_less_iff)
  then have "uint (ucast (drop_bit 32 (ucast rem * (ucast r32 :: u64))) :: u32) = q" by (simp add: uint_ucast_small uint_drop q_def)
  then have qw: "ucast (drop_bit 32 (ucast rem * (ucast r32 :: u64))) = (word_of_int q :: u32)" by (metis word_of_int_uint)
  show ?case
  proof (cases "e < 0")
    case True
    then have "f32_rem_loop r32 sigB e rem = (word_of_int q, word_of_int x, e)"
      using rem unfolding f32_rem_loop.simps [of r32 sigB e rem] Let_def qw by simp
    then show ?thesis using True less.prems q_def by (intro exI [of _ q] exI [of _ x] exI [of _ e] exI [of _ 0]) simp
  next
    case False
    define y where "y = x * 2 ^ 29 - q * ?B"
    have y: "0 \<le> y" "y < 2 ^ 31" using est m by (simp_all add: y_def algebra_simps)
    have y8: "8 dvd y" unfolding y_def using less.prems(3) by (intro dvd_diff dvd_mult2 dvd_mult) simp_all
    from less.prems(3) obtain t where t: "x = 8 * t" ..
    have "uint (ucast sigB :: u32) = ?B" using B m by (subst uint_ucast_small) simp_all
    then have "ucast sigB = (word_of_int ?B :: u32)" by (metis word_of_int_uint)
    then have "- (word_of_int q * ucast sigB) = (word_of_int (- (q * ?B)) :: u32)" by simp
    also have "\<dots> = word_of_int y"
    proof -
      have "y = - (q * ?B) + t * 2 ^ 32" by (simp add: y_def t)
      then have "y mod 2 ^ 32 = (- (q * ?B)) mod 2 ^ 32" by (simp only: mod_mult_self1)
      then show ?thesis by (intro word_of_int_cong) simp
    qed
    finally have step: "f32_rem_loop r32 sigB e rem = f32_rem_loop r32 sigB (e - 29) (word_of_int y)"
      unfolding f32_rem_loop.simps [of r32 sigB e rem] Let_def qw using False by simp
    have uy: "uint (word_of_int y :: u32) = y" using y by (intro uint_of_nonneg) simp_all
    have "\<exists>q' y' f n. f32_rem_loop r32 sigB (e - 29) (word_of_int y) = (word_of_int q', word_of_int y', f) \<and> 0 \<le> y' \<and> y' < 2 ^ 31 \<and>
        - 30 \<le> f \<and> f < 0 \<and> q' = y' * uint r32 div 2 ^ 32 \<and> y * 2 ^ nat (e - 29 + 30) = 2 * n * ?B + y' * 2 ^ nat (f + 30)"
      by (rule less.hyps [OF _ y y8 _ uy]) (use False in simp_all)
    then obtain q' y' f n where IH:
      "f32_rem_loop r32 sigB (e - 29) (word_of_int y) = (word_of_int q', word_of_int y', f)" "0 \<le> y'" "y' < 2 ^ 31" "- 30 \<le> f" "f < 0"
      "q' = y' * uint r32 div 2 ^ 32" "y * 2 ^ nat (e - 29 + 30) = 2 * n * ?B + y' * 2 ^ nat (f + 30)" by (elim exE conjE)
    have p: "(2::int) ^ nat (e + 30) = 2 ^ 29 * 2 ^ nat (e + 1)" "(2::int) ^ nat (e + 1) = 2 * 2 ^ nat e"
      using False by (simp_all add: nat_add_distrib power_add)
    have e1: "e - 29 + 30 = e + 1" by simp
    have "x * 2 ^ nat (e + 30) = (y + q * ?B) * 2 ^ nat (e + 1)" unfolding p(1) y_def by (simp add: algebra_simps)
    also have "\<dots> = 2 * n * ?B + y' * 2 ^ nat (f + 30) + q * ?B * (2 * 2 ^ nat e)"
      unfolding distrib_right p(2) [symmetric] using IH(7) [unfolded e1] by (simp only:)
    finally have "x * 2 ^ nat (e + 30) = 2 * (n + q * 2 ^ nat e) * ?B + y' * 2 ^ nat (f + 30)" by (simp add: algebra_simps)
    then show ?thesis using IH(1-6) unfolding step by (intro exI conjI)
  qed
qed

lemma f32_rem_last:
  assumes m: "2 ^ 23 \<le> m" "m < 2 ^ 24" and B: "uint sigB = m * 64" and r: "r = (2 ^ 63 - 1) div (m * 256)"
    and y: "0 \<le> y" "y < 2 ^ 31" and f: "- 30 \<le> f" "f < 0" and q: "q = y * r div 2 ^ 32" and p: "p = q div 2 ^ nat (- f - 1)"
  shows "drop_bit (nat (- f - 1)) (word_of_int q :: u32) = word_of_int p"
    "push_bit (nat (f + 30)) (word_of_int y) - word_of_int p * ucast sigB = (word_of_int (y * 2 ^ nat (f + 30) - p * (m * 64)) :: u32)"
    "0 \<le> y * 2 ^ nat (f + 30) - p * (m * 64)" "2 * (y * 2 ^ nat (f + 30) - p * (m * 64)) < 3 * (m * 64)"
proof -
  define j s where "j = nat (- f - 1)" and "s = nat (f + 30)"
  have js: "s + j = 29" using f by (simp add: j_def s_def nat_add_distrib [symmetric])
  let ?B = "m * 64"
  note est = rem32_estimate [OF refl m(1) r y q]
  have "q * 2 ^ 32 \<le> y * r" using int_div_bounds(1) [of "2 ^ 32" "y * r"] by (simp add: q)
  moreover have "r < 2 ^ 33" unfolding r using m by (simp add: int_div_less_iff)
  then have "y * r < 2 ^ 31 * 2 ^ 33" using y est(4) by (intro mult_strict_mono) simp_all
  ultimately have q32: "q < 2 ^ 32" by simp
  have "uint (drop_bit j (word_of_int q :: u32)) = p"
    using q32 est(3) uint_of_nonneg [of q, where 'a = 32] by (simp add: uint_drop p j_def)
  then show "drop_bit (nat (- f - 1)) (word_of_int q :: u32) = word_of_int p" unfolding j_def by (metis word_of_int_uint)
  have "uint (ucast sigB :: u32) = ?B" using B m by (subst uint_ucast_small) simp_all
  then have "ucast sigB = (word_of_int ?B :: u32)" by (metis word_of_int_uint)
  then show "push_bit (nat (f + 30)) (word_of_int y) - word_of_int p * ucast sigB = (word_of_int (y * 2 ^ nat (f + 30) - p * (m * 64)) :: u32)"
    by (simp add: push_bit_eq_mult)
  have pb: "p * 2 ^ j \<le> q" "q + 1 \<le> (p + 1) * 2 ^ j" using int_div_bounds [of "2 ^ j" q] by (simp_all add: p j_def)
  have s29: "y * 2 ^ 29 = y * 2 ^ s * 2 ^ j" unfolding js [symmetric] power_add by simp
  have Bp: "0 < ?B" using m by simp
  have "p * ?B * 2 ^ j \<le> q * ?B" using mult_right_mono [OF pb(1), of ?B] Bp by (simp add: mult_ac)
  also have "\<dots> \<le> y * 2 ^ s * 2 ^ j" using est(1) unfolding s29 .
  finally have "p * ?B \<le> y * 2 ^ s" by (rule mult_right_le_imp_le) simp
  then show "0 \<le> y * 2 ^ nat (f + 30) - p * (m * 64)" by (simp add: s_def)
  have "2 * (y * 2 ^ s) * 2 ^ j = 2 * (y * 2 ^ 29)" unfolding s29 by simp
  also note est(2)
  also have "(2 * q + 3) * ?B \<le> (2 * ((p + 1) * 2 ^ j) + 1 * 2 ^ j) * ?B"
    using pb(2) Bp one_le_power [of "2::int" j] by (intro mult_right_mono) linarith+
  also have "\<dots> = (2 * p + 3) * ?B * 2 ^ j" by (simp add: algebra_simps)
  finally have "2 * (y * 2 ^ s) < (2 * p + 3) * ?B" by (rule mult_right_less_imp_less) simp
  then show "2 * (y * 2 ^ nat (f + 30) - p * (m * 64)) < 3 * (m * 64)" by (simp add: s_def algebra_simps)
qed

text \<open>Subtracting the divisor ends, with the two remainders around zero.\<close>

lemma f32_rem_subtract_correct:
  assumes B: "uint sigB = B" "0 < B" "B \<le> 2 ^ 31"
  shows "0 \<le> x \<Longrightarrow> x < 2 ^ 31 \<Longrightarrow> f32_rem_subtract sigB (word_of_int n) (word_of_int x) =
    Some (word_of_int (n + x div B + 1), word_of_int (x mod B), word_of_int (x mod B - B))"
proof (induction "nat (x div B)" arbitrary: x n)
  case 0
  have "0 \<le> x div B" using 0(2) B(2) by (simp add: pos_imp_zdiv_nonneg_iff)
  then have "x div B = 0" using 0(1) by simp
  then have xm: "x mod B = x" "x < B" using 0(2) B(2) zdiv_eq_0_iff [of x B] by auto
  have "uint (ucast sigB :: u32) = B" using B by (subst uint_ucast_small) simp_all
  then have sB: "ucast sigB = (word_of_int B :: u32)" by (metis word_of_int_uint)
  have "(word_of_int (x - B) :: u32) AND 0x80000000 \<noteq> 0"
    using top_bit_negative(1) [of "x - B" "0x80000000 :: u32"] 0(2) B xm by simp
  then show ?case using \<open>x div B = 0\<close> xm by (subst f32_rem_subtract.simps) (simp add: sB Let_def)
next
  case (Suc k)
  have "uint (ucast sigB :: u32) = B" using B by (subst uint_ucast_small) simp_all
  then have sB: "ucast sigB = (word_of_int B :: u32)" by (metis word_of_int_uint)
  have "1 \<le> x div B" using Suc(2) by simp
  then have xB: "0 \<le> x - B" using B(2) by (simp add: le_int_div_iff)
  then have "\<not> ((word_of_int (x - B) :: u32) AND 0x80000000 \<noteq> 0)"
    using top_bit_negative(1) [of "x - B" "0x80000000 :: u32"] Suc(4) B by simp
  then have "f32_rem_subtract sigB (word_of_int n) (word_of_int x) = f32_rem_subtract sigB (word_of_int (n + 1)) (word_of_int (x - B))"
    by (subst f32_rem_subtract.simps) (simp add: sB Let_def)
  also have d: "(x - B) div B = x div B - 1" "(x - B) mod B = x mod B" using B(2) div_mult_self2 [of B x "- 1"] by simp_all
  then have "f32_rem_subtract sigB (word_of_int (n + 1)) (word_of_int (x - B)) =
      Some (word_of_int (n + 1 + (x - B) div B + 1), word_of_int ((x - B) mod B), word_of_int ((x - B) mod B - B))"
    by (intro Suc(1)) (use Suc(2-4) xB B(2) in simp_all)
  finally show ?case unfolding d by (simp add: add_ac)
qed

lemma normRoundPackToF32_zero:
  assumes "- (2 ^ 14) \<le> e" "e \<le> 256"
  shows "softfloat_normRoundPackToF32 s e 0 st = (ucast (packToF32UI s 0 0), st)"
proof (cases "e - 31 < 0")
  case True
  have u: "0xFD \<le> (word_of_int (e - 31) :: u16)" using u16_of_neg [of "e - 31" "0xFD" "0xFD"] True assms by simp
  have "softfloat_roundPackToF32 s (e - 31) 0 st = (ucast (packToF32UI s 0 0), st)"
    using u True by (simp add: softfloat_roundPackToF32_def softfloat_roundPackToF32_tail_def Let_def
      softfloat_shiftRightJam32_def softfloat_roundIncrement_def del: of_int_diff)
  then show ?thesis using u by (simp add: softfloat_normRoundPackToF32_def countLeadingZeros32_zero Let_def not_less [symmetric] del: of_int_diff)
next
  case False
  then have "(word_of_int (e - 31) :: u16) < 0xFD" using u16_of_pos(2) [of "e - 31" "0xFD"] assms by simp
  then show ?thesis by (simp add: softfloat_normRoundPackToF32_def countLeadingZeros32_zero Let_def del: of_int_diff)
qed

lemma f32_rem_select_correct:
  assumes B: "0 < B" "B < 2 ^ 30" and alt: "0 \<le> alt" "alt < B" and e: "- (2 ^ 14) \<le> e" "e \<le> 256" and k: "even k \<longleftrightarrow> even n"
    and x: "x = n * B + alt - round_int softfloat_round_near_even False (of_int (n * B + alt) / of_int B) * B"
  shows "ieee_result binary32 (if x < 0 then \<not> s else s) (of_int \<bar>x\<bar> * 2 powi (e - 156)) st
    (f32_rem_select s e (word_of_int (k + 1), word_of_int alt, word_of_int (alt - B)) st)"
proof -
  have x': "x = (if 2 * alt < B \<or> 2 * alt = B \<and> even n then alt else alt - B)"
    unfolding x nearest_remainder [OF B(1) alt] by (simp add: algebra_simps)
  have xb: "\<bar>x\<bar> < 2 ^ 30" unfolding x' using alt B by simp
  define mean where "mean = (word_of_int (alt - B) :: u32) + word_of_int alt"
  have mean: "mean = word_of_int (2 * alt - B)" by (simp add: mean_def)
  have "2 * alt - B < 2 ^ 31" "- (2 ^ 31) \<le> 2 * alt - B" using alt B by simp_all
  then have "mean AND 0x80000000 \<noteq> 0 \<longleftrightarrow> 2 * alt < B" "mean = 0 \<longleftrightarrow> 2 * alt = B"
    unfolding mean using top_bit_negative(1) [of "2 * alt - B" "0x80000000 :: u32"] uint_of_negative [of "2 * alt - B", where 'a = 32]
      uint_of_nonneg [of "2 * alt - B", where 'a = 32] uint_eq_0 [of "word_of_int (2 * alt - B) :: u32"]
    by (simp_all del: of_int_diff) force
  moreover have "(word_of_int (k + 1) :: u32) AND 1 \<noteq> 0 \<longleftrightarrow> even n" using last_bit_odd [of "k + 1"] k by simp
  ultimately have rem: "(if mean AND 0x80000000 \<noteq> 0 \<or> mean = 0 \<and> (word_of_int (k + 1) :: u32) AND 1 \<noteq> 0
      then word_of_int alt else word_of_int (alt - B)) = (word_of_int x :: u32)" by (simp only: x' if_distrib [of word_of_int])
  have neg: "0x80000000 \<le> (word_of_int x :: u32) \<longleftrightarrow> x < 0"
    using top_bit_negative(2) [of x "0x80000000 :: u32"] xb by simp
  define z where "z = (ucast (word_of_int \<bar>x\<bar> :: u32) :: u64)"
  have z: "uint z = \<bar>x\<bar>" using xb by (simp add: z_def uint_ucast_up uint_of_nonneg)
  have R: "f32_rem_select s e (word_of_int (k + 1), word_of_int alt, word_of_int (alt - B)) st
      = softfloat_normRoundPackToF32 (if x < 0 then \<not> s else s) e z st"
    unfolding f32_rem_select_def Let_def prod.case mean_def [symmetric] rem neg z_def by (simp add: abs_if)
  show ?thesis
  proof (cases "x = 0")
    case True
    then have "z = 0" using z uint_eq_0 [of z] by simp
    moreover have "ieee_result binary32 s 0 st (ucast (packToF32UI s 0 0) :: u32, st)"
      by (rule rp32.zero_result) (subst uint_packToF32UI, simp_all)
    ultimately show ?thesis unfolding R using True e by (simp add: normRoundPackToF32_zero)
  next
    case False
    then show ?thesis unfolding R by (intro np32.correct_integer) (use z xb e in simp_all)
  qed
qed

lemma f32_rem_subtract_reduced:
  assumes "uint sigB = B" "0 < B" "B \<le> 2 ^ 31" "0 \<le> x" "x < 2 ^ 31" "even k \<longleftrightarrow> even n" "y = of_int (n * B + x)"
  shows "rem_reduced B y (f32_rem_subtract sigB (word_of_int k) (word_of_int x))"
  unfolding f32_rem_subtract_correct [OF assms(1-5)] by (rule rem_reducedI [OF assms(2,6,7)])

lemma f32_rem_recip:
  assumes "2 ^ 23 \<le> uint (s :: u64)" "uint s < 2 ^ 24"
  shows "uint (softfloat_approxRecip32_1 (ucast (push_bit 8 s))) = (2 ^ 63 - 1) div (uint s * 256)"
proof -
  have "uint (push_bit 8 s) = uint s * 256" using assms by (simp add: uint_push_small)
  then have "uint (ucast (ucast (push_bit 8 s) :: u32) :: u64) = uint s * 256"
    using assms by (simp add: uint_ucast_up uint_ucast)
  moreover have "0 \<le> (2 ^ 63 - 1) div (uint s * 256)" "(2 ^ 63 - 1) div (uint s * 256) < 2 ^ 32"
    using assms by (simp_all add: int_div_less_iff pos_imp_zdiv_nonneg_iff)
  ultimately show ?thesis by (simp add: softfloat_approxRecip32_1_def uint_ucast uint_div)
qed

lemma f32_rem_reduce_near:
  assumes a: "2 ^ 23 \<le> a" "a < 2 ^ 24" and b: "2 ^ 23 \<le> uint s" "uint s < 2 ^ 24" and d: "d = - 1 \<or> d = 0"
  shows "rem_reduced (uint s * 64) (of_int a * 64 * 2 powi d) (f32_rem_reduce (word_of_int a) s d)"
proof -
  define q where "q = (if uint s * 64 \<le> a * 64 then 1 else 0 :: int)"
  have B: "uint (push_bit 6 s) = uint s * 64" using b by (simp add: uint_push_small)
  have "uint (ucast (push_bit 6 s) :: u32) = uint s * 64" using B b by (subst uint_ucast_small) simp_all
  then have sB: "ucast (push_bit 6 s) = (word_of_int (uint s * 64) :: u32)" by (metis word_of_int_uint)
  have w: "push_bit 6 (word_of_int a) = (word_of_int (a * 64) :: u32)" "push_bit 5 (word_of_int a) = (word_of_int (a * 32) :: u32)"
    by (simp_all add: push_bit_eq_mult)
  have "uint (ucast (word_of_int (a * 64) :: u32) :: u64) = a * 64" using a by (subst uint_ucast_up) (simp_all add: uint_of_nonneg del: of_int_mult)
  then have le: "push_bit 6 s \<le> ucast (word_of_int (a * 64) :: u32) \<longleftrightarrow> uint s * 64 \<le> a * 64" by (simp only: word_le_uint B)
  note sub = f32_rem_subtract_reduced [OF B]
  from d show ?thesis
  proof
    assume d: "d = - 1"
    then have "f32_rem_reduce (word_of_int a) s d = f32_rem_subtract (push_bit 6 s) (word_of_int 0) (word_of_int (a * 32))"
      by (simp add: f32_rem_reduce_def w del: of_int_mult)
    then show ?thesis using a b d by (simp only:) (intro sub [where n = 0], simp_all)
  next
    assume d: "d = 0"
    then have "f32_rem_reduce (word_of_int a) s d = f32_rem_subtract (push_bit 6 s) (word_of_int q) (word_of_int (a * 64 - q * (uint s * 64)))"
      by (simp add: f32_rem_reduce_def Let_def w le sB q_def del: of_int_mult)
    then show ?thesis using a b d by (simp only:) (intro sub [where n = q], simp_all add: q_def)
  qed
qed

lemma f32_rem_reduce_far:
  assumes a: "2 ^ 23 \<le> a" "a < 2 ^ 24" and b: "2 ^ 23 \<le> uint s" "uint s < 2 ^ 24" and d: "1 \<le> d"
  shows "rem_reduced (uint s * 64) (of_int a * 64 * 2 powi d) (f32_rem_reduce (word_of_int a) s d)"
proof -
  let ?B = "uint s * 64"
  have B: "uint (push_bit 6 s) = ?B" using b by (simp add: uint_push_small)
  have u7: "uint (push_bit 7 (word_of_int a :: u32)) = a * 128" using a by (subst uint_push_small) (simp_all add: uint_of_nonneg)
  note r = f32_rem_recip [OF b]
  obtain q w f n where L: "f32_rem_loop (softfloat_approxRecip32_1 (ucast (push_bit 8 s))) (push_bit 6 s) (d - 31) (push_bit 7 (word_of_int a))
      = (word_of_int q, word_of_int w, f)" "0 \<le> w" "w < 2 ^ 31" "- 30 \<le> f" "f < 0"
      "q = w * uint (softfloat_approxRecip32_1 (ucast (push_bit 8 s))) div 2 ^ 32"
      "a * 128 * 2 ^ nat (d - 31 + 30) = 2 * n * ?B + w * 2 ^ nat (f + 30)"
    using f32_rem_loop_correct [OF b B r _ _ _ _ u7, of "d - 31"] a d by auto
  define p where "p = q div 2 ^ nat (- f - 1)"
  define x where "x = w * 2 ^ nat (f + 30) - p * ?B"
  note last = f32_rem_last [OF b B r L(2,3,4,5,6) p_def]
  have R: "f32_rem_reduce (word_of_int a) s d = f32_rem_subtract (push_bit 6 s) (word_of_int p) (word_of_int x)"
    using d by (simp add: f32_rem_reduce_def L(1) last(1,2) x_def del: of_int_diff)
  have "of_int a * 64 * 2 powi d = real_of_int (a * 128 * 2 ^ nat (d - 31 + 30))"
  proof -
    have "d - int (nat d) = 0" using d by simp
    then have "2 powi d = (2::real) ^ nat d" using d powi_down [of d "nat d"] by (simp add: field_simps)
    moreover have "nat d = Suc (nat (d - 31 + 30))" using d by simp
    ultimately show ?thesis by simp
  qed
  also have "a * 128 * 2 ^ nat (d - 31 + 30) = (2 * n + p) * ?B + x" unfolding L(7) x_def by (simp only: distrib_right)
  finally have y: "of_int a * 64 * 2 powi d = real_of_int ((2 * n + p) * ?B + x)" .
  show ?thesis unfolding R using b last(3,4) by (intro f32_rem_subtract_reduced [OF B _ _ _ _ _ y]) (simp_all add: x_def)
qed

lemma f32_rem_reduce_correct:
  assumes "2 ^ 23 \<le> a" "a < 2 ^ 24" "2 ^ 23 \<le> uint s" "uint s < 2 ^ 24" "\<not> d < - 1"
  shows "rem_reduced (uint s * 64) (of_int a * 64 * 2 powi d) (f32_rem_reduce (word_of_int a) s d)"
proof (cases "1 \<le> d")
  case True
  then show ?thesis using f32_rem_reduce_far [OF assms(1-4)] by simp
next
  case False
  then have "d = - 1 \<or> d = 0" using assms(5) by linarith
  then show ?thesis by (rule f32_rem_reduce_near [OF assms(1-4)])
qed

lemma f32_rem_finite:
  assumes nz: "\<not> enc_zero binary32 (uint a)" "\<not> enc_zero binary32 (uint b)"
    and fin: "enc_finite binary32 (uint a)" "enc_finite binary32 (uint b)"
  shows "rem_result binary32 (enc_sign binary32 (uint a)) (enc_abs binary32 (uint a)) (enc_abs binary32 (uint b)) st (f32_rem a b st)"
proof -
  let ?A = "ucast a :: u64" and ?B = "ucast b :: u64" and ?s = "enc_sign binary32 (uint a)"
  have u: "uint ?A = uint a" "uint ?B = uint b" by (simp_all add: uint_ucast_up)
  obtain ea sa eb sb where ab: "softfloat_normArgF32 (expF32UI ?A) (fracF32UI ?A) = (ea, sa)"
    "softfloat_normArgF32 (expF32UI ?B) (fracF32UI ?B) = (eb, sb)" by force
  define ma mb where "ma = uint (sa OR 0x00800000)" and "mb = uint (sb OR 0x00800000)"
  have na: "norm_operand binary32 (uint a) ea ma" using normArgF32 [OF _ ab(1)] nz(1) by (simp add: u ma_def)
  have nb: "norm_operand binary32 (uint b) eb mb" using normArgF32 [OF _ ab(2)] nz(2) by (simp add: u mb_def)
  have r: "2 ^ 23 \<le> ma" "ma < 2 ^ 24" "2 ^ 23 \<le> mb" "mb < 2 ^ 24" "- (2 ^ 14) \<le> eb" "eb \<le> 256"
    and y: "enc_abs binary32 (uint a) = of_int ma * 2 powi (ea - 150)" and z: "enc_abs binary32 (uint b) = of_int mb * 2 powi (eb - 150)"
    using na nb by (simp_all add: norm_operand_def)
  have "\<not> (expF32UI ?A = 0 \<and> fracF32UI ?A = 0)" "\<not> (expF32UI ?B = 0 \<and> fracF32UI ?B = 0)" "expF32UI ?A \<noteq> 0xFF" "expF32UI ?B \<noteq> 0xFF"
    using nz fin by (auto simp: enc_zero_def enc_finite_def expF32UI_enc fracF32UI_zero u)
  moreover have "signF32UI ?A = ?s" using uint_lt2p [of a] by (simp add: signF32UI_enc u)
  moreover have "uint (ucast (sa OR 0x00800000) :: u32) = ma" using r by (simp add: uint_ucast_small ma_def)
  then have "ucast (sa OR 0x00800000) = (word_of_int ma :: u32)" by (metis word_of_int_uint)
  ultimately have R: "f32_rem a b st = (if ea - eb < - 1 then Some (a, st)
      else map_option (\<lambda>x. f32_rem_select ?s eb x st) (f32_rem_reduce (word_of_int ma) (sb OR 0x00800000) (ea - eb)))"
    unfolding f32_rem_def Let_def ab prod.case by (simp only: if_False simp_thms)
  show ?thesis
  proof (cases "ea - eb < - 1")
    case True
    then show ?thesis unfolding R if_P [OF True] using fin
      by (intro rem_result_small enc_abs_nonneg norm_operand_halved [OF na nb] rp32.exact_result) simp_all
  next
    case False
    have red: "rem_reduced (mb * 64) (of_int ma * 64 * 2 powi (ea - eb)) (f32_rem_reduce (word_of_int ma) (sb OR 0x00800000) (ea - eb))"
      unfolding mb_def by (rule f32_rem_reduce_correct) (use r False in \<open>simp_all add: mb_def\<close>)
    have e: "eb - 156 = (eb - 150) - int 6" by simp
    have "rem_result binary32 ?s (enc_abs binary32 (uint a)) (enc_abs binary32 (uint b)) st
        (map_option (\<lambda>x. f32_rem_select ?s eb x st) (f32_rem_reduce (word_of_int ma) (sb OR 0x00800000) (ea - eb)))"
    proof (rule rem_resultI [OF red, where e = "eb - 156"])
      show "enc_abs binary32 (uint a) = of_int ma * 64 * 2 powi (ea - eb) * 2 powi (eb - 156)"
        unfolding y e powi_down using power_int_add [of "2 :: real" "ea - eb" "eb - 150"] by simp
      show "enc_abs binary32 (uint b) = of_int (mb * 64) * 2 powi (eb - 156)" unfolding z e powi_down by simp
      show "0 < mb * 64" using r by simp
    qed (use r in \<open>intro f32_rem_select_correct; simp\<close>)
    then show ?thesis unfolding R if_not_P [OF False] .
  qed
qed

text \<open>The single-precision remainder returns, and is the one of IEEE 754.\<close>

lemma f32_rem_ieee: "\<exists>r. f32_rem a b st = Some r \<and> ieee_remainder binary32 (uint a) (uint b) st r"
proof -
  let ?A = "ucast a :: u64" and ?B = "ucast b :: u64"
  have u: "uint ?A = uint a" "uint ?B = uint b" by (simp_all add: uint_ucast_up)
  have X: "enc_finite binary32 (uint a) \<Longrightarrow> ieee_result binary32 (enc_sign binary32 (uint a)) (enc_abs binary32 (uint a)) st (a, st)"
    by (rule rp32.exact_result) simp_all
  have D: "nan_result binary32 True st (ucast defaultNaNF32UI :: u32, softfloat_raiseFlags softfloat_flag_invalid st)"
    by (simp add: nan_result_def enc_make_def)
  note N = propagateNaNF32UI_result [of ?A ?B st, unfolded u Let_def]
  note defs = enc_finite_def enc_nan_def enc_inf_def enc_zero_def
  show ?thesis
  proof (cases "enc_finite binary32 (uint a) \<and> enc_finite binary32 (uint b) \<and> \<not> enc_zero binary32 (uint b)")
    case fin: True
    have "rem_result binary32 (enc_sign binary32 (uint a)) (enc_abs binary32 (uint a)) (enc_abs binary32 (uint b)) st (f32_rem a b st)"
    proof (cases "enc_zero binary32 (uint a)")
      case True
      then have "f32_rem a b st = Some (a, st)" "enc_abs binary32 (uint a) = 0" using fin enc_abs_zero
        by (auto simp: f32_rem_def Let_def defs expF32UI_enc fracF32UI_zero u split: prod.splits)
      then show ?thesis using X fin by (simp add: rem_result_zero)
    next
      case False
      then show ?thesis using f32_rem_finite fin by simp
    qed
    then show ?thesis using fin by (subst ieee_remainder_finite) simp_all
  next
    case False
    then show ?thesis using X D N unfolding f32_rem_def Let_def ieee_remainder_def
      by (cases "enc_exp binary32 (uint a) = 255"; cases "enc_exp binary32 (uint b) = 255";
          cases "enc_frac binary32 (uint a) = 0"; cases "enc_frac binary32 (uint b) = 0")
         (simp_all add: defs u expF32UI_enc fracF32UI_zero)
  qed
qed

section \<open>The double-precision remainder\<close>

text \<open>
  The divisor is \<^verbatim>\<open>B\<close>, its upper 32 bits \<^verbatim>\<open>b\<close>; the estimate multiplies the upper 32 bits \<^verbatim>\<open>h\<close>
  of the remainder by the approximate reciprocal \<^verbatim>\<open>r\<close> of \<^verbatim>\<open>b\<close>.
\<close>

lemma rem64_estimate:
  assumes m: "2 ^ 52 \<le> (m :: int)" "m < 2 ^ 53" and B: "B = m * 2 ^ 9" and b: "b = m div 2 ^ 21" and r: "r = (2 ^ 63 - 1) div b"
    and x: "0 \<le> x" "x < 2 * B" "x < 7 * 2 ^ 60" and h: "h = x div 2 ^ 32"
  shows "0 \<le> h * r" "h * r < 2 ^ 62" "h * r * B < x * 2 ^ 61 + 2 ^ 92" "x * 2 ^ 61 < h * r * B + 2 ^ 93 + 7 * 2 ^ 28 * B"
proof -
  have b31: "2 ^ 31 \<le> b" unfolding b using m(1) by (simp add: le_int_div_iff)
  have mb: "b * 2 ^ 21 \<le> m" "m < (b + 1) * 2 ^ 21" using int_div_bounds [of "2 ^ 21" m] by (simp_all add: b)
  have Bb: "b * 2 ^ 30 \<le> B" "B \<le> (b + 1) * 2 ^ 30" using mb by (simp_all add: B)
  have rb: "r * b \<le> 2 ^ 63 - 1" "2 ^ 63 - 1 < (r + 1) * b" using int_div_bounds [of b "2 ^ 63 - 1"] b31 by (simp_all add: r)
  have r0: "0 \<le> r" unfolding r using b31 by (simp add: pos_imp_zdiv_nonneg_iff)
  have hb: "h * 2 ^ 32 \<le> x" "x < (h + 1) * 2 ^ 32" using int_div_bounds [of "2 ^ 32" x] by (simp_all add: h)
  have h0: "0 \<le> h" unfolding h using x(1) by (simp add: pos_imp_zdiv_nonneg_iff)
  have h7: "h \<le> 7 * 2 ^ 28" using hb(1) x(3) by simp
  have "2 * h \<le> b"
  proof -
    have "h * 2 ^ 32 < 2 * ((b + 1) * 2 ^ 30)" using hb(1) x(2) Bb(2) by linarith
    then show ?thesis by simp
  qed
  then have "2 * h * r \<le> r * b" unfolding mult.commute [of r] using r0 by (intro mult_right_mono) simp_all
  then have "2 * (h * r) \<le> 2 ^ 63 - 1" using rb(1) by linarith
  then show hr: "h * r < 2 ^ 62" by simp
  show "0 \<le> h * r" using h0 r0 by simp
  have "r * B \<le> r * ((b + 1) * 2 ^ 30)" using r0 Bb(2) by (intro mult_left_mono)
  also have "\<dots> = r * b * 2 ^ 30 + r * 2 ^ 30" by (simp add: algebra_simps)
  also have "\<dots> \<le> 2 ^ 93 + r * 2 ^ 30" using rb(1) by (simp add: mult.commute [of b])
  finally have "h * (r * B) \<le> h * (2 ^ 93 + r * 2 ^ 30)" using h0 by (rule mult_left_mono)
  also have "\<dots> = h * 2 ^ 32 * 2 ^ 61 + h * r * 2 ^ 30" by (simp add: algebra_simps)
  also have "\<dots> < x * 2 ^ 61 + 2 ^ 92" using hb(1) hr by simp
  finally show "h * r * B < x * 2 ^ 61 + 2 ^ 92" by (simp add: mult.assoc)
  have "2 ^ 93 \<le> (r + 1) * b * 2 ^ 30" using rb(2) by (simp add: mult.commute [of b])
  also have "\<dots> \<le> (r + 1) * B" unfolding mult.assoc using r0 Bb(1) by (intro mult_left_mono) simp_all
  finally have "h * 2 ^ 93 \<le> h * ((r + 1) * B)" using h0 by (rule mult_left_mono)
  moreover have "h * B \<le> 7 * 2 ^ 28 * B" using h7 m B by (intro mult_right_mono) simp_all
  moreover have "x * 2 ^ 61 < (h + 1) * 2 ^ 32 * 2 ^ 61" using hb(2) by (intro mult_strict_right_mono) simp_all
  ultimately show "x * 2 ^ 61 < h * r * B + 2 ^ 93 + 7 * 2 ^ 28 * B" by (simp add: algebra_simps)
qed

text \<open>One reduction step leaves a remainder between \<^verbatim>\<open>- B\<close> and \<^verbatim>\<open>2 * B\<close>.\<close>

lemma rem64_step:
  assumes m: "2 ^ 52 \<le> (m :: int)" "m < 2 ^ 53" and B: "B = m * 2 ^ 9" and r: "r = (2 ^ 63 - 1) div (m div 2 ^ 21)"
    and x: "0 \<le> x" "x < 2 * B" "x < 7 * 2 ^ 60" and q: "q = (x div 2 ^ 32 * r + 2 ^ 31) div 2 ^ 32"
  shows "- B < x * 2 ^ 29 - q * B" "x * 2 ^ 29 - q * B < 2 * B" "x * 2 ^ 29 - q * B < 7 * 2 ^ 60" "0 \<le> q" "q < 2 ^ 32"
proof -
  define t where "t = x div 2 ^ 32 * r"
  note est = rem64_estimate [OF m B refl r x refl, folded t_def]
  have qb: "q * 2 ^ 32 \<le> t + 2 ^ 31" "t + 2 ^ 31 < (q + 1) * 2 ^ 32" using int_div_bounds [of "2 ^ 32" "t + 2 ^ 31"] by (simp_all add: q t_def)
  show "0 \<le> q" "q < 2 ^ 32" unfolding q t_def [symmetric] using est(1,2) by (simp_all add: int_div_less_iff pos_imp_zdiv_nonneg_iff)
  have B0: "2 ^ 61 \<le> B" "B < 2 ^ 62" using m by (simp_all add: B)
  have "q * 2 ^ 32 * B \<le> (t + 2 ^ 31) * B" using qb(1) B0 by (intro mult_right_mono) simp_all
  then have "q * B * 2 ^ 32 < x * 2 ^ 61 + 2 ^ 92 + 2 ^ 31 * B" using est(3) by (simp add: algebra_simps)
  then show "- B < x * 2 ^ 29 - q * B" using B0 by simp
  have "(t + 2 ^ 31) * B \<le> (q + 1) * 2 ^ 32 * B" using qb(2) B0 by (intro mult_right_mono) simp_all
  then have "x * 2 ^ 61 + 2 ^ 31 * B < (q + 1) * 2 ^ 32 * B + 2 ^ 93 + 7 * 2 ^ 28 * B" using est(4) by (simp add: algebra_simps)
  then have "16 * (x * 2 ^ 29 - q * B) < 2 ^ 65 + 15 * B" by (simp add: algebra_simps)
  then show "x * 2 ^ 29 - q * B < 2 * B" "x * 2 ^ 29 - q * B < 7 * 2 ^ 60" using B0 by simp_all
qed

lemma ucast_div_recip: "uint (ucast (drop_bit 32 (w :: u64)) :: u32) = uint w div 2 ^ 32"
proof -
  have "uint w div 2 ^ 32 < 2 ^ 32" using uint_lt2p [of w] by (simp add: int_div_less_iff)
  then show ?thesis by (simp add: uint_ucast_small uint_drop)
qed

lemma rem64_product:
  assumes m: "2 ^ 52 \<le> m" "m < 2 ^ 53" and B: "B = m * 2 ^ 9" and r: "uint r32 = (2 ^ 63 - 1) div (m div 2 ^ 21)"
    and x: "0 \<le> x" "x < 2 * B" "x < 7 * 2 ^ 60"
  shows "uint (ucast (ucast (drop_bit 32 (word_of_int x :: u64)) :: u32) * (ucast (r32 :: u32) :: u64)) = x div 2 ^ 32 * uint r32"
proof -
  have "uint (word_of_int x :: u64) = x" using x by (intro uint_of_nonneg) simp_all
  then have "uint (ucast (ucast (drop_bit 32 (word_of_int x :: u64)) :: u32) :: u64) = x div 2 ^ 32"
    using ucast_div_recip [of "word_of_int x"] by (simp add: uint_ucast_up)
  moreover note rem64_estimate(1,2) [OF m B refl r x refl]
  ultimately show ?thesis by (subst uint_mult_small) (simp_all add: uint_ucast_up)
qed

lemma f64_rem_loop_correct:
  assumes m: "2 ^ 52 \<le> m" "m < 2 ^ 53" and sB: "uint sigB = B" and B: "B = m * 2 ^ 9" and r: "uint r32 = (2 ^ 63 - 1) div (m div 2 ^ 21)"
  shows "0 \<le> x \<Longrightarrow> x < 2 * B \<Longrightarrow> x < 7 * 2 ^ 60 \<Longrightarrow> - 29 \<le> e \<Longrightarrow>
    \<exists>q64 y f n. f64_rem_loop r32 sigB e (word_of_int x) = (q64, word_of_int y, f) \<and> 0 \<le> y \<and> y < 2 * B \<and> y < 7 * 2 ^ 60 \<and> - 29 \<le> f \<and> f < 0 \<and>
      uint q64 = y div 2 ^ 32 * uint r32 \<and> x * 2 ^ nat (e + 30) = 2 * n * B + y * 2 ^ nat (f + 30)"
proof (induction "nat (e + 30)" arbitrary: e x rule: less_induct)
  case less
  define q64 where "q64 = ucast (ucast (drop_bit 32 (word_of_int x :: u64)) :: u32) * (ucast r32 :: u64)"
  have q64: "uint q64 = x div 2 ^ 32 * uint r32" unfolding q64_def by (rule rem64_product [OF m B r less.prems(1-3)])
  note unfold = f64_rem_loop.simps [of r32 sigB e "word_of_int x", unfolded Let_def, folded q64_def]
  show ?case
  proof (cases "e < 0")
    case True
    then have "f64_rem_loop r32 sigB e (word_of_int x) = (q64, word_of_int x, e)" unfolding unfold by simp
    then show ?thesis using True less.prems q64 by (intro exI [of _ q64] exI [of _ x] exI [of _ e] exI [of _ 0]) simp
  next
    case False
    define q where "q = (x div 2 ^ 32 * uint r32 + 2 ^ 31) div 2 ^ 32"
    note s = rem64_step [OF m B r less.prems(1-3) q_def]
    define d where "d = x * 2 ^ 29 - q * B"
    define k where "k = (if d < 0 then 1 else 0 :: int)"
    have "uint (ucast (drop_bit 32 (q64 + 0x80000000)) :: u32) = q"
      using rem64_estimate(1,2) [OF m B refl r less.prems(1-3) refl] q64
      by (simp add: ucast_div_recip uint_add_small q_def)
    then have "uint (ucast (ucast (drop_bit 32 (q64 + 0x80000000)) :: u32) :: u64) = q" by (simp add: uint_ucast_up)
    then have "ucast (ucast (drop_bit 32 (q64 + 0x80000000)) :: u32) = (word_of_int q :: u64)" by (metis word_of_int_uint)
    moreover have "sigB = word_of_int B" using sB by (metis word_of_int_uint)
    ultimately have w: "push_bit 29 (word_of_int x) - ucast (ucast (drop_bit 32 (q64 + 0x80000000)) :: u32) * sigB = (word_of_int d :: u64)"
      by (simp add: push_bit_eq_mult d_def)
    have "2 ^ 61 \<le> B" "B < 2 ^ 62" using m by (simp_all add: B)
    then have "(word_of_int d :: u64) AND 0x8000000000000000 \<noteq> 0 \<longleftrightarrow> d < 0"
      using top_bit_negative(1) [of d "0x8000000000000000 :: u64"] s(1,3) by (simp add: d_def)
    then have step: "f64_rem_loop r32 sigB e (word_of_int x) = f64_rem_loop r32 sigB (e - 29) (word_of_int (d + k * B))"
      unfolding unfold w using False \<open>sigB = word_of_int B\<close> by (simp add: k_def)
    have y: "0 \<le> d + k * B" "d + k * B < 2 * B" "d + k * B < 7 * 2 ^ 60"
      using s(1-3) [folded d_def] \<open>B < 2 ^ 62\<close> by (simp_all add: k_def)
    have "\<exists>q64 y f n. f64_rem_loop r32 sigB (e - 29) (word_of_int (d + k * B)) = (q64, word_of_int y, f) \<and> 0 \<le> y \<and> y < 2 * B \<and> y < 7 * 2 ^ 60 \<and>
        - 29 \<le> f \<and> f < 0 \<and> uint q64 = y div 2 ^ 32 * uint r32 \<and> (d + k * B) * 2 ^ nat (e - 29 + 30) = 2 * n * B + y * 2 ^ nat (f + 30)"
      by (rule less.hyps [OF _ y]) (use False in simp_all)
    then obtain q' y f n where IH: "f64_rem_loop r32 sigB (e - 29) (word_of_int (d + k * B)) = (q', word_of_int y, f)" "0 \<le> y" "y < 2 * B" "y < 7 * 2 ^ 60"
        "- 29 \<le> f" "f < 0" "uint q' = y div 2 ^ 32 * uint r32" "(d + k * B) * 2 ^ nat (e - 29 + 30) = 2 * n * B + y * 2 ^ nat (f + 30)"
      by (elim exE conjE)
    have p: "(2::int) ^ nat (e + 30) = 2 ^ 29 * 2 ^ nat (e + 1)" "(2::int) ^ nat (e + 1) = 2 * 2 ^ nat e"
      using False by (simp_all add: nat_add_distrib power_add)
    have e1: "e - 29 + 30 = e + 1" by simp
    have "x * 2 ^ nat (e + 30) = (d + k * B + (q - k) * B) * 2 ^ nat (e + 1)" unfolding p(1) d_def by (simp add: algebra_simps)
    also have "\<dots> = 2 * n * B + y * 2 ^ nat (f + 30) + (q - k) * B * (2 * 2 ^ nat e)"
      unfolding distrib_right p(2) [symmetric] using IH(8) [unfolded e1 distrib_right] by (simp only:)
    finally have "x * 2 ^ nat (e + 30) = 2 * (n + (q - k) * 2 ^ nat e) * B + y * 2 ^ nat (f + 30)" by (simp add: algebra_simps)
    then show ?thesis using IH(1-7) unfolding step by (intro exI conjI)
  qed
qed

lemma f64_rem_last:
  assumes m: "2 ^ 52 \<le> m" "m < 2 ^ 53" and sB: "uint sigB = B" and B: "B = m * 2 ^ 9" and r: "r = (2 ^ 63 - 1) div (m div 2 ^ 21)"
    and y: "0 \<le> y" "y < 2 * B" "y < 7 * 2 ^ 60" and f: "- 29 \<le> f" "f < 0" and q: "uint (q64 :: u64) = y div 2 ^ 32 * r"
    and p: "p = uint q64 div 2 ^ 32 div 2 ^ nat (- f - 1)" and d: "d = y * 2 ^ nat (f + 30) - p * B"
  shows "drop_bit (nat (- f - 1)) (ucast (drop_bit 32 q64) :: u32) = word_of_int p"
    "push_bit (nat (f + 30)) (word_of_int y) - ucast (drop_bit (nat (- f - 1)) (ucast (drop_bit 32 q64) :: u32)) * sigB = (word_of_int d :: u64)"
    "- B < d" "d < 2 ^ 63"
proof -
  define j s t where "j = nat (- f - 1)" and "s = nat (f + 30)" and "t = y div 2 ^ 32 * r"
  have js: "s + j = 29" using f by (simp add: j_def s_def nat_add_distrib [symmetric])
  note est = rem64_estimate [OF m B refl r y refl, folded t_def]
  have u: "uint (drop_bit j (ucast (drop_bit 32 q64) :: u32)) = p" unfolding p j_def uint_drop ucast_div_recip ..
  then show "drop_bit (nat (- f - 1)) (ucast (drop_bit 32 q64) :: u32) = word_of_int p" unfolding j_def by (metis word_of_int_uint)
  have "uint (ucast (drop_bit j (ucast (drop_bit 32 q64) :: u32)) :: u64) = p" using u by (simp add: uint_ucast_up)
  then have "ucast (drop_bit j (ucast (drop_bit 32 q64) :: u32)) = (word_of_int p :: u64)" by (metis word_of_int_uint)
  moreover have "sigB = word_of_int B" using sB by (metis word_of_int_uint)
  ultimately show "push_bit (nat (f + 30)) (word_of_int y) - ucast (drop_bit (nat (- f - 1)) (ucast (drop_bit 32 q64) :: u32)) * sigB = (word_of_int d :: u64)"
    by (simp add: push_bit_eq_mult d j_def)
  define c where "c = t div 2 ^ 32"
  have cb: "c * 2 ^ 32 \<le> t" "t < (c + 1) * 2 ^ 32" using int_div_bounds [of "2 ^ 32" t] by (simp_all add: c_def)
  have pb: "p * 2 ^ j \<le> c" "c + 1 \<le> (p + 1) * 2 ^ j" using int_div_bounds [of "2 ^ j" c] by (simp_all add: p q c_def t_def j_def)
  have B0: "2 ^ 61 \<le> B" "B < 2 ^ 62" using m by (simp_all add: B)
  have s29: "y * 2 ^ 29 = y * 2 ^ s * 2 ^ j" unfolding js [symmetric] power_add by simp
  have J: "1 \<le> (2::int) ^ j" by simp
  define tB cB where "tB = t * B" and "cB = c * B"
  have "c * 2 ^ 32 * B \<le> t * B" "t * B \<le> (c + 1) * 2 ^ 32 * B" using cb B0 by (intro mult_right_mono; simp)+
  then have "cB * 2 ^ 32 \<le> tB" "tB \<le> (cB + B) * 2 ^ 32" unfolding tB_def cB_def distrib_right by (simp_all only: mult_ac mult_1)
  then have c1: "cB < y * 2 ^ 29 + B" and c2: "16 * (y * 2 ^ 29) < 16 * (cB + B) + 2 ^ 65 + 7 * B"
    using est(3,4) [folded tB_def] B0 by simp_all
  have "p * 2 ^ j * B \<le> c * B" "(c + 1) * B \<le> (p + 1) * 2 ^ j * B" using pb B0 by (intro mult_right_mono; simp)+
  moreover define P J where "P = p * B * 2 ^ j" and "J = B * 2 ^ j"
  ultimately have P: "P \<le> cB" "cB + B \<le> P + J" unfolding cB_def distrib_right by (simp_all only: mult_ac mult_1)
  have "d * 2 ^ j = y * 2 ^ 29 - P" unfolding s29 d s_def [symmetric] P_def by (simp only: left_diff_distrib)
  then have "- B < d * 2 ^ j" "16 * (d * 2 ^ j) < (2 ^ 65 + 7 * B) + 16 * J" using c1 c2 P by simp_all
  moreover have "- B * 2 ^ j \<le> - B * 1" "(2 ^ 65 + 7 * B) * 1 \<le> (2 ^ 65 + 7 * B) * 2 ^ j"
    using J B0 mult_left_mono [OF J, of B] mult_left_mono [OF J, of "2 ^ 65 + 7 * B"] by simp_all
  ultimately have "- B * 2 ^ j < d * 2 ^ j" "(16 * d) * 2 ^ j < (2 ^ 65 + 23 * B) * 2 ^ j"
    unfolding J_def distrib_right by linarith+
  then have "- B < d" "16 * d < 2 ^ 65 + 23 * B" using mult_right_less_imp_less [of "- B" "2 ^ j" d] by simp_all
  then show "- B < d" "d < 2 ^ 63" using B0 by simp_all
qed

lemma normRoundPackToF64_zero:
  assumes "- (2 ^ 14) \<le> e" "e \<le> 2048"
  shows "softfloat_normRoundPackToF64 s e 0 st = (packToF64UI s 0 0, st)"
proof (cases "e - 63 < 0")
  case True
  have u: "0x7FD \<le> (word_of_int (e - 63) :: u16)" using u16_of_neg [of "e - 63" "0x7FD" "0x7FD"] True assms by simp
  have "softfloat_roundPackToF64 s (e - 63) 0 st = (packToF64UI s 0 0, st)"
    using u True by (simp add: softfloat_roundPackToF64_def softfloat_roundPackToF64_tail_def Let_def
      softfloat_shiftRightJam64_def softfloat_roundIncrement_def del: of_int_diff)
  then show ?thesis using u by (simp add: softfloat_normRoundPackToF64_def countLeadingZeros64_zero Let_def not_less [symmetric] del: of_int_diff)
next
  case False
  then have "(word_of_int (e - 63) :: u16) < 0x7FD" using u16_of_pos(2) [of "e - 63" "0x7FD"] assms by simp
  then show ?thesis by (simp add: softfloat_normRoundPackToF64_def countLeadingZeros64_zero Let_def del: of_int_diff)
qed

lemma f64_rem_subtract_correct:
  assumes B: "uint sigB = B" "0 < B" "B \<le> 2 ^ 63"
  shows "0 \<le> x \<Longrightarrow> x < 2 ^ 63 \<Longrightarrow> f64_rem_subtract sigB (word_of_int n) (word_of_int x) =
    Some (word_of_int (n + x div B + 1), word_of_int (x mod B), word_of_int (x mod B - B))"
proof (induction "nat (x div B)" arbitrary: x n)
  case 0
  have "0 \<le> x div B" using 0(2) B(2) by (simp add: pos_imp_zdiv_nonneg_iff)
  then have "x div B = 0" using 0(1) by simp
  then have xm: "x mod B = x" "x < B" using 0(2) B(2) zdiv_eq_0_iff [of x B] by auto
  have sB: "sigB = word_of_int B" using B(1) by (metis word_of_int_uint)
  have "(word_of_int (x - B) :: u64) AND 0x8000000000000000 \<noteq> 0"
    using top_bit_negative(1) [of "x - B" "0x8000000000000000 :: u64"] 0(2) B xm by simp
  then show ?case using \<open>x div B = 0\<close> xm by (subst f64_rem_subtract.simps) (simp add: sB Let_def)
next
  case (Suc k)
  have sB: "sigB = word_of_int B" using B(1) by (metis word_of_int_uint)
  have "1 \<le> x div B" using Suc(2) by simp
  then have xB: "0 \<le> x - B" using B(2) by (simp add: le_int_div_iff)
  then have "\<not> ((word_of_int (x - B) :: u64) AND 0x8000000000000000 \<noteq> 0)"
    using top_bit_negative(1) [of "x - B" "0x8000000000000000 :: u64"] Suc(4) B by simp
  then have "f64_rem_subtract sigB (word_of_int n) (word_of_int x) = f64_rem_subtract sigB (word_of_int (n + 1)) (word_of_int (x - B))"
    by (subst f64_rem_subtract.simps) (simp add: sB Let_def)
  also have d: "(x - B) div B = x div B - 1" "(x - B) mod B = x mod B" using B(2) div_mult_self2 [of B x "- 1"] by simp_all
  then have "f64_rem_subtract sigB (word_of_int (n + 1)) (word_of_int (x - B)) =
      Some (word_of_int (n + 1 + (x - B) div B + 1), word_of_int ((x - B) mod B), word_of_int ((x - B) mod B - B))"
    by (intro Suc(1)) (use Suc(2-4) xB B(2) in simp_all)
  finally show ?case unfolding d by (simp add: add_ac)
qed

lemma f64_rem_select_correct:
  assumes B: "0 < B" "B < 2 ^ 62" and alt: "0 \<le> alt" "alt < B" and e: "- (2 ^ 14) \<le> e" "e \<le> 2048" and k: "even k \<longleftrightarrow> even n"
    and x: "x = n * B + alt - round_int softfloat_round_near_even False (of_int (n * B + alt) / of_int B) * B"
  shows "ieee_result binary64 (if x < 0 then \<not> s else s) (of_int \<bar>x\<bar> * 2 powi (e - 1084)) st
    (f64_rem_select s e (word_of_int (k + 1), word_of_int alt, word_of_int (alt - B)) st)"
proof -
  have x': "x = (if 2 * alt < B \<or> 2 * alt = B \<and> even n then alt else alt - B)"
    unfolding x nearest_remainder [OF B(1) alt] by (simp add: algebra_simps)
  have xb: "\<bar>x\<bar> < 2 ^ 62" unfolding x' using alt B by simp
  define mean where "mean = (word_of_int (alt - B) :: u64) + word_of_int alt"
  have mean: "mean = word_of_int (2 * alt - B)" by (simp add: mean_def)
  have "2 * alt - B < 2 ^ 63" "- (2 ^ 63) \<le> 2 * alt - B" using alt B by simp_all
  then have "mean AND 0x8000000000000000 \<noteq> 0 \<longleftrightarrow> 2 * alt < B" "mean = 0 \<longleftrightarrow> 2 * alt = B"
    unfolding mean using top_bit_negative(1) [of "2 * alt - B" "0x8000000000000000 :: u64"] uint_of_negative [of "2 * alt - B", where 'a = 64]
      uint_of_nonneg [of "2 * alt - B", where 'a = 64] uint_eq_0 [of "word_of_int (2 * alt - B) :: u64"]
    by (simp_all del: of_int_diff) force
  moreover have "(word_of_int (k + 1) :: u32) AND 1 \<noteq> 0 \<longleftrightarrow> even n" using last_bit_odd [of "k + 1"] k by simp
  ultimately have rem: "(if mean AND 0x8000000000000000 \<noteq> 0 \<or> mean = 0 \<and> (word_of_int (k + 1) :: u32) AND 1 \<noteq> 0
      then word_of_int alt else word_of_int (alt - B)) = (word_of_int x :: u64)" by (simp only: x' if_distrib [of word_of_int])
  have neg: "(word_of_int x :: u64) AND 0x8000000000000000 \<noteq> 0 \<longleftrightarrow> x < 0"
    using top_bit_negative(1) [of x "0x8000000000000000 :: u64"] xb by simp
  define z where "z = (word_of_int \<bar>x\<bar> :: u64)"
  have z: "uint z = \<bar>x\<bar>" using xb by (simp add: z_def uint_of_nonneg)
  have R: "f64_rem_select s e (word_of_int (k + 1), word_of_int alt, word_of_int (alt - B)) st
      = softfloat_normRoundPackToF64 (if x < 0 then \<not> s else s) e z st"
    unfolding f64_rem_select_def Let_def prod.case mean_def [symmetric] rem neg z_def by (simp add: abs_if)
  show ?thesis
  proof (cases "x = 0")
    case True
    then have "z = 0" using z uint_eq_0 [of z] by simp
    moreover have "ieee_result binary64 s 0 st (packToF64UI s 0 0, st)"
      by (rule rp64.zero_result) (subst uint_packToF64UI, simp_all)
    ultimately show ?thesis unfolding R using True e by (simp add: normRoundPackToF64_zero)
  next
    case False
    then show ?thesis unfolding R by (intro np64.correct_integer) (use z xb e in simp_all)
  qed
qed

lemma f64_rem_subtract_reduced:
  assumes "uint sigB = B" "0 < B" "B \<le> 2 ^ 63" "0 \<le> x" "x < 2 ^ 63" "even k \<longleftrightarrow> even n" "y = of_int (n * B + x)"
  shows "rem_reduced B y (f64_rem_subtract sigB (word_of_int k) (word_of_int x))"
  unfolding f64_rem_subtract_correct [OF assms(1-5)] by (rule rem_reducedI [OF assms(2,6,7)])

lemma f64_rem_recip:
  assumes "2 ^ 52 \<le> uint (s :: u64)" "uint s < 2 ^ 53"
  shows "uint (softfloat_approxRecip32_1 (ucast (drop_bit 21 s))) = (2 ^ 63 - 1) div (uint s div 2 ^ 21)"
proof -
  have "uint s div 2 ^ 21 < 2 ^ 32" "2 ^ 31 \<le> uint s div 2 ^ 21" using assms by (simp_all add: int_div_less_iff le_int_div_iff)
  moreover from this have "uint (ucast (ucast (drop_bit 21 s) :: u32) :: u64) = uint s div 2 ^ 21"
    by (simp add: uint_ucast_up uint_ucast_small uint_drop)
  moreover have "0 \<le> (2 ^ 63 - 1) div (uint s div 2 ^ 21)" "(2 ^ 63 - 1) div (uint s div 2 ^ 21) < 2 ^ 32"
    using calculation(2) by (simp_all add: int_div_less_iff pos_imp_zdiv_nonneg_iff)
  ultimately show ?thesis by (simp add: softfloat_approxRecip32_1_def uint_ucast uint_div)
qed

lemma f64_rem_reduce_near:
  assumes a: "2 ^ 52 \<le> a" "a < 2 ^ 53" and b: "2 ^ 52 \<le> uint s" "uint s < 2 ^ 53" and d: "d = - 1 \<or> d = 0"
  shows "rem_reduced (uint s * 2 ^ 9) (of_int a * 2 ^ 9 * 2 powi d) (f64_rem_reduce (word_of_int a) s d)"
proof -
  define q where "q = (if uint s * 2 ^ 9 \<le> a * 2 ^ 9 then 1 else 0 :: int)"
  have B: "uint (push_bit 9 s) = uint s * 2 ^ 9" using b by (simp add: uint_push_small)
  then have sB: "push_bit 9 s = word_of_int (uint s * 2 ^ 9)" by (metis word_of_int_uint)
  have w: "push_bit 9 (word_of_int a) = (word_of_int (a * 2 ^ 9) :: u64)" "push_bit 8 (word_of_int a) = (word_of_int (a * 2 ^ 8) :: u64)"
    by (simp_all add: push_bit_eq_mult)
  have "uint (word_of_int (a * 2 ^ 9) :: u64) = a * 2 ^ 9" using a by (intro uint_of_nonneg) simp_all
  then have le: "push_bit 9 s \<le> word_of_int (a * 2 ^ 9) \<longleftrightarrow> uint s * 2 ^ 9 \<le> a * 2 ^ 9" by (simp only: word_le_uint B)
  note sub = f64_rem_subtract_reduced [OF B]
  from d show ?thesis
  proof
    assume d: "d = - 1"
    then have "f64_rem_reduce (word_of_int a) s d = f64_rem_subtract (push_bit 9 s) (word_of_int 0) (word_of_int (a * 2 ^ 8))"
      unfolding f64_rem_reduce_def Let_def w by simp
    then show ?thesis using a b d by (simp only:) (intro sub [where n = 0], simp_all)
  next
    assume d: "d = 0"
    then have "f64_rem_reduce (word_of_int a) s d = f64_rem_subtract (push_bit 9 s) (word_of_int q)
        (if q = 1 then word_of_int (a * 2 ^ 9) - push_bit 9 s else word_of_int (a * 2 ^ 9))"
      unfolding f64_rem_reduce_def Let_def w le q_def by simp
    also have "(if q = 1 then word_of_int (a * 2 ^ 9) - push_bit 9 s else word_of_int (a * 2 ^ 9)) = word_of_int (a * 2 ^ 9 - q * (uint s * 2 ^ 9))"
      unfolding sB by (simp add: q_def)
    finally show ?thesis using a b d by (simp only:) (intro sub [where n = q], simp_all add: q_def)
  qed
qed

lemma f64_rem_reduce_far:
  assumes a: "2 ^ 52 \<le> a" "a < 2 ^ 53" and b: "2 ^ 52 \<le> uint s" "uint s < 2 ^ 53" and d: "1 \<le> d"
  shows "rem_reduced (uint s * 2 ^ 9) (of_int a * 2 ^ 9 * 2 powi d) (f64_rem_reduce (word_of_int a) s d)"
proof -
  define B where "B = uint s * 2 ^ 9"
  have B: "uint (push_bit 9 s) = B" "2 ^ 61 \<le> B" "B < 2 ^ 62" using b by (simp_all add: uint_push_small B_def)
  have w9: "push_bit 9 (word_of_int a) = (word_of_int (a * 2 ^ 9) :: u64)" by (simp add: push_bit_eq_mult)
  note r = f64_rem_recip [OF b]
  have a9: "0 \<le> a * 2 ^ 9" "a * 2 ^ 9 < 2 * B" "a * 2 ^ 9 < 7 * 2 ^ 60" "- 29 \<le> d - 30" using a d B by simp_all
  obtain q64 w f n where L: "f64_rem_loop (softfloat_approxRecip32_1 (ucast (drop_bit 21 s))) (push_bit 9 s) (d - 30) (word_of_int (a * 2 ^ 9))
      = (q64, word_of_int w, f)" "0 \<le> w" "w < 2 * B" "w < 7 * 2 ^ 60" "- 29 \<le> f" "f < 0"
      "uint q64 = w div 2 ^ 32 * uint (softfloat_approxRecip32_1 (ucast (drop_bit 21 s)))"
      "a * 2 ^ 9 * 2 ^ nat (d - 30 + 30) = 2 * n * B + w * 2 ^ nat (f + 30)"
    using f64_rem_loop_correct [OF b B(1) B_def r a9] by (elim exE conjE)
  define p where "p = uint q64 div 2 ^ 32 div 2 ^ nat (- f - 1)"
  define x where "x = w * 2 ^ nat (f + 30) - p * B"
  note last = f64_rem_last [OF b B(1) B_def r L(2-7) p_def x_def]
  have neg: "(word_of_int x :: u64) AND 0x8000000000000000 \<noteq> 0 \<longleftrightarrow> x < 0"
    using top_bit_negative(1) [of x "0x8000000000000000 :: u64"] last(3,4) B by simp
  have sB: "push_bit 9 s = word_of_int B" using B(1) by (metis word_of_int_uint)
  have R: "f64_rem_reduce (word_of_int a) s d = (if x < 0 then Some (word_of_int p, word_of_int (x + B), word_of_int x)
      else f64_rem_subtract (push_bit 9 s) (word_of_int p) (word_of_int x))"
    using d unfolding f64_rem_reduce_def Let_def w9 L(1) prod.case last(1) last(2) [unfolded last(1)] neg by (simp add: sB)
  have "2 powi d = (2::real) ^ nat (d - 30 + 30)" using d by (simp add: power_int_def)
  then have "of_int a * 2 ^ 9 * 2 powi d = real_of_int (a * 2 ^ 9 * 2 ^ nat (d - 30 + 30))" by simp
  also have "a * 2 ^ 9 * 2 ^ nat (d - 30 + 30) = (2 * n + p) * B + x" unfolding L(8) x_def by (simp only: distrib_right)
  finally have y: "of_int a * 2 ^ 9 * 2 powi d = real_of_int ((2 * n + p) * B + x)" .
  show ?thesis unfolding R B_def [symmetric]
  proof (cases "x < 0")
    case True
    then have "x div B = - 1" "x mod B = x + B" using last(3) int_div_pos_eq [of x B "- 1" "x + B"] int_mod_pos_eq [of x B "- 1" "x + B"] by simp_all
    then show "rem_reduced B (of_int a * 2 ^ 9 * 2 powi d) (if x < 0 then Some (word_of_int p, word_of_int (x + B), word_of_int x)
      else f64_rem_subtract (push_bit 9 s) (word_of_int p) (word_of_int x))"
      using rem_reducedI [OF _ _ y, of p] B True by simp
  next
    case False
    then show "rem_reduced B (of_int a * 2 ^ 9 * 2 powi d) (if x < 0 then Some (word_of_int p, word_of_int (x + B), word_of_int x)
      else f64_rem_subtract (push_bit 9 s) (word_of_int p) (word_of_int x))"
      using f64_rem_subtract_reduced [OF B(1) _ _ _ last(4) _ y, of p] B by simp
  qed
qed

lemma f64_rem_reduce_correct:
  assumes "2 ^ 52 \<le> a" "a < 2 ^ 53" "2 ^ 52 \<le> uint s" "uint s < 2 ^ 53" "\<not> d < - 1"
  shows "rem_reduced (uint s * 2 ^ 9) (of_int a * 2 ^ 9 * 2 powi d) (f64_rem_reduce (word_of_int a) s d)"
proof (cases "1 \<le> d")
  case True
  then show ?thesis using f64_rem_reduce_far [OF assms(1-4)] by simp
next
  case False
  then have "d = - 1 \<or> d = 0" using assms(5) by linarith
  then show ?thesis by (rule f64_rem_reduce_near [OF assms(1-4)])
qed

lemma enc_abs_halved:
  assumes "enc_exp fmt u < enc_exp fmt v - 1"
  shows "enc_abs fmt u < enc_abs fmt v / 2"
proof -
  have nb: "norm_operand fmt v (enc_exp fmt v) (2 ^ fmt_fw fmt + enc_frac fmt v)"
    by (rule norm_operand_normal) (use assms enc_field_range(1) [of fmt u] in linarith)
  show ?thesis
  proof (cases "enc_exp fmt u = 0")
    case True
    let ?q = "fmt_qmin fmt"
    have "enc_abs fmt u < of_int (2 ^ fmt_fw fmt) * 2 powi ?q"
      unfolding enc_abs_def enc_sig_def using True enc_field_range(4) [of fmt u]
      by (simp del: of_int_power) 
    also have "\<dots> \<le> of_int (2 ^ fmt_fw fmt) * 2 powi (enc_exp fmt v - 1 + ?q - int 1)"
      using assms True by (intro mult_left_mono power_int_increasing) simp_all
    also have "\<dots> \<le> enc_abs fmt v / 2"
      using nb enc_field_range(3) [of fmt v] unfolding norm_operand_def powi_down by (auto intro!: divide_right_mono mult_right_mono)
    finally show ?thesis .
  next
    case False
    show ?thesis by (rule norm_operand_halved [OF norm_operand_normal [OF False] nb]) (use assms in simp)
  qed
qed

lemma f64_rem_finite:
  assumes nz: "\<not> enc_zero binary64 (uint a)" "\<not> enc_zero binary64 (uint b)"
    and fin: "enc_finite binary64 (uint a)" "enc_finite binary64 (uint b)"
  shows "rem_result binary64 (enc_sign binary64 (uint a)) (enc_abs binary64 (uint a)) (enc_abs binary64 (uint b)) st (f64_rem a b st)"
proof -
  let ?s = "enc_sign binary64 (uint a)"
  obtain ea sa eb sb where ab: "softfloat_normArgF64 (expF64UI a) (fracF64UI a) = (ea, sa)"
    "softfloat_normArgF64 (expF64UI b) (fracF64UI b) = (eb, sb)" by force
  define ma mb where "ma = uint (sa OR 0x0010000000000000)" and "mb = uint (sb OR 0x0010000000000000)"
  have na: "norm_operand binary64 (uint a) ea ma" using normArgF64 [OF _ ab(1)] nz(1) by (simp add: ma_def)
  have nb: "norm_operand binary64 (uint b) eb mb" using normArgF64 [OF _ ab(2)] nz(2) by (simp add: mb_def)
  have r: "2 ^ 52 \<le> ma" "ma < 2 ^ 53" "2 ^ 52 \<le> mb" "mb < 2 ^ 53" "- (2 ^ 14) \<le> eb" "eb \<le> 2048"
    and y: "enc_abs binary64 (uint a) = of_int ma * 2 powi (ea - 1075)" and z: "enc_abs binary64 (uint b) = of_int mb * 2 powi (eb - 1075)"
    using na nb by (simp_all add: norm_operand_def)
  have "\<not> (expF64UI a = 0 \<and> fracF64UI a = 0)" "\<not> (expF64UI b = 0 \<and> fracF64UI b = 0)" "expF64UI a \<noteq> 0x7FF" "expF64UI b \<noteq> 0x7FF"
    using nz fin by (auto simp: enc_zero_def enc_finite_def expF64UI_enc fracF64UI_zero)
  moreover have "signF64UI a = ?s" using uint_lt2p [of a] by (simp add: signF64UI_enc)
  moreover have "sa OR 0x0010000000000000 = word_of_int ma" unfolding ma_def by (metis word_of_int_uint)
  ultimately have R: "f64_rem a b st = (if expF64UI a < expF64UI b - 1 \<or> ea - eb < - 1 then Some (a, st)
      else map_option (\<lambda>x. f64_rem_select ?s eb x st) (f64_rem_reduce (word_of_int ma) (sb OR 0x0010000000000000) (ea - eb)))"
    unfolding f64_rem_def Let_def ab prod.case by (cases "expF64UI a < expF64UI b - 1") (simp_all only: if_False if_True simp_thms)
  show ?thesis
  proof (cases "expF64UI a < expF64UI b - 1 \<or> ea - eb < - 1")
    case True
    then have "enc_abs binary64 (uint a) < enc_abs binary64 (uint b) / 2"
      using norm_operand_halved [OF na nb] enc_abs_halved [of binary64 "uint a" "uint b"] by (auto simp: expF64UI_enc)
    then show ?thesis unfolding R if_P [OF True] using fin
      by (intro rem_result_small enc_abs_nonneg rp64.exact_result) simp_all
  next
    case False
    have red: "rem_reduced (mb * 2 ^ 9) (of_int ma * 2 ^ 9 * 2 powi (ea - eb)) (f64_rem_reduce (word_of_int ma) (sb OR 0x0010000000000000) (ea - eb))"
      unfolding mb_def by (rule f64_rem_reduce_correct) (use r False in \<open>simp_all add: mb_def\<close>)
    have e: "eb - 1084 = (eb - 1075) - int 9" by simp
    have "rem_result binary64 ?s (enc_abs binary64 (uint a)) (enc_abs binary64 (uint b)) st
        (map_option (\<lambda>x. f64_rem_select ?s eb x st) (f64_rem_reduce (word_of_int ma) (sb OR 0x0010000000000000) (ea - eb)))"
    proof (rule rem_resultI [OF red, where e = "eb - 1084"])
      show "enc_abs binary64 (uint a) = of_int ma * 2 ^ 9 * 2 powi (ea - eb) * 2 powi (eb - 1084)"
        unfolding y e powi_down using power_int_add [of "2 :: real" "ea - eb" "eb - 1075"] by simp
      show "enc_abs binary64 (uint b) = of_int (mb * 2 ^ 9) * 2 powi (eb - 1084)" unfolding z e powi_down by simp
      show "0 < mb * 2 ^ 9" using r by simp
    qed (use r in \<open>intro f64_rem_select_correct; simp\<close>)
    then show ?thesis unfolding R if_not_P [OF False] .
  qed
qed

text \<open>The double-precision remainder returns, and is the one of IEEE 754.\<close>

lemma f64_rem_ieee: "\<exists>r. f64_rem a b st = Some r \<and> ieee_remainder binary64 (uint a) (uint b) st r"
proof -
  have X: "enc_finite binary64 (uint a) \<Longrightarrow> ieee_result binary64 (enc_sign binary64 (uint a)) (enc_abs binary64 (uint a)) st (a, st)"
    by (rule rp64.exact_result) simp_all
  have D: "nan_result binary64 True st (defaultNaNF64UI, softfloat_raiseFlags softfloat_flag_invalid st)"
    by (simp add: nan_result_def enc_make_def)
  note N = propagateNaNF64UI_result [of a b st, unfolded Let_def]
  note defs = enc_finite_def enc_nan_def enc_inf_def enc_zero_def
  show ?thesis
  proof (cases "enc_finite binary64 (uint a) \<and> enc_finite binary64 (uint b) \<and> \<not> enc_zero binary64 (uint b)")
    case fin: True
    have "rem_result binary64 (enc_sign binary64 (uint a)) (enc_abs binary64 (uint a)) (enc_abs binary64 (uint b)) st (f64_rem a b st)"
    proof (cases "enc_zero binary64 (uint a)")
      case True
      then have "f64_rem a b st = Some (a, st)" "enc_abs binary64 (uint a) = 0" using fin enc_abs_zero
        by (auto simp: f64_rem_def Let_def defs expF64UI_enc fracF64UI_zero split: prod.splits)
      then show ?thesis using X fin by (simp add: rem_result_zero)
    next
      case False
      then show ?thesis using f64_rem_finite fin by simp
    qed
    then show ?thesis using fin by (subst ieee_remainder_finite) simp_all
  next
    case False
    then show ?thesis using X D N enc_field_range(1) [of binary64 "uint a"] unfolding f64_rem_def Let_def ieee_remainder_def
      by (cases "enc_exp binary64 (uint a) = 2047"; cases "enc_exp binary64 (uint b) = 2047";
          cases "enc_frac binary64 (uint a) = 0"; cases "enc_frac binary64 (uint b) = 0")
         (simp_all add: defs expF64UI_enc fracF64UI_zero)
  qed
qed


text \<open>C5. f32_rem and f64_rem return for every pair of operands (both of their loops end) and return the IEEE 754 remainder: a - n * b for the integer n nearest to a / b, ties to even, with the invalid and NaN cases.\<close>

theorem float_rem_correct:
  "(\<exists>r. f32_rem a b st = Some r \<and> ieee_remainder binary32 (uint a) (uint b) st r) \<and>
   (\<exists>r. f64_rem c d st = Some r \<and> ieee_remainder binary64 (uint c) (uint d) st r)"
  by (intro conjI f32_rem_ieee f64_rem_ieee)

end
