(* ===== verification/Softfloat_RecipSqrt.thy ===== *)
theory Softfloat_RecipSqrt
  imports Softfloat_Primitives
begin

text \<open>
  The approximate reciprocal square root of \<^verbatim>\<open>s_approxRecipSqrt32_1.c\<close>
  (\<^verbatim>\<open>src/riscv-tools/riscv-isa-sim/softfloat/\<close>): a table of sixteen linear approximations refined by
  one third-order step.  The bounds below are proved for every 32-bit operand: a cubic inequality per
  row of the table, the remainder of the series of the reciprocal square root, and the losses of the
  truncating steps.
\<close>

section \<open>The operations\<close>

definition approxRecipSqrt_k0s :: "u16 list" where
  "approxRecipSqrt_k0s =
     [0xB4C9, 0xFFAB, 0xAA7D, 0xF11C, 0xA1C5, 0xE4C7, 0x9A43, 0xDA29,
      0x93B5, 0xD0E5, 0x8DED, 0xC8B7, 0x88C6, 0xC16D, 0x8424, 0xBAE1]"

definition approxRecipSqrt_k1s :: "u16 list" where
  "approxRecipSqrt_k1s =
     [0xA5A5, 0xEA42, 0x8C21, 0xC62D, 0x788F, 0xAA7F, 0x6928, 0x94B6,
      0x5CC7, 0x8335, 0x52A6, 0x74E2, 0x4A3E, 0x68FE, 0x432B, 0x5EFD]"

text \<open>\<^verbatim>\<open>uint_fast32_t\<close> is 64 bits wide on the platform the library is built for.\<close>

definition softfloat_approxRecipSqrt32_1 :: "u32 \<Rightarrow> u32 \<Rightarrow> u32" where
  "softfloat_approxRecipSqrt32_1 oddExpA a =
     (let index = unat ((drop_bit 27 a AND 0xE) + oddExpA);
          eps = (ucast (drop_bit 12 a) :: u16);
          k0 = (ucast (approxRecipSqrt_k0s ! index) :: u64);
          k1 = (ucast (approxRecipSqrt_k1s ! index) :: u64);
          r0 = (ucast (k0 - drop_bit 20 (k1 * ucast eps)) :: u16);
          ESqrR0 = (ucast r0 * ucast r0 :: u64);
          ESqrR0 = (if oddExpA = 0 then push_bit 1 ESqrR0 else ESqrR0);
          delta0 = (ucast (NOT (drop_bit 23 (ucast (ucast ESqrR0 :: u32) * ucast a :: u64))) :: u32);
          r = push_bit 16 (ucast r0) + drop_bit 25 (ucast r0 * ucast delta0 :: u64);
          sqrDelta0 = (ucast (drop_bit 32 (ucast delta0 * ucast delta0 :: u64)) :: u32);
          r = r + drop_bit 48 (ucast (ucast (drop_bit 1 r + drop_bit 3 r - push_bit 14 (ucast r0)) :: u32) * ucast sqrDelta0);
          r = (if r AND 0x80000000 = 0 then 0x80000000 else r)
      in ucast r)"

section \<open>The reciprocal square root\<close>

lemma cubic_max: "0 \<le> u \<Longrightarrow> 0 \<le> v \<Longrightarrow> 27 * (u\<^sup>2 * v) \<le> 4 * (u + v) ^ 3" for u v :: real
proof -
  assume "0 \<le> u" "0 \<le> v"
  then have "0 \<le> (u - 2 * v)\<^sup>2 * (4 * u + v)" by simp
  then show ?thesis by (simp add: power2_eq_square power3_eq_cube algebra_simps)
qed

lemma cubic_min:
  fixes c d b x :: real
  assumes "0 \<le> x" "x \<le> 1" "0 \<le> d" "d * (b + 2) \<le> 2 * c" "L \<le> c\<^sup>2 * b" "L \<le> (c - d)\<^sup>2 * (b + 1)"
  shows "L \<le> (c - d * x)\<^sup>2 * (b + x)"
proof -
  have "d * (1 + x + b) \<le> d * (b + 2)" using assms(2,3) by (intro mult_left_mono) simp_all
  then have "0 \<le> x * (1 - x) * (d * (2 * c - d * (1 + x + b)))" using assms by (intro mult_nonneg_nonneg) simp_all
  also have "x * (1 - x) * (d * (2 * c - d * (1 + x + b))) =
      (c - d * x)\<^sup>2 * (b + x) - ((1 - x) * (c\<^sup>2 * b) + x * ((c - d)\<^sup>2 * (b + 1)))"
    by (simp add: power2_eq_square algebra_simps)
  finally have "(1 - x) * (c\<^sup>2 * b) + x * ((c - d)\<^sup>2 * (b + 1)) \<le> (c - d * x)\<^sup>2 * (b + x)" by simp
  moreover have "(1 - x) * L + x * L \<le> (1 - x) * (c\<^sup>2 * b) + x * ((c - d)\<^sup>2 * (b + 1))"
    using assms by (intro add_mono mult_left_mono) simp_all
  ultimately show ?thesis by (simp add: algebra_simps)
qed

lemma recipSqrt_interval:
  fixes a eps b c k r0 :: int and g :: real
  assumes a: "a = 2 ^ 28 * b + 2 ^ 12 * eps + l" "0 \<le> eps" "eps < 2 ^ 16" "0 \<le> l" "l < 2 ^ 12"
    and r0: "r0 = c - k * eps div 2 ^ 20" and k: "0 < k" "k \<le> 8 * c" "0 < b" "k * (b + 2) \<le> 32 * c" and g: "0 < g"
    and up: "4 * g * (of_int c + 1 + of_int k / 16 * (of_int b + 1 / 2 ^ 16)) ^ 3 * 2 ^ 28 < 27 * (of_int k / 16) * 2 ^ 63"
    and lo: "L \<le> g * 2 ^ 28 * ((of_int c)\<^sup>2 * of_int b)" "L \<le> g * 2 ^ 28 * ((of_int c - of_int k / 16)\<^sup>2 * (of_int b + 1))"
  shows "g * (of_int r0)\<^sup>2 * of_int a < 2 ^ 63" "L \<le> g * (of_int r0)\<^sup>2 * of_int a" "0 \<le> r0" "r0 \<le> c"
proof -
  define x d C B :: real where "x = of_int eps / 2 ^ 16" and "d = of_int k / 16" and "C = of_int c" and "B = of_int b"
  have x: "0 \<le> x" "x \<le> 1" using a by (simp_all add: x_def)
  have d: "0 < d" "d \<le> C / 2" "d * (B + 2) \<le> 2 * C"
  proof -
    have "real_of_int k \<le> of_int (8 * c)" "real_of_int (k * (b + 2)) \<le> of_int (32 * c)" using k by (simp_all only: of_int_le_iff)
    then show "d \<le> C / 2" "d * (B + 2) \<le> 2 * C" by (simp_all add: d_def C_def B_def)
  qed (use k in \<open>simp add: d_def\<close>)
  have dx: "d * x = of_int (k * eps) / 2 ^ 20" by (simp add: d_def x_def)
  have "k * eps div 2 ^ 20 * 2 ^ 20 \<le> k * eps" "k * eps < (k * eps div 2 ^ 20 + 1) * 2 ^ 20" using int_div_bounds [of "2 ^ 20" "k * eps"] by simp_all
  then have "real_of_int (k * eps div 2 ^ 20 * 2 ^ 20) \<le> of_int (k * eps)" "real_of_int (k * eps) < of_int ((k * eps div 2 ^ 20 + 1) * 2 ^ 20)"
    by (simp_all only: of_int_le_iff of_int_less_iff)
  then have r: "C - d * x \<le> of_int r0" "of_int r0 < C - d * x + 1" unfolding r0 dx by (simp_all add: C_def field_simps)
  have "real_of_int (2 ^ 28 * b + 2 ^ 12 * eps) \<le> of_int a" "real_of_int a < of_int (2 ^ 28 * b + 2 ^ 12 * eps + 2 ^ 12)" unfolding of_int_le_iff of_int_less_iff using a by simp_all
  then have A: "2 ^ 28 * (B + x) \<le> of_int a" "of_int a < 2 ^ 28 * (B + 1 / 2 ^ 16 + x)" by (simp_all add: B_def x_def field_simps)
  have dx1: "d * x \<le> d" "0 \<le> d * x" using d x mult_left_mono [of x 1 d] by simp_all
  have pos: "0 \<le> C - d * x" "0 < B" using dx1 d(1,2) k(3) by (linarith, simp add: B_def)
  then have r0': "0 \<le> real_of_int r0" using r(1) by linarith
  then show "0 \<le> r0" by simp
  have "0 \<le> k * eps" using k a by simp
  then show "r0 \<le> c" unfolding r0 by (simp add: pos_imp_zdiv_nonneg_iff)
  have "L \<le> g * 2 ^ 28 * ((C - d * x)\<^sup>2 * (B + x))"
  proof -
    have "L / (g * 2 ^ 28) \<le> (C - d * x)\<^sup>2 * (B + x)"
      by (rule cubic_min) (use x d lo g in \<open>simp_all add: C_def d_def B_def field_simps\<close>)
    then show ?thesis using g by (simp add: field_simps)
  qed
  also have "\<dots> = g * ((C - d * x)\<^sup>2 * (2 ^ 28 * (B + x)))" by simp
  also have "\<dots> \<le> g * ((of_int r0)\<^sup>2 * of_int a)"
    using g r(1) A(1) pos x by (intro mult_left_mono mult_mono power_mono) simp_all
  finally show "L \<le> g * (of_int r0)\<^sup>2 * of_int a" by simp
  let ?u = "C + 1 - d * x" and ?v = "d * (B + 1 / 2 ^ 16 + x)"
  have "27 * (?u\<^sup>2 * ?v) \<le> 4 * (?u + ?v) ^ 3" using pos d x by (intro cubic_max) simp_all
  also have uv: "?u + ?v = C + 1 + d * (B + 1 / 2 ^ 16)" by (simp add: algebra_simps)
  finally have "27 * (?u\<^sup>2 * ?v) * (g * 2 ^ 28) \<le> 4 * (C + 1 + d * (B + 1 / 2 ^ 16)) ^ 3 * (g * 2 ^ 28)"
    by (rule mult_right_mono) (use g in simp)
  also have "\<dots> < 27 * d * 2 ^ 63" using up by (simp add: C_def d_def B_def mult_ac)
  finally have "27 * d * (g * (?u\<^sup>2 * (2 ^ 28 * (B + 1 / 2 ^ 16 + x)))) < 27 * d * 2 ^ 63" by (simp add: mult_ac)
  then have U: "g * (?u\<^sup>2 * (2 ^ 28 * (B + 1 / 2 ^ 16 + x))) < 2 ^ 63" by (rule mult_left_less_imp_less) (use d in simp)
  have "g * ((of_int r0)\<^sup>2 * of_int a) \<le> g * (?u\<^sup>2 * (2 ^ 28 * (B + 1 / 2 ^ 16 + x)))"
    using g r(2) A pos x r0' by (intro mult_left_mono mult_mono power_mono) simp_all
  then show "g * (of_int r0)\<^sup>2 * of_int a < 2 ^ 63" using U by simp
qed

definition recipSqrt_r0 :: "int \<Rightarrow> int \<Rightarrow> int" where
  "recipSqrt_r0 p a =
     (let i = nat (2 * (a div 2 ^ 28 - 8) + p)
      in uint (approxRecipSqrt_k0s ! i) - uint (approxRecipSqrt_k1s ! i) * (a div 2 ^ 12 mod 2 ^ 16) div 2 ^ 20)"

lemma recipSqrt_split:
  assumes "2 ^ 31 \<le> a" "a < 2 ^ 32"
  shows "a = 2 ^ 28 * (a div 2 ^ 28) + 2 ^ 12 * (a div 2 ^ 12 mod 2 ^ 16) + a mod 2 ^ 12" "a div 2 ^ 28 \<in> {8, 9, 10, 11, 12, 13, 14, 15 :: int}"
proof -
  define t u v w where "t = a div 2 ^ 12" and "u = t div 2 ^ 16" and "v = t mod 2 ^ 16" and "w = a mod 2 ^ 12"
  have "a div 2 ^ 28 = u" unfolding u_def t_def by (simp add: zdiv_zmult2_eq [symmetric])
  moreover have "a = 2 ^ 12 * t + w" unfolding t_def w_def by simp
  moreover have "t = 2 ^ 16 * u + v" unfolding u_def v_def by simp
  ultimately show "a = 2 ^ 28 * (a div 2 ^ 28) + 2 ^ 12 * (a div 2 ^ 12 mod 2 ^ 16) + a mod 2 ^ 12"
    unfolding t_def [symmetric] v_def [symmetric] w_def [symmetric] by simp
  have "8 \<le> a div 2 ^ 28" "a div 2 ^ 28 < 16" using assms by (simp_all add: le_int_div_iff int_div_less_iff)
  then show "a div 2 ^ 28 \<in> {8, 9, 10, 11, 12, 13, 14, 15}" by auto
qed

lemma recipSqrt_row:
  assumes a: "2 ^ 31 \<le> a" "a < 2 ^ 32" and r0: "r0 = recipSqrt_r0 p a" and g: "0 < (g :: real)"
    and b: "a div 2 ^ 28 = b" and i: "nat (2 * (b - 8) + p) = i"
    and c: "uint (approxRecipSqrt_k0s ! i) = c" and k: "uint (approxRecipSqrt_k1s ! i) = k"
    and num: "0 < k" "k \<le> 8 * c" "0 < b" "k * (b + 2) \<le> 32 * c"
      "4 * g * (of_int c + 1 + of_int k / 16 * (of_int b + 1 / 2 ^ 16)) ^ 3 * 2 ^ 28 < 27 * (of_int k / 16) * 2 ^ 63"
      "L \<le> g * 2 ^ 28 * ((of_int c)\<^sup>2 * of_int b)"
      "L \<le> g * 2 ^ 28 * ((of_int c - of_int k / 16)\<^sup>2 * (of_int b + 1))"
  shows "g * (of_int r0)\<^sup>2 * of_int a < 2 ^ 63 \<and> L \<le> g * (of_int r0)\<^sup>2 * of_int a \<and> 0 \<le> r0 \<and> r0 < 2 ^ 16"
proof -
  have s: "a = 2 ^ 28 * b + 2 ^ 12 * (a div 2 ^ 12 mod 2 ^ 16) + a mod 2 ^ 12" by (rule recipSqrt_split(1) [OF a, unfolded b])
  have r: "r0 = c - k * (a div 2 ^ 12 mod 2 ^ 16) div 2 ^ 20" unfolding r0 recipSqrt_r0_def Let_def b i c k ..
  note interval = recipSqrt_interval [OF s _ _ _ _ r num(1-4) g num(5-7)]
  have "g * (of_int r0)\<^sup>2 * of_int a < 2 ^ 63 \<and> L \<le> g * (of_int r0)\<^sup>2 * of_int a \<and> 0 \<le> r0 \<and> r0 \<le> c"
    by (intro conjI interval) simp_all
  moreover have "c < 2 ^ 16" using c uint_lt2p [of "approxRecipSqrt_k0s ! i"] by simp
  ultimately show ?thesis by linarith
qed

lemma recipSqrt_table:
  assumes a: "2 ^ 31 \<le> a" "a < 2 ^ 32" and p: "p = 0 \<or> p = 1" and r0: "r0 = recipSqrt_r0 p a"
    and g: "g = (if p = 0 then 2 else 1 :: real)" and L: "L = 2 ^ 63 - (if a div 2 ^ 28 = 15 then 2 ^ 53 else 3 * 2 ^ 53)"
  shows "g * (of_int r0)\<^sup>2 * of_int a < 2 ^ 63 \<and> L \<le> g * (of_int r0)\<^sup>2 * of_int a \<and> 0 \<le> r0 \<and> r0 < 2 ^ 16"
proof -
  have g0: "0 < g" using g by simp
  note row = recipSqrt_row [OF a r0 g0 _ refl refl refl]
  note tab = approxRecipSqrt_k0s_def approxRecipSqrt_k1s_def power2_eq_square power3_eq_cube
  have b: "a div 2 ^ 28 \<in> {8, 9, 10, 11, 12, 13, 14, 15}" by (rule recipSqrt_split(2) [OF a])
  consider "a div 2 ^ 28 = 8" | "a div 2 ^ 28 = 9" | "a div 2 ^ 28 = 10" | "a div 2 ^ 28 = 11"
    | "a div 2 ^ 28 = 12" | "a div 2 ^ 28 = 13" | "a div 2 ^ 28 = 14" | "a div 2 ^ 28 = 15" using b by blast
  then show ?thesis
  proof cases
    case 1
    with p show ?thesis by (elim disjE; intro row [OF 1]) (simp_all add: tab g L 1 [simplified])
  next
    case 2
    with p show ?thesis by (elim disjE; intro row [OF 2]) (simp_all add: tab g L 2 [simplified])
  next
    case 3
    with p show ?thesis by (elim disjE; intro row [OF 3]) (simp_all add: tab g L 3 [simplified])
  next
    case 4
    with p show ?thesis by (elim disjE; intro row [OF 4]) (simp_all add: tab g L 4 [simplified])
  next
    case 5
    with p show ?thesis by (elim disjE; intro row [OF 5]) (simp_all add: tab g L 5 [simplified])
  next
    case 6
    with p show ?thesis by (elim disjE; intro row [OF 6]) (simp_all add: tab g L 6 [simplified])
  next
    case 7
    with p show ?thesis by (elim disjE; intro row [OF 7]) (simp_all add: tab g L 7 [simplified])
  next
    case 8
    with p show ?thesis by (elim disjE; intro row [OF 8]) (simp_all add: tab g L 8 [simplified])
  qed
qed

definition recipSqrt_series :: "real \<Rightarrow> real" where
  "recipSqrt_series d = 1 + d / 2 + 3 / 8 * d\<^sup>2 + 5 / 16 * d ^ 3"

lemma recipSqrt_series_bounds:
  assumes d: "0 < d" "d \<le> 1 / 256"
  shows "recipSqrt_series d < 1 / sqrt (1 - d)" "1 / sqrt (1 - d) < recipSqrt_series d + 7 / 25 * d ^ 4"
proof -
  have s: "0 < sqrt (1 - d)" "(sqrt (1 - d))\<^sup>2 = 1 - d" using d by simp_all
  have p: "0 < recipSqrt_series d" using d by (simp add: recipSqrt_series_def add_pos_nonneg)
  have "(recipSqrt_series d)\<^sup>2 * (1 - d) = 1 - d ^ 4 * (35 / 64 + 7 / 32 * d + 35 / 256 * d\<^sup>2 + 25 / 256 * d ^ 3)"
    by (simp add: recipSqrt_series_def power2_eq_square power3_eq_cube power4_eq_xxxx field_simps)
  moreover have "0 < d ^ 4 * (35 / 64 + 7 / 32 * d + 35 / 256 * d\<^sup>2 + 25 / 256 * d ^ 3)" using d by (intro mult_pos_pos add_pos_nonneg) simp_all
  ultimately have "(recipSqrt_series d * sqrt (1 - d))\<^sup>2 < 1\<^sup>2" by (simp only: power_mult_distrib s(2)) simp
  then have "recipSqrt_series d * sqrt (1 - d) < 1" by (rule power_less_imp_less_base) simp
  then show "recipSqrt_series d < 1 / sqrt (1 - d)" using s by (simp add: pos_less_divide_eq)
  let ?q = "recipSqrt_series d + 7 / 25 * d ^ 4"
  have "?q\<^sup>2 * (1 - d) = 1 + d ^ 4 * (21 / 1600 - d * (399 / 800 + 1323 / 6400 * d + 849 / 6400 * d\<^sup>2 + 483 / 5000 * d ^ 3 + 49 / 625 * d ^ 4))"
    by (simp add: recipSqrt_series_def power2_eq_square power3_eq_cube power4_eq_xxxx field_simps)
  moreover have "d * (399 / 800 + 1323 / 6400 * d + 849 / 6400 * d\<^sup>2 + 483 / 5000 * d ^ 3 + 49 / 625 * d ^ 4)
      \<le> 1 / 256 * (399 / 800 + 1323 / 6400 * 1 + 849 / 6400 * 1 + 483 / 5000 * 1 + 49 / 625 * 1)"
    using d by (intro mult_mono add_mono mult_left_mono power_le_one) simp_all
  then have "0 < d ^ 4 * (21 / 1600 - d * (399 / 800 + 1323 / 6400 * d + 849 / 6400 * d\<^sup>2 + 483 / 5000 * d ^ 3 + 49 / 625 * d ^ 4))"
    using d(1) by (intro mult_pos_pos) simp_all
  ultimately have "1\<^sup>2 < (?q * sqrt (1 - d))\<^sup>2" by (simp only: power_mult_distrib s(2)) simp
  then have "1 < ?q * sqrt (1 - d)" by (rule power_less_imp_less_base) (use s p d in simp)
  then show "1 / sqrt (1 - d) < ?q" using s by (simp add: pos_divide_less_eq)
qed

lemma real_div_bounds:
  assumes "0 < n"
  shows "real_of_int (m div n) \<le> of_int m / of_int n" "of_int m / of_int n < real_of_int (m div n) + 1"
proof -
  have "m div n = \<lfloor>real_of_int m / of_int n\<rfloor>" by (simp add: floor_divide_of_int_eq)
  then show "real_of_int (m div n) \<le> of_int m / of_int n" "of_int m / of_int n < real_of_int (m div n) + 1" by linarith+
qed

lemma recipSqrt_square:
  assumes "0 < x" "0 \<le> D" "x - 1 \<le> D" "D < (x :: real)"
  shows "D\<^sup>2 \<le> x\<^sup>2" "x\<^sup>2 - 2 * x \<le> D\<^sup>2"
proof -
  show "D\<^sup>2 \<le> x\<^sup>2" using assms by (intro power_mono) simp_all
  show "x\<^sup>2 - 2 * x \<le> D\<^sup>2"
  proof (cases "1 \<le> x")
    case True
    then have "(x - 1)\<^sup>2 \<le> D\<^sup>2" using assms by (intro power_mono) simp_all
    then show ?thesis by (simp add: power2_diff)
  next
    case False
    then have "x * x \<le> 2 * x" using assms by (intro mult_right_mono) simp_all
    moreover have "0 \<le> D\<^sup>2" by simp
    ultimately show ?thesis unfolding power2_eq_square [of x] by linarith
  qed
qed

lemma recipSqrt_newton:
  fixes r0 D :: int and d :: real
  assumes r0: "0 < r0" "r0 < 2 ^ 16" and d: "0 < d" "d \<le> 3 / 1024" and D: "0 \<le> D" "d * 2 ^ 40 - 1 \<le> of_int D" "of_int D < d * 2 ^ 40"
    and r1: "r1 = r0 * 2 ^ 16 + r0 * D div 2 ^ 25" and s: "s = D\<^sup>2 div 2 ^ 32" and t: "t = r1 div 2 + r1 div 8 - r0 * 2 ^ 14"
    and r: "r = r1 + t * s div 2 ^ 48"
  shows "of_int r < of_int r0 * 2 ^ 16 * recipSqrt_series d" "of_int r0 * 2 ^ 16 * recipSqrt_series d < of_int r + 2 + 1 / 400"
    "0 \<le> t" "t < 2 ^ 32" "0 \<le> s" "s < 2 ^ 32" "r0 * 2 ^ 16 \<le> r1"
proof -
  define \<rho> y T where "\<rho> = real_of_int r0 * 2 ^ 16" and "y = \<rho> * d" and "T = \<rho> * (3 / 8 + 5 / 16 * d)"
  have \<rho>: "2 ^ 16 \<le> \<rho>" "\<rho> \<le> 2 ^ 32" using r0 by (simp_all add: \<rho>_def)
  have \<rho>d: "0 \<le> y" "y \<le> \<rho> / 256" using \<rho> d mult_left_mono [of d "1 / 256" \<rho>] by (simp_all add: y_def)
  have T: "T = 3 / 8 * \<rho> + 5 / 16 * y" by (simp add: T_def y_def algebra_simps)
  define X where "X = \<rho> * of_int D"
  have "\<rho> * of_int D < \<rho> * (d * 2 ^ 40)" "\<rho> * (d * 2 ^ 40 - 1) \<le> \<rho> * of_int D"
    using \<rho> D by (intro mult_strict_left_mono mult_left_mono; simp)+
  then have X: "X < y * 2 ^ 40" "y * 2 ^ 40 - \<rho> \<le> X" unfolding X_def y_def by (simp_all only: right_diff_distrib mult.assoc mult_1_right)
  have XD: "real_of_int (r0 * D) / of_int (2 ^ 25) = X / 2 ^ 41" by (simp add: X_def \<rho>_def)
  have "real_of_int (r0 * D div 2 ^ 25) \<le> X / 2 ^ 41" "X / 2 ^ 41 < real_of_int (r0 * D div 2 ^ 25) + 1"
    using real_div_bounds [of "2 ^ 25" "r0 * D", unfolded XD] by simp_all
  moreover have "of_int r1 = \<rho> + real_of_int (r0 * D div 2 ^ 25)" by (simp add: r1 \<rho>_def)
  ultimately have R1: "of_int r1 < \<rho> + y / 2" "\<rho> + y / 2 - 1 - 1 / 512 < of_int r1" using X \<rho> by simp_all
  have "0 \<le> r0 * D" using r0 D by simp
  then show "r0 * 2 ^ 16 \<le> r1" by (simp add: r1 pos_imp_zdiv_nonneg_iff)
  then have R1': "\<rho> \<le> of_int r1" by (simp add: \<rho>_def flip: of_int_le_iff [where 'a = real])
  note h = real_div_bounds [of 2 r1] real_div_bounds [of 8 r1]
  have tt: "of_int t = real_of_int (r1 div 2) + of_int (r1 div 8) - \<rho> / 4" by (simp add: t \<rho>_def)
  have tb: "of_int t \<le> T" "T - 3 \<le> of_int t" "1 \<le> real_of_int t" using h R1 R1' \<rho> \<rho>d unfolding tt T by simp_all
  then show "0 \<le> t" by simp
  have Tu: "T \<le> 2 ^ 31" using \<rho> \<rho>d unfolding T by simp
  then have "real_of_int t < of_int (2 ^ 32)" using tb(1) by simp
  then show "t < 2 ^ 32" by (simp only: of_int_less_iff)
  note sq = recipSqrt_square [of "d * 2 ^ 40" "of_int D"]
  have d2: "d\<^sup>2 \<le> 9 / 2 ^ 20" using power_mono [OF d(2), of 2] d(1) by (simp add: power2_eq_square)
  have sb: "of_int s \<le> d\<^sup>2 * 2 ^ 48" "d\<^sup>2 * 2 ^ 48 - 3 \<le> of_int s"
    using real_div_bounds [of "2 ^ 32" "D\<^sup>2"] sq d D by (simp_all add: s power_mult_distrib)
  show s0: "0 \<le> s" by (simp add: s pos_imp_zdiv_nonneg_iff)
  have "real_of_int s < of_int (2 ^ 32)" using sb(1) d2 by simp
  then show "s < 2 ^ 32" by (simp only: of_int_less_iff)
  have ts: "of_int t * real_of_int s \<le> T * (d\<^sup>2 * 2 ^ 48)" using tb sb s0 by (intro mult_mono) simp_all
  have ts': "(T - 3) * (d\<^sup>2 * 2 ^ 48 - 3) \<le> of_int t * real_of_int s"
  proof (cases "0 \<le> d\<^sup>2 * 2 ^ 48 - 3")
    case True
    then show ?thesis using tb sb by (intro mult_mono) simp_all
  next
    case False
    then have "(T - 3) * (d\<^sup>2 * 2 ^ 48 - 3) \<le> 0" using \<rho> \<rho>d by (intro mult_nonneg_nonpos) (simp_all add: T)
    also have "0 \<le> of_int t * real_of_int s" using tb(3) s0 by simp
    finally show ?thesis .
  qed
  have ser: "\<rho> * recipSqrt_series d = \<rho> + y / 2 + T * d\<^sup>2"
    by (simp add: recipSqrt_series_def T_def y_def power2_eq_square power3_eq_cube algebra_simps)
  have q: "of_int t * real_of_int s / 2 ^ 48 \<le> T * d\<^sup>2" "T * d\<^sup>2 - 1 / 10000 \<le> of_int t * real_of_int s / 2 ^ 48"
  proof -
    show "of_int t * real_of_int s / 2 ^ 48 \<le> T * d\<^sup>2" using ts by simp
    have "(T - 3) * (d\<^sup>2 * 2 ^ 48 - 3) = T * d\<^sup>2 * 2 ^ 48 - 3 * T - 3 * 2 ^ 48 * d\<^sup>2 + 9" by (simp add: algebra_simps)
    then show "T * d\<^sup>2 - 1 / 10000 \<le> of_int t * real_of_int s / 2 ^ 48" using ts' Tu d2 by simp
  qed
  show "of_int r < of_int r0 * 2 ^ 16 * recipSqrt_series d" "of_int r0 * 2 ^ 16 * recipSqrt_series d < of_int r + 2 + 1 / 400"
    unfolding \<rho>_def [symmetric] ser using R1 q real_div_bounds [of "2 ^ 48" "t * s"] by (simp_all add: r)
qed

lemma recipSqrt_delta:
  fixes E a :: int
  assumes "real_of_int (E * a) < 2 ^ 63" "2 ^ 63 - 3 * 2 ^ 53 \<le> real_of_int (E * a)" "d = 1 - real_of_int (E * a) / 2 ^ 63" "D = 2 ^ 40 - 1 - E * a div 2 ^ 23"
  shows "0 < d" "d \<le> 3 / 1024" "0 \<le> D" "D < 2 ^ 32" "d * 2 ^ 40 - 1 \<le> of_int D" "of_int D < d * 2 ^ 40"
proof -
  show d: "0 < d" "d \<le> 3 / 1024" using assms(1,2) by (simp_all add: assms(3))
  have "real_of_int (E * a) / of_int (2 ^ 23) = (1 - d) * 2 ^ 40" by (simp add: assms(3))
  then show D: "d * 2 ^ 40 - 1 \<le> of_int D" "of_int D < d * 2 ^ 40"
    using real_div_bounds [of "2 ^ 23" "E * a", unfolded \<open>_ = (1 - d) * 2 ^ 40\<close>] by (simp_all add: assms(4))
  have "- 1 < real_of_int D" "real_of_int D < of_int (2 ^ 32)" using D d by simp_all
  then show "0 \<le> D" "D < 2 ^ 32" by simp_all
qed

lemma recipSqrt_index:
  assumes "2 ^ 31 \<le> uint (a :: u32)" "p = 0 \<or> p = 1"
  shows "unat ((drop_bit 27 a AND 0xE) + word_of_int p) = nat (2 * (uint a div 2 ^ 28 - 8) + p)"
proof -
  have b: "8 \<le> uint a div 2 ^ 28" "uint a div 2 ^ 28 < 16" using assms(1) uint_lt2p [of a] by (simp_all add: le_int_div_iff int_div_less_iff)
  have "uint (drop_bit 27 a AND 0xE) = uint (drop_bit 27 a) div 2 ^ 1 mod 2 ^ 3 * 2 ^ 1"
    by (rule uint_and_field) simp_all
  also have "uint (drop_bit 27 a) div 2 ^ 1 = uint a div 2 ^ 28" unfolding uint_drop by (simp add: zdiv_zmult2_eq [symmetric])
  also have "uint a div 2 ^ 28 mod 2 ^ 3 = uint a div 2 ^ 28 - 8"
    using b by (simp add: minus_mult_div_eq_mod [symmetric]) 
  finally have "uint ((drop_bit 27 a AND 0xE) + word_of_int p) = 2 * (uint a div 2 ^ 28 - 8) + p"
    using assms(2) b by (subst uint_add_small) auto
  then show ?thesis by (simp add: unat_eq_nat_uint)
qed

definition recipSqrt :: "int \<Rightarrow> int \<Rightarrow> real" where
  "recipSqrt p a = sqrt (2 ^ 94 * (if p = 0 then 1 else 2) / of_int a)"

lemma recipSqrt_refined:
  assumes a: "2 ^ 31 \<le> a" "a < 2 ^ 32" and g: "g = (if p = 0 then 2 else 1 :: int)" and r0: "0 < r0"
    and d: "d = 1 - real_of_int (g * r0\<^sup>2 * a) / 2 ^ 63" "0 < d" "d < 1"
  shows "recipSqrt p a = of_int r0 * 2 ^ 16 * (1 / sqrt (1 - d))"
proof -
  have e: "1 - d = real_of_int g * (of_int r0)\<^sup>2 * of_int a / 2 ^ 63" by (simp add: d(1))
  have "(2 ^ 94 * (if p = 0 then 1 else 2) / of_int a :: real) = (of_int r0 * 2 ^ 16)\<^sup>2 / (1 - d)"
    unfolding e using a r0 by (simp add: g power2_eq_square field_simps)
  then show ?thesis unfolding recipSqrt_def using r0 by (simp only: real_sqrt_divide real_sqrt_abs) simp
qed

lemma approxRecipSqrt32_1_steps:
  assumes a: "2 ^ 31 \<le> uint a" and p: "p = 0 \<or> p = 1" and r0: "r0 = recipSqrt_r0 p (uint a)" "0 < r0" "r0 < 2 ^ 16"
    and E: "E = (if p = 0 then 2 else 1) * r0\<^sup>2" "E * uint a < 2 ^ 63" and D: "D = 2 ^ 40 - 1 - E * uint a div 2 ^ 23" "0 \<le> D" "D < 2 ^ 32"
    and r1: "r1 = r0 * 2 ^ 16 + r0 * D div 2 ^ 25" and s: "s = D\<^sup>2 div 2 ^ 32" "s < 2 ^ 32"
    and t: "t = r1 div 2 + r1 div 8 - r0 * 2 ^ 14" "0 \<le> t" "t < 2 ^ 32" and r: "r = r1 + t * s div 2 ^ 48" "r < 2 ^ 32"
  shows "uint (softfloat_approxRecipSqrt32_1 (word_of_int p) a) = max (2 ^ 31) r"
proof -
  let ?i = "nat (2 * (uint a div 2 ^ 28 - 8) + p)"
  define eps where "eps = (ucast (drop_bit 12 a) :: u16)"
  define k0 k1 where "k0 = (ucast (approxRecipSqrt_k0s ! ?i) :: u64)" and "k1 = (ucast (approxRecipSqrt_k1s ! ?i) :: u64)"
  define R0 where "R0 = (ucast (k0 - drop_bit 20 (k1 * ucast eps)) :: u16)"
  have "uint eps = uint a div 2 ^ 12 mod 2 ^ 16" by (simp add: eps_def uint_ucast uint_drop)
  moreover have "uint (approxRecipSqrt_k1s ! ?i) * uint eps < 2 ^ 16 * 2 ^ 16"
    using uint_lt2p [of "approxRecipSqrt_k1s ! ?i"] uint_lt2p [of eps] by (intro mult_strict_mono) simp_all
  then have "uint (k1 * ucast eps) = uint (approxRecipSqrt_k1s ! ?i) * uint eps"
    by (subst uint_mult_small) (simp_all add: k1_def uint_ucast_up)
  ultimately have "uint k0 - uint (drop_bit 20 (k1 * ucast eps)) = r0"
    unfolding r0(1) recipSqrt_r0_def Let_def uint_drop by (simp add: k0_def uint_ucast_up)
  then have "uint (k0 - drop_bit 20 (k1 * ucast eps)) = r0" using r0(2) by (subst uint_sub_small) simp_all
  then have R0: "uint R0 = r0" unfolding R0_def using r0(3) by (subst uint_ucast_small) simp_all
  have p0: "word_of_int p = (0 :: u32) \<longleftrightarrow> p = 0" using p by auto
  have "r0 * r0 < 2 ^ 16 * 2 ^ 16" using r0 by (intro mult_strict_mono) simp_all
  then have "uint (ucast R0 * ucast R0 :: u64) = r0 * r0" by (subst uint_mult_small) (simp_all add: uint_ucast_up R0)
  then have EE: "uint (if word_of_int p = (0 :: u32) then push_bit 1 (ucast R0 * ucast R0) else ucast R0 * ucast R0 :: u64) = E"
    using p \<open>r0 * r0 < _\<close> uint_push_small [of "ucast R0 * ucast R0 :: u64" 1] unfolding p0 E(1) power2_eq_square by auto
  have E0: "0 \<le> E" "E < 2 ^ 32"
  proof -
    show "0 \<le> E" by (simp add: E(1))
    show "E < 2 ^ 32"
    proof (rule ccontr)
      assume "\<not> E < 2 ^ 32"
      then have "2 ^ 32 * 2 ^ 31 \<le> E * uint a" using a by (intro mult_mono) simp_all
      then show False using E(2) by simp
    qed
  qed
  define Ea where "Ea = (ucast (ucast (if word_of_int p = (0 :: u32) then push_bit 1 (ucast R0 * ucast R0) else ucast R0 * ucast R0 :: u64) :: u32) * ucast a :: u64)"
  have "uint (ucast (if word_of_int p = (0 :: u32) then push_bit 1 (ucast R0 * ucast R0) else ucast R0 * ucast R0 :: u64) :: u32) = E"
    using E0 EE by (subst uint_ucast_small) simp_all
  then have Ea: "uint Ea = E * uint a" unfolding Ea_def using E(2) by (subst uint_mult_small) (simp_all add: uint_ucast_up)
  define DD where "DD = (ucast (NOT (drop_bit 23 Ea)) :: u32)"
  have DD: "uint DD = D"
  proof -
    have x: "uint (drop_bit 23 Ea) = 2 ^ 40 - 1 - D" unfolding uint_drop Ea D(1) by simp
    have "NOT (drop_bit 23 Ea) = - 1 - drop_bit 23 Ea" by (simp add: not_eq_complement)
    moreover have m: "uint (- 1 :: u64) = 2 ^ 64 - 1" by (simp add: unsigned_minus_1_eq_mask mask_eq_exp_minus_1)
    ultimately have "uint (NOT (drop_bit 23 Ea)) = 2 ^ 64 - 1 - (2 ^ 40 - 1 - D)"
      using x D(2) by (simp only:) (subst uint_sub_small, simp_all add: m)
    also have "\<dots> = D + (2 ^ 32 - 2 ^ 8) * 2 ^ 32" by simp
    finally have "uint DD = (D + (2 ^ 32 - 2 ^ 8) * 2 ^ 32) mod 2 ^ 32" unfolding DD_def uint_ucast by simp
    also have "\<dots> = D" using D(2,3) by (simp only: mod_mult_self1 mod_pos_pos_trivial)
    finally show ?thesis .
  qed
  define RR where "RR = push_bit 16 (ucast R0) + drop_bit 25 (ucast R0 * ucast DD :: u64)"
  have rD: "r0 * D < 2 ^ 16 * 2 ^ 32" "0 \<le> r0 * D" using r0(2,3) D(2,3) by (intro mult_strict_mono, simp_all)
  then have "uint (drop_bit 25 (ucast R0 * ucast DD :: u64)) = r0 * D div 2 ^ 25" "r0 * D div 2 ^ 25 < 2 ^ 23" "0 \<le> r0 * D div 2 ^ 25"
    unfolding uint_drop by (subst uint_mult_small, simp_all add: uint_ucast_up R0 DD int_div_less_iff pos_imp_zdiv_nonneg_iff)
  moreover have "uint (push_bit 16 (ucast R0 :: u64)) = r0 * 2 ^ 16" using r0 by (subst uint_push_small) (simp_all add: uint_ucast_up R0)
  ultimately have RR: "uint RR = r1" "0 \<le> r1" "r1 < 2 ^ 33" unfolding RR_def r1 using r0 by (subst uint_add_small, simp_all)
  define SS where "SS = (ucast (drop_bit 32 (ucast DD * ucast DD :: u64)) :: u32)"
  have "D * D < 2 ^ 32 * 2 ^ 32" using D(2,3) by (intro mult_strict_mono) simp_all
  then have "uint (ucast DD * ucast DD :: u64) = D\<^sup>2" by (subst uint_mult_small) (simp_all add: uint_ucast_up DD power2_eq_square)
  then have SS: "uint SS = s" "0 \<le> s" unfolding SS_def s(1) using s by (subst uint_ucast_small, simp_all add: uint_drop pos_imp_zdiv_nonneg_iff)
  define TT where "TT = (ucast (drop_bit 1 RR + drop_bit 3 RR - push_bit 14 (ucast R0)) :: u32)"
  have "uint (drop_bit 1 RR + drop_bit 3 RR) = r1 div 2 + r1 div 8" using RR by (subst uint_add_small) (simp_all add: uint_drop)
  moreover have "uint (push_bit 14 (ucast R0 :: u64)) = r0 * 2 ^ 14" using r0 by (subst uint_push_small) (simp_all add: uint_ucast_up R0)
  ultimately have "uint (drop_bit 1 RR + drop_bit 3 RR - push_bit 14 (ucast R0)) = t" using t(1,2) by (subst uint_sub_small) simp_all
  then have TT: "uint TT = t" unfolding TT_def using t(3) by (subst uint_ucast_small) simp_all
  have "t * s < 2 ^ 32 * 2 ^ 32" using t(2,3) s(2) SS(2) by (intro mult_strict_mono) simp_all
  then have ts: "uint (drop_bit 48 (ucast TT * ucast SS :: u64)) = t * s div 2 ^ 48" unfolding uint_drop
    by (subst uint_mult_small) (simp_all add: uint_ucast_up TT SS)
  define ZZ where "ZZ = RR + drop_bit 48 (ucast TT * ucast SS)"
  have ZZ: "uint ZZ = r" unfolding ZZ_def r(1) using RR ts r by (subst uint_add_small) simp_all
  have "0 \<le> r" using uint_ge_0 [of ZZ] ZZ by simp
  have "uint (ZZ AND 0x80000000) = r div 2 ^ 31 mod 2 ^ 1 * 2 ^ 31" unfolding ZZ [symmetric] by (rule uint_and_field) simp_all
  moreover have "r div 2 ^ 31 < 2" "0 \<le> r div 2 ^ 31" using r(2) \<open>0 \<le> r\<close> by (simp_all add: int_div_less_iff pos_imp_zdiv_nonneg_iff)
  ultimately have "ZZ AND 0x80000000 = 0 \<longleftrightarrow> r div 2 ^ 31 = 0" using uint_eq_0 [of "ZZ AND 0x80000000"] by auto
  also have "\<dots> \<longleftrightarrow> r < 2 ^ 31" using \<open>0 \<le> r\<close> zdiv_eq_0_iff [of r "2 ^ 31"] by auto
  finally have hi: "ZZ AND 0x80000000 = 0 \<longleftrightarrow> r < 2 ^ 31" .
  have F: "softfloat_approxRecipSqrt32_1 (word_of_int p) a = ucast (if ZZ AND 0x80000000 = 0 then 0x80000000 else ZZ)"
    unfolding softfloat_approxRecipSqrt32_1_def Let_def recipSqrt_index [OF a p] eps_def [symmetric] k0_def [symmetric] k1_def [symmetric]
      R0_def [symmetric] Ea_def [symmetric] DD_def [symmetric] RR_def [symmetric] SS_def [symmetric] TT_def [symmetric] ZZ_def [symmetric] ..
  show ?thesis unfolding F hi using ZZ r(2) \<open>0 \<le> r\<close> by (simp add: uint_ucast_small max_def)
qed

lemma approxRecipSqrt32_1_bounds:
  assumes a: "2 ^ 31 \<le> uint a" and p: "p = 0 \<or> p = 1" and r: "r = uint (softfloat_approxRecipSqrt32_1 (word_of_int p) a)"
  shows "of_int r < recipSqrt p (uint a)" "recipSqrt p (uint a) < of_int r + 2 + 1 / 10"
    "15 * 2 ^ 28 \<le> uint a \<Longrightarrow> recipSqrt p (uint a) < of_int r + 2 + 1 / 256"
proof -
  define A g where "A = uint a" and "g = (if p = 0 then 2 else 1 :: int)"
  have A: "2 ^ 31 \<le> A" "A < 2 ^ 32" using a uint_lt2p [of a] by (simp_all add: A_def)
  define r0 where "r0 = recipSqrt_r0 p A"
  have tab: "of_int g * (of_int r0)\<^sup>2 * of_int A < (2 ^ 63 :: real)"
    "2 ^ 63 - (if A div 2 ^ 28 = 15 then 2 ^ 53 else 3 * 2 ^ 53) \<le> (of_int g * (of_int r0)\<^sup>2 * of_int A :: real)" "0 \<le> r0" "r0 < 2 ^ 16"
    using recipSqrt_table [OF A p r0_def refl refl] by (simp_all add: g_def split: if_splits)
  define E d D where "E = g * r0\<^sup>2" and "d = 1 - real_of_int (E * A) / 2 ^ 63" and "D = 2 ^ 40 - 1 - E * A div 2 ^ 23"
  have EA: "real_of_int (E * A) < 2 ^ 63" "2 ^ 63 - (if A div 2 ^ 28 = 15 then 2 ^ 53 else 3 * 2 ^ 53) \<le> real_of_int (E * A)"
    using tab(1,2) by (simp_all add: E_def)
  have EA3: "2 ^ 63 - 3 * 2 ^ 53 \<le> real_of_int (E * A)" using EA(2) by (simp split: if_splits)
  note dD = recipSqrt_delta [OF EA(1) EA3 d_def D_def]
  have "r0 \<noteq> 0" using EA3 by (auto simp: E_def)
  then have r0: "0 < r0" using tab(3) by simp
  define r1 s where "r1 = r0 * 2 ^ 16 + r0 * D div 2 ^ 25" and "s = D\<^sup>2 div 2 ^ 32"
  define t where "t = r1 div 2 + r1 div 8 - r0 * 2 ^ 14"
  define z where "z = r1 + t * s div 2 ^ 48"
  note nw = recipSqrt_newton [OF r0 tab(4) dD(1,2,3,5,6) r1_def s_def t_def z_def]
  have d1: "d < 1" "d \<le> 1 / 256" using dD(2) by simp_all
  define S where "S = of_int r0 * 2 ^ 16 * recipSqrt_series d"
  have R: "recipSqrt p A = of_int r0 * 2 ^ 16 * (1 / sqrt (1 - d))"
    by (rule recipSqrt_refined [OF A g_def r0 _ dD(1) d1(1)]) (simp add: d_def E_def)
  have up: "of_int r0 * 2 ^ 16 * (7 / 25 * d ^ 4) \<le> 2 ^ 32 * (7 / 25 * e ^ 4)" if "d \<le> e" for e :: real
    using that r0 tab(4) dD(1) by (intro mult_mono mult_left_mono power_mono) simp_all
  note ser = recipSqrt_series_bounds [OF dD(1) d1(2)]
  have pos: "0 < real_of_int r0 * 2 ^ 16" using r0 by simp
  have lo: "S < recipSqrt p A" unfolding S_def R using ser(1) pos by (rule mult_strict_left_mono)
  have hi: "recipSqrt p A < S + of_int r0 * 2 ^ 16 * (7 / 25 * d ^ 4)"
    unfolding S_def R distrib_left [symmetric] using ser(2) pos by (rule mult_strict_left_mono)
  have Rz: "of_int z < recipSqrt p A" "recipSqrt p A < of_int z + 2 + 1 / 10"
    using nw(1,2) lo hi up [OF dD(2)] unfolding S_def [symmetric] by (linarith, simp add: power_divide)
  have Rz': "recipSqrt p A < of_int z + 2 + 1 / 256" if "15 * 2 ^ 28 \<le> uint a"
  proof -
    have "A div 2 ^ 28 = 15" using that recipSqrt_split(2) [OF A] by (auto simp: A_def le_int_div_iff)
    then have "d \<le> 1 / 1024" using EA(2) unfolding d_def by (simp add: mult.commute)
    then show ?thesis using nw(2) hi up [of "1 / 1024"] unfolding S_def [symmetric] by (simp add: power_divide)
  qed
  have R31: "2 ^ 31 < recipSqrt p A" "recipSqrt p A \<le> 2 ^ 32"
  proof -
    have "(2 ^ 31)\<^sup>2 < (2 ^ 94 * (if p = 0 then 1 else 2) / real_of_int A)" using A by (auto simp: pos_less_divide_eq)
    then show "2 ^ 31 < recipSqrt p A" unfolding recipSqrt_def by (intro real_less_rsqrt)
    have "(2 ^ 94 * (if p = 0 then 1 else 2) / real_of_int A) \<le> (2 ^ 32)\<^sup>2" using A by (auto simp: pos_divide_le_eq)
    then show "recipSqrt p A \<le> 2 ^ 32" unfolding recipSqrt_def by (intro real_le_lsqrt) simp_all
  qed
  have "real_of_int z < of_int (2 ^ 32)" using Rz(1) R31(2) by simp
  then have "z < 2 ^ 32" by (simp only: of_int_less_iff)
  moreover have "real_of_int (E * A) < of_int (2 ^ 63)" using EA(1) by simp
  then have "E * A < 2 ^ 63" by (simp only: of_int_less_iff)
  ultimately have rz: "r = max (2 ^ 31) z" unfolding r
    by (intro approxRecipSqrt32_1_steps [OF a p r0_def [unfolded A_def] r0 tab(4) E_def [unfolded g_def] _ D_def [unfolded A_def] dD(3,4) r1_def s_def nw(6) t_def nw(3,4) z_def])
       (simp_all add: A_def)
  show "of_int r < recipSqrt p (uint a)" "recipSqrt p (uint a) < of_int r + 2 + 1 / 10"
    "15 * 2 ^ 28 \<le> uint a \<Longrightarrow> recipSqrt p (uint a) < of_int r + 2 + 1 / 256"
    unfolding A_def [symmetric] rz using Rz Rz' R31(1) by (auto simp: max_def A_def)
qed

text \<open>C6. softfloat_approxRecipSqrt32_1 is below the reciprocal square root of its operand by less than 2.1 units in the last place, for every normalised 32-bit operand and both parities of the exponent.\<close>

theorem approxRecipSqrt32_1_accurate:
  assumes "2 ^ 31 \<le> uint a" "oddExpA = 0 \<or> oddExpA = (1 :: u32)"
  shows "of_int (uint (softfloat_approxRecipSqrt32_1 oddExpA a)) < sqrt (2 ^ (94 + unat oddExpA) / of_int (uint a)) \<and>
    sqrt (2 ^ (94 + unat oddExpA) / of_int (uint a)) < of_int (uint (softfloat_approxRecipSqrt32_1 oddExpA a)) + 2 + 1 / 10"
  using assms(2)
proof
  assume "oddExpA = 0"
  then show ?thesis using approxRecipSqrt32_1_bounds(1,2) [OF assms(1), of 0] by (simp add: recipSqrt_def)
next
  assume "oddExpA = 1"
  then show ?thesis using approxRecipSqrt32_1_bounds(1,2) [OF assms(1), of 1] by (simp add: recipSqrt_def)
qed

theorem approxRecipSqrt32_1_accurate_witness:
  "of_int (uint (softfloat_approxRecipSqrt32_1 0 0xC0000000)) < sqrt (2 ^ (94 + unat (0 :: u32)) / of_int (uint (0xC0000000 :: u32))) \<and>
   sqrt (2 ^ (94 + unat (0 :: u32)) / of_int (uint (0xC0000000 :: u32))) < of_int (uint (softfloat_approxRecipSqrt32_1 0 0xC0000000)) + 2 + 1 / 10"
  by (rule approxRecipSqrt32_1_accurate) simp_all

end
