(* ===== verification/Softfloat_Sqrt.thy ===== *)
theory Softfloat_Sqrt
  imports Softfloat_Round Softfloat_RecipSqrt
begin

text \<open>
  Square roots: \<^verbatim>\<open>f32_sqrt.c\<close> and \<^verbatim>\<open>f64_sqrt.c\<close> of \<^verbatim>\<open>src/riscv-tools/riscv-isa-sim/softfloat/\<close>.  The
  single-precision root is correctly rounded for every operand; the double-precision one is not,
  and a concrete operand shows it.
\<close>

section \<open>The operations\<close>

text \<open>The significand of a square root, before rounding: it has the value of the root in units of \<^verbatim>\<open>2 ^ -30\<close>.\<close>

definition f32_sqrt_sig :: "int \<Rightarrow> u64 \<Rightarrow> u64" where
  "f32_sqrt_sig expA sigA =
     (let sigZ = drop_bit 32 (sigA * ucast (softfloat_approxRecipSqrt32_1 (word_of_int expA) (ucast sigA)));
          sigZ = (if expA \<noteq> 0 then drop_bit 1 sigZ else sigZ);
          sigZ = sigZ + 2
      in if sigZ AND 0x3F < 2
         then let shiftedSigZ = drop_bit 2 sigZ;
                  negRem = (ucast (shiftedSigZ * shiftedSigZ) :: u32);
                  sigZ = push_bit 2 shiftedSigZ
              in if negRem AND 0x80000000 \<noteq> 0 then sigZ OR 1
                 else if negRem \<noteq> 0 then sigZ - 1 else sigZ
         else sigZ)"

definition f32_sqrt :: "u32 \<Rightarrow> softfloat_state \<Rightarrow> u32 \<times> softfloat_state" where
  "f32_sqrt a st =
     (let uiA = (ucast a :: u64); signA = signF32UI uiA; expA = expF32UI uiA; sigA = fracF32UI uiA;
          invalid = (ucast defaultNaNF32UI, softfloat_raiseFlags softfloat_flag_invalid st)
      in if expA = 0xFF
         then if sigA \<noteq> 0 then (let (uiZ, st) = softfloat_propagateNaNF32UI uiA 0 st in (ucast uiZ, st))
              else if \<not> signA then (a, st) else invalid
         else if signA then if expA = 0 \<and> sigA = 0 then (a, st) else invalid
         else if expA = 0 \<and> sigA = 0 then (a, st)
         else let (expA, sigA) = softfloat_normArgF32 expA sigA;
                  expZ = (expA - 0x7F) div 2 + 0x7E;
                  expA = expA mod 2;
                  sigA = push_bit 8 (sigA OR 0x00800000)
              in softfloat_roundPackToF32 False expZ (f32_sqrt_sig expA sigA) st)"

definition f64_sqrt_sig :: "int \<Rightarrow> u64 \<Rightarrow> u64" where
  "f64_sqrt_sig expA sigA =
     (let sig32A = (ucast (drop_bit 21 sigA) :: u32);
          recipSqrt32 = softfloat_approxRecipSqrt32_1 (word_of_int expA) sig32A;
          sig32Z = (ucast (drop_bit 32 (ucast sig32A * ucast recipSqrt32 :: u64)) :: u32);
          (sigA, sig32Z) = (if expA \<noteq> 0 then (push_bit 8 sigA, drop_bit 1 sig32Z) else (push_bit 9 sigA, sig32Z));
          rem = sigA - ucast sig32Z * ucast sig32Z;
          q = (ucast (drop_bit 32 (ucast (ucast (drop_bit 2 rem) :: u32) * ucast recipSqrt32 :: u64)) :: u32);
          sigZ = (push_bit 32 (ucast sig32Z) OR 0x20) + push_bit 3 (ucast q)
      in if sigZ AND 0x1FF < 0x20
         then let sigZ = sigZ AND NOT 0x3F;
                  shiftedSigZ = drop_bit 6 sigZ;
                  rem = push_bit 52 sigA - shiftedSigZ * shiftedSigZ
              in if rem AND 0x8000000000000000 \<noteq> 0 then sigZ - 1
                 else if rem \<noteq> 0 then sigZ OR 1 else sigZ
         else sigZ)"

definition f64_sqrt :: "u64 \<Rightarrow> softfloat_state \<Rightarrow> u64 \<times> softfloat_state" where
  "f64_sqrt a st =
     (let uiA = a; signA = signF64UI uiA; expA = expF64UI uiA; sigA = fracF64UI uiA;
          invalid = (defaultNaNF64UI, softfloat_raiseFlags softfloat_flag_invalid st)
      in if expA = 0x7FF
         then if sigA \<noteq> 0 then softfloat_propagateNaNF64UI uiA 0 st
              else if \<not> signA then (a, st) else invalid
         else if signA then if expA = 0 \<and> sigA = 0 then (a, st) else invalid
         else if expA = 0 \<and> sigA = 0 then (a, st)
         else let (expA, sigA) = softfloat_normArgF64 expA sigA;
                  expZ = (expA - 0x3FF) div 2 + 0x3FE;
                  expA = expA mod 2;
                  sigA = sigA OR 0x0010000000000000
              in softfloat_roundPackToF64 False expZ (f64_sqrt_sig expA sigA) st)"

section \<open>What the square root is\<close>

definition ieee_sqrt :: "float_format \<Rightarrow> int \<Rightarrow> softfloat_state \<Rightarrow> 'a::len word \<times> softfloat_state \<Rightarrow> bool" where
  "ieee_sqrt fmt a st r \<longleftrightarrow>
     (if enc_nan fmt a then nan_result fmt (enc_snan fmt a) st r
      else if enc_zero fmt a then ieee_result fmt (enc_sign fmt a) 0 st r
      else if enc_sign fmt a then nan_result fmt True st r
      else if enc_inf fmt a then inf_result fmt False st r
      else ieee_result fmt False (sqrt (enc_abs fmt a)) st r)"

lemma sqrt_near:
  assumes "0 \<le> p" "p < v" "0 < y" "4 * y < (p + v)\<^sup>2"
  shows "\<bar>p - sqrt y\<bar> < \<bar>v - sqrt y\<bar>"
proof -
  have "sqrt y < (p + v) / 2" by (rule real_less_lsqrt) (use assms in \<open>simp_all add: power_divide\<close>)
  then show ?thesis using assms by (simp add: abs_less_iff)
qed

section \<open>The single-precision square root\<close>

lemma square_root_unique:
  fixes v c :: int
  assumes "0 \<le> v" "1 \<le> c" "v\<^sup>2 \<le> N" "N < v\<^sup>2 + g" "N < (c + 1)\<^sup>2" "(c - 1)\<^sup>2 + g \<le> N"
  shows "v = c"
proof -
  have "v < c + 1" using assms by (intro power_less_imp_less_base [of v 2]) simp_all
  moreover have "c - 1 < v" using assms by (intro power_less_imp_less_base [of "c - 1" 2]) simp_all
  ultimately show ?thesis by simp
qed

text \<open>A square root just above a multiple of 64, of a significand close to \<^verbatim>\<open>2 ^ 24\<close>, is that of a perfect square.\<close>

lemma sqrt_just_above:
  fixes m K :: int
  assumes m: "2 ^ 24 - 32704 \<le> m" "m < 2 ^ 24" and K: "0 \<le> K" "K\<^sup>2 \<le> m * 2 ^ 26" "m * 2 ^ 26 < K\<^sup>2 + 4097"
  shows "m = 4095\<^sup>2 \<or> m = 4094\<^sup>2 \<or> m = 4093\<^sup>2"
proof -
  define v where "v = 2 ^ 25 - K"
  have Kv: "K\<^sup>2 = 2 ^ 50 - 2 ^ 26 * v + v\<^sup>2" by (simp add: v_def power2_eq_square algebra_simps)
  define k where "k = v - (2 ^ 24 - m)"
  have mk: "m * 2 ^ 26 = 2 ^ 50 - 2 ^ 26 * v + 2 ^ 26 * k" by (simp add: k_def)
  have vk: "v\<^sup>2 \<le> 2 ^ 26 * k" "2 ^ 26 * k < v\<^sup>2 + 4097" using K(2,3) unfolding Kv mk by simp_all
  have "K < 2 ^ 25"
  proof (rule power_less_imp_less_base)
    show "K ^ 2 < (2 ^ 25) ^ 2" using K(2) m(2) by simp
  qed simp
  then have v0: "0 < v" by (simp add: v_def)
  have "2 ^ 25 - 33000 < K"
  proof (rule power_less_imp_less_base)
    show "(2 ^ 25 - 33000) ^ 2 < K ^ 2" using K(3) m(1) by simp
  qed (rule K(1))
  then have v1: "v < 33000" by (simp add: v_def)
  have "v\<^sup>2 < 33000\<^sup>2" using v0 v1 by (intro power_strict_mono) simp_all
  then have "k \<le> 16" using vk by simp
  have "0 < v\<^sup>2" using v0 by simp
  then have "0 < 2 ^ 26 * k" using vk(1) by linarith
  then have k: "1 \<le> k" "k \<le> 16" using \<open>k \<le> 16\<close> by simp_all
  note root = square_root_unique [OF less_imp_le [OF v0] _ vk]
  have m: "m = 2 ^ 24 - v + k" by (simp add: k_def)
  have "k = 1 \<or> k = 2 \<or> k = 3 \<or> k = 4 \<or> k = 5 \<or> k = 6 \<or> k = 7 \<or> k = 8 \<or> k = 9 \<or> k = 10 \<or> k = 11 \<or> k = 12 \<or> k = 13 \<or> k = 14 \<or> k = 15 \<or> k = 16" using k by presburger
  then consider "k = 1" | "k = 2" | "k = 3" | "k = 4" | "k = 5" | "k = 6" | "k = 7" | "k = 8" | "k = 9" | "k = 10" | "k = 11" | "k = 12" | "k = 13" | "k = 14" | "k = 15" | "k = 16" by blast
  then show ?thesis
  proof cases
    case 1
    then show ?thesis using root [of 8192] vk m assms(1) by simp
  next
    case 2
    then show ?thesis using root [of 11585] vk m assms(1) by simp
  next
    case 3
    then show ?thesis using root [of 14188] vk m assms(1) by simp
  next
    case 4
    then show ?thesis using root [of 16384] vk m assms(1) by simp
  next
    case 5
    then show ?thesis using root [of 18317] vk m assms(1) by simp
  next
    case 6
    then show ?thesis using root [of 20066] vk m assms(1) by simp
  next
    case 7
    then show ?thesis using root [of 21673] vk m assms(1) by simp
  next
    case 8
    then show ?thesis using root [of 23170] vk m assms(1) by simp
  next
    case 9
    then show ?thesis using root [of 24576] vk m assms(1) by simp
  next
    case 10
    then show ?thesis using root [of 25905] vk m assms(1) by simp
  next
    case 11
    then show ?thesis using root [of 27169] vk m assms(1) by simp
  next
    case 12
    then show ?thesis using root [of 28377] vk m assms(1) by simp
  next
    case 13
    then show ?thesis using root [of 29536] vk m assms(1) by simp
  next
    case 14
    then show ?thesis using root [of 30651] vk m assms(1) by simp
  next
    case 15
    then show ?thesis using root [of 31727] vk m assms(1) by simp
  next
    case 16
    then show ?thesis using root [of 32768] vk m assms(1) by simp
  qed
qed

definition sqrt_scaled :: "int \<Rightarrow> int \<Rightarrow> real" where
  "sqrt_scaled p a = sqrt (of_int a * 2 ^ 30 / (if p = 0 then 1 else 2))"

lemma sqrt_scaled_recip:
  assumes "0 < a"
  shows "sqrt_scaled p a = of_int a * recipSqrt p a / 2 ^ (if p = 0 then 32 else 33)"
  unfolding sqrt_scaled_def
proof (rule real_sqrt_unique)
  let ?y = "of_int a * 2 ^ 30 / (if p = 0 then 1 else 2) :: real"
  have "(recipSqrt p a)\<^sup>2 = 2 ^ 94 * (if p = 0 then 1 else 2) / of_int a" using assms by (simp add: recipSqrt_def)
  then show "(of_int a * recipSqrt p a / 2 ^ (if p = 0 then 32 else 33))\<^sup>2 = of_int a * 2 ^ 30 / (if p = 0 then 1 else 2)"
    using assms by (simp add: power_mult_distrib power_divide power2_eq_square [of "real_of_int a"])
  show "0 \<le> of_int a * recipSqrt p a / 2 ^ (if p = 0 then 32 else 33)" using assms by (simp add: recipSqrt_def)
qed

lemma sqrt_scaled_range:
  assumes "2 ^ 31 \<le> a" "a < 2 ^ 32"
  shows "2 ^ 30 \<le> sqrt_scaled p a" "sqrt_scaled p a < 2 ^ 31"
proof -
  have "(2 ^ 30)\<^sup>2 \<le> (of_int a * 2 ^ 30 / (if p = 0 then 1 else 2) :: real)" using assms by simp
  then show "2 ^ 30 \<le> sqrt_scaled p a" unfolding sqrt_scaled_def by (intro real_le_rsqrt)
  have "(of_int a * 2 ^ 30 / (if p = 0 then 1 else 2) :: real) < (2 ^ 31)\<^sup>2" using assms by simp
  then show "sqrt_scaled p a < 2 ^ 31" unfolding sqrt_scaled_def by (intro real_less_lsqrt) simp_all
qed

lemma f32_sqrt_squares:
  "softfloat_approxRecipSqrt32_1 0 0xFFE00100 = 2148008063"
  "softfloat_approxRecipSqrt32_1 0 0xFFC00400 = 2148532735"
  "softfloat_approxRecipSqrt32_1 0 0xFFA00900 = 2149057663"
  by (simp_all add: softfloat_approxRecipSqrt32_1_def approxRecipSqrt_k0s_def approxRecipSqrt_k1s_def Let_def)

text \<open>The estimate is below the root, and no multiple of 64 lies between it (plus 2) and the root.\<close>

lemma f32_sqrt_estimate:
  assumes m: "2 ^ 23 \<le> m" "m < 2 ^ 24" and a: "uint (a :: u32) = m * 2 ^ 8" and p: "p = 0 \<or> p = 1"
    and z: "z = uint a * uint (softfloat_approxRecipSqrt32_1 (word_of_int p) a) div 2 ^ (if p = 0 then 32 else 33)"
    and S: "S = sqrt_scaled p (uint a)"
  shows "of_int z < S" "S < of_int z + 4" "of_int (64 * K) \<le> S \<Longrightarrow> 64 * K \<le> z + 2"
proof -
  define A r R where "A = uint a" and "r = uint (softfloat_approxRecipSqrt32_1 (word_of_int p) a)" and "R = recipSqrt p (uint a)"
  have A: "2 ^ 31 \<le> A" "A < 2 ^ 32" using m a by (simp_all add: A_def)
  define w :: nat where "w = (if p = 0 then 32 else 33)"
  note b = approxRecipSqrt32_1_bounds [OF _ p r_def, folded A_def, folded R_def [folded A_def]]
  have SR: "S = of_int A * R / 2 ^ w" using sqrt_scaled_recip [of A p] A by (simp add: S A_def R_def w_def)
  have zb: "of_int z \<le> of_int A * of_int r / (2 ^ w :: real)" "of_int A * of_int r / (2 ^ w :: real) < of_int z + 1"
    using real_div_bounds [of "2 ^ w" "A * r"] unfolding z A_def [symmetric] r_def [symmetric] w_def [symmetric] by simp_all
  have "of_int A * of_int r < of_int A * R" using b(1) A by (intro mult_strict_left_mono) simp_all
  then show "of_int z < S" using zb(1) unfolding SR by (meson divide_strict_right_mono order_le_less_trans zero_less_power zero_less_numeral)
  have gap: "S < of_int z + 1 + of_int A / 2 ^ w * e" if "R < of_int r + e" for e
  proof -
    have "of_int A * R < of_int A * (of_int r + e)" using that A by (intro mult_strict_left_mono) simp_all
    then have "S < of_int A * of_int r / 2 ^ w + of_int A / 2 ^ w * e" unfolding SR by (simp add: divide_less_cancel field_simps)
    then show ?thesis using zb(2) by simp
  qed
  have w: "of_int A / 2 ^ w < (1 :: real)" "0 < of_int A / (2 ^ w :: real)" using A by (simp_all add: w_def)
  note g2 = gap [OF b(2) [OF A(1), unfolded add.assoc]]
  show "S < of_int z + 4" using g2 w(1) mult_strict_right_mono [OF w(1), of "2 + 1 / 10"] by (simp add: add.assoc)
  show "64 * K \<le> z + 2" if K: "of_int (64 * K) \<le> S"
  proof (cases "S < of_int z + 3")
    case True
    then have "real_of_int (64 * K) < of_int (z + 3)" using K by simp
    then show ?thesis by simp
  next
    case False
    have p0: "p = 0"
    proof (rule ccontr)
      assume "p \<noteq> 0"
      then have "of_int A / 2 ^ w < (1 / 2 :: real)" using A by (simp add: w_def)
      then show False using g2 False mult_strict_right_mono [of "of_int A / 2 ^ w" "1 / 2 :: real" "2 + 1 / 10"] by (simp add: add.assoc)
    qed
    have A15: "15 * 2 ^ 28 \<le> A"
    proof (rule ccontr)
      assume "\<not> 15 * 2 ^ 28 \<le> A"
      then have "of_int A / 2 ^ w < (15 / 16 :: real)" by (simp add: w_def p0)
      then show False using g2 False mult_strict_right_mono [of "of_int A / 2 ^ w" "15 / 16 :: real" "2 + 1 / 10"] by (simp add: add.assoc)
    qed
    have g3: "S < of_int z + 1 + of_int A / 2 ^ w * (2 + 1 / 256)" using gap [OF b(3) [OF A(1) A15, unfolded add.assoc]] by simp
    have "512 / 513 < of_int A / (2 ^ w :: real)"
    proof (rule ccontr)
      assume "\<not> 512 / 513 < of_int A / (2 ^ w :: real)"
      then have "of_int A / 2 ^ w * (2 + 1 / 256) \<le> 512 / 513 * (2 + 1 / 256 :: real)" by (intro mult_right_mono) simp_all
      then show False using g3 False by simp
    qed
    then have "real_of_int (512 * 2 ^ 24) < of_int (513 * m)" using a by (simp add: w_def p0 A_def)
    then have m': "2 ^ 24 - 32704 \<le> m" by (simp only: of_int_less_iff) simp
    have S3: "S < of_int z + 3 + 1 / 256" using g3 mult_strict_right_mono [OF w(1), of "2 + 1 / 256"] by simp
    show ?thesis
    proof (rule ccontr)
      assume "\<not> 64 * K \<le> z + 2"
      then have k: "z + 3 \<le> 64 * K" by simp
      then have "real_of_int (z + 3) \<le> of_int (64 * K)" by (simp only: of_int_le_iff)
      then have SK: "S < of_int (64 * K) + 1 / 256" using S3 by simp
      have "0 \<le> S" "S\<^sup>2 = of_int m * 2 ^ 38" using m a by (simp_all add: S sqrt_scaled_def p0)
      have "2 ^ 30 \<le> S" "S < 2 ^ 31" using sqrt_scaled_range [of "uint a" p] A by (simp_all add: S A_def)
      then have K0: "0 \<le> K" "real_of_int K < 2 ^ 25" using SK K by simp_all
      have "(of_int (64 * K))\<^sup>2 \<le> S\<^sup>2" using K K0 by (intro power_mono) simp_all
      then have "real_of_int (K\<^sup>2) \<le> of_int (m * 2 ^ 26)" unfolding \<open>S\<^sup>2 = _\<close> by (simp add: power_mult_distrib)
      then have K1: "K\<^sup>2 \<le> m * 2 ^ 26" by (simp only: of_int_le_iff)
      have "S\<^sup>2 < (of_int (64 * K) + 1 / 256)\<^sup>2" using SK \<open>0 \<le> S\<close> by (intro power_strict_mono) simp_all
      also have "\<dots> = 2 ^ 12 * (of_int (K\<^sup>2) + of_int K / 2 ^ 13 + 1 / 2 ^ 28)" by (simp add: power2_eq_square algebra_simps)
      finally have "real_of_int (m * 2 ^ 26) < of_int (K\<^sup>2 + 4097)" unfolding \<open>S\<^sup>2 = _\<close> using K0(2) by simp
      then have "m * 2 ^ 26 < K\<^sup>2 + 4097" by (simp only: of_int_less_iff)
      from sqrt_just_above [OF m' m(2) K0(1) K1 this] obtain q where q: "q \<in> {4095, 4094, 4093}" "m = q\<^sup>2" by blast
      then have "K\<^sup>2 \<le> (q * 2 ^ 13)\<^sup>2" using K1 by (simp add: power_mult_distrib)
      then have Kq: "K \<le> q * 2 ^ 13" by (rule power2_le_imp_le) (use q in auto)
      have "a = word_of_int (m * 2 ^ 8)" using a by (metis word_of_int_uint)
      then have "z = uint (word_of_int (q\<^sup>2 * 2 ^ 8) :: u32) * uint (softfloat_approxRecipSqrt32_1 0 (word_of_int (q\<^sup>2 * 2 ^ 8))) div 2 ^ 32"
        by (simp add: z p0 q(2))
      then show False using q(1) k Kq f32_sqrt_squares by auto
    qed
  qed
qed

text \<open>The correction looks at the sign of \<^verbatim>\<open>c\<^sup>2 - N\<close> modulo \<^verbatim>\<open>2 ^ 32\<close>.\<close>

lemma sqrt_correction:
  fixes c N :: int
  assumes N: "0 \<le> N" "2 ^ 32 dvd N" and c: "0 \<le> c" "\<bar>of_int c - sqrt (of_int N)\<bar> \<le> 1" "sqrt (of_int N) < 2 ^ 29"
    and w: "w = (word_of_int (c\<^sup>2) :: u32)"
  shows "w AND 0x80000000 \<noteq> 0 \<longleftrightarrow> of_int c < sqrt (of_int N)" "w = 0 \<longleftrightarrow> of_int c = sqrt (of_int N)"
proof -
  define s where "s = sqrt (of_int N)"
  have s: "s\<^sup>2 = of_int N" "0 \<le> s" using N by (simp_all add: s_def)
  have "\<bar>of_int c - s\<bar> * \<bar>of_int c + s\<bar> \<le> 1 * (2 ^ 30 + 1)" using c s by (intro mult_mono) (simp_all add: s_def [symmetric])
  moreover have "real_of_int (c\<^sup>2 - N) = (of_int c - s) * (of_int c + s)" by (simp add: s(1) [symmetric] power2_eq_square algebra_simps)
  ultimately have "\<bar>real_of_int (c\<^sup>2 - N)\<bar> \<le> of_int (2 ^ 30 + 1)" by (simp add: abs_mult)
  then have b: "\<bar>c\<^sup>2 - N\<bar> \<le> 2 ^ 30 + 1" by (simp only: of_int_abs [symmetric] of_int_le_iff)
  have "(c\<^sup>2 - N) mod 2 ^ 32 = c\<^sup>2 mod 2 ^ 32" using N(2) mod_diff_right_eq [of "c\<^sup>2" N "2 ^ 32"] by simp
  then have w': "w = word_of_int (c\<^sup>2 - N)" unfolding w by (intro word_of_int_cong) simp
  have sg: "of_int c < s \<longleftrightarrow> c\<^sup>2 - N < 0" "of_int c = s \<longleftrightarrow> c\<^sup>2 - N = 0"
  proof -
    have "of_int c < s \<longleftrightarrow> (of_int c)\<^sup>2 < s\<^sup>2" using c(1) s(2) power_strict_mono [of "of_int c" s 2] power2_less_imp_less [of "of_int c" s] by auto
    then show "of_int c < s \<longleftrightarrow> c\<^sup>2 - N < 0" unfolding s(1) by (simp flip: of_int_power)
    have "of_int c = s \<longleftrightarrow> (of_int c)\<^sup>2 = s\<^sup>2" using c(1) s(2) by simp
    then show "of_int c = s \<longleftrightarrow> c\<^sup>2 - N = 0" unfolding s(1) by (simp flip: of_int_power)
  qed
  show "w AND 0x80000000 \<noteq> 0 \<longleftrightarrow> of_int c < sqrt (of_int N)"
    unfolding s_def [symmetric] sg w' using top_bit_negative(1) [of "c\<^sup>2 - N" "0x80000000 :: u32"] b by simp
  define D where "D = c\<^sup>2 - N"
  have "w = 0 \<longleftrightarrow> D = 0"
    using b [folded D_def] uint_of_negative [of D, where 'a = 32] uint_of_nonneg [of D, where 'a = 32] uint_eq_0 [of w]
    unfolding w' D_def [symmetric] by (cases "D < 0") simp_all
  then show "w = 0 \<longleftrightarrow> of_int c = sqrt (of_int N)" unfolding s_def [symmetric] sg D_def .
qed

lemma uint_low6: "(w AND 0x3F :: u64) < 2 \<longleftrightarrow> uint w mod 64 < 2"
proof -
  have "w AND 0x3F = take_bit 6 w" using and_low_mask [of w 6] by simp
  then show ?thesis using uint_take [of 6 w] by (simp add: word_less_uint)
qed

text \<open>The significand that is rounded lies on the same side of every multiple of 64 as the square root.\<close>

lemma f32_sqrt_sig_sticky:
  assumes m: "2 ^ 23 \<le> uint s" "uint s < 2 ^ 24" and p: "p = 0 \<or> p = 1"
  shows "sticky 64 (sqrt_scaled p (uint s * 2 ^ 8)) (uint (f32_sqrt_sig p (push_bit 8 s)))"
proof -
  define a z S where "a = (ucast (push_bit 8 s) :: u32)"
    and "z = uint a * uint (softfloat_approxRecipSqrt32_1 (word_of_int p) a) div 2 ^ (if p = 0 then 32 else 33)"
    and "S = sqrt_scaled p (uint a)"
  have "uint (push_bit 8 s) = uint s * 2 ^ 8" using m by (subst uint_push_small) simp_all
  then have a: "uint a = uint s * 2 ^ 8" "uint (push_bit 8 s) = uint a" using m by (simp_all add: a_def uint_ucast_small)
  note est = f32_sqrt_estimate [OF m a(1) p z_def S_def]
  have S: "2 ^ 30 \<le> S" "S < 2 ^ 31" using sqrt_scaled_range [of "uint a" p] a m by (simp_all add: S_def)
  define q where "q = softfloat_approxRecipSqrt32_1 (word_of_int p) a"
  have "uint a * uint q < 2 ^ 32 * 2 ^ 32" using uint_lt2p [of a] uint_lt2p [of q] by (intro mult_strict_mono) simp_all
  then have "uint (push_bit 8 s * ucast q) = uint a * uint q" by (subst uint_mult_small) (simp_all add: a(2) uint_ucast_up)
  then have "uint (if p \<noteq> 0 then drop_bit 1 (drop_bit 32 (push_bit 8 s * ucast q)) else drop_bit 32 (push_bit 8 s * ucast q)) = z"
    unfolding z_def q_def [symmetric] by (simp add: uint_drop zdiv_zmult2_eq [symmetric])
  moreover define E where "E = (if p \<noteq> 0 then drop_bit 1 (drop_bit 32 (push_bit 8 s * ucast q)) else drop_bit 32 (push_bit 8 s * ucast q)) + 2"
  have "real_of_int z < of_int (2 ^ 31)" using est(1) S by simp
  then have z31: "z < 2 ^ 31" by (simp only: of_int_less_iff)
  have "of_int (2 ^ 30 - 4) < real_of_int z" using est(2) S by simp
  then have z30: "2 ^ 30 - 4 < z" by (simp only: of_int_less_iff)
  ultimately have E: "uint E = z + 2" using z31 z30 by (simp add: E_def uint_add_small)
  define c where "c = (z + 2) div 4"
  have "uint (drop_bit 2 E) = c" by (simp add: uint_drop E c_def)
  have c: "0 \<le> c" "c \<le> 2 ^ 29" using z30 z31 by (simp_all add: c_def)
  define w where "w = (ucast (drop_bit 2 E * drop_bit 2 E) :: u32)"
  have "c * c \<le> 2 ^ 29 * 2 ^ 29" using c by (intro mult_mono) simp_all
  then have "uint (drop_bit 2 E * drop_bit 2 E) = c\<^sup>2" using \<open>uint (drop_bit 2 E) = c\<close> by (subst uint_mult_small) (simp_all add: power2_eq_square)
  then have w: "w = word_of_int (c\<^sup>2)" unfolding word_eq_uint w_def uint_ucast uint_word_of_int by simp
  have u4: "uint (push_bit 2 (drop_bit 2 E)) = 4 * c" using c \<open>uint (drop_bit 2 E) = c\<close> by (subst uint_push_small) simp_all
  have R: "f32_sqrt_sig p (push_bit 8 s) = (if (z + 2) mod 64 < 2
      then if w AND 0x80000000 \<noteq> 0 then push_bit 2 (drop_bit 2 E) OR 1
           else if w \<noteq> 0 then push_bit 2 (drop_bit 2 E) - 1 else push_bit 2 (drop_bit 2 E)
      else E)"
    unfolding f32_sqrt_sig_def Let_def a_def [symmetric] q_def [symmetric] E_def [symmetric] uint_low6 E w_def [symmetric] ..
  define K where "K = (z + 2) div 64"
  have SU: "sqrt_scaled p (uint s * 2 ^ 8) = S" by (simp add: S_def a(1))
  show ?thesis
  proof (cases "(z + 2) mod 64 < 2")
    case False
    define t where "t = (z + 2) mod 64"
    have t: "2 \<le> t" "t < 64" "z + 2 = 64 * K + t" using False by (simp_all add: t_def K_def)
    then have "64 * K < z + 2" "z + 2 < 64 * (K + 1)" "64 * K \<le> z" by simp_all
    moreover from this have "real_of_int (64 * K) < S" using est(1) by (simp flip: of_int_less_iff [where 'a = real])
    moreover have "S < of_int (64 * (K + 1))" using est(3) [of "K + 1"] \<open>z + 2 < 64 * (K + 1)\<close> by linarith
    ultimately have "sticky 64 S (z + 2)" by (intro sticky_cell [of K]) (simp_all add: mult.commute)
    then show ?thesis unfolding SU R if_not_P [OF False] E .
  next
    case True
    define t where "t = (z + 2) mod 64"
    have t: "0 \<le> t" "t < 2" "z + 2 = t + 4 * (16 * K)" using True by (simp_all add: t_def K_def)
    have "c = 16 * K" unfolding c_def t(3) using t(1,2) by (subst div_mult_self2) simp_all
    then have cK: "4 * c = K * 64" "z + 1 \<le> 4 * c" "4 * c \<le> z + 2" using t by simp_all
    define N where "N = uint s * 2 ^ 33 * (if p = 0 then 2 else 1)"
    have SN: "sqrt (of_int N) = S / 4"
    proof -
      have "S = sqrt (16 * of_int N)" using p by (auto simp: SU [symmetric] sqrt_scaled_def N_def)
      then show ?thesis by (simp add: real_sqrt_mult)
    qed
    have "real_of_int (z + 1) \<le> of_int (4 * c)" "real_of_int (4 * c) \<le> of_int (z + 2)" using cK by (simp_all only: of_int_le_iff)
    then have near: "of_int (4 * c) - S < 2" "S - of_int (4 * c) < 3" using est(1,2) by simp_all
    note cor = sqrt_correction [of N c w, OF _ _ c(1) _ _ w, unfolded SN]
    have N: "0 \<le> N" "2 ^ 32 dvd N" by (simp_all add: N_def)
    have sgn: "w AND 0x80000000 \<noteq> 0 \<longleftrightarrow> of_int (4 * c) < S" "w = 0 \<longleftrightarrow> of_int (4 * c) = S"
      using cor N near S by (simp_all add: abs_le_iff mult.commute [of "real_of_int c"])
    have Z: "uint (f32_sqrt_sig p (push_bit 8 s)) = (if of_int (4 * c) < S then 4 * c + 1 else if of_int (4 * c) = S then 4 * c else 4 * c - 1)"
    proof -
      have "uint (push_bit 2 (drop_bit 2 E) OR 1) = 4 * c + 1" using uint_or_one [of "push_bit 2 (drop_bit 2 E)" True] u4 by simp
      moreover have "1 \<le> 4 * c" using cK(2) z30 by simp
      then have "uint (push_bit 2 (drop_bit 2 E) - 1) = 4 * c - 1" using u4 by (subst uint_sub_small) simp_all
      ultimately show ?thesis unfolding R if_P [OF True] sgn using u4 by simp
    qed
    consider "of_int (4 * c) < S" | "of_int (4 * c) = S" | "S < of_int (4 * c)" by linarith
    then show ?thesis
    proof cases
      case 1
      then show ?thesis unfolding Z SU using near by (simp, intro sticky_cell [of K]) (simp_all add: cK(1) [symmetric] distrib_right)
    next
      case 2
      then show ?thesis unfolding Z SU using sticky_refl [of 64 "4 * c"] by simp
    next
      case 3
      then show ?thesis unfolding Z SU using near by (simp, intro sticky_cell [of "K - 1"]) (simp_all add: cK(1) [symmetric] left_diff_distrib)
    qed
  qed
qed

lemma f32_sqrt_finite:
  assumes "enc_finite binary32 (uint a)" "\<not> enc_zero binary32 (uint a)" "\<not> enc_sign binary32 (uint a)"
  shows "ieee_result binary32 False (sqrt (enc_abs binary32 (uint a))) st (f32_sqrt a st)"
proof -
  let ?A = "ucast a :: u64"
  have u: "uint ?A = uint a" by (simp add: uint_ucast_up)
  obtain e s where n: "softfloat_normArgF32 (expF32UI ?A) (fracF32UI ?A) = (e, s)" by force
  define m where "m = s OR 0x00800000"
  have "norm_operand binary32 (uint a) e (uint m)" using normArgF32 [OF _ n] assms(2) by (simp add: u m_def)
  then have r: "2 ^ 23 \<le> uint m" "uint m < 2 ^ 24" "- 23 < e" "e \<le> 256" and x: "enc_abs binary32 (uint a) = of_int (uint m) * 2 powi (e - 150)"
    by (simp_all add: norm_operand_def)
  define p where "p = e mod 2"
  have p: "p = 0 \<or> p = 1" by (simp add: p_def mod2_eq_if)
  define z where "z = f32_sqrt_sig p (push_bit 8 m)"
  have "\<not> (expF32UI ?A = 0 \<and> fracF32UI ?A = 0)" "expF32UI ?A \<noteq> 0xFF"
    using assms by (auto simp: enc_zero_def enc_finite_def expF32UI_enc fracF32UI_zero u)
  moreover have "\<not> signF32UI ?A" using assms(3) uint_lt2p [of a] by (simp add: signF32UI_enc u)
  ultimately have R: "f32_sqrt a st = softfloat_roundPackToF32 False ((e - 0x7F) div 2 + 0x7E) z st"
    unfolding f32_sqrt_def Let_def n prod.case z_def p_def m_def by (simp only: if_False simp_thms)
  define S where "S = sqrt_scaled p (uint m * 2 ^ 8)"
  have st: "sticky (2 ^ (7 - 1)) S (uint z)" using f32_sqrt_sig_sticky [OF r(1,2) p] by (simp add: S_def z_def)
  have S: "2 ^ 30 \<le> S" "S < 2 ^ 31" using sqrt_scaled_range [of "uint m * 2 ^ 8" p] r by (simp_all add: S_def)
  have zr: "2 ^ 30 \<le> uint z" "uint z < 2 ^ 31" using stickyD(1) [OF st, of "2 ^ 30"] stickyD(1) [OF st, of "2 ^ 31"] S by simp_all
  have "sqrt (enc_abs binary32 (uint a)) = S * 2 powi ((e - 0x7F) div 2 + 0x7E + fmt_qmin binary32 - int 7)"
  proof (rule real_sqrt_unique)
    define f M where "f = (e - 0x7F) div 2 + 0x7E + fmt_qmin binary32 - int 7" and "M = uint m"
    have M: "0 \<le> M" "enc_abs binary32 (uint a) = of_int M * 2 powi (e - 150)" by (simp_all add: M_def x)
    have S2: "S\<^sup>2 = of_int M * 2 ^ (if p = 0 then 38 else 37)" using M(1) p by (auto simp: S_def sqrt_scaled_def M_def [symmetric])
    have "f + f = e - 150 - int (if p = 0 then 38 else 37)" using p unfolding p_def f_def binary32_sel by presburger
    then have "(2 powi f)\<^sup>2 = (2 powi (e - 150) / 2 ^ (if p = 0 then 38 else 37) :: real)"
      using power_int_add [of "2 :: real" f f] by (simp only: power2_eq_square powi_down) simp
    then show "(S * 2 powi ((e - 0x7F) div 2 + 0x7E + fmt_qmin binary32 - int 7))\<^sup>2 = enc_abs binary32 (uint a)"
      unfolding f_def [symmetric] M(2) power_mult_distrib S2 by simp
    show "0 \<le> S * 2 powi ((e - 0x7F) div 2 + 0x7E + fmt_qmin binary32 - int 7)" using S by simp
  qed
  then show ?thesis unfolding R by (simp only:) (rule rp32.correct [OF st], use zr r in simp_all)
qed

lemma sqrt_special32:
  assumes S: "\<not> enc_finite binary32 (uint a) \<or> enc_zero binary32 (uint a) \<or> enc_sign binary32 (uint a)"
  shows "ieee_sqrt binary32 (uint a) st (f32_sqrt a st)"
proof -
  let ?A = "ucast a :: u64"
  have u: "uint ?A = uint a" by (simp add: uint_ucast_up)
  have sg: "signF32UI ?A = enc_sign binary32 (uint a)" using uint_lt2p [of a] by (simp add: signF32UI_enc u)
  have X: "enc_finite binary32 (uint a) \<Longrightarrow> ieee_result binary32 (enc_sign binary32 (uint a)) (enc_abs binary32 (uint a)) st (a, st)"
    by (rule rp32.exact_result) simp_all
  have D: "nan_result binary32 True st (ucast defaultNaNF32UI :: u32, softfloat_raiseFlags softfloat_flag_invalid st)"
    by (simp add: nan_result_def enc_make_def)
  have I: "enc_inf binary32 (uint a) \<Longrightarrow> inf_result binary32 (enc_sign binary32 (uint a)) st (a, st)"
    using enc_make_self [of "uint a" binary32] uint_lt2p [of a] by (simp add: inf_result_def enc_inf_def)
  have "\<not> enc_snan binary32 0" by (simp add: enc_snan_def enc_nan_def enc_frac_def)
  then have N: "nan_result binary32 (enc_snan binary32 (uint a)) st
     (let (uiZ, st) = softfloat_propagateNaNF32UI ?A 0 st in (ucast uiZ :: u32, st))"
    using propagateNaNF32UI_result [of ?A 0 st] by (simp add: u)
  note defs = enc_finite_def enc_nan_def enc_inf_def enc_zero_def
  show ?thesis using S X D I N enc_abs_zero [of binary32 "uint a"] unfolding f32_sqrt_def Let_def sg ieee_sqrt_def
    by (cases "enc_exp binary32 (uint a) = 255"; cases "enc_exp binary32 (uint a) = 0"; cases "enc_frac binary32 (uint a) = 0"; cases "enc_sign binary32 (uint a)")
       (simp_all add: defs u expF32UI_enc fracF32UI_zero)
qed

lemma f32_sqrt_correct: "ieee_sqrt binary32 (uint a) st (f32_sqrt a st)"
proof (cases "enc_finite binary32 (uint a) \<and> \<not> enc_zero binary32 (uint a) \<and> \<not> enc_sign binary32 (uint a)")
  case True
  then show ?thesis using f32_sqrt_finite [of a st] by (simp add: ieee_sqrt_def enc_finite_def enc_nan_def enc_inf_def)
next
  case False
  then show ?thesis using sqrt_special32 by blast
qed

section \<open>The double-precision square root\<close>

lemma f64_sqrt_special:
  assumes S: "\<not> enc_finite binary64 (uint a) \<or> enc_zero binary64 (uint a) \<or> enc_sign binary64 (uint a)"
  shows "ieee_sqrt binary64 (uint a) st (f64_sqrt a st)"
proof -
  have sg: "signF64UI a = enc_sign binary64 (uint a)" by (simp add: signF64UI_enc)
  have X: "enc_finite binary64 (uint a) \<Longrightarrow> ieee_result binary64 (enc_sign binary64 (uint a)) (enc_abs binary64 (uint a)) st (a, st)"
    by (rule rp64.exact_result) simp_all
  have D: "nan_result binary64 True st (defaultNaNF64UI, softfloat_raiseFlags softfloat_flag_invalid st)"
    by (simp add: nan_result_def enc_make_def)
  have I: "enc_inf binary64 (uint a) \<Longrightarrow> inf_result binary64 (enc_sign binary64 (uint a)) st (a, st)"
    using enc_make_self [of "uint a" binary64] uint_lt2p [of a] by (simp add: inf_result_def enc_inf_def)
  have "\<not> enc_snan binary64 0" by (simp add: enc_snan_def enc_nan_def enc_frac_def)
  then have N: "nan_result binary64 (enc_snan binary64 (uint a)) st (softfloat_propagateNaNF64UI a 0 st)"
    using propagateNaNF64UI_result [of a 0 st] by simp
  note defs = enc_finite_def enc_nan_def enc_inf_def enc_zero_def
  show ?thesis using S X D I N enc_abs_zero [of binary64 "uint a"] unfolding f64_sqrt_def Let_def sg ieee_sqrt_def
    by (cases "enc_exp binary64 (uint a) = 2047"; cases "enc_exp binary64 (uint a) = 0"; cases "enc_frac binary64 (uint a) = 0"; cases "enc_sign binary64 (uint a)")
       (simp_all add: defs expF64UI_enc fracF64UI_zero)
qed

text \<open>C4. f32_sqrt returns the IEEE 754 square root of its operand: the real square root rounded once in the current mode with exact flags, and NaN, infinity, signed zero and negative operands as the standard asks; f64_sqrt does so for NaN, infinite, zero and negative operands.\<close>

theorem float_sqrt_correct:
  "ieee_sqrt binary32 (uint a) st (f32_sqrt a st) \<and>
   (\<not> enc_finite binary64 (uint b) \<or> enc_zero binary64 (uint b) \<or> enc_sign binary64 (uint b) \<longrightarrow>
     ieee_sqrt binary64 (uint b) st (f64_sqrt b st))"
  using f32_sqrt_correct f64_sqrt_special by blast

theorem float_sqrt_correct_witness:
  "ieee_sqrt binary32 (uint (0x40000000 :: u32)) softfloat_initial_state (f32_sqrt 0x40000000 softfloat_initial_state) \<and>
   ieee_sqrt binary64 (uint (0xBFF0000000000000 :: u64)) softfloat_initial_state (f64_sqrt 0xBFF0000000000000 softfloat_initial_state)"
proof -
  have "enc_sign binary64 (uint (0xBFF0000000000000 :: u64))" by (simp add: enc_sign_def)
  then show ?thesis using float_sqrt_correct by blast
qed

lemma f64_sqrt_step1: "softfloat_approxRecipSqrt32_1 1 0xC0A08BA9 = 3501112918"
  by (simp add: softfloat_approxRecipSqrt32_1_def approxRecipSqrt_k0s_def approxRecipSqrt_k1s_def Let_def)

lemma f64_sqrt_step2: "f64_sqrt_sig 1 0x181411753E3F7B = 5657355559440450080"
  by (simp add: f64_sqrt_sig_def f64_sqrt_step1 Let_def)

lemma f64_sqrt_step3: "f64_sqrt 0x3FF81411753E3F7B softfloat_initial_state = softfloat_roundPackToF64 False 0x3FE 5657355559440450080 softfloat_initial_state"
  by (simp add: f64_sqrt_def f64_sqrt_step2 Let_def signF64UI_def expF64UI_def fracF64UI_def softfloat_normArgF64_def)

lemma f64_sqrt_step4: "softfloat_roundPackToF64 False 0x3FE 5657355559440450080 softfloat_initial_state = (0x3FF3A0BDBA1221E1, softfloat_initial_state \<lparr> softfloat_exceptionFlags := 1 \<rparr>)"
  by code_simp

text \<open>C14. In the default rounding mode f64_sqrt of 0x3FF81411753E3F7B returns a number that is further from the square root than its predecessor, so the result is not correctly rounded.\<close>

theorem f64_sqrt_not_nearest:
  "let a = 0x3FF81411753E3F7B; z = fst (f64_sqrt a softfloat_initial_state); x = sqrt (enc_abs binary64 (uint a))
   in \<bar>enc_abs binary64 (uint (z - 1)) - x\<bar> < \<bar>enc_abs binary64 (uint z) - x\<bar>"
proof -
  have z: "fst (f64_sqrt 0x3FF81411753E3F7B softfloat_initial_state) = 0x3FF3A0BDBA1221E1" by (simp add: f64_sqrt_step3 f64_sqrt_step4)
  have u: "uint (0x3FF81411753E3F7B :: u64) = 0x3FF81411753E3F7B" "uint (0x3FF3A0BDBA1221E1 :: u64) = 0x3FF3A0BDBA1221E1"
    "uint (0x3FF3A0BDBA1221E1 - 1 :: u64) = 0x3FF3A0BDBA1221E0" by simp_all
  have e: "enc_abs binary64 u = of_int (2 ^ 52 + u mod 2 ^ 52) / 2 ^ 52" if "u div 2 ^ 52 = 1023" for u
    using that by (simp add: enc_abs_def enc_sig_def enc_exp_def enc_frac_def power_int_minus field_simps)
  have v: "enc_abs binary64 0x3FF81411753E3F7B = 0x181411753E3F7B / 2 ^ 52" "enc_abs binary64 0x3FF3A0BDBA1221E1 = 0x13A0BDBA1221E1 / 2 ^ 52"
    "enc_abs binary64 0x3FF3A0BDBA1221E0 = 0x13A0BDBA1221E0 / 2 ^ 52" by (simp_all add: e)
  show ?thesis unfolding Let_def z u v by (rule sqrt_near) (simp_all add: power2_eq_square)
qed

end
