(* ===== verification/Coremark_List.thy ===== *)
theory Coremark_List
  imports Prelude "HOL-Library.Monad_Syntax"
begin

unbundle bit_operations_syntax

text \<open>
  The linked lists of \<^verbatim>\<open>src/riscv-tools/fpga_test4sim/coremark4sim/core_list_join.c\<close>: the two cell types of
  \<^verbatim>\<open>coremark.h\<close> in explicit stores, and the operations \<^verbatim>\<open>core_list_find\<close>, \<^verbatim>\<open>core_list_reverse\<close>,
  \<^verbatim>\<open>core_list_remove\<close>, \<^verbatim>\<open>core_list_undo_remove\<close>, \<^verbatim>\<open>copy_info\<close> and \<^verbatim>\<open>core_list_insert_new\<close>.  The
  lemmas read them as functions on the list of addresses that a pointer stands for.
\<close>

section \<open>The heap\<close>

text \<open>
  A pointer to a list cell or to a data item is its position in the block, a null pointer is
  \<^const>\<open>None\<close>; the two stores map positions to cells.
\<close>

record list_data =
  data16 :: u16
  idx :: u16

record list_head =
  head_next :: "nat option"
  head_info :: nat

type_synonym heads = "nat \<Rightarrow> list_head"
type_synonym datas = "nat \<Rightarrow> list_data"

definition set_next :: "nat \<Rightarrow> nat option \<Rightarrow> heads \<Rightarrow> heads" where
  "set_next a p h = h(a := (h a)\<lparr>head_next := p\<rparr>)"

definition set_info :: "nat \<Rightarrow> nat \<Rightarrow> heads \<Rightarrow> heads" where
  "set_info a d h = h(a := (h a)\<lparr>head_info := d\<rparr>)"

section \<open>The operations on lists\<close>

text \<open>A loop that follows the links of a cyclic list does not return, which is the value \<^const>\<open>None\<close>.\<close>

partial_function (option) list_find_loop :: "heads \<Rightarrow> (nat \<Rightarrow> bool) \<Rightarrow> nat option \<Rightarrow> nat option option" where
  "list_find_loop h found list =
     (case list of None \<Rightarrow> Some None
      | Some a \<Rightarrow> if found (head_info (h a)) then Some (Some a) else list_find_loop h found (head_next (h a)))"

declare list_find_loop.simps [code]

definition core_list_find :: "heads \<Rightarrow> datas \<Rightarrow> nat option \<Rightarrow> list_data \<Rightarrow> nat option option" where
  "core_list_find h D list info =
     (if 0 \<le> sint (idx info) then list_find_loop h (\<lambda>d. idx (D d) = idx info) list
      else list_find_loop h (\<lambda>d. data16 (D d) AND 0xff = data16 info) list)"

partial_function (option) list_reverse_loop :: "nat option \<Rightarrow> nat option \<Rightarrow> heads \<Rightarrow> (nat option \<times> heads) option" where
  "list_reverse_loop list nxt h =
     (case list of None \<Rightarrow> Some (nxt, h)
      | Some a \<Rightarrow> list_reverse_loop (head_next (h a)) (Some a) (set_next a nxt h))"

declare list_reverse_loop.simps [code]

definition core_list_reverse :: "nat option \<Rightarrow> heads \<Rightarrow> (nat option \<times> heads) option" where
  "core_list_reverse list h = list_reverse_loop list None h"

definition core_list_remove :: "nat \<Rightarrow> heads \<Rightarrow> (nat \<times> heads) option" where
  "core_list_remove item h = do {
     ret \<leftarrow> head_next (h item);
     let tmp = head_info (h item);
     let h = set_info item (head_info (h ret)) h;
     let h = set_info ret tmp h;
     item_next \<leftarrow> head_next (h item);
     let h = set_next item (head_next (h item_next)) h;
     let h = set_next ret None h;
     Some (ret, h)
   }"

definition core_list_undo_remove :: "nat \<Rightarrow> nat \<Rightarrow> heads \<Rightarrow> nat \<times> heads" where
  "core_list_undo_remove item_removed item_modified h =
     (let tmp = head_info (h item_removed);
          h = set_info item_removed (head_info (h item_modified)) h;
          h = set_info item_modified tmp h;
          h = set_next item_removed (head_next (h item_modified)) h;
          h = set_next item_modified (Some item_removed) h
      in (item_removed, h))"

definition copy_info :: "nat \<Rightarrow> list_data \<Rightarrow> datas \<Rightarrow> datas" where
  "copy_info to from D = D(to := (D to)\<lparr>data16 := data16 from, idx := idx from\<rparr>)"

text \<open>
  The memory that \<^verbatim>\<open>core_list_insert_new\<close> takes new items from: the two stores, and the pointers
  \<^verbatim>\<open>*memblock\<close> and \<^verbatim>\<open>*datablock\<close>.
\<close>

record list_pool =
  pool_heads :: heads
  pool_datas :: datas
  pool_memblock :: nat
  pool_datablock :: nat

definition core_list_insert_new :: "nat \<Rightarrow> list_data \<Rightarrow> nat \<Rightarrow> nat \<Rightarrow> list_pool \<Rightarrow> nat option \<times> list_pool" where
  "core_list_insert_new insert_point info memblock_end datablock_end s =
     (if pool_memblock s + 1 \<ge> memblock_end then (None, s)
      else if pool_datablock s + 1 \<ge> datablock_end then (None, s)
      else let newitem = pool_memblock s;
               s = s\<lparr>pool_memblock := pool_memblock s + 1\<rparr>;
               h = set_next newitem (head_next (pool_heads s insert_point)) (pool_heads s);
               h = set_next insert_point (Some newitem) h;
               h = set_info newitem (pool_datablock s) h;
               D = copy_info (pool_datablock s) info (pool_datas s)
           in (Some newitem, s\<lparr>pool_heads := h, pool_datas := D, pool_datablock := pool_datablock s + 1\<rparr>))"

section \<open>Lists in the heap\<close>

fun seg :: "heads \<Rightarrow> nat option \<Rightarrow> nat list \<Rightarrow> nat option \<Rightarrow> bool" where
  "seg h p [] r \<longleftrightarrow> p = r"
| "seg h p (a # as) r \<longleftrightarrow> p = Some a \<and> seg h (head_next (h a)) as r"

abbreviation is_list :: "heads \<Rightarrow> nat option \<Rightarrow> nat list \<Rightarrow> bool" where
  "is_list h p xs \<equiv> seg h p xs None"

lemma seg_append: "seg h p (xs @ ys) r \<longleftrightarrow> (\<exists>q. seg h p xs q \<and> seg h q ys r)"
  by (induction xs arbitrary: p) auto

lemma seg_cong: "(\<And>a. a \<in> set xs \<Longrightarrow> head_next (h' a) = head_next (h a)) \<Longrightarrow> seg h' p xs r \<longleftrightarrow> seg h p xs r"
  by (induction xs arbitrary: p) auto

lemma seg_set_next [simp]: "a \<notin> set xs \<Longrightarrow> seg (set_next a q h) p xs r \<longleftrightarrow> seg h p xs r"
  by (rule seg_cong) (auto simp: set_next_def)

lemma set_next_simps [simp]:
  "head_next (set_next a p h b) = (if b = a then p else head_next (h b))"
  "head_info (set_next a p h b) = head_info (h b)"
  by (simp_all add: set_next_def)

lemma set_info_simps [simp]:
  "head_next (set_info a d h b) = head_next (h b)"
  "head_info (set_info a d h b) = (if b = a then d else head_info (h b))"
  by (simp_all add: set_info_def)

lemma seg_functional: "seg h p xs None \<Longrightarrow> seg h p ys None \<Longrightarrow> xs = ys"
  by (induction xs arbitrary: p ys) (case_tac ys; auto)+

lemma is_list_distinct: "is_list h p xs \<Longrightarrow> distinct xs"
proof (induction xs arbitrary: p)
  case (Cons a xs)
  have "a \<notin> set xs"
  proof
    assume "a \<in> set xs"
    then obtain ys zs where xs: "xs = ys @ a # zs" by (auto simp: in_set_conv_decomp)
    then have "is_list h (Some a) (a # zs)" "is_list h (Some a) (a # xs)" using Cons.prems by (auto simp: seg_append)
    then have "a # zs = a # xs" by (rule seg_functional)
    then show False using xs by (metis append_eq_conv_conj length_Cons length_append list.inject lessI less_add_Suc2 less_irrefl append.right_neutral add_Suc_right not_add_less2)
  qed
  then show ?case using Cons by auto
qed simp

section \<open>Reversal, search, removal\<close>

lemma list_reverse_loop_rev:
  assumes "is_list h p xs" "is_list h r ys" "set xs \<inter> set ys = {}"
  shows "\<exists>p' h'. list_reverse_loop p r h = Some (p', h') \<and> is_list h' p' (rev xs @ ys) \<and> (\<forall>a. head_info (h' a) = head_info (h a)) \<and>
    (\<forall>a. a \<notin> set xs \<longrightarrow> h' a = h a)"
  using assms
proof (induction xs arbitrary: p r h ys)
  case Nil
  then show ?case by (auto simp: list_reverse_loop.simps)
next
  case (Cons a xs)
  have d: "a \<notin> set xs" "a \<notin> set ys" using is_list_distinct [OF Cons.prems(1)] Cons.prems(3) by auto
  have "is_list (set_next a r h) (head_next (h a)) xs" "is_list (set_next a r h) (Some a) (a # ys)" "set xs \<inter> set (a # ys) = {}"
    using Cons.prems d by auto
  from Cons.IH [OF this] obtain p' h' where
    "list_reverse_loop (head_next (h a)) (Some a) (set_next a r h) = Some (p', h')" "is_list h' p' (rev xs @ a # ys)"
    "\<forall>b. head_info (h' b) = head_info (h b)" "\<forall>b. b \<notin> set xs \<longrightarrow> h' b = set_next a r h b" by auto
  then show ?case using Cons.prems(1) by (subst list_reverse_loop.simps) (auto simp: set_next_def)
qed

lemma core_list_reverse_list:
  assumes "is_list h p xs"
  shows "\<exists>p' h'. core_list_reverse p h = Some (p', h') \<and> is_list h' p' (rev xs) \<and> (\<forall>a. head_info (h' a) = head_info (h a)) \<and>
    (\<forall>a. a \<notin> set xs \<longrightarrow> h' a = h a)"
  using list_reverse_loop_rev [OF assms, of None "[]"] by (simp add: core_list_reverse_def)

lemma list_find_loop_find:
  "is_list h p xs \<Longrightarrow> list_find_loop h found p = Some (List.find (\<lambda>a. found (head_info (h a))) xs)"
  by (induction xs arbitrary: p) (auto simp: list_find_loop.simps)

lemma core_list_find_list:
  assumes "is_list h p xs"
  shows "core_list_find h D p info = Some (List.find (\<lambda>a.
    if 0 \<le> sint (idx info) then idx (D (head_info (h a))) = idx info
    else take_bit 8 (data16 (D (head_info (h a)))) = data16 info) xs)"
  unfolding core_list_find_def list_find_loop_find [OF assms]
  by (simp add: take_bit_eq_mask mask_eq_exp_minus_1)

lemma core_list_remove_eq:
  assumes "head_next (h item) = Some r" "item \<noteq> r"
  shows "core_list_remove item h =
    Some (r, set_next r None (set_next item (head_next (h r)) (set_info r (head_info (h item)) (set_info item (head_info (h r)) h))))"
  using assms by (simp add: core_list_remove_def Let_def)

theorem core_list_remove_undo:
  assumes "head_next (h item) = Some r" "item \<noteq> r"
  shows "\<exists>h'. core_list_remove item h = Some (r, h') \<and> core_list_undo_remove r item h' = (r, h)"
  unfolding core_list_remove_eq [of h item r, OF assms]
  by (intro exI conjI, rule refl)
    (use assms in \<open>simp add: core_list_undo_remove_def set_info_def set_next_def Let_def fun_eq_iff\<close>)

lemma core_list_remove_list:
  assumes "is_list h p (xs @ a # b # ys)"
  shows "\<exists>h'. core_list_remove a h = Some (b, h') \<and> is_list h' p (xs @ a # ys) \<and>
    map (\<lambda>c. head_info (h' c)) (xs @ a # ys) = map (\<lambda>c. head_info (h c)) (xs @ b # ys) \<and> head_info (h' b) = head_info (h a)"
proof -
  have d: "distinct (xs @ a # b # ys)" by (rule is_list_distinct [OF assms])
  have n: "head_next (h a) = Some b" using assms by (auto simp: seg_append)
  define h' where "h' = set_next b None (set_next a (head_next (h b)) (set_info b (head_info (h a)) (set_info a (head_info (h b)) h)))"
  have r: "core_list_remove a h = Some (b, h')"
    using n d by (simp add: core_list_remove_eq h'_def)
  have "seg h' p xs (Some a)" "seg h' (head_next (h b)) ys None"
    using assms d by (auto simp: h'_def seg_append seg_cong [of _ "set_info _ _ _"])
  then have "is_list h' p (xs @ a # ys)" using d by (auto simp: seg_append h'_def)
  moreover have "map (\<lambda>c. head_info (h' c)) (xs @ a # ys) = map (\<lambda>c. head_info (h c)) (xs @ b # ys)" "head_info (h' b) = head_info (h a)"
    using d by (auto simp: h'_def)
  ultimately show ?thesis using r by blast
qed

theorem core_list_remove_undo_witness:
  "\<exists>h'. core_list_remove 7 ((\<lambda>_. \<lparr>head_next = None, head_info = 0\<rparr>)(7 := \<lparr>head_next = Some 4, head_info = 1\<rparr>)) = Some (4, h') \<and>
     core_list_undo_remove 4 7 h' = (4, (\<lambda>_. \<lparr>head_next = None, head_info = 0\<rparr>)(7 := \<lparr>head_next = Some 4, head_info = 1\<rparr>))"
  by (rule core_list_remove_undo) simp_all

end
