(* ===== verification/Coremark_Sort.thy ===== *)
theory Coremark_Sort
  imports Coremark_List "HOL-Library.Multiset"
begin

text \<open>
  The merge sort \<^verbatim>\<open>core_list_mergesort\<close> of \<^verbatim>\<open>core_list_join.c\<close>, which relinks the cells in place.  It
  refines a merge sort on lists of addresses.  What a comparison has to promise is stated as locales:
  that it returns and keeps an invariant (the sort returns a permutation), that it decides an order
  (the result is sorted), that it marks the cells it compares (the sort marks every cell).
\<close>

section \<open>The merge sort\<close>

text \<open>
  The sort is generic in the comparison, which works on a state of its own (the data items and the
  results).  \<^verbatim>\<open>sort_advance\<close> steps \<^verbatim>\<open>insize\<close> places along; the lengths are mathematical integers, which
  the number of cells in a 32-bit address space keeps below the overflow of \<^verbatim>\<open>ee_s32\<close>.
\<close>

fun sort_advance :: "nat \<Rightarrow> heads \<Rightarrow> nat option \<Rightarrow> (int \<times> nat option) option" where
  "sort_advance 0 h q = Some (0, q)"
| "sort_advance (Suc i) h q =
     (case q of None \<Rightarrow> None
      | Some a \<Rightarrow> (case head_next (h a) of None \<Rightarrow> Some (1, None)
                   | Some b \<Rightarrow> map_option (\<lambda>(psize, q). (psize + 1, q)) (sort_advance i h (Some b))))"

definition sort_append :: "nat \<Rightarrow> nat option \<Rightarrow> nat option \<Rightarrow> heads \<Rightarrow> nat option \<times> nat option \<times> heads" where
  "sort_append e list tail h = (case tail of Some t \<Rightarrow> (list, Some e, set_next t (Some e) h) | None \<Rightarrow> (Some e, Some e, h))"

type_synonym 's list_cmp = "nat \<Rightarrow> nat \<Rightarrow> 's \<Rightarrow> (int \<times> 's) option"

text \<open>The choice between the head of the first and the head of the second run.\<close>

definition sort_choose :: "'s list_cmp \<Rightarrow> nat option \<Rightarrow> nat option \<Rightarrow> int \<Rightarrow> int \<Rightarrow> heads \<Rightarrow> 's \<Rightarrow> (bool \<times> 's) option" where
  "sort_choose cmp p q psize qsize h s =
     (if psize = 0 then Some (False, s)
      else if qsize = 0 \<or> q = None then Some (True, s)
      else do {
        pa \<leftarrow> p; qa \<leftarrow> q;
        (r, s) \<leftarrow> cmp (head_info (h pa)) (head_info (h qa)) s;
        Some (r \<le> 0, s)
      })"

partial_function (option) sort_merge :: "'s list_cmp \<Rightarrow> nat option \<Rightarrow> nat option \<Rightarrow> int \<Rightarrow> int \<Rightarrow> nat option \<Rightarrow> nat option \<Rightarrow> heads \<Rightarrow> 's \<Rightarrow>
    (nat option \<times> nat option \<times> nat option \<times> heads \<times> 's) option" where
  "sort_merge cmp p q psize qsize list tail h s =
     (if 0 < psize \<or> 0 < qsize \<and> q \<noteq> None
      then do {
        (from_p, s) \<leftarrow> sort_choose cmp p q psize qsize h s;
        e \<leftarrow> (if from_p then p else q);
        let nxt = head_next (h e);
        let (list, tail, h) = sort_append e list tail h;
        (if from_p then sort_merge cmp nxt q (psize - 1) qsize list tail h s
         else sort_merge cmp p nxt psize (qsize - 1) list tail h s)
      }
      else Some (q, list, tail, h, s))"

declare sort_merge.simps [code]

text \<open>One pass over the list.\<close>

partial_function (option) sort_pass :: "'s list_cmp \<Rightarrow> int \<Rightarrow> nat option \<Rightarrow> nat option \<Rightarrow> nat option \<Rightarrow> int \<Rightarrow> heads \<Rightarrow> 's \<Rightarrow>
    (nat option \<times> nat option \<times> int \<times> heads \<times> 's) option" where
  "sort_pass cmp insize p list tail nmerges h s =
     (if p \<noteq> None
      then do {
        let nmerges = nmerges + 1;
        (psize, q) \<leftarrow> sort_advance (nat insize) h p;
        (q, list, tail, h, s) \<leftarrow> sort_merge cmp p q psize insize list tail h s;
        sort_pass cmp insize q list tail nmerges h s
      }
      else Some (list, tail, nmerges, h, s))"

declare sort_pass.simps [code]

partial_function (option) sort_passes :: "'s list_cmp \<Rightarrow> int \<Rightarrow> nat option \<Rightarrow> heads \<Rightarrow> 's \<Rightarrow> (nat option \<times> heads \<times> 's) option" where
  "sort_passes cmp insize list h s = do {
     (list, tail, nmerges, h, s) \<leftarrow> sort_pass cmp insize list None None 0 h s;
     t \<leftarrow> tail;
     let h = set_next t None h;
     (if nmerges \<le> 1 then Some (list, h, s) else sort_passes cmp (insize * 2) list h s)
   }"

declare sort_passes.simps [code]

definition core_list_mergesort :: "'s list_cmp \<Rightarrow> nat option \<Rightarrow> heads \<Rightarrow> 's \<Rightarrow> (nat option \<times> heads \<times> 's) option" where
  "core_list_mergesort cmp list h s = sort_passes cmp 1 list h s"

section \<open>The merge sort on lists of addresses\<close>

fun list_merge :: "'s list_cmp \<Rightarrow> (nat \<Rightarrow> nat) \<Rightarrow> nat list \<Rightarrow> nat list \<Rightarrow> 's \<Rightarrow> (nat list \<times> 's) option" where
  "list_merge cmp info [] [] s = Some ([], s)"
| "list_merge cmp info [] (q # qs) s = map_option (map_prod (Cons q) id) (list_merge cmp info [] qs s)"
| "list_merge cmp info (p # ps) [] s = map_option (map_prod (Cons p) id) (list_merge cmp info ps [] s)"
| "list_merge cmp info (p # ps) (q # qs) s = do {
     (r, s) \<leftarrow> cmp (info p) (info q) s;
     (if r \<le> 0 then map_option (map_prod (Cons p) id) (list_merge cmp info ps (q # qs) s)
      else map_option (map_prod (Cons q) id) (list_merge cmp info (p # ps) qs s))
   }"

function list_pass :: "'s list_cmp \<Rightarrow> (nat \<Rightarrow> nat) \<Rightarrow> nat \<Rightarrow> nat list \<Rightarrow> 's \<Rightarrow> (nat list \<times> nat \<times> 's) option" where
  "list_pass cmp info n xs s =
     (if xs = [] \<or> n = 0 then Some ([], 0, s)
      else do {
        (ys, s) \<leftarrow> list_merge cmp info (take n xs) (take n (drop n xs)) s;
        (zs, m, s) \<leftarrow> list_pass cmp info n (drop (2 * n) xs) s;
        Some (ys @ zs, Suc m, s)
      })"
  by pat_completeness auto

termination by (relation "measure (\<lambda>(_, _, _, xs, _). length xs)") auto

declare list_pass.simps [simp del]

section \<open>The runs of a merge in the heap\<close>

definition out_list :: "heads \<Rightarrow> nat option \<Rightarrow> nat option \<Rightarrow> nat list \<Rightarrow> bool" where
  "out_list h list tail out \<longleftrightarrow>
     (if out = [] then list = None \<and> tail = None
      else tail = Some (last out) \<and> seg h list (butlast out) (Some (last out)))"

definition same_info :: "heads \<Rightarrow> heads \<Rightarrow> nat set \<Rightarrow> bool" where
  "same_info h h' A \<longleftrightarrow> (\<forall>a. head_info (h' a) = head_info (h a)) \<and> (\<forall>a. a \<notin> A \<longrightarrow> h' a = h a)"

lemma same_info_trans: "same_info h h' A \<Longrightarrow> same_info h' h'' B \<Longrightarrow> A \<subseteq> C \<Longrightarrow> B \<subseteq> C \<Longrightarrow> same_info h h'' C"
  by (auto simp: same_info_def) (metis subsetD)

lemma same_info_refl [simp]: "same_info h h A"
  by (simp add: same_info_def)

lemma same_info_set_next: "a \<in> A \<Longrightarrow> same_info h (set_next a p h) A"
  by (auto simp: same_info_def set_next_def)

lemma same_info_seg: "same_info h h' A \<Longrightarrow> A \<inter> set xs = {} \<Longrightarrow> seg h p xs r \<Longrightarrow> seg h' p xs r"
  by (subst seg_cong [of _ h' h]) (auto simp: same_info_def)

lemma sort_append_out:
  assumes "out_list h list tail out" "sort_append e list tail h = (list', tail', h')" "distinct (out @ [e])"
  shows "out_list h' list' tail' (out @ [e])" "same_info h h' (set out)"
proof -
  have "out_list h' list' tail' (out @ [e]) \<and> same_info h h' (set out)"
  proof (cases out rule: rev_cases)
    case Nil
    then show ?thesis using assms by (auto simp: out_list_def sort_append_def)
  next
    case (snoc ys t)
    then have "seg h list ys (Some t)" "tail = Some t" using assms(1) by (auto simp: out_list_def)
    then show ?thesis using assms(2,3) snoc
      by (auto simp: out_list_def sort_append_def seg_append butlast_append same_info_set_next)
  qed
  then show "out_list h' list' tail' (out @ [e])" "same_info h h' (set out)" by auto
qed

definition merging :: "heads \<Rightarrow> nat option \<Rightarrow> nat option \<Rightarrow> nat option \<Rightarrow> nat option \<Rightarrow> nat list \<Rightarrow> nat list \<Rightarrow> nat list \<Rightarrow> bool" where
  "merging h p q list tail ps qs out \<longleftrightarrow>
     (\<exists>r. seg h p ps r) \<and> is_list h q qs \<and> out_list h list tail out \<and> distinct (out @ ps @ qs)"

lemma merging_take_p:
  assumes "merging h p q list tail (a # ps) qs out" "sort_append a list tail h = (list', tail', h')"
  shows "p = Some a" "merging h' (head_next (h a)) q list' tail' ps qs (out @ [a])" "same_info h h' (set out)"
proof -
  show "p = Some a" using assms(1) by (auto simp: merging_def)
  have o: "out_list h' list' tail' (out @ [a])" "same_info h h' (set out)"
    using sort_append_out [OF _ assms(2)] assms(1) by (auto simp: merging_def)
  then show "merging h' (head_next (h a)) q list' tail' ps qs (out @ [a])"
    using assms(1) same_info_seg [OF o(2), of ps] same_info_seg [OF o(2), of qs] unfolding merging_def by fastforce
  show "same_info h h' (set out)" by (rule o)
qed

lemma merging_take_q:
  assumes "merging h p q list tail ps (a # qs) out" "sort_append a list tail h = (list', tail', h')"
  shows "q = Some a" "merging h' p (head_next (h a)) list' tail' ps qs (out @ [a])" "same_info h h' (set out)"
proof -
  show "q = Some a" using assms(1) by (auto simp: merging_def)
  have o: "out_list h' list' tail' (out @ [a])" "same_info h h' (set out)"
    using sort_append_out [OF _ assms(2)] assms(1) by (auto simp: merging_def)
  then show "merging h' p (head_next (h a)) list' tail' ps qs (out @ [a])"
    using assms(1) same_info_seg [OF o(2), of ps] same_info_seg [OF o(2), of qs] unfolding merging_def by fastforce
  show "same_info h h' (set out)" by (rule o)
qed

text \<open>The loop is in front of at most \<open>qsize\<close> elements of the second run.\<close>

definition run_bound :: "int \<Rightarrow> nat list \<Rightarrow> nat list \<Rightarrow> bool" where
  "run_bound qsize qs rest \<longleftrightarrow> qsize = int (length qs) \<or> rest = [] \<and> int (length qs) \<le> qsize"

definition merged :: "heads \<Rightarrow> nat list \<Rightarrow> nat list \<Rightarrow> nat list \<Rightarrow> nat list \<Rightarrow> 's \<Rightarrow> (nat option \<times> nat option \<times> nat option \<times> heads \<times> 's) option \<Rightarrow> bool" where
  "merged h out xs ys rest s r \<longleftrightarrow> (\<exists>q list tail h'. r = Some (q, list, tail, h', s) \<and> is_list h' q rest \<and>
     out_list h' list tail (out @ ys) \<and> same_info h h' (set out \<union> set xs))"

lemma merged_Cons:
  assumes "merged h' (out @ [a]) xs ys rest s r" "same_info h h' (set out)" "a \<in> set zs" "set xs \<subseteq> set zs"
  shows "merged h out zs (a # ys) rest s r"
  using assms same_info_trans [OF assms(2), of _ "insert a (set out \<union> set xs)" "set out \<union> set zs"]
  by (fastforce simp: merged_def)

lemma sort_merge_refines:
  assumes "list_merge cmp info ps qs s = Some (ys, s')" "\<And>a. head_info (h a) = info a"
    and "merging h p q list tail ps (qs @ rest) out" "run_bound qsize qs rest"
  shows "merged h out (ps @ qs) ys rest s' (sort_merge cmp p q (int (length ps)) qsize list tail h s)"
  using assms
proof (induction cmp info ps qs s arbitrary: ys s' h p q list tail out qsize rule: list_merge.induct)
  case (1 cmp info s)
  then have "qsize = 0 \<or> q = None" by (auto simp: run_bound_def merging_def)
  then show ?case using "1.prems" by (subst sort_merge.simps) (auto simp: merged_def merging_def)
next
  case (2 cmp info b qs s)
  obtain list' tail' h' where ap: "sort_append b list tail h = (list', tail', h')" by (cases "sort_append b list tail h")
  note t = merging_take_q [OF "2.prems"(3) [unfolded append_Cons] ap]
  obtain zs where zs: "ys = b # zs" "list_merge cmp info [] qs s = Some (zs, s')" using "2.prems"(1) by auto
  have "merged h' (out @ [b]) ([] @ qs) zs rest s' (sort_merge cmp p (head_next (h b)) (int (length ([] :: nat list))) (qsize - 1) list' tail' h' s)"
    by (rule "2.IH") (use "2.prems"(2,4) t(2,3) zs(2) in \<open>auto simp: same_info_def run_bound_def\<close>)
  moreover have "sort_merge cmp p q (int (length ([] :: nat list))) qsize list tail h s =
      sort_merge cmp p (head_next (h b)) (int (length ([] :: nat list))) (qsize - 1) list' tail' h' s"
    using t(1) ap "2.prems"(4) by (subst sort_merge.simps) (auto simp: sort_choose_def run_bound_def)
  ultimately show ?case using zs(1) by (auto intro: merged_Cons [OF _ t(3)])
next
  case (3 cmp info a ps s)
  obtain list' tail' h' where ap: "sort_append a list tail h = (list', tail', h')" by (cases "sort_append a list tail h")
  note t = merging_take_p [OF "3.prems"(3) ap]
  obtain zs where zs: "ys = a # zs" "list_merge cmp info ps [] s = Some (zs, s')" using "3.prems"(1) by auto
  have "merged h' (out @ [a]) (ps @ []) zs rest s' (sort_merge cmp (head_next (h a)) q (int (length ps)) qsize list' tail' h' s)"
    by (rule "3.IH") (use "3.prems"(2,4) t(2,3) zs(2) in \<open>auto simp: same_info_def\<close>)
  moreover have "qsize = 0 \<or> q = None" using "3.prems"(3,4) by (auto simp: run_bound_def merging_def)
  then have "sort_merge cmp p q (int (length (a # ps))) qsize list tail h s =
      sort_merge cmp (head_next (h a)) q (int (length ps)) qsize list' tail' h' s"
    using t(1) ap by (subst sort_merge.simps) (auto simp: sort_choose_def)
  ultimately show ?case using zs(1) by (auto intro: merged_Cons [OF _ t(3)])
next
  case (4 cmp info a ps b qs s)
  obtain r s1 where r: "cmp (info a) (info b) s = Some (r, s1)" using "4.prems"(1) by (auto simp: bind_eq_Some_conv)
  have pq: "p = Some a" "q = Some b" using "4.prems"(3) by (auto simp: merging_def)
  have pos: "0 < qsize" using "4.prems"(4) by (auto simp: run_bound_def)
  show ?case
  proof (cases "r \<le> 0")
    case True
    obtain list' tail' h' where ap: "sort_append a list tail h = (list', tail', h')" by (cases "sort_append a list tail h")
    note t = merging_take_p [OF "4.prems"(3) ap]
    obtain zs where zs: "ys = a # zs" "list_merge cmp info ps (b # qs) s1 = Some (zs, s')" using "4.prems"(1) r True by auto
    have "merged h' (out @ [a]) (ps @ b # qs) zs rest s' (sort_merge cmp (head_next (h a)) q (int (length ps)) qsize list' tail' h' s1)"
      by (rule "4.IH"(1)) (use "4.prems"(2,4) t(2,3) zs(2) True r in \<open>auto simp: same_info_def\<close>)
    moreover have "sort_merge cmp p q (int (length (a # ps))) qsize list tail h s =
        sort_merge cmp (head_next (h a)) q (int (length ps)) qsize list' tail' h' s1"
      using pq pos ap r True "4.prems"(2) by (subst sort_merge.simps) (auto simp: sort_choose_def)
    ultimately show ?thesis using zs(1) by (auto intro: merged_Cons [OF _ t(3)])
  next
    case False
    obtain list' tail' h' where ap: "sort_append b list tail h = (list', tail', h')" by (cases "sort_append b list tail h")
    note t = merging_take_q [OF "4.prems"(3) [unfolded append_Cons] ap]
    obtain zs where zs: "ys = b # zs" "list_merge cmp info (a # ps) qs s1 = Some (zs, s')" using "4.prems"(1) r False by auto
    have "merged h' (out @ [b]) ((a # ps) @ qs) zs rest s' (sort_merge cmp p (head_next (h b)) (int (length (a # ps))) (qsize - 1) list' tail' h' s1)"
      by (rule "4.IH"(2)) (use "4.prems"(2,4) t(2,3) zs(2) False r in \<open>auto simp: same_info_def run_bound_def\<close>)
    moreover have "sort_merge cmp p q (int (length (a # ps))) qsize list tail h s =
        sort_merge cmp p (head_next (h b)) (int (length (a # ps))) (qsize - 1) list' tail' h' s1"
      using pq pos ap r False "4.prems"(2) by (subst sort_merge.simps) (auto simp: sort_choose_def)
    ultimately show ?thesis using zs(1) by (auto intro: merged_Cons [OF _ t(3)])
  qed
qed

lemma sort_advance_seg:
  assumes "is_list h p xs" "xs \<noteq> []" "0 < n"
  shows "\<exists>q. sort_advance n h p = Some (int (length (take n xs)), q) \<and> seg h p (take n xs) q \<and> is_list h q (drop n xs)"
  using assms
proof (induction n arbitrary: p xs)
  case (Suc n)
  then obtain a ys where xs: "xs = a # ys" by (cases xs) auto
  show ?case
  proof (cases "ys = [] \<or> n = 0")
    case True
    then show ?thesis using Suc.prems xs by (cases ys) (auto split: option.splits)
  next
    case False
    then obtain b zs where ys: "ys = b # zs" by (cases ys) auto
    then have "head_next (h a) = Some b" using Suc.prems xs by simp
    then show ?thesis using Suc.IH [of "head_next (h a)" ys] Suc.prems(1) xs ys False by auto
  qed
qed simp

lemma list_merge_mset: "list_merge cmp info ps qs s = Some (ys, s') \<Longrightarrow> mset ys = mset ps + mset qs"
proof (induction cmp info ps qs s arbitrary: ys s' rule: list_merge.induct)
  case (4 cmp info p ps q qs s)
  then obtain r s1 where r: "cmp (info p) (info q) s = Some (r, s1)" by (auto simp: bind_eq_Some_conv)
  show ?case using "4.IH"(1) [OF r refl] "4.IH"(2) [OF r refl] "4.prems" r by (cases "r \<le> 0") auto
qed auto

lemma list_pass_mset: "list_pass cmp info n xs s = Some (ys, m, s') \<Longrightarrow> 0 < n \<Longrightarrow> mset ys = mset xs"
proof (induction cmp info n xs s arbitrary: ys m s' rule: list_pass.induct)
  case (1 cmp info n xs s)
  show ?case
  proof (cases "xs = []")
    case True
    then show ?thesis using "1.prems" by (simp add: list_pass.simps)
  next
    case False
    then obtain us s1 zs k where m: "list_merge cmp info (take n xs) (take n (drop n xs)) s = Some (us, s1)"
      "list_pass cmp info n (drop (2 * n) xs) s1 = Some (zs, k, s')" "ys = us @ zs"
      using "1.prems" by (auto simp: list_pass.simps [of cmp info n xs] bind_eq_Some_conv)
    have "mset zs = mset (drop (2 * n) xs)" using "1.IH" [OF _ m(1) refl m(2)] False "1.prems"(2) by simp
    moreover have "take n xs @ take n (drop n xs) @ drop (2 * n) xs = xs"
      by (metis append_take_drop_id drop_drop mult_2)
    ultimately show ?thesis using list_merge_mset [OF m(1)] m(3) by (metis mset_append union_assoc)
  qed
qed

lemma sort_pass_refines:
  assumes "list_pass cmp info n xs s = Some (ys, m, s')" "0 < n" "\<And>a. head_info (h a) = info a"
    and "is_list h p xs" "out_list h list tail out" "distinct (out @ xs)"
  shows "\<exists>list' tail' h'. sort_pass cmp (int n) p list tail k h s = Some (list', tail', k + int m, h', s') \<and>
    out_list h' list' tail' (out @ ys) \<and> same_info h h' (set out \<union> set xs)"
  using assms
proof (induction cmp info n xs s arbitrary: ys m s' h p list tail out k rule: list_pass.induct)
  case (1 cmp info n xs s)
  show ?case
  proof (cases "xs = []")
    case True
    then show ?thesis using "1.prems" by (subst sort_pass.simps) (auto simp: list_pass.simps)
  next
    case False
    then obtain us s1 zs j where m: "list_merge cmp info (take n xs) (take n (drop n xs)) s = Some (us, s1)"
      "list_pass cmp info n (drop (2 * n) xs) s1 = Some (zs, j, s')" "ys = us @ zs" "m = Suc j"
      using "1.prems"(1,2) by (auto simp: list_pass.simps [of cmp info n xs] bind_eq_Some_conv)
    obtain q where q: "sort_advance n h p = Some (int (length (take n xs)), q)" "seg h p (take n xs) q" "is_list h q (drop n xs)"
      using sort_advance_seg [OF "1.prems"(4) False "1.prems"(2)] by blast
    have split: "xs = take n xs @ take n (drop n xs) @ drop (2 * n) xs"
      by (metis append_take_drop_id drop_drop mult_2)
    have dq: "take n (drop n xs) @ drop (2 * n) xs = drop n xs" by (metis append_take_drop_id drop_drop mult_2)
    have "distinct (out @ take n xs @ drop n xs)" using "1.prems"(6) by simp
    then have mg: "merging h p q list tail (take n xs) (take n (drop n xs) @ drop (2 * n) xs) out"
      unfolding merging_def dq using q "1.prems"(5) by blast
    have rb: "run_bound (int n) (take n (drop n xs)) (drop (2 * n) xs)" by (auto simp: run_bound_def)
    obtain q' list' tail' h' where r: "sort_merge cmp p q (int (length (take n xs))) (int n) list tail h s = Some (q', list', tail', h', s1)"
      "is_list h' q' (drop (2 * n) xs)" "out_list h' list' tail' (out @ us)" "same_info h h' (set out \<union> set (take n xs @ take n (drop n xs)))"
      using sort_merge_refines [OF m(1) "1.prems"(3) mg rb] unfolding merged_def by blast
    have us: "set us = set (take n xs @ take n (drop n xs))"
      using list_merge_mset [OF m(1)] by (metis mset_append set_mset_mset)
    have dist: "distinct ((out @ us) @ drop (2 * n) xs)"
    proof -
      have "mset ((out @ us) @ drop (2 * n) xs) = mset (out @ xs)"
        using list_merge_mset [OF m(1)] arg_cong [OF split, of mset] by simp
      then show ?thesis using "1.prems"(6) mset_eq_imp_distinct_iff by blast
    qed
    obtain list'' tail'' h'' where r': "sort_pass cmp (int n) q' list' tail' (k + 1) h' s1 = Some (list'', tail'', k + 1 + int j, h'', s')"
      "out_list h'' list'' tail'' ((out @ us) @ zs)" "same_info h' h'' (set (out @ us) \<union> set (drop (2 * n) xs))"
      using "1.IH" [OF _ m(1) refl m(2) "1.prems"(2) _ r(2,3) dist, of "k + 1"] False "1.prems"(2,3) r(4)
      by (auto simp: same_info_def)
    have "same_info h h'' (set out \<union> set xs)"
      using us arg_cong [OF split, of set] by (intro same_info_trans [OF r(4) r'(3)]) auto
    moreover have "p \<noteq> None" using "1.prems"(4) False by (cases xs) auto
    ultimately show ?thesis using q(1) r(1) r' m(3,4) "1.prems"(2)
      by (subst sort_pass.simps) (simp add: Let_def)
  qed
qed

lemma list_pass_count: "list_pass cmp info n xs s = Some (ys, m, s') \<Longrightarrow> 1 < m \<Longrightarrow> 2 * n < length xs"
proof -
  assume p: "list_pass cmp info n xs s = Some (ys, m, s')" "1 < m"
  then have "xs \<noteq> []" "n \<noteq> 0" by (auto simp: list_pass.simps [of cmp info n xs] split: if_splits)
  then obtain us s1 zs j where m: "list_pass cmp info n (drop (2 * n) xs) s1 = Some (zs, j, s')" "m = Suc j"
    using p by (auto simp: list_pass.simps [of cmp info n xs] bind_eq_Some_conv)
  then have "drop (2 * n) xs \<noteq> []" using p(2) by (auto simp: list_pass.simps)
  then show ?thesis by (simp add: not_le)
qed

lemma list_pass_0: "list_pass cmp info 0 xs s = Some ([], 0, s)"
  by (simp add: list_pass.simps)

function list_sort :: "'s list_cmp \<Rightarrow> (nat \<Rightarrow> nat) \<Rightarrow> nat \<Rightarrow> nat list \<Rightarrow> 's \<Rightarrow> (nat list \<times> 's) option" where
  "list_sort cmp info n xs s = do {
     (ys, m, s) \<leftarrow> list_pass cmp info n xs s;
     (if m \<le> 1 then Some (ys, s) else list_sort cmp info (2 * n) ys s)
   }"
  by pat_completeness auto

termination
proof (relation "measure (\<lambda>(_, _, n, xs, _). length xs - n)")
  fix cmp :: "'s list_cmp" and info n xs s x y ys m s'
  assume p: "list_pass cmp info n xs s = Some x" "(ys, y) = x" "(m, s') = y" "\<not> m \<le> (1 :: nat)"
  then have e: "list_pass cmp info n xs s = Some (ys, m, s')" by simp
  have "2 * n < length xs" using list_pass_count [OF e] p(4) by simp
  moreover have "0 < n" using p(4) e list_pass_0 [of cmp info xs s] by (cases n) auto
  moreover from this have "length ys = length xs" using list_pass_mset [OF e] by (metis size_mset)
  ultimately show "((cmp, info, 2 * n, ys, s'), (cmp, info, n, xs, s)) \<in> measure (\<lambda>(_, _, n, xs, _). length xs - n)"
    by simp
qed simp

declare list_sort.simps [simp del]

lemma list_sort_mset: "list_sort cmp info n xs s = Some (ys, s') \<Longrightarrow> 0 < n \<Longrightarrow> mset ys = mset xs"
proof (induction cmp info n xs s rule: list_sort.induct)
  case (1 cmp info n xs s)
  obtain us m s1 where p: "list_pass cmp info n xs s = Some (us, m, s1)"
    using "1.prems"(1) by (auto simp: list_sort.simps [of cmp info n xs] bind_eq_Some_conv)
  then show ?case using "1.IH" [OF p refl refl] "1.prems" list_pass_mset [OF p]
    by (cases "m \<le> 1") (auto simp: list_sort.simps [of cmp info n xs])
qed

lemma out_list_close:
  assumes "out_list h list tail ys" "ys \<noteq> []" "distinct ys"
  shows "tail = Some (last ys)" "list = Some (hd ys)" "is_list (set_next (last ys) None h) list ys"
proof -
  obtain us t where ys: "ys = us @ [t]" using assms(2) by (cases ys rule: rev_cases) auto
  then have s: "seg h list us (Some t)" "tail = Some t" "t \<notin> set us" using assms by (auto simp: out_list_def)
  then show "tail = Some (last ys)" "is_list (set_next (last ys) None h) list ys" using ys by (auto simp: seg_append)
  show "list = Some (hd ys)" using s(1) ys by (cases us) auto
qed

lemma out_list_Nil: "out_list h None None []"
  by (simp add: out_list_def)

lemma sort_passes_refines:
  assumes "list_sort cmp info n xs s = Some (ys, s')" "0 < n" "xs \<noteq> []" "\<And>a. head_info (h a) = info a" "is_list h p xs"
  shows "\<exists>h'. sort_passes cmp (int n) p h s = Some (Some (hd ys), h', s') \<and> is_list h' (Some (hd ys)) ys \<and> same_info h h' (set xs)"
  using assms
proof (induction cmp info n xs s arbitrary: h p rule: list_sort.induct)
  case (1 cmp info n xs s)
  obtain us m s1 where pass: "list_pass cmp info n xs s = Some (us, m, s1)"
    using "1.prems"(1) by (auto simp: list_sort.simps [of cmp info n xs] bind_eq_Some_conv)
  have d: "distinct ([] @ xs)" using is_list_distinct [OF "1.prems"(5)] by simp
  obtain list tail h1 where r: "sort_pass cmp (int n) p None None 0 h s = Some (list, tail, int m, h1, s1)"
    "out_list h1 list tail us" "same_info h h1 (set xs)"
    using sort_pass_refines [OF pass "1.prems"(2,4,5) _ d, of None None 0, unfolded append_Nil list.set(1) Un_empty_left add_0] out_list_Nil by blast
  have ms: "mset us = mset xs" by (rule list_pass_mset [OF pass "1.prems"(2)])
  have "us \<noteq> []" using ms "1.prems"(3) by auto
  moreover have "distinct us" using mset_eq_imp_distinct_iff [OF ms] d by simp
  ultimately have us: "us \<noteq> []" "distinct us" "set us = set xs" using mset_eq_setD [OF ms] by auto
  note close = out_list_close [OF r(2) us(1,2)]
  let ?h = "set_next (last us) None h1"
  have si: "same_info h ?h (set xs)"
  proof -
    have "last us \<in> set xs" using last_in_set [OF us(1)] us(3) by simp
    then show ?thesis by (rule same_info_trans [OF r(3) same_info_set_next subset_refl subset_refl])
  qed
  have unfold: "sort_passes cmp (int n) p h s =
      (if m \<le> 1 then Some (list, ?h, s1) else sort_passes cmp (int (2 * n)) list ?h s1)"
    by (subst sort_passes.simps) (simp add: r(1) close(1) Let_def mult.commute)
  show ?case
  proof (cases "m \<le> 1")
    case True
    then have "ys = us" "s' = s1" using "1.prems"(1) pass by (auto simp: list_sort.simps [of cmp info n xs])
    then show ?thesis using unfold True close si by auto
  next
    case False
    have info: "head_info (?h a) = info a" for a using si "1.prems"(4) by (simp only: same_info_def)
    from False have "list_sort cmp info (2 * n) us s1 = Some (ys, s')" using "1.prems"(1) pass by (auto simp: list_sort.simps [of cmp info n xs])
    then obtain h' where "sort_passes cmp (int (2 * n)) list ?h s1 = Some (Some (hd ys), h', s')" "is_list h' (Some (hd ys)) ys" "same_info ?h h' (set us)"
      using "1.IH" [OF pass refl refl False _ _ us(1) info close(3)] "1.prems"(2) by auto
    then show ?thesis using unfold False same_info_trans [OF si, of h' "set us" "set xs"] us(3) by auto
  qed
qed

text \<open>C28. The in-place bottom-up merge sort on linked cells refines a merge sort on the list of their addresses, for every comparison and comparison state: it returns the same order and state, relinks exactly the cells of the list, and keeps the pointers to the data.\<close>

theorem core_list_mergesort_refines:
  assumes "is_list h p xs" "xs \<noteq> []" "list_sort cmp (\<lambda>a. head_info (h a)) 1 xs s = Some (ys, s')"
  shows "\<exists>h'. core_list_mergesort cmp p h s = Some (Some (hd ys), h', s') \<and> is_list h' (Some (hd ys)) ys \<and> mset ys = mset xs \<and>
    (\<forall>a. head_info (h' a) = head_info (h a)) \<and> (\<forall>a. a \<notin> set xs \<longrightarrow> h' a = h a)"
  using sort_passes_refines [OF assms(3) _ assms(2) refl assms(1)] list_sort_mset [OF assms(3)]
  by (simp add: core_list_mergesort_def same_info_def)

text \<open>On an empty list the first pass ends with \<^verbatim>\<open>tail->next = NULL\<close> for a null \<^verbatim>\<open>tail\<close>.\<close>

lemma core_list_mergesort_empty: "core_list_mergesort cmp None h s = None"
  unfolding core_list_mergesort_def by (subst sort_passes.simps, subst sort_pass.simps) simp

lemma list_merge_Nil: "list_merge cmp info [] zs s = Some (zs, s)" "list_merge cmp info zs [] s = Some (zs, s)"
  by (induction zs) auto

lemma list_pass_short:
  assumes "list_pass cmp info n xs s = Some (ys, m, s')" "m \<le> 1" "0 < n"
  shows "length xs \<le> 2 * n"
proof (rule ccontr)
  assume "\<not> length xs \<le> 2 * n"
  then have ne: "xs \<noteq> []" "drop (2 * n) xs \<noteq> []" by auto
  then obtain s1 zs j where "list_pass cmp info n (drop (2 * n) xs) s1 = Some (zs, j, s')" "m = Suc j"
    using assms by (auto simp: list_pass.simps [of cmp info n xs] bind_eq_Some_conv)
  then show False using ne(2) assms(2,3) by (auto simp: list_pass.simps [of cmp info n "drop (2 * n) xs"] bind_eq_Some_conv)
qed

section \<open>What the sort relies on\<close>

locale comparator =
  fixes cmp :: "'s list_cmp" and inv :: "'s \<Rightarrow> bool"
  assumes cmp_returns: "inv s \<Longrightarrow> \<exists>r s'. cmp a b s = Some (r, s') \<and> inv s'"
begin

lemma merge_returns: "inv s \<Longrightarrow> \<exists>ys s'. list_merge cmp info ps qs s = Some (ys, s') \<and> inv s'"
proof (induction "length ps + length qs" arbitrary: ps qs s rule: less_induct)
  case less
  show ?case
  proof (cases "ps = [] \<or> qs = []")
    case True
    then show ?thesis using less.prems by (auto simp: list_merge_Nil)
  next
    case False
    then obtain p ps' q qs' where pq: "ps = p # ps'" "qs = q # qs'" by (meson neq_Nil_conv)
    obtain r s1 where r: "cmp (info p) (info q) s = Some (r, s1)" "inv s1" using cmp_returns [OF less.prems] by blast
    have "\<exists>ys s'. list_merge cmp info ps' qs s1 = Some (ys, s') \<and> inv s'" "\<exists>ys s'. list_merge cmp info ps qs' s1 = Some (ys, s') \<and> inv s'"
      using pq by (auto intro!: less.hyps [OF _ r(2)])
    then show ?thesis using pq r(1) by (cases "r \<le> 0") auto
  qed
qed

lemma pass_returns: "inv s \<Longrightarrow> \<exists>ys m s'. list_pass cmp info n xs s = Some (ys, m, s') \<and> inv s'"
proof (induction "length xs" arbitrary: xs s rule: less_induct)
  case less
  show ?case
  proof (cases "xs = [] \<or> n = 0")
    case True
    then show ?thesis using less.prems by (auto simp: list_pass.simps)
  next
    case False
    obtain us s1 where m: "list_merge cmp info (take n xs) (take n (drop n xs)) s = Some (us, s1)" "inv s1"
      using merge_returns [OF less.prems] by blast
    moreover obtain zs m s' where "list_pass cmp info n (drop (2 * n) xs) s1 = Some (zs, m, s')" "inv s'"
      using less.hyps [of "drop (2 * n) xs" s1] False m(2) by auto
    ultimately show ?thesis using False by (auto simp: list_pass.simps [of cmp info n xs])
  qed
qed

lemma sort_returns: "inv s \<Longrightarrow> \<exists>ys s'. list_sort cmp info n xs s = Some (ys, s') \<and> inv s'"
proof (induction "length xs - n" arbitrary: n xs s rule: less_induct)
  case less
  obtain us m s1 where p: "list_pass cmp info n xs s = Some (us, m, s1)" "inv s1" using pass_returns [OF less.prems] by blast
  show ?case
  proof (cases "m \<le> 1")
    case True
    then show ?thesis using p by (auto simp: list_sort.simps [of cmp info n xs])
  next
    case False
    then have n: "2 * n < length xs" "0 < n" using list_pass_count [OF p(1)] p(1) list_pass_0 [of cmp info xs s] by (auto intro: gr0I)
    then have "length us = length xs" using list_pass_mset [OF p(1)] by (metis size_mset)
    then have "\<exists>ys s'. list_sort cmp info (2 * n) us s1 = Some (ys, s') \<and> inv s'" using n p(2) by (intro less.hyps) auto
    then show ?thesis using p(1) False by (auto simp: list_sort.simps [of cmp info n xs])
  qed
qed

lemma mergesort_returns:
  assumes "is_list h p xs" "xs \<noteq> []" "inv s"
  shows "\<exists>ys h' s'. core_list_mergesort cmp p h s = Some (Some (hd ys), h', s') \<and> is_list h' (Some (hd ys)) ys \<and> mset ys = mset xs \<and>
    same_info h h' (set xs) \<and> inv s' \<and> list_sort cmp (\<lambda>a. head_info (h a)) 1 xs s = Some (ys, s')"
proof -
  obtain ys s' where s: "list_sort cmp (\<lambda>a. head_info (h a)) 1 xs s = Some (ys, s')" "inv s'" using sort_returns [OF assms(3)] by blast
  then show ?thesis using sort_passes_refines [OF s(1) _ assms(2) refl assms(1)] list_sort_mset [OF s(1)]
    by (auto simp: core_list_mergesort_def)
qed

end

function sorted_runs :: "(nat \<Rightarrow> int) \<Rightarrow> nat \<Rightarrow> nat list \<Rightarrow> bool" where
  "sorted_runs key n xs \<longleftrightarrow>
     (if n = 0 \<or> xs = [] then True else sorted (map key (take n xs)) \<and> sorted_runs key n (drop n xs))"
  by pat_completeness auto

termination by (relation "measure (\<lambda>(_, _, xs). length xs)") auto

declare sorted_runs.simps [simp del]

lemma sorted_runs_1: "sorted_runs key 1 xs"
  by (induction xs) (auto simp: sorted_runs.simps [of _ _ "_ # _"] sorted_runs.simps [of _ _ "[]"])

lemma sorted_runs_double:
  "0 < n \<Longrightarrow> sorted_runs key n xs \<Longrightarrow>
     sorted (map key (take n xs)) \<and> sorted (map key (take n (drop n xs))) \<and> sorted_runs key n (drop (2 * n) xs)"
  by (cases "xs = []"; cases "drop n xs = []")
    (auto simp: sorted_runs.simps [of key n xs] sorted_runs.simps [of key n "drop n xs"] sorted_runs.simps [of key n "[]"] mult_2)

locale key_comparator = comparator cmp inv for cmp :: "'s list_cmp" and inv +
  fixes key :: "nat \<Rightarrow> int"
  assumes cmp_order: "inv s \<Longrightarrow> cmp a b s = Some (r, s') \<Longrightarrow> r \<le> 0 \<longleftrightarrow> key a \<le> key b"
begin

lemma merge_sorted:
  "list_merge cmp info ps qs s = Some (ys, s') \<Longrightarrow> inv s \<Longrightarrow> sorted (map (\<lambda>a. key (info a)) ps) \<Longrightarrow> sorted (map (\<lambda>a. key (info a)) qs) \<Longrightarrow>
     sorted (map (\<lambda>a. key (info a)) ys)"
proof (induction "length ps + length qs" arbitrary: ps qs s ys rule: less_induct)
  case less
  show ?case
  proof (cases "ps = [] \<or> qs = []")
    case True
    then have "ys = ps @ qs" using less.prems(1) by (auto simp: list_merge_Nil)
    then show ?thesis using less.prems(3,4) True by auto
  next
    case False
    then obtain p ps' q qs' where pq: "ps = p # ps'" "qs = q # qs'" by (meson neq_Nil_conv)
    obtain r s1 where r: "cmp (info p) (info q) s = Some (r, s1)" "inv s1" using cmp_returns [OF less.prems(2)] by blast
    have set: "set ys = set ps \<union> set qs" using list_merge_mset [OF less.prems(1)] by (metis set_mset_mset set_mset_union)
    show ?thesis
    proof (cases "r \<le> 0")
      case True
      then obtain zs where zs: "ys = p # zs" "list_merge cmp info ps' qs s1 = Some (zs, s')" using less.prems(1) r pq by auto
      have "set zs = set ps' \<union> set qs" using list_merge_mset [OF zs(2)] by (metis set_mset_mset set_mset_union)
      then show ?thesis using less.hyps [OF _ zs(2) r(2)] less.prems(3,4) zs(1) pq cmp_order [OF less.prems(2) r(1)] True by auto
    next
      case False
      then obtain zs where zs: "ys = q # zs" "list_merge cmp info ps qs' s1 = Some (zs, s')" using less.prems(1) r pq by auto
      have "set zs = set ps \<union> set qs'" using list_merge_mset [OF zs(2)] by (metis set_mset_mset set_mset_union)
      then show ?thesis using less.hyps [OF _ zs(2) r(2)] less.prems(3,4) zs(1) pq cmp_order [OF less.prems(2) r(1)] False by auto
    qed
  qed
qed

lemma pass_sorted_runs:
  "list_pass cmp info n xs s = Some (ys, m, s') \<Longrightarrow> inv s \<Longrightarrow> 0 < n \<Longrightarrow> sorted_runs (\<lambda>a. key (info a)) n xs \<Longrightarrow>
     sorted_runs (\<lambda>a. key (info a)) (2 * n) ys"
proof (induction "length xs" arbitrary: xs s ys m rule: less_induct)
  case less
  let ?k = "\<lambda>a. key (info a)"
  show ?case
  proof (cases "xs = []")
    case True
    then show ?thesis using less.prems by (simp add: list_pass.simps sorted_runs.simps)
  next
    case False
    then obtain us s1 zs j where m: "list_merge cmp info (take n xs) (take n (drop n xs)) s = Some (us, s1)"
      "list_pass cmp info n (drop (2 * n) xs) s1 = Some (zs, j, s')" "ys = us @ zs"
      using less.prems(1,3) by (auto simp: list_pass.simps [of cmp info n xs] bind_eq_Some_conv)
    note runs = sorted_runs_double [OF less.prems(3,4)]
    have inv: "inv s1" using merge_returns [OF less.prems(2)] m(1) by (metis Pair_inject option.inject)
    have us: "sorted (map ?k us)" using merge_sorted [OF m(1) less.prems(2)] runs by simp
    have zs: "sorted_runs ?k (2 * n) zs" using less.hyps [OF _ m(2) inv less.prems(3)] runs False less.prems(3) by simp
    have len: "length us = length (take (2 * n) xs)"
      using arg_cong [OF list_merge_mset [OF m(1)], of size] by simp
    show ?thesis
    proof (cases "2 * n \<le> length xs")
      case True
      then show ?thesis unfolding m(3) using us zs len by (subst sorted_runs.simps) simp
    next
      case False
      then have "zs = []" using m(2) by (simp add: list_pass.simps)
      then show ?thesis using us len m(3) False by (simp add: sorted_runs.simps)
    qed
  qed
qed

lemma sort_sorted:
  "list_sort cmp info n xs s = Some (ys, s') \<Longrightarrow> inv s \<Longrightarrow> 0 < n \<Longrightarrow> sorted_runs (\<lambda>a. key (info a)) n xs \<Longrightarrow>
     sorted (map (\<lambda>a. key (info a)) ys)"
proof (induction "length xs - n" arbitrary: n xs s rule: less_induct)
  case less
  let ?k = "\<lambda>a. key (info a)"
  obtain us m s1 where p: "list_pass cmp info n xs s = Some (us, m, s1)" "inv s1" using pass_returns [OF less.prems(2)] by blast
  have runs: "sorted_runs ?k (2 * n) us" by (rule pass_sorted_runs [OF p(1) less.prems(2-4)])
  have len: "length us = length xs" using list_pass_mset [OF p(1) less.prems(3)] by (metis size_mset)
  show ?case
  proof (cases "m \<le> 1")
    case True
    then have ys: "ys = us" using p(1) less.prems(1) by (auto simp: list_sort.simps [of cmp info n xs])
    have "length xs \<le> 2 * n" using list_pass_short [OF p(1) True less.prems(3)] .
    then show ?thesis using runs ys len less.prems(3) by (cases "us = []") (auto simp: sorted_runs.simps [of ?k "2 * n" us])
  next
    case False
    then have "list_sort cmp info (2 * n) us s1 = Some (ys, s')" using p(1) less.prems(1) by (auto simp: list_sort.simps [of cmp info n xs])
    moreover have "length us - 2 * n < length xs - n" using len list_pass_count [OF p(1)] False less.prems(3) by simp
    ultimately show ?thesis using less.hyps [of us "2 * n" s1] runs p(2) less.prems(3) by simp
  qed
qed

end

text \<open>A comparison may leave a mark on the two cells it compares; the sort marks them all.\<close>

function marked_runs :: "(nat \<Rightarrow> bool) \<Rightarrow> nat \<Rightarrow> nat list \<Rightarrow> bool" where
  "marked_runs m n xs \<longleftrightarrow>
     (if n = 0 \<or> xs = [] then True
      else (2 \<le> length (take n xs) \<longrightarrow> (\<forall>a \<in> set (take n xs). m a)) \<and> marked_runs m n (drop n xs))"
  by pat_completeness auto

termination by (relation "measure (\<lambda>(_, _, xs). length xs)") auto

declare marked_runs.simps [simp del]

lemma marked_runs_1: "marked_runs m 1 xs"
  by (induction xs) (auto simp: marked_runs.simps [of _ _ "_ # _"] marked_runs.simps [of _ _ "[]"])

lemma marked_runs_mono: "marked_runs m n xs \<Longrightarrow> (\<And>a. m a \<Longrightarrow> m' a) \<Longrightarrow> marked_runs m' n xs"
proof (induction m n xs rule: marked_runs.induct)
  case (1 m n xs)
  then show ?case by (cases "n = 0 \<or> xs = []") (auto simp: marked_runs.simps [of _ n xs])
qed

lemma marked_runs_double:
  "0 < n \<Longrightarrow> marked_runs m n xs \<Longrightarrow>
     (2 \<le> length (take n xs) \<longrightarrow> (\<forall>a \<in> set (take n xs). m a)) \<and>
     (2 \<le> length (take n (drop n xs)) \<longrightarrow> (\<forall>a \<in> set (take n (drop n xs)). m a)) \<and> marked_runs m n (drop (2 * n) xs)"
  by (cases "xs = []"; cases "drop n xs = []")
    (auto simp: marked_runs.simps [of m n xs] marked_runs.simps [of m n "drop n xs"] marked_runs.simps [of m n "[]"] mult_2)

locale marking_comparator = comparator cmp inv for cmp :: "'s list_cmp" and inv +
  fixes mark :: "'s \<Rightarrow> nat \<Rightarrow> bool"
  assumes cmp_marks: "inv s \<Longrightarrow> cmp a b s = Some (r, s') \<Longrightarrow> mark s' a \<and> mark s' b"
    and cmp_keeps: "inv s \<Longrightarrow> cmp a b s = Some (r, s') \<Longrightarrow> mark s d \<Longrightarrow> mark s' d"
begin

lemma merge_keeps: "list_merge cmp info ps qs s = Some (ys, s') \<Longrightarrow> inv s \<Longrightarrow> mark s d \<Longrightarrow> mark s' d"
proof (induction "length ps + length qs" arbitrary: ps qs s ys rule: less_induct)
  case less
  show ?case
  proof (cases "ps = [] \<or> qs = []")
    case True
    then show ?thesis using less.prems by (auto simp: list_merge_Nil)
  next
    case False
    then obtain p ps' q qs' where pq: "ps = p # ps'" "qs = q # qs'" by (meson neq_Nil_conv)
    obtain r s1 where r: "cmp (info p) (info q) s = Some (r, s1)" "inv s1" using cmp_returns [OF less.prems(2)] by blast
    note keep = cmp_keeps [OF less.prems(2) r(1) less.prems(3)]
    show ?thesis
    proof (cases "r \<le> 0")
      case True
      then obtain zs where zs: "list_merge cmp info ps' qs s1 = Some (zs, s')" using less.prems(1) r pq by auto
      then show ?thesis using less.hyps [OF _ zs r(2) keep] pq by simp
    next
      case False
      then obtain zs where zs: "list_merge cmp info ps qs' s1 = Some (zs, s')" using less.prems(1) r pq by auto
      then show ?thesis using less.hyps [OF _ zs r(2) keep] pq by simp
    qed
  qed
qed

lemma merge_marks_heads:
  assumes "list_merge cmp info (p # ps) (q # qs) s = Some (ys, s')" "inv s"
  shows "mark s' (info p) \<and> mark s' (info q)"
proof -
  obtain r s1 where r: "cmp (info p) (info q) s = Some (r, s1)" "inv s1" using cmp_returns [OF assms(2)] by blast
  then have "\<exists>us vs zs. list_merge cmp info us vs s1 = Some (zs, s')" using assms(1) by (auto split: if_splits)
  then show ?thesis using merge_keeps [OF _ r(2)] cmp_marks [OF assms(2) r(1)] by blast
qed

lemma pass_keeps: "list_pass cmp info n xs s = Some (ys, m, s') \<Longrightarrow> inv s \<Longrightarrow> mark s d \<Longrightarrow> mark s' d"
proof (induction "length xs" arbitrary: xs s ys m rule: less_induct)
  case less
  show ?case
  proof (cases "xs = [] \<or> n = 0")
    case True
    then show ?thesis using less.prems by (auto simp: list_pass.simps)
  next
    case False
    obtain us s1 where m: "list_merge cmp info (take n xs) (take n (drop n xs)) s = Some (us, s1)" "inv s1"
      using merge_returns [OF less.prems(2)] by blast
    then obtain zs j where "list_pass cmp info n (drop (2 * n) xs) s1 = Some (zs, j, s')"
      using False less.prems(1) by (auto simp: list_pass.simps [of cmp info n xs] bind_eq_Some_conv)
    then show ?thesis using less.hyps [of "drop (2 * n) xs" s1] m merge_keeps [OF m(1) less.prems(2,3)] False by simp
  qed
qed

lemma merge_marks_run:
  assumes m: "list_merge cmp info ps qs s = Some (us, s1)" "inv s" and qs: "qs \<noteq> [] \<longrightarrow> ps \<noteq> []"
    and marked: "2 \<le> length ps \<longrightarrow> (\<forall>a \<in> set ps. mark s (info a))" "2 \<le> length qs \<longrightarrow> (\<forall>a \<in> set qs. mark s (info a))"
  shows "2 \<le> length us \<longrightarrow> (\<forall>a \<in> set us. mark s1 (info a))"
proof (cases "qs = []")
  case True
  then show ?thesis using m marked(1) by (auto simp: list_merge_Nil)
next
  case False
  then obtain p ps' q qs' where pq: "ps = p # ps'" "qs = q # qs'" using qs by (meson neq_Nil_conv)
  have heads: "mark s1 (info p)" "mark s1 (info q)" using merge_marks_heads m pq by auto
  have "mark s1 (info a)" if "a \<in> set ps" for a
    using that pq heads(1) marked(1) merge_keeps [OF m] by (cases ps') auto
  moreover have "mark s1 (info a)" if "a \<in> set qs" for a
    using that pq heads(2) marked(2) merge_keeps [OF m] by (cases qs') auto
  moreover have "set us = set ps \<union> set qs" using list_merge_mset [OF m(1)] by (metis set_mset_mset set_mset_union)
  ultimately show ?thesis by auto
qed

lemma pass_marks_runs:
  "list_pass cmp info n xs s = Some (ys, m, s') \<Longrightarrow> inv s \<Longrightarrow> 0 < n \<Longrightarrow> marked_runs (\<lambda>a. mark s (info a)) n xs \<Longrightarrow>
     marked_runs (\<lambda>a. mark s' (info a)) (2 * n) ys"
proof (induction "length xs" arbitrary: xs s ys m rule: less_induct)
  case less
  show ?case
  proof (cases "xs = []")
    case True
    then show ?thesis using less.prems by (simp add: list_pass.simps marked_runs.simps)
  next
    case False
    then obtain us s1 zs j where m: "list_merge cmp info (take n xs) (take n (drop n xs)) s = Some (us, s1)"
      "list_pass cmp info n (drop (2 * n) xs) s1 = Some (zs, j, s')" "ys = us @ zs"
      using less.prems(1,3) by (auto simp: list_pass.simps [of cmp info n xs] bind_eq_Some_conv)
    note runs = marked_runs_double [OF less.prems(3,4)]
    have inv: "inv s1" using merge_returns [OF less.prems(2)] m(1) by (metis Pair_inject option.inject)
    have "marked_runs (\<lambda>a. mark s1 (info a)) n (drop (2 * n) xs)"
      using runs marked_runs_mono [of "\<lambda>a. mark s (info a)" n _ "\<lambda>a. mark s1 (info a)"] merge_keeps [OF m(1) less.prems(2)] by blast
    then have zs: "marked_runs (\<lambda>a. mark s' (info a)) (2 * n) zs"
      using less.hyps [OF _ m(2) inv less.prems(3)] False less.prems(3) by simp
    have "2 \<le> length us \<longrightarrow> (\<forall>a \<in> set us. mark s1 (info a))"
      using runs False less.prems(3) by (intro merge_marks_run [OF m(1) less.prems(2)]) auto
    then have us: "2 \<le> length us \<longrightarrow> (\<forall>a \<in> set us. mark s' (info a))" using pass_keeps [OF m(2) inv] by blast
    have len: "length us = length (take (2 * n) xs)"
      using arg_cong [OF list_merge_mset [OF m(1)], of size] by simp
    show ?thesis
    proof (cases "2 * n \<le> length xs")
      case True
      then show ?thesis unfolding m(3) using us zs len by (subst marked_runs.simps) simp
    next
      case False
      then have "zs = []" using m(2) by (simp add: list_pass.simps)
      then show ?thesis using us len m(3) False by (simp add: marked_runs.simps)
    qed
  qed
qed

lemma sort_marks:
  "list_sort cmp info n xs s = Some (ys, s') \<Longrightarrow> inv s \<Longrightarrow> 0 < n \<Longrightarrow> marked_runs (\<lambda>a. mark s (info a)) n xs \<Longrightarrow> 2 \<le> length xs \<Longrightarrow>
     \<forall>a \<in> set xs. mark s' (info a)"
proof (induction "length xs - n" arbitrary: n xs s rule: less_induct)
  case less
  obtain us m s1 where p: "list_pass cmp info n xs s = Some (us, m, s1)" "inv s1" using pass_returns [OF less.prems(2)] by blast
  have runs: "marked_runs (\<lambda>a. mark s1 (info a)) (2 * n) us" by (rule pass_marks_runs [OF p(1) less.prems(2-4)])
  note ms = list_pass_mset [OF p(1) less.prems(3)]
  have len: "length us = length xs" "set us = set xs" using arg_cong [OF ms, of size] mset_eq_setD [OF ms] by simp_all
  show ?case
  proof (cases "m \<le> 1")
    case True
    then have s: "s' = s1" using p(1) less.prems(1) by (auto simp: list_sort.simps [of cmp info n xs])
    have "length xs \<le> 2 * n" using list_pass_short [OF p(1) True less.prems(3)] .
    then show ?thesis using runs s len less.prems(3,5) by (cases "us = []") (auto simp: marked_runs.simps [of _ "2 * n" us])
  next
    case False
    then have "list_sort cmp info (2 * n) us s1 = Some (ys, s')" using p(1) less.prems(1) by (auto simp: list_sort.simps [of cmp info n xs])
    moreover have "length us - 2 * n < length xs - n" using len list_pass_count [OF p(1)] False less.prems(3) by simp
    ultimately show ?thesis using less.hyps [of us "2 * n" s1] runs p(2) less.prems(3,5) len by simp
  qed
qed

end

theorem core_list_mergesort_refines_witness:
  "\<exists>h'. core_list_mergesort (\<lambda>a b s. Some (int a - int b, s)) (Some 7) ((\<lambda>_. \<lparr>head_next = None, head_info = 0\<rparr>)(7 := \<lparr>head_next = Some 4, head_info = 1\<rparr>)) () =
     Some (Some (hd [4, 7]), h', ()) \<and> is_list h' (Some (hd [4, 7])) [4, 7] \<and> mset [4, 7] = mset [7, 4 :: nat] \<and>
     (\<forall>a. head_info (h' a) = head_info (((\<lambda>_. \<lparr>head_next = None, head_info = 0\<rparr>)(7 := \<lparr>head_next = Some 4, head_info = 1\<rparr>)) a)) \<and>
     (\<forall>a. a \<notin> set [7, 4] \<longrightarrow> h' a = ((\<lambda>_. \<lparr>head_next = None, head_info = 0\<rparr>)(7 := \<lparr>head_next = Some 4, head_info = 1\<rparr>)) a)"
  by (rule core_list_mergesort_refines) (simp_all add: list_sort.simps list_pass.simps)

end
