(* ===== verification/Coremark_Util.thy ===== *)
theory Coremark_Util
  imports Prelude
begin

unbundle bit_operations_syntax

text \<open>
  The checksum of CoreMark: \<^verbatim>\<open>crcu8\<close>, \<^verbatim>\<open>crcu16\<close>, \<^verbatim>\<open>crcu32\<close> and \<^verbatim>\<open>crc16\<close> of
  \<^verbatim>\<open>src/riscv-tools/fpga_test4sim/coremark4sim/core_util.c\<close>.  They are shown to be one linear feedback
  shift register run over the bits of their operand, and to tell two data streams apart that differ
  in one 16-bit value.
\<close>

section \<open>The operations\<close>

text \<open>One round of the loop of \<^verbatim>\<open>crcu8\<close>, and the loop: the state is \<^verbatim>\<open>(data, crc)\<close>.\<close>

definition crcu8_round :: "8 word \<times> 16 word \<Rightarrow> 8 word \<times> 16 word" where
  "crcu8_round s =
     (let (data, crc) = s;
          x16 = (data AND 1) XOR (ucast crc AND 1);
          data = drop_bit 1 data;
          (crc, carry) = (if x16 = 1 then (crc XOR 0x4002, True) else (crc, False));
          crc = drop_bit 1 crc;
          crc = (if carry then crc OR 0x8000 else crc AND 0x7fff)
      in (data, crc))"

definition crcu8 :: "8 word \<Rightarrow> 16 word \<Rightarrow> 16 word" where
  "crcu8 data crc = snd ((crcu8_round ^^ 8) (data, crc))"

definition crcu16 :: "16 word \<Rightarrow> 16 word \<Rightarrow> 16 word" where
  "crcu16 newval crc = (let crc = crcu8 (ucast newval) crc in crcu8 (ucast (drop_bit 8 newval)) crc)"

definition crc16 :: "16 word \<Rightarrow> 16 word \<Rightarrow> 16 word" where
  "crc16 newval crc = crcu16 newval crc"

definition crcu32 :: "32 word \<Rightarrow> 16 word \<Rightarrow> 16 word" where
  "crcu32 newval crc = (let crc = crc16 (ucast newval) crc in crc16 (ucast (drop_bit 16 newval)) crc)"

text \<open>
  The reference: a linear feedback shift register with the reversed polynomial \<^verbatim>\<open>0xA001\<close>,
  fed with the bits of the operand, least significant first.
\<close>

definition lfsr :: "bool \<Rightarrow> 16 word \<Rightarrow> 16 word" where
  "lfsr b crc = drop_bit 1 crc XOR (if b \<noteq> bit crc 0 then 0xA001 else 0)"

definition crc_bits :: "nat \<Rightarrow> 'a::len word \<Rightarrow> bool list" where
  "crc_bits n w = map (bit w) [0..<n]"

section \<open>The loops are the shift register\<close>

lemma top_bit_or:
  assumes "\<not> bit w 15"
  shows "w OR 0x8000 = w XOR (0x8000 :: u16)" "w AND 0x7FFF = w"
proof -
  have c: "(0x7FFF :: u16) = mask 15" by (simp add: mask_eq_exp_minus_1)
  have h: "bit (0x8000 :: u16) n \<longleftrightarrow> n = 15" for n using bit_exp_iff [of 15 n, where 'a = u16] by (cases "n = 15") simp_all
  show "w OR 0x8000 = w XOR 0x8000"
  proof (rule bit_word_eqI)
    show "bit (w OR 0x8000) n = bit (w XOR 0x8000) n" for n using assms by (cases "n = 15") (simp_all only: bit_or_iff bit_xor_iff h simp_thms)
  qed
  have "n < 15" if "bit w n" for n
  proof -
    have "n < 16" using that bit_imp_le_length [of w n] by simp
    moreover have "n \<noteq> 15" using that assms by auto
    ultimately show ?thesis by simp
  qed
  then show "w AND 0x7FFF = w" unfolding c take_bit_eq_mask [symmetric] by (intro bit_word_eqI) (auto simp: bit_take_bit_iff)
qed

lemma crcu8_round_lfsr: "crcu8_round (data, crc) = (drop_bit 1 data, lfsr (bit data 0) crc)"
proof -
  have b: "(data AND 1) XOR (ucast crc AND 1) = (if bit data 0 \<noteq> bit crc 0 then 1 else 0 :: 8 word)"
    by (rule bit_word_eqI) (auto simp: bit_simps)
  have "\<not> bit (drop_bit 1 w) 15" for w :: u16 using bit_imp_le_length [of w 16] by (auto simp: bit_drop_bit_eq)
  note t = top_bit_or [OF this [of crc]] top_bit_or [OF this [of "crc XOR 0x4002"]]
  have "drop_bit 1 (crc XOR 0x4002) OR 0x8000 = drop_bit 1 crc XOR 0xA001"
    unfolding t by (simp add: drop_bit_xor xor.assoc)
  then show ?thesis using t(2) by (auto simp: crcu8_round_def lfsr_def b)
qed

lemma crcu8_rounds: "(crcu8_round ^^ n) (data, crc) = (drop_bit n data, fold lfsr (crc_bits n data) crc)"
  by (induction n) (simp_all add: crc_bits_def crcu8_round_lfsr bit_drop_bit_eq drop_bit_drop_bit)

lemma crcu8_lfsr: "crcu8 data crc = fold lfsr (crc_bits 8 data) crc"
  unfolding crcu8_def crcu8_rounds snd_conv ..

lemma crc_bits_split:
  assumes "m + n \<le> LENGTH('a)" "m = LENGTH('b)" "n = LENGTH('b)"
  shows "crc_bits (m + n) w = crc_bits m (ucast w :: 'b::len word) @ crc_bits n (ucast (drop_bit m (w :: 'a::len word)) :: 'b word)"
proof -
  have "[0..<m + n] = [0..<m] @ map ((+) m) [0..<n]"
    using upt_add_eq_append [of 0 m n] map_add_upt [of m n] by (simp only: add_0 le0 add.commute [of n] add.commute [of _ m] HOL.implies_True_equals)
  moreover have "map (bit w) [0..<m] = map (bit (ucast w :: 'b word)) [0..<m]"
    using assms by (intro map_cong refl) (simp add: bit_ucast_iff)
  moreover have "map (bit w \<circ> (+) m) [0..<n] = map (bit (ucast (drop_bit m w) :: 'b word)) [0..<n]"
    using assms by (intro map_cong refl) (simp add: bit_ucast_iff bit_drop_bit_eq)
  ultimately show ?thesis by (simp only: crc_bits_def map_append map_map)
qed

lemma crcu16_lfsr: "crcu16 newval crc = fold lfsr (crc_bits 16 newval) crc"
proof -
  have eight: "8 + 8 = (16 :: nat)" by simp
  have "crc_bits 16 newval = crc_bits 8 (ucast newval :: u8) @ crc_bits 8 (ucast (drop_bit 8 newval) :: u8)"
    by (rule crc_bits_split [of 8 8 newval, where 'b = 8, unfolded eight]) simp_all
  then show ?thesis unfolding crcu16_def Let_def crcu8_lfsr by (simp only: fold_append comp_apply)
qed

lemma crc_as_lfsr:
  "crcu8 a crc = fold lfsr (crc_bits 8 a) crc \<and> crcu16 b crc = fold lfsr (crc_bits 16 b) crc \<and>
   crc16 b crc = fold lfsr (crc_bits 16 b) crc \<and> crcu32 c crc = fold lfsr (crc_bits 32 c) crc"
proof -
  have sixteen: "16 + 16 = (32 :: nat)" by simp
  have "crc_bits 32 c = crc_bits 16 (ucast c :: u16) @ crc_bits 16 (ucast (drop_bit 16 c) :: u16)"
    by (rule crc_bits_split [of 16 16 c, where 'b = 16, unfolded sixteen]) simp_all
  then show ?thesis unfolding crcu32_def crc16_def Let_def crcu16_lfsr crcu8_lfsr by (simp only: fold_append comp_apply simp_thms)
qed

section \<open>What the checksum detects\<close>

lemma lfsr_shifted: "lfsr (bit v k) (s XOR drop_bit k v) = lfsr False s XOR drop_bit (Suc k) v"
proof -
  have "(bit v k \<noteq> bit (s XOR drop_bit k v) 0) = bit s 0" by (auto simp: bit_xor_iff bit_drop_bit_eq)
  moreover have "drop_bit 1 (s XOR drop_bit k v) = drop_bit 1 s XOR drop_bit (Suc k) v" by (simp add: drop_bit_xor drop_bit_drop_bit)
  ultimately show ?thesis by (simp add: lfsr_def xor.assoc xor.commute [of "drop_bit (Suc k) v"])
qed

lemma fold_lfsr_shifted: "fold lfsr (crc_bits k v) c = (lfsr False ^^ k) (c XOR v) XOR drop_bit k v"
proof (induction k)
  case 0
  then show ?case by (simp add: crc_bits_def xor.assoc)
next
  case (Suc k)
  then show ?case by (simp add: crc_bits_def lfsr_shifted)
qed

lemma crcu16_shifted: "crcu16 v c = (lfsr False ^^ 16) (c XOR v)"
proof -
  have "drop_bit 16 v = 0" by (rule bit_word_eqI) (simp add: bit_drop_bit_eq)
  then show ?thesis unfolding crcu16_lfsr fold_lfsr_shifted by (simp only: xor.right_neutral)
qed

lemma lfsr_inj: "inj (lfsr False)"
proof (rule injI)
  fix x y assume eq: "lfsr False x = lfsr False y"
  have top: "bit (lfsr False w) 15 = bit w 0" for w
  proof -
    have "\<not> bit w 16" using bit_imp_le_length [of w 16] by auto
    then show ?thesis by (simp add: lfsr_def bit_xor_iff bit_drop_bit_eq)
  qed
  have b0: "bit x 0 = bit y 0" using top [of x] top [of y] eq by simp
  then have "drop_bit 1 x = drop_bit 1 y" using arg_cong [OF eq, of "\<lambda>w. w XOR (if bit x 0 then 0xA001 else 0)"]
    by (simp add: lfsr_def xor.assoc)
  then have "bit x (Suc n) = bit y (Suc n)" for n using bit_drop_bit_eq [of 1 x] bit_drop_bit_eq [of 1 y] by (metis comp_apply plus_1_eq_Suc)
  then show "x = y" using b0 by (intro bit_word_eqI) (metis not0_implies_Suc)
qed

lemma crcu16_inj: "crcu16 v c = crcu16 v c' \<longleftrightarrow> c = c'" "crcu16 v c = crcu16 w c \<longleftrightarrow> v = w"
proof -
  have i: "inj (lfsr False ^^ 16)" by (rule inj_fn [OF lfsr_inj])
  have x: "c XOR v = c' XOR v \<longleftrightarrow> c = c'" "c XOR v = c XOR w \<longleftrightarrow> v = w" for c c' v w :: u16
    by (metis xor.assoc xor_self_eq xor.right_neutral, metis xor.assoc xor_self_eq xor.left_neutral)
  show "crcu16 v c = crcu16 v c' \<longleftrightarrow> c = c'" "crcu16 v c = crcu16 w c \<longleftrightarrow> v = w"
    unfolding crcu16_shifted using inj_eq [OF i] x by metis+
qed

lemma fold_crc16_inj: "fold crc16 ys a = fold crc16 ys b \<longleftrightarrow> a = b"
  by (induction ys arbitrary: a b) (simp_all add: crc16_def crcu16_inj(1))

text \<open>C40. crcu8, crcu16, crc16 and crcu32 are the 16-bit linear feedback shift register with polynomial 0xA001 run over the bits of the operand, least significant first; two sequences of 16-bit values that differ in one value have different checksums, from every start value.\<close>

theorem crc_reference:
  "crcu8 a crc = fold lfsr (crc_bits 8 a) crc \<and> crcu16 b crc = fold lfsr (crc_bits 16 b) crc \<and>
   crc16 b crc = fold lfsr (crc_bits 16 b) crc \<and> crcu32 c crc = fold lfsr (crc_bits 32 c) crc \<and>
   (fold crc16 (xs @ v # ys) crc = fold crc16 (xs @ w # ys) crc \<longleftrightarrow> v = w)"
proof -
  have "fold crc16 (xs @ v # ys) crc = fold crc16 (xs @ w # ys) crc \<longleftrightarrow> v = w"
    by (simp add: fold_crc16_inj) (simp add: crc16_def crcu16_inj(2))
  then show ?thesis using crc_as_lfsr by blast
qed

end
