(* ===== verification/Coremark_State.thy ===== *)
theory Coremark_State
  imports Prelude
begin

unbundle bit_operations_syntax

text \<open>
  The state machine of \<^verbatim>\<open>src/riscv-tools/fpga_test4sim/coremark4sim/core_state.c\<close>
  (\<^verbatim>\<open>core_state_transition\<close>), and a grammar of the numbers that its final states stand for.
\<close>

section \<open>The state machine\<close>

datatype CORE_STATE = CORE_START | CORE_INVALID | CORE_S1 | CORE_S2 | CORE_INT | CORE_FLOAT | CORE_EXPONENT | CORE_SCIENTIFIC

type_synonym state_counts = "CORE_STATE \<Rightarrow> u32"

definition count_up :: "CORE_STATE \<Rightarrow> state_counts \<Rightarrow> state_counts" where
  "count_up s counts = counts(s := counts s + 1)"

definition ee_isdigit :: "u8 \<Rightarrow> bool" where
  "ee_isdigit c \<longleftrightarrow> 0x30 \<le> c \<and> c \<le> 0x39"

fun core_state_step :: "CORE_STATE \<Rightarrow> u8 \<Rightarrow> state_counts \<Rightarrow> CORE_STATE \<times> state_counts" where
  "core_state_step CORE_START NEXT_SYMBOL transition_count =
     (if ee_isdigit NEXT_SYMBOL then (CORE_INT, count_up CORE_START transition_count)
      else if NEXT_SYMBOL = 0x2B \<or> NEXT_SYMBOL = 0x2D then (CORE_S1, count_up CORE_START transition_count)
      else if NEXT_SYMBOL = 0x2E then (CORE_FLOAT, count_up CORE_START transition_count)
      else (CORE_INVALID, count_up CORE_START (count_up CORE_INVALID transition_count)))"
| "core_state_step CORE_S1 NEXT_SYMBOL transition_count =
     (if ee_isdigit NEXT_SYMBOL then (CORE_INT, count_up CORE_S1 transition_count)
      else if NEXT_SYMBOL = 0x2E then (CORE_FLOAT, count_up CORE_S1 transition_count)
      else (CORE_INVALID, count_up CORE_S1 transition_count))"
| "core_state_step CORE_INT NEXT_SYMBOL transition_count =
     (if NEXT_SYMBOL = 0x2E then (CORE_FLOAT, count_up CORE_INT transition_count)
      else if \<not> ee_isdigit NEXT_SYMBOL then (CORE_INVALID, count_up CORE_INT transition_count)
      else (CORE_INT, transition_count))"
| "core_state_step CORE_FLOAT NEXT_SYMBOL transition_count =
     (if NEXT_SYMBOL = 0x45 \<or> NEXT_SYMBOL = 0x65 then (CORE_S2, count_up CORE_FLOAT transition_count)
      else if \<not> ee_isdigit NEXT_SYMBOL then (CORE_INVALID, count_up CORE_FLOAT transition_count)
      else (CORE_FLOAT, transition_count))"
| "core_state_step CORE_S2 NEXT_SYMBOL transition_count =
     (if NEXT_SYMBOL = 0x2B \<or> NEXT_SYMBOL = 0x2D then (CORE_EXPONENT, count_up CORE_S2 transition_count)
      else (CORE_INVALID, count_up CORE_S2 transition_count))"
| "core_state_step CORE_EXPONENT NEXT_SYMBOL transition_count =
     (if ee_isdigit NEXT_SYMBOL then (CORE_SCIENTIFIC, count_up CORE_EXPONENT transition_count)
      else (CORE_INVALID, count_up CORE_EXPONENT transition_count))"
| "core_state_step CORE_SCIENTIFIC NEXT_SYMBOL transition_count =
     (if \<not> ee_isdigit NEXT_SYMBOL then (CORE_INVALID, count_up CORE_INVALID transition_count)
      else (CORE_SCIENTIFIC, transition_count))"
| "core_state_step CORE_INVALID NEXT_SYMBOL transition_count = (CORE_INVALID, transition_count)"

text \<open>
  A pointer into the memory block is the rest of the block; to read it at the end of the block is the
  undefined behaviour \<^const>\<open>None\<close>.  The loop of \<^verbatim>\<open>core_state_transition\<close>:
\<close>

fun core_state_scan :: "CORE_STATE \<Rightarrow> u8 list \<Rightarrow> state_counts \<Rightarrow> (CORE_STATE \<times> u8 list \<times> state_counts) option" where
  "core_state_scan state [] transition_count = None"
| "core_state_scan state (c # str) transition_count =
     (if c = 0 \<or> state = CORE_INVALID then Some (state, c # str, transition_count)
      else if c = 0x2C then Some (state, str, transition_count)
      else let (state, transition_count) = core_state_step state c transition_count
           in core_state_scan state str transition_count)"

definition core_state_transition :: "u8 list \<Rightarrow> state_counts \<Rightarrow> (CORE_STATE \<times> u8 list \<times> state_counts) option" where
  "core_state_transition instr transition_count = core_state_scan CORE_START instr transition_count"

section \<open>The machine recognises numbers\<close>

abbreviation is_sign :: "u8 \<Rightarrow> bool" where
  "is_sign c \<equiv> c = 0x2B \<or> c = 0x2D"

definition digits :: "u8 list \<Rightarrow> bool" where
  "digits w \<longleftrightarrow> list_all ee_isdigit w"

definition opt_sign :: "u8 list \<Rightarrow> bool" where
  "opt_sign w \<longleftrightarrow> w = [] \<or> (\<exists>c. w = [c] \<and> is_sign c)"

text \<open>The shapes of input that the final states stand for.\<close>

inductive token :: "CORE_STATE \<Rightarrow> u8 list \<Rightarrow> bool" where
  empty: "token CORE_START []"
| sign: "is_sign c \<Longrightarrow> token CORE_S1 [c]"
| integer: "opt_sign s \<Longrightarrow> digits ds \<Longrightarrow> ds \<noteq> [] \<Longrightarrow> token CORE_INT (s @ ds)"
| float: "opt_sign s \<Longrightarrow> digits ds \<Longrightarrow> digits fs \<Longrightarrow> token CORE_FLOAT (s @ ds @ 0x2E # fs)"
| exponent: "token CORE_FLOAT w \<Longrightarrow> c = 0x45 \<or> c = 0x65 \<Longrightarrow> token CORE_S2 (w @ [c])"
| exponent_sign: "token CORE_S2 w \<Longrightarrow> is_sign c \<Longrightarrow> token CORE_EXPONENT (w @ [c])"
| scientific: "token CORE_EXPONENT w \<Longrightarrow> digits ds \<Longrightarrow> ds \<noteq> [] \<Longrightarrow> token CORE_SCIENTIFIC (w @ ds)"

inductive_simps token_simps [simp]:
  "token CORE_START w" "token CORE_INVALID w" "token CORE_S1 w"

inductive_cases token_intE: "token CORE_INT w"
inductive_cases token_floatE: "token CORE_FLOAT w"
inductive_cases token_s2E: "token CORE_S2 w"
inductive_cases token_exponentE: "token CORE_EXPONENT w"
inductive_cases token_scientificE: "token CORE_SCIENTIFIC w"

definition next_state :: "CORE_STATE \<Rightarrow> u8 \<Rightarrow> CORE_STATE" where
  "next_state s c = fst (core_state_step s c (\<lambda>_. 0))"

lemma core_state_step_fst: "fst (core_state_step s c t) = next_state s c"
  by (cases s) (auto simp: next_state_def)

lemma digits_snoc [simp]: "digits (w @ [c]) \<longleftrightarrow> digits w \<and> ee_isdigit c" "digits []"
  by (auto simp: digits_def)

lemma token_step:
  assumes "token s w" "next_state s c = s'" "s' \<noteq> CORE_INVALID"
  shows "token s' (w @ [c])"
proof -
  have nd: "\<not> ee_isdigit 0x2B" "\<not> ee_isdigit 0x2D" "\<not> ee_isdigit 0x2E" by (simp_all add: ee_isdigit_def)
  have os: "opt_sign []" "is_sign x \<Longrightarrow> opt_sign [x]" for x by (auto simp: opt_sign_def)
  show ?thesis
  proof (cases s)
    case CORE_START
    then show ?thesis using assms token.integer [OF os(1), of "[c]"] token.float [OF os(1), of "[]" "[]"] token.sign [of c]
      by (auto simp: next_state_def digits_def split: if_splits)
  next
    case CORE_S1
    then show ?thesis using assms token.integer [OF os(2), of _ "[c]"] token.float [OF os(2), of _ "[]" "[]"]
      by (auto simp: next_state_def digits_def split: if_splits)
  next
    case CORE_INT
    then obtain sg ds where w: "w = sg @ ds" "opt_sign sg" "digits ds" "ds \<noteq> []" using assms(1) by (auto elim: token_intE)
    show ?thesis using CORE_INT assms(2,3) w token.integer [of sg "ds @ [c]"] token.float [of sg ds "[]"]
      by (auto simp: next_state_def split: if_splits)
  next
    case CORE_FLOAT
    then obtain sg ds fs where w: "w = sg @ ds @ 0x2E # fs" "opt_sign sg" "digits ds" "digits fs" using assms(1) by (auto elim: token_floatE)
    show ?thesis using CORE_FLOAT assms w token.float [of sg ds "fs @ [c]"] token.exponent [of w c]
      by (auto simp: next_state_def split: if_splits)
  next
    case CORE_S2
    then show ?thesis using assms token.exponent_sign [of w c] by (auto simp: next_state_def split: if_splits)
  next
    case CORE_EXPONENT
    then show ?thesis using assms token.scientific [of w "[c]"] by (auto simp: next_state_def digits_def split: if_splits)
  next
    case CORE_SCIENTIFIC
    then obtain v ds where w: "w = v @ ds" "token CORE_EXPONENT v" "digits ds" "ds \<noteq> []" using assms(1) by (auto elim: token_scientificE)
    show ?thesis using CORE_SCIENTIFIC assms(2,3) w token.scientific [of v "ds @ [c]"] by (auto simp: next_state_def split: if_splits)
  qed (use assms in auto)
qed

lemma token_run: "foldl next_state CORE_START w = s \<Longrightarrow> s \<noteq> CORE_INVALID \<Longrightarrow> token s w"
proof (induction w arbitrary: s rule: rev_induct)
  case Nil
  then show ?case by auto
next
  case (snoc c w)
  have "next_state CORE_INVALID c = CORE_INVALID" by (simp add: next_state_def)
  then have "foldl next_state CORE_START w \<noteq> CORE_INVALID" using snoc.prems by auto
  then show ?case using snoc token_step [of "foldl next_state CORE_START w" w c s] by simp
qed

lemma run_digits:
  assumes "digits ds"
  shows "foldl next_state CORE_INT ds = CORE_INT" "foldl next_state CORE_FLOAT ds = CORE_FLOAT" "foldl next_state CORE_SCIENTIFIC ds = CORE_SCIENTIFIC"
proof -
  have "next_state CORE_INT c = CORE_INT" "next_state CORE_FLOAT c = CORE_FLOAT" "next_state CORE_SCIENTIFIC c = CORE_SCIENTIFIC" if "ee_isdigit c" for c
    using that by (auto simp: next_state_def ee_isdigit_def)
  then show "foldl next_state CORE_INT ds = CORE_INT" "foldl next_state CORE_FLOAT ds = CORE_FLOAT" "foldl next_state CORE_SCIENTIFIC ds = CORE_SCIENTIFIC"
    using assms by (induction ds) (auto simp: digits_def)
qed

lemma run_sign_digits:
  assumes "opt_sign s" "digits ds"
  shows "foldl next_state CORE_START (s @ ds) = (if ds \<noteq> [] then CORE_INT else if s = [] then CORE_START else CORE_S1)"
proof (cases ds)
  case Nil
  then show ?thesis using assms by (auto simp: opt_sign_def next_state_def ee_isdigit_def)
next
  case (Cons c cs)
  then show ?thesis using assms run_digits(1) [of cs] by (auto simp: opt_sign_def next_state_def ee_isdigit_def digits_def)
qed

lemma run_token: "token s w \<Longrightarrow> foldl next_state CORE_START w = s"
proof (induction rule: token.induct)
  case (integer s ds)
  then show ?case by (simp add: run_sign_digits del: foldl_append)
next
  case (float s ds fs)
  have "next_state CORE_START 0x2E = CORE_FLOAT" "next_state CORE_S1 0x2E = CORE_FLOAT" "next_state CORE_INT 0x2E = CORE_FLOAT"
    by (simp_all add: next_state_def ee_isdigit_def)
  then have "foldl next_state CORE_START ((s @ ds) @ 0x2E # fs) = CORE_FLOAT"
    unfolding foldl_append run_sign_digits [OF float(1,2), unfolded foldl_append]
    using run_digits(2) [OF float(3)] by (simp split: if_splits)
  then show ?case by simp
next
  case (scientific w ds)
  have "next_state CORE_EXPONENT c = CORE_SCIENTIFIC" if "ee_isdigit c" for c using that by (simp add: next_state_def)
  then show ?case using scientific run_digits(3) [of "tl ds"] by (cases ds) (auto simp: digits_def)
qed (simp_all add: next_state_def ee_isdigit_def, auto)

lemma token_iff: "s \<noteq> CORE_INVALID \<Longrightarrow> token s w \<longleftrightarrow> foldl next_state CORE_START w = s"
  using token_run run_token by blast

lemma foldl_invalid: "foldl next_state CORE_INVALID w = CORE_INVALID"
  by (induction w) (simp_all add: next_state_def)

lemma core_state_scan_token:
  assumes "0 \<notin> set w" "0x2C \<notin> set w"
  shows "\<exists>str' t'. core_state_scan s (w @ 0x2C # str) t = Some (foldl next_state s w, str', t') \<and>
    (foldl next_state s w \<noteq> CORE_INVALID \<longrightarrow> str' = str)"
  using assms
proof (induction w arbitrary: s t)
  case Nil
  then show ?case by simp
next
  case (Cons c w)
  show ?case
  proof (cases "s = CORE_INVALID")
    case True
    then show ?thesis using foldl_invalid [of "c # w"] by simp
  next
    case False
    obtain s' t' where st: "core_state_step s c t = (s', t')" by force
    then have "s' = next_state s c" using core_state_step_fst [of s c t] by simp
    then show ?thesis using Cons False st by simp
  qed
qed

text \<open>C31. core_state_transition stops behind a comma-terminated input in a final state other than invalid exactly when the input belongs to the grammar of that state: sign, integer, decimal, exponent and scientific forms.\<close>

theorem core_state_transition_recognises:
  assumes "0 \<notin> set w" "0x2C \<notin> set w" "state \<noteq> CORE_INVALID"
  shows "(\<exists>counts'. core_state_transition (w @ 0x2C # rest) counts = Some (state, rest, counts')) \<longleftrightarrow> token state w"
proof -
  obtain str' t' where "core_state_transition (w @ 0x2C # rest) counts = Some (foldl next_state CORE_START w, str', t')"
    "foldl next_state CORE_START w \<noteq> CORE_INVALID \<longrightarrow> str' = rest"
    using core_state_scan_token [OF assms(1,2)] unfolding core_state_transition_def by blast
  then show ?thesis using assms(3) by (auto simp: token_iff)
qed

end
