(* ===== verification/Coremark_StateBench.thy ===== *)
theory Coremark_StateBench
  imports Coremark_Util Coremark_State "HOL-Library.Monad_Syntax"
begin

unbundle bit_operations_syntax

text \<open>
  The state-machine benchmark of \<^verbatim>\<open>core_state.c\<close>: \<^verbatim>\<open>core_bench_state\<close>, which runs the machine over a
  memory block, corrupts the block, runs it again and undoes the corruption, and \<^verbatim>\<open>core_init_state\<close>,
  which writes the block.  A block is a list of bytes; an access outside of it is the value
  \<^const>\<open>None\<close>, and so is a loop that does not end.  The theorems show that on an initialised block
  the benchmark returns without leaving the block, and when it gives the block back unchanged.
\<close>

section \<open>The benchmark\<close>

lemma core_state_scan_length:
  "core_state_scan state str counts = Some (state', str', counts') \<Longrightarrow> length str' \<le> length str"
  by (induction str arbitrary: state counts) (auto split: if_splits prod.splits simp: le_SucI)

lemma core_state_transition_length:
  assumes "core_state_transition (c # str) counts = Some (state', str', counts')" "c \<noteq> 0"
  shows "length str' < length (c # str)"
proof (cases "c = 0x2C")
  case True
  then show ?thesis using assms by (auto simp: core_state_transition_def)
next
  case False
  then show ?thesis using assms core_state_scan_length
    by (fastforce simp: core_state_transition_def less_Suc_eq_le split: prod.splits)
qed

text \<open>The loop of \<^verbatim>\<open>core_bench_state\<close> that runs the machine up to a zero byte.\<close>

function core_state_run :: "u8 list \<Rightarrow> state_counts \<Rightarrow> state_counts \<Rightarrow> (state_counts \<times> state_counts) option" where
  "core_state_run [] final_counts track_counts = None"
| "core_state_run (c # p) final_counts track_counts =
     (if c = 0 then Some (final_counts, track_counts)
      else case core_state_transition (c # p) track_counts of
             None \<Rightarrow> None
           | Some (fstate, p, track_counts) \<Rightarrow> core_state_run p (count_up fstate final_counts) track_counts)"
  by pat_completeness auto

termination
  by (relation "measure (\<lambda>(p, _, _). length p)") (auto dest: core_state_transition_length)

text \<open>The loops that corrupt the block and undo the corruption; \<^verbatim>\<open>p\<close> is the offset of the pointer.\<close>

partial_function (option) core_state_corrupt :: "int \<Rightarrow> u8 \<Rightarrow> int \<Rightarrow> int \<Rightarrow> u8 list \<Rightarrow> u8 list option" where
  "core_state_corrupt blksize seed step p mem =
     (if p < blksize
      then if 0 \<le> p \<and> nat p < length mem
           then core_state_corrupt blksize seed step (p + step)
                  (if mem ! nat p \<noteq> 0x2C then mem[nat p := mem ! nat p XOR seed] else mem)
           else None
      else Some mem)"

declare core_state_corrupt.simps [code]

definition core_states :: "CORE_STATE list" where
  "core_states = [CORE_START, CORE_INVALID, CORE_S1, CORE_S2, CORE_INT, CORE_FLOAT, CORE_EXPONENT, CORE_SCIENTIFIC]"

definition core_bench_state :: "u32 \<Rightarrow> u8 list \<Rightarrow> u16 \<Rightarrow> u16 \<Rightarrow> u16 \<Rightarrow> u16 \<Rightarrow> (u16 \<times> u8 list) option" where
  "core_bench_state blksize memblock seed1 seed2 step crc = do {
     (final_counts, track_counts) \<leftarrow> core_state_run memblock (\<lambda>_. 0) (\<lambda>_. 0);
     memblock \<leftarrow> core_state_corrupt (uint blksize) (ucast seed1) (sint step) 0 memblock;
     (final_counts, track_counts) \<leftarrow> core_state_run memblock final_counts track_counts;
     memblock \<leftarrow> core_state_corrupt (uint blksize) (ucast seed2) (sint step) 0 memblock;
     Some (fold (\<lambda>i crc. crcu32 (track_counts i) (crcu32 (final_counts i) crc)) core_states crc, memblock)
   }"

section \<open>The input\<close>

definition bytes :: "string \<Rightarrow> u8 list" where
  "bytes s = map of_char s"

definition intpat :: "u8 list list" where
  "intpat = map bytes [''5012'', ''1234'', ''-874'', ''+122'']"

definition floatpat :: "u8 list list" where
  "floatpat = map bytes [''35.54400'', ''.1234500'', ''-110.700'', ''+0.64400'']"

definition scipat :: "u8 list list" where
  "scipat = map bytes [''5.500e+3'', ''-.123e-2'', ''-87e+832'', ''+0.6e-12'']"

definition errpat :: "u8 list list" where
  "errpat = map bytes [''T0.3e-1F'', ''-T.T++Tq'', ''1T3.4e4z'', ''34.0e-T^'']"

definition core_init_pattern :: "u16 \<Rightarrow> u8 list \<times> u32" where
  "core_init_pattern seed =
     (let i = unat (drop_bit 3 seed AND 3)
      in if seed AND 7 \<in> {0, 1, 2} then (intpat ! i, 4)
         else if seed AND 7 \<in> {3, 4} then (floatpat ! i, 8)
         else if seed AND 7 \<in> {5, 6} then (scipat ! i, 8)
         else (errpat ! i, 8))"

definition store_bytes :: "nat \<Rightarrow> u8 list \<Rightarrow> u8 list \<Rightarrow> u8 list option" where
  "store_bytes i bs mem =
     (if i + length bs \<le> length mem then Some (take i mem @ bs @ drop (i + length bs) mem) else None)"

partial_function (option) core_init_loop :: "u32 \<Rightarrow> u32 \<Rightarrow> u32 \<Rightarrow> u8 list \<Rightarrow> u16 \<Rightarrow> u8 list \<Rightarrow> (u32 \<times> u8 list) option" where
  "core_init_loop sz tot next buf seed p =
     (if tot + next + 1 < sz
      then case (if 0 < next
                 then map_option (\<lambda>p. (tot + (next + 1), p)) (store_bytes (unat tot) (take (unat next) buf @ [0x2C]) p)
                 else Some (tot, p)) of
             None \<Rightarrow> None
           | Some (tot, p) \<Rightarrow>
               (let seed = seed + 1; (buf, next) = core_init_pattern seed
                in core_init_loop sz tot next buf seed p)
      else Some (tot, p))"

declare core_init_loop.simps [code]

definition core_init_state :: "u32 \<Rightarrow> u16 \<Rightarrow> u8 list \<Rightarrow> u8 list option" where
  "core_init_state sz seed p = do {
     (tot, p) \<leftarrow> core_init_loop (sz - 1) 0 0 [] seed p;
     store_bytes (unat tot) (replicate (unat sz - unat tot) 0) p
   }"

section \<open>The loops of the benchmark return\<close>

lemma core_state_scan_returns:
  assumes "0 \<in> set str"
  shows "\<exists>s' str' t'. core_state_scan s str t = Some (s', str', t') \<and> 0 \<in> set str'"
  using assms
proof (induction str arbitrary: s t)
  case (Cons c str)
  obtain s' t' where st: "core_state_step s c t = (s', t')" by force
  show ?case
  proof (cases "c = 0 \<or> s = CORE_INVALID \<or> c = 0x2C")
    case True
    then show ?thesis using Cons.prems by auto
  next
    case False
    then show ?thesis using Cons st by simp
  qed
qed simp

lemma core_state_run_some:
  assumes "0 \<in> set p"
  shows "core_state_run p final_counts track_counts \<noteq> None"
  using assms
proof (induction p final_counts track_counts rule: core_state_run.induct)
  case (2 c p final_counts track_counts)
  obtain s' str' t' where "core_state_transition (c # p) track_counts = Some (s', str', t')" "0 \<in> set str'"
    using core_state_scan_returns [OF "2.prems"] unfolding core_state_transition_def by blast
  then show ?case using "2.IH" by (cases "c = 0") simp_all
qed simp

lemma core_state_run_returns:
  assumes "0 \<in> set p"
  obtains f t where "core_state_run p final_counts track_counts = Some (f, t)"
  using core_state_run_some [OF assms] by fast

section \<open>The corruption of the block\<close>

definition corrupt_byte :: "u8 \<Rightarrow> u8 \<Rightarrow> u8" where
  "corrupt_byte seed b = (if b = 0x2C then b else b XOR seed)"

definition corrupted :: "u8 \<Rightarrow> nat \<Rightarrow> nat \<Rightarrow> u8 list \<Rightarrow> u8 list" where
  "corrupted seed step p mem =
     map (\<lambda>i. if p \<le> i \<and> step dvd (i - p) then corrupt_byte seed (mem ! i) else mem ! i) [0..<length mem]"

lemma length_corrupted [simp]: "length (corrupted seed step p mem) = length mem"
  by (simp add: corrupted_def)

lemma nth_corrupted:
  "i < length mem \<Longrightarrow> corrupted seed step p mem ! i =
     (if p \<le> i \<and> step dvd (i - p) then corrupt_byte seed (mem ! i) else mem ! i)"
  by (simp add: corrupted_def)

lemma corrupted_past_end: "length mem \<le> p \<Longrightarrow> corrupted seed step p mem = mem"
  by (rule nth_equalityI) (simp_all add: nth_corrupted)

lemma corrupted_step:
  assumes "p < length mem" "0 < step"
  shows "corrupted seed step p mem = corrupted seed step (p + step) (mem[p := corrupt_byte seed (mem ! p)])"
proof (rule nth_equalityI)
  fix i
  assume i: "i < length (corrupted seed step p mem)"
  have "step dvd (i - p) \<longleftrightarrow> i = p \<or> p + step \<le> i \<and> step dvd (i - (p + step))" if "p \<le> i"
  proof -
    have "step dvd (i - p) \<longleftrightarrow> i = p \<or> step \<le> i - p \<and> step dvd (i - p - step)"
      using assms(2) that by (metis dvd_0_right dvd_diffD dvd_diff_nat dvd_imp_le dvd_refl diff_is_0_eq le_antisym neq0_conv)
    then show ?thesis using that by auto
  qed
  then show "corrupted seed step p mem ! i = corrupted seed step (p + step) (mem[p := corrupt_byte seed (mem ! p)]) ! i"
    using i assms by (auto simp: nth_corrupted nth_list_update)
qed simp

lemma core_state_corrupt_corrupted:
  assumes "0 < step"
  shows "core_state_corrupt (int (length mem)) seed (int step) (int p) mem = Some (corrupted seed step p mem)"
proof (induction "length mem - p" arbitrary: p mem rule: less_induct)
  case less
  show ?case
  proof (cases "p < length mem")
    case True
    let ?mem = "mem[p := corrupt_byte seed (mem ! p)]"
    have "(if mem ! p \<noteq> 0x2C then mem[p := mem ! p XOR seed] else mem) = ?mem"
      using list_update_id [of mem p] by (auto simp: corrupt_byte_def simp del: list_update_id)
    moreover have "core_state_corrupt (int (length ?mem)) seed (int step) (int (p + step)) ?mem = Some (corrupted seed step (p + step) ?mem)"
      using True assms by (intro less) simp
    ultimately show ?thesis
      using True corrupted_step [OF True assms, of seed]
      by (subst core_state_corrupt.simps) (simp only: nat_int of_nat_less_iff of_nat_0_le_iff if_True simp_thms of_nat_add length_list_update)
  next
    case False
    then show ?thesis by (subst core_state_corrupt.simps) (simp add: corrupted_past_end)
  qed
qed

lemma corrupted_corrupted:
  assumes "\<And>i. i < length mem \<Longrightarrow> step dvd i \<Longrightarrow> mem ! i = 0x2C \<or> mem ! i XOR seed \<noteq> 0x2C"
  shows "corrupted seed step 0 (corrupted seed step 0 mem) = mem"
proof (rule nth_equalityI)
  fix i
  assume "i < length (corrupted seed step 0 (corrupted seed step 0 mem))"
  then show "corrupted seed step 0 (corrupted seed step 0 mem) ! i = mem ! i"
    using assms [of i] by (auto simp: nth_corrupted corrupt_byte_def xor.assoc)
qed simp

lemma zero_corrupted:
  assumes "mem ! k = 0" "mem ! Suc k = 0" "Suc k < length mem" "1 < step"
  shows "0 \<in> set (corrupted seed step 0 mem)"
proof -
  have "\<not> step dvd k \<or> \<not> step dvd Suc k"
    using assms(4) by (metis dvd_diff_nat diff_Suc_1' dvd_1_iff_1 nat_neq_iff Suc_eq_plus1 add_diff_cancel_left' nat_dvd_1_iff_1)
  then have "corrupted seed step 0 mem ! k = 0 \<or> corrupted seed step 0 mem ! Suc k = 0"
    using assms by (auto simp: nth_corrupted)
  then show ?thesis using assms(3) by (auto simp: in_set_conv_nth intro: exI [of _ k] exI [of _ "Suc k"])
qed

theorem core_bench_state_returns:
  assumes "length mem = unat blksize" "mem ! k = 0" "mem ! Suc k = 0" "Suc k < length mem" "1 < sint step"
  shows "\<exists>crc'. core_bench_state blksize mem seed1 seed2 step crc =
    Some (crc', corrupted (ucast seed2) (nat (sint step)) 0 (corrupted (ucast seed1) (nat (sint step)) 0 mem))"
proof -
  define s where "s = nat (sint step)"
  have st: "sint step = int s" "0 < s" "1 < s" using assms(5) by (auto simp: s_def)
  have bs: "uint blksize = int (length mem)" using assms(1) by simp
  let ?m = "corrupted (ucast seed1) s 0 mem"
  have "0 \<in> set mem" using nth_mem [OF assms(4)] assms(3) by simp
  then obtain f t where r1: "core_state_run mem (\<lambda>_. 0) (\<lambda>_. 0) = Some (f, t)"
    by (rule core_state_run_returns)
  have "0 \<in> set ?m" by (rule zero_corrupted [OF assms(2-4) st(3)])
  then obtain f' t' where r2: "core_state_run ?m f t = Some (f', t')"
    by (rule core_state_run_returns)
  show ?thesis unfolding core_bench_state_def r1 bs st(1)
    using core_state_corrupt_corrupted [OF st(2), of mem "ucast seed1" 0]
      core_state_corrupt_corrupted [OF st(2), of ?m "ucast seed2" 0] r2 by simp
qed

section \<open>The input of the benchmark\<close>

abbreviation init_word :: "u16 \<Rightarrow> u8 list" where
  "init_word seed \<equiv> fst (core_init_pattern seed)"

function init_words :: "nat \<Rightarrow> u16 \<Rightarrow> u8 list list" where
  "init_words room seed =
     (if length (init_word seed) + 2 < room
      then init_word seed # init_words (room - Suc (length (init_word seed))) (seed + 1)
      else [])"
  by pat_completeness auto

termination
  by (relation "measure fst") auto

declare init_words.simps [simp del]

definition comma_separated :: "u8 list list \<Rightarrow> u8 list" where
  "comma_separated ws = concat (map (\<lambda>w. w @ [0x2C]) ws)"

lemma comma_separated_simps [simp]:
  "comma_separated [] = []"
  "comma_separated (w # ws) = w @ 0x2C # comma_separated ws"
  by (simp_all add: comma_separated_def)

lemma unat_word_of_nat: "k < 2 ^ 32 \<Longrightarrow> unat (of_nat k :: u32) = k"
  by (simp add: unat_of_nat)

lemma length_patterns [simp]: "length intpat = 4" "length floatpat = 4" "length scipat = 4" "length errpat = 4"
  by (simp_all add: intpat_def floatpat_def scipat_def errpat_def)

lemma pattern_lengths:
  "\<forall>w \<in> set intpat. length w = 4" "\<forall>w \<in> set (floatpat @ scipat @ errpat). length w = 8"
  by (simp_all add: intpat_def floatpat_def scipat_def errpat_def bytes_def)

lemma pattern_index: "unat (drop_bit 3 seed AND 3 :: u16) < 4"
proof -
  have "drop_bit 3 seed AND 3 = take_bit 2 (drop_bit 3 seed)"
    by (simp add: take_bit_eq_mask mask_eq_exp_minus_1)
  then have "unat (drop_bit 3 seed AND 3) = take_bit 2 (unat (drop_bit 3 seed))"
    by (simp only: unsigned_take_bit_eq)
  then show ?thesis by (simp add: take_bit_eq_mod)
qed

lemma init_word_cases:
  "core_init_pattern seed \<in> set intpat \<times> {4} \<union> set (floatpat @ scipat @ errpat) \<times> {8}"
  using pattern_index [of seed] by (simp add: core_init_pattern_def Let_def)

lemma init_word_patterns: "init_word seed \<in> set (intpat @ floatpat @ scipat @ errpat)"
  "snd (core_init_pattern seed) = of_nat (length (init_word seed))"
  using init_word_cases [of seed] pattern_lengths by (auto simp: mem_Times_iff)

lemma init_word_length: "4 \<le> length (init_word seed)" "length (init_word seed) \<le> 8"
  using init_word_patterns(1) [of seed] pattern_lengths by auto

lemma init_words_length:
  assumes "2 \<le> room"
  shows "length (comma_separated (init_words room seed)) + 2 \<le> room \<and>
    room \<le> length (comma_separated (init_words room seed)) + 10"
  using assms
proof (induction room seed rule: init_words.induct)
  case (1 room seed)
  show ?case
  proof (cases "length (init_word seed) + 2 < room")
    case True
    then have "2 \<le> room - Suc (length (init_word seed))" by simp
    then show ?thesis using "1.IH" [OF True] True by (auto simp: init_words.simps [of room seed])
  next
    case False
    then show ?thesis using "1.prems" init_word_length(2) [of seed] by (simp add: init_words.simps [of room seed])
  qed
qed

lemma init_words_fit:
  "room < length (comma_separated (init_words room seed)) + length (init_word (seed + of_nat (length (init_words room seed)))) + 3"
proof (induction room seed rule: init_words.induct)
  case (1 room seed)
  show ?case
  proof (cases "length (init_word seed) + 2 < room")
    case True
    then have w: "init_words room seed = init_word seed # init_words (room - Suc (length (init_word seed))) (seed + 1)"
      by (simp add: init_words.simps [of room seed])
    show ?thesis using "1.IH" [OF True] unfolding w by (simp add: add.assoc)
  qed (simp add: init_words.simps [of room seed])
qed

lemma core_init_loop_words:
  assumes "length p = n" "n < 2 ^ 31" "t + 2 \<le> n"
  shows "core_init_loop (of_nat (n - 1)) (of_nat t) (snd (core_init_pattern seed)) (init_word seed) seed p =
    (let text = comma_separated (init_words (n - t) seed)
     in Some (of_nat (t + length text), take t p @ text @ drop (t + length text) p))"
  using assms
proof (induction "n - t" arbitrary: t p seed rule: less_induct)
  case less
  let ?w = "init_word seed"
  have lw: "snd (core_init_pattern seed) = of_nat (length ?w)" "0 < length ?w" "length ?w \<le> 8"
    using init_word_patterns(2) init_word_length [of seed] by auto
  have guard: "(of_nat t + of_nat (length ?w) + 1 < (of_nat (n - 1) :: u32)) \<longleftrightarrow> length ?w + 2 < n - t"
  proof -
    have "unat (of_nat t + of_nat (length ?w) + 1 :: u32) = t + length ?w + 1"
      using unat_word_of_nat [of "t + length ?w + 1"] less.prems lw(3) by (simp add: add.commute add.left_commute)
    moreover have "unat (of_nat (n - 1) :: u32) = n - 1"
      using less.prems by (intro unat_word_of_nat) simp
    ultimately show ?thesis using less.prems by (auto simp only: word_less_nat_alt)
  qed
  show ?case
  proof (cases "length ?w + 2 < n - t")
    case True
    let ?p = "take t p @ (?w @ [0x2C]) @ drop (t + Suc (length ?w)) p"
    have st: "store_bytes (unat (of_nat t :: u32)) (take (unat (of_nat (length ?w) :: u32)) ?w @ [0x2C]) p = Some ?p"
      using less.prems lw True by (simp add: store_bytes_def unat_of_nat)
    have pos: "0 < (of_nat (length ?w) :: u32)" using lw by (simp add: word_less_nat_alt unat_of_nat)
    have IH: "core_init_loop (of_nat (n - 1)) (of_nat (t + Suc (length ?w))) (snd (core_init_pattern (seed + 1))) (init_word (seed + 1)) (seed + 1) ?p =
        (let text = comma_separated (init_words (n - (t + Suc (length ?w))) (seed + 1))
         in Some (of_nat (t + Suc (length ?w) + length text), take (t + Suc (length ?w)) ?p @ text @ drop (t + Suc (length ?w) + length text) ?p))"
      using less.prems True by (intro less.hyps) auto
    have "core_init_loop (of_nat (n - 1)) (of_nat t) (snd (core_init_pattern seed)) ?w seed p =
        core_init_loop (of_nat (n - 1)) (of_nat (t + Suc (length ?w))) (snd (core_init_pattern (seed + 1))) (init_word (seed + 1)) (seed + 1) ?p"
      unfolding lw(1) using guard True st pos by (subst core_init_loop.simps) (simp add: case_prod_beta Let_def add.assoc add.commute add.left_commute)
    then show ?thesis
      unfolding IH using True less.prems by (subst init_words.simps) (simp add: Let_def add.commute add.left_commute)
  next
    case False
    then show ?thesis
      using guard lw by (subst core_init_loop.simps, subst init_words.simps) simp
  qed
qed

lemma core_init_state_words:
  fixes seed :: u16
  assumes "length p = unat n" "2 \<le> unat n" "unat n < 2 ^ 31"
  defines "text \<equiv> comma_separated (init_words (unat n) (seed + 1))"
  shows "core_init_state n seed p = Some (text @ replicate (unat n - length text) 0)"
proof (cases "unat n = 2")
  case True
  have "n = 2" using True by (simp add: word_unat_eq_iff)
  moreover have "text = []"
    using True init_word_length [of "seed + 1"] by (simp add: text_def init_words.simps [of 2])
  ultimately show ?thesis using assms(1)
    by (simp add: core_init_state_def core_init_loop.simps store_bytes_def)
next
  case False
  have n1: "n - 1 = of_nat (unat n - 1)" using assms(2) by (simp add: of_nat_diff)
  have len: "length text + 2 \<le> unat n" using init_words_length [OF assms(2)] by (simp add: text_def)
  have "1 < n - 1" using False assms(2,3) by (simp add: word_less_nat_alt n1 unat_of_nat del: of_nat_diff)
  then have "core_init_loop (n - 1) 0 0 [] seed p =
      core_init_loop (n - 1) 0 (snd (core_init_pattern (seed + 1))) (init_word (seed + 1)) (seed + 1) p"
    by (subst core_init_loop.simps) (simp add: case_prod_beta Let_def)
  also have "\<dots> = Some (of_nat (length text), text @ drop (length text) p)"
    using core_init_loop_words [of p "unat n" 0 "seed + 1"] assms(1-3) by (simp add: n1 text_def Let_def del: of_nat_diff)
  finally show ?thesis
    using len assms(1,3) unat_word_of_nat [of "length text"] by (simp add: core_init_state_def store_bytes_def)
qed

lemma init_words_nth: "i < length (init_words room seed) \<Longrightarrow> init_words room seed ! i = init_word (seed + of_nat i)"
proof (induction room seed arbitrary: i rule: init_words.induct)
  case (1 room seed)
  show ?case
  proof (cases "length (init_word seed) + 2 < room")
    case True
    then have w: "init_words room seed = init_word seed # init_words (room - Suc (length (init_word seed))) (seed + 1)"
      by (simp add: init_words.simps [of room seed])
    show ?thesis using "1.IH" [OF True, of "i - 1"] "1.prems" unfolding w by (cases i) (auto simp: add.assoc)
  next
    case False
    then show ?thesis using "1.prems" by (simp add: init_words.simps [of room seed])
  qed
qed

definition pattern_bytes :: "u8 list" where
  "pattern_bytes = concat (intpat @ floatpat @ scipat @ errpat)"

lemma set_comma_separated: "set (comma_separated ws) \<subseteq> insert 0x2C (set (concat ws))"
  by (auto simp: comma_separated_def)

lemma init_words_bytes: "set (concat (init_words room seed)) \<subseteq> set pattern_bytes"
proof -
  have "set (init_words room seed) \<subseteq> set (intpat @ floatpat @ scipat @ errpat)"
    using init_words_nth [of _ room seed] init_word_patterns(1) by (fastforce simp: in_set_conv_nth [of _ "init_words room seed"])
  then show ?thesis by (auto simp: pattern_bytes_def)
qed

text \<open>C33. core_init_state fills a block of 2 to 2^31 - 1 bytes with the patterns of the successive seeds, each followed by a comma, as many as leave two bytes at the end, and with zero bytes, between two and ten of them, and writes nothing outside of the block.\<close>

theorem core_init_state_correct:
  assumes "length p = unat n" "2 \<le> unat n" "unat n < 2 ^ 31"
  shows "\<exists>ws k. core_init_state n seed p = Some (comma_separated ws @ replicate k 0) \<and>
    length (comma_separated ws) + k = unat n \<and> 2 \<le> k \<and> k \<le> 10 \<and>
    k < length (init_word (seed + of_nat (Suc (length ws)))) + 3 \<and>
    (\<forall>i < length ws. ws ! i = init_word (seed + of_nat (Suc i)))"
proof -
  let ?ws = "init_words (unat n) (seed + 1)"
  have "?ws ! i = init_word (seed + of_nat (Suc i))" if "i < length ?ws" for i
    using init_words_nth [OF that] by (simp add: add.assoc)
  moreover have "unat n < length (comma_separated ?ws) + length (init_word (seed + of_nat (Suc (length ?ws)))) + 3"
    using init_words_fit [of "unat n" "seed + 1"] by (simp add: add.assoc)
  ultimately show ?thesis using core_init_state_words [OF assms] init_words_length [OF assms(2), of "seed + 1"]
    by (intro exI [of _ ?ws] exI [of _ "unat n - length (comma_separated ?ws)"]) auto
qed

lemma core_bench_state_initialised:
  assumes "length p = unat n" "2 \<le> unat n" "unat n < 2 ^ 31" "1 < sint step"
  obtains mem crc' where "core_init_state n seed p = Some mem" "length mem = unat n"
    "set mem \<subseteq> insert 0 (insert 0x2C (set pattern_bytes))"
    "mem = comma_separated (init_words (unat n) (seed + 1)) @ replicate (unat n - length (comma_separated (init_words (unat n) (seed + 1)))) 0"
    "core_bench_state n mem seed1 seed2 step crc =
       Some (crc', corrupted (ucast seed2) (nat (sint step)) 0 (corrupted (ucast seed1) (nat (sint step)) 0 mem))"
proof -
  let ?t = "comma_separated (init_words (unat n) (seed + 1))"
  let ?mem = "?t @ replicate (unat n - length ?t) 0"
  have len: "length ?t + 2 \<le> unat n" using init_words_length [OF assms(2)] by simp
  have "set ?mem \<subseteq> insert 0 (insert 0x2C (set pattern_bytes))"
    using set_comma_separated init_words_bytes by fastforce
  moreover have "?mem ! length ?t = 0" "?mem ! Suc (length ?t) = 0" using len by (simp_all add: nth_append)
  then obtain crc' where "core_bench_state n ?mem seed1 seed2 step crc =
       Some (crc', corrupted (ucast seed2) (nat (sint step)) 0 (corrupted (ucast seed1) (nat (sint step)) 0 ?mem))"
    using core_bench_state_returns [of ?mem n "length ?t" step seed1 seed2 crc] len assms(4) by auto
  ultimately show thesis using that core_init_state_words [OF assms(1-3), of seed] len by simp
qed

text \<open>C34. On a block of 2 to 2^31 - 1 bytes from core_init_state the state benchmark returns without reading behind the block for every step above one and all seeds; if the low bytes of the two seeds are equal and this byte turns neither a byte of the patterns nor a zero byte into a comma, it gives the block back unchanged.\<close>

theorem core_bench_state_restores:
  assumes "length p = unat n" "2 \<le> unat n" "unat n < 2 ^ 31" "1 < sint step"
  shows "\<exists>mem crc' mem'. core_init_state n seed p = Some mem \<and> core_bench_state n mem seed1 seed2 step crc = Some (crc', mem') \<and>
    (ucast seed1 = (ucast seed2 :: u8) \<and> ucast seed1 XOR 0x2C \<notin> insert 0 (set pattern_bytes) \<longrightarrow> mem' = mem)"
proof -
  obtain mem crc' where mem: "core_init_state n seed p = Some mem" "set mem \<subseteq> insert 0 (insert 0x2C (set pattern_bytes))"
    and bench: "core_bench_state n mem seed1 seed2 step crc =
       Some (crc', corrupted (ucast seed2) (nat (sint step)) 0 (corrupted (ucast seed1) (nat (sint step)) 0 mem))"
    by (rule core_bench_state_initialised [OF assms])
  have "corrupted (ucast seed2) (nat (sint step)) 0 (corrupted (ucast seed1) (nat (sint step)) 0 mem) = mem"
    if eq: "ucast seed1 = (ucast seed2 :: u8)" and ne: "ucast seed1 XOR 0x2C \<notin> insert 0 (set pattern_bytes)"
    unfolding eq [symmetric]
  proof (rule corrupted_corrupted)
    fix i
    assume "i < length mem"
    then have "mem ! i \<in> insert 0 (insert 0x2C (set pattern_bytes))" using mem(2) nth_mem by blast
    moreover have "mem ! i = ucast seed1 XOR 0x2C" if "mem ! i XOR ucast seed1 = 0x2C"
      using that by (metis xor.assoc xor.commute xor_self_eq xor.right_neutral)
    ultimately show "mem ! i = 0x2C \<or> mem ! i XOR ucast seed1 \<noteq> 0x2C" using ne by auto
  qed
  then show ?thesis using mem(1) bench by blast
qed

theorem core_bench_state_restores_witness:
  "\<exists>mem crc'. core_init_state 40 0 (replicate 40 7) = Some mem \<and> core_bench_state 40 mem 0x3415 0x3415 0x22 0 = Some (crc', mem)"
  using core_bench_state_restores [of "replicate 40 7" 40 "0x22" 0 "0x3415" "0x3415" 0]
  by (simp add: pattern_bytes_def intpat_def floatpat_def scipat_def errpat_def bytes_def)

theorem core_init_state_correct_witness:
  "\<exists>ws k. core_init_state 40 0 (replicate 40 7) = Some (comma_separated ws @ replicate k 0) \<and>
    length (comma_separated ws) + k = unat (40 :: u32) \<and> 2 \<le> k \<and> k \<le> 10 \<and>
    k < length (init_word (0 + of_nat (Suc (length ws)))) + 3 \<and>
    (\<forall>i < length ws. ws ! i = init_word (0 + of_nat (Suc i)))"
  by (rule core_init_state_correct) simp_all

lemma core_init_state_first:
  assumes "length p = unat n" "10 < unat n" "unat n < 2 ^ 31" "core_init_state n seed p = Some mem"
  shows "mem ! 0 = init_word (seed + 1) ! 0"
proof -
  have "init_words (unat n) (seed + 1) = init_word (seed + 1) # init_words (unat n - Suc (length (init_word (seed + 1)))) (seed + 1 + 1)"
    using assms(2) init_word_length(2) [of "seed + 1"] by (subst init_words.simps) simp
  then show ?thesis using core_init_state_words [OF assms(1) _ assms(3), of seed] assms(2,4) init_word_length(1) [of "seed + 1"]
    by (auto simp: nth_append)
qed

text \<open>C35. With equal low bytes of the seeds, the bytes of an initialised block that differ after the state benchmark are exactly those that the first loop visits and turns into a comma, which the second loop skips; they stay commas, and every other byte is restored.\<close>

theorem core_bench_state_not_undone:
  assumes "length p = unat n" "2 \<le> unat n" "unat n < 2 ^ 31" "1 < sint step" "ucast seed1 = (ucast seed2 :: u8)"
  shows "\<exists>mem crc' mem'. core_init_state n seed p = Some mem \<and> core_bench_state n mem seed1 seed2 step crc = Some (crc', mem') \<and>
    length mem' = length mem \<and>
    (\<forall>i < length mem. mem' ! i = (if nat (sint step) dvd i \<and> mem ! i XOR ucast seed1 = 0x2C then 0x2C else mem ! i))"
proof -
  obtain mem crc' where mem: "core_init_state n seed p = Some mem"
    and bench: "core_bench_state n mem seed1 seed2 step crc =
       Some (crc', corrupted (ucast seed2) (nat (sint step)) 0 (corrupted (ucast seed1) (nat (sint step)) 0 mem))"
    by (rule core_bench_state_initialised [OF assms(1-4)])
  let ?mem = "corrupted (ucast seed1) (nat (sint step)) 0 (corrupted (ucast seed1) (nat (sint step)) 0 mem)"
  have "?mem ! i = (if nat (sint step) dvd i \<and> mem ! i XOR ucast seed1 = 0x2C then 0x2C else mem ! i)" if "i < length mem" for i
    using that by (auto simp: nth_corrupted corrupt_byte_def xor.assoc)
  then show ?thesis using mem bench unfolding assms(5) [symmetric] by auto
qed

theorem core_bench_state_not_undone_witness:
  "\<exists>mem crc' mem'. core_init_state 40 0 (replicate 40 0) = Some mem \<and>
     core_bench_state 40 mem 0x19 0x19 0x22 0 = Some (crc', mem') \<and> mem ! 0 = 0x35 \<and> mem' ! 0 = 0x2C"
proof -
  obtain mem crc' mem' where mem: "core_init_state 40 0 (replicate 40 0) = Some mem" "core_bench_state 40 mem 0x19 0x19 0x22 0 = Some (crc', mem')"
    and run: "length mem' = length mem"
      "\<forall>i < length mem. mem' ! i = (if nat (sint (0x22 :: u16)) dvd i \<and> mem ! i XOR ucast (0x19 :: u16) = 0x2C then 0x2C else mem ! i)"
    using core_bench_state_not_undone [of "replicate 40 0" 40 "0x22" "0x19" "0x19" 0 0] by auto
  have "mem ! 0 = 0x35"
    using core_init_state_first [OF _ _ _ mem(1)] by (simp add: core_init_pattern_def intpat_def bytes_def)
  moreover have "0 < length mem" using core_init_state_words [of "replicate 40 0" 40 0] mem(1) by auto
  ultimately show ?thesis using mem run(2) by auto
qed

theorem core_state_transition_recognises_witness:
  "0 \<notin> set (bytes ''-87e+832'') \<and> 0x2C \<notin> set (bytes ''-8.7e+832'') \<and>
   ((\<exists>counts'. core_state_transition (bytes ''-8.7e+832'' @ 0x2C # [0]) (\<lambda>_. 0) = Some (CORE_SCIENTIFIC, [0], counts')) \<longleftrightarrow>
     token CORE_SCIENTIFIC (bytes ''-8.7e+832''))"
  using core_state_transition_recognises [of "bytes ''-8.7e+832''" CORE_SCIENTIFIC "[0]" "\<lambda>_. 0"]
  by (simp add: bytes_def)

section \<open>The machine on the patterns\<close>

definition pattern_state :: "u16 \<Rightarrow> CORE_STATE" where
  "pattern_state seed =
     (if seed AND 7 \<in> {0, 1, 2} then CORE_INT
      else if seed AND 7 \<in> {3, 4} then CORE_FLOAT
      else if seed AND 7 \<in> {5, 6} \<and> drop_bit 3 seed AND 3 \<noteq> 2 then CORE_SCIENTIFIC
      else CORE_INVALID)"

lemma pattern_states:
  "\<forall>w \<in> set intpat. foldl next_state CORE_START w = CORE_INT"
  "\<forall>w \<in> set floatpat. foldl next_state CORE_START w = CORE_FLOAT"
  "\<forall>w \<in> set errpat. foldl next_state CORE_START w = CORE_INVALID"
  "\<forall>i \<in> {0, 1, 2, 3}. foldl next_state CORE_START (scipat ! i) = (if i = 2 then CORE_INVALID else CORE_SCIENTIFIC)"
  by (simp_all add: intpat_def floatpat_def scipat_def errpat_def bytes_def next_state_def ee_isdigit_def)

lemma init_word_state: "foldl next_state CORE_START (init_word seed) = pattern_state seed"
proof -
  define i where "i = unat (drop_bit 3 seed AND 3)"
  have i: "i < 4" unfolding i_def by (rule pattern_index)
  have sci: "foldl next_state CORE_START (scipat ! i) = (if i = 2 then CORE_INVALID else CORE_SCIENTIFIC)"
    using pattern_states(4) i by (auto simp: less_Suc_eq numeral_eq_Suc)
  have two: "drop_bit 3 seed AND 3 = 2 \<longleftrightarrow> i = 2" by (simp add: i_def word_unat_eq_iff)
  have "foldl next_state CORE_START (xs ! i) = s" if "\<forall>w \<in> set xs. foldl next_state CORE_START w = s" "length xs = 4" for xs s
    using that i by simp
  note other = this [OF pattern_states(1)] this [OF pattern_states(2)] this [OF pattern_states(3)]
  show ?thesis unfolding core_init_pattern_def Let_def pattern_state_def i_def [symmetric] two
    using other sci by (simp add: if_distrib [of fst] if_distrib [of "foldl next_state CORE_START"] split del: if_split cong: if_cong) auto
qed

lemma pattern_bytes_plain: "0 \<notin> set pattern_bytes" "0x2C \<notin> set pattern_bytes"
  by (simp_all add: pattern_bytes_def intpat_def floatpat_def scipat_def errpat_def bytes_def)

text \<open>C32. On the pattern that core_init_state chooses for a seed, the machine ends in integer, float, scientific or invalid as the table of the pattern says, for every seed, except for the scientific pattern -87e+832, which it rejects because an exponent is only accepted behind a decimal point.\<close>

theorem core_state_transition_patterns:
  "\<exists>str' counts'. core_state_transition (init_word seed @ 0x2C # rest) counts = Some (pattern_state seed, str', counts')"
proof -
  have "set (init_word seed) \<subseteq> set pattern_bytes"
    using init_word_patterns(1) [of seed] by (auto simp: pattern_bytes_def)
  then have "0 \<notin> set (init_word seed)" "0x2C \<notin> set (init_word seed)" using pattern_bytes_plain by auto
  then show ?thesis using core_state_scan_token [of "init_word seed" CORE_START rest counts]
    unfolding core_state_transition_def init_word_state by blast
qed

end
