(* ===== verification/Coremark_Matrix.thy ===== *)
theory Coremark_Matrix
  imports Coremark_Util "HOL-Library.Monad_Syntax" "HOL-Library.Signed_Division"
begin

unbundle bit_operations_syntax

text \<open>
  The matrix benchmark of \<^verbatim>\<open>src/riscv-tools/fpga_test4sim/coremark4sim/core_matrix.c\<close>: the operations on
  flat square matrices, \<^verbatim>\<open>matrix_test\<close>, \<^verbatim>\<open>core_bench_matrix\<close> and \<^verbatim>\<open>core_init_matrix\<close>.  The theorems give
  each operation as a function on indices, and show that the benchmark stays inside of its arrays
  and gives matrix A back unchanged.
\<close>

section \<open>Loops and arrays\<close>

text \<open>The loop \<^verbatim>\<open>for (i = from; i < n; i++)\<close> over an unsigned 32-bit counter.\<close>

function for_loop :: "u32 \<Rightarrow> u32 \<Rightarrow> (u32 \<Rightarrow> 's \<Rightarrow> 's option) \<Rightarrow> 's \<Rightarrow> 's option" where
  "for_loop i n body s = (if i < n then body i s \<bind> for_loop (i + 1) n body else Some s)"
  by pat_completeness auto

termination
proof (relation "measure (\<lambda>(i, n, _). unat n - unat i)")
  fix i n :: u32
  assume "i < n"
  moreover from this have "unat (i + 1) = Suc (unat i)"
    using unsigned_less [of n, where ?'a = nat] by (simp add: word_less_nat_alt unat_word_ariths)
  ultimately show "((i + 1, n, body, t), (i, n, body, s)) \<in> measure (\<lambda>(i, n, _). unat n - unat i)" for body t s
    by (simp add: word_less_nat_alt)
qed simp

declare for_loop.simps [simp del]

definition load :: "'a list \<Rightarrow> u32 \<Rightarrow> 'a option" where
  "load xs k = (if unat k < length xs then Some (xs ! unat k) else None)"

definition store :: "u32 \<Rightarrow> 'a \<Rightarrow> 'a list \<Rightarrow> 'a list option" where
  "store k v xs = (if unat k < length xs then Some (xs[unat k := v]) else None)"

section \<open>The operations\<close>

text \<open>
  The arithmetic is that of the 16- and 32-bit types of the target; sums and products of the
  32-bit accumulators wrap.  An array is a list, and an access outside of it is \<^const>\<open>None\<close>.
\<close>

type_synonym MATDAT = "16 word"
type_synonym MATRES = "32 word"

definition matrix_big :: "MATDAT \<Rightarrow> MATDAT" where
  "matrix_big x = 0xf000 OR x"

definition matrix_clip :: "MATDAT \<Rightarrow> bool \<Rightarrow> MATDAT" where
  "matrix_clip x y = (if y then x AND 0x0ff else x AND 0x0ffff)"

definition bit_extract :: "MATRES \<Rightarrow> nat \<Rightarrow> nat \<Rightarrow> u32" where
  "bit_extract x from to = signed_drop_bit from x AND NOT (push_bit to 0xffffffff)"

definition matrix_sum :: "u32 \<Rightarrow> MATRES list \<Rightarrow> MATDAT \<Rightarrow> u16 option" where
  "matrix_sum N C clipval =
     map_option (\<lambda>(tmp, prev, ret). ret)
       (for_loop 0 N (\<lambda>i. for_loop 0 N (\<lambda>j (tmp, prev, ret). do {
          cur \<leftarrow> load C (i * N + j);
          let tmp = tmp + cur;
          Some (if sint tmp > sint clipval then (0, cur, ret + 10)
                else (tmp, cur, ret + (if sint cur > sint prev then 1 else 0)))
        })) (0, 0, 0))"

definition matrix_mul_const :: "u32 \<Rightarrow> MATRES list \<Rightarrow> MATDAT list \<Rightarrow> MATDAT \<Rightarrow> MATRES list option" where
  "matrix_mul_const N C A val =
     for_loop 0 N (\<lambda>i. for_loop 0 N (\<lambda>j C. do {
       a \<leftarrow> load A (i * N + j);
       store (i * N + j) (scast a * scast val) C
     })) C"

definition matrix_add_const :: "u32 \<Rightarrow> MATDAT list \<Rightarrow> MATDAT \<Rightarrow> MATDAT list option" where
  "matrix_add_const N A val =
     for_loop 0 N (\<lambda>i. for_loop 0 N (\<lambda>j A. do {
       a \<leftarrow> load A (i * N + j);
       store (i * N + j) (a + val) A
     })) A"

definition matrix_mul_vect :: "u32 \<Rightarrow> MATRES list \<Rightarrow> MATDAT list \<Rightarrow> MATDAT list \<Rightarrow> MATRES list option" where
  "matrix_mul_vect N C A B =
     for_loop 0 N (\<lambda>i C. do {
       C \<leftarrow> store i 0 C;
       for_loop 0 N (\<lambda>j C. do {
         c \<leftarrow> load C i;
         a \<leftarrow> load A (i * N + j);
         b \<leftarrow> load B j;
         store i (c + scast a * scast b) C
       }) C
     }) C"

definition matrix_mul_matrix :: "u32 \<Rightarrow> MATRES list \<Rightarrow> MATDAT list \<Rightarrow> MATDAT list \<Rightarrow> MATRES list option" where
  "matrix_mul_matrix N C A B =
     for_loop 0 N (\<lambda>i. for_loop 0 N (\<lambda>j C. do {
       C \<leftarrow> store (i * N + j) 0 C;
       for_loop 0 N (\<lambda>k C. do {
         c \<leftarrow> load C (i * N + j);
         a \<leftarrow> load A (i * N + k);
         b \<leftarrow> load B (k * N + j);
         store (i * N + j) (c + scast a * scast b) C
       }) C
     })) C"

definition matrix_mul_matrix_bitextract :: "u32 \<Rightarrow> MATRES list \<Rightarrow> MATDAT list \<Rightarrow> MATDAT list \<Rightarrow> MATRES list option" where
  "matrix_mul_matrix_bitextract N C A B =
     for_loop 0 N (\<lambda>i. for_loop 0 N (\<lambda>j C. do {
       C \<leftarrow> store (i * N + j) 0 C;
       for_loop 0 N (\<lambda>k C. do {
         a \<leftarrow> load A (i * N + k);
         b \<leftarrow> load B (k * N + j);
         let tmp = scast a * scast b;
         c \<leftarrow> load C (i * N + j);
         store (i * N + j) (c + bit_extract tmp 2 4 * bit_extract tmp 5 7) C
       }) C
     })) C"

definition matrix_test :: "u32 \<Rightarrow> MATRES list \<Rightarrow> MATDAT list \<Rightarrow> MATDAT list \<Rightarrow> MATDAT \<Rightarrow> (u16 \<times> MATRES list \<times> MATDAT list) option" where
  "matrix_test N C A B val = do {
     let crc = 0;
     let clipval = matrix_big val;
     A \<leftarrow> matrix_add_const N A val;
     C \<leftarrow> matrix_mul_const N C A val;
     s \<leftarrow> matrix_sum N C clipval;
     let crc = crc16 s crc;
     C \<leftarrow> matrix_mul_vect N C A B;
     s \<leftarrow> matrix_sum N C clipval;
     let crc = crc16 s crc;
     C \<leftarrow> matrix_mul_matrix N C A B;
     s \<leftarrow> matrix_sum N C clipval;
     let crc = crc16 s crc;
     C \<leftarrow> matrix_mul_matrix_bitextract N C A B;
     s \<leftarrow> matrix_sum N C clipval;
     let crc = crc16 s crc;
     A \<leftarrow> matrix_add_const N A (- val);
     Some (crc, C, A)
   }"

text \<open>The parameters: the dimension, and behind each pointer the contents of its array.\<close>

record mat_params =
  mat_N :: u32
  mat_A :: "MATDAT list"
  mat_B :: "MATDAT list"
  mat_C :: "MATRES list"

definition core_bench_matrix :: "mat_params \<Rightarrow> u16 \<Rightarrow> u16 \<Rightarrow> (u16 \<times> mat_params) option" where
  "core_bench_matrix p seed crc = do {
     (r, C, A) \<leftarrow> matrix_test (mat_N p) (mat_C p) (mat_A p) (mat_B p) seed;
     Some (crc16 r crc, p\<lparr>mat_C := C, mat_A := A\<rparr>)
   }"

text \<open>
  \<^verbatim>\<open>core_init_matrix\<close> divides the block at address \<^verbatim>\<open>memblk\<close> and writes the first two arrays; it
  returns the parameters and the three addresses.  The product \<^verbatim>\<open>order * seed\<close> is signed: its overflow
  is undefined behaviour, and \<^const>\<open>None\<close> here.
\<close>

definition align_mem :: "u32 \<Rightarrow> u32" where
  "align_mem x = (x + 4 - 1) AND - 4"

partial_function (option) matrix_dim_loop :: "u32 \<Rightarrow> u32 \<Rightarrow> u32 \<Rightarrow> u32 option" where
  "matrix_dim_loop blksize i j =
     (if j < blksize then (let i = i + 1 in matrix_dim_loop blksize i (i * i * 2 * 4)) else Some i)"

declare matrix_dim_loop.simps [code]

definition matrix_init_cell :: "u32 \<Rightarrow> u32 \<Rightarrow> u32 \<Rightarrow> int \<times> int \<times> MATDAT list \<times> MATDAT list \<Rightarrow> (int \<times> int \<times> MATDAT list \<times> MATDAT list) option" where
  "matrix_init_cell N i j s = (let (seed, order, A, B) = s in
     if - (2 ^ 31) \<le> order * seed \<and> order * seed < 2 ^ 31
     then do {
       let seed = (order * seed) smod 65536;
       let val = word_of_int (seed + order);
       let val = matrix_clip val False;
       B \<leftarrow> store (i * N + j) val B;
       let val = word_of_int (sint val + order);
       let val = matrix_clip val True;
       A \<leftarrow> store (i * N + j) val A;
       Some (seed, order + 1, A, B)
     }
     else None)"

definition core_init_matrix :: "u32 \<Rightarrow> u32 \<Rightarrow> int \<Rightarrow> mat_params \<Rightarrow> (mat_params \<times> u32 \<times> u32 \<times> u32) option" where
  "core_init_matrix blksize memblk seed p = do {
     let seed = (if seed = 0 then 1 else seed);
     i \<leftarrow> matrix_dim_loop blksize 0 0;
     let N = i - 1;
     let A = align_mem memblk;
     let B = A + 2 * (N * N);
     (seed, order, cellsA, cellsB) \<leftarrow> for_loop 0 N (\<lambda>i. for_loop 0 N (matrix_init_cell N i)) (seed, 1, mat_A p, mat_B p);
     let C = align_mem (B + 2 * (N * N));
     Some (p\<lparr>mat_N := N, mat_A := cellsA, mat_B := cellsB\<rparr>, A, B, C)
   }"

section \<open>Rules for the loops\<close>

lemma for_loop_step:
  assumes "k < unat n"
  shows "for_loop (of_nat k) n body s = body (of_nat k) s \<bind> for_loop (of_nat (Suc k)) n body"
proof -
  have "unat (of_nat k :: u32) = k" using assms unsigned_less [of n, where ?'a = nat] by (simp add: unat_of_nat)
  then have "of_nat k < n" using assms by (simp add: word_less_nat_alt)
  then show ?thesis by (subst for_loop.simps) (simp add: add.commute)
qed

lemma for_loop_rule:
  assumes "\<And>k. k < unat n \<Longrightarrow> body (of_nat k) (st k) = Some (st (Suc k))"
  shows "for_loop 0 n body (st 0) = Some (st (unat n))"
proof -
  have "k \<le> unat n \<Longrightarrow> for_loop (of_nat (unat n - k)) n body (st (unat n - k)) = Some (st (unat n))" for k
  proof (induction k)
    case 0
    then show ?case by (simp add: for_loop.simps)
  next
    case (Suc k)
    then have "Suc (unat n - Suc k) = unat n - k" by simp
    then show ?case using Suc for_loop_step [of "unat n - Suc k" n body] assms [of "unat n - Suc k"] by simp
  qed
  from this [of "unat n"] show ?thesis by simp
qed

lemma mat_loop_rule:
  fixes N :: u32
  defines "n \<equiv> unat N"
  assumes "\<And>i j. i < n \<Longrightarrow> j < n \<Longrightarrow> body (of_nat i) (of_nat j) (st (i * n + j)) = Some (st (Suc (i * n + j)))"
  shows "for_loop 0 N (\<lambda>i. for_loop 0 N (body i)) (st 0) = Some (st (n * n))"
proof -
  have "for_loop 0 N (body (of_nat i)) (st (i * n)) = Some (st (Suc i * n))" if "i < n" for i
    using for_loop_rule [of N "body (of_nat i)" "\<lambda>j. st (i * n + j)"] assms that by (simp add: add.commute)
  then show ?thesis
    using for_loop_rule [of N "\<lambda>i. for_loop 0 N (body i)" "\<lambda>i. st (i * n)"] by (simp add: n_def)
qed

lemma flat_index_less: "i < n \<Longrightarrow> j < n \<Longrightarrow> i * n + j < n * (n :: nat)"
  by (metis add.commute add_less_le_mono mult_Suc mult_le_mono1 Suc_leI less_le_trans nat_add_left_cancel_less)

lemma flat_index:
  fixes N :: u32
  assumes "unat N < 2 ^ 16" "i < unat N" "j < unat N"
  shows "unat (of_nat i * N + of_nat j) = i * unat N + j"
proof -
  have "unat N * unat N < 2 ^ 16 * 2 ^ 16" using assms(1) by (intro mult_strict_mono) auto
  then have b: "i * unat N + j < 2 ^ 32" using flat_index_less [OF assms(2,3)] by simp
  have "of_nat i * N + of_nat j = (of_nat (i * unat N + j) :: u32)" by simp
  then show ?thesis using b by (simp only: unat_of_nat) simp
qed

text \<open>The first \<open>m\<close> cells of an array replaced by the values of a function.\<close>

definition fill :: "(nat \<Rightarrow> 'a) \<Rightarrow> nat \<Rightarrow> 'a list \<Rightarrow> 'a list" where
  "fill f m xs = map (\<lambda>k. if k < m then f k else xs ! k) [0..<length xs]"

lemma length_fill [simp]: "length (fill f m xs) = length xs"
  by (simp add: fill_def)

lemma nth_fill [simp]: "k < length xs \<Longrightarrow> fill f m xs ! k = (if k < m then f k else xs ! k)"
  by (simp add: fill_def)

lemma fill_0 [simp]: "fill f 0 xs = xs"
  by (simp add: list_eq_iff_nth_eq)

lemma fill_Suc: "(fill f m xs)[m := f m] = fill f (Suc m) xs"
  by (auto simp: list_eq_iff_nth_eq nth_list_update less_Suc_eq)

lemma load_flat:
  assumes "unat N < 2 ^ 16" "i < unat N" "j < unat N" "unat N * unat N \<le> length xs"
  shows "load xs (of_nat i * N + of_nat j) = Some (xs ! (i * unat N + j))"
  using flat_index_less [OF assms(2,3)] assms(4) by (simp add: load_def flat_index [OF assms(1-3)])

lemma store_flat:
  assumes "unat N < 2 ^ 16" "i < unat N" "j < unat N" "unat N * unat N \<le> length xs"
  shows "store (of_nat i * N + of_nat j) v xs = Some (xs[i * unat N + j := v])"
  using flat_index_less [OF assms(2,3)] assms(4) by (simp add: store_def flat_index [OF assms(1-3)])

lemma fill_loop_rule:
  fixes N :: u32
  defines "n \<equiv> unat N"
  assumes "\<And>i j. i < n \<Longrightarrow> j < n \<Longrightarrow>
    body (of_nat i) (of_nat j) (fill f (i * n + j) C) = Some ((fill f (i * n + j) C)[i * n + j := f (i * n + j)])"
  shows "for_loop 0 N (\<lambda>i. for_loop 0 N (body i)) C = Some (fill f (n * n) C)"
  using mat_loop_rule [of N body "\<lambda>m. fill f m C"] assms by (simp add: fill_Suc)

lemma matrix_add_const_fill:
  assumes "unat N < 2 ^ 16" "unat N * unat N \<le> length A"
  shows "matrix_add_const N A val = Some (fill (\<lambda>k. A ! k + val) (unat N * unat N) A)"
  unfolding matrix_add_const_def
  by (rule fill_loop_rule) (use assms in \<open>simp add: load_flat store_flat less_le_trans [OF flat_index_less]\<close>)

lemma matrix_mul_const_fill:
  assumes "unat N < 2 ^ 16" "unat N * unat N \<le> length A" "unat N * unat N \<le> length C"
  shows "matrix_mul_const N C A val = Some (fill (\<lambda>k. scast (A ! k) * scast val) (unat N * unat N) C)"
  unfolding matrix_mul_const_def
  by (rule fill_loop_rule) (use assms in \<open>simp add: load_flat store_flat\<close>)

text \<open>The sum that a cell accumulates.\<close>

lemma accumulate_loop:
  fixes N :: u32
  assumes "c < length C"
    and "\<And>k x. k < unat N \<Longrightarrow> body (of_nat k) (C[c := x]) = Some (C[c := x + g k])"
  shows "for_loop 0 N body (C[c := 0]) = Some (C[c := (\<Sum>k<unat N. g k)])"
  using for_loop_rule [of N body "\<lambda>m. C[c := (\<Sum>k<m. g k)]"] assms by simp

definition matrix_product :: "(MATDAT \<Rightarrow> MATDAT \<Rightarrow> MATRES) \<Rightarrow> nat \<Rightarrow> MATDAT list \<Rightarrow> MATDAT list \<Rightarrow> nat \<Rightarrow> MATRES" where
  "matrix_product mul n A B c = (\<Sum>k<n. mul (A ! (c div n * n + k)) (B ! (k * n + c mod n)))"

lemma matrix_mul_fill:
  fixes N :: u32
  assumes N: "unat N < 2 ^ 16" and l: "unat N * unat N \<le> length C"
    and body: "\<And>i j k xs. i < unat N \<Longrightarrow> j < unat N \<Longrightarrow> k < unat N \<Longrightarrow> length xs = length C \<Longrightarrow>
      body (of_nat i) (of_nat j) (of_nat k) xs =
        Some (xs[i * unat N + j := xs ! (i * unat N + j) + mul (A ! (i * unat N + k)) (B ! (k * unat N + j))])"
  shows "for_loop 0 N (\<lambda>i. for_loop 0 N (\<lambda>j C. store (i * N + j) 0 C \<bind> for_loop 0 N (body i j))) C =
    Some (fill (matrix_product mul (unat N) A B) (unat N * unat N) C)"
proof (rule fill_loop_rule)
  fix i j
  assume ij: "i < unat N" "j < unat N"
  let ?c = "i * unat N + j" and ?F = "fill (matrix_product mul (unat N) A B) (i * unat N + j) C"
  have c: "?c < length C" using flat_index_less [OF ij] l by simp
  have "for_loop 0 N (body (of_nat i) (of_nat j)) (?F[?c := 0]) =
      Some (?F[?c := (\<Sum>k<unat N. mul (A ! (i * unat N + k)) (B ! (k * unat N + j)))])"
    using c body [OF ij] by (intro accumulate_loop) simp_all
  moreover have "matrix_product mul (unat N) A B ?c = (\<Sum>k<unat N. mul (A ! (i * unat N + k)) (B ! (k * unat N + j)))"
    using ij by (simp add: matrix_product_def)
  ultimately show "store (of_nat i * N + of_nat j) 0 ?F \<bind> for_loop 0 N (body (of_nat i) (of_nat j)) =
      Some (?F[?c := matrix_product mul (unat N) A B ?c])"
    using store_flat [OF N ij, of ?F 0] l by simp
qed

lemma matrix_mul_matrix_fill:
  assumes "unat N < 2 ^ 16" "unat N * unat N \<le> length A" "unat N * unat N \<le> length B" "unat N * unat N \<le> length C"
  shows "matrix_mul_matrix N C A B = Some (fill (matrix_product (\<lambda>a b. scast a * scast b) (unat N) A B) (unat N * unat N) C)"
  unfolding matrix_mul_matrix_def
  by (rule matrix_mul_fill) (use assms in \<open>simp_all add: load_flat store_flat\<close>)

definition bit_times :: "MATDAT \<Rightarrow> MATDAT \<Rightarrow> MATRES" where
  "bit_times a b = (let tmp = scast a * scast b in bit_extract tmp 2 4 * bit_extract tmp 5 7)"

lemma matrix_mul_matrix_bitextract_fill:
  assumes "unat N < 2 ^ 16" "unat N * unat N \<le> length A" "unat N * unat N \<le> length B" "unat N * unat N \<le> length C"
  shows "matrix_mul_matrix_bitextract N C A B = Some (fill (matrix_product bit_times (unat N) A B) (unat N * unat N) C)"
  unfolding matrix_mul_matrix_bitextract_def
  by (rule matrix_mul_fill) (use assms in \<open>simp_all add: load_flat store_flat bit_times_def Let_def\<close>)


lemma unat_index: "i < unat (N :: u32) \<Longrightarrow> unat (of_nat i :: u32) = i"
  using unsigned_less [of N, where ?'a = nat] by (simp add: unat_of_nat)

lemma matrix_mul_vect_fill:
  assumes "unat N < 2 ^ 16" "unat N * unat N \<le> length A" "unat N \<le> length B" "unat N \<le> length C"
  shows "matrix_mul_vect N C A B =
    Some (fill (\<lambda>i. \<Sum>j<unat N. scast (A ! (i * unat N + j)) * scast (B ! j)) (unat N) C)"
proof -
  let ?g = "\<lambda>i. \<Sum>j<unat N. scast (A ! (i * unat N + j)) * scast (B ! j) :: MATRES"
  have "store (of_nat i) 0 (fill ?g i C) \<bind> for_loop 0 N (\<lambda>j C. do {
         c \<leftarrow> load C (of_nat i);
         a \<leftarrow> load A (of_nat i * N + j);
         b \<leftarrow> load B j;
         store (of_nat i) (c + scast a * scast b) C
       }) = Some (fill ?g (Suc i) C)" (is "_ \<bind> for_loop 0 N ?body = _") if i: "i < unat N" for i
  proof -
    have "for_loop 0 N ?body ((fill ?g i C)[i := 0]) = Some ((fill ?g i C)[i := ?g i])"
      using i assms by (intro accumulate_loop) (auto simp: load_flat, auto simp: load_def store_def unat_index)
    then show ?thesis using i assms(4) fill_Suc [of ?g i C] by (simp add: store_def unat_index)
  qed
  then show ?thesis unfolding matrix_mul_vect_def
    using for_loop_rule [of N _ "\<lambda>i. fill ?g i C"] by simp
qed

definition matrix_sum_step :: "MATDAT \<Rightarrow> MATRES \<Rightarrow> MATRES \<times> MATRES \<times> u16 \<Rightarrow> MATRES \<times> MATRES \<times> u16" where
  "matrix_sum_step clipval cur = (\<lambda>(tmp, prev, ret).
     if sint (tmp + cur) > sint clipval then (0, cur, ret + 10)
     else (tmp + cur, cur, ret + (if sint cur > sint prev then 1 else 0)))"

lemma matrix_sum_fold:
  assumes "unat N < 2 ^ 16" "unat N * unat N \<le> length C"
  shows "matrix_sum N C clipval =
    Some (snd (snd (fold (matrix_sum_step clipval) (take (unat N * unat N) C) (0, 0, 0))))"
proof -
  let ?st = "\<lambda>m. fold (matrix_sum_step clipval) (take m C) (0, 0, 0)"
  let ?body = "\<lambda>i j (tmp, prev, ret). do {
          cur \<leftarrow> load C (i * N + j);
          let tmp = tmp + cur;
          Some (if sint tmp > sint clipval then (0, cur, ret + 10)
                else (tmp, cur, ret + (if sint cur > sint prev then 1 else 0)))
        }"
  have "?body (of_nat i) (of_nat j) (?st (i * unat N + j)) = Some (?st (Suc (i * unat N + j)))"
    if "i < unat N" "j < unat N" for i j
    using that assms flat_index_less [OF that]
    by (simp add: load_flat take_Suc_conv_app_nth matrix_sum_step_def case_prod_beta Let_def)
  from mat_loop_rule [of N ?body ?st, OF this] show ?thesis
    unfolding matrix_sum_def by (simp add: case_prod_beta)
qed

lemma fill_add_back: "fill (\<lambda>k. fill (\<lambda>k. A ! k + val) m A ! k - val) m A = A" if "m \<le> length A" for val :: "'a::len word"
  using that by (simp add: list_eq_iff_nth_eq)

lemma fill_fill: "k \<le> m \<Longrightarrow> fill f m (fill g k xs) = fill f m xs"
  by (simp add: list_eq_iff_nth_eq)

lemma matrix_test_restores:
  assumes "unat N < 2 ^ 16" "unat N * unat N \<le> length A" "unat N * unat N \<le> length B" "unat N * unat N \<le> length C"
  shows "\<exists>crc. matrix_test N C A B val =
    Some (crc, fill (matrix_product bit_times (unat N) (fill (\<lambda>k. A ! k + val) (unat N * unat N) A) B) (unat N * unat N) C, A)"
proof -
  have v: "unat N \<le> length B" "unat N \<le> length C" using assms(3,4) le_square [of "unat N"] by linarith+
  show ?thesis unfolding matrix_test_def Let_def using assms v
    by (simp add: matrix_add_const_fill matrix_mul_const_fill matrix_mul_vect_fill matrix_mul_matrix_fill
      matrix_mul_matrix_bitextract_fill matrix_sum_fold fill_fill fill_add_back le_square)
qed

text \<open>C36. matrix_mul_matrix stores the matrix product modulo 2^32 in the first N * N cells of C, reads A and B inside of their arrays, and leaves the other cells alone.\<close>

theorem matrix_mul_matrix_correct:
  assumes "unat N < 2 ^ 16" "unat N * unat N \<le> length A" "unat N * unat N \<le> length B" "unat N * unat N \<le> length C"
  shows "\<exists>C'. matrix_mul_matrix N C A B = Some C' \<and> length C' = length C \<and>
    (\<forall>i < unat N. \<forall>j < unat N. C' ! (i * unat N + j) =
       (\<Sum>k < unat N. scast (A ! (i * unat N + k)) * scast (B ! (k * unat N + j)))) \<and>
    (\<forall>c. unat N * unat N \<le> c \<and> c < length C \<longrightarrow> C' ! c = C ! c)"
proof -
  let ?C = "fill (matrix_product (\<lambda>a b. scast a * scast b) (unat N) A B) (unat N * unat N) C"
  have "?C ! (i * unat N + j) = (\<Sum>k < unat N. scast (A ! (i * unat N + k)) * scast (B ! (k * unat N + j)))"
    if "i < unat N" "j < unat N" for i j
    using that flat_index_less [OF that] assms(4) by (simp add: matrix_product_def)
  then show ?thesis using matrix_mul_matrix_fill [OF assms] by (intro exI [of _ ?C]) simp
qed

theorem matrix_mul_matrix_correct_witness:
  "\<exists>C'. matrix_mul_matrix 2 [0, 0, 0, 0, 9] [1, 2, 3, 4] [5, 6, 7, -8] = Some C' \<and> length C' = length [0, 0, 0, 0, 9 :: MATRES] \<and>
    (\<forall>i < unat (2 :: u32). \<forall>j < unat (2 :: u32). C' ! (i * unat (2 :: u32) + j) =
       (\<Sum>k < unat (2 :: u32). scast ([1, 2, 3, 4 :: MATDAT] ! (i * unat (2 :: u32) + k)) * scast ([5, 6, 7, -8 :: MATDAT] ! (k * unat (2 :: u32) + j)))) \<and>
    (\<forall>c. unat (2 :: u32) * unat (2 :: u32) \<le> c \<and> c < length [0, 0, 0, 0, 9 :: MATRES] \<longrightarrow> C' ! c = [0, 0, 0, 0, 9] ! c)"
  by (rule matrix_mul_matrix_correct) simp_all

lemma core_bench_matrix_returns:
  assumes "unat (mat_N p) < 2 ^ 16" "unat (mat_N p) * unat (mat_N p) \<le> length (mat_A p)"
    "unat (mat_N p) * unat (mat_N p) \<le> length (mat_B p)" "unat (mat_N p) * unat (mat_N p) \<le> length (mat_C p)"
  shows "\<exists>crc' C. core_bench_matrix p seed crc = Some (crc', p\<lparr>mat_C := C\<rparr>) \<and> length C = length (mat_C p)"
proof -
  obtain r C where "matrix_test (mat_N p) (mat_C p) (mat_A p) (mat_B p) seed = Some (r, C, mat_A p)" "length C = length (mat_C p)"
    using matrix_test_restores [OF assms] by (metis length_fill)
  then show ?thesis by (intro exI [of _ "crc16 r crc"] exI [of _ C]) (simp add: core_bench_matrix_def)
qed

text \<open>C37. core_bench_matrix returns for every constant and gives matrix A back in its initial value, with wrap-around of the 16-bit elements included; only matrix C changes.\<close>

theorem core_bench_matrix_restores:
  assumes "unat (mat_N p) < 2 ^ 16" "unat (mat_N p) * unat (mat_N p) \<le> length (mat_A p)"
    "unat (mat_N p) * unat (mat_N p) \<le> length (mat_B p)" "unat (mat_N p) * unat (mat_N p) \<le> length (mat_C p)"
  shows "\<exists>crc' C. core_bench_matrix p seed crc = Some (crc', p\<lparr>mat_C := C\<rparr>) \<and> length C = length (mat_C p)"
  by (rule core_bench_matrix_returns [OF assms])

theorem core_bench_matrix_restores_witness:
  "\<exists>crc' C. core_bench_matrix \<lparr>mat_N = 1, mat_A = [3], mat_B = [4], mat_C = [0]\<rparr> 7 0 =
     Some (crc', \<lparr>mat_N = 1, mat_A = [3], mat_B = [4], mat_C = [0]\<rparr>\<lparr>mat_C := C\<rparr>) \<and>
     length C = length (mat_C \<lparr>mat_N = 1, mat_A = [3], mat_B = [4], mat_C = [0]\<rparr>)"
  by (rule core_bench_matrix_restores) simp_all

section \<open>The initialisation of the matrices\<close>

text \<open>The values the initialisation is to write.\<close>

primrec init_seed :: "int \<Rightarrow> nat \<Rightarrow> int" where
  "init_seed seed 0 = seed"
| "init_seed seed (Suc m) = (int (Suc m) * init_seed seed m) smod 65536"

definition init_B :: "int \<Rightarrow> nat \<Rightarrow> MATDAT" where
  "init_B seed k = word_of_int (init_seed seed (Suc k) + int (Suc k))"

definition init_A :: "int \<Rightarrow> nat \<Rightarrow> MATDAT" where
  "init_A seed k = word_of_int (sint (init_B seed k) + int (Suc k)) AND 0xff"

lemma smod_bound: "\<bar>x smod 65536\<bar> < (65536 :: int)"
  by (simp add: signed_modulo_int_def signed_divide_int_def sgn_mult abs_mult) 

lemma matrix_dim_loop_returns:
  assumes "unat blksize \<le> 2 ^ 18" "0 < blksize"
  shows "\<exists>N. matrix_dim_loop blksize 0 0 = Some (of_nat (Suc N)) \<and> 8 * N\<^sup>2 < unat blksize \<and> unat blksize \<le> 8 * (Suc N)\<^sup>2"
proof -
  define j where "j n = (of_nat (8 * n\<^sup>2) :: u32)" for n
  obtain m where m: "unat blksize \<le> 8 * m\<^sup>2" "\<And>n. n < m \<Longrightarrow> 8 * n\<^sup>2 < unat blksize"
  proof -
    let ?m = "LEAST m. unat blksize \<le> 8 * m\<^sup>2"
    have "unat blksize \<le> 8 * 182\<^sup>2" using assms(1) by simp
    then have "unat blksize \<le> 8 * ?m\<^sup>2" by (rule LeastI)
    moreover have "8 * n\<^sup>2 < unat blksize" if "n < ?m" for n using not_less_Least [OF that] by simp
    ultimately show thesis by (rule that)
  qed
  have "m \<le> 182"
  proof (rule ccontr)
    assume "\<not> m \<le> 182"
    then have "8 * 182\<^sup>2 < unat blksize" using m(2) [of 182] by simp
    then show False using assms(1) by simp
  qed
  have m0: "0 < m" using m(1) assms(2) by (cases m) (auto simp: word_less_nat_alt)
  have uj: "unat (j n) = 8 * n\<^sup>2" if "n \<le> m" for n
  proof -
    have "n\<^sup>2 \<le> 182\<^sup>2" using that \<open>m \<le> 182\<close> by (intro power_mono) auto
    then show ?thesis by (simp add: j_def unat_of_nat del: of_nat_power of_nat_mult)
  qed
  have step: "matrix_dim_loop blksize (of_nat n) (j n) = matrix_dim_loop blksize (of_nat (Suc n)) (j (Suc n))" if "n < m" for n
  proof -
    have "j n < blksize" using that m(2) uj [of n] by (simp add: word_less_nat_alt)
    moreover have "(of_nat n + 1) * (of_nat n + 1) * 2 * 4 = j (Suc n)"
      by (simp add: j_def power2_eq_square algebra_simps)
    ultimately show ?thesis by (subst matrix_dim_loop.simps) (simp add: Let_def add.commute)
  qed
  have "n \<le> m \<Longrightarrow> matrix_dim_loop blksize 0 0 = matrix_dim_loop blksize (of_nat n) (j n)" for n
    by (induction n) (simp_all add: step, simp add: j_def)
  from this [of m] have "matrix_dim_loop blksize 0 0 = matrix_dim_loop blksize (of_nat m) (j m)" by simp
  also have "\<dots> = Some (of_nat m)"
    using m(1) uj [of m] by (subst matrix_dim_loop.simps) (simp add: word_less_nat_alt)
  finally show ?thesis using m(1) m(2) [of "m - 1"] m0 by (intro exI [of _ "m - 1"]) simp
qed

lemma init_seed_product:
  assumes "- (2 ^ 31) \<le> seed" "seed < 2 ^ 31" "m < 2 ^ 15"
  shows "- (2 ^ 31) \<le> int (Suc m) * init_seed seed m \<and> int (Suc m) * init_seed seed m < 2 ^ 31"
proof (cases m)
  case 0
  then show ?thesis using assms by simp
next
  case (Suc k)
  then have "\<bar>init_seed seed m\<bar> < 65536" using smod_bound by simp
  then have "\<bar>int (Suc m) * init_seed seed m\<bar> \<le> 2 ^ 15 * 65535"
    unfolding abs_mult using assms(3) by (intro mult_mono) auto
  then show ?thesis by auto
qed

lemma matrix_init_cells:
  fixes N :: u32
  assumes "unat N < 2 ^ 7 + 54" "unat N * unat N \<le> length A" "unat N * unat N \<le> length B" "- (2 ^ 31) \<le> seed" "seed < 2 ^ 31"
  shows "for_loop 0 N (\<lambda>i. for_loop 0 N (matrix_init_cell N i)) (seed, 1, A, B) =
    (let m = unat N * unat N in Some (init_seed seed m, int (Suc m), fill (init_A seed) m A, fill (init_B seed) m B))"
proof -
  let ?st = "\<lambda>m. (init_seed seed m, int (Suc m), fill (init_A seed) m A, fill (init_B seed) m B)"
  have n: "unat N * unat N < 2 ^ 15" using mult_mono [of "unat N" 181 "unat N" 181] assms(1) by simp
  have "matrix_init_cell N (of_nat i) (of_nat j) (?st (i * unat N + j)) = Some (?st (Suc (i * unat N + j)))"
    if "i < unat N" "j < unat N" for i j
  proof -
    let ?m = "i * unat N + j"
    have m: "?m < unat N * unat N" by (rule flat_index_less [OF that])
    note prod = init_seed_product [OF assms(4,5), of ?m]
    have val: "word_of_int ((int (Suc ?m) * init_seed seed ?m) smod 65536 + int (Suc ?m)) = init_B seed ?m"
      by (simp only: init_B_def init_seed.simps)
    have clip: "matrix_clip w False = w" for w
    proof -
      have "(0x0ffff :: MATDAT) = - 1" by simp
      then show ?thesis unfolding matrix_clip_def by (simp only: if_False and.right_neutral)
    qed
    have st: "store (of_nat i * N + of_nat j) v xs = Some (xs[?m := v])" if "unat N * unat N \<le> length xs" for v and xs :: "MATDAT list"
      using store_flat [of N i j xs v] that assms(1) \<open>i < unat N\<close> \<open>j < unat N\<close> by simp
    have val2: "matrix_clip (word_of_int (sint (init_B seed ?m) + int (Suc ?m))) True = init_A seed ?m"
      by (simp only: init_A_def matrix_clip_def if_True)
    show ?thesis unfolding matrix_init_cell_def Let_def prod.case
      using prod m n assms(2,3) by (simp only: val clip val2 st length_fill bind.bind_lunit fill_Suc) simp
  qed
  from mat_loop_rule [of N "matrix_init_cell N" ?st, OF this] show ?thesis by (simp add: Let_def)
qed


lemma unat_align_mem:
  assumes "unat a + 4 < 2 ^ 32"
  shows "unat (align_mem a) = (unat a + 3) div 4 * 4"
proof -
  have m: "(- 4 :: u32) = NOT (mask 2)" by (simp add: mask_eq_exp_minus_1 not_eq_complement)
  have "(a + 3) AND NOT (mask 2) = push_bit 2 (drop_bit 2 (a + 3))"
  proof (rule bit_word_eqI)
    fix n :: nat
    assume n: "n < LENGTH(32)"
    have "2 + (n - 2) = n" if "2 \<le> n" using that by simp
    then show "bit ((a + 3) AND NOT (mask 2)) n = bit (push_bit 2 (drop_bit 2 (a + 3))) n"
      using n unfolding bit_and_iff bit_not_iff bit_mask_iff bit_push_bit_iff bit_drop_bit_eq comp_apply
      by (metis add.commute le_add_diff_inverse2 not_less min_def_raw possible_bit_word)
  qed
  moreover have "uint (push_bit 2 (drop_bit 2 (a + 3))) = int ((unat a + 3) div 4 * 4)"
  proof -
    have u: "uint a + 3 = int (unat a + 3)" by simp
    have "int (unat a + 4) < int (2 ^ 32)" using assms by (simp only: of_nat_less_iff)
    then have b: "uint a + 3 < 2 ^ 32" by simp
    have a3: "uint (a + 3) = int (unat a + 3)" using b unfolding u [symmetric] by (subst uint_add_small) simp_all
    have d: "uint (drop_bit 2 (a + 3)) = int ((unat a + 3) div 4)" unfolding uint_drop a3 by (simp only: zdiv_int of_nat_numeral power2_eq_square) simp
    have "(unat a + 3) div 4 * 4 < 2 ^ 32" using assms div_times_less_eq_dividend [of "unat a + 3" 4] by linarith
    then have "int ((unat a + 3) div 4) * 2 ^ 2 < 2 ^ 32" by simp
    then show ?thesis by (subst uint_push_small) (simp_all add: d)
  qed
  moreover have "align_mem a = (a + 3) AND NOT (mask 2)" unfolding m [symmetric] align_mem_def by (simp add: add.commute)
  ultimately have "int (unat (align_mem a)) = int ((unat a + 3) div 4 * 4)" by simp
  then show ?thesis by (simp only: of_nat_eq_iff)
qed

lemma core_init_matrix_layout:
  assumes "unat blksize \<le> 2 ^ 18" "0 < blksize" "- (2 ^ 31) \<le> seed" "seed < 2 ^ 31"
    and "unat blksize \<le> 8 * length (mat_A p)" "unat blksize \<le> 8 * length (mat_B p)"
    and "unat memblk + unat blksize + 8 < 2 ^ 32"
  shows "\<exists>n p' A B C. core_init_matrix blksize memblk seed p = Some (p', A, B, C) \<and>
    mat_N p' = of_nat n \<and> 8 * n\<^sup>2 < unat blksize \<and> unat blksize \<le> 8 * (Suc n)\<^sup>2 \<and>
    unat A = (unat memblk + 3) div 4 * 4 \<and> unat B = unat A + 2 * n\<^sup>2 \<and> unat C = unat B + 2 * n\<^sup>2 \<and>
    mat_B p' = fill (init_B (if seed = 0 then 1 else seed)) (n\<^sup>2) (mat_B p) \<and>
    mat_A p' = fill (init_A (if seed = 0 then 1 else seed)) (n\<^sup>2) (mat_A p)"
proof -
  obtain n where dim: "matrix_dim_loop blksize 0 0 = Some (of_nat (Suc n))" and n: "8 * n\<^sup>2 < unat blksize" "unat blksize \<le> 8 * (Suc n)\<^sup>2"
    using matrix_dim_loop_returns [OF assms(1,2)] by blast
  have n181: "n \<le> 181"
  proof (rule ccontr)
    assume "\<not> n \<le> 181"
    then have "182\<^sup>2 \<le> n\<^sup>2" by (intro power_mono) auto
    then show False using n(1) assms(1) by simp
  qed
  define s where "s = (if seed = 0 then 1 else seed)"
  let ?N = "of_nat n :: u32"
  have N: "unat ?N = n" using n181 by (simp add: unat_of_nat)
  have cells: "for_loop 0 ?N (\<lambda>i. for_loop 0 ?N (matrix_init_cell ?N i)) (s, 1, mat_A p, mat_B p) =
      Some (init_seed s (n\<^sup>2), int (Suc (n\<^sup>2)), fill (init_A s) (n\<^sup>2) (mat_A p), fill (init_B s) (n\<^sup>2) (mat_B p))"
    using matrix_init_cells [of ?N "mat_A p" "mat_B p" s] n181 n(1) assms(3-6)
    by (simp add: s_def N power2_eq_square Let_def)
  define a where "a = (unat memblk + 3) div 4 * 4"
  have le: "a \<le> unat memblk + 3" unfolding a_def by (rule div_times_less_eq_dividend)
  have u: "unat (of_nat (a + k) :: u32) = a + k" if "k \<le> 4 * n\<^sup>2" for k
  proof -
    have "a + k < 2 ^ 32" using that n(1) assms(7) le by linarith
    then show ?thesis by (simp only: unat_of_nat) simp
  qed
  have al: "align_mem memblk = of_nat a" using unat_align_mem [of memblk] assms(7) u [of 0] by (simp add: word_unat_eq_iff a_def)
  have B: "of_nat a + 2 * (?N * ?N) = (of_nat (a + 2 * n\<^sup>2) :: u32)" by (simp add: power2_eq_square)
  have C: "of_nat (a + 2 * n\<^sup>2) + 2 * (?N * ?N) = (of_nat (a + 4 * n\<^sup>2) :: u32)" by (simp add: power2_eq_square)
  have al': "align_mem (of_nat (a + 4 * n\<^sup>2)) = of_nat (a + 4 * n\<^sup>2)"
  proof -
    have "(a + 4 * n\<^sup>2 + 3) div 4 * 4 = a + 4 * n\<^sup>2" unfolding a_def by presburger
    then show ?thesis using unat_align_mem [of "of_nat (a + 4 * n\<^sup>2)"] u [of "4 * n\<^sup>2"] n(1) assms(7) le by (simp only: word_unat_eq_iff)
  qed
  have "core_init_matrix blksize memblk seed p =
      Some (p\<lparr>mat_N := ?N, mat_A := fill (init_A s) (n\<^sup>2) (mat_A p), mat_B := fill (init_B s) (n\<^sup>2) (mat_B p)\<rparr>,
        of_nat a, of_nat (a + 2 * n\<^sup>2), of_nat (a + 4 * n\<^sup>2))"
    unfolding core_init_matrix_def dim Let_def s_def [symmetric]
    by (simp only: bind.bind_lunit of_nat_Suc add_diff_cancel_left' cells prod.case al B C al')
  then show ?thesis unfolding s_def [symmetric] using n u [of 0] u [of "2 * n\<^sup>2"] u [of "4 * n\<^sup>2"] a_def
    by (intro exI [of _ n]) (simp del: of_nat_add of_nat_mult of_nat_power)
qed


text \<open>C38. core_init_matrix finds the largest dimension with 8 * N^2 below the block size, places A, B and C one behind the other from the aligned start of the block, and fills A and B with the pseudo-random values without signed overflow, for blocks of up to 2^18 bytes.\<close>

theorem core_init_matrix_correct:
  assumes "unat blksize \<le> 2 ^ 18" "0 < blksize" "- (2 ^ 31) \<le> seed" "seed < 2 ^ 31"
    and "unat blksize \<le> 8 * length (mat_A p)" "unat blksize \<le> 8 * length (mat_B p)"
    and "unat memblk + unat blksize + 8 < 2 ^ 32"
  shows "\<exists>n p' A B C. core_init_matrix blksize memblk seed p = Some (p', A, B, C) \<and>
    mat_N p' = of_nat n \<and> 8 * n\<^sup>2 < unat blksize \<and> unat blksize \<le> 8 * (Suc n)\<^sup>2 \<and>
    unat A = (unat memblk + 3) div 4 * 4 \<and> unat B = unat A + 2 * n\<^sup>2 \<and> unat C = unat B + 2 * n\<^sup>2 \<and>
    mat_B p' = fill (init_B (if seed = 0 then 1 else seed)) (n\<^sup>2) (mat_B p) \<and>
    mat_A p' = fill (init_A (if seed = 0 then 1 else seed)) (n\<^sup>2) (mat_A p)"
  by (rule core_init_matrix_layout [OF assms])

lemma align_padding: "(m + 3) div 4 * 4 = m + (4 - m mod 4) mod 4" for m :: nat
proof -
  have "m = 4 * (m div 4) + m mod 4" "m mod 4 < 4" by simp_all
  then obtain q r where m: "m = 4 * q + r" "r < 4" by blast
  from m(2) consider "r = 0" | "r = 1" | "r = 2" | "r = 3" by linarith
  then show ?thesis unfolding m(1) mod_mult_self4 by cases (simp_all add: mod_mult_self4 del: add_2_eq_Suc')
qed

text \<open>C39. The bytes that the alignment of the start consumes are not counted: for blocks of up to 2^18 bytes, matrix C ends behind the block exactly when the block has fewer than these bytes left beyond 8 * N^2, and then by at most two bytes.\<close>

theorem core_init_matrix_overrun:
  assumes "unat blksize \<le> 2 ^ 18" "0 < blksize" "- (2 ^ 31) \<le> seed" "seed < 2 ^ 31"
    and "unat blksize \<le> 8 * length (mat_A p)" "unat blksize \<le> 8 * length (mat_B p)"
    and "unat memblk + unat blksize + 8 < 2 ^ 32"
  shows "\<exists>n p' A B C. core_init_matrix blksize memblk seed p = Some (p', A, B, C) \<and>
    mat_N p' = of_nat n \<and> 8 * n\<^sup>2 < unat blksize \<and> unat blksize \<le> 8 * (Suc n)\<^sup>2 \<and>
    unat C + 4 * n\<^sup>2 \<le> unat memblk + unat blksize + 2 \<and>
    (unat memblk + unat blksize < unat C + 4 * n\<^sup>2 \<longleftrightarrow> unat blksize < 8 * n\<^sup>2 + (4 - unat memblk mod 4) mod 4)"
proof -
  obtain n p' A B C where r: "core_init_matrix blksize memblk seed p = Some (p', A, B, C)" "mat_N p' = of_nat n"
    and n: "8 * n\<^sup>2 < unat blksize" "unat blksize \<le> 8 * (Suc n)\<^sup>2"
    and c: "unat A = (unat memblk + 3) div 4 * 4" "unat B = unat A + 2 * n\<^sup>2" "unat C = unat B + 2 * n\<^sup>2"
    using core_init_matrix_layout [OF assms] by auto
  define pad where "pad = (4 - unat memblk mod 4) mod 4"
  have "unat A = unat memblk + pad" unfolding c(1) pad_def by (rule align_padding)
  then have C: "unat C + 4 * n\<^sup>2 = unat memblk + pad + 8 * n\<^sup>2" using c(2,3) by simp
  have "pad \<le> 3" by (simp add: pad_def)
  then have "unat C + 4 * n\<^sup>2 \<le> unat memblk + unat blksize + 2" using C n(1) by linarith
  moreover have "unat memblk + unat blksize < unat C + 4 * n\<^sup>2 \<longleftrightarrow> unat blksize < 8 * n\<^sup>2 + pad" unfolding C by linarith
  ultimately show ?thesis using r n unfolding pad_def by blast
qed

theorem core_init_matrix_overrun_witness:
  "\<exists>p' A B C. core_init_matrix 201 0x10C9 0 \<lparr>mat_N = 0, mat_A = replicate 26 0, mat_B = replicate 26 0, mat_C = []\<rparr> = Some (p', A, B, C) \<and>
     unat (0x10C9 :: u32) + unat (201 :: u32) < unat C + 4 * 5\<^sup>2"
proof -
  let ?p = "\<lparr>mat_N = 0, mat_A = replicate 26 0, mat_B = replicate 26 0, mat_C = []\<rparr>"
  have "\<exists>n p' A B C. core_init_matrix 201 0x10C9 0 ?p = Some (p', A, B, C) \<and>
    mat_N p' = of_nat n \<and> 8 * n\<^sup>2 < unat (201 :: u32) \<and> unat (201 :: u32) \<le> 8 * (Suc n)\<^sup>2 \<and>
    unat C + 4 * n\<^sup>2 \<le> unat (0x10C9 :: u32) + unat (201 :: u32) + 2 \<and>
    (unat (0x10C9 :: u32) + unat (201 :: u32) < unat C + 4 * n\<^sup>2 \<longleftrightarrow> unat (201 :: u32) < 8 * n\<^sup>2 + (4 - unat (0x10C9 :: u32) mod 4) mod 4)"
    by (rule core_init_matrix_overrun) simp_all
  then obtain n p' A B C where r: "core_init_matrix 201 0x10C9 0 ?p = Some (p', A, B, C)"
    and n: "8 * n\<^sup>2 < unat (201 :: u32)" "unat (201 :: u32) \<le> 8 * (Suc n)\<^sup>2"
    and over: "unat (0x10C9 :: u32) + unat (201 :: u32) < unat C + 4 * n\<^sup>2 \<longleftrightarrow> unat (201 :: u32) < 8 * n\<^sup>2 + (4 - unat (0x10C9 :: u32) mod 4) mod 4"
    by blast
  have "n\<^sup>2 < 6\<^sup>2" "5\<^sup>2 < (Suc n)\<^sup>2" using n by simp_all
  then have "n < 6" "5 < Suc n" using power_less_imp_less_base by blast+
  then have "n = 5" by simp
  then show ?thesis using r over by auto
qed

theorem core_init_matrix_correct_witness:
  "\<exists>n p' A B C. core_init_matrix 9 0 5 \<lparr>mat_N = 0, mat_A = [0, 0], mat_B = [0, 0], mat_C = []\<rparr> = Some (p', A, B, C) \<and>
    mat_N p' = of_nat n \<and> 8 * n\<^sup>2 < unat (9 :: u32) \<and> unat (9 :: u32) \<le> 8 * (Suc n)\<^sup>2 \<and>
    unat A = (unat (0 :: u32) + 3) div 4 * 4 \<and> unat B = unat A + 2 * n\<^sup>2 \<and> unat C = unat B + 2 * n\<^sup>2 \<and>
    mat_B p' = fill (init_B (if (5 :: int) = 0 then 1 else 5)) (n\<^sup>2) (mat_B \<lparr>mat_N = 0, mat_A = [0, 0], mat_B = [0, 0], mat_C = []\<rparr>) \<and>
    mat_A p' = fill (init_A (if (5 :: int) = 0 then 1 else 5)) (n\<^sup>2) (mat_A \<lparr>mat_N = 0, mat_A = [0, 0], mat_B = [0, 0], mat_C = []\<rparr>)"
  by (rule core_init_matrix_correct) simp_all

end
