(* ===== verification/Coremark_ListBench.thy ===== *)
theory Coremark_ListBench
  imports Coremark_Sort Coremark_StateBench Coremark_Matrix
begin

unbundle bit_operations_syntax

text \<open>
  The list benchmark of \<^verbatim>\<open>core_list_join.c\<close> and the loop over it: \<^verbatim>\<open>calc_func\<close>, which runs the
  state-machine and the matrix benchmark, \<^verbatim>\<open>cmp_complex\<close>, \<^verbatim>\<open>cmp_idx\<close>, \<^verbatim>\<open>core_bench_list\<close>,
  \<^verbatim>\<open>core_list_init\<close>, and \<^verbatim>\<open>iterate\<close> of \<^verbatim>\<open>core_main.c\<close>.  The theorems show that the initialisation builds
  a sorted list, and that on a list whose indices differ every iteration returns and gives the
  list, its data, the state block and matrices A and B back as they were.
\<close>

section \<open>The results\<close>

record core_results =
  seed1 :: u16
  seed2 :: u16
  seed3 :: u16
  res_memblock3 :: "u8 list"
  res_size :: u32
  iterations :: u32
  res_list :: "nat option"
  res_mat :: mat_params
  res_crc :: u16
  crclist :: u16
  crcmatrix :: u16
  crcstate :: u16

section \<open>The comparisons\<close>

definition calc_value :: "u16 \<Rightarrow> core_results \<Rightarrow> (u16 \<times> core_results) option" where
  "calc_value data res =
     (let flag = data AND 0x7;
          dtype = drop_bit 3 data AND 0xf;
          dtype = dtype OR push_bit 4 dtype
      in if flag = 0 then do {
           let dtype = (if dtype < 0x22 then 0x22 else dtype);
           (retval, mem) \<leftarrow> core_bench_state (res_size res) (res_memblock3 res) (seed1 res) (seed2 res) dtype (res_crc res);
           let res = res\<lparr>res_memblock3 := mem\<rparr>;
           Some (retval, if crcstate res = 0 then res\<lparr>crcstate := retval\<rparr> else res)
         }
         else if flag = 1 then do {
           (retval, mat) \<leftarrow> core_bench_matrix (res_mat res) dtype (res_crc res);
           let res = res\<lparr>res_mat := mat\<rparr>;
           Some (retval, if crcmatrix res = 0 then res\<lparr>crcmatrix := retval\<rparr> else res)
         }
         else Some (data, res))"

definition calc_func :: "nat \<Rightarrow> datas \<times> core_results \<Rightarrow> (u16 \<times> datas \<times> core_results) option" where
  "calc_func pdata s =
     (let (D, res) = s; data = data16 (D pdata); optype = drop_bit 7 data AND 1
      in if optype \<noteq> 0 then Some (data AND 0x007f, D, res)
         else do {
           (retval, res) \<leftarrow> calc_value data res;
           let res = res\<lparr>res_crc := crcu16 retval (res_crc res)\<rparr>;
           let retval = retval AND 0x007f;
           Some (retval, D(pdata := (D pdata)\<lparr>data16 := (data AND 0xff00) OR 0x0080 OR retval\<rparr>), res)
         })"

text \<open>A null \<^verbatim>\<open>res\<close> is \<^const>\<open>None\<close>.\<close>

definition cmp_complex :: "(datas \<times> core_results option) list_cmp" where
  "cmp_complex a b s = do {
     let (D, res) = s;
     res \<leftarrow> res;
     (val1, D, res) \<leftarrow> calc_func a (D, res);
     (val2, D, res) \<leftarrow> calc_func b (D, res);
     Some (sint val1 - sint val2, D, Some res)
   }"

definition regen :: "nat \<Rightarrow> datas \<Rightarrow> datas" where
  "regen a D = D(a := (D a)\<lparr>data16 := (data16 (D a) AND 0xff00) OR (0x00ff AND drop_bit 8 (data16 (D a)))\<rparr>)"

definition cmp_idx :: "(datas \<times> core_results option) list_cmp" where
  "cmp_idx a b s =
     (let (D, res) = s; D = (if res = None then regen b (regen a D) else D)
      in Some (sint (idx (D a)) - sint (idx (D b)), D, res))"

section \<open>The benchmark\<close>

text \<open>
  The state of the search loop is \<^verbatim>\<open>(retval, found, missed, list, heads, info)\<close>.  The local variable
  \<^verbatim>\<open>info\<close> is uninitialised except for its index; \<^verbatim>\<open>stale\<close> is its indeterminate data field.
\<close>

definition bench_find :: "u16 \<Rightarrow> datas \<Rightarrow> u16 \<times> u16 \<times> u16 \<times> nat option \<times> heads \<times> list_data \<Rightarrow> (u16 \<times> u16 \<times> u16 \<times> nat option \<times> heads \<times> list_data) option" where
  "bench_find i D s = do {
     let (retval, found, missed, list, h, info) = s;
     let info = info\<lparr>data16 := i AND 0xff\<rparr>;
     this_find \<leftarrow> core_list_find h D list info;
     (list, h) \<leftarrow> core_list_reverse list h;
     (retval, found, missed, h) \<leftarrow>
       (case this_find of
          None \<Rightarrow> do {
            l \<leftarrow> list;
            n \<leftarrow> head_next (h l);
            Some (retval + (drop_bit 8 (data16 (D (head_info (h n)))) AND 1), found, missed + 1, h)
          }
        | Some f \<Rightarrow> do {
            let data = data16 (D (head_info (h f)));
            let retval = (if data AND 1 \<noteq> 0 then retval + (drop_bit 9 data AND 1) else retval);
            (case head_next (h f) of
               None \<Rightarrow> Some (retval, found + 1, missed, h)
             | Some finder \<Rightarrow> do {
                 l \<leftarrow> list;
                 let h = set_next f (head_next (h finder)) h;
                 let h = set_next finder (head_next (h l)) h;
                 let h = set_next l (Some finder) h;
                 Some (retval, found + 1, missed, h)
               })
          });
     Some (retval, found, missed, list, h, if 0 \<le> sint (idx info) then info\<lparr>idx := idx info + 1\<rparr> else info)
   }"

primrec bench_finds :: "nat \<Rightarrow> u16 \<Rightarrow> datas \<Rightarrow> u16 \<times> u16 \<times> u16 \<times> nat option \<times> heads \<times> list_data \<Rightarrow> (u16 \<times> u16 \<times> u16 \<times> nat option \<times> heads \<times> list_data) option" where
  "bench_finds 0 i D s = Some s"
| "bench_finds (Suc n) i D s = bench_find i D s \<bind> bench_finds n (i + 1) D"

text \<open>The two checksum loops: \<^verbatim>\<open>data\<close> is the data of the head, which they read in every step.\<close>

partial_function (option) bench_crc :: "heads \<Rightarrow> u16 \<Rightarrow> nat option \<Rightarrow> u16 \<Rightarrow> u16 option" where
  "bench_crc h data finder retval =
     (case finder of None \<Rightarrow> Some retval | Some f \<Rightarrow> bench_crc h data (head_next (h f)) (crc16 data retval))"

declare bench_crc.simps [code]

definition core_bench_list :: "u16 \<Rightarrow> heads \<Rightarrow> datas \<Rightarrow> core_results \<Rightarrow> u16 \<Rightarrow> (u16 \<times> heads \<times> datas \<times> core_results) option" where
  "core_bench_list stale h D res finder_idx = do {
     let find_num = sint (seed3 res);
     (retval, found, missed, list, h, info) \<leftarrow>
       bench_finds (nat find_num) 0 D (0, 0, 0, res_list res, h, \<lparr>data16 = stale, idx = finder_idx\<rparr>);
     let retval = retval + (found * 4 - missed);
     (list, h, D, ores) \<leftarrow> (if 0 < sint finder_idx then core_list_mergesort cmp_complex list h (D, Some res) else Some (list, h, D, Some res));
     res \<leftarrow> ores;
     l \<leftarrow> list;
     item \<leftarrow> head_next (h l);
     (remover, h) \<leftarrow> core_list_remove item h;
     finder \<leftarrow> core_list_find h D list info;
     let finder = (if finder = None then head_next (h l) else finder);
     retval \<leftarrow> bench_crc h (data16 (D (head_info (h l)))) finder retval;
     modified \<leftarrow> head_next (h l);
     let (remover, h) = core_list_undo_remove remover modified h;
     (list, h, D, _) \<leftarrow> core_list_mergesort cmp_idx list h (D, None);
     l \<leftarrow> list;
     retval \<leftarrow> bench_crc h (data16 (D (head_info (h l)))) (head_next (h l)) retval;
     Some (retval, h, D, res)
   }"

section \<open>The initialisation\<close>

definition init_insert :: "nat \<Rightarrow> u16 \<Rightarrow> nat \<Rightarrow> u32 \<Rightarrow> list_pool \<Rightarrow> list_pool" where
  "init_insert list seed sz i s =
     (let datpat = (seed XOR ucast i) AND 0xf;
          dat = push_bit 3 datpat OR (ucast i AND 0x7)
      in snd (core_list_insert_new list \<lparr>data16 = push_bit 8 dat OR dat, idx = 0x7fff\<rparr> sz sz s))"

partial_function (option) init_index :: "heads \<Rightarrow> u32 \<Rightarrow> u16 \<Rightarrow> u32 \<Rightarrow> nat \<Rightarrow> datas \<Rightarrow> datas option" where
  "init_index h sz seed i finder D =
     (case head_next (h finder) of
        None \<Rightarrow> Some D
      | Some n \<Rightarrow>
          (let d = head_info (h finder); i' = i + 1;
               idx' = (if i < sz div 5 then ucast i
                       else 0x3fff AND (push_bit 8 (ucast i' AND 0x07) OR (ucast i XOR seed)))
           in init_index h sz seed i' n (D(d := (D d)\<lparr>idx := idx'\<rparr>))))"

declare init_index.simps [code]

definition core_list_init :: "u32 \<Rightarrow> heads \<Rightarrow> datas \<Rightarrow> u16 \<Rightarrow> (nat option \<times> heads \<times> datas) option" where
  "core_list_init blksize h D seed = do {
     let per_item = 16 + 4;
     let sz = blksize div per_item - 2;
     let list = 0;
     let h = set_info list 0 (set_next list None h);
     let D = D(0 := (D 0)\<lparr>idx := 0x0000, data16 := 0x8080\<rparr>);
     let s = \<lparr>pool_heads = h, pool_datas = D, pool_memblock = 1, pool_datablock = 1\<rparr>;
     let s = snd (core_list_insert_new list \<lparr>data16 = 0xffff, idx = 0x7fff\<rparr> (unat sz) (unat sz) s);
     let s = fold (\<lambda>i. init_insert list seed (unat sz) (of_nat i)) [0..<unat sz] s;
     finder \<leftarrow> head_next (pool_heads s list);
     D \<leftarrow> init_index (pool_heads s) sz seed 1 finder (pool_datas s);
     (list, h, D, _) \<leftarrow> core_list_mergesort cmp_idx (Some list) (pool_heads s) (D, None);
     Some (list, h, D)
   }"

definition iterate_once :: "u16 \<Rightarrow> u32 \<Rightarrow> heads \<times> datas \<times> core_results \<Rightarrow> (heads \<times> datas \<times> core_results) option" where
  "iterate_once stale i s = do {
     let (h, D, res) = s;
     (crc, h, D, res) \<leftarrow> core_bench_list stale h D res 1;
     let res = res\<lparr>res_crc := crcu16 crc (res_crc res)\<rparr>;
     (crc, h, D, res) \<leftarrow> core_bench_list stale h D res (-1);
     let res = res\<lparr>res_crc := crcu16 crc (res_crc res)\<rparr>;
     Some (h, D, if i = 0 then res\<lparr>crclist := res_crc res\<rparr> else res)
   }"

definition iterate :: "u16 \<Rightarrow> heads \<Rightarrow> datas \<Rightarrow> core_results \<Rightarrow> (heads \<times> datas \<times> core_results) option" where
  "iterate stale h D res =
     for_loop 0 (iterations res) (iterate_once stale) (h, D, res\<lparr>res_crc := 0, crclist := 0, crcmatrix := 0, crcstate := 0\<rparr>)"
section \<open>The comparisons keep the contract\<close>

lemma regen_simps [simp]:
  "idx (regen a D d) = idx (D d)"
  by (simp add: regen_def)

interpretation idx_order: key_comparator cmp_idx "\<lambda>(D, res). res = None \<and> (\<forall>d. idx (D d) = I d)" "\<lambda>d. sint (I d)" for I
  by unfold_locales (auto simp: cmp_idx_def Let_def)

text \<open>The state block and the matrices are such that the two nested benchmarks return and restore them.\<close>

definition res_ok :: "core_results \<Rightarrow> bool" where
  "res_ok r \<longleftrightarrow>
     length (res_memblock3 r) = unat (res_size r) \<and>
     (\<exists>k. Suc k < length (res_memblock3 r) \<and> res_memblock3 r ! k = 0 \<and> res_memblock3 r ! Suc k = 0) \<and>
     ucast (seed1 r) = (ucast (seed2 r) :: u8) \<and>
     (\<forall>i < length (res_memblock3 r). res_memblock3 r ! i = 0x2C \<or> res_memblock3 r ! i XOR ucast (seed1 r) \<noteq> 0x2C) \<and>
     unat (mat_N (res_mat r)) < 2 ^ 16 \<and>
     (let n = unat (mat_N (res_mat r)) * unat (mat_N (res_mat r))
      in n \<le> length (mat_A (res_mat r)) \<and> n \<le> length (mat_B (res_mat r)) \<and> n \<le> length (mat_C (res_mat r)))"

text \<open>What a run may change: the result matrix and the checksums.\<close>

definition res_like :: "core_results \<Rightarrow> core_results \<Rightarrow> bool" where
  "res_like r0 r \<longleftrightarrow>
     seed1 r = seed1 r0 \<and> seed2 r = seed2 r0 \<and> seed3 r = seed3 r0 \<and> res_memblock3 r = res_memblock3 r0 \<and>
     res_size r = res_size r0 \<and> iterations r = iterations r0 \<and> res_list r = res_list r0 \<and>
     mat_N (res_mat r) = mat_N (res_mat r0) \<and> mat_A (res_mat r) = mat_A (res_mat r0) \<and>
     mat_B (res_mat r) = mat_B (res_mat r0) \<and> length (mat_C (res_mat r)) = length (mat_C (res_mat r0))"

lemma res_like_ok: "res_like r0 r \<Longrightarrow> res_ok r0 \<Longrightarrow> res_ok r"
proof -
  assume l: "res_like r0 r" and ok: "res_ok r0"
  have e: "seed1 r = seed1 r0" "seed2 r = seed2 r0" "res_memblock3 r = res_memblock3 r0" "res_size r = res_size r0" "mat_N (res_mat r) = mat_N (res_mat r0)"
    "mat_A (res_mat r) = mat_A (res_mat r0)" "mat_B (res_mat r) = mat_B (res_mat r0)" "length (mat_C (res_mat r)) = length (mat_C (res_mat r0))"
    using l by (simp_all only: res_like_def)
  show ?thesis using ok unfolding res_ok_def e .
qed

lemma res_like_refl [simp]: "res_like r r"
  by (simp add: res_like_def)

lemma res_like_trans: "res_like r0 r1 \<Longrightarrow> res_like r1 r2 \<Longrightarrow> res_like r0 r2"
  by (simp add: res_like_def)

lemma res_like_updates [simp]:
  "res_like r0 (r\<lparr>res_crc := c\<rparr>) = res_like r0 r" "res_like r0 (r\<lparr>crcstate := c\<rparr>) = res_like r0 r"
  "res_like r0 (r\<lparr>crcmatrix := c\<rparr>) = res_like r0 r" "res_like r0 (r\<lparr>crclist := c\<rparr>) = res_like r0 r"
  by (simp_all add: res_like_def)

lemma corruption_step:
  fixes dtype :: u16
  defines "d \<equiv> drop_bit 3 dtype AND 0xf"
  shows "1 < sint (if d OR push_bit 4 d < 0x22 then 0x22 else d OR push_bit 4 d)"
proof -
  let ?d = "d OR push_bit 4 d"
  have m: "(0xf :: u16) = mask 4" by (simp add: mask_eq_exp_minus_1)
  have "take_bit 8 ?d = ?d" unfolding d_def m by (rule bit_word_eqI) (auto simp: bit_simps)
  then have "uint ?d = uint ?d mod 2 ^ 8" by (metis uint_take)
  then have "uint ?d < 2 ^ 8" using pos_mod_bound [of "2 ^ 8" "uint ?d"] by simp
  then have s: "sint ?d = uint ?d" using signed_take_bit_int_eq_self [of 15 "uint ?d"] unsigned_greater_eq [of ?d, where ?'a = int] by (simp add: sint_uint)
  show ?thesis
  proof (cases "?d < 0x22")
    case False
    then have "34 \<le> uint ?d" by (simp add: word_less_def not_less)
    then show ?thesis using False s by simp
  qed simp
qed

lemma core_bench_state_ok:
  assumes "res_ok r" "1 < sint step"
  shows "\<exists>crc'. core_bench_state (res_size r) (res_memblock3 r) (seed1 r) (seed2 r) step crc = Some (crc', res_memblock3 r)"
proof -
  obtain k where k: "res_memblock3 r ! k = 0" "res_memblock3 r ! Suc k = 0" "Suc k < length (res_memblock3 r)"
    using assms(1) by (auto simp: res_ok_def)
  have "corrupted (ucast (seed2 r)) (nat (sint step)) 0 (corrupted (ucast (seed1 r)) (nat (sint step)) 0 (res_memblock3 r)) = res_memblock3 r"
  proof -
    have same: "ucast (seed2 r) = (ucast (seed1 r) :: u8)" using assms(1) by (simp add: res_ok_def)
    show ?thesis unfolding same using assms(1) by (intro corrupted_corrupted) (unfold res_ok_def, blast)
  qed
  moreover have "length (res_memblock3 r) = unat (res_size r)" using assms(1) unfolding res_ok_def by blast
  ultimately show ?thesis using core_bench_state_returns [OF _ k assms(2), of "res_size r" "seed1 r" "seed2 r" crc] by simp
qed

lemma core_bench_matrix_ok:
  assumes "res_ok r"
  shows "\<exists>crc' C. core_bench_matrix (res_mat r) seed crc = Some (crc', (res_mat r)\<lparr>mat_C := C\<rparr>) \<and> length C = length (mat_C (res_mat r))"
  using assms by (intro core_bench_matrix_returns) (auto simp: res_ok_def Let_def)

lemma calc_value_returns:
  assumes "res_ok r"
  shows "\<exists>v r'. calc_value data r = Some (v, r') \<and> res_like r r'"
proof -
  note step = corruption_step [of data]
  obtain c1 where st: "core_bench_state (res_size r) (res_memblock3 r) (seed1 r) (seed2 r)
      (if (drop_bit 3 data AND 0xf) OR push_bit 4 (drop_bit 3 data AND 0xf) < 0x22 then 0x22
       else (drop_bit 3 data AND 0xf) OR push_bit 4 (drop_bit 3 data AND 0xf)) (res_crc r) = Some (c1, res_memblock3 r)"
    using core_bench_state_ok [OF assms step] by blast
  obtain c2 C where mt: "core_bench_matrix (res_mat r) ((drop_bit 3 data AND 0xf) OR push_bit 4 (drop_bit 3 data AND 0xf)) (res_crc r) =
      Some (c2, (res_mat r)\<lparr>mat_C := C\<rparr>)" "length C = length (mat_C (res_mat r))"
    using core_bench_matrix_ok [OF assms] by blast
  show ?thesis unfolding calc_value_def Let_def
    using st mt by (auto simp: res_like_def)
qed

definition regen16 :: "u16 \<Rightarrow> u16" where
  "regen16 x = (x AND 0xff00) OR (0x00ff AND drop_bit 8 x)"

lemma data_masks: "(0xff00 :: u16) = push_bit 8 (mask 8)" "(0x00ff :: u16) = mask 8" "(0x007f :: u16) = mask 7" "(0x0080 :: u16) = push_bit 7 1"
  by (simp_all add: mask_eq_exp_minus_1)

lemma drop_bit_regen16: "drop_bit 8 (regen16 x) = drop_bit 8 x"
  unfolding regen16_def data_masks by (rule bit_word_eqI) (auto simp: bit_simps dest: bit_imp_le_length)

lemma drop_bit_cached: "drop_bit 8 ((x AND 0xff00) OR 0x0080 OR (v AND 0x007f)) = drop_bit 8 (x :: u16)"
  unfolding data_masks by (rule bit_word_eqI) (auto simp: bit_simps dest: bit_imp_le_length)

lemma regen16_cong:
  assumes "drop_bit 8 x = drop_bit 8 y"
  shows "regen16 x = regen16 y"
proof -
  have "x AND 0xff00 = push_bit 8 (drop_bit 8 x)" for x :: u16
    unfolding data_masks
  proof (rule bit_word_eqI)
    fix n :: nat
    assume n: "n < LENGTH(16)"
    have "8 + (n - 8) = n" if "8 \<le> n" using that by simp
    then show "bit (x AND push_bit 8 (mask 8)) n = bit (push_bit 8 (drop_bit 8 x)) n"
      using n by (cases "8 \<le> n") (auto simp: bit_simps)
  qed
  then show ?thesis unfolding regen16_def using assms by simp
qed

lemma regen16_idem: "regen16 (regen16 x) = regen16 x"
  by (rule regen16_cong) (rule drop_bit_regen16)

lemma regen_data: "data16 (regen a D d) = (if d = a then regen16 (data16 (D d)) else data16 (D d))"
  by (simp add: regen_def regen16_def)

text \<open>The data of two stores that only differ in the cached bytes.\<close>

definition datas_like :: "datas \<Rightarrow> datas \<Rightarrow> bool" where
  "datas_like D0 D \<longleftrightarrow> (\<forall>d. idx (D d) = idx (D0 d) \<and> drop_bit 8 (data16 (D d)) = drop_bit 8 (data16 (D0 d)))"

lemma datas_like_refl [simp]: "datas_like D D"
  by (simp add: datas_like_def)

lemma datas_like_trans: "datas_like D0 D1 \<Longrightarrow> datas_like D1 D2 \<Longrightarrow> datas_like D0 D2"
  by (simp add: datas_like_def)

lemma datas_like_update: "drop_bit 8 x = drop_bit 8 (data16 (D d)) \<Longrightarrow> datas_like D (D(d := (D d)\<lparr>data16 := x\<rparr>))"
  by (simp add: datas_like_def)

interpretation idx_mark: marking_comparator cmp_idx "\<lambda>(D, res). res = None \<and> datas_like D0 D" "\<lambda>(D, res) d. regen16 (data16 (D d)) = data16 (D d)" for D0
  by unfold_locales (auto simp: cmp_idx_def Let_def datas_like_def regen_data drop_bit_regen16 regen16_idem)

lemma calc_func_returns:
  assumes "res_ok r"
  shows "\<exists>v D' r'. calc_func d (D, r) = Some (v, D', r') \<and> datas_like D D' \<and> res_like r r'"
proof (cases "drop_bit 7 (data16 (D d)) AND 1 = 0")
  case True
  obtain v r' where "calc_value (data16 (D d)) r = Some (v, r')" "res_like r r'" using calc_value_returns [OF assms] by blast
  moreover have "datas_like D (D(d := (D d)\<lparr>data16 := (data16 (D d) AND 0xff00) OR 0x0080 OR (v AND 0x007f)\<rparr>))"
    by (rule datas_like_update) (rule drop_bit_cached)
  ultimately show ?thesis using True by (simp add: calc_func_def Let_def)
qed (simp add: calc_func_def)

interpretation complex_order: comparator cmp_complex "\<lambda>(D, res). datas_like D0 D \<and> (\<exists>r. res = Some r \<and> res_ok r \<and> res_like r0 r)" for D0 r0
proof unfold_locales
  fix s a b
  assume "case s of (D, res) \<Rightarrow> datas_like D0 D \<and> (\<exists>r. res = Some r \<and> res_ok r \<and> res_like r0 r)"
  then obtain D r where s: "s = (D, Some r)" "datas_like D0 D" "res_ok r" "res_like r0 r" by auto
  obtain v1 D1 r1 where c1: "calc_func a (D, r) = Some (v1, D1, r1)" "datas_like D D1" "res_like r r1"
    using calc_func_returns [OF s(3)] by blast
  obtain v2 D2 r2 where c2: "calc_func b (D1, r1) = Some (v2, D2, r2)" "datas_like D1 D2" "res_like r1 r2"
    using calc_func_returns [OF res_like_ok [OF c1(3) s(3)]] by blast
  have "datas_like D0 D2" "res_like r0 r2" "res_ok r2"
    using s(2,4) c1(2,3) c2(2,3) res_like_ok [OF _ s(3), of r2] by (blast intro: datas_like_trans res_like_trans)+
  then show "\<exists>ra s'. cmp_complex a b s = Some (ra, s') \<and> (case s' of (D, res) \<Rightarrow> datas_like D0 D \<and> (\<exists>r. res = Some r \<and> res_ok r \<and> res_like r0 r))"
    by (simp add: cmp_complex_def s(1) c1(1) c2(1))
qed

text \<open>The two sorts of the benchmark.\<close>

lemma mergesort_complex:
  assumes "is_list h p xs" "xs \<noteq> []" "res_ok r"
  shows "\<exists>ys h' D' r'. core_list_mergesort cmp_complex p h (D, Some r) = Some (Some (hd ys), h', D', Some r') \<and>
    is_list h' (Some (hd ys)) ys \<and> mset ys = mset xs \<and> same_info h h' (set xs) \<and> datas_like D D' \<and> res_like r r'"
  using complex_order.mergesort_returns [OF assms(1,2), of D r "(D, Some r)"] assms(3) by auto

lemma sorted_distinct_eq:
  assumes "mset ys = mset xs" "sorted (map k ys)" "sorted (map k xs)" "inj_on k (set xs)"
  shows "ys = xs"
proof -
  have "mset (map k ys) = mset (map k xs)" using assms(1) by simp
  then have "map k ys = map k xs" using assms(2,3) by (metis properties_for_sort)
  then show ?thesis using assms(4) mset_eq_setD [OF assms(1)] by (metis map_inj_on Un_absorb)
qed

lemma mergesort_idx:
  assumes "is_list h p xs" "2 \<le> length xs"
  shows "\<exists>ys h' D'. core_list_mergesort cmp_idx p h (D, None) = Some (Some (hd ys), h', D', None) \<and>
    is_list h' (Some (hd ys)) ys \<and> mset ys = mset xs \<and> same_info h h' (set xs) \<and> datas_like D D' \<and>
    sorted (map (\<lambda>a. sint (idx (D (head_info (h a))))) ys) \<and>
    (\<forall>a \<in> set xs. data16 (D' (head_info (h a))) = regen16 (data16 (D (head_info (h a)))))"
proof -
  have ne: "xs \<noteq> []" using assms(2) by auto
  obtain ys h' D' where r: "core_list_mergesort cmp_idx p h (D, None) = Some (Some (hd ys), h', D', None)"
    "is_list h' (Some (hd ys)) ys" "mset ys = mset xs" "same_info h h' (set xs)" "datas_like D D'"
    and s: "list_sort cmp_idx (\<lambda>a. head_info (h a)) 1 xs (D, None) = Some (ys, D', None)"
    using idx_mark.mergesort_returns [OF assms(1) ne, of D "(D, None)"] by auto
  have "sorted (map (\<lambda>a. sint (idx (D (head_info (h a))))) ys)"
    using idx_order.sort_sorted [OF s, of "\<lambda>d. idx (D d)"] sorted_runs_1 by simp
  moreover have "regen16 (data16 (D' (head_info (h a)))) = data16 (D' (head_info (h a)))" if "a \<in> set xs" for a
    using idx_mark.sort_marks [OF s, of D] marked_runs_1 assms(2) that by simp
  moreover have "regen16 (data16 (D' d)) = regen16 (data16 (D d))" for d
    using r(5) by (intro regen16_cong) (simp add: datas_like_def)
  ultimately show ?thesis using r by metis
qed

section \<open>The benchmark gives the list back\<close>

lemma same_info_seg_trans:
  "same_info h h' (set xs) \<Longrightarrow> same_info h' h'' (set ys) \<Longrightarrow> mset ys = mset xs \<Longrightarrow> same_info h h'' (set xs)"
  using same_info_trans [of h h' "set xs" h'' "set ys" "set xs"] mset_eq_setD by blast

lemma core_list_find_some:
  assumes "is_list h p xs"
  obtains tf where "core_list_find h D p info = Some tf" "\<And>f. tf = Some f \<Longrightarrow> f \<in> set xs"
proof -
  have "f \<in> set xs" if "List.find P xs = Some f" for P f using that by (auto simp: find_Some_iff)
  then show thesis using that core_list_find_list [OF assms, of D info] by blast
qed

lemma move_to_front:
  assumes "is_list h (Some l) (l # us @ f # g # vs)"
  shows "is_list (set_next l (Some g) (set_next g (head_next (h l)) (set_next f (head_next (h g)) h))) (Some l) (l # g # us @ f # vs)"
  using assms is_list_distinct [OF assms] by (auto simp: seg_append)

lemma bench_find_returns:
  assumes "is_list h list xs" "2 \<le> length xs"
  shows "\<exists>retval' found' missed' list' h' info' ys.
    bench_find i D (retval, found, missed, list, h, info) = Some (retval', found', missed', list', h', info') \<and>
    is_list h' list' ys \<and> mset ys = mset xs \<and> same_info h h' (set xs)"
proof -
  let ?info = "info\<lparr>data16 := i AND 0xff\<rparr>"
  obtain tf where tf: "core_list_find h D list ?info = Some tf" "\<And>f. tf = Some f \<Longrightarrow> f \<in> set xs"
    by (rule core_list_find_some [OF assms(1), of D ?info]) blast
  obtain list1 h1 where r: "core_list_reverse list h = Some (list1, h1)" "is_list h1 list1 (rev xs)" "same_info h h1 (set xs)"
    using core_list_reverse_list [OF assms(1)] unfolding same_info_def by blast
  obtain l n zs where l: "rev xs = l # n # zs" using assms(2) by (cases "rev xs"; cases "tl (rev xs)") (auto simp: Suc_le_eq)
  have ln: "list1 = Some l" "head_next (h1 l) = Some n" using r(2) l by auto
  have ms: "mset (rev xs) = mset xs" by simp
  show ?thesis
  proof (cases tf)
    case None
    then have "\<exists>a b c d. bench_find i D (retval, found, missed, list, h, info) = Some (a, b, c, list1, h1, d)"
      using tf(1) r(1) ln by (simp add: bench_find_def Let_def)
    then show ?thesis using r(2,3) ms by blast
  next
    case (Some f)
    then obtain us ws where uw: "rev xs = us @ f # ws" using tf(2) by (metis in_set_conv_decomp set_rev)
    show ?thesis
    proof (cases ws)
      case Nil
      then have "head_next (h1 f) = None" using r(2) uw by (auto simp: seg_append)
      then have "\<exists>a b c d. bench_find i D (retval, found, missed, list, h, info) = Some (a, b, c, list1, h1, d)"
        using tf(1) r(1) ln Some by (simp add: bench_find_def Let_def)
      then show ?thesis using r(2,3) ms by blast
    next
      case (Cons g vs)
      then have g: "head_next (h1 f) = Some g" using r(2) uw by (auto simp: seg_append)
      have dis: "distinct (rev xs)" by (rule is_list_distinct [OF r(2)])
      let ?h1 = "set_next f (head_next (h1 g)) h1"
      let ?h = "set_next l (Some g) (set_next g (head_next (?h1 l)) ?h1)"
      have "\<exists>ys. is_list ?h (Some l) ys \<and> mset ys = mset (rev xs)"
      proof (cases us)
        case Nil
        then have "l = f" using uw l by simp
        then have "is_list ?h (Some l) (rev xs)" using r(2) uw Cons Nil dis by auto
        then show ?thesis by blast
      next
        case (Cons u us')
        then have u: "u = l" "rev xs = l # us' @ f # g # vs" using uw l \<open>ws = g # vs\<close> by auto
        then have "is_list h1 (Some l) (l # us' @ f # g # vs)" using r(2) ln by simp
        from move_to_front [OF this] have "is_list ?h (Some l) (l # g # us' @ f # vs)" using u dis by simp
        then show ?thesis using u by (intro exI [of _ "l # g # us' @ f # vs"]) simp
      qed
      then obtain ys where ys: "is_list ?h (Some l) ys" "mset ys = mset xs" unfolding ms by blast
      have "f \<in> set xs" "g \<in> set xs" "l \<in> set xs" using arg_cong [OF uw, of set] Cons arg_cong [OF l, of set] by auto
      then have "same_info h1 ?h (set xs)" by (auto simp: same_info_def set_next_def)
      then have "same_info h ?h (set xs)" using same_info_trans [OF r(3)] by blast
      moreover have "\<exists>a b c d. bench_find i D (retval, found, missed, list, h, info) = Some (a, b, c, Some l, ?h, d)"
        using tf(1) r(1) ln(1) Some g by (simp add: bench_find_def Let_def)
      ultimately show ?thesis using ys by blast
    qed
  qed
qed

lemma bench_finds_returns:
  assumes "is_list h list xs" "2 \<le> length xs"
  shows "\<exists>retval' found' missed' list' h' info' ys.
    bench_finds n i D (retval, found, missed, list, h, info) = Some (retval', found', missed', list', h', info') \<and>
    is_list h' list' ys \<and> mset ys = mset xs \<and> same_info h h' (set xs)"
  using assms
proof (induction n arbitrary: i retval found missed list h info xs)
  case 0
  then show ?case by auto
next
  case (Suc n)
  obtain r f m list1 h1 info1 zs where z: "bench_find i D (retval, found, missed, list, h, info) = Some (r, f, m, list1, h1, info1)"
    "is_list h1 list1 zs" "mset zs = mset xs" "same_info h h1 (set xs)" using bench_find_returns [OF Suc.prems] by blast
  have "2 \<le> length zs" using Suc.prems(2) arg_cong [OF z(3), of size] by simp
  from Suc.IH [OF z(2) this] obtain r' f' m' list' h' info' ys where
    y: "bench_finds n (i + 1) D (r, f, m, list1, h1, info1) = Some (r', f', m', list', h', info')" "is_list h' list' ys" "mset ys = mset zs" "same_info h1 h' (set zs)"
    by blast
  have "same_info h h' (set xs)" by (rule same_info_seg_trans [OF z(4) y(4) z(3)])
  then show ?case using z(1,3) y by auto
qed

lemma bench_crc_list: "is_list h p xs \<Longrightarrow> bench_crc h data p retval = Some (fold (\<lambda>_. crc16 data) xs retval)"
  by (induction xs arbitrary: p retval) (auto simp: bench_crc.simps)

lemma is_list_from: "is_list h p xs \<Longrightarrow> a \<in> set xs \<Longrightarrow> \<exists>ys. is_list h (Some a) ys"
proof -
  assume "is_list h p xs" "a \<in> set xs"
  then obtain us vs where "is_list h p (us @ a # vs)" by (auto simp: in_set_conv_decomp)
  then have "is_list h (Some a) (a # vs)" by (auto simp: seg_append)
  then show ?thesis by blast
qed

lemma core_list_undo_remove_eq:
  assumes "head_next (h item) = Some r" "item \<noteq> r"
  shows "core_list_undo_remove r item (snd (the (core_list_remove item h))) = (r, h)"
  using assms core_list_remove_eq [of h item r]
  by (simp add: core_list_undo_remove_def set_info_def set_next_def Let_def fun_eq_iff)

lemma remove_find_undo:
  assumes "is_list h (Some l) (l # item # b # ws)"
  shows "\<exists>h' finder r. core_list_remove item h = Some (b, h') \<and> core_list_find h' D (Some l) info = Some finder \<and>
    bench_crc h' (data16 (D (head_info (h' l)))) (if finder = None then head_next (h' l) else finder) retval = Some r \<and>
    head_next (h' l) = Some item \<and> core_list_undo_remove b item h' = (b, h)"
proof -
  have d: "distinct (l # item # b # ws)" by (rule is_list_distinct [OF assms])
  have n: "head_next (h item) = Some b" "item \<noteq> b" using assms d by auto
  obtain h' where h': "core_list_remove item h = Some (b, h')" "is_list h' (Some l) ([l] @ item # ws)"
    using core_list_remove_list [of h "Some l" "[l]" item b ws] assms by auto
  have undo: "core_list_undo_remove b item h' = (b, h)" using core_list_undo_remove_eq [of h item b, OF n] h'(1) by simp
  have next_l: "head_next (h' l) = Some item" using h'(2) by simp
  obtain tf where tf: "core_list_find h' D (Some l) info = Some tf" "\<And>f. tf = Some f \<Longrightarrow> f \<in> set ([l] @ item # ws)"
    by (rule core_list_find_some [OF h'(2), of D info]) blast
  have "\<exists>f. (if tf = None then head_next (h' l) else tf) = Some f \<and> f \<in> set ([l] @ item # ws)"
    using tf(2) next_l by (cases tf) auto
  then obtain vs where "is_list h' (if tf = None then head_next (h' l) else tf) vs" using is_list_from [OF h'(2)] by metis
  from bench_crc_list [OF this] show ?thesis using h'(1) tf(1) next_l undo by blast
qed

lemma core_bench_list_returns:
  assumes "is_list h (res_list res) xs" "3 \<le> length xs" "res_ok res"
  shows "\<exists>retval h' D' res' ys. core_bench_list stale h D res finder_idx = Some (retval, h', D', res') \<and>
    is_list h' (Some (hd ys)) ys \<and> mset ys = mset xs \<and> same_info h h' (set xs) \<and> datas_like D D' \<and> res_like res res' \<and>
    sorted (map (\<lambda>a. sint (idx (D (head_info (h a))))) ys) \<and>
    (\<forall>a \<in> set xs. data16 (D' (head_info (h a))) = regen16 (data16 (D (head_info (h a)))))"
proof -
  have two: "2 \<le> length xs" using assms(2) by simp
  let ?s0 = "(0, 0, 0, res_list res, h, \<lparr>data16 = stale, idx = finder_idx\<rparr>)"
  obtain r f m list1 h1 info zs where z: "bench_finds (nat (sint (seed3 res))) 0 D ?s0 = Some (r, f, m, list1, h1, info)"
    "is_list h1 list1 zs" "mset zs = mset xs" "same_info h h1 (set xs)"
    using bench_finds_returns [OF assms(1) two, of "nat (sint (seed3 res))" 0 D 0 0 0 "\<lparr>data16 = stale, idx = finder_idx\<rparr>"] by blast
  have lz: "length zs = length xs" using arg_cong [OF z(3), of size] by simp
  obtain list2 h2 D2 res2 ws where w: "(if 0 < sint finder_idx then core_list_mergesort cmp_complex list1 h1 (D, Some res) else Some (list1, h1, D, Some res)) =
      Some (list2, h2, D2, Some res2)" "is_list h2 list2 ws" "mset ws = mset zs" "same_info h1 h2 (set zs)" "datas_like D D2" "res_like res res2"
  proof (cases "0 < sint finder_idx")
    case True
    have "zs \<noteq> []" using lz assms(2) by auto
    then obtain ws h2 D2 r2 where "core_list_mergesort cmp_complex list1 h1 (D, Some res) = Some (Some (hd ws), h2, D2, Some r2)"
      "is_list h2 (Some (hd ws)) ws" "mset ws = mset zs" "same_info h1 h2 (set zs)" "datas_like D D2" "res_like res r2"
      using mergesort_complex [OF z(2) _ assms(3), of D] by blast
    then show ?thesis using True that [of "Some (hd ws)" h2 D2 r2 ws] by simp
  next
    case False
    then show ?thesis using that z(2) by simp
  qed
  have lw: "length ws = length xs" using arg_cong [OF w(3), of size] lz by simp
  obtain l item b vs where ws: "ws = l # item # b # vs"
    using assms(2) lw by (metis Suc_le_length_iff numeral_3_eq_3)
  have l: "list2 = Some l" "head_next (h2 l) = Some item" using w(2) ws by auto
  have lst: "is_list h2 (Some l) (l # item # b # vs)" using w(2) l ws by simp
  obtain h3 finder r1 where u: "core_list_remove item h2 = Some (b, h3)" "core_list_find h3 D2 (Some l) info = Some finder"
    "bench_crc h3 (data16 (D2 (head_info (h3 l)))) (if finder = None then head_next (h3 l) else finder) (r + (f * 4 - m)) = Some r1"
    "head_next (h3 l) = Some item" "core_list_undo_remove b item h3 = (b, h2)"
    using remove_find_undo [OF lst, of D2 info "r + (f * 4 - m)"] by blast
  obtain ys h4 D4 where y: "core_list_mergesort cmp_idx (Some l) h2 (D2, None) = Some (Some (hd ys), h4, D4, None)"
    "is_list h4 (Some (hd ys)) ys" "mset ys = mset ws" "same_info h2 h4 (set ws)" "datas_like D2 D4"
    "sorted (map (\<lambda>a. sint (idx (D2 (head_info (h2 a))))) ys)"
    "\<forall>a \<in> set ws. data16 (D4 (head_info (h2 a))) = regen16 (data16 (D2 (head_info (h2 a))))"
    using mergesort_idx [OF lst, of D2] ws by auto
  have "ys \<noteq> []" using arg_cong [OF y(3), of size] ws by auto
  then have "is_list h4 (head_next (h4 (hd ys))) (tl ys)" using y(2) by (cases ys) auto
  then obtain r2 where r2: "bench_crc h4 (data16 (D4 (head_info (h4 (hd ys))))) (head_next (h4 (hd ys))) r1 = Some r2" by (metis bench_crc_list)
  have run: "core_bench_list stale h D res finder_idx = Some (r2, h4, D4, res2)"
    unfolding core_bench_list_def Let_def z(1) by (simp add: w(1) l u y(1) r2)
  have si: "same_info h h2 (set xs)" by (rule same_info_seg_trans [OF z(4) w(4) z(3)])
  have si4: "same_info h h4 (set xs)" by (rule same_info_seg_trans [OF si y(4)]) (simp add: w(3) z(3))
  have info: "head_info (h2 a) = head_info (h a)" for a using si by (simp add: same_info_def)
  have idx: "idx (D2 d) = idx (D d)" "regen16 (data16 (D2 d)) = regen16 (data16 (D d))" for d
    using w(5) by (auto simp: datas_like_def intro: regen16_cong)
  have "set ws = set xs" using mset_eq_setD [of ws xs] w(3) z(3) by simp
  then show ?thesis using run y(2,3,6,7) si4 datas_like_trans [OF w(5) y(5)] w(3,6) z(3) by (simp add: info idx) blast
qed

abbreviation node_key :: "heads \<Rightarrow> datas \<Rightarrow> nat \<Rightarrow> int" where
  "node_key h D a \<equiv> sint (idx (D (head_info (h a))))"

definition list_ready :: "heads \<Rightarrow> datas \<Rightarrow> core_results \<Rightarrow> nat list \<Rightarrow> bool" where
  "list_ready h D res xs \<longleftrightarrow>
     is_list h (res_list res) xs \<and> 3 \<le> length xs \<and> sorted (map (node_key h D) xs) \<and> inj_on (node_key h D) (set xs) \<and>
     (\<forall>a \<in> set xs. regen16 (data16 (D (head_info (h a)))) = data16 (D (head_info (h a)))) \<and> res_ok res"

lemma list_ready_like: "res_like res r \<Longrightarrow> list_ready h D res xs \<Longrightarrow> list_ready h D r xs"
  using res_like_ok [of res r] by (simp add: list_ready_def res_like_def)

lemma is_list_next_eq: "is_list h p xs \<Longrightarrow> is_list h' p xs \<Longrightarrow> a \<in> set xs \<Longrightarrow> head_next (h a) = head_next (h' a)"
proof (induction xs arbitrary: p)
  case (Cons b xs)
  have "head_next (h b) = head_next (h' b)" using Cons.prems(1,2) by (cases xs) auto
  then show ?case using Cons by (cases "a = b") auto
qed simp

lemma same_heads:
  assumes "is_list h p xs" "is_list h' p xs" "same_info h h' (set xs)"
  shows "h' = h"
proof
  fix a
  show "h' a = h a"
  proof (cases "a \<in> set xs")
    case True
    then show ?thesis using is_list_next_eq [OF assms(1,2)] assms(3) by (intro list_head.equality) (auto simp: same_info_def)
  next
    case False
    then show ?thesis using assms(3) by (simp add: same_info_def)
  qed
qed

lemma core_bench_list_keeps:
  assumes "list_ready h D res xs"
  shows "\<exists>retval D' res'. core_bench_list stale h D res finder_idx = Some (retval, h, D', res') \<and> list_ready h D' res' xs \<and>
    (\<forall>a \<in> set xs. D' (head_info (h a)) = D (head_info (h a))) \<and> res_like res res'"
proof -
  have r: "is_list h (res_list res) xs" "3 \<le> length xs" "sorted (map (node_key h D) xs)" "inj_on (node_key h D) (set xs)"
    "\<And>a. a \<in> set xs \<Longrightarrow> regen16 (data16 (D (head_info (h a)))) = data16 (D (head_info (h a)))" "res_ok res"
    using assms by (simp_all add: list_ready_def)
  obtain retval h' D' res' ys where b: "core_bench_list stale h D res finder_idx = Some (retval, h', D', res')"
    "is_list h' (Some (hd ys)) ys" "mset ys = mset xs" "same_info h h' (set xs)" "datas_like D D'" "res_like res res'"
    "sorted (map (node_key h D) ys)" "\<forall>a \<in> set xs. data16 (D' (head_info (h a))) = regen16 (data16 (D (head_info (h a))))"
    using core_bench_list_returns [OF r(1,2,6), of stale D finder_idx] by blast
  have ys: "ys = xs" by (rule sorted_distinct_eq [OF b(3,7) r(3,4)])
  have "res_list res = Some (hd xs)" using r(1,2) by (cases xs) auto
  then have h: "h' = h" using same_heads [OF r(1) _ b(4)] b(2) ys by simp
  have D: "D' (head_info (h a)) = D (head_info (h a))" if "a \<in> set xs" for a
    using b(5,8) r(5) that by (intro list_data.equality) (auto simp: datas_like_def)
  have k: "node_key h D' = node_key h D" using b(5) by (simp add: datas_like_def)
  have "list_ready h D' res' xs" unfolding list_ready_def k using r D b(6) res_like_ok [OF b(6) r(6)] by (simp add: res_like_def)
  then show ?thesis using b(1,6) h D by blast
qed

lemma for_loop_invariant:
  assumes "P s" "\<And>i s. P s \<Longrightarrow> \<exists>s'. body i s = Some s' \<and> P s'"
  shows "\<exists>s'. for_loop i n body s = Some s' \<and> P s'"
  using assms
proof (induction i n body s rule: for_loop.induct)
  case (1 i n body s)
  show ?case
  proof (cases "i < n")
    case True
    obtain t where t: "body i s = Some t" "P t" using "1.prems" by blast
    then show ?thesis using "1.IH" [OF True t(1)] "1.prems"(2) True by (subst for_loop.simps) simp
  next
    case False
    then show ?thesis using "1.prems"(1) by (subst for_loop.simps) simp
  qed
qed

lemma iterate_once_keeps:
  assumes "list_ready h D res xs"
  shows "\<exists>D' res'. iterate_once stale i (h, D, res) = Some (h, D', res') \<and> list_ready h D' res' xs \<and>
    (\<forall>a \<in> set xs. D' (head_info (h a)) = D (head_info (h a))) \<and> res_like res res'"
proof -
  have crc: "list_ready h D (r\<lparr>res_crc := c\<rparr>) xs = list_ready h D r xs" "list_ready h D (r\<lparr>crclist := c\<rparr>) xs = list_ready h D r xs" for D r c
    by (simp_all add: list_ready_def res_ok_def Let_def)
  obtain c1 D1 r1 where s1: "core_bench_list stale h D res 1 = Some (c1, h, D1, r1)" "list_ready h D1 r1 xs"
    "\<forall>a \<in> set xs. D1 (head_info (h a)) = D (head_info (h a))" "res_like res r1" using core_bench_list_keeps [OF assms] by blast
  let ?r1 = "r1\<lparr>res_crc := crcu16 c1 (res_crc r1)\<rparr>"
  have "list_ready h D1 ?r1 xs" using s1(2) crc by simp
  from core_bench_list_keeps [OF this] obtain c2 D2 r2 where s2: "core_bench_list stale h D1 ?r1 (- 1) = Some (c2, h, D2, r2)" "list_ready h D2 r2 xs"
    "\<forall>a \<in> set xs. D2 (head_info (h a)) = D1 (head_info (h a))" "res_like ?r1 r2" by blast
  have "res_like r1 r2" using s2(4) by (simp add: res_like_def)
  then have "res_like res r2" using res_like_trans [OF s1(4)] by blast
  then show ?thesis using s1 s2 crc by (simp add: iterate_once_def Let_def)
qed

text \<open>C26. A run of the benchmark returns, whatever the number of iterations: on a ready list (indices sorted and distinct, each low data byte equal to its backup) with a restorable state block and matrices that fit their arrays, iterate ends without a null dereference or an access outside of a block, and leaves links, data, state block and matrices A and B as they were.\<close>

theorem iterate_correct:
  assumes "list_ready h D res xs"
  shows "\<exists>D' res'. iterate stale h D res = Some (h, D', res') \<and> list_ready h D' res' xs \<and>
    (\<forall>a \<in> set xs. D' (head_info (h a)) = D (head_info (h a))) \<and> res_like res res'"
proof -
  let ?P = "\<lambda>(h', D', res'). h' = h \<and> list_ready h D' res' xs \<and> (\<forall>a \<in> set xs. D' (head_info (h a)) = D (head_info (h a))) \<and> res_like res res'"
  let ?res = "res\<lparr>res_crc := 0, crclist := 0, crcmatrix := 0, crcstate := 0\<rparr>"
  have "?P (h, D, ?res)" using list_ready_like [OF _ assms, of ?res] by simp
  moreover have "\<exists>s'. iterate_once stale i s = Some s' \<and> ?P s'" if P: "?P s" for i s
  proof -
    obtain D1 r1 where s: "s = (h, D1, r1)" "list_ready h D1 r1 xs" "\<forall>a \<in> set xs. D1 (head_info (h a)) = D (head_info (h a))" "res_like res r1"
      using P by (cases s) auto
    show ?thesis using iterate_once_keeps [OF s(2), of stale i] s res_like_trans [OF s(4)] by fastforce
  qed
  ultimately show ?thesis unfolding iterate_def
    using for_loop_invariant [of ?P "(h, D, ?res)" "iterate_once stale" 0 "iterations res"] by fastforce
qed

section \<open>The initialisation builds a sorted list\<close>

definition pool_ok :: "nat \<Rightarrow> list_pool \<Rightarrow> bool" where
  "pool_ok m s \<longleftrightarrow> 0 < m \<and> pool_memblock s = m \<and> pool_datablock s = m \<and> is_list (pool_heads s) (Some 0) (0 # rev [1..<m]) \<and>
     (\<forall>a < m. head_info (pool_heads s a) = a \<and> regen16 (data16 (pool_datas s a)) = data16 (pool_datas s a))"

lemma insert_new_pool_ok:
  assumes "pool_ok m s" "regen16 (data16 info) = data16 info"
  shows "pool_ok (if m + 1 < sz then m + 1 else m) (snd (core_list_insert_new 0 info sz sz s))"
proof (cases "m + 1 < sz")
  case True
  have m: "m \<notin> set (0 # rev [1..<m])" "0 < m" using assms(1) by (auto simp: pool_ok_def)
  have "is_list (pool_heads s) (Some 0) (0 # rev [1..<m])" using assms(1) by (simp add: pool_ok_def)
  then have l: "is_list (pool_heads s) (head_next (pool_heads s 0)) (rev [1..<m])" by simp
  let ?h = "set_info m m (set_next 0 (Some m) (set_next m (head_next (pool_heads s 0)) (pool_heads s)))"
  have "is_list ?h (Some 0) (0 # m # rev [1..<m])"
  proof -
    have "seg ?h p (rev [1..<m]) None = seg (pool_heads s) p (rev [1..<m]) None" for p
      using m by (intro seg_cong) auto
    then show ?thesis using l m by simp
  qed
  moreover have "rev [1..<m + 1] = m # rev [1..<m]" using m(2) by simp
  ultimately show ?thesis using True assms m
    by (auto simp: pool_ok_def core_list_insert_new_def Let_def copy_info_def less_Suc_eq)
next
  case False
  then show ?thesis using assms(1) by (auto simp: pool_ok_def core_list_insert_new_def)
qed

lemma regen16_pair: "regen16 (push_bit 8 dat OR dat) = push_bit 8 dat OR dat" if "take_bit 8 dat = dat"
proof -
  have hi: "\<not> bit dat n" if "8 \<le> n" for n
    using \<open>take_bit 8 dat = dat\<close> that by (metis bit_take_bit_iff not_less)
  show ?thesis unfolding regen16_def data_masks
    by (rule bit_word_eqI) (auto simp: bit_simps hi not_less dest: hi bit_imp_le_length)
qed

lemma init_insert_pool_ok:
  assumes "pool_ok m s"
  shows "pool_ok (if m + 1 < sz then m + 1 else m) (init_insert 0 seed sz i s)"
proof -
  let ?dat = "push_bit 3 ((seed XOR ucast i) AND 0xf) OR (ucast i AND 0x7) :: u16"
  have m: "(0xf :: u16) = mask 4" "(0x7 :: u16) = mask 3" by (simp_all add: mask_eq_exp_minus_1)
  have "take_bit 8 ?dat = ?dat" unfolding m by (rule bit_word_eqI) (auto simp: bit_simps)
  then have "regen16 (data16 \<lparr>data16 = push_bit 8 ?dat OR ?dat, idx = 0x7fff\<rparr>) = data16 \<lparr>data16 = push_bit 8 ?dat OR ?dat, idx = 0x7fff\<rparr>"
    unfolding list_data.simps by (rule regen16_pair)
  from insert_new_pool_ok [OF assms this] show ?thesis unfolding init_insert_def Let_def .
qed

lemma init_inserts_pool_ok:
  assumes "pool_ok m s" "m < sz"
  shows "pool_ok (min (m + n) (sz - 1)) (fold (\<lambda>i. init_insert 0 seed sz (of_nat i)) [0..<n] s)"
proof (induction n)
  case 0
  then show ?case using assms by (simp add: min_absorb1)
next
  case (Suc n)
  have "(if min (m + n) (sz - 1) + 1 < sz then min (m + n) (sz - 1) + 1 else min (m + n) (sz - 1)) = min (m + Suc n) (sz - 1)"
    using assms(2) by (auto simp: min_def)
  then show ?case using init_insert_pool_ok [OF Suc, of sz seed "of_nat n"] by simp
qed

lemma init_index_returns:
  "is_list h (Some f) (f # fs) \<Longrightarrow> \<exists>D'. init_index h sz seed i f D = Some D' \<and> (\<forall>d. data16 (D' d) = data16 (D d))"
proof (induction fs arbitrary: f i D)
  case Nil
  then show ?case by (subst init_index.simps) simp
next
  case (Cons g gs)
  then have "head_next (h f) = Some g" "is_list h (Some g) (g # gs)" by auto
  then have n: "head_next (h f) = Some g" and IH: "\<And>D i. \<exists>D'. init_index h sz seed i g D = Some D' \<and> (\<forall>d. data16 (D' d) = data16 (D d))"
    using Cons.IH by blast+
  let ?D = "D(head_info (h f) := (D (head_info (h f)))\<lparr>idx :=
      if i < sz div 5 then ucast i else 0x3fff AND (push_bit 8 (ucast (i + 1) AND 0x07) OR (ucast i XOR seed))\<rparr>)"
  have "init_index h sz seed i f D = init_index h sz seed (i + 1) g ?D"
    by (subst init_index.simps) (simp add: n Let_def)
  moreover have "data16 (?D d) = data16 (D d)" for d by simp
  ultimately show ?case using IH [of "i + 1" ?D] by metis
qed

text \<open>C30. For blocks of at least 120 bytes core_list_init builds a list of all the cells its guards allow (blksize / 20 - 3), sorted by index, each with its own data item whose low byte equals its backup byte.\<close>

theorem core_list_init_correct:
  assumes "120 \<le> unat blksize"
  shows "\<exists>ys h' D'. core_list_init blksize h D seed = Some (Some (hd ys), h', D') \<and> is_list h' (Some (hd ys)) ys \<and>
    mset ys = mset [0..<unat blksize div 20 - 3] \<and> sorted (map (node_key h' D') ys) \<and>
    (\<forall>a \<in> set ys. head_info (h' a) = a \<and> regen16 (data16 (D' a)) = data16 (D' a))"
proof -
  let ?sz = "blksize div 20 - 2"
  have d: "unat (blksize div 20) = unat blksize div 20" by (simp add: unat_div)
  have "6 \<le> unat blksize div 20" using div_le_mono [OF assms, of 20] by simp
  then have sz: "unat ?sz = unat blksize div 20 - 2" "4 \<le> unat ?sz"
    using d by (simp_all add: unat_sub word_le_nat_alt)
  have per_item: "(16 :: u32) + 4 = 20" by simp
  let ?h = "set_info 0 0 (set_next 0 None h)" and ?D = "D(0 := (D 0)\<lparr>idx := 0x0000, data16 := 0x8080\<rparr>)"
  let ?s = "\<lparr>pool_heads = ?h, pool_datas = ?D, pool_memblock = 1, pool_datablock = 1\<rparr>"
  have "pool_ok 1 ?s" by (simp add: pool_ok_def regen16_def)
  from insert_new_pool_ok [OF this, of "\<lparr>data16 = 0xffff, idx = 0x7fff\<rparr>" "unat ?sz"]
  have "pool_ok (1 + 1) (snd (core_list_insert_new 0 \<lparr>data16 = 0xffff, idx = 0x7fff\<rparr> (unat ?sz) (unat ?sz) ?s))"
    using sz(2) by (simp add: regen16_def)
  from init_inserts_pool_ok [OF this, of "unat ?sz" "unat ?sz" seed] obtain s where
    s: "fold (\<lambda>i. init_insert 0 seed (unat ?sz) (of_nat i)) [0..<unat ?sz] (snd (core_list_insert_new 0 \<lparr>data16 = 0xffff, idx = 0x7fff\<rparr> (unat ?sz) (unat ?sz) ?s)) = s"
    and ok: "pool_ok (unat ?sz - 1) s" using sz(2) by (simp add: min_absorb2)
  let ?m = "unat ?sz - 1"
  have l: "is_list (pool_heads s) (Some 0) (0 # rev [1..<?m])" and a: "\<And>a. a < ?m \<Longrightarrow> head_info (pool_heads s a) = a \<and> regen16 (data16 (pool_datas s a)) = data16 (pool_datas s a)"
    using ok by (auto simp: pool_ok_def)
  have "rev [1..<?m] \<noteq> []" using sz(2) by simp
  then obtain f fs where ff: "rev [1..<?m] = f # fs" by (meson neq_Nil_conv)
  then have f: "head_next (pool_heads s 0) = Some f" "is_list (pool_heads s) (Some f) (f # fs)" using l by auto
  obtain D1 where D1: "init_index (pool_heads s) ?sz seed 1 f (pool_datas s) = Some D1" "\<And>d. data16 (D1 d) = data16 (pool_datas s d)"
    using init_index_returns [OF f(2)] by blast
  have "2 \<le> length (0 # rev [1..<?m])" using sz(2) by simp
  from mergesort_idx [OF l this, of D1] obtain ys h' D' where y: "core_list_mergesort cmp_idx (Some 0) (pool_heads s) (D1, None) = Some (Some (hd ys), h', D', None)"
    "is_list h' (Some (hd ys)) ys" "mset ys = mset (0 # rev [1..<?m])" "same_info (pool_heads s) h' (set (0 # rev [1..<?m]))" "datas_like D1 D'"
    "sorted (map (node_key (pool_heads s) D1) ys)"
    "\<forall>a \<in> set (0 # rev [1..<?m]). data16 (D' (head_info (pool_heads s a))) = regen16 (data16 (D1 (head_info (pool_heads s a))))" by blast
  have k: "node_key h' D' = node_key (pool_heads s) D1" using y(4,5) by (simp add: same_info_def datas_like_def)
  have "[0..<?m] = 0 # [1..<?m]" using sz(2) by (simp add: upt_conv_Cons)
  then have ms: "mset ys = mset [0..<?m]" unfolding y(3) by (simp only: mset.simps mset_rev)
  have set: "set ys = {0..<?m}" using mset_eq_setD [OF ms] by simp
  have set': "set (0 # rev [1..<?m]) = {0..<?m}" using mset_eq_setD [OF y(3)] set by simp
  have "head_info (h' a) = a \<and> regen16 (data16 (D' a)) = data16 (D' a)" if "a \<in> set ys" for a
  proof -
    have m: "a \<in> set (0 # rev [1..<?m])" "a < ?m" using that set set' by auto
    have i: "head_info (h' a) = head_info (pool_heads s a)" using y(4) by (simp only: same_info_def)
    have "data16 (D' a) = regen16 (data16 (D1 a))" using bspec [OF y(7) m(1)] a [OF m(2)] by simp
    then show ?thesis using i a [OF m(2)] regen16_idem by simp
  qed
  moreover have "core_list_init blksize h D seed = Some (Some (hd ys), h', D')"
    unfolding core_list_init_def Let_def per_item s f(1) by (simp add: D1(1) y(1))
  moreover have "?m = unat blksize div 20 - 3" using sz(1) by simp
  ultimately show ?thesis using y(2,6) ms unfolding k [symmetric] by (intro exI [of _ ys] exI [of _ h'] exI [of _ D']) simp
qed

section \<open>The contract of the list benchmark\<close>

text \<open>A small list that the benchmark can run on.\<close>

definition sample_heads :: heads where
  "sample_heads = (\<lambda>a. \<lparr>head_next = if a < 2 then Some (a + 1) else None, head_info = a\<rparr>)"

definition sample_datas :: datas where
  "sample_datas = (\<lambda>d. \<lparr>data16 = 0x8080, idx = of_nat d\<rparr>)"

definition sample_results :: core_results where
  "sample_results = \<lparr>seed1 = 0, seed2 = 0, seed3 = 3, res_memblock3 = [0, 0], res_size = 2, iterations = 2, res_list = Some 0,
     res_mat = \<lparr>mat_N = 0, mat_A = [], mat_B = [], mat_C = []\<rparr>, res_crc = 0, crclist = 0, crcmatrix = 0, crcstate = 0\<rparr>"

lemma sample_ready: "list_ready sample_heads sample_datas sample_results [0, 1, 2]"
proof -
  have "res_ok sample_results" by (simp add: res_ok_def sample_results_def)
  moreover have "regen16 0x8080 = 0x8080" by (simp add: regen16_def)
  ultimately show ?thesis by (simp add: list_ready_def sample_heads_def sample_datas_def, simp add: sample_results_def)
qed

text \<open>C29. Sorting with cmp_idx returns for every list of at least two cells a permutation sorted by index, and restores the low data byte of every cell from its backup, because every cell takes part in at least one comparison.\<close>

theorem core_list_mergesort_idx_correct:
  assumes "is_list h p xs" "2 \<le> length xs"
  shows "\<exists>ys h' D'. core_list_mergesort cmp_idx p h (D, None) = Some (Some (hd ys), h', D', None) \<and>
    is_list h' (Some (hd ys)) ys \<and> mset ys = mset xs \<and> sorted (map (node_key h' D') ys) \<and>
    (\<forall>a. head_info (h' a) = head_info (h a)) \<and>
    (\<forall>a \<in> set xs. data16 (D' (head_info (h a))) = regen16 (data16 (D (head_info (h a)))))"
proof -
  obtain ys h' D' where y: "core_list_mergesort cmp_idx p h (D, None) = Some (Some (hd ys), h', D', None)"
    "is_list h' (Some (hd ys)) ys" "mset ys = mset xs" "same_info h h' (set xs)" "datas_like D D'" "sorted (map (node_key h D) ys)"
    "\<forall>a \<in> set xs. data16 (D' (head_info (h a))) = regen16 (data16 (D (head_info (h a))))"
    using mergesort_idx [OF assms, of D] by blast
  have "node_key h' D' = node_key h D" "\<forall>a. head_info (h' a) = head_info (h a)" using y(4,5) by (simp_all add: same_info_def datas_like_def)
  then show ?thesis using y by metis
qed

theorem core_list_mergesort_idx_correct_witness:
  "\<exists>ys h' D'. core_list_mergesort cmp_idx (Some 0) sample_heads (sample_datas, None) = Some (Some (hd ys), h', D', None) \<and>
    is_list h' (Some (hd ys)) ys \<and> mset ys = mset [0, 1, 2] \<and> sorted (map (node_key h' D') ys) \<and>
    (\<forall>a. head_info (h' a) = head_info (sample_heads a)) \<and>
    (\<forall>a \<in> set [0, 1, 2]. data16 (D' (head_info (sample_heads a))) = regen16 (data16 (sample_datas (head_info (sample_heads a)))))"
  by (rule core_list_mergesort_idx_correct) (simp_all add: sample_heads_def)

text \<open>C27. If the list is ready (at least three items, indices sorted and distinct, each low data byte equal to its backup, equal low bytes of the seeds and a restorable state block, and matrices that fit their arrays), it is back to its original state at the end of core_bench_list: every link and every data item is unchanged and the list is ready for the next call, for any find count and any start index, although the call reverses and relinks the list, caches values in it, sorts it twice and removes an item in between.\<close>

theorem core_bench_list_restores:
  assumes "list_ready h D res xs"
  shows "\<exists>retval D' res'. core_bench_list stale h D res finder_idx = Some (retval, h, D', res') \<and> list_ready h D' res' xs \<and>
    (\<forall>a \<in> set xs. D' (head_info (h a)) = D (head_info (h a))) \<and> res_like res res'"
  by (rule core_bench_list_keeps [OF assms])

theorem core_bench_list_restores_witness:
  "\<exists>retval D' res'. core_bench_list 9 sample_heads sample_datas sample_results 1 = Some (retval, sample_heads, D', res') \<and>
    list_ready sample_heads D' res' [0, 1, 2] \<and>
    (\<forall>a \<in> set [0, 1, 2]. D' (head_info (sample_heads a)) = sample_datas (head_info (sample_heads a))) \<and> res_like sample_results res'"
  by (rule core_bench_list_restores [OF sample_ready])

theorem iterate_correct_witness:
  "\<exists>D' res'. iterate 9 sample_heads sample_datas sample_results = Some (sample_heads, D', res') \<and> list_ready sample_heads D' res' [0, 1, 2] \<and>
    (\<forall>a \<in> set [0, 1, 2]. D' (head_info (sample_heads a)) = sample_datas (head_info (sample_heads a))) \<and> res_like sample_results res'"
  by (rule iterate_correct [OF sample_ready])

theorem core_list_init_correct_witness:
  "\<exists>ys h' D'. core_list_init 666 sample_heads sample_datas 0 = Some (Some (hd ys), h', D') \<and> is_list h' (Some (hd ys)) ys \<and>
    mset ys = mset [0..<unat (666 :: u32) div 20 - 3] \<and> sorted (map (node_key h' D') ys) \<and>
    (\<forall>a \<in> set ys. head_info (h' a) = a \<and> regen16 (data16 (D' a)) = data16 (D' a))"
  by (rule core_list_init_correct) simp

end
