(* ===== verification/Vm_Pager.thy ===== *)
theory Vm_Pager
  imports Prelude
begin

unbundle bit_operations_syntax

text \<open>
  The virtual-memory environment of the test programs,
  \<^verbatim>\<open>src/riscv-tools/riscv-tests/env/v/vm.c\<close>, as it is built for the 32-bit core: \<^verbatim>\<open>vm_boot\<close> lays out the
  page tables and a free list of physical pages in pseudo-random order, \<^verbatim>\<open>handle_fault\<close> maps a page of
  the test on its first access and sets its accessed and dirty bits, \<^verbatim>\<open>evict\<close> checks these bits
  when the test ends, and \<^verbatim>\<open>handle_trap\<close> dispatches to them.  Runs of a test are a step relation whose
  steps are page faults and stores of the user.  The theorems show that no assertion of the fault handler fails, that
  an access is allowed after at most three faults, and that the user sees a flat memory.
\<close>

section \<open>Constants\<close>

abbreviation "DRAM_BASE \<equiv> 0x80000000 :: u32"
abbreviation "PGSIZE \<equiv> 0x1000 :: u32"
abbreviation "MEGAPAGE_SIZE \<equiv> 0x400000 :: u32"
abbreviation "MAX_TEST_PAGES \<equiv> 63"
abbreviation "PTES_PER_PT \<equiv> 1024 :: nat"
abbreviation "PTE_V \<equiv> 0x01 :: u32"
abbreviation "PTE_R \<equiv> 0x02 :: u32"
abbreviation "PTE_W \<equiv> 0x04 :: u32"
abbreviation "PTE_X \<equiv> 0x08 :: u32"
abbreviation "PTE_U \<equiv> 0x10 :: u32"
abbreviation "PTE_A \<equiv> 0x40 :: u32"
abbreviation "PTE_D \<equiv> 0x80 :: u32"
abbreviation "CAUSE_ILLEGAL_INSTRUCTION \<equiv> 0x2 :: u32"
abbreviation "CAUSE_USER_ECALL \<equiv> 0x8 :: u32"
abbreviation "CAUSE_FETCH_PAGE_FAULT \<equiv> 0xc :: u32"
abbreviation "CAUSE_LOAD_PAGE_FAULT \<equiv> 0xd :: u32"
abbreviation "CAUSE_STORE_PAGE_FAULT \<equiv> 0xf :: u32"

definition LFSR_NEXT :: "u32 \<Rightarrow> u32" where
  "LFSR_NEXT x = push_bit 5 ((x XOR drop_bit 1 x) AND 1) OR drop_bit 1 x"

section \<open>State\<close>

text \<open>
  A node of the free list is an element of one of the two arrays; a pointer names the array and the
  index.  \<open>frames\<close> is the physical memory by page number.  The page tables and the free list are part of the loaded
  image too; the model keeps them apart from \<open>frames\<close>, which is exact for the pages of the image that do not hold these variables of the kernel.
\<close>

datatype freelist_ptr = Freelist_node nat | User_mapping nat

record freelist_t =
  node_addr :: u32
  node_next :: "freelist_ptr option"

type_synonym page = "u8 list"

record vm_state =
  l1pt :: "nat \<Rightarrow> u32"
  user_l3pt :: "nat \<Rightarrow> u32"
  user_mapping :: "nat \<Rightarrow> freelist_t"
  freelist_nodes :: "nat \<Rightarrow> freelist_t"
  freelist_head :: "freelist_ptr option"
  freelist_tail :: "freelist_ptr option"
  frames :: "u32 \<Rightarrow> page"

record trapframe_t =
  tf_gpr :: "nat \<Rightarrow> u32"
  tf_sr :: u32
  tf_epc :: u32
  tf_badvaddr :: u32
  tf_cause :: u32

text \<open>
  A failed assertion prints its text and ends the test with code 3.  A call of \<^verbatim>\<open>terminate\<close> is recorded with its code and the state it leaves.
\<close>

datatype vm_assert =
    Address_in_range | Page_accessed | Page_dirty | Clean_page_stored | Free_page_left | Page_unmapped
  | Epc_aligned | Illegal_instruction | Unexpected_exception

datatype vm_exit = Terminate u32 vm_state | Assertion_failed vm_assert

section \<open>Addresses\<close>

text \<open>
  User pages are translated by \<^verbatim>\<open>user_l3pt\<close>, to which entry 0 of \<^verbatim>\<open>l1pt\<close> points; the kernel sees the
  physical memory through the megapage of the last entry.
\<close>

definition pte_ppn :: "u32 \<Rightarrow> u32" where
  "pte_ppn pte = drop_bit 10 pte"

definition user_frame :: "vm_state \<Rightarrow> nat \<Rightarrow> u32" where
  "user_frame st p = pte_ppn (user_l3pt st p)"

definition kernel_frame :: "vm_state \<Rightarrow> u32 \<Rightarrow> u32" where
  "kernel_frame st va = pte_ppn (l1pt st (unat (drop_bit 22 va))) + (drop_bit 12 va AND 0x3FF)"

definition uva2kva :: "u32 \<Rightarrow> u32" where
  "uva2kva a = a - MEGAPAGE_SIZE"

definition page_of :: "u32 \<Rightarrow> nat" where
  "page_of a = unat (a div PGSIZE)"

definition copy_page :: "u32 \<Rightarrow> u32 \<Rightarrow> vm_state \<Rightarrow> vm_state" where
  "copy_page dst src st = st\<lparr>frames := (frames st)(dst := frames st src)\<rparr>"

definition set_pte :: "nat \<Rightarrow> u32 \<Rightarrow> vm_state \<Rightarrow> vm_state" where
  "set_pte p pte st = st\<lparr>user_l3pt := (user_l3pt st)(p := pte)\<rparr>"

primrec deref :: "freelist_ptr \<Rightarrow> vm_state \<Rightarrow> freelist_t" where
  "deref (Freelist_node i) st = freelist_nodes st i"
| "deref (User_mapping p) st = user_mapping st p"

primrec set_node_next :: "freelist_ptr \<Rightarrow> freelist_ptr option \<Rightarrow> vm_state \<Rightarrow> vm_state" where
  "set_node_next (Freelist_node i) n st =
     st\<lparr>freelist_nodes := (freelist_nodes st)(i := (freelist_nodes st i)\<lparr>node_next := n\<rparr>)\<rparr>"
| "set_node_next (User_mapping p) n st =
     st\<lparr>user_mapping := (user_mapping st)(p := (user_mapping st p)\<lparr>node_next := n\<rparr>)\<rparr>"

section \<open>The handlers\<close>

definition evict_push :: "nat \<Rightarrow> vm_state \<Rightarrow> vm_state" where
  "evict_push p st =
     (let st = st\<lparr>user_mapping := (user_mapping st)(p := (user_mapping st p)\<lparr>node_addr := 0\<rparr>)\<rparr>
      in case freelist_tail st of
           None \<Rightarrow> st\<lparr>freelist_head := Some (User_mapping p), freelist_tail := Some (User_mapping p)\<rparr>
         | Some t \<Rightarrow> (set_node_next t (Some (User_mapping p)) st)\<lparr>freelist_tail := Some (User_mapping p)\<rparr>)"

definition evict :: "u32 \<Rightarrow> vm_state \<Rightarrow> vm_exit + vm_state" where
  "evict addr st =
     (if \<not> (PGSIZE \<le> addr \<and> addr < MAX_TEST_PAGES * PGSIZE) then Inl (Assertion_failed Address_in_range)
      else let addr = addr div PGSIZE * PGSIZE; p = page_of addr; pte = user_l3pt st p
           in if node_addr (user_mapping st p) = 0 then Inr st
              else if pte AND PTE_A = 0 then Inl (Assertion_failed Page_accessed)
              else if frames st (user_frame st p) = frames st (kernel_frame st (uva2kva addr))
              then Inr (evict_push p st)
              else if pte AND PTE_D = 0 then Inl (Assertion_failed Page_dirty)
              else Inr (evict_push p (copy_page (user_frame st p) (kernel_frame st (uva2kva addr)) st)))"

definition new_pte :: "u32 \<Rightarrow> u32" where
  "new_pte addr = push_bit 10 (drop_bit 12 addr) OR PTE_V OR PTE_U OR PTE_R OR PTE_W OR PTE_X"

definition handle_fault :: "u32 \<Rightarrow> u32 \<Rightarrow> vm_state \<Rightarrow> vm_exit + vm_state" where
  "handle_fault addr cause st =
     (if \<not> (PGSIZE \<le> addr \<and> addr < MAX_TEST_PAGES * PGSIZE) then Inl (Assertion_failed Address_in_range)
      else let addr = addr div PGSIZE * PGSIZE; p = page_of addr; pte = user_l3pt st p
           in if pte \<noteq> 0 then
                (if pte AND PTE_A = 0 then Inr (set_pte p (pte OR PTE_A) st)
                 else if pte AND PTE_D = 0 \<and> cause = CAUSE_STORE_PAGE_FAULT then Inr (set_pte p (pte OR PTE_D) st)
                 else Inl (Assertion_failed Clean_page_stored))
              else case freelist_head st of
                None \<Rightarrow> Inl (Assertion_failed Free_page_left)
              | Some n \<Rightarrow>
                  let node = deref n st;
                      st = st\<lparr>freelist_head := node_next node\<rparr>;
                      st = (if freelist_head st = freelist_tail st then st\<lparr>freelist_tail := None\<rparr> else st);
                      pte = new_pte (node_addr node);
                      st = set_pte p (pte OR PTE_A OR PTE_D) st
                  in if node_addr (user_mapping st p) \<noteq> 0 then Inl (Assertion_failed Page_unmapped)
                     else let st = st\<lparr>user_mapping := (user_mapping st)(p := node)\<rparr>;
                              st = copy_page (user_frame st p) (kernel_frame st (uva2kva addr)) st
                          in Inr (set_pte p pte st))"

fun evict_all :: "nat list \<Rightarrow> vm_state \<Rightarrow> vm_exit + vm_state" where
  "evict_all [] st = Inr st"
| "evict_all (i # is) st = (case evict (of_nat i * PGSIZE) st of Inl e \<Rightarrow> Inl e | Inr st' \<Rightarrow> evict_all is st')"

text \<open>
  \<open>load\<close> stands for the load of the instruction at a user address; the instruction \<^verbatim>\<open>fssr x0\<close> is
  \<^verbatim>\<open>csrrw x0, fcsr, x0\<close>.
\<close>

definition handle_trap :: "(u32 \<Rightarrow> u32) \<Rightarrow> trapframe_t \<Rightarrow> vm_state \<Rightarrow> vm_exit + trapframe_t \<times> vm_state" where
  "handle_trap load tf st =
     (if tf_cause tf = CAUSE_USER_ECALL then
        (case evict_all [1..<MAX_TEST_PAGES] st of Inl e \<Rightarrow> Inl e | Inr st' \<Rightarrow> Inl (Terminate (tf_gpr tf 10) st'))
      else if tf_cause tf = CAUSE_ILLEGAL_INSTRUCTION then
        (if tf_epc tf mod 4 \<noteq> 0 then Inl (Assertion_failed Epc_aligned)
         else if load (tf_epc tf) = 0x00301073 then Inl (Terminate 1 st)
         else Inl (Assertion_failed Illegal_instruction))
      else if tf_cause tf = CAUSE_FETCH_PAGE_FAULT \<or> tf_cause tf = CAUSE_LOAD_PAGE_FAULT \<or> tf_cause tf = CAUSE_STORE_PAGE_FAULT then
        (case handle_fault (tf_badvaddr tf) (tf_cause tf) st of Inl e \<Rightarrow> Inl e | Inr st' \<Rightarrow> Inr (tf, st'))
      else Inl (Assertion_failed Unexpected_exception))"

section \<open>Boot\<close>

record vm_csrs =
  sptbr :: u32
  pmpaddr0 :: u32
  pmpcfg0 :: u32
  stvec :: u32
  sscratch :: u32
  medeleg :: u32
  mstatus :: u32
  mie :: u32

definition pa2kva :: "u32 \<Rightarrow> u32" where
  "pa2kva pa = pa - DRAM_BASE - MEGAPAGE_SIZE"

primrec boot_nodes :: "nat list \<Rightarrow> u32 \<Rightarrow> (nat \<Rightarrow> freelist_t) \<Rightarrow> nat \<Rightarrow> freelist_t" where
  "boot_nodes [] random nodes = nodes"
| "boot_nodes (i # is) random nodes =
     boot_nodes is (LFSR_NEXT random)
       (nodes(i := \<lparr>node_addr = DRAM_BASE + (MAX_TEST_PAGES + random) * PGSIZE, node_next = Some (Freelist_node (i + 1))\<rparr>))"

text \<open>
  \<open>pt\<close>, \<open>trap_entry\<close> and \<open>scratch\<close> are the addresses of the page tables, of the trap handler and the
  value of \<^verbatim>\<open>mscratch\<close>.  A core other than the first one never leaves \<^verbatim>\<open>coherence_torture\<close>.
\<close>

definition vm_boot ::
  "u32 \<Rightarrow> u32 \<Rightarrow> u32 \<Rightarrow> u32 \<Rightarrow> u32 \<Rightarrow> u32 \<Rightarrow> vm_state \<Rightarrow> (trapframe_t \<times> vm_csrs \<times> vm_state) option" where
  "vm_boot ENTROPY mhartid pt trap_entry scratch test_addr st =
     (if mhartid > 0 then None
      else let st = st\<lparr>l1pt := (l1pt st)(0 := push_bit 10 (drop_bit 12 (pt + PGSIZE)) OR PTE_V,
                                 PTES_PER_PT - 1 := push_bit 10 (DRAM_BASE div PGSIZE) OR PTE_V OR PTE_R OR PTE_W OR PTE_X OR PTE_A OR PTE_D)\<rparr>;
               csrs = \<lparr>sptbr = drop_bit 12 pt OR 0x80000000, pmpaddr0 = - 1, pmpcfg0 = 0x18 OR 1 OR 2 OR 4,
                       stvec = pa2kva trap_entry, sscratch = pa2kva scratch,
                       medeleg = push_bit 8 1 OR push_bit 12 1 OR push_bit 13 1 OR push_bit 15 1,
                       mstatus = 0x6000 OR 0x18000, mie = 0\<rparr>;
               random = 1 + ENTROPY mod MAX_TEST_PAGES;
               nodes = boot_nodes [0..<MAX_TEST_PAGES] random (freelist_nodes st);
               nodes = nodes(MAX_TEST_PAGES - 1 := (nodes (MAX_TEST_PAGES - 1))\<lparr>node_next := None\<rparr>);
               st = st\<lparr>freelist_head := Some (Freelist_node 0), freelist_tail := Some (Freelist_node (MAX_TEST_PAGES - 1)),
                       freelist_nodes := nodes\<rparr>;
               tf = \<lparr>tf_gpr = (\<lambda>_. 0), tf_sr = 0, tf_epc = test_addr - DRAM_BASE, tf_badvaddr = 0, tf_cause = 0\<rparr>
           in Some (tf, csrs, st))"

section \<open>Coherence torture\<close>

text \<open>
  The loop of the other cores: it touches the word at \<^verbatim>\<open>paddr\<close> and steps a shift register of 63 bits, which
  it keeps in an \<^verbatim>\<open>unsigned int\<close>.
\<close>

definition lfsr63 :: "u64 \<Rightarrow> u64" where
  "lfsr63 x = (let b = (x XOR drop_bit 1 x) AND 1 in drop_bit 1 x OR push_bit 62 b)"

definition torture_paddr :: "u32 \<Rightarrow> u32" where
  "torture_paddr random = DRAM_BASE + (random mod (2 * (MAX_TEST_PAGES + 1) * PGSIZE) AND - 4)"

definition torture_next :: "u32 \<Rightarrow> u32" where
  "torture_next random = ucast (lfsr63 (ucast random))"

lemma torture_next_eq: "torture_next random = drop_bit 1 random"
  by (rule bit_eqI) (auto simp: torture_next_def lfsr63_def bit_simps)

lemma torture_iter: "(torture_next ^^ n) random = drop_bit n random"
  by (induction n) (simp_all add: torture_next_eq drop_bit_drop_bit add.commute)

section \<open>The order of the free pages\<close>

fun iter_list :: "('a \<Rightarrow> 'a) \<Rightarrow> nat \<Rightarrow> 'a \<Rightarrow> 'a list" where
  "iter_list f 0 x = []"
| "iter_list f (Suc n) x = x # iter_list f n (f x)"

lemma iter_list_numeral: "iter_list f (numeral k) x = x # iter_list f (pred_numeral k) (f x)"
  by (simp add: numeral_eq_Suc)

text \<open>The register of \<^verbatim>\<open>LFSR_NEXT\<close> read as an integer runs through all of 1 to 63.\<close>

definition lfsr_int :: "int \<Rightarrow> int" where
  "lfsr_int x = x div 2 + (if (x mod 2 = 1) \<noteq> (x div 2 mod 2 = 1) then 32 else 0)"

lemma odd_uint: "odd (uint x) = odd (x :: u32)"
  by (simp flip: bit_0 add: bit_unsigned_iff)

lemma uint_LFSR_NEXT:
  assumes "uint x < 64"
  shows "uint (LFSR_NEXT x) = lfsr_int (uint x)"
proof -
  define b where "b = (x XOR drop_bit 1 x) AND 1"
  have b: "b = of_bool (odd x \<noteq> odd (drop_bit 1 x))" by (simp add: b_def and_one_eq mod_2_eq_odd even_xor_iff)
  have bits: "odd x \<longleftrightarrow> uint x mod 2 = 1" "odd (drop_bit 1 x) \<longleftrightarrow> uint x div 2 mod 2 = 1"
    using odd_uint [of x] odd_uint [of "drop_bit 1 x"] by (simp_all add: odd_iff_mod_2_eq_one [where 'a = int] uint_drop)
  have "uint (LFSR_NEXT x) = uint (push_bit 5 b OR drop_bit 1 x)" by (simp add: LFSR_NEXT_def b_def)
  also have "\<dots> = uint (push_bit 5 b) + uint (drop_bit 1 x)"
    by (rule uint_or_disjoint [where n = 5]) (use assms in \<open>simp_all add: uint_drop b uint_push_small uint_of_bool of_bool_def\<close>)
  also have "uint (push_bit 5 b) = (if (uint x mod 2 = 1) \<noteq> (uint x div 2 mod 2 = 1) then 32 else 0)"
    unfolding b bits by (simp add: uint_push)
  finally show ?thesis by (simp add: lfsr_int_def uint_drop)
qed

lemma lfsr_int_orbit:
  "iter_list lfsr_int 63 1 = [1, 32, 16, 8, 4, 2, 33, 48, 24, 12, 6, 35, 17, 40, 20, 10, 37, 50, 57, 60, 30, 47, 23, 11, 5, 34, 49, 56, 28, 14, 39, 19, 9, 36, 18, 41, 52, 26, 45, 54, 59, 29, 46, 55, 27, 13, 38, 51, 25, 44, 22, 43, 21, 42, 53, 58, 61, 62, 63, 31, 15, 7, 3]"
  by (simp add: lfsr_int_def iter_list_numeral)

lemma length_iter_list [simp]: "length (iter_list f n x) = n"
  by (induction n arbitrary: x) simp_all

lemma nth_iter_list: "i < n \<Longrightarrow> iter_list f n x ! i = (f ^^ i) x"
proof (induction n arbitrary: x i)
  case (Suc n)
  then show ?case by (cases i) (simp_all add: funpow_swap1)
qed simp

lemma lfsr_int_period: "(lfsr_int ^^ 63) 1 = 1"
  by (simp add: numeral_eq_Suc lfsr_int_def)

lemma lfsr_int_range: "x \<in> {1..63} \<Longrightarrow> lfsr_int x \<in> {1..63}"
proof -
  assume "x \<in> {1..63}"
  then have "x div 2 \<in> {0..31}" "x = 1 \<or> 1 \<le> x div 2" by auto
  then show ?thesis by (auto simp: lfsr_int_def)
qed

lemma card_list_interval:
  assumes "distinct xs" "length xs = nat (b - a + 1)" "set xs \<subseteq> {a..b :: int}"
  shows "set xs = {a..b}"
  using assms by (intro card_subset_eq) (simp_all add: distinct_card)

lemma lfsr_int_orbit_distinct: "distinct (iter_list lfsr_int 63 1)"
  unfolding lfsr_int_orbit by simp

lemma lfsr_int_orbit_set: "set (iter_list lfsr_int 63 1) = {1..63}"
  by (rule card_list_interval [OF lfsr_int_orbit_distinct]) (simp, unfold lfsr_int_orbit, simp)

lemma lfsr_int_all:
  assumes "r \<in> {1..63}"
  shows "distinct (iter_list lfsr_int 63 r)" "set (iter_list lfsr_int 63 r) = {1..63}"
proof -
  obtain k where k: "r = (lfsr_int ^^ k) 1"
    using assms unfolding lfsr_int_orbit_set [symmetric] in_set_conv_nth by (auto simp: nth_iter_list)
  have nth: "iter_list lfsr_int 63 r ! i = iter_list lfsr_int 63 1 ! ((i + k) mod 63)" if "i < 63" for i
    using that k funpow_mod_eq [OF lfsr_int_period, of "i + k"] by (simp add: nth_iter_list funpow_add)
  show d: "distinct (iter_list lfsr_int 63 r)"
  proof (unfold distinct_conv_nth length_iter_list, intro allI impI)
    fix i j :: nat
    assume ij: "i < 63" "j < 63" "i \<noteq> j"
    have "(i + k) mod 63 \<noteq> (j + k) mod 63"
    proof
      assume "(i + k) mod 63 = (j + k) mod 63"
      then have "(int i + int k) mod 63 = (int j + int k) mod 63" by (metis of_nat_add of_nat_mod of_nat_numeral)
      then have "int i mod 63 = int j mod 63" using mod_diff_cong [of "int i + int k" 63 "int j + int k" "int k" "int k"] by simp
      then show False using ij by simp
    qed
    then show "iter_list lfsr_int 63 r ! i \<noteq> iter_list lfsr_int 63 r ! j"
      using ij by (simp only: nth nth_eq_iff_index_eq [OF lfsr_int_orbit_distinct] length_iter_list) simp
  qed
  have "(lfsr_int ^^ i) r \<in> {1..63}" for i
    by (induction i) (use assms lfsr_int_range in simp_all)
  then have "set (iter_list lfsr_int 63 r) \<subseteq> {1..63}"
    by (auto simp: in_set_conv_nth nth_iter_list)
  then show "set (iter_list lfsr_int 63 r) = {1..63}" by (intro card_list_interval d) simp_all
qed

lemma uint_LFSR_iter:
  assumes "uint r \<in> {1..63}"
  shows "uint ((LFSR_NEXT ^^ i) r) = (lfsr_int ^^ i) (uint r) \<and> uint ((LFSR_NEXT ^^ i) r) \<in> {1..63}"
proof (induction i)
  case (Suc i)
  then show ?case using uint_LFSR_NEXT [of "(LFSR_NEXT ^^ i) r"] lfsr_int_range [of "uint ((LFSR_NEXT ^^ i) r)"] by auto
qed (use assms in simp)

lemma boot_nodes_nth:
  "boot_nodes [a..<a + n] r nodes j =
     (if a \<le> j \<and> j < a + n
      then \<lparr>node_addr = DRAM_BASE + (63 + (LFSR_NEXT ^^ (j - a)) r) * PGSIZE, node_next = Some (Freelist_node (j + 1))\<rparr>
      else nodes j)"
proof (induction n arbitrary: a r nodes)
  case (Suc n)
  have "[a..<a + Suc n] = a # [Suc a..<Suc a + n]" by (simp add: upt_conv_Cons)
  moreover have "a < j \<Longrightarrow> (LFSR_NEXT ^^ (j - Suc a)) (LFSR_NEXT r) = (LFSR_NEXT ^^ (j - a)) r"
    using funpow_Suc_right [of "j - Suc a" LFSR_NEXT] by (simp add: Suc_diff_Suc)
  ultimately show ?case using Suc [of "Suc a" "LFSR_NEXT r"] by (auto simp del: upt_Suc)
qed auto

section \<open>Page-table entries and addresses as integers\<close>

lemma uint_new_pte:
  assumes "uint a = 4096 * g" "g < 2 ^ 20"
  shows "uint (new_pte a) = 1024 * g + 31"
proof -
  have "0 \<le> g" using assms(1) uint_nonnegative [of a] by linarith
  then have "uint (push_bit 10 (drop_bit 12 a)) = 1024 * g" using assms by (simp add: uint_push_small uint_drop)
  moreover have "PTE_V OR PTE_U OR PTE_R OR PTE_W OR PTE_X = 31" by simp
  ultimately show ?thesis
    using uint_or_disjoint [of "push_bit 10 (drop_bit 12 a)" 10 31] by (simp add: new_pte_def or.assoc)
qed

text \<open>The flags of an entry are its low ten bits.\<close>

lemma pte_flags:
  assumes "uint pte = 1024 * g + fl" "0 \<le> fl" "fl < 1024" "take_bit 10 c = c"
  shows "pte AND c = word_of_int fl AND (c :: u32)"
proof -
  have "take_bit 10 pte = word_of_int fl"
    by (rule iffD2 [OF word_eq_uint]) (use assms(1-3) in \<open>simp add: uint_take uint_word_of_int\<close>)
  moreover have "pte AND take_bit 10 c = take_bit 10 pte AND c"
    by (rule bit_eqI) (auto simp: bit_simps)
  ultimately show ?thesis using assms(4) by simp
qed

lemma uint_pte_or:
  assumes "pte AND c = 0" "uint pte < 2 ^ 31" "uint c < 2 ^ 31"
  shows "uint (pte OR c :: u32) = uint pte + uint c"
  using assms by (simp add: disjunctive_add_eq_or [symmetric] uint_plus_if')

lemma uint_pte_ppn: "uint (pte_ppn pte) = uint pte div 1024"
  by (simp add: pte_ppn_def uint_drop)

lemma test_page:
  assumes "PGSIZE \<le> addr \<and> addr < 63 * PGSIZE"
  shows "page_of addr \<in> {1..<63}" "page_of (of_nat (page_of addr) * PGSIZE) = page_of addr"
    "addr div PGSIZE * PGSIZE = of_nat (page_of addr) * PGSIZE"
proof -
  have b: "4096 \<le> unat addr" "unat addr < 63 * 4096" using assms by (simp_all add: word_le_nat_alt word_less_nat_alt)
  then have *: "unat (addr div PGSIZE) = unat addr div 4096" "unat (addr div PGSIZE * PGSIZE) = unat addr div 4096 * 4096"
    by (simp_all add: unat_div unat_word_ariths)
  show "page_of addr \<in> {1..<63}" using b by (simp add: page_of_def * ) linarith
  show eq: "addr div PGSIZE * PGSIZE = of_nat (page_of addr) * PGSIZE" by (simp add: page_of_def)
  show "page_of (of_nat (page_of addr) * PGSIZE) = page_of addr"
    unfolding eq [symmetric] by (simp add: page_of_def unat_div * )
qed

lemma kernel_frame_image:
  assumes "l1pt st 1023 = 0x200000CF" "p < 63"
  shows "kernel_frame st (uva2kva (of_nat p * PGSIZE)) = word_of_int (0x80000 + int p)"
proof -
  have "uint (of_nat p * PGSIZE) = 4096 * int p" using assms(2) by (simp add: uint_word_ariths unsigned_of_nat take_bit_eq_mod)
  then have a: "uint (uva2kva (of_nat p * PGSIZE)) = 0xFFC00000 + 4096 * int p"
    using assms(2) by (simp add: uva2kva_def uint_sub_borrow word_less_uint)
  have "uint (drop_bit 22 (uva2kva (of_nat p * PGSIZE))) = 1023" using a assms(2) by (simp add: uint_drop)
  then have l: "unat (drop_bit 22 (uva2kva (of_nat p * PGSIZE))) = 1023" by (simp only: unat_eq_nat_uint)
  have "(1047552 + int p) mod 1024 = int p" using assms(2) mod_mult_self4 [of 1024 1023 "int p"] by simp
  then have "uint (drop_bit 12 (uva2kva (of_nat p * PGSIZE)) AND 0x3FF) = int p"
    using a uint_and_field [of "0x3FF :: u32" 0 10] by (simp add: uint_drop)
  moreover have "uint (pte_ppn 0x200000CF) = 0x80000" by (simp add: uint_pte_ppn)
  ultimately show ?thesis
    using assms by (intro iffD2 [OF word_eq_uint]) (simp add: kernel_frame_def l uint_word_of_int uint_word_ariths unsigned_of_nat take_bit_eq_mod)
qed

section \<open>The invariant of a run\<close>

text \<open>
  \<open>img p\<close> is the initial content of page \<open>p\<close> of the test, \<open>f j\<close> the physical page of the free-list node \<open>j\<close>,
  and \<open>order\<close> lists the pages in the order of their first fault.  A mapped page goes through three
  values of its flags; only with the dirty bit set may its content differ from the image.
\<close>

definition mapped_page :: "(nat \<Rightarrow> page) \<Rightarrow> int \<Rightarrow> nat \<Rightarrow> vm_state \<Rightarrow> bool" where
  "mapped_page img g p st \<longleftrightarrow>
     (\<exists>fl \<in> {31, 95, 223}. uint (user_l3pt st p) = 1024 * g + fl \<and> (fl = 223 \<or> frames st (word_of_int g) = img p))"

definition free_chain :: "(nat \<Rightarrow> int) \<Rightarrow> vm_state \<Rightarrow> bool" where
  "free_chain f st \<longleftrightarrow>
     inj_on f {..<63} \<and> f ` {..<63} \<subseteq> {0x80040..0x8007E} \<and>
     (\<forall>j < 63. uint (node_addr (freelist_nodes st j)) = 4096 * f j \<and>
        node_next (freelist_nodes st j) = (if j = 62 then None else Some (Freelist_node (Suc j))))"

definition vm_inv :: "(nat \<Rightarrow> page) \<Rightarrow> (nat \<Rightarrow> int) \<Rightarrow> nat list \<Rightarrow> vm_state \<Rightarrow> bool" where
  "vm_inv img f order st \<longleftrightarrow>
     l1pt st 1023 = 0x200000CF \<and> distinct order \<and> set order \<subseteq> {1..<63} \<and> free_chain f st \<and>
     freelist_head st = Some (Freelist_node (length order)) \<and>
     freelist_tail st = (if length order < 62 then Some (Freelist_node 62) else None) \<and>
     (\<forall>p \<in> {1..<63} - set order. user_l3pt st p = 0 \<and> node_addr (user_mapping st p) = 0) \<and>
     (\<forall>j < length order. user_mapping st (order ! j) = freelist_nodes st j \<and> mapped_page img (f j) (order ! j) st) \<and>
     (\<forall>p \<in> {1..<63}. frames st (word_of_int (0x80000 + int p)) = img p)"

text \<open>The access of a user is allowed by an entry, or raises the page fault of its kind.\<close>

definition user_access :: "u32 \<Rightarrow> u32 \<Rightarrow> bool" where
  "user_access pte cause \<longleftrightarrow>
     pte AND PTE_V \<noteq> 0 \<and> pte AND PTE_U \<noteq> 0 \<and> pte AND PTE_A \<noteq> 0 \<and>
     (if cause = CAUSE_FETCH_PAGE_FAULT then pte AND PTE_X \<noteq> 0
      else if cause = CAUSE_LOAD_PAGE_FAULT then pte AND PTE_R \<noteq> 0
      else pte AND PTE_W \<noteq> 0 \<and> pte AND PTE_D \<noteq> 0)"

lemma user_access_flags:
  assumes "uint pte = 1024 * g + fl" "fl \<in> {31, 95, 223}"
  shows "user_access pte c \<longleftrightarrow> fl = 223 \<or> fl = 95 \<and> (c = CAUSE_FETCH_PAGE_FAULT \<or> c = CAUSE_LOAD_PAGE_FAULT)"
    "pte AND PTE_A = 0 \<longleftrightarrow> fl = 31" "pte AND PTE_D = 0 \<longleftrightarrow> fl \<noteq> 223" "pte \<noteq> 0"
proof -
  have fl: "pte AND d = word_of_int fl AND d" if "take_bit 10 d = d" for d
    using assms that by (intro pte_flags [of pte g]) auto
  show "user_access pte c \<longleftrightarrow> fl = 223 \<or> fl = 95 \<and> (c = CAUSE_FETCH_PAGE_FAULT \<or> c = CAUSE_LOAD_PAGE_FAULT)"
    "pte AND PTE_A = 0 \<longleftrightarrow> fl = 31" "pte AND PTE_D = 0 \<longleftrightarrow> fl \<noteq> 223"
    using assms(2) by (auto simp: fl user_access_def)
  show "pte \<noteq> 0"
  proof
    assume "pte = 0"
    then show False using fl [of PTE_V] assms(2) by auto
  qed
qed

lemma user_access_0 [simp]: "\<not> user_access 0 c"
  by (simp add: user_access_def)

lemma frame_eq:
  assumes "x \<in> {0x80000..0x8007E}" "y \<in> {0x80000..0x8007E}"
  shows "(word_of_int x :: u32) = word_of_int y \<longleftrightarrow> x = y"
proof
  assume "(word_of_int x :: u32) = word_of_int y"
  then have "uint (word_of_int x :: u32) = uint (word_of_int y :: u32)" by simp
  then show "x = y" using assms by (simp add: uint_word_of_int)
qed simp

lemma free_chainD:
  assumes "free_chain f st" "j < 63"
  shows "f j \<in> {0x80040..0x8007E}" "uint (node_addr (freelist_nodes st j)) = 4096 * f j" "node_addr (freelist_nodes st j) \<noteq> 0"
    "node_next (freelist_nodes st j) = (if j = 62 then None else Some (Freelist_node (Suc j)))"
proof -
  show f: "f j \<in> {0x80040..0x8007E}" "uint (node_addr (freelist_nodes st j)) = 4096 * f j"
    "node_next (freelist_nodes st j) = (if j = 62 then None else Some (Freelist_node (Suc j)))"
    using assms by (auto simp: free_chain_def)
  show "node_addr (freelist_nodes st j) \<noteq> 0" using f(1,2) by auto
qed

lemma frame_distinct:
  assumes "free_chain f st" "i < 63"
  shows "p < 63 \<Longrightarrow> (word_of_int (f i) :: u32) \<noteq> word_of_int (0x80000 + int p)"
    "j < 63 \<Longrightarrow> (word_of_int (f i) :: u32) = word_of_int (f j) \<longleftrightarrow> i = j"
proof -
  have r: "f j \<in> {0x80000..0x8007E}" if "j < 63" for j using free_chainD(1) [OF assms(1) that] by auto
  show "p < 63 \<Longrightarrow> (word_of_int (f i) :: u32) \<noteq> word_of_int (0x80000 + int p)"
    using frame_eq [OF r [OF assms(2)], of "0x80000 + int p"] free_chainD(1) [OF assms] by auto
  show "j < 63 \<Longrightarrow> (word_of_int (f i) :: u32) = word_of_int (f j) \<longleftrightarrow> i = j"
    using frame_eq [OF r [OF assms(2)] r] assms by (auto simp: free_chain_def inj_on_eq_iff)
qed

lemma user_frame_eq:
  assumes "uint (user_l3pt st p) = 1024 * g + fl" "0 \<le> fl" "fl < 1024" "0 \<le> g" "g < 2 ^ 20"
  shows "user_frame st p = word_of_int g"
  by (rule iffD2 [OF word_eq_uint]) (use assms in \<open>simp add: user_frame_def uint_pte_ppn uint_word_of_int\<close>)

lemma order_length:
  assumes "distinct order" "set order \<subseteq> {1..<63 :: nat}"
  shows "length order \<le> 62" "p \<in> {1..<63} - set order \<Longrightarrow> length order < 62"
proof -
  have "card (set order) \<le> card {1..<63::nat}" by (rule card_mono) (use assms in simp_all)
  then show "length order \<le> 62" using distinct_card [OF assms(1)] by simp
  assume p: "p \<in> {1..<63} - set order"
  then have "card (set order) < card {1..<63::nat}" by (intro psubset_card_mono) (use assms in auto)
  then show "length order < 62" using distinct_card [OF assms(1)] by simp
qed

definition map_page :: "nat \<Rightarrow> nat \<Rightarrow> u32 \<Rightarrow> page \<Rightarrow> vm_state \<Rightarrow> vm_state" where
  "map_page p n frame content st = st\<lparr>
     freelist_head := Some (Freelist_node (Suc n)),
     freelist_tail := (if Suc n < 62 then Some (Freelist_node 62) else None),
     user_l3pt := (user_l3pt st)(p := new_pte (node_addr (freelist_nodes st n))),
     user_mapping := (user_mapping st)(p := freelist_nodes st n),
     frames := (frames st)(frame := content)\<rparr>"

lemma handle_fault_first:
  assumes inv: "vm_inv img f order st" and a: "PGSIZE \<le> addr \<and> addr < 63 * PGSIZE" and p: "page_of addr \<notin> set order"
  shows "handle_fault addr c st = Inr (map_page (page_of addr) (length order) (word_of_int (f (length order))) (img (page_of addr)) st)"
proof -
  note I = inv [unfolded vm_inv_def]
  have pr: "page_of addr \<in> {1..<63}" using test_page [OF a] by simp
  then have n: "length order < 62" using I p order_length by blast
  then have fr: "f (length order) \<in> {0x80040..0x8007E}" "uint (node_addr (freelist_nodes st (length order))) = 4096 * f (length order)"
    "node_next (freelist_nodes st (length order)) = Some (Freelist_node (Suc (length order)))"
    using free_chainD [of f st "length order"] I by auto
  then have np: "uint (new_pte (node_addr (freelist_nodes st (length order)))) = 1024 * f (length order) + 31"
    by (intro uint_new_pte) auto
  have "pte_ppn (new_pte (node_addr (freelist_nodes st (length order))) OR PTE_A OR PTE_D) =
      pte_ppn (new_pte (node_addr (freelist_nodes st (length order))))"
    by (simp add: pte_ppn_def drop_bit_or)
  also have "\<dots> = word_of_int (f (length order))"
    by (rule iffD2 [OF word_eq_uint]) (use np fr(1) in \<open>simp add: uint_pte_ppn uint_word_of_int\<close>)
  finally have frame: "pte_ppn (new_pte (node_addr (freelist_nodes st (length order))) OR PTE_A OR PTE_D) = word_of_int (f (length order))" .
  have k: "kernel_frame st' (uva2kva (of_nat (page_of addr) * PGSIZE)) = word_of_int (0x80000 + int (page_of addr))"
    if "l1pt st' = l1pt st" for st'
    using kernel_frame_image [of st' "page_of addr"] that I pr by simp
  have "user_l3pt st (page_of addr) = 0" "node_addr (user_mapping st (page_of addr)) = 0"
    "frames st (word_of_int (0x80000 + int (page_of addr))) = img (page_of addr)"
    using I pr p by blast+
  then show ?thesis
    using I n fr(3) a frame
    by (cases "length order = 61")
      (simp_all add: handle_fault_def Let_def test_page [OF a] set_pte_def copy_page_def user_frame_def k map_page_def)
qed

lemma vm_inv_map_page:
  assumes inv: "vm_inv img f order st" and p: "p \<in> {1..<63} - set order"
  shows "vm_inv img f (order @ [p]) (map_page p (length order) (word_of_int (f (length order))) (img p) st)"
    (is "vm_inv img f _ ?st")
proof -
  note I = inv [unfolded vm_inv_def]
  have n: "length order < 62" using I p order_length by blast
  then have chain: "free_chain f st" and n63: "length order < 63" using I by simp_all
  have new: "mapped_page img (f (length order)) p ?st"
    using uint_new_pte [OF free_chainD(2) [OF chain n63]] free_chainD(1) [OF chain n63]
    by (simp add: mapped_page_def map_page_def)
  have old: "mapped_page img (f j) (order ! j) ?st" if "j < length order" for j
  proof -
    have "order ! j \<noteq> p" using that p nth_mem by fastforce
    moreover have "(word_of_int (f j) :: u32) \<noteq> word_of_int (f (length order))"
      using frame_distinct(2) [OF chain, of j "length order"] that n by simp
    ultimately show ?thesis using I that by (simp add: mapped_page_def map_page_def)
  qed
  have img: "frames ?st (word_of_int (0x80000 + int q)) = img q" if "q \<in> {1..<63}" for q
  proof -
    have "(word_of_int (0x80000 + int q) :: u32) \<noteq> word_of_int (f (length order))"
      using frame_distinct(1) [OF chain n63, of q] that by (metis atLeastLessThan_iff)
    then show ?thesis using I that by (simp add: map_page_def)
  qed
  have map: "user_mapping ?st ((order @ [p]) ! j) = freelist_nodes ?st j" if "j < Suc (length order)" for j
    using that I p nth_mem [of j order] by (cases "j < length order") (auto simp: map_page_def nth_append less_Suc_eq)
  have "mapped_page img (f j) ((order @ [p]) ! j) ?st" if "j < Suc (length order)" for j
    using old new that by (cases "j < length order") (auto simp: nth_append less_Suc_eq)
  moreover have "free_chain f ?st" using chain by (simp add: free_chain_def map_page_def)
  ultimately show ?thesis
    unfolding vm_inv_def using I p n map img by (auto simp: map_page_def)
qed

lemma vm_inv_set_pte:
  assumes inv: "vm_inv img f order st" and j: "j < length order" and p: "p = order ! j"
    and pte: "uint pte = 1024 * f j + fl" "fl \<in> {31, 95, 223}" "fl = 223 \<or> frames st (word_of_int (f j)) = img p"
  shows "vm_inv img f order (set_pte p pte st)"
proof -
  note I = inv [unfolded vm_inv_def]
  have "mapped_page img (f i) (order ! i) (set_pte p pte st)" if "i < length order" for i
  proof (cases "i = j")
    case True
    then show ?thesis using pte p by (auto simp: mapped_page_def set_pte_def)
  next
    case False
    then have "order ! i \<noteq> p" using p I that j by (simp add: nth_eq_iff_index_eq)
    then show ?thesis using I that by (simp add: mapped_page_def set_pte_def)
  qed
  moreover have "p \<in> set order" using p j by simp
  ultimately show ?thesis
    using I unfolding vm_inv_def by (auto simp: set_pte_def free_chain_def)
qed

section \<open>Page faults\<close>

text \<open>
  \<open>user_view\<close> is the content that the user finds in a page, the image of the test as long as the page is
  not mapped.  \<open>faults_left\<close> bounds the faults that a page can still raise.
\<close>

definition user_view :: "vm_state \<Rightarrow> nat \<Rightarrow> page" where
  "user_view st p = (if user_l3pt st p = 0 then frames st (kernel_frame st (uva2kva (of_nat p * PGSIZE)))
                     else frames st (user_frame st p))"

definition faults_left :: "u32 \<Rightarrow> nat" where
  "faults_left pte = (if pte = 0 then 3 else if pte AND PTE_A = 0 then 2 else if pte AND PTE_D = 0 then 1 else 0)"

lemma user_view_unmapped:
  assumes "vm_inv img f order st" "p \<in> {1..<63} - set order"
  shows "user_l3pt st p = 0" "user_view st p = img p"
  using assms kernel_frame_image [of st p] by (auto simp: vm_inv_def user_view_def)

lemma user_view_mapped:
  assumes inv: "vm_inv img f order st" and j: "j < length order" "p = order ! j"
  obtains fl where "fl \<in> {31, 95, 223}" "uint (user_l3pt st p) = 1024 * f j + fl"
    "fl = 223 \<or> frames st (word_of_int (f j)) = img p" "user_l3pt st p \<noteq> 0"
    "user_frame st p = word_of_int (f j)" "user_view st p = frames st (word_of_int (f j))" "f j \<in> {0x80040..0x8007E}"
proof -
  note I = inv [unfolded vm_inv_def]
  obtain fl where fl: "fl \<in> {31, 95, 223}" "uint (user_l3pt st p) = 1024 * f j + fl"
    "fl = 223 \<or> frames st (word_of_int (f j)) = img p"
    using I j by (auto simp: mapped_page_def)
  have "j < 63" using order_length(1) [of order] I j by simp
  then have g: "f j \<in> {0x80040..0x8007E}" using free_chainD(1) I by blast
  have "user_frame st p = word_of_int (f j)" by (rule user_frame_eq [OF fl(2)]) (use fl(1) g in auto)
  then show ?thesis using that [OF fl] user_access_flags(4) [OF fl(2,1)] g by (simp add: user_view_def)
qed

lemma handle_fault_mapped:
  assumes inv: "vm_inv img f order st" and a: "PGSIZE \<le> addr \<and> addr < 63 * PGSIZE"
    and j: "j < length order" "page_of addr = order ! j"
    and c: "\<not> user_access (user_l3pt st (page_of addr)) c" "c = CAUSE_FETCH_PAGE_FAULT \<or> c = CAUSE_LOAD_PAGE_FAULT \<or> c = CAUSE_STORE_PAGE_FAULT"
  obtains pte where "handle_fault addr c st = Inr (set_pte (page_of addr) pte st)"
    "vm_inv img f order (set_pte (page_of addr) pte st)"
    "faults_left pte < faults_left (user_l3pt st (page_of addr))"
proof -
  let ?p = "page_of addr" and ?pte = "user_l3pt st (page_of addr)"
  obtain fl where fl: "fl \<in> {31, 95, 223}" "uint ?pte = 1024 * f j + fl" "fl = 223 \<or> frames st (word_of_int (f j)) = img ?p"
      "?pte \<noteq> 0" and g: "f j \<in> {0x80040..0x8007E}"
    using user_view_mapped [OF inv j] by metis
  note fla = user_access_flags [OF fl(2,1)]
  have small: "uint ?pte < 2 ^ 31" using fl(1,2) g by auto
  consider "fl = 31" | "fl = 95" "c = CAUSE_STORE_PAGE_FAULT" using fla(1) [of c] c fl(1) by auto
  then show ?thesis
  proof cases
    case 1
    have u: "uint (?pte OR PTE_A) = 1024 * f j + 95" using uint_pte_or [of ?pte PTE_A] fla(2) small fl(2) 1 by simp
    show ?thesis
    proof (rule that)
      show "handle_fault addr c st = Inr (set_pte ?p (?pte OR PTE_A) st)"
        using a 1 fla(2) fl(4) by (simp add: handle_fault_def Let_def test_page [OF a])
      show "vm_inv img f order (set_pte ?p (?pte OR PTE_A) st)"
        by (rule vm_inv_set_pte [OF inv j u]) (use 1 fl(3) in simp_all)
      show "faults_left (?pte OR PTE_A) < faults_left ?pte"
        using user_access_flags [OF u] fla 1 by (simp add: faults_left_def)
    qed
  next
    case 2
    have u: "uint (?pte OR PTE_D) = 1024 * f j + 223" using uint_pte_or [of ?pte PTE_D] fla(3) small fl(2) 2 by simp
    show ?thesis
    proof (rule that)
      show "handle_fault addr c st = Inr (set_pte ?p (?pte OR PTE_D) st)"
        using a 2 fla fl(4) by (simp add: handle_fault_def Let_def test_page [OF a])
      show "vm_inv img f order (set_pte ?p (?pte OR PTE_D) st)"
        by (rule vm_inv_set_pte [OF inv j u]) simp_all
      show "faults_left (?pte OR PTE_D) < faults_left ?pte"
        using user_access_flags [OF u] fla 2 by (simp add: faults_left_def)
    qed
  qed
qed

lemma user_view_set_pte:
  assumes "vm_inv img f order st" "vm_inv img f order (set_pte p pte st)" "q \<in> {1..<63}"
  shows "user_view (set_pte p pte st) q = user_view st q"
proof (cases "q \<in> set order")
  case True
  then obtain j where j: "j < length order" "q = order ! j" by (auto simp: in_set_conv_nth)
  show ?thesis
    by (rule user_view_mapped [OF assms(1) j], rule user_view_mapped [OF assms(2) j]) (simp add: set_pte_def)
next
  case False
  then show ?thesis using user_view_unmapped(2) assms by auto
qed

lemma user_view_map_page:
  assumes inv: "vm_inv img f order st" and p: "p \<in> {1..<63} - set order" and q: "q \<in> {1..<63}"
  shows "user_view (map_page p (length order) (word_of_int (f (length order))) (img p) st) q = user_view st q"
    (is "user_view ?st q = _")
proof -
  note inv' = vm_inv_map_page [OF inv p]
  consider "q = p" | j where "j < length order" "q = order ! j" | "q \<notin> set order" "q \<noteq> p"
    by (auto simp: in_set_conv_nth)
  then show ?thesis
  proof cases
    case 1
    have "user_view ?st p = frames ?st (word_of_int (f (length order)))"
      by (rule user_view_mapped [OF inv', of "length order" p]) simp_all
    then show ?thesis using user_view_unmapped(2) [OF inv p] 1 by (simp add: map_page_def)
  next
    case 2
    have l: "length order < 63" using order_length(1) [of order] inv by (simp add: vm_inv_def)
    have "(word_of_int (f j) :: u32) \<noteq> word_of_int (f (length order))"
      using frame_distinct(2) [of f st j "length order"] inv l 2(1) by (simp add: vm_inv_def)
    moreover have "user_view ?st q = frames ?st (word_of_int (f j))"
      by (rule user_view_mapped [OF inv', of j q]) (use 2 in \<open>simp_all add: nth_append\<close>)
    moreover have "user_view st q = frames st (word_of_int (f j))" by (rule user_view_mapped [OF inv 2])
    ultimately show ?thesis by (simp add: map_page_def)
  next
    case 3
    then show ?thesis using user_view_unmapped(2) [OF inv] user_view_unmapped(2) [OF inv'] q by auto
  qed
qed

definition page_fault :: "u32 \<Rightarrow> bool" where
  "page_fault c \<longleftrightarrow> c = CAUSE_FETCH_PAGE_FAULT \<or> c = CAUSE_LOAD_PAGE_FAULT \<or> c = CAUSE_STORE_PAGE_FAULT"

lemma handle_fault_serves:
  assumes inv: "vm_inv img f order st" and a: "PGSIZE \<le> addr \<and> addr < 63 * PGSIZE"
    and c: "\<not> user_access (user_l3pt st (page_of addr)) c" "page_fault c"
  obtains st' order' where "handle_fault addr c st = Inr st'" "vm_inv img f order' st'"
    "\<forall>q \<in> {1..<63}. user_view st' q = user_view st q"
    "faults_left (user_l3pt st' (page_of addr)) < faults_left (user_l3pt st (page_of addr))"
proof (cases "page_of addr \<in> set order")
  case True
  then obtain j where j: "j < length order" "page_of addr = order ! j" by (auto simp: in_set_conv_nth)
  obtain pte where pte: "handle_fault addr c st = Inr (set_pte (page_of addr) pte st)"
    "vm_inv img f order (set_pte (page_of addr) pte st)" "faults_left pte < faults_left (user_l3pt st (page_of addr))"
    using handle_fault_mapped [OF inv a j c(1)] c(2) by (auto simp: page_fault_def)
  show ?thesis
    by (rule that [OF pte(1,2)]) (use pte user_view_set_pte [OF inv] in \<open>auto simp: set_pte_def\<close>)
next
  case False
  then have p: "page_of addr \<in> {1..<63} - set order" using test_page(1) [OF a] by simp
  let ?st = "map_page (page_of addr) (length order) (word_of_int (f (length order))) (img (page_of addr)) st"
  have inv': "vm_inv img f (order @ [page_of addr]) ?st" by (rule vm_inv_map_page [OF inv p])
  have "user_l3pt ?st (page_of addr) \<noteq> 0"
    by (rule user_view_mapped [OF inv', of "length order" "page_of addr"]) simp_all
  then have "faults_left (user_l3pt ?st (page_of addr)) < faults_left (user_l3pt st (page_of addr))"
    using user_view_unmapped(1) [OF inv p] by (simp add: faults_left_def)
  then show ?thesis
    using that [OF handle_fault_first [OF inv a False] inv'] user_view_map_page [OF inv p] by simp
qed

section \<open>Runs of a test\<close>

text \<open>
  A run starts behind \<^verbatim>\<open>vm_boot\<close> with empty page tables and goes on with page faults, which the core raises for an
  access that the entry of the page does not allow, and with stores to pages that allow them.
\<close>

definition user_store :: "nat \<Rightarrow> page \<Rightarrow> vm_state \<Rightarrow> vm_state" where
  "user_store p content st = st\<lparr>frames := (frames st)(user_frame st p := content)\<rparr>"

inductive test_run :: "(nat \<Rightarrow> page) \<Rightarrow> vm_state \<Rightarrow> bool" for img where
  boot: "test_run img st"
    if "vm_boot entropy 0 pt trap_entry scratch test_addr st0 = Some (tf, csrs, st)"
      "\<forall>p. user_l3pt st0 p = 0 \<and> node_addr (user_mapping st0 p) = 0"
      "\<forall>p \<in> {1..<63}. frames st0 (word_of_int (0x80000 + int p)) = img p"
| fault: "test_run img st'"
    if "test_run img st" "handle_trap load tf st = Inr (tf', st')" "page_fault (tf_cause tf)"
      "PGSIZE \<le> tf_badvaddr tf \<and> tf_badvaddr tf < 63 * PGSIZE"
      "\<not> user_access (user_l3pt st (page_of (tf_badvaddr tf))) (tf_cause tf)"
| store: "test_run img (user_store p content st)"
    if "test_run img st" "p \<in> {1..<63}" "user_access (user_l3pt st p) CAUSE_STORE_PAGE_FAULT"

lemma handle_trap_fault:
  "page_fault (tf_cause tf) \<Longrightarrow>
   handle_trap load tf st = (case handle_fault (tf_badvaddr tf) (tf_cause tf) st of Inl e \<Rightarrow> Inl e | Inr st' \<Rightarrow> Inr (tf, st'))"
  by (auto simp: handle_trap_def page_fault_def)

lemma store_page:
  assumes inv: "vm_inv img f order st" and p: "p \<in> {1..<63}" and acc: "user_access (user_l3pt st p) CAUSE_STORE_PAGE_FAULT"
  shows "vm_inv img f order (user_store p content st)"
    "q \<in> {1..<63} \<Longrightarrow> user_view (user_store p content st) q = (if q = p then content else user_view st q)"
proof -
  define st' where "st' = user_store p content st"
  note I = inv [unfolded vm_inv_def]
  have "p \<in> set order" using user_view_unmapped(1) [OF inv] p acc by fastforce
  then obtain j where j: "j < length order" "p = order ! j" by (auto simp: in_set_conv_nth)
  obtain fl where fl: "fl \<in> {31, 95, 223}" "uint (user_l3pt st p) = 1024 * f j + fl" and uf: "user_frame st p = word_of_int (f j)"
    using user_view_mapped [OF inv j] by metis
  then have "fl = 223" using acc user_access_flags(1) [OF fl(2,1)] by simp
  have len: "length order \<le> 62" using order_length(1) [of order] I by simp
  have other: "(word_of_int (f i) :: u32) = word_of_int (f j) \<longleftrightarrow> i = j" if "i < length order" for i
    using frame_distinct(2) [of f st i j] I that j len by simp
  have image: "(word_of_int (0x80000 + int q) :: u32) \<noteq> word_of_int (f j)" if "q \<in> {1..<63}" for q
    using frame_distinct(1) [of f st j q] I that j len by fastforce
  have st': "frames st' = (frames st)(word_of_int (f j) := content)" "user_l3pt st' = user_l3pt st"
    by (simp_all add: st'_def user_store_def uf)
  have "mapped_page img (f i) (order ! i) st'" if "i < length order" for i
  proof (cases "i = j")
    case True
    then show ?thesis using fl(2) \<open>fl = 223\<close> j(2) by (simp add: mapped_page_def st')
  next
    case False
    then show ?thesis using I that other [OF that] by (simp add: mapped_page_def st')
  qed
  then have inv': "vm_inv img f order st'"
    using I image unfolding vm_inv_def by (simp add: st'_def user_store_def uf free_chain_def)
  then show "vm_inv img f order (user_store p content st)" by (simp add: st'_def)
  show "user_view (user_store p content st) q = (if q = p then content else user_view st q)" if q: "q \<in> {1..<63}"
  proof (cases "q \<in> set order")
    case True
    then obtain i where i: "i < length order" "q = order ! i" by (auto simp: in_set_conv_nth)
    have "user_view st q = frames st (word_of_int (f i))" "user_view st' q = frames st' (word_of_int (f i))"
      by (rule user_view_mapped [OF inv i], assumption, rule user_view_mapped [OF inv' i], assumption)
    moreover have "q = p \<longleftrightarrow> i = j" using i j I by (simp add: nth_eq_iff_index_eq)
    ultimately show ?thesis using other [OF i(1)] by (simp add: st'_def user_store_def uf)
  next
    case False
    then show ?thesis using user_view_unmapped(2) [OF inv, of q] user_view_unmapped(2) [OF inv', of q] q \<open>p \<in> set order\<close> by (auto simp: st'_def)
  qed
qed

lemma boot_random: "uint (1 + entropy mod 63 :: u32) \<in> {1..63}"
proof -
  have "uint (entropy mod 63 :: u32) = uint entropy mod 63" by (simp add: uint_mod)
  then show ?thesis by (simp add: uint_word_ariths)
qed

definition boot_frame :: "u32 \<Rightarrow> nat \<Rightarrow> int" where
  "boot_frame entropy j = 0x8003F + (lfsr_int ^^ j) (uint (1 + entropy mod 63))"

lemma boot_frame_all: "inj_on (boot_frame entropy) {..<63}" "boot_frame entropy ` {..<63} = {0x80040..0x8007E}"
proof -
  let ?r = "1 + entropy mod 63"
  have "inj_on (\<lambda>j. (lfsr_int ^^ j) (uint ?r)) {..<63}"
    using lfsr_int_all(1) [OF boot_random, of entropy] by (auto simp: inj_on_def distinct_conv_nth nth_iter_list)
  then show "inj_on (boot_frame entropy) {..<63}" by (auto simp: boot_frame_def inj_on_def)
  have "(\<lambda>j. (lfsr_int ^^ j) (uint ?r)) ` {..<63} = {1..63}"
    unfolding lfsr_int_all(2) [OF boot_random, of entropy, symmetric]
    by (auto simp: set_conv_nth nth_iter_list intro!: exI)
  then have "(\<lambda>x. 0x8003F + x) ` (\<lambda>j. (lfsr_int ^^ j) (uint ?r)) ` {..<63} = {0x80040..0x8007E}" by simp
  then show "boot_frame entropy ` {..<63} = {0x80040..0x8007E}" by (simp add: image_image boot_frame_def)
qed

lemma vm_boot_chain:
  assumes boot: "vm_boot entropy 0 pt trap_entry scratch test_addr st0 = Some (tf, csrs, st)"
  shows "free_chain (boot_frame entropy) st"
proof -
  let ?r = "1 + entropy mod 63"
  have "uint (DRAM_BASE + (63 + (LFSR_NEXT ^^ j) ?r) * PGSIZE) = 4096 * boot_frame entropy j" for j
    using uint_LFSR_iter [OF boot_random, of j entropy] by (simp add: boot_frame_def uint_word_ariths)
  moreover have "freelist_nodes st j = \<lparr>node_addr = DRAM_BASE + (63 + (LFSR_NEXT ^^ j) ?r) * PGSIZE,
      node_next = (if j = 62 then None else Some (Freelist_node (Suc j)))\<rparr>" if "j < 63" for j
    using boot that boot_nodes_nth [of 0 63 ?r "freelist_nodes st0"] by (auto simp: vm_boot_def Let_def)
  ultimately show ?thesis by (simp add: free_chain_def boot_frame_all)
qed

lemma vm_boot_inv:
  assumes boot: "vm_boot entropy 0 pt trap_entry scratch test_addr st0 = Some (tf, csrs, st)"
    and empty: "\<forall>p. user_l3pt st0 p = 0 \<and> node_addr (user_mapping st0 p) = 0"
    and img: "\<forall>p \<in> {1..<63}. frames st0 (word_of_int (0x80000 + int p)) = img p"
  shows "vm_inv img (boot_frame entropy) [] st"
proof -
  have "l1pt st 1023 = 0x200000CF" "freelist_head st = Some (Freelist_node 0)" "freelist_tail st = Some (Freelist_node 62)"
    "user_l3pt st = user_l3pt st0" "user_mapping st = user_mapping st0" "frames st = frames st0"
    using boot by (auto simp: vm_boot_def Let_def)
  then show ?thesis using empty img vm_boot_chain [OF boot] by (simp add: vm_inv_def)
qed

lemma test_run_inv: "test_run img st \<Longrightarrow> \<exists>f order. vm_inv img f order st"
proof (induction rule: test_run.induct)
  case boot
  then show ?case using vm_boot_inv by blast
next
  case (fault st load tf tf' st')
  then obtain f order where inv: "vm_inv img f order st" by blast
  obtain st'' order' where "handle_fault (tf_badvaddr tf) (tf_cause tf) st = Inr st''" "vm_inv img f order' st''"
    using handle_fault_serves [OF inv fault(4) fault(5) fault(3)] by metis
  then show ?case using fault(2) by (auto simp: handle_trap_fault [OF fault(3)])
next
  case (store st p content)
  then show ?case using store_page(1) by blast
qed

section \<open>The end of a test\<close>

lemma evict_push_fields [simp]:
  "l1pt (evict_push p st) = l1pt st" "user_l3pt (evict_push p st) = user_l3pt st" "frames (evict_push p st) = frames st"
  "node_addr (user_mapping (evict_push p st) q) = (if q = p then 0 else node_addr (user_mapping st q))"
  by (cases "freelist_tail st"; cases "the (freelist_tail st)"; simp add: evict_push_def)+

definition evictable :: "(nat \<Rightarrow> page) \<Rightarrow> nat set \<Rightarrow> vm_state \<Rightarrow> bool" where
  "evictable img ps st \<longleftrightarrow>
     l1pt st 1023 = 0x200000CF \<and> (\<forall>p \<in> {1..<63}. frames st (word_of_int (0x80000 + int p)) = img p) \<and>
     (\<forall>p \<in> ps. node_addr (user_mapping st p) \<noteq> 0 \<longrightarrow>
        (user_l3pt st p AND PTE_D = 0 \<longrightarrow> frames st (user_frame st p) = img p) \<and>
        (\<forall>q \<in> {1..<63}. user_frame st p \<noteq> word_of_int (0x80000 + int q)) \<and>
        (\<forall>q \<in> ps. node_addr (user_mapping st q) \<noteq> 0 \<and> user_frame st q = user_frame st p \<longrightarrow> q = p))"



text \<open>
  The state after a mapped page has been evicted: its node is at the end of the free list, and the physical page has the content of the image, from which
  \<^verbatim>\<open>evict\<close> copies when the two differ.
\<close>

definition evicted :: "(nat \<Rightarrow> page) \<Rightarrow> nat \<Rightarrow> vm_state \<Rightarrow> vm_state" where
  "evicted img p st = (evict_push p st)\<lparr>frames := (frames st)(user_frame st p := img p)\<rparr>"



lemma evicted_fields [simp]:
  "user_l3pt (evicted img p st) = user_l3pt st" "user_frame (evicted img p st) = user_frame st"
  "node_addr (user_mapping (evicted img p st) q) = (if q = p then 0 else node_addr (user_mapping st q))"
  "frames (evicted img p st) = (frames st)(user_frame st p := img p)"
  by (simp_all add: evicted_def user_frame_def fun_eq_iff)







lemma vm_inv_evictable:
  assumes inv: "vm_inv img f order st"
  shows "evictable img (set [1..<63]) st"
    "p \<in> {1..<63} \<Longrightarrow> node_addr (user_mapping st p) \<noteq> 0 \<longleftrightarrow> user_l3pt st p \<noteq> 0"
proof -
  note I = inv [unfolded vm_inv_def]
  have len: "length order \<le> 62" using order_length(1) [of order] I by simp
  have mapped: "\<exists>j < length order. p = order ! j" if "p \<in> {1..<63}" "node_addr (user_mapping st p) \<noteq> 0" for p
    using I that unfolding in_set_conv_nth [symmetric] by (metis DiffI in_set_conv_nth)
  show iff: "node_addr (user_mapping st p) \<noteq> 0 \<longleftrightarrow> user_l3pt st p \<noteq> 0" if p: "p \<in> {1..<63}" for p
  proof (cases "p \<in> set order")
    case True
    then obtain j where j: "j < length order" "p = order ! j" by (auto simp: in_set_conv_nth)
    have "user_l3pt st p \<noteq> 0" by (rule user_view_mapped [OF inv j])
    moreover have "node_addr (user_mapping st p) \<noteq> 0"
      using free_chainD(3) [of f st j] I j len by simp
    ultimately show ?thesis by simp
  qed (use I p in auto)
  have "(user_l3pt st p AND PTE_D = 0 \<longrightarrow> frames st (user_frame st p) = img p) \<and>
      (\<forall>q \<in> {1..<63}. user_frame st p \<noteq> word_of_int (0x80000 + int q)) \<and>
      (\<forall>q \<in> {1..<63}. node_addr (user_mapping st q) \<noteq> 0 \<and> user_frame st q = user_frame st p \<longrightarrow> q = p)"
    if p: "p \<in> {1..<63}" "node_addr (user_mapping st p) \<noteq> 0" for p
  proof -
    obtain j where j: "j < length order" "p = order ! j" using mapped [OF p] by blast
    have chain: "free_chain f st" "j < 63" using I j len by simp_all
    obtain fl where fl: "fl \<in> {31, 95, 223}" "uint (user_l3pt st p) = 1024 * f j + fl"
      "fl = 223 \<or> frames st (word_of_int (f j)) = img p" "user_frame st p = word_of_int (f j)"
      using user_view_mapped [OF inv j] by metis
    have "q = p" if q: "q \<in> {1..<63}" "node_addr (user_mapping st q) \<noteq> 0" "user_frame st q = user_frame st p" for q
    proof -
      obtain i where i: "i < length order" "q = order ! i" using mapped q by blast
      have "user_frame st q = word_of_int (f i)" by (rule user_view_mapped [OF inv i])
      then show ?thesis using frame_distinct(2) [OF chain, of i] i j len q(3) fl(4) by simp
    qed
    then show ?thesis using fl user_access_flags(3) [OF fl(2,1)] frame_distinct(1) [OF chain] by auto
  qed
  then show "evictable img (set [1..<63]) st"
    using I unfolding evictable_def by (simp add: atLeastLessThan_upt [symmetric])
qed

section \<open>Properties\<close>

text \<open>An access that faults is made again when the handler returns, at most \<open>n\<close> times.\<close>

fun retry :: "nat \<Rightarrow> (u32 \<Rightarrow> u32) \<Rightarrow> trapframe_t \<Rightarrow> vm_state \<Rightarrow> vm_exit + vm_state" where
  "retry 0 load tf st = Inr st"
| "retry (Suc n) load tf st =
     (if user_access (user_l3pt st (page_of (tf_badvaddr tf))) (tf_cause tf) then Inr st
      else case handle_trap load tf st of Inl e \<Rightarrow> Inl e | Inr (tf', st') \<Rightarrow> retry n load tf' st')"

lemma handle_trap_serves:
  assumes run: "test_run img st" and c: "page_fault (tf_cause tf)"
    and a: "PGSIZE \<le> tf_badvaddr tf \<and> tf_badvaddr tf < 63 * PGSIZE"
    and fault: "\<not> user_access (user_l3pt st (page_of (tf_badvaddr tf))) (tf_cause tf)"
  obtains st' where "handle_trap load tf st = Inr (tf, st')" "test_run img st'"
    "\<forall>q \<in> {1..<63}. user_view st' q = user_view st q"
    "faults_left (user_l3pt st' (page_of (tf_badvaddr tf))) < faults_left (user_l3pt st (page_of (tf_badvaddr tf)))"
proof -
  obtain f order where "vm_inv img f order st" using test_run_inv [OF run] by blast
  from handle_fault_serves [OF this a fault c] obtain st' where st': "handle_fault (tf_badvaddr tf) (tf_cause tf) st = Inr st'"
    "\<forall>q \<in> {1..<63}. user_view st' q = user_view st q"
    "faults_left (user_l3pt st' (page_of (tf_badvaddr tf))) < faults_left (user_l3pt st (page_of (tf_badvaddr tf)))"
    by metis
  then have h: "handle_trap load tf st = Inr (tf, st')" by (simp add: handle_trap_fault [OF c])
  show ?thesis by (rule that [OF h test_run.fault [OF run h c a fault] st'(2,3)])
qed

lemma retry_serves:
  assumes "test_run img st" "page_fault (tf_cause tf)" "PGSIZE \<le> tf_badvaddr tf \<and> tf_badvaddr tf < 63 * PGSIZE"
    "faults_left (user_l3pt st (page_of (tf_badvaddr tf))) \<le> n"
  shows "\<exists>st'. retry n load tf st = Inr st' \<and> user_access (user_l3pt st' (page_of (tf_badvaddr tf))) (tf_cause tf) \<and>
    test_run img st' \<and> (\<forall>q \<in> {1..<63}. user_view st' q = user_view st q)"
  using assms
proof (induction n arbitrary: st)
  case 0
  then have "user_access (user_l3pt st (page_of (tf_badvaddr tf))) (tf_cause tf)" using handle_trap_serves [OF 0(1-3)] by fastforce
  then show ?case using 0 by simp
next
  case (Suc n)
  show ?case
  proof (cases "user_access (user_l3pt st (page_of (tf_badvaddr tf))) (tf_cause tf)")
    case False
    obtain st' where st': "handle_trap load tf st = Inr (tf, st')" "test_run img st'"
      "\<forall>q \<in> {1..<63}. user_view st' q = user_view st q" "faults_left (user_l3pt st' (page_of (tf_badvaddr tf))) \<le> n"
      using handle_trap_serves [OF Suc.prems(1-3) False, of load] Suc.prems(4) by (metis le_simps(2) less_le_trans)
    show ?thesis using Suc.IH [OF st'(2) Suc.prems(2,3) st'(4)] st'(3) by (simp add: False st'(1))
  qed (use Suc.prems(1) in simp)
qed

text \<open>C18. For every value of ENTROPY vm_boot builds a null-terminated free list of all 63 physical pages behind the image, each exactly once, because the shift register LFSR_NEXT runs through all of 1 to 63.\<close>

theorem vm_boot_free_pages:
  "case vm_boot entropy 0 pt trap_entry scratch test_addr st0 of
     None \<Rightarrow> False
   | Some (tf, csrs, st) \<Rightarrow>
       freelist_head st = Some (Freelist_node 0) \<and> freelist_tail st = Some (Freelist_node 62) \<and>
       map (\<lambda>i. node_next (freelist_nodes st i)) [0..<63] = map (\<lambda>i. Some (Freelist_node (i + 1))) [0..<62] @ [None] \<and>
       distinct (map (\<lambda>i. node_addr (freelist_nodes st i)) [0..<63]) \<and>
       (\<lambda>i. uint (node_addr (freelist_nodes st i))) ` {..<63} = (\<lambda>r. 0x80000000 + (63 + r) * 0x1000) ` {1..63}"
proof -
  obtain tf csrs st where boot: "vm_boot entropy 0 pt trap_entry scratch test_addr st0 = Some (tf, csrs, st)"
    by (simp add: vm_boot_def Let_def)
  note chain = vm_boot_chain [OF boot, unfolded free_chain_def]
  have "distinct (map (\<lambda>i. node_addr (freelist_nodes st i)) [0..<63])"
  proof -
    have "inj_on (\<lambda>i. node_addr (freelist_nodes st i)) {..<63}"
    proof (rule inj_onI)
      fix i j assume "i \<in> {..<63}" "j \<in> {..<63}" "node_addr (freelist_nodes st i) = node_addr (freelist_nodes st j)"
      then have "4096 * boot_frame entropy i = 4096 * boot_frame entropy j" using chain by (metis lessThan_iff)
      then show "i = j" using \<open>i \<in> _\<close> \<open>j \<in> _\<close> boot_frame_all(1) [of entropy] by (simp add: inj_on_eq_iff)
    qed
    then show ?thesis by (simp only: distinct_map set_upt distinct_upt atLeast0LessThan)
  qed
  moreover have "(\<lambda>i. uint (node_addr (freelist_nodes st i))) ` {..<63} = (\<lambda>r. 0x80000000 + (63 + r) * 0x1000) ` {1..63}"
  proof -
    have "(\<lambda>i. uint (node_addr (freelist_nodes st i))) ` {..<63} = (\<lambda>x. 4096 * x) ` boot_frame entropy ` {..<63}"
      unfolding image_image using chain by (intro image_cong) simp_all
    also have "\<dots> = (\<lambda>x. 4096 * x) ` (\<lambda>r. 0x8003F + r) ` {1..63}" by (simp add: boot_frame_all(2))
    finally show ?thesis unfolding image_image by (simp add: algebra_simps)
  qed
  moreover have "map (\<lambda>i. node_next (freelist_nodes st i)) [0..<63] = map (\<lambda>i. Some (Freelist_node (i + 1))) [0..<62] @ [None]"
  proof -
    have "[0..<63] = [0..<62] @ [62 :: nat]" using upt_Suc_append [of 0 62] by (simp del: upt_rec_numeral upt_Suc)
    then show ?thesis using chain by (simp del: upt_rec_numeral)
  qed
  moreover have "freelist_head st = Some (Freelist_node 0)" "freelist_tail st = Some (Freelist_node 62)"
    using boot by (auto simp: vm_boot_def Let_def)
  ultimately show ?thesis by (simp add: boot del: upt_rec_numeral)
qed

text \<open>C15. In every state that a test can reach, an access to a page of the test is allowed after at most three page faults: no assertion of the fault handler fails and the free list does not run out, and the user finds the same content in every page as before.\<close>

theorem page_faults_served:
  assumes "test_run img st" "page_fault (tf_cause tf)" "PGSIZE \<le> tf_badvaddr tf \<and> tf_badvaddr tf < 63 * PGSIZE"
  shows "\<exists>st'. retry 3 load tf st = Inr st' \<and> user_access (user_l3pt st' (page_of (tf_badvaddr tf))) (tf_cause tf) \<and>
    test_run img st' \<and> (\<forall>q \<in> {1..<63}. user_view st' q = user_view st q)"
  by (rule retry_serves [OF assms]) (simp add: faults_left_def)

text \<open>C16. In every state that a test can reach, the pages of the user behave as a flat memory: a store to a page changes the content the user sees in that page and in no other, different pages have different physical pages, a page without the dirty bit has the content of the test image, and the image itself is never changed.\<close>

theorem user_memory_flat:
  assumes "test_run img st" "p \<in> {1..<63}" "q \<in> {1..<63}"
  shows "(user_access (user_l3pt st p) CAUSE_STORE_PAGE_FAULT \<longrightarrow>
      user_view (user_store p content st) q = (if q = p then content else user_view st q)) \<and>
    (user_l3pt st p AND PTE_D = 0 \<longrightarrow> user_view st p = img p) \<and>
    frames st (kernel_frame st (uva2kva (of_nat p * PGSIZE))) = img p \<and>
    (user_l3pt st p \<noteq> 0 \<and> user_l3pt st q \<noteq> 0 \<and> user_frame st p = user_frame st q \<longrightarrow> p = q)"
proof -
  obtain f order where inv: "vm_inv img f order st" using test_run_inv assms(1) by blast
  note E = vm_inv_evictable(1) [OF inv, unfolded evictable_def]
  have k: "frames st (kernel_frame st (uva2kva (of_nat p * PGSIZE))) = img p"
    using kernel_frame_image [of st p] E assms(2) by simp
  have E': "(user_l3pt st p AND PTE_D = 0 \<longrightarrow> frames st (user_frame st p) = img p) \<and>
      (user_l3pt st q \<noteq> 0 \<and> user_frame st q = user_frame st p \<longrightarrow> q = p)" if "user_l3pt st p \<noteq> 0"
    using E vm_inv_evictable(2) [OF inv] assms(2,3) that by (metis atLeastLessThan_upt)
  then show ?thesis using store_page(2) [OF inv assms(2) _ assms(3)] k by (auto simp: user_view_def)
qed



text \<open>C19. The random numbers of coherence_torture are all zero after 32 steps, whatever ENTROPY is: the 63-bit shift register is stored in a 32-bit variable and loses its feedback bit, so that the loop touches one fixed address from then on.\<close>

theorem coherence_torture_stalls:
  "(torture_next ^^ (32 + n)) entropy = 0 \<and> torture_paddr ((torture_next ^^ (32 + n)) entropy) = DRAM_BASE"
proof -
  have "drop_bit (32 + n) entropy = 0" by (rule bit_eqI) (simp add: bit_simps bit_word.rep_eq)
  then show ?thesis by (simp add: torture_iter torture_paddr_def)
qed

section \<open>Witnesses\<close>

definition reset_state :: vm_state where
  "reset_state = \<lparr>l1pt = (\<lambda>_. 0), user_l3pt = (\<lambda>_. 0), user_mapping = (\<lambda>_. \<lparr>node_addr = 0, node_next = None\<rparr>),
     freelist_nodes = (\<lambda>_. \<lparr>node_addr = 0, node_next = None\<rparr>), freelist_head = None, freelist_tail = None, frames = (\<lambda>_. [])\<rparr>"

definition booted_state :: vm_state where
  "booted_state = snd (snd (the (vm_boot 0 0 0x80010000 0x80000100 0x80020000 0x80002000 reset_state)))"

lemma booted_run: "test_run (\<lambda>_. []) booted_state"
proof (rule test_run.boot)
  show "vm_boot 0 0 0x80010000 0x80000100 0x80020000 0x80002000 reset_state =
    Some (fst (the (vm_boot 0 0 0x80010000 0x80000100 0x80020000 0x80002000 reset_state)),
      fst (snd (the (vm_boot 0 0 0x80010000 0x80000100 0x80020000 0x80002000 reset_state))), booted_state)"
    by (simp add: booted_state_def vm_boot_def Let_def)
qed (simp_all add: reset_state_def)

definition store_fault :: trapframe_t where
  "store_fault = \<lparr>tf_gpr = (\<lambda>_. 1), tf_sr = 0, tf_epc = 0x2000, tf_badvaddr = 0x3004, tf_cause = CAUSE_STORE_PAGE_FAULT\<rparr>"

theorem page_faults_served_witness:
  "\<exists>st'. retry 3 (\<lambda>_. 0) store_fault booted_state = Inr st' \<and>
    user_access (user_l3pt st' (page_of (tf_badvaddr store_fault))) (tf_cause store_fault) \<and>
    test_run (\<lambda>_. []) st' \<and> (\<forall>q \<in> {1..<63}. user_view st' q = user_view booted_state q)"
  by (rule page_faults_served [OF booted_run]) (simp_all add: store_fault_def page_fault_def)

theorem user_memory_flat_witness:
  "frames booted_state (kernel_frame booted_state (uva2kva (of_nat 5 * PGSIZE))) = []"
  using user_memory_flat [OF booted_run, of 5 7] by simp


end
