(* ===== verification/Env_String.thy ===== *)
theory Env_String
  imports Prelude "HOL-Library.Monad_Syntax"
begin

unbundle bit_operations_syntax

text \<open>
  The memory and string routines of the test environment, \<^verbatim>\<open>src/riscv-tools/riscv-tests/env/v/string.c\<close>, on a byte-addressed
  memory of the 32-bit core.  \<^verbatim>\<open>memcpy\<close>, \<^verbatim>\<open>memset\<close> and \<^verbatim>\<open>memcmp\<close> work on words when their operands are aligned; the theorems show that
  they always do what the byte-wise definitions say.  A loop that does not end is the value \<^const>\<open>None\<close>.
\<close>

section \<open>Memory\<close>

type_synonym memory = "u32 \<Rightarrow> u8"

definition load_word :: "memory \<Rightarrow> u32 \<Rightarrow> u32" where
  "load_word m a = ucast (m a) OR push_bit 8 (ucast (m (a + 1))) OR push_bit 16 (ucast (m (a + 2))) OR push_bit 24 (ucast (m (a + 3)))"

definition store_word :: "memory \<Rightarrow> u32 \<Rightarrow> u32 \<Rightarrow> memory" where
  "store_word m a w = m(a := ucast w, a + 1 := ucast (drop_bit 8 w), a + 2 := ucast (drop_bit 16 w), a + 3 := ucast (drop_bit 24 w))"

section \<open>The routines\<close>

partial_function (option) copy_words :: "u32 \<Rightarrow> u32 \<Rightarrow> u32 \<Rightarrow> memory \<Rightarrow> memory option" where
  "copy_words d s e m = (if d < e then copy_words (d + 4) (s + 4) e (store_word m d (load_word m s)) else Some m)"

partial_function (option) copy_bytes :: "u32 \<Rightarrow> u32 \<Rightarrow> u32 \<Rightarrow> memory \<Rightarrow> memory option" where
  "copy_bytes d s e m = (if d < e then copy_bytes (d + 1) (s + 1) e (m(d := m s)) else Some m)"

definition memcpy :: "u32 \<Rightarrow> u32 \<Rightarrow> u32 \<Rightarrow> memory \<Rightarrow> memory option" where
  "memcpy dest src len m =
     (if (dest OR src OR len) AND 3 = 0 then copy_words dest src (dest + len) m else copy_bytes dest src (dest + len) m)"

partial_function (option) set_words :: "u32 \<Rightarrow> u32 \<Rightarrow> u32 \<Rightarrow> memory \<Rightarrow> memory option" where
  "set_words d e w m = (if d < e then set_words (d + 4) e w (store_word m d w) else Some m)"

partial_function (option) set_bytes :: "u32 \<Rightarrow> u32 \<Rightarrow> u8 \<Rightarrow> memory \<Rightarrow> memory option" where
  "set_bytes d e b m = (if d < e then set_bytes (d + 1) e b (m(d := b)) else Some m)"

definition memset :: "u32 \<Rightarrow> u32 \<Rightarrow> u32 \<Rightarrow> memory \<Rightarrow> memory option" where
  "memset dest byte len m =
     (if (dest OR len) AND 3 = 0 then
        let w = byte AND 0xFF;
            w = w OR push_bit 8 w;
            w = w OR push_bit 16 w;
            w = w OR push_bit 16 (push_bit 16 w)
        in set_words dest (dest + len) w m
      else set_bytes dest (dest + len) (ucast byte) m)"

partial_function (option) skip_words :: "u32 \<Rightarrow> u32 \<Rightarrow> u32 \<Rightarrow> memory \<Rightarrow> (u32 \<times> u32) option" where
  "skip_words u1 u2 e m =
     (if u1 < e then if load_word m u1 \<noteq> load_word m u2 then Some (u1, u2) else skip_words (u1 + 4) (u2 + 4) e m
      else Some (u1, u2))"

partial_function (option) compare_bytes :: "u32 \<Rightarrow> u32 \<Rightarrow> u32 \<Rightarrow> memory \<Rightarrow> int option" where
  "compare_bytes s1 s2 n m =
     (if n \<noteq> 0 then if m s1 \<noteq> m s2 then Some (uint (m s1) - uint (m s2)) else compare_bytes (s1 + 1) (s2 + 1) (n - 1) m
      else Some 0)"

definition memcmp :: "u32 \<Rightarrow> u32 \<Rightarrow> u32 \<Rightarrow> memory \<Rightarrow> int option" where
  "memcmp s1 s2 n m =
     (if (s1 OR s2) AND 3 = 0 then do {
        (u1, u2) \<leftarrow> skip_words s1 s2 (s1 + 4 * (n div 4)) m;
        compare_bytes u1 u2 (n - (u1 - s1)) m }
      else compare_bytes s1 s2 n m)"

partial_function (option) strlen_loop :: "u32 \<Rightarrow> memory \<Rightarrow> u32 option" where
  "strlen_loop p m = (if m p \<noteq> 0 then strlen_loop (p + 1) m else Some p)"

definition strlen :: "u32 \<Rightarrow> memory \<Rightarrow> u32 option" where
  "strlen s m = map_option (\<lambda>p. p - s) (strlen_loop s m)"

partial_function (option) strcmp :: "u32 \<Rightarrow> u32 \<Rightarrow> memory \<Rightarrow> int option" where
  "strcmp s1 s2 m = (if m s1 \<noteq> 0 \<and> m s1 = m s2 then strcmp (s1 + 1) (s2 + 1) m else Some (uint (m s1) - uint (m s2)))"

partial_function (option) strcpy :: "u32 \<Rightarrow> u32 \<Rightarrow> memory \<Rightarrow> memory option" where
  "strcpy d src m = (let c = m src; m = m(d := c) in if c \<noteq> 0 then strcpy (d + 1) (src + 1) m else Some m)"

text \<open>\<^verbatim>\<open>atol\<close>: a \<^verbatim>\<open>long\<close> has 32 bits and a \<^verbatim>\<open>char\<close> is unsigned on the core.\<close>

partial_function (option) skip_spaces :: "u32 \<Rightarrow> memory \<Rightarrow> u32 option" where
  "skip_spaces str m = (if m str = 0x20 then skip_spaces (str + 1) m else Some str)"

partial_function (option) atol_digits :: "u32 \<Rightarrow> u32 \<Rightarrow> memory \<Rightarrow> u32 option" where
  "atol_digits str res m = (if m str \<noteq> 0 then atol_digits (str + 1) (res * 10 + (ucast (m str) - 0x30)) m else Some res)"

definition atol :: "u32 \<Rightarrow> memory \<Rightarrow> u32 option" where
  "atol str m = do {
     str \<leftarrow> skip_spaces str m;
     let sign = (m str = 0x2D);
     res \<leftarrow> atol_digits (if m str = 0x2D \<or> m str = 0x2B then str + 1 else str) 0 m;
     Some (if sign then - res else res) }"

section \<open>Bytes of a word\<close>

lemma bit_u8: "bit (b :: u8) i \<Longrightarrow> i < 8"
  using bit_imp_le_length [of b i] by simp

lemma load_word_bytes:
  "ucast (load_word m a) = m a" "ucast (drop_bit 8 (load_word m a)) = m (a + 1)"
  "ucast (drop_bit 16 (load_word m a)) = m (a + 2)" "ucast (drop_bit 24 (load_word m a)) = m (a + 3)"
  by (rule bit_eqI; use bit_u8 in \<open>fastforce simp: load_word_def bit_simps\<close>)+

lemma store_load: "store_word m d (load_word m s) = m(d := m s, d + 1 := m (s + 1), d + 2 := m (s + 2), d + 3 := m (s + 3))"
  by (simp add: store_word_def load_word_bytes)

lemma load_word_eqD:
  assumes "load_word m a = load_word m b"
  shows "m a = m b" "m (a + 1) = m (b + 1)" "m (a + 2) = m (b + 2)" "m (a + 3) = m (b + 3)"
  using assms by (metis load_word_bytes(1), metis load_word_bytes(2), metis load_word_bytes(3), metis load_word_bytes(4))

lemma fill_word_bytes:
  fixes byte :: u32
  defines "w0 \<equiv> byte AND 0xFF"
  defines "w1 \<equiv> w0 OR push_bit 8 w0"
  defines "w2 \<equiv> w1 OR push_bit 16 w1"
  defines "w \<equiv> w2 OR push_bit 16 (push_bit 16 w2)"
  shows "store_word m d w = m(d := ucast byte, d + 1 := ucast byte, d + 2 := ucast byte, d + 3 := ucast byte)"
proof -
  have w0: "bit w0 i \<longleftrightarrow> i < 8 \<and> bit byte i" for i
    using and_low_mask [of byte 8] by (simp add: w0_def bit_take_bit_iff)
  have w: "w = w0 OR push_bit 8 w0 OR push_bit 16 w0 OR push_bit 24 w0"
    by (rule bit_eqI) (auto simp: w_def w2_def w1_def bit_simps)
  have "ucast w = (ucast byte :: u8)" "ucast (drop_bit 8 w) = (ucast byte :: u8)" "ucast (drop_bit 16 w) = (ucast byte :: u8)"
    "ucast (drop_bit 24 w) = (ucast byte :: u8)"
    unfolding w by (rule bit_eqI; auto simp: bit_simps w0)+
  then show ?thesis by (simp add: store_word_def)
qed

section \<open>Copying\<close>

lemma word_less_of_nat: "i < 2 ^ 32 \<Longrightarrow> (x :: u32) < of_nat i \<longleftrightarrow> unat x < i"
  by (simp add: word_less_nat_alt unsigned_of_nat take_bit_eq_mod)

lemma less_end: "unat d + n < 2 ^ 32 \<Longrightarrow> (d :: u32) < d + of_nat n \<longleftrightarrow> 0 < n"
  by (simp add: word_less_nat_alt unat_word_ariths unsigned_of_nat take_bit_eq_mod)

lemma region_Suc:
  assumes "Suc n < 2 ^ 32"
  shows "a - d < (of_nat (Suc n) :: u32) \<longleftrightarrow> a = d \<or> a - (d + 1) < of_nat n"
proof -
  have "x < of_nat (Suc n) \<longleftrightarrow> x = 0 \<or> x - 1 < of_nat n" for x :: u32
  proof (cases "x = 0")
    case False
    then have "unat (x - 1) = unat x - 1" by (simp add: unat_minus_one)
    moreover have "0 < unat x" using False by (simp add: unat_gt_0)
    ultimately show ?thesis using assms False by (simp only: word_less_of_nat Suc_lessD) auto
  qed (use assms in \<open>simp add: word_less_of_nat del: of_nat_Suc\<close>)
  from this [of "a - d"] show ?thesis by (simp add: diff_diff_eq)
qed

definition apart :: "u32 \<Rightarrow> u32 \<Rightarrow> nat \<Rightarrow> bool" where
  "apart d s n \<longleftrightarrow> (\<forall>i < n. \<forall>j < n. s + of_nat i \<noteq> d + of_nat j)"

lemma apart_step: "apart d s (Suc n) \<Longrightarrow> apart (d + 1) (s + 1) n"
  unfolding apart_def
proof (intro allI impI)
  fix i j
  assume a: "\<forall>i < Suc n. \<forall>j < Suc n. s + of_nat i \<noteq> d + of_nat j" "i < n" "j < n"
  then have "s + of_nat (Suc i) \<noteq> d + of_nat (Suc j)" using Suc_mono by blast
  then show "s + 1 + of_nat i \<noteq> d + 1 + of_nat j" by (simp add: add.assoc)
qed

lemma apartD: "apart d s n \<Longrightarrow> i < n \<Longrightarrow> j < n \<Longrightarrow> s + of_nat i \<noteq> d + of_nat j"
  by (simp add: apart_def)

definition copied :: "u32 \<Rightarrow> u32 \<Rightarrow> u32 \<Rightarrow> memory \<Rightarrow> memory" where
  "copied dest src len m = (\<lambda>a. if a - dest < len then m (src + (a - dest)) else m a)"

lemma copy_bytes_correct:
  assumes "unat d + n < 2 ^ 32" "apart d s n"
  shows "copy_bytes d s (d + of_nat n) m = Some (copied d s (of_nat n) m)"
  using assms
proof (induction n arbitrary: d s m)
  case 0
  then show ?case by (subst copy_bytes.simps) (simp add: copied_def)
next
  case (Suc n)
  have "unat (d + 1) = unat d + 1" using Suc.prems(1) by (simp add: unat_word_ariths)
  then have IH: "copy_bytes (d + 1) (s + 1) (d + 1 + of_nat n) (m(d := m s)) = Some (copied (d + 1) (s + 1) (of_nat n) (m(d := m s)))"
    using Suc.prems apart_step by (intro Suc.IH) simp_all
  have "copied (d + 1) (s + 1) (of_nat n) (m(d := m s)) a = copied d s (of_nat (Suc n)) m a" for a
  proof (cases "a - (d + 1) < of_nat n")
    case True
    have "a - d = of_nat (unat (a - (d + 1)) + 1)" by simp
    moreover have "unat (a - (d + 1)) + 1 < Suc n" using True Suc.prems(1) by (simp add: word_less_of_nat)
    ultimately have "s + (a - d) \<noteq> d" using apartD [OF Suc.prems(2), of _ 0] by fastforce
    then show ?thesis using True Suc.prems(1) region_Suc [of n a d] by (simp add: copied_def algebra_simps)
  next
    case False
    then show ?thesis using Suc.prems(1) region_Suc [of n a d] by (auto simp: copied_def)
  qed
  then show ?case
    using less_end [OF Suc.prems(1)] IH by (subst copy_bytes.simps) (simp add: add.assoc fun_eq_iff)
qed

lemma copy_words_bytes:
  assumes "unat d + 4 * n < 2 ^ 32" "apart d s (4 * n)"
  shows "copy_words d s (d + of_nat (4 * n)) m = copy_bytes d s (d + of_nat (4 * n)) m"
  using assms
proof (induction n arbitrary: d s m)
  case 0
  then show ?case by (subst copy_words.simps, subst copy_bytes.simps) simp
next
  case (Suc n)
  let ?e = "d + of_nat (4 * Suc n)"
  have u: "unat (d + of_nat k) = unat d + k" if "k \<le> 4" for k
    using Suc.prems(1) that by (simp add: unat_word_ariths unsigned_of_nat take_bit_eq_mod)
  have lt: "d + of_nat k < ?e" if "k < 4" for k
    using Suc.prems(1) that u [of k] by (simp add: word_less_nat_alt unat_word_ariths unsigned_of_nat take_bit_eq_mod)
  have ne: "s + of_nat i \<noteq> d + of_nat j" if "i < 4" "j < 4" for i j by (rule apartD [OF Suc.prems(2)]) (use that in auto)
  have "apart (d + 4) (s + 4) (4 * n)"
    using apart_step [OF apart_step [OF apart_step [OF apart_step]], of d s "4 * n"] Suc.prems(2) by (simp add: add.assoc numeral_eq_Suc)
  then have IH: "copy_words (d + 4) (s + 4) ?e m' = copy_bytes (d + 4) (s + 4) ?e m'" for m'
    using Suc.IH [of "d + 4" "s + 4" m'] u [of 4] Suc.prems(1) by (simp add: add.assoc)
  have "copy_bytes d s ?e m = copy_bytes (d + 4) (s + 4) ?e (m(d := m s, d + 1 := m (s + 1), d + 2 := m (s + 2), d + 3 := m (s + 3)))"
    using lt [of 0] lt [of 1] lt [of 2] lt [of 3] ne [of 1 0] ne [of 2 0] ne [of 2 1] ne [of 3 0] ne [of 3 1] ne [of 3 2]
    by (subst copy_bytes.simps, subst copy_bytes.simps, subst copy_bytes.simps, subst copy_bytes.simps) (simp add: add.assoc)
  then show ?case using lt [of 0] IH by (subst copy_words.simps) (simp add: store_load)
qed

lemma aligned_len:
  assumes "(a OR len) AND 3 = (0 :: u32)"
  obtains n where "len = of_nat (4 * n)" "unat len = 4 * n" "a AND 3 = 0"
proof -
  have or: "x OR y = 0 \<longleftrightarrow> x = 0 \<and> y = 0" for x y :: u32 by (auto simp: bit_eq_iff bit_or_iff)
  have "len AND 3 = 0" "a AND 3 = 0" using assms by (simp_all add: bit.conj_disj_distrib2 or)
  moreover have "len AND 3 = take_bit 2 len" using and_low_mask [of len 2] by simp
  ultimately have "uint len mod 4 = 0" using uint_take [of 2 len] by simp
  then have "int (unat len) mod 4 = 0" by simp
  then have "unat len = 4 * (unat len div 4)" by presburger
  moreover have "of_nat (unat len) = len" by simp
  ultimately have "len = of_nat (4 * (unat len div 4))" "unat len = 4 * (unat len div 4)" by metis+
  then show ?thesis using that \<open>a AND 3 = 0\<close> by blast
qed

lemma memcpy_correct:
  assumes "unat dest + unat len < 2 ^ 32" "apart dest src (unat len)"
  shows "memcpy dest src len m = Some (copied dest src len m)"
proof (cases "(dest OR src OR len) AND 3 = 0")
  case True
  then obtain n where "len = of_nat (4 * n)" "unat len = 4 * n"
    using aligned_len [of "dest OR src" len] by (metis or.assoc)
  then show ?thesis
    using copy_words_bytes [of dest n src m] copy_bytes_correct [of dest "4 * n" src m] assms True by (simp add: memcpy_def)
next
  case False
  then show ?thesis using copy_bytes_correct [OF assms, of m] by (simp add: memcpy_def)
qed

section \<open>Filling\<close>

definition filled :: "u32 \<Rightarrow> u32 \<Rightarrow> u8 \<Rightarrow> memory \<Rightarrow> memory" where
  "filled dest len b m = (\<lambda>a. if a - dest < len then b else m a)"

lemma set_bytes_correct:
  assumes "unat d + n < 2 ^ 32"
  shows "set_bytes d (d + of_nat n) b m = Some (filled d (of_nat n) b m)"
  using assms
proof (induction n arbitrary: d m)
  case 0
  then show ?case by (subst set_bytes.simps) (simp add: filled_def)
next
  case (Suc n)
  have "unat (d + 1) = unat d + 1" using Suc.prems(1) by (simp add: unat_word_ariths)
  then have IH: "set_bytes (d + 1) (d + 1 + of_nat n) b (m(d := b)) = Some (filled (d + 1) (of_nat n) b (m(d := b)))"
    using Suc.prems by (intro Suc.IH) simp_all
  have "filled (d + 1) (of_nat n) b (m(d := b)) = filled d (of_nat (Suc n)) b m"
    using Suc.prems(1) region_Suc [of n _ d] by (auto simp: filled_def fun_eq_iff)
  then show ?case
    using less_end [OF Suc.prems(1)] IH by (subst set_bytes.simps) (simp add: add.assoc)
qed

lemma set_words_bytes:
  assumes "unat d + 4 * n < 2 ^ 32" and w: "\<And>m d. store_word m d w = m(d := b, d + 1 := b, d + 2 := b, d + 3 := b)"
  shows "set_words d (d + of_nat (4 * n)) w m = set_bytes d (d + of_nat (4 * n)) b m"
  using assms(1)
proof (induction n arbitrary: d m)
  case 0
  then show ?case by (subst set_words.simps, subst set_bytes.simps) simp
next
  case (Suc n)
  let ?e = "d + of_nat (4 * Suc n)"
  have u: "unat (d + of_nat k) = unat d + k" if "k \<le> 4" for k
    using Suc.prems(1) that by (simp add: unat_word_ariths unsigned_of_nat take_bit_eq_mod)
  have lt: "d + of_nat k < ?e" if "k < 4" for k
    using Suc.prems(1) that u [of k] by (simp add: word_less_nat_alt unat_word_ariths unsigned_of_nat take_bit_eq_mod)
  have IH: "set_words (d + 4) ?e w m' = set_bytes (d + 4) ?e b m'" for m'
    using Suc.IH [of "d + 4" m'] u [of 4] Suc.prems(1) by (simp add: add.assoc)
  have "set_bytes d ?e b m = set_bytes (d + 4) ?e b (m(d := b, d + 1 := b, d + 2 := b, d + 3 := b))"
    using lt [of 0] lt [of 1] lt [of 2] lt [of 3]
    by (subst set_bytes.simps, subst set_bytes.simps, subst set_bytes.simps, subst set_bytes.simps) (simp add: add.assoc)
  then show ?case using lt [of 0] IH by (subst set_words.simps) (simp add: w)
qed

lemma memset_correct:
  assumes "unat dest + unat len < 2 ^ 32"
  shows "memset dest byte len m = Some (filled dest len (ucast byte) m)"
proof (cases "(dest OR len) AND 3 = 0")
  case True
  then obtain n where "len = of_nat (4 * n)" "unat len = 4 * n" using aligned_len [of dest len] by metis
  then show ?thesis
    using set_words_bytes [OF _ fill_word_bytes [of _ _ byte], of dest n m] set_bytes_correct [of dest "4 * n" "ucast byte" m] assms True
    by (simp add: memset_def Let_def)
next
  case False
  then show ?thesis using set_bytes_correct [OF assms, of "ucast byte" m] by (simp add: memset_def)
qed

section \<open>Comparing\<close>

definition difference :: "memory \<Rightarrow> u32 \<Rightarrow> u32 \<Rightarrow> nat \<Rightarrow> int" where
  "difference m s1 s2 n =
     (case find (\<lambda>i. m (s1 + of_nat i) \<noteq> m (s2 + of_nat i)) [0..<n] of
        None \<Rightarrow> 0 | Some i \<Rightarrow> uint (m (s1 + of_nat i)) - uint (m (s2 + of_nat i)))"

lemma find_map: "find P (map f xs) = map_option f (find (\<lambda>x. P (f x)) xs)"
  by (induction xs) auto

lemma difference_Suc:
  "difference m s1 s2 (Suc n) = (if m s1 \<noteq> m s2 then uint (m s1) - uint (m s2) else difference m (s1 + 1) (s2 + 1) n)"
proof -
  have "[0..<Suc n] = 0 # map Suc [0..<n]" by (simp add: upt_conv_Cons map_Suc_upt del: upt_Suc)
  then show ?thesis by (simp add: difference_def find_map add.assoc o_def split: option.split del: upt_Suc)
qed

lemma compare_bytes_correct:
  "unat n = k \<Longrightarrow> compare_bytes s1 s2 n m = Some (difference m s1 s2 k)"
proof (induction k arbitrary: s1 s2 n)
  case 0
  then show ?case by (subst compare_bytes.simps) (simp add: difference_def unsigned_eq_0_iff)
next
  case (Suc k)
  then have "n \<noteq> 0" by auto
  moreover from this have "unat (n - 1) = k" using Suc.prems by (simp add: unat_minus_one)
  ultimately show ?case using Suc.IH [of "n - 1"] by (subst compare_bytes.simps) (simp add: difference_Suc)
qed

lemma difference_skip4:
  assumes "load_word m s1 = load_word m s2"
  shows "difference m s1 s2 (k + 4) = difference m (s1 + 4) (s2 + 4) k"
proof -
  have "k + 4 = Suc (Suc (Suc (Suc k)))" by simp
  then show ?thesis using load_word_eqD [OF assms] by (simp only: difference_Suc) (simp add: add.assoc)
qed

lemma skip_words_correct:
  assumes "unat s1 + 4 * n < 2 ^ 32"
  shows "\<exists>j \<le> n. skip_words s1 s2 (s1 + of_nat (4 * n)) m = Some (s1 + of_nat (4 * j), s2 + of_nat (4 * j)) \<and>
    (\<forall>k. difference m s1 s2 (k + 4 * j) = difference m (s1 + of_nat (4 * j)) (s2 + of_nat (4 * j)) k)"
  using assms
proof (induction n arbitrary: s1 s2)
  case 0
  then show ?case by (subst skip_words.simps) simp
next
  case (Suc n)
  have lt: "s1 < s1 + of_nat (4 * Suc n)" using less_end [OF Suc.prems] by simp
  show ?case
  proof (cases "load_word m s1 = load_word m s2")
    case True
    have "unat (s1 + 4) + 4 * n < 2 ^ 32" using Suc.prems by (simp add: unat_word_ariths)
    then obtain j where j: "j \<le> n" "skip_words (s1 + 4) (s2 + 4) (s1 + 4 + of_nat (4 * n)) m = Some (s1 + 4 + of_nat (4 * j), s2 + 4 + of_nat (4 * j))"
      "\<forall>k. difference m (s1 + 4) (s2 + 4) (k + 4 * j) = difference m (s1 + 4 + of_nat (4 * j)) (s2 + 4 + of_nat (4 * j)) k"
      using Suc.IH by blast
    have "skip_words s1 s2 (s1 + of_nat (4 * Suc n)) m = Some (s1 + of_nat (4 * Suc j), s2 + of_nat (4 * Suc j))"
      using lt True j(2) by (subst skip_words.simps) (simp add: add.assoc)
    moreover have "difference m s1 s2 (k + 4 * Suc j) = difference m (s1 + of_nat (4 * Suc j)) (s2 + of_nat (4 * Suc j)) k" for k
    proof -
      have "k + 4 * Suc j = k + 4 * j + 4" by simp
      then have "difference m s1 s2 (k + 4 * Suc j) = difference m s1 s2 (k + 4 * j + 4)" by (simp only:)
      also have "\<dots> = difference m (s1 + 4 + of_nat (4 * j)) (s2 + 4 + of_nat (4 * j)) k"
        using difference_skip4 [OF True, of "k + 4 * j"] j(3) by simp
      finally show ?thesis by (simp add: add.assoc)
    qed
    ultimately show ?thesis using j(1) by blast
  next
    case False
    then show ?thesis using lt by (intro exI [of _ 0]) (subst skip_words.simps, simp)
  qed
qed

lemma memcmp_correct:
  assumes "unat s1 + unat n < 2 ^ 32"
  shows "memcmp s1 s2 n m = Some (difference m s1 s2 (unat n))"
proof (cases "(s1 OR s2) AND 3 = 0")
  case True
  let ?q = "unat n div 4"
  have "unat (n div 4) = ?q" by (simp add: unat_div)
  moreover have "of_nat (unat (n div 4)) = n div 4" by simp
  ultimately have "n div 4 = of_nat ?q" by metis
  then have e: "4 * (n div 4) = of_nat (4 * ?q)" by simp
  have "unat s1 + 4 * ?q < 2 ^ 32" using assms by linarith
  then obtain j where j: "j \<le> ?q" "skip_words s1 s2 (s1 + of_nat (4 * ?q)) m = Some (s1 + of_nat (4 * j), s2 + of_nat (4 * j))"
    "\<forall>k. difference m s1 s2 (k + 4 * j) = difference m (s1 + of_nat (4 * j)) (s2 + of_nat (4 * j)) k"
    using skip_words_correct by blast
  have jn: "4 * j \<le> unat n" using j(1) by linarith
  then have "unat (of_nat (4 * j) :: u32) = 4 * j" using unsigned_less [of n, where ?'a = nat] by (simp add: unsigned_of_nat take_bit_eq_mod del: of_nat_mult)
  then have "unat (n - of_nat (4 * j)) = unat n - 4 * j" using jn by (simp add: unat_sub word_le_nat_alt)
  then have "memcmp s1 s2 n m = Some (difference m (s1 + of_nat (4 * j)) (s2 + of_nat (4 * j)) (unat n - 4 * j))"
    using True j(2) compare_bytes_correct by (simp add: memcmp_def e del: of_nat_mult)
  then show ?thesis using j(3) [rule_format, of "unat n - 4 * j"] jn by simp
next
  case False
  then show ?thesis using compare_bytes_correct [OF refl, of s1 s2 n m] by (simp add: memcmp_def)
qed

section \<open>Strings\<close>

text \<open>\<open>c_string m s k\<close>: a string of \<open>k\<close> characters is stored at \<open>s\<close>.\<close>

definition c_string :: "memory \<Rightarrow> u32 \<Rightarrow> nat \<Rightarrow> bool" where
  "c_string m s k \<longleftrightarrow> (\<forall>i < k. m (s + of_nat i) \<noteq> 0) \<and> m (s + of_nat k) = 0"

lemma c_string_Suc: "c_string m s (Suc k) \<longleftrightarrow> m s \<noteq> 0 \<and> c_string m (s + 1) k"
proof -
  have "(\<forall>i < Suc k. P i) \<longleftrightarrow> P 0 \<and> (\<forall>i < k. P (Suc i))" for P :: "nat \<Rightarrow> bool" by (auto simp: less_Suc_eq_0_disj)
  from this [of "\<lambda>i. m (s + of_nat i) \<noteq> 0"] show ?thesis by (simp add: c_string_def add.assoc)
qed

lemma strlen_correct:
  assumes "c_string m s k" "k < 2 ^ 32"
  shows "strlen s m = Some (of_nat k)"
proof -
  have "strlen_loop s m = Some (s + of_nat k)"
    using assms(1)
  proof (induction k arbitrary: s)
    case 0
    then show ?case by (subst strlen_loop.simps) (simp add: c_string_def)
  next
    case (Suc k)
    then show ?case using Suc.IH [of "s + 1"] by (subst strlen_loop.simps) (simp add: c_string_Suc add.assoc)
  qed
  then show ?thesis by (simp add: strlen_def)
qed

text \<open>Comparing two strings compares the bytes up to the first terminator.\<close>

lemma strcmp_correct:
  assumes "c_string m s1 k"
  shows "strcmp s1 s2 m = Some (difference m s1 s2 (Suc k))"
  using assms
proof (induction k arbitrary: s1 s2)
  case 0
  then show ?case by (subst strcmp.simps) (simp add: c_string_def difference_Suc, simp add: difference_def)
next
  case (Suc k)
  then show ?case using Suc.IH [of "s1 + 1" "s2 + 1"]
    by (subst strcmp.simps) (auto simp: c_string_Suc difference_Suc [of m s1 s2 "Suc k"])
qed

lemma strcpy_correct:
  assumes "c_string m s k" "apart d s (Suc k)" "unat d + Suc k < 2 ^ 32"
  shows "strcpy d s m = Some (copied d s (of_nat (Suc k)) m)"
proof -
  have "strcpy d s m = copy_bytes d s (d + of_nat (Suc k)) m"
    using assms
  proof (induction k arbitrary: d s m)
    case 0
    then have "d < d + 1" using less_end [of d 1] by simp
    then show ?case using 0(1)
      by (subst strcpy.simps, subst copy_bytes.simps, subst copy_bytes.simps) (simp add: c_string_def)
  next
    case (Suc k)
    have "d < d + of_nat (Suc (Suc k))" using less_end [OF Suc.prems(3)] by simp
    moreover have "c_string (m(d := m s)) (s + 1) k"
    proof -
      have "s + 1 + of_nat i \<noteq> d" if "i \<le> k" for i using apartD [OF Suc.prems(2), of "Suc i" 0] that by (simp add: add.assoc)
      then have eq: "(m(d := m s)) (s + 1 + of_nat i) = m (s + 1 + of_nat i)" if "i \<le> k" for i using that by simp
      have "c_string m (s + 1) k" using Suc.prems(1) by (simp add: c_string_Suc)
      then show ?thesis unfolding c_string_def using eq by (metis less_imp_le order_refl)
    qed
    moreover have "unat (d + 1) + Suc k < 2 ^ 32" using Suc.prems(3) by (simp add: unat_word_ariths)
    ultimately have "strcpy (d + 1) (s + 1) (m(d := m s)) = copy_bytes (d + 1) (s + 1) (d + 1 + of_nat (Suc k)) (m(d := m s))"
      using apart_step [OF Suc.prems(2)] by (intro Suc.IH)
    then show ?case
      using Suc.prems(1) \<open>d < d + of_nat (Suc (Suc k))\<close>
      by (subst strcpy.simps, subst copy_bytes.simps) (simp add: c_string_Suc add.assoc Let_def)
  qed
  then show ?thesis using copy_bytes_correct [OF assms(3,2)] by simp
qed

section \<open>Numbers\<close>

fun text_at :: "memory \<Rightarrow> u32 \<Rightarrow> u8 list \<Rightarrow> bool" where
  "text_at m p [] = True"
| "text_at m p (c # cs) = (m p = c \<and> text_at m (p + 1) cs)"

text \<open>The text of a number: spaces, an optional sign, decimal digits, and the terminator.\<close>

datatype sign_char = No_Sign | Plus | Minus

definition digit_char :: "nat \<Rightarrow> u8" where
  "digit_char d = 0x30 + of_nat d"

definition number_text :: "nat \<Rightarrow> sign_char \<Rightarrow> nat list \<Rightarrow> u8 list" where
  "number_text k sg ds = replicate k 0x20 @ (case sg of No_Sign \<Rightarrow> [] | Plus \<Rightarrow> [0x2B] | Minus \<Rightarrow> [0x2D]) @ map digit_char ds @ [0]"

definition number_value :: "sign_char \<Rightarrow> nat list \<Rightarrow> int" where
  "number_value sg ds = (if sg = Minus then -1 else 1) * foldl (\<lambda>r d. 10 * r + int d) 0 ds"

lemma digit_char_facts:
  assumes "d < 10"
  shows "digit_char d \<noteq> 0" "digit_char d \<noteq> 0x20" "digit_char d \<noteq> 0x2B" "digit_char d \<noteq> 0x2D" "ucast (digit_char d) - 0x30 = (of_nat d :: u32)"
proof -
  have u: "unat (digit_char d) = 48 + d" using assms by (simp add: digit_char_def unat_word_ariths unsigned_of_nat take_bit_eq_mod)
  show "digit_char d \<noteq> 0" "digit_char d \<noteq> 0x20" "digit_char d \<noteq> 0x2B" "digit_char d \<noteq> 0x2D" using u by auto
  have "(ucast (digit_char d) :: u32) = of_nat (48 + d)" by (simp add: unsigned_ucast_eq flip: u)
  then show "ucast (digit_char d) - 0x30 = (of_nat d :: u32)" by simp
qed

lemma atol_digits_correct:
  assumes "\<forall>d \<in> set ds. d < 10" "text_at m p (map digit_char ds @ [0])"
  shows "atol_digits p (of_int r) m = Some (of_int (foldl (\<lambda>r d. 10 * r + int d) r ds))"
  using assms
proof (induction ds arbitrary: p r)
  case (Cons d ds)
  then have "atol_digits (p + 1) (of_int (10 * r + int d)) m = Some (of_int (foldl (\<lambda>r d. 10 * r + int d) r (d # ds)))" using Cons.IH [of "p + 1" "10 * r + int d"] by (simp del: of_int_add of_int_mult)
  moreover have "of_int r * 10 + (ucast (digit_char d) - 0x30) = (of_int (10 * r + int d) :: u32)"
    using digit_char_facts(5) [of d] Cons.prems(1) by simp
  ultimately show ?case using Cons.prems digit_char_facts(1) [of d] by (subst atol_digits.simps) (simp add: mult.commute)
qed (subst atol_digits.simps, simp)

lemma skip_spaces_correct:
  "text_at m p (replicate k 0x20 @ c # cs) \<Longrightarrow> c \<noteq> 0x20 \<Longrightarrow> \<exists>q. skip_spaces p m = Some q \<and> text_at m q (c # cs)"
  by (induction k arbitrary: p) (subst skip_spaces.simps, simp)+

lemma atol_correct:
  assumes "\<forall>d \<in> set ds. d < 10" "text_at m p (number_text k sg ds)"
  shows "atol p m = Some (of_int (number_value sg ds))"
proof -
  let ?rest = "(case sg of No_Sign \<Rightarrow> [] | Plus \<Rightarrow> [0x2B] | Minus \<Rightarrow> [0x2D]) @ map digit_char ds @ [0]"
  have "\<exists>c cs. ?rest = c # cs \<and> c \<noteq> 0x20 \<and> (sg = No_Sign \<longrightarrow> c \<noteq> 0x2B \<and> c \<noteq> 0x2D)"
    using assms(1) digit_char_facts by (cases sg; cases ds) auto
  then obtain c cs where c: "?rest = c # cs" "c \<noteq> 0x20" "sg = No_Sign \<Longrightarrow> c \<noteq> 0x2B \<and> c \<noteq> 0x2D" by blast
  have "text_at m p (replicate k 0x20 @ c # cs)" using assms(2) unfolding number_text_def c(1) .
  then obtain q where q: "skip_spaces p m = Some q" "text_at m q (c # cs)" using skip_spaces_correct c(2) by blast
  have rest: "text_at m q ?rest" using q(2) unfolding c(1) .
  show ?thesis
    using q rest c(3) atol_digits_correct [OF assms(1), of m _ 0] c(1) by (cases sg) (auto simp: atol_def number_value_def)
qed

section \<open>All routines\<close>

text \<open>C23. memcpy, memset and memcmp of the test environment return and do what the byte-wise definitions say, whether they run by words or by bytes, for every region that does not wrap around the address space, memcpy for regions that do not overlap.\<close>

theorem memory_routines_correct:
  assumes "unat dest + unat len < 2 ^ 32"
  shows "(apart dest src (unat len) \<longrightarrow> memcpy dest src len m = Some (copied dest src len m)) \<and>
    memset dest byte len m = Some (filled dest len (ucast byte) m) \<and>
    memcmp dest src len m = Some (difference m dest src (unat len))"
  using memcpy_correct memset_correct memcmp_correct assms by blast

theorem memory_routines_correct_witness:
  "memcpy 0x1000 0x2000 8 (\<lambda>a. ucast a) = Some (copied 0x1000 0x2000 8 (\<lambda>a. ucast a)) \<and>
   memset 0x1000 0xAB 8 (\<lambda>a. ucast a) = Some (filled 0x1000 8 (ucast (0xAB :: u32)) (\<lambda>a. ucast a)) \<and>
   memcmp 0x1000 0x2000 8 (\<lambda>a. ucast a) = Some (difference (\<lambda>a. ucast a) 0x1000 0x2000 8)"
proof -
  have "apart 0x1000 0x2000 8"
    unfolding apart_def
  proof (intro allI impI)
    fix i j :: nat
    assume "i < 8" "j < 8"
    then have "unat (0x2000 + of_nat i :: u32) = 0x2000 + i" "unat (0x1000 + of_nat j :: u32) = 0x1000 + j"
      by (simp_all add: unat_word_ariths unsigned_of_nat take_bit_eq_mod)
    moreover have "0x2000 + i \<noteq> 0x1000 + j" using \<open>j < 8\<close> by linarith
    ultimately show "(0x2000 + of_nat i :: u32) \<noteq> 0x1000 + of_nat j" by metis
  qed
  then show ?thesis using memory_routines_correct [where dest = "0x1000" and len = "8" and src = "0x2000"] by simp
qed

text \<open>C24. On a terminated string of fewer than 2^31 characters strlen returns its length, strcmp the difference of the first bytes that differ, and strcpy copies it with its terminator to a region apart from it; atol returns the value, modulo 2^32, of a decimal number with leading spaces and a sign.\<close>

theorem string_routines_correct:
  assumes "c_string m s k" "k < 2 ^ 31"
  shows "strlen s m = Some (of_nat k) \<and> strcmp s t m = Some (difference m s t (Suc k)) \<and>
    (apart d s (Suc k) \<and> unat d + Suc k < 2 ^ 32 \<longrightarrow> strcpy d s m = Some (copied d s (of_nat (Suc k)) m)) \<and>
    ((\<forall>d \<in> set ds. d < 10) \<and> text_at m s (number_text n sg ds) \<longrightarrow> atol s m = Some (of_int (number_value sg ds)))"
proof (intro conjI impI)
  show "strlen s m = Some (of_nat k)" using strlen_correct assms by simp
  show "strcmp s t m = Some (difference m s t (Suc k))" using strcmp_correct assms(1) .
qed (use strcpy_correct atol_correct assms(1) in blast)+

definition sample_memory :: memory where
  "sample_memory a = (if a = 0x2000 then 0x20 else if a = 0x2001 then 0x2D else if a = 0x2002 then 0x34 else if a = 0x2003 then 0x32 else 0)"

theorem string_routines_correct_witness:
  "strlen 0x2000 sample_memory = Some 4 \<and> strcmp 0x2000 0x3000 sample_memory = Some 32 \<and>
   atol 0x2000 sample_memory = Some (- 42)"
proof -
  have "(\<forall>i < 4. P i) \<longleftrightarrow> P 0 \<and> P 1 \<and> P 2 \<and> P 3" for P :: "nat \<Rightarrow> bool"
    by (auto simp: eval_nat_numeral less_Suc_eq)
  then have s: "c_string sample_memory 0x2000 4" by (simp add: c_string_def sample_memory_def)
  have "difference sample_memory 0x2000 0x3000 (Suc 4) = 32" unfolding difference_Suc [of _ _ _ 4] by (simp add: sample_memory_def)
  moreover have "text_at sample_memory 0x2000 (number_text 1 Minus [4, 2])" "number_value Minus [4, 2] = - 42"
    by (simp_all add: number_text_def digit_char_def sample_memory_def number_value_def)
  ultimately show ?thesis
    using string_routines_correct [OF s, where t = "0x3000" and ds = "[4, 2]" and n = 1 and sg = Minus] by simp
qed

end
