(* ===== verification/Bench_Qsort.thy ===== *)
theory Bench_Qsort
  imports Prelude "HOL-Library.Monad_Syntax" "HOL-Library.Multiset"
begin

text \<open>
  The quicksort of \<^verbatim>\<open>src/riscv-tools/riscv-tests/benchmarks/qsort/qsort_main.c\<close>.  A pointer into the array
  is its distance from the start, an access outside of the array or of the stack of pending ranges
  is the value \<^const>\<open>None\<close>, and so is a loop that does not end.  The theorem shows that the sort returns, with neither of
  them left, a sorted permutation of the array.
\<close>

section \<open>The sort\<close>

definition arr_load :: "int list \<Rightarrow> int \<Rightarrow> int option" where
  "arr_load arr i = (if 0 \<le> i \<and> i < int (length arr) then Some (arr ! nat i) else None)"

definition arr_store :: "int list \<Rightarrow> int \<Rightarrow> int \<Rightarrow> int list option" where
  "arr_store arr i v = (if 0 \<le> i \<and> i < int (length arr) then Some (arr[nat i := v]) else None)"

definition SWAP :: "int list \<Rightarrow> int \<Rightarrow> int \<Rightarrow> int list option" where
  "SWAP arr a b = do {
     temp \<leftarrow> arr_load arr a;
     v \<leftarrow> arr_load arr b;
     arr \<leftarrow> arr_store arr a v;
     arr_store arr b temp }"

definition SWAP_IF_GREATER :: "int list \<Rightarrow> int \<Rightarrow> int \<Rightarrow> int list option" where
  "SWAP_IF_GREATER arr a b = do {
     u \<leftarrow> arr_load arr a;
     v \<leftarrow> arr_load arr b;
     if u > v then SWAP arr a b else Some arr }"

lemma arr_loadD: "arr_load arr i = Some v \<Longrightarrow> 0 \<le> i \<and> i < int (length arr)"
  by (simp add: arr_load_def split: if_splits)

function insertion_shift :: "int \<Rightarrow> int \<Rightarrow> int \<Rightarrow> int list \<Rightarrow> (int \<times> int list) option" where
  "insertion_shift base val j arr = do {
     v \<leftarrow> arr_load arr (j - 1);
     if val < v then do {
       arr \<leftarrow> arr_store arr j v;
       if j - 1 = base then Some (j - 1, arr) else insertion_shift base val (j - 1) arr }
     else Some (j, arr) }"
  by pat_completeness auto
termination by (relation "measure (\<lambda>(base, val, j, arr). nat j)") (auto dest: arr_loadD)

function insertion_from :: "int \<Rightarrow> int \<Rightarrow> int \<Rightarrow> int list \<Rightarrow> int list option" where
  "insertion_from base i e arr =
     (if i < e then do {
        val \<leftarrow> arr_load arr i;
        (j, arr) \<leftarrow> insertion_shift base val i arr;
        arr \<leftarrow> arr_store arr j val;
        insertion_from base (i + 1) e arr }
      else Some arr)"
  by pat_completeness auto
termination by (relation "measure (\<lambda>(base, i, e, arr). nat (e - i))") auto

definition insertion_sort :: "int \<Rightarrow> int \<Rightarrow> int list \<Rightarrow> int list option" where
  "insertion_sort n base arr = insertion_from base (base + 1) (base + n) arr"

function scan_up :: "int \<Rightarrow> int list \<Rightarrow> int \<Rightarrow> int option" where
  "scan_up a arr i = do { v \<leftarrow> arr_load arr i; if v < a then scan_up a arr (i + 1) else Some (i + 1) }"
  by pat_completeness auto
termination by (relation "measure (\<lambda>(a, arr, i). nat (int (length arr) - i))") (auto dest: arr_loadD)

function scan_down :: "int \<Rightarrow> int list \<Rightarrow> int \<Rightarrow> int option" where
  "scan_down a arr j = do { v \<leftarrow> arr_load arr (j - 2); if v > a then scan_down a arr (j - 1) else Some (j - 1) }"
  by pat_completeness auto
termination by (relation "measure (\<lambda>(a, arr, j). nat j)") (auto dest: arr_loadD)

partial_function (option) partition_loop :: "int \<Rightarrow> int \<Rightarrow> int \<Rightarrow> int list \<Rightarrow> (int \<times> int \<times> int list) option" where
  "partition_loop a i j arr = do {
     i \<leftarrow> scan_up a arr i;
     j \<leftarrow> scan_down a arr j;
     if j < i then Some (i, j, arr)
     else do { arr \<leftarrow> SWAP arr (i - 1) (j - 1); partition_loop a i j arr } }"

text \<open>
  The stack holds the ranges that are still to be sorted; its first cell is not used, so that a push needs two more of
  the \<^verbatim>\<open>NSTACK\<close> cells.
\<close>

abbreviation "NSTACK \<equiv> 50 :: nat"
abbreviation "INSERTION_THRESHOLD \<equiv> 10 :: int"

definition choose_pivot :: "int \<Rightarrow> int \<Rightarrow> int list \<Rightarrow> int list option" where
  "choose_pivot l ir arr = do {
     arr \<leftarrow> SWAP arr ((l + ir) div 2 - 1) l;
     arr \<leftarrow> SWAP_IF_GREATER arr (l - 1) (ir - 1);
     arr \<leftarrow> SWAP_IF_GREATER arr l (ir - 1);
     SWAP_IF_GREATER arr (l - 1) l }"

definition partition_range :: "int \<Rightarrow> int \<Rightarrow> int list \<Rightarrow> (int \<times> int \<times> int list) option" where
  "partition_range l ir arr = do {
     arr \<leftarrow> choose_pivot l ir arr;
     a \<leftarrow> arr_load arr l;
     (i, j, arr) \<leftarrow> partition_loop a (l + 1) ir arr;
     v \<leftarrow> arr_load arr (j - 1);
     arr \<leftarrow> arr_store arr l v;
     arr \<leftarrow> arr_store arr (j - 1) a;
     Some (i, j, arr) }"

partial_function (option) sort_loop :: "int \<Rightarrow> int \<Rightarrow> (int \<times> int) list \<Rightarrow> int list \<Rightarrow> int list option" where
  "sort_loop l ir stack arr =
     (if ir - l < INSERTION_THRESHOLD then do {
        arr \<leftarrow> insertion_sort (ir - l + 1) (l - 1) arr;
        (case stack of [] \<Rightarrow> Some arr | (l, ir) # stack \<Rightarrow> sort_loop l ir stack arr) }
      else do {
        (i, j, arr) \<leftarrow> partition_range l ir arr;
        if 2 * length stack + 2 < NSTACK then
          (if ir - i + 1 \<ge> j - l then sort_loop l (j - 1) ((i, ir) # stack) arr
           else sort_loop i ir ((l, j - 1) # stack) arr)
        else None })"

definition qsort_sort :: "int list \<Rightarrow> int list option" where
  "qsort_sort arr = sort_loop 1 (int (length arr)) [] arr"

declare insertion_shift.simps [simp del] insertion_from.simps [simp del] scan_up.simps [simp del] scan_down.simps [simp del]

section \<open>Ranges of an array\<close>

text \<open>\<open>range_perm lo hi\<close> relates two arrays of which the second rearranges the first between \<open>lo\<close> and \<open>hi\<close>.\<close>

definition elem :: "int list \<Rightarrow> int \<Rightarrow> int" where
  "elem arr i = arr ! nat i"

definition range_perm :: "int \<Rightarrow> int \<Rightarrow> int list \<Rightarrow> int list \<Rightarrow> bool" where
  "range_perm lo hi xs ys \<longleftrightarrow> length ys = length xs \<and> mset ys = mset xs \<and> (\<forall>p \<ge> 0. p < lo \<or> hi < p \<longrightarrow> elem ys p = elem xs p)"

lemma arr_load_in [simp]: "0 \<le> i \<Longrightarrow> i < int (length arr) \<Longrightarrow> arr_load arr i = Some (elem arr i)"
  by (simp add: arr_load_def elem_def)

lemma arr_store_in [simp]: "0 \<le> i \<Longrightarrow> i < int (length arr) \<Longrightarrow> arr_store arr i v = Some (arr[nat i := v])"
  by (simp add: arr_store_def)

lemma elem_update [simp]:
  "0 \<le> i \<Longrightarrow> i < int (length arr) \<Longrightarrow> 0 \<le> p \<Longrightarrow> elem (arr[nat i := v]) p = (if p = i then v else elem arr p)"
  by (auto simp: elem_def nth_list_update)

lemma range_perm_refl [simp]: "range_perm lo hi xs xs"
  by (simp add: range_perm_def)

lemma range_perm_trans: "range_perm lo hi xs ys \<Longrightarrow> range_perm lo hi ys zs \<Longrightarrow> range_perm lo hi xs zs"
  by (simp add: range_perm_def)

lemma range_perm_widen: "range_perm lo hi xs ys \<Longrightarrow> lo' \<le> lo \<Longrightarrow> hi \<le> hi' \<Longrightarrow> range_perm lo' hi' xs ys"
  by (auto simp: range_perm_def)

lemma range_perm_length: "range_perm lo hi xs ys \<Longrightarrow> length ys = length xs"
  by (simp add: range_perm_def)

lemma range_perm_swap:
  assumes "0 \<le> lo" "hi < int (length xs)" "i \<in> {lo..hi}" "j \<in> {lo..hi}"
  shows "range_perm lo hi xs (xs[nat i := elem xs j, nat j := elem xs i])"
proof -
  have "mset (xs[nat i := xs ! nat j, nat j := xs ! nat i]) = mset xs"
    using assms by (intro mset_swap) auto
  then show ?thesis using assms by (auto simp: range_perm_def elem_def nth_list_update)
qed

lemma range_perm_slice:
  assumes perm: "range_perm lo hi xs ys" and b: "0 \<le> lo" "lo \<le> hi" "hi < int (length xs)"
  shows "set (take (nat (hi - lo + 1)) (drop (nat lo) ys)) = set (take (nat (hi - lo + 1)) (drop (nat lo) xs))"
proof -
  let ?n = "nat (hi - lo + 1)"
  have split: "zs = take (nat lo) zs @ take ?n (drop (nat lo) zs) @ drop ?n (drop (nat lo) zs)" for zs :: "int list"
    by (metis append_take_drop_id)
  have l: "length ys = length xs" using perm by (rule range_perm_length)
  have eq: "ys ! k = xs ! k" if "k < nat lo \<or> nat lo + ?n \<le> k" for k
  proof -
    have "int k < lo \<or> hi < int k" using that b by linarith
    then have "elem ys (int k) = elem xs (int k)" using perm by (auto simp: range_perm_def)
    then show ?thesis by (simp add: elem_def)
  qed
  have "take (nat lo) ys = take (nat lo) xs" using l by (intro nth_equalityI) (auto intro: eq)
  moreover have "drop ?n (drop (nat lo) ys) = drop ?n (drop (nat lo) xs)"
    using l by (intro nth_equalityI) (auto intro!: eq)
  moreover have "mset ys = mset xs" using perm by (simp add: range_perm_def)
  ultimately have "mset (take ?n (drop (nat lo) ys)) = mset (take ?n (drop (nat lo) xs))"
    using split [of ys] split [of xs] by (metis add_left_cancel add_right_cancel mset_append)
  then show ?thesis by (metis set_mset_mset)
qed

lemma range_perm_elem:
  assumes perm: "range_perm lo hi xs ys" and b: "0 \<le> lo" "hi < int (length xs)" and p: "p \<in> {lo..hi}"
  obtains q where "q \<in> {lo..hi}" "elem ys p = elem xs q"
proof -
  let ?n = "nat (hi - lo + 1)"
  have len: "length ys = length xs" by (rule range_perm_length [OF perm])
  have "elem ys p = take ?n (drop (nat lo) ys) ! nat (p - lo)"
  proof -
    have "nat (p - lo) < ?n" "nat lo + nat (p - lo) = nat p" "nat lo \<le> length ys" using p b len by auto
    then show ?thesis by (simp add: elem_def)
  qed
  moreover have "nat (p - lo) < length (take ?n (drop (nat lo) ys))" using p b len by auto
  ultimately have "elem ys p \<in> set (take ?n (drop (nat lo) ys))" by (metis nth_mem)
  then have "elem ys p \<in> set (take ?n (drop (nat lo) xs))" using range_perm_slice [OF perm] b p by auto
  then obtain k where k: "k < ?n" "elem ys p = drop (nat lo) xs ! k" by (auto simp: in_set_conv_nth)
  then have "elem ys p = elem xs (lo + int k)" using b p by (simp add: elem_def nat_add_distrib)
  moreover have "lo + int k \<in> {lo..hi}" using k by auto
  ultimately show ?thesis using that by blast
qed

lemma SWAP_in:
  assumes "0 \<le> lo" "hi < int (length xs)" "i \<in> {lo..hi}" "j \<in> {lo..hi}"
  shows "SWAP xs i j = Some (xs[nat i := elem xs j, nat j := elem xs i])"
  using assms by (auto simp: SWAP_def)

section \<open>Insertion sort\<close>

lemma insertion_shift_correct:
  assumes "0 \<le> base" "base < j" "j < int (length xs)"
  shows "\<exists>j' ys. insertion_shift base val j xs = Some (j', ys) \<and> base \<le> j' \<and> j' \<le> j \<and> length ys = length xs \<and>
    (\<forall>p \<ge> 0. elem ys p = (if j' < p \<and> p \<le> j then elem xs (p - 1) else elem xs p)) \<and>
    (\<forall>p. j' \<le> p \<and> p < j \<longrightarrow> val < elem xs p) \<and> (j' = base \<or> elem xs (j' - 1) \<le> val) \<and>
    mset (ys[nat j' := val]) = mset (xs[nat j := val])"
  using assms
proof (induction "nat (j - base)" arbitrary: j xs rule: less_induct)
  case less
  let ?v = "elem xs (j - 1)" and ?xs = "xs[nat j := elem xs (j - 1)]"
  have step: "insertion_shift base val j xs =
      (if val < ?v then if j - 1 = base then Some (j - 1, ?xs) else insertion_shift base val (j - 1) ?xs else Some (j, xs))"
    using less.prems by (subst insertion_shift.simps) simp
  have "nat (j - 1) < length xs" "nat j < length xs" "nat (j - 1) \<noteq> nat j" using less.prems by auto
  then have mset: "mset (?xs[nat (j - 1) := val]) = mset (xs[nat j := val])"
    using mset_swap [of "nat (j - 1)" "xs[nat j := val]" "nat j"] by (simp add: elem_def list_update_swap)
  show ?case
  proof (cases "val < ?v")
    case False
    then show ?thesis using less.prems by (auto simp: step)
  next
    case True
    show ?thesis
    proof (cases "j - 1 = base")
      case base: True
      moreover have "j - 1 \<le> p \<and> p < j \<longleftrightarrow> p = j - 1" "j - 1 < p \<and> p \<le> j \<longleftrightarrow> p = j" for p by auto
      ultimately show ?thesis using True less.prems mset by (simp add: step)
    next
      case False
      obtain j' ys where IH: "insertion_shift base val (j - 1) ?xs = Some (j', ys)" "base \<le> j'" "j' \<le> j - 1" "length ys = length ?xs"
        "\<forall>p \<ge> 0. elem ys p = (if j' < p \<and> p \<le> j - 1 then elem ?xs (p - 1) else elem ?xs p)"
        "\<forall>p. j' \<le> p \<and> p < j - 1 \<longrightarrow> val < elem ?xs p" "j' = base \<or> elem ?xs (j' - 1) \<le> val"
        "mset (ys[nat j' := val]) = mset (?xs[nat (j - 1) := val])"
        using less.hyps [of "j - 1" ?xs] less.prems False by auto
      have "elem ys p = (if j' < p \<and> p \<le> j then elem xs (p - 1) else elem xs p)" if "0 \<le> p" for p
        using IH(2,3,5) less.prems that by auto
      moreover have "val < elem xs p" if "j' \<le> p" "p < j" for p
        using IH(2,6) less.prems that True by (cases "p = j - 1") auto
      moreover have "j' = base \<or> elem xs (j' - 1) \<le> val" using IH(2,3,7) less.prems by (cases "j' = base") auto
      ultimately show ?thesis using IH(1,2,3,4,8) True False mset by (simp add: step)
    qed
  qed
qed

lemma insertion_from_correct:
  assumes "0 \<le> base" "base < i" "e \<le> int (length xs)"
    and sorted: "\<forall>p q. base \<le> p \<and> p < q \<and> q < i \<longrightarrow> elem xs p \<le> elem xs q"
  shows "\<exists>ys. insertion_from base i e xs = Some ys \<and> range_perm base (e - 1) xs ys \<and>
    (\<forall>p q. base \<le> p \<and> p < q \<and> q < max i e \<longrightarrow> elem ys p \<le> elem ys q)"
  using assms
proof (induction "nat (e - i)" arbitrary: i xs rule: less_induct)
  case less
  show ?case
  proof (cases "i < e")
    case False
    then show ?thesis using less.prems by (subst insertion_from.simps) (simp add: max_def)
  next
    case True
    let ?val = "elem xs i"
    have i: "0 \<le> i" "i < int (length xs)" using less.prems True by auto
    obtain j ys where sh: "insertion_shift base ?val i xs = Some (j, ys)" "base \<le> j" "j \<le> i" "length ys = length xs"
      "\<forall>p \<ge> 0. elem ys p = (if j < p \<and> p \<le> i then elem xs (p - 1) else elem xs p)"
      "\<forall>p. j \<le> p \<and> p < i \<longrightarrow> ?val < elem xs p" "j = base \<or> elem xs (j - 1) \<le> ?val"
      "mset (ys[nat j := ?val]) = mset (xs[nat i := ?val])"
      using insertion_shift_correct [OF less.prems(1,2) i(2)] by blast
    let ?zs = "ys[nat j := ?val]"
    have zs: "elem ?zs p = (if p = j then ?val else if j < p \<and> p \<le> i then elem xs (p - 1) else elem xs p)" if "0 \<le> p" for p
      using sh(2-5) that less.prems i by auto
    have "xs[nat i := ?val] = xs" by (simp add: elem_def)
    then have perm: "range_perm base (e - 1) xs ?zs"
      using sh(2-4,8) zs True less.prems(1) by (auto simp: range_perm_def)
    have "elem ?zs p \<le> elem ?zs q" if pq: "base \<le> p" "p < q" "q < i + 1" for p q
    proof -
      have low: "elem xs r \<le> ?val" if "base \<le> r" "r < j" for r
        using sh(2,3,7) less.prems(4) that by (cases "r = j - 1") (force, smt (verit))
      have "0 \<le> p" "0 \<le> q" using pq less.prems(1) by auto
      then show ?thesis
        using sh(2,3) pq zs [of p] zs [of q] low [of p] sh(6) [rule_format, of "q - 1"] less.prems(4) [rule_format, of p q]
          less.prems(4) [rule_format, of p "q - 1"] less.prems(4) [rule_format, of "p - 1" "q - 1"]
        by (auto split: if_splits)
    qed
    then obtain ws where ws: "insertion_from base (i + 1) e ?zs = Some ws" "range_perm base (e - 1) ?zs ws"
      "\<forall>p q. base \<le> p \<and> p < q \<and> q < max (i + 1) e \<longrightarrow> elem ws p \<le> elem ws q"
      using less.hyps [of "i + 1" ?zs] less.prems True sh(4) by auto
    have "insertion_from base i e xs = Some ws"
      using True i sh(1,2,3,4) less.prems(1) ws(1) by (subst insertion_from.simps) simp
    then show ?thesis using ws(3) range_perm_trans [OF perm ws(2)] True by (auto simp: max_def)
  qed
qed

lemma insertion_sort_correct:
  assumes "0 \<le> base" "base + n \<le> int (length xs)"
  obtains ys where "insertion_sort n base xs = Some ys" "range_perm base (base + n - 1) xs ys"
    "\<And>p q. base \<le> p \<Longrightarrow> p < q \<Longrightarrow> q < base + n \<Longrightarrow> elem ys p \<le> elem ys q"
  using insertion_from_correct [of base "base + 1" "base + n" xs] assms unfolding insertion_sort_def by auto

section \<open>Partitioning\<close>

lemma scan_up_correct:
  assumes "0 \<le> i" "i \<le> s" "s < int (length xs)" "a \<le> elem xs s"
  obtains k where "scan_up a xs i = Some (k + 1)" "i \<le> k" "k \<le> s" "a \<le> elem xs k" "\<And>p. i \<le> p \<Longrightarrow> p < k \<Longrightarrow> elem xs p < a"
  using assms(1,2)
proof (induction "nat (s - i)" arbitrary: i thesis rule: less_induct)
  case less
  have step: "scan_up a xs i = (if elem xs i < a then scan_up a xs (i + 1) else Some (i + 1))"
    using less.prems assms(3) by (subst scan_up.simps) simp
  show ?case
  proof (cases "elem xs i < a")
    case True
    then have "i \<noteq> s" using assms(4) by auto
    then obtain k where k: "scan_up a xs (i + 1) = Some (k + 1)" "i + 1 \<le> k" "k \<le> s" "a \<le> elem xs k"
      "\<And>p. i + 1 \<le> p \<Longrightarrow> p < k \<Longrightarrow> elem xs p < a"
      using less.hyps [of "i + 1"] less.prems by auto
    have "elem xs p < a" if "i \<le> p" "p < k" for p using k(5) True that by (cases "p = i") auto
    then show ?thesis by (intro less.prems(1) [of k]) (use k True step in auto)
  next
    case False
    then show ?thesis by (intro less.prems(1) [of i]) (use step less.prems in auto)
  qed
qed

lemma scan_down_correct:
  assumes "0 \<le> s" "s \<le> j - 2" "j - 2 < int (length xs)" "elem xs s \<le> a"
  obtains k where "scan_down a xs j = Some (k + 1)" "s \<le> k" "k \<le> j - 2" "elem xs k \<le> a" "\<And>p. k < p \<Longrightarrow> p \<le> j - 2 \<Longrightarrow> a < elem xs p"
  using assms(2,3)
proof (induction "nat (j - s)" arbitrary: j thesis rule: less_induct)
  case less
  have step: "scan_down a xs j = (if a < elem xs (j - 2) then scan_down a xs (j - 1) else Some (j - 1))"
    using less.prems assms(1) by (subst scan_down.simps) simp
  show ?case
  proof (cases "a < elem xs (j - 2)")
    case True
    then have "s \<noteq> j - 2" using assms(4) by auto
    then obtain k where k: "scan_down a xs (j - 1) = Some (k + 1)" "s \<le> k" "k \<le> j - 1 - 2" "elem xs k \<le> a"
      "\<And>p. k < p \<Longrightarrow> p \<le> j - 1 - 2 \<Longrightarrow> a < elem xs p"
      using less.hyps [of "j - 1"] less.prems by auto
    have "a < elem xs p" if "k < p" "p \<le> j - 2" for p using k(5) True that by (cases "p = j - 2") auto
    then show ?thesis by (intro less.prems(1) [of k]) (use k True step in auto)
  next
    case False
    then show ?thesis by (intro less.prems(1) [of "j - 2"]) (use step less.prems in auto)
  qed
qed

text \<open>
  While the loop runs, the elements below \<open>i\<close> are at most \<open>a\<close> and those from \<open>j - 1\<close> on at least \<open>a\<close>, so that both
  scans stop inside of the range.
\<close>

definition partitioning :: "int \<Rightarrow> int \<Rightarrow> int \<Rightarrow> int \<Rightarrow> int \<Rightarrow> int list \<Rightarrow> bool" where
  "partitioning l ir a i j xs \<longleftrightarrow>
     1 \<le> l \<and> ir \<le> int (length xs) \<and> l < i \<and> i < ir \<and> l + 2 \<le> j \<and> i \<le> j \<and> j \<le> ir \<and> elem xs l = a \<and>
     (\<forall>p. l - 1 \<le> p \<and> p < i \<longrightarrow> elem xs p \<le> a) \<and> (\<forall>p. j - 1 \<le> p \<and> p < ir \<longrightarrow> a \<le> elem xs p)"

definition partitioned :: "int \<Rightarrow> int \<Rightarrow> int \<Rightarrow> int \<Rightarrow> int \<Rightarrow> int list \<Rightarrow> bool" where
  "partitioned l ir a i j xs \<longleftrightarrow>
     l + 2 \<le> i \<and> i \<le> ir \<and> l < j \<and> j < i \<and> elem xs l = a \<and> elem xs (j - 1) \<le> a \<and>
     (\<forall>p. l - 1 \<le> p \<and> p < i - 1 \<longrightarrow> elem xs p \<le> a) \<and> (\<forall>p. j \<le> p \<and> p < ir \<longrightarrow> a \<le> elem xs p)"

lemma partition_loop_correct:
  assumes "partitioning l ir a i j xs"
  shows "\<exists>i' j' ys. partition_loop a i j xs = Some (i', j', ys) \<and> partitioned l ir a i' j' ys \<and> range_perm (l - 1) (ir - 1) xs ys"
  using assms
proof (induction "nat (j - i)" arbitrary: i j xs rule: less_induct)
  case less
  note P = less.prems [unfolded partitioning_def]
  obtain k where k: "scan_up a xs i = Some (k + 1)" "i \<le> k" "k \<le> ir - 1" "a \<le> elem xs k" "\<And>p. i \<le> p \<Longrightarrow> p < k \<Longrightarrow> elem xs p < a"
    by (rule scan_up_correct [of i "ir - 1" xs a]) (use P in auto)
  obtain m where m: "scan_down a xs j = Some (m + 1)" "l \<le> m" "m \<le> j - 2" "elem xs m \<le> a" "\<And>p. m < p \<Longrightarrow> p \<le> j - 2 \<Longrightarrow> a < elem xs p"
    by (rule scan_down_correct [of l j xs a]) (use P in auto)
  have low: "elem xs p \<le> a" if "l - 1 \<le> p" "p < k" for p using P k(5) that by (cases "p < i") (auto intro: order_less_imp_le)
  have high: "a \<le> elem xs p" if "m < p" "p < ir" for p using P m(5) that by (cases "p \<le> j - 2") (auto intro: order_less_imp_le)
  show ?case
  proof (cases "m < k")
    case True
    then have "partition_loop a i j xs = Some (k + 1, m + 1, xs)" by (subst partition_loop.simps) (simp add: k(1) m(1))
    moreover have "partitioned l ir a (k + 1) (m + 1) xs"
      using P k(2-4) m(2-4) True low high by (simp add: partitioned_def)
    ultimately show ?thesis by auto
  next
    case False
    let ?ys = "xs[nat k := elem xs m, nat m := elem xs k]"
    have swap: "SWAP xs k m = Some ?ys" by (rule SWAP_in [of "l - 1" "ir - 1"]) (use P k m False in auto)
    have perm: "range_perm (l - 1) (ir - 1) xs ?ys" by (rule range_perm_swap) (use P k m False in auto)
    have ys: "elem ?ys p = (if p = m then elem xs k else if p = k then elem xs m else elem xs p)" if "0 \<le> p" for p
      using that P k(2,3) m(2,3) by auto
    have "partitioning l ir a (k + 1) (m + 1) ?ys"
      unfolding partitioning_def using P k(2-4) m(2-4) False low high by (auto simp: ys)
    then obtain i' j' zs where "partition_loop a (k + 1) (m + 1) ?ys = Some (i', j', zs)" "partitioned l ir a i' j' zs"
      "range_perm (l - 1) (ir - 1) ?ys zs"
      using less.hyps [of "m + 1" "k + 1" ?ys] k(2) m(3) False by auto
    moreover have "partition_loop a i j xs = partition_loop a (k + 1) (m + 1) ?ys"
      using False by (subst partition_loop.simps) (simp add: k(1) m(1) swap)
    ultimately show ?thesis using range_perm_trans [OF perm] by auto
  qed
qed

lemma SWAP_IF_GREATER_in:
  assumes "0 \<le> lo" "hi < int (length xs)" "i \<in> {lo..hi}" "j \<in> {lo..hi}" "i \<noteq> j"
  obtains ys where "SWAP_IF_GREATER xs i j = Some ys" "range_perm lo hi xs ys"
    "\<And>p. 0 \<le> p \<Longrightarrow> elem ys p = (if p = i then min (elem xs i) (elem xs j) else if p = j then max (elem xs i) (elem xs j) else elem xs p)"
proof (cases "elem xs i > elem xs j")
  case True
  then have "SWAP_IF_GREATER xs i j = Some (xs[nat i := elem xs j, nat j := elem xs i])"
    using assms SWAP_in [OF assms(1-4)] by (simp add: SWAP_IF_GREATER_def)
  then show ?thesis by (rule that [OF _ range_perm_swap [OF assms(1-4)]]) (use True assms in auto)
next
  case False
  then have "SWAP_IF_GREATER xs i j = Some xs" using assms by (simp add: SWAP_IF_GREATER_def)
  then show ?thesis by (rule that [OF _ range_perm_refl]) (use False in auto)
qed

lemma choose_pivot_correct:
  assumes "1 \<le> l" "ir \<le> int (length xs)" "l + 1 < ir"
  obtains ys where "choose_pivot l ir xs = Some ys"
    "range_perm (l - 1) (ir - 1) xs ys" "elem ys (l - 1) \<le> elem ys l" "elem ys l \<le> elem ys (ir - 1)"
proof -
  have b: "0 \<le> l - 1" "ir - 1 < int (length xs)" using assms by auto
  have idx: "(l + ir) div 2 - 1 \<in> {l - 1..ir - 1}" "l \<in> {l - 1..ir - 1}" "l - 1 \<in> {l - 1..ir - 1}" "ir - 1 \<in> {l - 1..ir - 1}"
    using assms by auto
  let ?y0 = "xs[nat ((l + ir) div 2 - 1) := elem xs l, nat l := elem xs ((l + ir) div 2 - 1)]"
  have y0: "SWAP xs ((l + ir) div 2 - 1) l = Some ?y0" "range_perm (l - 1) (ir - 1) xs ?y0"
    by (rule SWAP_in [OF b idx(1,2)], rule range_perm_swap [OF b idx(1,2)])
  then have b0: "ir - 1 < int (length ?y0)" using b by simp
  obtain y1 where y1: "SWAP_IF_GREATER ?y0 (l - 1) (ir - 1) = Some y1" "range_perm (l - 1) (ir - 1) ?y0 y1"
    "\<And>p. 0 \<le> p \<Longrightarrow> elem y1 p = (if p = l - 1 then min (elem ?y0 (l - 1)) (elem ?y0 (ir - 1))
       else if p = ir - 1 then max (elem ?y0 (l - 1)) (elem ?y0 (ir - 1)) else elem ?y0 p)"
    using SWAP_IF_GREATER_in [OF b(1) b0 idx(3,4)] assms(3) by auto
  have b1: "ir - 1 < int (length y1)" using b0 range_perm_length [OF y1(2)] by simp
  obtain y2 where y2: "SWAP_IF_GREATER y1 l (ir - 1) = Some y2" "range_perm (l - 1) (ir - 1) y1 y2"
    "\<And>p. 0 \<le> p \<Longrightarrow> elem y2 p = (if p = l then min (elem y1 l) (elem y1 (ir - 1)) else if p = ir - 1 then max (elem y1 l) (elem y1 (ir - 1)) else elem y1 p)"
    using SWAP_IF_GREATER_in [OF b(1) b1 idx(2,4)] assms(3) by auto
  have b2: "ir - 1 < int (length y2)" using b1 range_perm_length [OF y2(2)] by simp
  obtain y3 where y3: "SWAP_IF_GREATER y2 (l - 1) l = Some y3" "range_perm (l - 1) (ir - 1) y2 y3"
    "\<And>p. 0 \<le> p \<Longrightarrow> elem y3 p = (if p = l - 1 then min (elem y2 (l - 1)) (elem y2 l) else if p = l then max (elem y2 (l - 1)) (elem y2 l) else elem y2 p)"
    using SWAP_IF_GREATER_in [OF b(1) b2 idx(3,2)] by auto
  have ord1: "elem y1 (l - 1) \<le> elem y1 (ir - 1)" using y1(3) [of "l - 1"] y1(3) [of "ir - 1"] assms by auto
  have ord3: "elem y3 (l - 1) \<le> elem y3 l" "elem y3 l \<le> elem y3 (ir - 1)"
    using y3(3) [of "l - 1"] y3(3) [of l] y3(3) [of "ir - 1"] y2(3) [of "l - 1"] y2(3) [of l] y2(3) [of "ir - 1"] ord1 assms by (auto simp: min_def max_def)
  show ?thesis
  proof (rule that [OF _ _ ord3])
    show "choose_pivot l ir xs = Some y3" unfolding choose_pivot_def by (simp add: y0(1) y1(1) y2(1) y3(1))
    show "range_perm (l - 1) (ir - 1) xs y3" using y0(2) y1(2) y2(2) y3(2) by (blast intro: range_perm_trans)
  qed
qed

lemma partition_range_correct:
  assumes "1 \<le> l" "ir \<le> int (length xs)" "l + 1 < ir"
  obtains i j ys a where "partition_range l ir xs = Some (i, j, ys)" "range_perm (l - 1) (ir - 1) xs ys"
    "l < j" "j < i" "i \<le> ir" "\<And>p. l - 1 \<le> p \<Longrightarrow> p < i - 1 \<Longrightarrow> elem ys p \<le> a" "\<And>p. j - 1 \<le> p \<Longrightarrow> p < ir \<Longrightarrow> a \<le> elem ys p"
proof -
  obtain y where y: "choose_pivot l ir xs = Some y" "range_perm (l - 1) (ir - 1) xs y" "elem y (l - 1) \<le> elem y l" "elem y l \<le> elem y (ir - 1)"
    by (rule choose_pivot_correct [OF assms])
  have len: "ir \<le> int (length y)" using assms(2) range_perm_length [OF y(2)] by simp
  have "elem y p \<le> elem y l" if "l - 1 \<le> p" "p < l + 1" for p using that y(3) by (cases "p = l") (auto simp: order_class.antisym_conv)
  moreover have "elem y l \<le> elem y p" if "ir - 1 \<le> p" "p < ir" for p using that y(4) by (cases "p = ir - 1") auto
  ultimately have "partitioning l ir (elem y l) (l + 1) ir y" using assms len by (auto simp: partitioning_def)
  then obtain i j z where z: "partition_loop (elem y l) (l + 1) ir y = Some (i, j, z)" "partitioned l ir (elem y l) i j z"
    "range_perm (l - 1) (ir - 1) y z"
    using partition_loop_correct by blast
  note Q = z(2) [unfolded partitioned_def]
  have lz: "length z = length y" by (rule range_perm_length [OF z(3)])
  let ?ys = "z[nat l := elem z (j - 1), nat (j - 1) := elem z l]"
  have run: "partition_range l ir xs = Some (i, j, ?ys)"
    unfolding partition_range_def using assms len Q lz by (simp add: y(1) z(1))
  have perm: "range_perm (l - 1) (ir - 1) z ?ys" by (rule range_perm_swap) (use Q len lz assms in auto)
  have ys: "elem ?ys p = (if p = j - 1 then elem z l else if p = l then elem z (j - 1) else elem z p)" if "0 \<le> p" for p
    using that Q len lz assms by auto
  show ?thesis
  proof (rule that [OF run])
    show "range_perm (l - 1) (ir - 1) xs ?ys" using y(2) z(3) perm by (blast intro: range_perm_trans)
    show "elem ?ys p \<le> elem y l" if "l - 1 \<le> p" "p < i - 1" for p using ys [of p] Q that assms by auto
    show "elem y l \<le> elem ?ys p" if "j - 1 \<le> p" "p < ir" for p using ys [of p] Q that assms by auto
  qed (use Q in auto)
qed

section \<open>Pending ranges\<close>

text \<open>
  Two elements are in order unless they are in the same pending range.  The smaller part of a range is sorted first, so that
  every entry of the stack halves the bound on the size of the current range.
\<close>

definition cells :: "int \<times> int \<Rightarrow> int set" where
  "cells r = {fst r - 1..snd r - 1}"

definition cell_count :: "int \<times> int \<Rightarrow> int" where
  "cell_count r = snd r - fst r + 1"

definition pending_ok :: "int \<Rightarrow> (int \<times> int) list \<Rightarrow> bool" where
  "pending_ok n rs \<longleftrightarrow> (\<forall>r \<in> set rs. 1 \<le> fst r \<and> snd r \<le> n \<and> fst r \<le> snd r + 1) \<and> sorted_wrt (\<lambda>r t. cells r \<inter> cells t = {}) rs"

definition ordered_but :: "(int \<times> int) list \<Rightarrow> int list \<Rightarrow> bool" where
  "ordered_but rs xs \<longleftrightarrow> (\<forall>p q. 0 \<le> p \<and> p < q \<and> q < int (length xs) \<longrightarrow>
     elem xs p \<le> elem xs q \<or> (\<exists>r \<in> set rs. p \<in> cells r \<and> q \<in> cells r))"

fun depth_ok :: "int \<Rightarrow> (int \<times> int) list \<Rightarrow> bool" where
  "depth_ok n [] = True"
| "depth_ok n (r # rs) \<longleftrightarrow> cell_count r * 2 ^ length rs \<le> n \<and> depth_ok n rs"

lemma ordered_but_refine:
  assumes ord: "ordered_but (r # rs) xs" and perm: "range_perm (fst r - 1) (snd r - 1) xs ys" and ok: "pending_ok (int (length xs)) (r # rs)"
    and inner: "\<And>p q. p \<in> cells r \<Longrightarrow> q \<in> cells r \<Longrightarrow> p < q \<Longrightarrow> elem ys p \<le> elem ys q \<or> (\<exists>t \<in> set ts. p \<in> cells t \<and> q \<in> cells t)"
  shows "ordered_but (ts @ rs) ys"
  unfolding ordered_but_def
proof (intro allI impI)
  fix p q
  assume pq: "0 \<le> p \<and> p < q \<and> q < int (length ys)"
  have len: "length ys = length xs" by (rule range_perm_length [OF perm])
  have same: "elem ys u = elem xs u" if "u \<notin> cells r" "0 \<le> u" for u
    using perm that by (force simp: range_perm_def cells_def)
  have val: "\<exists>v \<in> cells r. elem ys u = elem xs v" if "u \<in> cells r" for u
  proof -
    have "0 \<le> fst r - 1" "snd r - 1 < int (length xs)" using ok by (simp_all add: pending_ok_def)
    then show ?thesis using range_perm_elem [OF perm _ _ that [unfolded cells_def]] by (metis cells_def)
  qed
  have disj: "t \<in> set rs \<Longrightarrow> u \<in> cells r \<Longrightarrow> u \<notin> cells t" for t u using ok by (auto simp: pending_ok_def)
  have pos: "u \<in> cells r \<Longrightarrow> 0 \<le> u \<and> u < int (length xs)" for u using ok by (auto simp: pending_ok_def cells_def)
  have xs: "elem xs u \<le> elem xs v \<or> (\<exists>t \<in> set (r # rs). u \<in> cells t \<and> v \<in> cells t)" if "0 \<le> u" "u < v" "v < int (length xs)" for u v
    using ord that by (auto simp: ordered_but_def)
  consider "p \<in> cells r" "q \<in> cells r" | "p \<notin> cells r" "q \<notin> cells r" | "p \<in> cells r" "q \<notin> cells r" | "p \<notin> cells r" "q \<in> cells r" by blast
  then show "elem ys p \<le> elem ys q \<or> (\<exists>t \<in> set (ts @ rs). p \<in> cells t \<and> q \<in> cells t)"
  proof cases
    case 1
    then show ?thesis using inner [of p q] pq by auto
  next
    case 2
    then show ?thesis using xs [of p q] same [of p] same [of q] pq len by auto
  next
    case 3
    obtain v where v: "v \<in> cells r" "elem ys p = elem xs v" using val [OF 3(1)] by blast
    moreover have "v < q" using 3 v(1) pq by (auto simp: cells_def)
    ultimately show ?thesis using xs [of v q] same [of q] pos [OF v(1)] disj [OF _ v(1)] 3(2) pq len by auto
  next
    case 4
    obtain v where v: "v \<in> cells r" "elem ys q = elem xs v" using val [OF 4(2)] by blast
    moreover have "p < v" using 4 v(1) pq by (auto simp: cells_def)
    ultimately show ?thesis using xs [of p v] same [of p] pos [OF v(1)] disj [OF _ v(1)] 4(1) pq by auto
  qed
qed

lemma pending_ok_split:
  assumes ok: "pending_ok n ((l, ir) # rs)" and b: "l < j" "j < i" "i \<le> ir"
  shows "pending_ok n ((l, j - 1) # (i, ir) # rs)" "pending_ok n ((i, ir) # (l, j - 1) # rs)"
proof -
  have sub: "cells (l, j - 1) \<subseteq> cells (l, ir)" "cells (i, ir) \<subseteq> cells (l, ir)" and disj: "cells (l, j - 1) \<inter> cells (i, ir) = {}"
    using b by (auto simp: cells_def)
  have rest: "\<forall>t \<in> set rs. cells (l, ir) \<inter> cells t = {}" using ok by (simp add: pending_ok_def)
  then have "\<forall>t \<in> set rs. cells (l, j - 1) \<inter> cells t = {}" "\<forall>t \<in> set rs. cells (i, ir) \<inter> cells t = {}" using sub by blast+
  then show "pending_ok n ((l, j - 1) # (i, ir) # rs)" "pending_ok n ((i, ir) # (l, j - 1) # rs)"
    using ok b disj by (auto simp: pending_ok_def)
qed

lemma depth_ok_split:
  assumes d: "depth_ok n (r # rs)" and "2 * cell_count s \<le> cell_count r" "cell_count t \<le> cell_count r"
  shows "depth_ok n (s # t # rs)"
proof -
  have "cell_count s * 2 ^ Suc (length rs) \<le> cell_count r * 2 ^ length rs"
    using mult_right_mono [OF assms(2), of "2 ^ length rs"] by simp
  moreover have "cell_count t * 2 ^ length rs \<le> cell_count r * 2 ^ length rs" by (rule mult_right_mono) (use assms in auto)
  ultimately show ?thesis using d order_trans unfolding depth_ok.simps length_Cons by blast
qed

lemma depth_ok_room:
  assumes "depth_ok n (r # rs)" "n < 11 * 2 ^ 24" "11 \<le> cell_count r"
  shows "2 * length rs + 2 < NSTACK"
proof -
  have "11 * 2 ^ length rs \<le> cell_count r * 2 ^ length rs" by (rule mult_right_mono) (use assms in auto)
  then have "(2::int) ^ length rs < 2 ^ 24" using assms(1,2) unfolding depth_ok.simps by linarith
  then have "length rs < 24" by (rule power_less_imp_less_exp [rotated]) simp
  then show ?thesis by simp
qed

definition work_left :: "(int \<times> int) list \<Rightarrow> nat" where
  "work_left rs = (\<Sum>r \<leftarrow> rs. nat (2 * cell_count r + 1))"

lemma sort_loop_small:
  assumes ok: "pending_ok (int (length xs)) ((l, ir) # rs)" and ord: "ordered_but ((l, ir) # rs) xs"
  obtains ys where "insertion_sort (ir - l + 1) (l - 1) xs = Some ys" "mset ys = mset xs" "length ys = length xs" "ordered_but rs ys"
proof -
  have b: "0 \<le> l - 1" "l - 1 + (ir - l + 1) \<le> int (length xs)" using ok by (auto simp: pending_ok_def)
  obtain ys where ys: "insertion_sort (ir - l + 1) (l - 1) xs = Some ys" "range_perm (l - 1) (l - 1 + (ir - l + 1) - 1) xs ys"
    "\<And>p q. l - 1 \<le> p \<Longrightarrow> p < q \<Longrightarrow> q < l - 1 + (ir - l + 1) \<Longrightarrow> elem ys p \<le> elem ys q"
    using insertion_sort_correct [OF b] by blast
  have perm: "range_perm (fst (l, ir) - 1) (snd (l, ir) - 1) xs ys" using ys(2) by simp
  have "ordered_but ([] @ rs) ys"
    by (rule ordered_but_refine [OF ord perm ok]) (use ys(3) in \<open>simp add: cells_def\<close>)
  then show ?thesis using that ys(1) perm by (simp add: range_perm_def)
qed

lemma sort_loop_split:
  assumes ok: "pending_ok (int (length xs)) ((l, ir) # rs)" and ord: "ordered_but ((l, ir) # rs) xs" and big: "10 \<le> ir - l"
  obtains i j ys where "partition_range l ir xs = Some (i, j, ys)" "mset ys = mset xs" "length ys = length xs"
    "l < j" "j < i" "i \<le> ir" "ordered_but ((l, j - 1) # (i, ir) # rs) ys" "ordered_but ((i, ir) # (l, j - 1) # rs) ys"
proof -
  have b: "1 \<le> l" "ir \<le> int (length xs)" "l + 1 < ir" using ok big by (auto simp: pending_ok_def)
  obtain i j ys a where P: "partition_range l ir xs = Some (i, j, ys)" "range_perm (l - 1) (ir - 1) xs ys"
    "l < j" "j < i" "i \<le> ir" "\<And>p. l - 1 \<le> p \<Longrightarrow> p < i - 1 \<Longrightarrow> elem ys p \<le> a" "\<And>p. j - 1 \<le> p \<Longrightarrow> p < ir \<Longrightarrow> a \<le> elem ys p"
    by (rule partition_range_correct [OF b]) blast
  have perm: "range_perm (fst (l, ir) - 1) (snd (l, ir) - 1) xs ys" using P(2) by simp
  have "elem ys p \<le> elem ys q \<or> (\<exists>t \<in> set [(l, j - 1), (i, ir)]. p \<in> cells t \<and> q \<in> cells t)"
    if "p \<in> cells (l, ir)" "q \<in> cells (l, ir)" "p < q" for p q
  proof (cases "p < i - 1 \<and> j - 1 \<le> q")
    case True
    then show ?thesis using P(6) [of p] P(7) [of q] that by (auto simp: cells_def)
  next
    case False
    then show ?thesis using that P(3-5) by (auto simp: cells_def)
  qed
  then have "ordered_but ([(l, j - 1), (i, ir)] @ rs) ys" by (rule ordered_but_refine [OF ord perm ok])
  moreover from this have "ordered_but ((i, ir) # (l, j - 1) # rs) ys" by (auto simp: ordered_but_def)
  ultimately show ?thesis using that P perm by (simp add: range_perm_def)
qed

lemma sort_loop_correct:
  assumes "pending_ok (int (length xs)) ((l, ir) # stack)" "ordered_but ((l, ir) # stack) xs"
    "depth_ok (int (length xs)) ((l, ir) # stack)" "int (length xs) < 11 * 2 ^ 24"
  shows "\<exists>ys. sort_loop l ir stack xs = Some ys \<and> mset ys = mset xs \<and> ordered_but [] ys"
  using assms
proof (induction "work_left ((l, ir) # stack)" arbitrary: l ir stack xs rule: less_induct)
  case less
  note ok = less.prems(1) and ord = less.prems(2) and d = less.prems(3)
  show ?case
  proof (cases "ir - l < 10")
    case True
    obtain ys where ys: "insertion_sort (ir - l + 1) (l - 1) xs = Some ys" "mset ys = mset xs" "length ys = length xs" "ordered_but stack ys"
      by (rule sort_loop_small [OF ok ord])
    show ?thesis
    proof (cases stack)
      case Nil
      then show ?thesis using ys True by (subst sort_loop.simps) simp
    next
      case (Cons r rs)
      obtain l' ir' where r: "r = (l', ir')" by (cases r)
      have "sort_loop l ir stack xs = sort_loop l' ir' rs ys" using True ys(1) Cons r by (subst sort_loop.simps) simp
      moreover have "work_left ((l', ir') # rs) < work_left ((l, ir) # stack)"
        using ok Cons r by (simp add: work_left_def pending_ok_def cell_count_def)
      ultimately show ?thesis
        using less.hyps [of l' ir' rs ys] ok d ys(2-4) Cons r less.prems(4) by (auto simp: pending_ok_def)
    qed
  next
    case False
    obtain i j ys where P: "partition_range l ir xs = Some (i, j, ys)" "mset ys = mset xs" "length ys = length xs"
      "l < j" "j < i" "i \<le> ir" "ordered_but ((l, j - 1) # (i, ir) # stack) ys" "ordered_but ((i, ir) # (l, j - 1) # stack) ys"
      using sort_loop_split [OF ok ord] False by (metis linorder_not_less)
    have room: "2 * length stack + 2 < NSTACK" by (rule depth_ok_room [OF d less.prems(4)]) (use False in \<open>simp add: cell_count_def\<close>)
    have less: "work_left ((l, j - 1) # (i, ir) # stack) < work_left ((l, ir) # stack)"
      "work_left ((i, ir) # (l, j - 1) # stack) < work_left ((l, ir) # stack)"
      using P(4-6) by (simp_all add: work_left_def cell_count_def)
    show ?thesis
    proof (cases "ir - i + 1 \<ge> j - l")
      case True
      have "sort_loop l ir stack xs = sort_loop l (j - 1) ((i, ir) # stack) ys"
        using False True P(1) room by (subst sort_loop.simps) simp
      moreover have "depth_ok (int (length xs)) ((l, j - 1) # (i, ir) # stack)"
        by (rule depth_ok_split [OF d]) (use True P(4-6) in \<open>simp_all add: cell_count_def\<close>)
      ultimately show ?thesis
        using less.hyps [OF less(1), of ys] pending_ok_split(1) [OF ok P(4-6)] P(2,3,7) less.prems(4) by simp
    next
      case right: False
      have "sort_loop l ir stack xs = sort_loop i ir ((l, j - 1) # stack) ys"
        using False right P(1) room by (subst sort_loop.simps) simp
      moreover have "depth_ok (int (length xs)) ((i, ir) # (l, j - 1) # stack)"
        by (rule depth_ok_split [OF d]) (use right P(4-6) in \<open>simp_all add: cell_count_def\<close>)
      ultimately show ?thesis
        using less.hyps [OF less(2), of ys] pending_ok_split(2) [OF ok P(4-6)] P(2,3,8) less.prems(4) by simp
    qed
  qed
qed

lemma ordered_sorted: "ordered_but [] xs \<longleftrightarrow> sorted xs"
proof
  assume o: "ordered_but [] xs"
  show "sorted xs" unfolding sorted_iff_nth_mono_less
  proof (intro allI impI)
    fix p q assume "p < q" "q < length xs"
    then show "xs ! p \<le> xs ! q" using o [unfolded ordered_but_def, rule_format, of "int p" "int q"] by (simp add: elem_def)
  qed
next
  assume "sorted xs"
  then show "ordered_but [] xs" by (auto simp: ordered_but_def elem_def intro!: sorted_nth_mono)
qed

text \<open>C20. The quicksort benchmark returns for every array of fewer than 11 * 2^24 elements, without an access outside of the array or of the stack of 50 pointers, and the array is then a sorted permutation of its input.\<close>

theorem qsort_sort_correct:
  assumes "length xs < 11 * 2 ^ 24"
  shows "\<exists>ys. qsort_sort xs = Some ys \<and> sorted ys \<and> mset ys = mset xs"
proof -
  have "ordered_but [(1, int (length xs))] xs" by (auto simp: ordered_but_def cells_def)
  then show ?thesis
    using sort_loop_correct [of xs 1 "int (length xs)" "[]"] assms
    by (auto simp: qsort_sort_def pending_ok_def cell_count_def ordered_sorted)
qed

theorem qsort_sort_correct_witness:
  "\<exists>ys. qsort_sort [3, 1, 2] = Some ys \<and> sorted ys \<and> mset ys = mset [3, 1, 2]"
  by (rule qsort_sort_correct) simp

end
