(* ===== verification/Bench_Rsort.thy ===== *)
theory Bench_Rsort
  imports Prelude "HOL-Library.Monad_Syntax" "HOL-Library.Multiset"
begin

text \<open>
  The radix sort of \<^verbatim>\<open>src/riscv-tools/riscv-tests/benchmarks/rsort/rsort.c\<close>: four passes, each of which counts the digits
  of base 256, adds the counts up and distributes the elements from the last to the first.  The loops are unrolled as in
  the source.  A pointer into an array is its distance from the start; an access outside of the array is the value
  \<^const>\<open>None\<close>.  The theorem shows that each pass is a stable sort by one digit and that the sort returns the sorted array.
\<close>

section \<open>The sort\<close>

definition word_load :: "u32 list \<Rightarrow> int \<Rightarrow> u32 option" where
  "word_load arr i = (if 0 \<le> i \<and> i < int (length arr) then Some (arr ! nat i) else None)"

definition word_store :: "u32 list \<Rightarrow> int \<Rightarrow> u32 \<Rightarrow> u32 list option" where
  "word_store arr i v = (if 0 \<le> i \<and> i < int (length arr) then Some (arr[nat i := v]) else None)"

abbreviation "LOG_BASE \<equiv> 8 :: nat"
abbreviation "BASE \<equiv> 256"

definition digit :: "nat \<Rightarrow> u32 \<Rightarrow> nat" where
  "digit log_exp a = unat (drop_bit log_exp a mod BASE)"

text \<open>
  The buckets are an array of \<^verbatim>\<open>BASE\<close> counters; an access outside of it is the value \<^const>\<open>None\<close>.  The counters are numbers of elements and never
  leave the range of \<^verbatim>\<open>size_t\<close>.
\<close>

definition bucket_load :: "int list \<Rightarrow> nat \<Rightarrow> int option" where
  "bucket_load bucket i = (if i < length bucket then Some (bucket ! i) else None)"

definition bucket_store :: "int list \<Rightarrow> nat \<Rightarrow> int \<Rightarrow> int list option" where
  "bucket_store bucket i v = (if i < length bucket then Some (bucket[i := v]) else None)"

text \<open>\<^verbatim>\<open>fetch_add(ptr, inc)\<close> returns the value that the cell had before.\<close>

definition fetch_add :: "nat \<Rightarrow> int \<Rightarrow> int list \<Rightarrow> (int \<times> int list) option" where
  "fetch_add i inc bucket = do {
     v \<leftarrow> bucket_load bucket i;
     bucket \<leftarrow> bucket_store bucket i (v + inc);
     Some (v + inc - inc, bucket) }"

function clear_buckets :: "nat \<Rightarrow> int list \<Rightarrow> int list option" where
  "clear_buckets b bucket = (if b < BASE then do { bucket \<leftarrow> bucket_store bucket b 0; clear_buckets (b + 1) bucket } else Some bucket)"
  by pat_completeness auto
termination by (relation "measure (\<lambda>(b, bucket). BASE - b)") auto

function count_four :: "nat \<Rightarrow> u32 list \<Rightarrow> int \<Rightarrow> int list \<Rightarrow> (int \<times> int list) option" where
  "count_four e arr p bucket =
     (if p < int (length arr) - 3 then do {
        a0 \<leftarrow> word_load arr p;
        a1 \<leftarrow> word_load arr (p + 1);
        a2 \<leftarrow> word_load arr (p + 2);
        a3 \<leftarrow> word_load arr (p + 3);
        (_, bucket) \<leftarrow> fetch_add (digit e a0) 1 bucket;
        (_, bucket) \<leftarrow> fetch_add (digit e a1) 1 bucket;
        (_, bucket) \<leftarrow> fetch_add (digit e a2) 1 bucket;
        (_, bucket) \<leftarrow> fetch_add (digit e a3) 1 bucket;
        count_four e arr (p + 4) bucket }
      else Some (p, bucket))"
  by pat_completeness auto
termination by (relation "measure (\<lambda>(e, arr, p, bucket). nat (int (length arr) - p))") auto

function count_one :: "nat \<Rightarrow> u32 list \<Rightarrow> int \<Rightarrow> int list \<Rightarrow> int list option" where
  "count_one e arr p bucket =
     (if p < int (length arr) then do {
        a \<leftarrow> word_load arr p;
        b \<leftarrow> bucket_load bucket (digit e a);
        bucket \<leftarrow> bucket_store bucket (digit e a) (b + 1);
        count_one e arr (p + 1) bucket }
      else Some bucket)"
  by pat_completeness auto
termination by (relation "measure (\<lambda>(e, arr, p, bucket). nat (int (length arr) - p))") auto

definition prefix_add :: "nat \<Rightarrow> int \<times> int list \<Rightarrow> (int \<times> int list) option" where
  "prefix_add i s = do {
     let (prev, bucket) = s;
     (old, bucket) \<leftarrow> fetch_add i prev bucket;
     Some (prev + old, bucket) }"

function prefix_pairs :: "nat \<Rightarrow> int \<times> int list \<Rightarrow> (int \<times> int list) option" where
  "prefix_pairs b s =
     (if b < BASE then do { s \<leftarrow> prefix_add b s; s \<leftarrow> prefix_add (b + 1) s; prefix_pairs (b + 2) s } else Some s)"
  by pat_completeness auto
termination by (relation "measure (\<lambda>(b, s). BASE - b)") auto

definition prefix_sums :: "int list \<Rightarrow> int list option" where
  "prefix_sums bucket = do {
     prev \<leftarrow> bucket_load bucket 0;
     s \<leftarrow> prefix_add 1 (prev, bucket);
     (prev, bucket) \<leftarrow> prefix_pairs 2 s;
     Some bucket }"

function place_four :: "nat \<Rightarrow> u32 list \<Rightarrow> int \<Rightarrow> int list \<Rightarrow> u32 list \<Rightarrow> (int \<times> int list \<times> u32 list) option" where
  "place_four e arr p bucket scratch =
     (if 3 \<le> p then do {
        a0 \<leftarrow> word_load arr p;
        a1 \<leftarrow> word_load arr (p - 1);
        a2 \<leftarrow> word_load arr (p - 2);
        a3 \<leftarrow> word_load arr (p - 3);
        (s0, bucket) \<leftarrow> fetch_add (digit e a0) (- 1) bucket;
        (s1, bucket) \<leftarrow> fetch_add (digit e a1) (- 1) bucket;
        (s2, bucket) \<leftarrow> fetch_add (digit e a2) (- 1) bucket;
        (s3, bucket) \<leftarrow> fetch_add (digit e a3) (- 1) bucket;
        scratch \<leftarrow> word_store scratch (s0 - 1) a0;
        scratch \<leftarrow> word_store scratch (s1 - 1) a1;
        scratch \<leftarrow> word_store scratch (s2 - 1) a2;
        scratch \<leftarrow> word_store scratch (s3 - 1) a3;
        place_four e arr (p - 4) bucket scratch }
      else Some (p, bucket, scratch))"
  by pat_completeness auto
termination by (relation "measure (\<lambda>(e, arr, p, bucket, scratch). nat p)") auto

function place_one :: "nat \<Rightarrow> u32 list \<Rightarrow> int \<Rightarrow> int list \<Rightarrow> u32 list \<Rightarrow> (int list \<times> u32 list) option" where
  "place_one e arr p bucket scratch =
     (if 0 \<le> p then do {
        a \<leftarrow> word_load arr p;
        b \<leftarrow> bucket_load bucket (digit e a);
        bucket \<leftarrow> bucket_store bucket (digit e a) (b - 1);
        scratch \<leftarrow> word_store scratch (b - 1) a;
        place_one e arr (p - 1) bucket scratch }
      else Some (bucket, scratch))"
  by pat_completeness auto
termination by (relation "measure (\<lambda>(e, arr, p, bucket, scratch). nat (p + 1))") auto

text \<open>One pass of the loop: the buckets and the scratch array after it.\<close>

definition rsort_pass :: "nat \<Rightarrow> int list \<Rightarrow> u32 list \<Rightarrow> u32 list \<Rightarrow> (int list \<times> u32 list) option" where
  "rsort_pass e bucket arr scratch = do {
     bucket \<leftarrow> clear_buckets 0 bucket;
     (p, bucket) \<leftarrow> count_four e arr 0 bucket;
     bucket \<leftarrow> count_one e arr p bucket;
     bucket \<leftarrow> prefix_sums bucket;
     (p, bucket, scratch) \<leftarrow> place_four e arr (int (length arr) - 1) bucket scratch;
     place_one e arr p bucket scratch }"

text \<open>
  The two arrays change their roles after every pass; \<open>swapped\<close> is the condition \<^verbatim>\<open>arr != arrIn\<close>.  The result is the content
  of \<^verbatim>\<open>arrIn\<close> and \<^verbatim>\<open>scratchIn\<close>.
\<close>

function rsort_loop :: "nat \<Rightarrow> bool \<Rightarrow> int list \<Rightarrow> u32 list \<Rightarrow> u32 list \<Rightarrow> (u32 list \<times> u32 list) option" where
  "rsort_loop e swapped bucket arr scratch =
     (if e < 32 then do {
        (bucket, scratch) \<leftarrow> rsort_pass e bucket arr scratch;
        rsort_loop (e + LOG_BASE) (\<not> swapped) bucket scratch arr }
      else if swapped then Some (scratch, scratch)
      else Some (arr, scratch))"
  by pat_completeness auto
termination by (relation "measure (\<lambda>(e, swapped, bucket, arr, scratch). 32 - e)") auto

text \<open>\<open>buckets\<close> is the uninitialised content of the local array.\<close>

definition rsort :: "int list \<Rightarrow> u32 list \<Rightarrow> u32 list \<Rightarrow> (u32 list \<times> u32 list) option" where
  "rsort buckets arrIn scratchIn = rsort_loop 0 False buckets arrIn scratchIn"

declare clear_buckets.simps [simp del] count_four.simps [simp del] count_one.simps [simp del] prefix_pairs.simps [simp del]
  place_four.simps [simp del] place_one.simps [simp del] rsort_loop.simps [simp del]

section \<open>The buckets as a table\<close>

definition table :: "(nat \<Rightarrow> int) \<Rightarrow> int list" where
  "table f = map f [0..<BASE]"

lemma bucket_load_table: "d < 256 \<Longrightarrow> bucket_load (table f) d = Some (f d)"
  by (simp add: bucket_load_def table_def del: upt_rec_numeral)

lemma bucket_store_table: "d < 256 \<Longrightarrow> bucket_store (table f) d v = Some (table (f(d := v)))"
  by (auto simp: bucket_store_def table_def nth_list_update simp del: upt_rec_numeral intro!: nth_equalityI)

lemma fetch_add_table: "d < 256 \<Longrightarrow> fetch_add d inc (table f) = Some (f d, table (f(d := f d + inc)))"
  by (simp add: fetch_add_def bucket_load_table bucket_store_table)

lemma length_table: "length (table f) = 256"
  by (simp add: table_def del: upt_rec_numeral)

lemma clear_buckets_table:
  assumes "length bucket = 256"
  shows "clear_buckets 0 bucket = Some (table (\<lambda>_. 0))"
proof -
  have "clear_buckets b (replicate b 0 @ drop b bucket) = Some (table (\<lambda>_. 0))" if "b \<le> 256" for b
    using that
  proof (induction "256 - b" arbitrary: b)
    case 0
    then show ?case using assms by (subst clear_buckets.simps) (simp add: table_def map_replicate_const del: upt_rec_numeral)
  next
    case (Suc m)
    then have "(replicate b 0 @ drop b bucket)[b := 0] = replicate (Suc b) 0 @ drop (Suc b) bucket"
      using assms by (simp add: list_update_append replicate_app_Cons_same flip: Cons_nth_drop_Suc)
    moreover have "b < 256" using Suc.hyps(2) by simp
    ultimately show ?case using assms Suc.hyps Suc.hyps(1) [of "Suc b"] by (subst clear_buckets.simps) (simp add: bucket_store_def)
  qed
  from this [of 0] show ?thesis by simp
qed

section \<open>Stable sorting by a key\<close>

lemma sorted_split:
  fixes f :: "'a \<Rightarrow> nat"
  assumes "sorted (map f xs)"
  shows "xs = filter (\<lambda>x. f x < d) xs @ filter (\<lambda>x. f x = d) xs @ filter (\<lambda>x. d < f x) xs"
  using assms
proof (induction xs)
  case (Cons x xs)
  then have xs: "xs = filter (\<lambda>x. f x < d) xs @ filter (\<lambda>x. f x = d) xs @ filter (\<lambda>x. d < f x) xs" and x: "\<forall>y \<in> set xs. f x \<le> f y" by auto
  consider "f x < d" | "f x = d" | "d < f x" by linarith
  then show ?case
  proof cases
    case 2
    then have "filter (\<lambda>x. f x < d) xs = []" using x by (auto simp: filter_empty_conv)
    then show ?thesis using 2 xs by auto
  next
    case 3
    then have "filter (\<lambda>x. f x < d) xs = []" "filter (\<lambda>x. f x = d) xs = []" using x by (auto simp: filter_empty_conv)
    then show ?thesis using 3 xs by auto
  qed (use xs in auto)
qed simp

lemma length_filter_mset: "mset xs = mset ys \<Longrightarrow> length (filter P xs) = length (filter P ys)"
  by (metis mset_filter size_mset)

lemma sort_key_nth:
  fixes f :: "'a \<Rightarrow> nat"
  assumes "k < length (filter (\<lambda>x. f x = d) xs)"
  shows "sort_key f xs ! (length (filter (\<lambda>x. f x < d) xs) + k) = filter (\<lambda>x. f x = d) xs ! k"
proof -
  let ?ys = "sort_key f xs"
  have "length (filter (\<lambda>x. f x < d) ?ys) = length (filter (\<lambda>x. f x < d) xs)" by (rule length_filter_mset) simp
  moreover have "filter (\<lambda>x. f x = d) ?ys = filter (\<lambda>x. f x = d) xs" by (rule sort_key_stable)
  moreover have "?ys = filter (\<lambda>x. f x < d) ?ys @ filter (\<lambda>x. f x = d) ?ys @ filter (\<lambda>x. d < f x) ?ys" by (rule sorted_split) simp
  ultimately show ?thesis using assms by (metis nth_append nth_append_length_plus)
qed

text \<open>Sorting by a key keeps an order that a finer key refines.\<close>

lemma sorted_refine:
  fixes f g h :: "'a \<Rightarrow> nat"
  assumes "sorted (map f xs)" "\<And>d. sorted (map g (filter (\<lambda>x. f x = d) xs))"
    and h: "\<And>x y. f x < f y \<Longrightarrow> h x \<le> h y" "\<And>x y. f x = f y \<Longrightarrow> g x \<le> g y \<Longrightarrow> h x \<le> h y"
  shows "sorted (map h xs)"
  using assms(1,2)
proof (induction xs)
  case (Cons x xs)
  have "h x \<le> h y" if "y \<in> set xs" for y
  proof (cases "f x = f y")
    case True
    then show ?thesis using Cons.prems(2) [of "f x"] that by (intro h(2)) auto
  next
    case False
    then show ?thesis using Cons.prems(1) that by (intro h(1)) (auto simp: le_less)
  qed
  moreover have "sorted (map g (filter (\<lambda>x. f x = d) xs))" for d using Cons.prems(2) [of d] by (auto split: if_splits)
  ultimately show ?case using Cons by auto
qed simp

lemma sort_key_refine:
  fixes f g h :: "'a \<Rightarrow> nat"
  assumes "sorted (map g xs)" "\<And>x y. f x < f y \<Longrightarrow> h x \<le> h y" "\<And>x y. f x = f y \<Longrightarrow> g x \<le> g y \<Longrightarrow> h x \<le> h y"
  shows "sorted (map h (sort_key f xs))"
proof (rule sorted_refine [of f _ g])
  show "sorted (map g (filter (\<lambda>x. f x = d) (sort_key f xs)))" for d
    unfolding sort_key_stable using assms(1) by (rule sorted_filter)
qed (use assms in auto)

section \<open>The digits\<close>

lemma digit_eq: "digit e a = unat a div 2 ^ e mod 256"
proof -
  have "unat (drop_bit e a) = unat a div 2 ^ e" by (simp only: unat_eq_nat_uint uint_drop) (simp add: nat_div_distrib nat_power_eq)
  then show ?thesis by (simp add: digit_def unat_mod)
qed

lemma digit_less: "digit e a < 256"
  by (simp add: digit_eq)

lemma mod_digit: "unat a mod 2 ^ (e + 8) = digit e a * 2 ^ e + unat a mod 2 ^ e"
  by (simp add: digit_eq power_add mod_mult2_eq mult.commute)

lemma sorted_digit_step:
  assumes "sorted (map (\<lambda>a. unat a mod 2 ^ e) xs)"
  shows "sorted (map (\<lambda>a. unat a mod 2 ^ (e + 8)) (sort_key (digit e) xs))"
proof (rule sort_key_refine [OF assms])
  fix x y :: u32
  assume "digit e x < digit e y"
  then have "(digit e x + 1) * 2 ^ e \<le> digit e y * 2 ^ e" by (intro mult_right_mono) simp_all
  moreover have "unat x mod 2 ^ e < 2 ^ e" by simp
  ultimately show "unat x mod 2 ^ (e + 8) \<le> unat y mod 2 ^ (e + 8)" unfolding mod_digit add_mult_distrib by linarith
qed (simp add: mod_digit)

section \<open>Counting\<close>

lemma word_load_in: "0 \<le> i \<Longrightarrow> i < int (length arr) \<Longrightarrow> word_load arr i = Some (arr ! nat i)"
  by (simp add: word_load_def)

definition bump :: "nat \<Rightarrow> (nat \<Rightarrow> int) \<Rightarrow> nat \<Rightarrow> int" where
  "bump d bucket = bucket(d := bucket d + 1)"

lemma fetch_add_bump: "fetch_add (digit e a) 1 (table f) = Some (f (digit e a), table (bump (digit e a) f))"
  by (simp add: fetch_add_table digit_less bump_def)

lemma bucket_incr: "bucket_store (table f) (digit e a) (f (digit e a) + 1) = Some (table (bump (digit e a) f))"
  by (simp add: bucket_store_table digit_less bump_def)

definition counts :: "nat \<Rightarrow> u32 list \<Rightarrow> nat \<Rightarrow> int" where
  "counts e xs d = int (length (filter (\<lambda>a. digit e a = d) xs))"

lemma counts_Nil [simp]: "counts e [] = (\<lambda>_. 0)"
  by (simp add: counts_def fun_eq_iff)

lemma counts_snoc: "counts e (xs @ [a]) = bump (digit e a) (counts e xs)"
  by (auto simp: counts_def bump_def fun_eq_iff)

lemma counts_take:
  assumes "0 \<le> p" "p < int (length arr)"
  shows "bump (digit e (arr ! nat p)) (counts e (take (nat p) arr)) = counts e (take (nat (p + 1)) arr)"
proof -
  have "nat (p + 1) = Suc (nat p)" "nat p < length arr" using assms by auto
  then show ?thesis by (simp add: take_Suc_conv_app_nth counts_snoc)
qed

lemma count_one_correct:
  assumes "0 \<le> p" "p \<le> int (length arr)"
  shows "count_one e arr p (table (counts e (take (nat p) arr))) = Some (table (counts e arr))"
  using assms
proof (induction "nat (int (length arr) - p)" arbitrary: p)
  case 0
  then show ?case by (subst count_one.simps) simp
next
  case (Suc m)
  then show ?case using Suc.hyps(1) [of "p + 1"]
    by (subst count_one.simps) (simp add: word_load_in bucket_load_table digit_less bucket_incr counts_take)
qed

lemma count_four_correct:
  assumes "0 \<le> p" "p \<le> int (length arr)"
  shows "\<exists>p'. count_four e arr p (table (counts e (take (nat p) arr))) = Some (p', table (counts e (take (nat p') arr))) \<and> 0 \<le> p' \<and> p' \<le> int (length arr)"
  using assms
proof (induction "nat (int (length arr) - p)" arbitrary: p rule: less_induct)
  case less
  show ?case
  proof (cases "p < int (length arr) - 3")
    case True
    have "count_four e arr p (table (counts e (take (nat p) arr))) = count_four e arr (p + 4) (table (counts e (take (nat (p + 4)) arr)))"
      using True less.prems counts_take [of p arr e] counts_take [of "p + 1" arr e] counts_take [of "p + 2" arr e] counts_take [of "p + 3" arr e]
      by (subst count_four.simps) (simp add: word_load_in fetch_add_bump add.assoc)
    then show ?thesis using less.hyps [of "p + 4"] less.prems True by simp
  next
    case False
    then show ?thesis using less.prems by (subst count_four.simps) auto
  qed
qed

section \<open>Adding up\<close>

definition counts_upto :: "nat \<Rightarrow> u32 list \<Rightarrow> nat \<Rightarrow> int" where
  "counts_upto e xs d = int (length (filter (\<lambda>a. digit e a \<le> d) xs))"

lemma counts_upto_Suc: "counts_upto e xs (Suc d) = counts_upto e xs d + counts e xs (Suc d)"
proof -
  have "length (filter (\<lambda>a. digit e a \<le> Suc d) xs) = length (filter (\<lambda>a. digit e a \<le> d) xs) + length (filter (\<lambda>a. digit e a = Suc d) xs)"
    by (induction xs) auto
  then show ?thesis by (simp add: counts_upto_def counts_def)
qed

definition summed :: "nat \<Rightarrow> u32 list \<Rightarrow> nat \<Rightarrow> nat \<Rightarrow> int" where
  "summed e xs k d = (if d < k then counts_upto e xs d else counts e xs d)"

lemma prefix_add_summed:
  assumes "0 < k" "k < 256"
  shows "prefix_add k (counts_upto e xs (k - 1), table (summed e xs k)) = Some (counts_upto e xs k, table (summed e xs (Suc k)))"
proof -
  obtain m where m: "k = Suc m" using assms by (cases k) auto
  have "(summed e xs k)(k := summed e xs k k + counts_upto e xs m) = summed e xs (Suc k)"
    by (auto simp: m summed_def counts_upto_Suc fun_eq_iff)
  then show ?thesis using assms(2) m by (simp add: prefix_add_def fetch_add_table) (simp add: summed_def counts_upto_Suc)
qed

lemma prefix_pairs_summed:
  assumes "0 < k" "even k" "k \<le> 256"
  shows "prefix_pairs k (counts_upto e xs (k - 1), table (summed e xs k)) = Some (counts_upto e xs 255, table (summed e xs 256))"
  using assms
proof (induction "256 - k" arbitrary: k rule: less_induct)
  case less
  show ?case
  proof (cases "k < 256")
    case True
    have "Suc k < 256" using True less.prems(2) by presburger
    then have "prefix_pairs k (counts_upto e xs (k - 1), table (summed e xs k)) =
        prefix_pairs (k + 2) (counts_upto e xs (k + 2 - 1), table (summed e xs (k + 2)))"
      using True less.prems prefix_add_summed [of k e xs] prefix_add_summed [of "Suc k" e xs] by (subst prefix_pairs.simps) simp
    also have "\<dots> = Some (counts_upto e xs 255, table (summed e xs 256))"
    proof (rule less.hyps)
      show "k + 2 \<le> 256" using True less.prems(2) by presburger
    qed (use True less.prems in auto)
    finally show ?thesis .
  next
    case False
    then have "k = 256" using less.prems by simp
    then show ?thesis by (subst prefix_pairs.simps) simp
  qed
qed

lemma prefix_sums_correct: "prefix_sums (table (counts e xs)) = Some (table (counts_upto e xs))"
proof -
  have "counts_upto e xs 0 = counts e xs 0" "summed e xs 1 = counts e xs" by (auto simp: counts_upto_def counts_def summed_def fun_eq_iff)
  then have "prefix_add 1 (counts e xs 0, table (counts e xs)) = Some (counts_upto e xs 1, table (summed e xs 2))"
    using prefix_add_summed [of 1 e xs] by (simp add: numeral_2_eq_2)
  moreover have "table (summed e xs 256) = table (counts_upto e xs)" by (simp add: table_def summed_def del: upt_rec_numeral)
  ultimately show ?thesis using prefix_pairs_summed [of 2 e xs] by (simp add: prefix_sums_def bucket_load_table)
qed

section \<open>Distributing\<close>

text \<open>
  When the elements from position \<open>m\<close> on have been distributed, they are where the stable sort by the digit has them, and
  the bucket of a digit counts the places that the smaller digits and its remaining elements take.
\<close>

definition smaller :: "nat \<Rightarrow> u32 list \<Rightarrow> nat \<Rightarrow> nat" where
  "smaller e xs d = length (filter (\<lambda>a. digit e a < d) xs)"

definition equals :: "nat \<Rightarrow> u32 list \<Rightarrow> nat \<Rightarrow> nat" where
  "equals e xs d = length (filter (\<lambda>a. digit e a = d) xs)"

definition placed :: "nat \<Rightarrow> u32 list \<Rightarrow> nat \<Rightarrow> (nat \<Rightarrow> int) \<Rightarrow> u32 list \<Rightarrow> bool" where
  "placed e arr m bucket scratch \<longleftrightarrow>
     length scratch = length arr \<and> (\<forall>d < 256. bucket d = int (smaller e arr d + equals e (take m arr) d)) \<and>
     (\<forall>d k. equals e (take m arr) d \<le> k \<and> k < equals e arr d \<longrightarrow>
        scratch ! (smaller e arr d + k) = sort_key (digit e) arr ! (smaller e arr d + k))"

lemma smaller_equals: "smaller e arr d + equals e arr d \<le> length arr"
proof -
  have "length (filter (\<lambda>a. digit e a < d) arr) + length (filter (\<lambda>a. digit e a = d) arr) = length (filter (\<lambda>a. digit e a \<le> d) arr)"
    by (induction arr) auto
  then show ?thesis by (simp add: smaller_def equals_def)
qed

lemma smaller_equals_less: "d < d' \<Longrightarrow> smaller e arr d + equals e arr d \<le> smaller e arr d'"
  unfolding smaller_def equals_def by (induction arr) auto

lemma equals_take_Suc:
  "m < length arr \<Longrightarrow> equals e (take (Suc m) arr) d = equals e (take m arr) d + of_bool (digit e (arr ! m) = d)"
  by (simp add: take_Suc_conv_app_nth equals_def)

lemma equals_take_le: "equals e (take m arr) d \<le> equals e arr d"
proof -
  have "equals e arr d = equals e (take m arr) d + equals e (drop m arr) d"
    unfolding equals_def by (metis append_take_drop_id filter_append length_append)
  then show ?thesis by simp
qed

lemma sort_key_place:
  assumes "m < length arr" "d = digit e (arr ! m)"
  shows "sort_key (digit e) arr ! (smaller e arr d + equals e (take m arr) d) = arr ! m" "equals e (take m arr) d < equals e arr d"
proof -
  have "arr = take m arr @ arr ! m # drop (Suc m) arr" using assms(1) by (rule id_take_nth_drop)
  then have f: "filter (\<lambda>a. digit e a = d) arr = filter (\<lambda>a. digit e a = d) (take m arr) @ arr ! m # filter (\<lambda>a. digit e a = d) (drop (Suc m) arr)"
    using assms(2) by (metis (mono_tags, lifting) filter.simps(2) filter_append)
  then show less: "equals e (take m arr) d < equals e arr d" by (simp add: equals_def)
  show "sort_key (digit e) arr ! (smaller e arr d + equals e (take m arr) d) = arr ! m"
    using sort_key_nth [of "equals e (take m arr) d" "digit e" d arr] less f by (simp add: smaller_def equals_def)
qed

lemma place_step:
  assumes p: "placed e arr (Suc m) bucket scratch" and m: "m < length arr" and d: "d = digit e (arr ! m)"
  shows "word_store scratch (bucket d - 1) (arr ! m) = Some (scratch[nat (bucket d - 1) := arr ! m])"
    "placed e arr m (bucket(d := bucket d - 1)) (scratch[nat (bucket d - 1) := arr ! m])"
proof -
  let ?k = "equals e (take m arr) d"
  have d256: "d < 256" using d digit_less by simp
  have b: "bucket d = int (smaller e arr d + Suc ?k)"
    using p d256 equals_take_Suc [OF m, of e d] d by (simp add: placed_def)
  note place = sort_key_place [OF m d]
  have idx: "smaller e arr d + ?k < length arr" using place(2) smaller_equals [of e arr d] by linarith
  have len: "length scratch = length arr" using p by (simp add: placed_def)
  have n: "nat (bucket d - 1) = smaller e arr d + ?k" using b by simp
  then show "word_store scratch (bucket d - 1) (arr ! m) = Some (scratch[nat (bucket d - 1) := arr ! m])"
    using b idx len by (simp add: word_store_def)
  show "placed e arr m (bucket(d := bucket d - 1)) (scratch[nat (bucket d - 1) := arr ! m])"
    unfolding placed_def n
  proof (intro conjI allI impI)
    fix c k
    assume c: "equals e (take m arr) c \<le> k \<and> k < equals e arr c"
    show "scratch[smaller e arr d + ?k := arr ! m] ! (smaller e arr c + k) = sort_key (digit e) arr ! (smaller e arr c + k)"
    proof (cases "c = d \<and> k = ?k")
      case True
      then show ?thesis using place(1) idx len by simp
    next
      case False
      have "equals e (take (Suc m) arr) c \<le> k" using c False equals_take_Suc [OF m, of e c] d by auto
      then have "scratch ! (smaller e arr c + k) = sort_key (digit e) arr ! (smaller e arr c + k)" using p c by (simp add: placed_def)
      moreover have "smaller e arr c + k \<noteq> smaller e arr d + ?k"
        using False c place(2) smaller_equals_less [of c d e arr] smaller_equals_less [of d c e arr] by (cases c d rule: linorder_cases) auto
      ultimately show ?thesis by simp
    qed
  next
    fix c :: nat
    assume "c < 256"
    then show "(bucket(d := bucket d - 1)) c = int (smaller e arr c + equals e (take m arr) c)"
      using b p equals_take_Suc [OF m, of e c] d by (auto simp: placed_def)
  qed (use len in simp)
qed

lemma placed_all:
  assumes "placed e arr 0 bucket scratch"
  shows "scratch = sort_key (digit e) arr"
proof (rule nth_equalityI)
  show "length scratch = length (sort_key (digit e) arr)" using assms by (simp add: placed_def)
  fix i
  assume "i < length scratch"
  then have i: "i < length (sort_key (digit e) arr)" using assms by (simp add: placed_def)
  define T where "T = sort_key (digit e) arr"
  define d where "d = digit e (T ! i)"
  define L M R where "L = filter (\<lambda>x. digit e x < d) T" and "M = filter (\<lambda>x. digit e x = d) T" and "R = filter (\<lambda>x. d < digit e x) T"
  have split: "T = L @ M @ R" unfolding L_def M_def R_def by (rule sorted_split) (simp add: T_def)
  have "length L = smaller e arr d" "length M = equals e arr d"
    unfolding smaller_def equals_def L_def M_def T_def by (rule length_filter_mset; simp)+
  moreover have "\<not> i < length L"
  proof
    assume l: "i < length L"
    then have "T ! i = L ! i" unfolding split by (simp add: nth_append)
    then show False using nth_mem [OF l] by (auto simp: d_def L_def)
  qed
  moreover have "i < length L + length M"
  proof (rule ccontr)
    assume n: "\<not> i < length L + length M"
    then have "\<not> i < length L" "\<not> i - length L < length M" by linarith+
    then have "T ! i = R ! (i - length L - length M)" unfolding split by (simp add: nth_append)
    moreover have "i - length L - length M < length R" using n i unfolding T_def [symmetric] split by auto
    ultimately have "T ! i \<in> set R" by simp
    then show False by (simp add: d_def R_def)
  qed
  ultimately have "smaller e arr d \<le> i" "i - smaller e arr d < equals e arr d" by auto
  then obtain k where "i = smaller e arr d + k" "k < equals e arr d" by (metis le_add_diff_inverse)
  moreover have "equals e (take 0 arr) d = 0" by (simp add: equals_def)
  ultimately show "scratch ! i = sort_key (digit e) arr ! i" using assms unfolding placed_def by auto
qed

lemma place_one_correct:
  assumes "placed e arr (nat (p + 1)) bucket scratch" "- 1 \<le> p" "p < int (length arr)"
  shows "\<exists>bucket'. place_one e arr p (table bucket) scratch = Some (table bucket', sort_key (digit e) arr)"
  using assms
proof (induction "nat (p + 1)" arbitrary: p bucket scratch)
  case 0
  then show ?case using placed_all by (subst place_one.simps) auto
next
  case (Suc m)
  then have p: "0 \<le> p" "nat p = m" "m < length arr" by auto
  let ?d = "digit e (arr ! m)"
  note step = place_step [OF Suc.prems(1) [folded Suc.hyps(2)] p(3) refl]
  have "place_one e arr p (table bucket) scratch =
      place_one e arr (p - 1) (table (bucket(?d := bucket ?d - 1))) (scratch[nat (bucket ?d - 1) := arr ! m])"
    using p Suc.prems(3) step(1) by (subst place_one.simps) (simp add: word_load_in bucket_load_table bucket_store_table digit_less)
  then show ?case using Suc.hyps(1) [of "p - 1"] step(2) p Suc.prems(3) by simp
qed

definition take_one :: "nat \<Rightarrow> (nat \<Rightarrow> int) \<Rightarrow> nat \<Rightarrow> int" where
  "take_one d bucket = bucket(d := bucket d - 1)"

lemma fetch_sub: "fetch_add (digit e a) (- 1) (table bucket) = Some (bucket (digit e a), table (take_one (digit e a) bucket))"
  by (simp add: fetch_add_table digit_less take_one_def)

lemma place_step_four:
  assumes "placed e arr (Suc m) bucket scratch" "m < length arr"
  obtains scratch' where "word_store scratch (bucket (digit e (arr ! m)) - 1) (arr ! m) = Some scratch'"
    "placed e arr m (take_one (digit e (arr ! m)) bucket) scratch'"
  using place_step [OF assms refl] by (auto simp: take_one_def)

lemma place_four_correct:
  assumes "placed e arr (nat (p + 1)) bucket scratch" "- 1 \<le> p" "p < int (length arr)"
  shows "\<exists>p' bucket' scratch'. place_four e arr p (table bucket) scratch = Some (p', table bucket', scratch') \<and>
    placed e arr (nat (p' + 1)) bucket' scratch' \<and> - 1 \<le> p' \<and> p' < int (length arr)"
  using assms
proof (induction "nat (p + 1)" arbitrary: p bucket scratch rule: less_induct)
  case less
  show ?case
  proof (cases "3 \<le> p")
    case True
    define m where "m = nat (p - 3)"
    have p: "p = int m + 3" "m + 3 < length arr" using True less.prems(3) by (auto simp: m_def)
    let ?a0 = "arr ! (m + 3)" and ?a1 = "arr ! (m + 2)" and ?a2 = "arr ! (m + 1)" and ?a3 = "arr ! m"
    let ?b1 = "take_one (digit e ?a0) bucket"
    let ?b2 = "take_one (digit e ?a1) ?b1"
    let ?b3 = "take_one (digit e ?a2) ?b2"
    have "placed e arr (Suc (m + 3)) bucket scratch" using less.prems(1) p(1) by (simp add: nat_add_distrib numeral_eq_Suc)
    then obtain sc1 where s1: "word_store scratch (bucket (digit e ?a0) - 1) ?a0 = Some sc1" "placed e arr (Suc (m + 2)) ?b1 sc1"
      using place_step_four [of e arr "m + 3"] p(2) by (auto simp: numeral_eq_Suc)
    obtain sc2 where s2: "word_store sc1 (?b1 (digit e ?a1) - 1) ?a1 = Some sc2" "placed e arr (Suc (m + 1)) ?b2 sc2"
      using place_step_four [OF s1(2)] p(2) by (auto simp: numeral_eq_Suc)
    obtain sc3 where s3: "word_store sc2 (?b2 (digit e ?a2) - 1) ?a2 = Some sc3" "placed e arr (Suc m) ?b3 sc3"
      using place_step_four [OF s2(2)] p(2) by auto
    obtain sc4 where s4: "word_store sc3 (?b3 (digit e ?a3) - 1) ?a3 = Some sc4" "placed e arr m (take_one (digit e ?a3) ?b3) sc4"
      using place_step_four [OF s3(2)] p(2) by auto
    have "word_load arr p = Some ?a0" "word_load arr (p - 1) = Some ?a1" "word_load arr (p - 2) = Some ?a2" "word_load arr (p - 3) = Some ?a3"
      using p by (simp_all add: word_load_def nat_add_distrib)
    then have "place_four e arr p (table bucket) scratch = place_four e arr (p - 4) (table (take_one (digit e ?a3) ?b3)) sc4"
      using True s1(1) s2(1) s3(1) s4(1) by (subst place_four.simps) (simp add: fetch_sub)
    then show ?thesis using less.hyps [of "p - 4" "take_one (digit e ?a3) ?b3" sc4] s4(2) p less.prems(3) by simp
  next
    case False
    then show ?thesis using less.prems by (subst place_four.simps) auto
  qed
qed

lemma rsort_pass_correct:
  assumes "length scratch = length arr" "length bucket = 256"
  shows "\<exists>bucket'. rsort_pass e bucket arr scratch = Some (bucket', sort_key (digit e) arr) \<and> length bucket' = 256"
proof -
  obtain p where p: "count_four e arr 0 (table (\<lambda>_. 0)) = Some (p, table (counts e (take (nat p) arr)))" "0 \<le> p" "p \<le> int (length arr)"
    using count_four_correct [of 0 arr e] by auto
  have "placed e arr (length arr) (counts_upto e arr) scratch"
  proof -
    have "counts_upto e arr d = int (smaller e arr d + equals e arr d)" for d
      unfolding counts_upto_def smaller_def equals_def by (induction arr) auto
    then show ?thesis using assms by (auto simp: placed_def)
  qed
  then obtain p' bucket' scratch' where four: "place_four e arr (int (length arr) - 1) (table (counts_upto e arr)) scratch = Some (p', table bucket', scratch')"
    "placed e arr (nat (p' + 1)) bucket' scratch'" "- 1 \<le> p'" "p' < int (length arr)"
    using place_four_correct [of e arr "int (length arr) - 1" "counts_upto e arr" scratch] by auto
  obtain bucket'' where "place_one e arr p' (table bucket') scratch' = Some (table bucket'', sort_key (digit e) arr)"
    using place_one_correct [OF four(2-4)] by blast
  then show ?thesis
    using p(1) count_one_correct [OF p(2,3)] four(1) clear_buckets_table [OF assms(2)]
    by (simp add: rsort_pass_def prefix_sums_correct length_table)
qed

lemma rsort_loop_step:
  assumes "length scratch = length arr" "length bucket = 256" "e < 32"
  obtains bucket' where "rsort_loop e swapped bucket arr scratch = rsort_loop (e + 8) (\<not> swapped) bucket' (sort_key (digit e) arr) arr"
    "length bucket' = 256"
proof -
  obtain bucket' where b: "rsort_pass e bucket arr scratch = Some (bucket', sort_key (digit e) arr)" "length bucket' = 256"
    using rsort_pass_correct [OF assms(1,2)] by blast
  show thesis by (rule that [OF _ b(2)], subst rsort_loop.simps) (simp add: assms(3) b(1))
qed

text \<open>C21. The radix sort benchmark returns the sorted array for every input, with a scratch array of the same length and any content of the 256 buckets, and each pass is a stable sort by one digit: the unrolled counting, summing and distributing loops access no cell outside of the arrays or the buckets.\<close>

theorem rsort_correct:
  assumes "length buckets = BASE" "length scratch = length arr"
  shows "(\<exists>scratch'. rsort buckets arr scratch = Some (sort arr, scratch')) \<and>
    (\<exists>buckets'. rsort_pass e buckets arr scratch = Some (buckets', sort_key (digit e) arr))"
proof -
  let ?x1 = "sort_key (digit 0) arr" and ?x2 = "sort_key (digit 8) (sort_key (digit 0) arr)"
  let ?x3 = "sort_key (digit 16) ?x2"
  let ?x4 = "sort_key (digit 24) ?x3"
  obtain b1 where b1: "rsort_loop 0 False buckets arr scratch = rsort_loop 8 True b1 ?x1 arr" "length b1 = 256"
    using rsort_loop_step [OF assms(2,1), of 0 False] by auto
  obtain b2 where b2: "rsort_loop 8 True b1 ?x1 arr = rsort_loop 16 False b2 ?x2 ?x1" "length b2 = 256"
    using rsort_loop_step [of arr ?x1 b1 8 True] b1(2) by auto
  obtain b3 where b3: "rsort_loop 16 False b2 ?x2 ?x1 = rsort_loop 24 True b3 ?x3 ?x2" "length b3 = 256"
    using rsort_loop_step [of ?x1 ?x2 b2 16 False] b2(2) by auto
  obtain b4 where b4: "rsort_loop 24 True b3 ?x3 ?x2 = rsort_loop 32 False b4 ?x4 ?x3"
    using rsort_loop_step [of ?x2 ?x3 b3 24 True] b3(2) by auto
  have run: "rsort buckets arr scratch = Some (?x4, ?x3)"
    unfolding rsort_def b1(1) b2(1) b3(1) b4 by (subst rsort_loop.simps) simp
  have "sorted (map (\<lambda>a. unat a mod 2 ^ 0) arr)" by (induction arr) auto
  from sorted_digit_step [OF this] have "sorted (map (\<lambda>a. unat a mod 2 ^ 8) ?x1)" by simp
  from sorted_digit_step [OF this] have "sorted (map (\<lambda>a. unat a mod 2 ^ 16) ?x2)" by simp
  from sorted_digit_step [OF this] have "sorted (map (\<lambda>a. unat a mod 2 ^ 24) ?x3)" by simp
  from sorted_digit_step [OF this] have "sorted (map (\<lambda>a. unat a mod 2 ^ 32) ?x4)" by simp
  moreover have "unat a mod 2 ^ 32 = unat a" for a :: u32 using unsigned_less [of a, where ?'a = nat] by simp
  ultimately have "sorted_wrt (\<lambda>a b. unat a \<le> unat b) ?x4" by (simp add: sorted_map)
  then have "sorted ?x4" by (rule sorted_wrt_mono_rel [rotated]) (simp add: word_le_nat_alt)
  then have "?x4 = sort arr" by (intro properties_for_sort [symmetric]) simp_all
  then show ?thesis using run rsort_pass_correct [OF assms(2,1), of e] by auto
qed

theorem rsort_correct_witness:
  "(\<exists>scratch'. rsort (replicate BASE 7) [5, 0x10000, 3, 0x300, 7] [0, 0, 0, 0, 0] = Some (sort [5, 0x10000, 3, 0x300, 7], scratch')) \<and>
   (\<exists>buckets'. rsort_pass 8 (replicate BASE 7) [5, 0x10000, 3, 0x300, 7] [0, 0, 0, 0, 0] = Some (buckets', sort_key (digit 8) [5, 0x10000, 3, 0x300, 7]))"
  by (rule rsort_correct) simp_all

end
