(* ===== verification/Bench_Kernels.thy ===== *)
theory Bench_Kernels
  imports Prelude "HOL-Library.Monad_Syntax"
begin

unbundle bit_operations_syntax

text \<open>
  Small kernels of the benchmarks: \<^verbatim>\<open>multiply\<close> (\<^verbatim>\<open>benchmarks/multiply/multiply.c\<close>), the median filter
  (\<^verbatim>\<open>benchmarks/median/median.c\<close>) and \<^verbatim>\<open>verify\<close> (\<^verbatim>\<open>benchmarks/common/util.h\<close>), with which the benchmarks check their results.
\<close>

section \<open>The kernels\<close>

text \<open>On the 32-bit integers of the core \<^verbatim>\<open>>>\<close> is the arithmetic shift and the other operations wrap around.\<close>

primrec multiply_loop :: "nat \<Rightarrow> u32 \<Rightarrow> u32 \<Rightarrow> u32 \<Rightarrow> u32" where
  "multiply_loop 0 x y result = result"
| "multiply_loop (Suc i) x y result =
     multiply_loop i (signed_drop_bit 1 x) (push_bit 1 y) (if x AND 1 = 1 then result + y else result)"

definition multiply :: "u32 \<Rightarrow> u32 \<Rightarrow> u32" where
  "multiply x y = multiply_loop 32 x y 0"

definition int_load :: "int list \<Rightarrow> int \<Rightarrow> int option" where
  "int_load arr i = (if 0 \<le> i \<and> i < int (length arr) then Some (arr ! nat i) else None)"

definition int_store :: "int list \<Rightarrow> int \<Rightarrow> int \<Rightarrow> int list option" where
  "int_store arr i v = (if 0 \<le> i \<and> i < int (length arr) then Some (arr[nat i := v]) else None)"

definition median_value :: "int \<Rightarrow> int \<Rightarrow> int \<Rightarrow> int" where
  "median_value A B C =
     (if A < B then if B < C then B else if C < A then A else C
      else if A < C then A else if C < B then B else C)"

function median_loop :: "int \<Rightarrow> int \<Rightarrow> int list \<Rightarrow> int list \<Rightarrow> int list option" where
  "median_loop i n input results =
     (if i < n - 1 then do {
        A \<leftarrow> int_load input (i - 1);
        B \<leftarrow> int_load input i;
        C \<leftarrow> int_load input (i + 1);
        results \<leftarrow> int_store results i (median_value A B C);
        median_loop (i + 1) n input results }
      else Some results)"
  by pat_completeness auto
termination by (relation "measure (\<lambda>(i, n, input, results). nat (n - i))") auto

definition median :: "int \<Rightarrow> int list \<Rightarrow> int list \<Rightarrow> int list option" where
  "median n input results = do {
     results \<leftarrow> int_store results 0 0;
     results \<leftarrow> int_store results (n - 1) 0;
     median_loop 1 n input results }"

function verify_loop :: "int \<Rightarrow> int \<Rightarrow> int list \<Rightarrow> int list \<Rightarrow> int option" where
  "verify_loop i n test ref =
     (if i < n div 2 * 2 then do {
        t0 \<leftarrow> int_load test i;
        t1 \<leftarrow> int_load test (i + 1);
        v0 \<leftarrow> int_load ref i;
        v1 \<leftarrow> int_load ref (i + 1);
        if t0 \<noteq> v0 then Some (i + 1)
        else if t1 \<noteq> v1 then Some (i + 2)
        else verify_loop (i + 2) n test ref }
      else if n mod 2 \<noteq> 0 then do {
        t \<leftarrow> int_load test (n - 1);
        v \<leftarrow> int_load ref (n - 1);
        Some (if t \<noteq> v then n else 0) }
      else Some 0)"
  by pat_completeness auto
termination by (relation "measure (\<lambda>(i, n, test, ref). nat (n - i))") auto

definition verify :: "int \<Rightarrow> int list \<Rightarrow> int list \<Rightarrow> int option" where
  "verify n test ref = verify_loop 0 n test ref"

declare median_loop.simps [simp del] verify_loop.simps [simp del]

section \<open>Multiplication\<close>

lemma take_bit_signed_shift:
  "n < 32 \<Longrightarrow> take_bit n (signed_drop_bit (Suc 0) x) = take_bit n (drop_bit (Suc 0) (x :: u32))"
  by (rule bit_eqI) (auto simp: bit_simps bit_signed_drop_bit_iff)

lemma multiply_loop_eq: "n \<le> 32 \<Longrightarrow> multiply_loop n x y r = r + take_bit n x * y"
proof (induction n arbitrary: x y r)
  case (Suc n)
  have split: "take_bit (Suc n) x = take_bit n (drop_bit (Suc 0) x) * 2 + (if odd x then 1 else 0)"
    by (simp add: take_bit_Suc drop_bit_Suc mod_2_eq_odd)
  have bit: "x AND 1 = 1 \<longleftrightarrow> odd x" by (simp add: and_one_eq odd_iff_mod_2_eq_one)
  show ?case unfolding split using Suc by (simp add: bit take_bit_signed_shift push_bit_eq_mult algebra_simps)
qed simp

lemma take_bit_all: "take_bit 32 x = (x :: u32)"
  by (rule bit_eqI) (auto simp: bit_simps)

section \<open>Median\<close>

lemma median_value_correct: "median_value A B C = sort [A, B, C] ! 1"
  by (auto simp: median_value_def)

definition median_list :: "int list \<Rightarrow> int list" where
  "median_list xs = map (\<lambda>i. if i = 0 \<or> i = length xs - 1 then 0 else sort [xs ! (i - 1), xs ! i, xs ! (i + 1)] ! 1) [0..<length xs]"

lemma median_loop_correct:
  assumes "1 \<le> i" "i < length xs" "length rs = length xs" "\<And>j. j < i \<or> j = length xs - 1 \<Longrightarrow> rs ! j = median_list xs ! j"
  shows "median_loop (int i) (int (length xs)) xs rs = Some (median_list xs)"
  using assms
proof (induction "length xs - i" arbitrary: i rs)
  case (Suc m)
  show ?case
  proof (cases "i = length xs - 1")
    case True
    then have "rs = median_list xs" using Suc.prems by (intro nth_equalityI) (auto simp: median_list_def)
    then show ?thesis using True Suc.prems by (subst median_loop.simps) auto
  next
    case False
    let ?rs = "rs[i := median_value (xs ! (i - 1)) (xs ! i) (xs ! (i + 1))]"
    have "?rs ! j = median_list xs ! j" if "j < Suc i \<or> j = length xs - 1" for j
      using that Suc.prems False by (cases "j = i") (auto simp: median_list_def median_value_correct)
    then have "median_loop (int (Suc i)) (int (length xs)) xs ?rs = Some (median_list xs)"
      using Suc.hyps(1) [of "Suc i" ?rs] Suc.hyps(2) Suc.prems False by auto
    moreover have "int_load xs (int i - 1) = Some (xs ! (i - 1))" "int_load xs (int i) = Some (xs ! i)" "int_load xs (int i + 1) = Some (xs ! (i + 1))"
      "int_store rs (int i) v = Some (rs[i := v])" for v
      using Suc.prems False by (auto simp: int_load_def int_store_def nat_diff_distrib nat_add_distrib)
    moreover have "int i < int (length xs) - 1" using False Suc.prems(2) by linarith
    ultimately show ?thesis by (subst median_loop.simps) (simp add: add.commute)
  qed
qed simp

section \<open>Checking results\<close>

definition first_difference :: "int list \<Rightarrow> int list \<Rightarrow> nat \<Rightarrow> int" where
  "first_difference xs ys k = (case find (\<lambda>i. xs ! i \<noteq> ys ! i) [k..<length xs] of None \<Rightarrow> 0 | Some i \<Rightarrow> int i + 1)"

lemma first_difference_step:
  "k < length xs \<Longrightarrow> first_difference xs ys k = (if xs ! k \<noteq> ys ! k then int k + 1 else first_difference xs ys (Suc k))"
  by (simp add: first_difference_def upt_conv_Cons)

lemma verify_loop_correct:
  assumes "length ys = length xs" "2 * k \<le> length xs"
  shows "verify_loop (int (2 * k)) (int (length xs)) xs ys = Some (first_difference xs ys (2 * k))"
  using assms(2)
proof (induction "length xs - 2 * k" arbitrary: k rule: less_induct)
  case less
  have load: "int_load xs (int i) = Some (xs ! i)" "int_load ys (int i) = Some (ys ! i)" if "i < length xs" for i
    using that assms(1) by (auto simp: int_load_def)
  show ?case
  proof (cases "2 * k + 1 < length xs")
    case True
    then have "int (2 * k) < int (length xs) div 2 * 2" by linarith
    moreover have "verify_loop (int (2 * Suc k)) (int (length xs)) xs ys = Some (first_difference xs ys (2 * Suc k))"
      using less.hyps [of "Suc k"] True by simp
    ultimately show ?thesis
      using True load [of "2 * k"] load [of "2 * k + 1"] first_difference_step [of "2 * k" xs ys] first_difference_step [of "2 * k + 1" xs ys]
      by (subst verify_loop.simps) (simp add: add.commute)
  next
    case False
    have d: "int (length xs) div 2 * 2 = int (length xs div 2 * 2)" "int (length xs) mod 2 = int (length xs mod 2)" by (simp_all add: zdiv_int zmod_int)
    show ?thesis
    proof (cases "2 * k = length xs")
      case True
      then have "int (length xs) div 2 * 2 = int (length xs)" "int (length xs) mod 2 = 0" by presburger+
      then show ?thesis using True by (subst verify_loop.simps) (simp add: first_difference_def)
    next
      case odd: False
      then have l: "length xs = 2 * k + 1" using False less.prems by simp
      then have "int (length xs) div 2 * 2 = int (2 * k)" "int (length xs) mod 2 = 1" "int (length xs) - 1 = int (2 * k)" by (simp_all add: d)
      then show ?thesis
        using l load [of "2 * k"] first_difference_step [of "2 * k" xs ys] by (subst verify_loop.simps) (simp add: first_difference_def)
    qed
  qed
qed

text \<open>C25. multiply is the product modulo 2^32 for negative operands too; median writes zero at both ends and the median of three neighbours elsewhere, inside of its arrays; verify returns the position of the first difference, counted from one, or zero.\<close>

theorem kernels_correct:
  assumes "xs \<noteq> []" "length rs = length xs"
  shows "multiply x y = x * y \<and> median (int (length xs)) xs rs = Some (median_list xs) \<and>
    verify (int (length xs)) xs rs = Some (first_difference xs rs 0)"
proof -
  have "multiply x y = x * y" using multiply_loop_eq [of 32 x y 0] by (simp add: multiply_def take_bit_all)
  moreover have "verify (int (length xs)) xs rs = Some (first_difference xs rs 0)"
    using verify_loop_correct [OF assms(2), of 0] by (simp add: verify_def)
  moreover have "median (int (length xs)) xs rs = Some (median_list xs)"
  proof -
    let ?rs = "rs[0 := 0, length xs - 1 := 0]"
    have last: "nat (int (length xs) - 1) = length xs - Suc 0" by linarith
    have start: "median (int (length xs)) xs rs = median_loop 1 (int (length xs)) xs ?rs"
      using assms last by (simp add: median_def int_store_def)
    have zero: "?rs ! j = median_list xs ! j" if "j < 1 \<or> j = length xs - 1" for j
      using that assms by (cases "length xs = 1") (auto simp: median_list_def nth_list_update)
    show ?thesis
    proof (cases "length xs = 1")
      case True
      have eq: "?rs = median_list xs" using zero True assms by (intro nth_equalityI) (auto simp: median_list_def)
      show ?thesis unfolding start eq using True by (subst median_loop.simps) simp
    next
      case False
      then show ?thesis unfolding start using median_loop_correct [of 1 xs ?rs] zero assms by (cases "length xs") auto
    qed
  qed
  ultimately show ?thesis by blast
qed

theorem kernels_correct_witness:
  "multiply 20 (- 3) = 20 * (- 3) \<and> median 5 [3, 1, 2, 9, 4] [0, 0, 0, 0, 0] = Some (median_list [3, 1, 2, 9, 4]) \<and>
   verify 5 [3, 1, 2, 9, 4] [0, 0, 0, 0, 0] = Some (first_difference [3, 1, 2, 9, 4] [0, 0, 0, 0, 0] 0)"
  using kernels_correct [of "[3, 1, 2, 9, 4]" "[0, 0, 0, 0, 0]" 20 "- 3"] by simp

end
