(* ===== verification/Spec2Isabelle.thy ===== *)
theory Spec2Isabelle
  imports Softfloat_Add Softfloat_Mul Softfloat_Div Softfloat_Compare Softfloat_ToInt Softfloat_Convert Softfloat_RoundToInt
    Softfloat_MulAddF64 Softfloat_Rem Softfloat_Sqrt Coremark_ListBench Vm_Pager Env_String Bench_Qsort Bench_Rsort Bench_Towers
    Bench_Kernels
begin

text \<open>
  A verification development of the C code of HiCore, a 32-bit RISC-V core with its tools and test programs.

  \<^bold>\<open>The program.\<close>  The repository holds the core as Verilog, the instruction-set simulator Spike with which runs of the core are
  compared, and the programs that run on both.  The C code of its own logic has three parts:

  \<^item> Berkeley SoftFloat 3a, the floating-point unit of the simulator (\<^verbatim>\<open>src/riscv-tools/riscv-isa-sim/softfloat\<close>).  Spike calls
    one function per floating-point instruction, sets the rounding mode before it and reads the exception flags after it.
  \<^item> CoreMark for the core (\<^verbatim>\<open>core_util.c\<close>, \<^verbatim>\<open>core_state.c\<close>, \<^verbatim>\<open>core_matrix.c\<close>, \<^verbatim>\<open>core_list_join.c\<close>, \<^verbatim>\<open>core_main.c\<close>).  The list benchmark
    calls the other two through the comparison of list items, and all results go into one checksum.
  \<^item> The test environment and benchmarks of \<^verbatim>\<open>riscv-tests\<close>: the pager under which a test runs in virtual memory (\<^verbatim>\<open>env/v/vm.c\<close>,
    \<^verbatim>\<open>env/v/string.c\<close>) and the benchmarks \<^verbatim>\<open>qsort\<close>, \<^verbatim>\<open>rsort\<close>, \<^verbatim>\<open>towers\<close>, \<^verbatim>\<open>multiply\<close> and \<^verbatim>\<open>median\<close>.

  \<^bold>\<open>SoftFloat.\<close>
  \<^item> \<open>Prelude\<close>: the C integer types as words, and words read as integers.  \<open>Softfloat_State\<close>: the global variables as a record that
    every function takes and returns (\<^verbatim>\<open>softfloat_state.c\<close>), the flags and the field macros (\<^verbatim>\<open>internals.h\<close>).
    \<open>Softfloat_Primitives\<close>: shifts with sticky bits, leading zeros, 128-bit arithmetic and the reciprocal (\<^verbatim>\<open>primitives.h\<close>, \<^verbatim>\<open>s_*.c\<close>).
  \<^item> \<open>Float_Spec\<close>: IEEE 754 rounding over the reals, without reference to the code.  \<open>Ieee_Operations\<close>, \<open>Conversion_Spec\<close> and
    \<open>Fused_Spec\<close> say with it what each operation has to return, NaNs, infinities, signed zeros and flags included.
  \<^item> \<open>Rounding_Contract\<close> and \<open>Integer_Contract\<close>: the contracts of the rounding routines as the locales \<open>round_pack\<close>,
    \<open>norm_round_pack\<close> and \<open>int_pack\<close>, and what follows for every operation that ends in such a routine.  \<open>Softfloat_Round\<close> and
    \<open>Softfloat_RoundInt\<close> model the routines (\<^verbatim>\<open>s_roundPackTo*.c\<close>) and interpret the locales on them.
  \<^item> One theory for each group of operations: \<open>Softfloat_Add\<close> (\<^verbatim>\<open>f32_add\<close>, \<^verbatim>\<open>f32_sub\<close>, \<^verbatim>\<open>s_addMags*\<close>, \<^verbatim>\<open>s_subMags*\<close>), \<open>Softfloat_Mul\<close>,
    \<open>Softfloat_Div\<close>, \<open>Softfloat_MulAddF32\<close> and \<open>Softfloat_MulAddF64\<close>, \<open>Softfloat_Rem\<close>, \<open>Softfloat_RecipSqrt\<close> and \<open>Softfloat_Sqrt\<close>,
    \<open>Softfloat_Compare\<close> (with the locale \<open>float_order\<close>), \<open>Softfloat_ToInt\<close>, \<open>Softfloat_Convert\<close>, \<open>Softfloat_RoundToInt\<close>.  Their theorems say that
    each function returns, for all operands and rounding modes, the exact result rounded once and raises exactly the flags of
    the standard.  The one exception is \<^verbatim>\<open>f64_sqrt\<close>, which is one unit in the last place off for some operands.

  \<^bold>\<open>CoreMark.\<close>
  \<^item> \<open>Coremark_Util\<close>: the checksums are a linear feedback shift register that detects every change of one value.
  \<^item> \<open>Coremark_State\<close>, \<open>Coremark_StateBench\<close>: the state machine recognises the number formats given as an inductive predicate;
    the block it runs on is built as described and, under stated conditions, restored.
  \<^item> \<open>Coremark_Matrix\<close>: the matrix product, the bounds of the three matrices in their block, and that a run restores its input.
  \<^item> \<open>Coremark_List\<close>, \<open>Coremark_Sort\<close>, \<open>Coremark_ListBench\<close>: linked lists on stores of cells and data items.  The in-place merge sort
    refines a merge sort on lists for every comparison that satisfies the locale \<open>comparator\<close>; \<open>key_comparator\<close> and
    \<open>marking_comparator\<close> extend it, and all are interpreted on \<^verbatim>\<open>cmp_idx\<close> and \<^verbatim>\<open>cmp_complex\<close>.  The benchmark leaves the list as it was, so that
    \<^verbatim>\<open>iterate\<close> returns for every number of iterations.

  \<^bold>\<open>Test environment and benchmarks.\<close>
  \<^item> \<open>Vm_Pager\<close>: page tables, free list, page faults, system calls and boot code of \<^verbatim>\<open>vm.c\<close>.  The states a test can reach are the inductive
    predicate \<open>test_run\<close>; by rule induction they satisfy an invariant from which faults are served, the pages of the test behave as flat memory, and the end of a test releases every page.
    The page tables and the free list are kept apart from the physical pages, which is exact for image pages that do not hold these variables.
  \<^item> \<open>Env_String\<close>: \<^verbatim>\<open>memcpy\<close> to \<^verbatim>\<open>atol\<close> of \<^verbatim>\<open>string.c\<close> on a memory of bytes.
  \<^item> \<open>Bench_Qsort\<close>, \<open>Bench_Rsort\<close>: both sorts return the sorted array and stay inside of their arrays.  \<open>Bench_Towers\<close>: the program,
    built with \<^verbatim>\<open>PREALLOCATE\<close> as in the makefile, solves the puzzle twice by its rules.  \<open>Bench_Kernels\<close>: \<^verbatim>\<open>multiply\<close>, \<^verbatim>\<open>median\<close> and \<^verbatim>\<open>verify\<close>.

  \<^bold>\<open>Conventions.\<close>  Unsigned integers are words of their width and wrap around.  Signed integers are \<^typ>\<open>int\<close> where the code cannot overflow
  and words where its result depends on the width.  Arrays are lists, linked structures stores of records; an access outside of an array and the use of a null
  pointer are the value \<^const>\<open>None\<close>.  A loop is a function with a termination proof, or a partial function for which \<^const>\<open>None\<close>
  also stands for a run that does not end; the theorems then say that it returns.  No fuel is used.  Bounds that appear in theorems come from the code: the
  quicksort has a stack of 50 entries, enough for fewer than 11 * 2^24 elements; the shift that gives the expected number of moves limits the
  Towers of Hanoi to 30 discs; an access to a page faults at most three times, for the mapping, the accessed and the dirty bit.

  \<^bold>\<open>Deviations of the code.\<close>  Theorems show that \<^verbatim>\<open>f64_sqrt\<close> does not round to nearest for some operands, that the subtracting fused
  multiply-add loses the sign of an infinite addend, that the coherence traffic of \<^verbatim>\<open>vm.c\<close> stops after 32 steps, that the end of a test overwrites the pages
  of the test with the image and not the other way round, which corruptions the state benchmark does not undo, that one scientific pattern is rejected by the state machine, and by
  how much an unaligned matrix block can be overrun.

  \<^bold>\<open>Not modelled.\<close>
  \<^item> The M routines of SoftFloat: variants of modelled functions for builds without 64-bit integers, not called in this configuration.
  \<^item> \<^verbatim>\<open>main\<close> of CoreMark and its port: reading of seeds, timing and output.  Output of debugging text.
  \<^item> Spike and the front-end server: C++ classes around memory, devices, ELF files and the host.
  \<^item> Dhrystone: assignments to records and strings between calls of the timer; it has no result of its own.
  \<^item> Of \<^verbatim>\<open>riscv-tests\<close>: \<^verbatim>\<open>syscalls.c\<close> (host calls, formatted output), the floating-point benchmarks, the programs for several cores, which
    synchronise through the host, \<^verbatim>\<open>selection_sort\<close>, which is not called, and the assembly tests.
  \<^item> Tables of constants (\<^verbatim>\<open>encoding.h\<close>, \<^verbatim>\<open>debug_defines.h\<close>), code generated by the Verilog simulator, and the Verilog of the core.
\<close>

end
